(* ===== verification/Prelude.thy ===== *)
theory Prelude
  imports Complex_Main "HOL-Library.Word" "HOL-Library.Char_ord"
begin

text \<open>
  Shared vocabulary of the development: bytes and big-endian integers as Python's
  \<^verbatim>\<open>struct\<close> module packs them, the list idioms of the sources (\<^verbatim>\<open>xs[-k:]\<close>,
  \<^verbatim>\<open>xs[i:j]\<close>), decimal and hexadecimal text, and the generic lemmas the component
  theories rest on. Nothing here models a file of the repository; the map of the
  repository starts with the component theories.
\<close>

section \<open>Fact collections\<close>

named_theorems bytes_simps \<open>lengths and inverses of the byte codecs\<close>
named_theorems state_inv \<open>preservation lemmas of the component invariants\<close>

section \<open>Bytes and big-endian integers\<close>

type_synonym byte = "8 word"
type_synonym bytes = "8 word list"

text \<open>\<open>be n x\<close> is the \<open>n\<close>-byte big-endian image of \<open>x\<close>; \<open>unbe\<close> reads one back.\<close>

primrec be :: "nat \<Rightarrow> nat \<Rightarrow> bytes" where
  "be 0 x = []"
| "be (Suc n) x = be n (x div 256) @ [of_nat (x mod 256)]"

definition unbe :: "bytes \<Rightarrow> nat" where
  "unbe bs = foldl (\<lambda>a b. a * 256 + unat b) 0 bs"

lemma length_be [simp, bytes_simps]: "length (be n x) = n"
  by (induction n arbitrary: x) auto

lemma unbe_Nil [simp]: "unbe [] = 0"
  by (simp add: unbe_def)

lemma unbe_snoc [simp]: "unbe (bs @ [b]) = unbe bs * 256 + unat b"
  by (simp add: unbe_def)

lemma unat_byte_less: "unat (b :: byte) < 256"
  using unsigned_less [of b, where ?'a = nat] by simp

lemma unat_byte_of_nat: "unat (of_nat (x mod 256) :: byte) = x mod 256"
  by (simp add: unat_of_nat)

lemma unbe_be: "unbe (be n x) = x mod 256 ^ n"
proof (induction n arbitrary: x)
  case (Suc n)
  have "unbe (be (Suc n) x) = (x div 256) mod 256 ^ n * 256 + x mod 256"
    using Suc by (simp only: be.simps unbe_snoc unat_byte_of_nat)
  also have "\<dots> = x mod 256 ^ Suc n"
    by (simp add: mod_mult2_eq)
  finally show ?case .
qed simp

lemma unbe_be_small [bytes_simps]: "x < 256 ^ n \<Longrightarrow> unbe (be n x) = x"
  by (simp add: unbe_be)

lemma unbe_less: "unbe bs < 256 ^ length bs"
proof (induction bs rule: rev_induct)
  case (snoc b bs)
  have "unat b < 256" by (rule unat_byte_less)
  with snoc show ?case by simp
qed simp

lemma be_unbe: "be (length bs) (unbe bs) = bs"
proof (induction bs rule: rev_induct)
  case (snoc b bs)
  have b: "unat b < 256" by (rule unat_byte_less)
  have d: "(unbe bs * 256 + unat b) div 256 = unbe bs"
    and m: "(unbe bs * 256 + unat b) mod 256 = unat b"
    using b by auto
  have "be (length (bs @ [b])) (unbe (bs @ [b])) = be (length bs) (unbe bs) @ [of_nat (unat b)]"
    by (simp only: length_append_singleton be.simps unbe_snoc d m)
  then show ?case using snoc by simp
qed simp

text \<open>Signed 64-bit fields (\<^verbatim>\<open>struct\<close> code \<^verbatim>\<open>q\<close>) as two's complement.\<close>

definition be_signed64 :: "int \<Rightarrow> bytes" where
  "be_signed64 i = be 8 (nat (i mod 2 ^ 64))"

definition unbe_signed64 :: "bytes \<Rightarrow> int" where
  "unbe_signed64 bs = (let u = int (unbe bs) in if u < 2 ^ 63 then u else u - 2 ^ 64)"

lemma length_be_signed64 [simp, bytes_simps]: "length (be_signed64 i) = 8"
  by (simp add: be_signed64_def)

lemma unbe_signed64_be [bytes_simps]:
  assumes "- (2 ^ 63) \<le> i" and "i < 2 ^ 63"
  shows "unbe_signed64 (be_signed64 i) = i"
proof -
  have lt: "nat (i mod 2 ^ 64) < 256 ^ 8"
  proof -
    have "i mod 2 ^ 64 < 2 ^ 64" by (rule pos_mod_bound) simp
    then have "i mod 2 ^ 64 < int (256 ^ 8)" by simp
    then show ?thesis by (simp add: nat_less_iff)
  qed
  have u: "int (unbe (be_signed64 i)) = i mod 2 ^ 64"
    unfolding be_signed64_def by (subst unbe_be_small [OF lt]) simp
  show ?thesis
  proof (cases "0 \<le> i")
    case True
    then have "i mod 2 ^ 64 = i" using assms by (intro mod_pos_pos_trivial) auto
    then show ?thesis using u assms by (simp add: unbe_signed64_def Let_def)
  next
    case False
    then have "(i + 2 ^ 64) mod 2 ^ 64 = i + 2 ^ 64"
      using assms by (intro mod_pos_pos_trivial) auto
    then have "i mod 2 ^ 64 = i + 2 ^ 64" by simp
    then show ?thesis using u assms False by (simp add: unbe_signed64_def Let_def)
  qed
qed

section \<open>Slices\<close>

text \<open>\<open>slice i n xs\<close> is \<^verbatim>\<open>xs[i:i + n]\<close>, \<open>last_n k xs\<close> is \<^verbatim>\<open>xs[-k:]\<close> for \<open>k > 0\<close>.\<close>

definition slice :: "nat \<Rightarrow> nat \<Rightarrow> 'a list \<Rightarrow> 'a list" where
  "slice i n xs = take n (drop i xs)"

definition last_n :: "nat \<Rightarrow> 'a list \<Rightarrow> 'a list" where
  "last_n k xs = drop (length xs - k) xs"

lemma length_last_n [simp]: "length (last_n k xs) = min k (length xs)"
  by (simp add: last_n_def)

lemma last_n_all: "length xs \<le> k \<Longrightarrow> last_n k xs = xs"
  by (simp add: last_n_def)

lemma set_last_n: "set (last_n k xs) \<subseteq> set xs"
  by (simp add: last_n_def set_drop_subset)

lemma distinct_last_n: "distinct xs \<Longrightarrow> distinct (last_n k xs)"
  by (simp add: last_n_def)

lemma last_n_Nil [simp]: "last_n k [] = []"
  by (simp add: last_n_def)

lemma last_last_n: "xs \<noteq> [] \<Longrightarrow> 0 < k \<Longrightarrow> last (last_n k xs) = last xs"
  by (simp add: last_n_def)

lemma slice_mid: "length pre = i \<Longrightarrow> length x = n \<Longrightarrow> slice i n (pre @ x @ post) = x"
  by (simp add: slice_def)

lemma slice_end: "length pre = i \<Longrightarrow> length x = n \<Longrightarrow> slice i n (pre @ x) = x"
  by (simp add: slice_def)

lemma slice_append_left: "i + n \<le> length xs \<Longrightarrow> slice i n (xs @ ys) = slice i n xs"
  by (simp add: slice_def)

lemma slice_append_right: "length xs = i \<Longrightarrow> slice i n (xs @ ys) = take n ys"
  by (simp add: slice_def)

lemma length_slice [simp]: "length (slice i n xs) = min n (length xs - i)"
  by (simp add: slice_def)

section \<open>Decimal and hexadecimal text\<close>

definition digit_char :: "nat \<Rightarrow> char" where
  "digit_char n = (if n < 10 then char_of (48 + n) else char_of (87 + n))"

definition digit_val :: "char \<Rightarrow> nat option" where
  "digit_val c = (let n = of_char c :: nat in
     if 48 \<le> n \<and> n \<le> 57 then Some (n - 48)
     else if 97 \<le> n \<and> n \<le> 102 then Some (n - 87)
     else if 65 \<le> n \<and> n \<le> 70 then Some (n - 55) else None)"

lemma digit_val_char [simp]: "n < 16 \<Longrightarrow> digit_val (digit_char n) = Some n"
  by (auto simp: digit_val_def digit_char_def Let_def)

fun str_of_nat :: "nat \<Rightarrow> string" where
  "str_of_nat n = (if n < 10 then [digit_char n] else str_of_nat (n div 10) @ [digit_char (n mod 10)])"

declare str_of_nat.simps [simp del]

definition str_of_int :: "int \<Rightarrow> string" where
  "str_of_int i = (if i < 0 then CHR ''-'' # str_of_nat (nat (- i)) else str_of_nat (nat i))"

text \<open>\<^verbatim>\<open>f"{n:0kd}"\<close> for \<open>0 \<le> n < 10 ^ k\<close>: exactly \<open>k\<close> decimal digits.\<close>

primrec pad_nat :: "nat \<Rightarrow> nat \<Rightarrow> string" where
  "pad_nat 0 n = []"
| "pad_nat (Suc k) n = pad_nat k (n div 10) @ [digit_char (n mod 10)]"

definition is_dec :: "char \<Rightarrow> bool" where
  "is_dec c = (let n = of_char c :: nat in 48 \<le> n \<and> n \<le> 57)"

definition dec_val :: "string \<Rightarrow> nat" where
  "dec_val s = foldl (\<lambda>a c. a * 10 + (of_char c - 48)) 0 s"

lemma is_dec_digit [simp]: "n < 10 \<Longrightarrow> is_dec (digit_char n)"
  by (auto simp: is_dec_def digit_char_def Let_def)

lemma of_char_digit: "n < 10 \<Longrightarrow> of_char (digit_char n) = (48 + n :: nat)"
  by (simp add: digit_char_def)

lemma length_pad_nat [simp]: "length (pad_nat k n) = k"
  by (induction k arbitrary: n) auto

lemma list_all_pad_nat [simp]: "list_all is_dec (pad_nat k n)"
  by (induction k arbitrary: n) auto

lemma dec_val_snoc [simp]: "dec_val (s @ [c]) = dec_val s * 10 + (of_char c - 48)"
  by (simp add: dec_val_def)

lemma dec_val_pad_nat: "dec_val (pad_nat k n) = n mod 10 ^ k"
proof (induction k arbitrary: n)
  case (Suc k)
  have "dec_val (pad_nat (Suc k) n) = (n div 10) mod 10 ^ k * 10 + n mod 10"
    using Suc by (simp add: of_char_digit)
  also have "\<dots> = n mod 10 ^ Suc k" by (simp add: mod_mult2_eq)
  finally show ?case .
qed (simp add: dec_val_def)

lemma list_all_str_of_nat [simp]: "list_all is_dec (str_of_nat n)"
  by (induction n rule: str_of_nat.induct) (subst str_of_nat.simps, auto)

lemma dec_val_str_of_nat [simp]: "dec_val (str_of_nat n) = n"
proof (induction n rule: str_of_nat.induct)
  case (1 n)
  then show ?case
    by (subst str_of_nat.simps) (auto simp: of_char_digit dec_val_def)
qed

lemma str_of_nat_inject [simp]: "str_of_nat m = str_of_nat n \<longleftrightarrow> m = n"
  by (metis dec_val_str_of_nat)

lemma str_of_nat_nonempty [simp]: "str_of_nat n \<noteq> []"
  by (subst str_of_nat.simps) simp

text \<open>\<^verbatim>\<open>sep.join(parts)\<close> and \<^verbatim>\<open>text.split(sep)\<close> for a one-character separator.\<close>

fun join_with :: "'a \<Rightarrow> 'a list list \<Rightarrow> 'a list" where
  "join_with c [] = []"
| "join_with c [x] = x"
| "join_with c (x # y # zs) = x @ [c] @ join_with c (y # zs)"

fun split_on :: "'a \<Rightarrow> 'a list \<Rightarrow> 'a list list" where
  "split_on c [] = [[]]"
| "split_on c (x # xs) =
     (if x = c then [] # split_on c xs
      else case split_on c xs of [] \<Rightarrow> [[x]] | y # ys \<Rightarrow> (x # y) # ys)"

lemma split_on_nonempty [simp]: "split_on c xs \<noteq> []"
  by (induction xs) (auto split: list.splits)

lemma split_on_no_sep: "c \<notin> set xs \<Longrightarrow> split_on c xs = [xs]"
  by (induction xs) auto

lemma split_on_append: "c \<notin> set xs \<Longrightarrow> split_on c (xs @ c # ys) = xs # split_on c ys"
  by (induction xs) auto

lemma split_on_join_with:
  "xs \<noteq> [] \<Longrightarrow> (\<forall>x \<in> set xs. c \<notin> set x) \<Longrightarrow> split_on c (join_with c xs) = xs"
  by (induction c xs rule: join_with.induct) (auto simp: split_on_no_sep split_on_append)

section \<open>Lists and maps\<close>

lemma inj_on_join_with:
  "inj_on (join_with c) {xs. xs \<noteq> [] \<and> (\<forall>x \<in> set xs. c \<notin> set x)}"
  by (rule inj_onI) (metis (mono_tags, lifting) mem_Collect_eq split_on_join_with)

lemma sum_list_replicate_0 [simp]: "sum_list (replicate n (0::nat)) = 0"
  by (induction n) auto

text \<open>Association lists as insertion-ordered dictionaries (Python's \<^verbatim>\<open>dict\<close>, \<^verbatim>\<open>OrderedDict\<close>):
  a store to a present key keeps its place, a store to a new key goes to the end.\<close>

fun od_set :: "'k \<Rightarrow> 'v \<Rightarrow> ('k \<times> 'v) list \<Rightarrow> ('k \<times> 'v) list" where
  "od_set k v [] = [(k, v)]"
| "od_set k v ((k', v') # xs) = (if k = k' then (k, v) # xs else (k', v') # od_set k v xs)"

definition od_del :: "'k \<Rightarrow> ('k \<times> 'v) list \<Rightarrow> ('k \<times> 'v) list" where
  "od_del k xs = filter (\<lambda>p. fst p \<noteq> k) xs"

lemma map_of_od_set [simp]: "map_of (od_set k v xs) = (map_of xs)(k \<mapsto> v)"
  by (induction k v xs rule: od_set.induct) auto

lemma map_of_od_del [simp]: "map_of (od_del k xs) = (map_of xs)(k := None)"
  by (induction xs) (auto simp: od_del_def)

lemma keys_od_set: "map fst (od_set k v xs) = (if k \<in> fst ` set xs then map fst xs else map fst xs @ [k])"
  by (induction k v xs rule: od_set.induct) auto

lemma distinct_od_set [simp]: "distinct (map fst xs) \<Longrightarrow> distinct (map fst (od_set k v xs))"
  by (auto simp: keys_od_set)

lemma distinct_od_del [simp]: "distinct (map fst xs) \<Longrightarrow> distinct (map fst (od_del k xs))"
  by (simp add: od_del_def distinct_map_filter)

lemma od_set_new: "k \<notin> fst ` set xs \<Longrightarrow> od_set k v xs = xs @ [(k, v)]"
  by (induction k v xs rule: od_set.induct) auto

lemma od_del_absent: "k \<notin> fst ` set xs \<Longrightarrow> od_del k xs = xs"
  by (force simp: od_del_def intro: filter_True)

lemma od_set_append: "k \<notin> fst ` set xs \<Longrightarrow> od_set k v (xs @ ys) = xs @ od_set k v ys"
  by (induction xs) auto

lemma od_del_append: "od_del k (xs @ ys) = od_del k xs @ od_del k ys"
  by (simp add: od_del_def)

lemma od_del_singleton [simp]: "od_del k [(k, v)] = []"
  by (simp add: od_del_def)

lemma set_od_del: "set (od_del k xs) = {p \<in> set xs. fst p \<noteq> k}"
  by (auto simp: od_del_def)

lemma keys_od_del: "map fst (od_del k xs) = filter (\<lambda>y. y \<noteq> k) (map fst xs)"
  by (induction xs) (auto simp: od_del_def)

lemma length_od_set: "length (od_set k v xs) = (if k \<in> fst ` set xs then length xs else Suc (length xs))"
  by (induction k v xs rule: od_set.induct) auto

lemma length_od_del_le: "length (od_del k xs) \<le> length xs"
  by (simp add: od_del_def)

lemma length_od_del:
  "distinct (map fst xs) \<Longrightarrow> k \<in> fst ` set xs \<Longrightarrow> Suc (length (od_del k xs)) = length xs"
proof (induction xs)
  case (Cons p xs)
  show ?case
  proof (cases "fst p = k")
    case True
    then have "k \<notin> fst ` set xs" using Cons.prems by auto
    then show ?thesis using True od_del_absent [of k xs] by (simp add: od_del_def)
  next
    case False
    then show ?thesis using Cons by (auto simp: od_del_def)
  qed
qed simp

text \<open>A text is the HOL string of its UTF-8 bytes; \<open>utf8\<close> reads them as bytes.\<close>

definition utf8 :: "string \<Rightarrow> bytes" where
  "utf8 s = map of_char s"

section \<open>Results that may fail\<close>

definition andthen :: "'e + 'a \<Rightarrow> ('a \<Rightarrow> 'e + 'b) \<Rightarrow> 'e + 'b" where
  "andthen r k = (case r of Inl e \<Rightarrow> Inl e | Inr x \<Rightarrow> k x)"

definition need :: "'e \<Rightarrow> 'a option \<Rightarrow> 'e + 'a" where
  "need e v = (case v of None \<Rightarrow> Inl e | Some x \<Rightarrow> Inr x)"

definition ensure :: "bool \<Rightarrow> 'e \<Rightarrow> 'e + unit" where
  "ensure b e = (if b then Inr () else Inl e)"

lemma andthen_simps [simp]: "andthen (Inr x) k = k x" "andthen (Inl e) k = Inl e"
  by (simp_all add: andthen_def)

lemma andthen_Inr: "andthen r k = Inr y \<longleftrightarrow> (\<exists>x. r = Inr x \<and> k x = Inr y)"
  by (cases r) simp_all

lemma need_simps [simp]: "need e (Some x) = Inr x" "need e None = Inl e" "need e v = Inr x \<longleftrightarrow> v = Some x"
  by (auto simp: need_def split: option.splits)

lemma ensure_simps [simp]: "ensure True e = Inr ()" "ensure False e = Inl e" "ensure b e = Inr u \<longleftrightarrow> b"
  by (simp_all add: ensure_def)

end
