(* ===== verification/Hashes.thy ===== *)
theory Hashes
  imports Prelude
begin

text \<open>
  The standard-library digests the sources call, written out on words so that the codecs
  built on them are closed definitions: SHA-256 and HMAC-SHA256 (\<^verbatim>\<open>hashlib\<close>,
  \<^verbatim>\<open>hmac\<close>; link frames, record hashes), SHA-1 with the RFC 4122 version-5 layout
  (\<^verbatim>\<open>uuid.uuid5\<close>; deterministic identifiers), CRC-32 (\<^verbatim>\<open>zlib.crc32\<close>; the
  receiver's spool) and the UUID text form. The theorems use the length of a digest and that
  it is a function of its input; nothing rests on collision resistance.
\<close>

unbundle bit_operations_syntax

section \<open>SHA-256 and HMAC\<close>

type_synonym u32 = "32 word"

text \<open>The round constants of FIPS 180-4 in decimal.\<close>

definition sha256_k :: "u32 list" where
  "sha256_k =
    [1116352408, 1899447441, 3049323471, 3921009573, 961987163, 1508970993,
     2453635748, 2870763221, 3624381080, 310598401, 607225278, 1426881987,
     1925078388, 2162078206, 2614888103, 3248222580, 3835390401, 4022224774,
     264347078, 604807628, 770255983, 1249150122, 1555081692, 1996064986,
     2554220882, 2821834349, 2952996808, 3210313671, 3336571891, 3584528711,
     113926993, 338241895, 666307205, 773529912, 1294757372, 1396182291,
     1695183700, 1986661051, 2177026350, 2456956037, 2730485921, 2820302411,
     3259730800, 3345764771, 3516065817, 3600352804, 4094571909, 275423344,
     430227734, 506948616, 659060556, 883997877, 958139571, 1322822218,
     1537002063, 1747873779, 1955562222, 2024104815, 2227730452, 2361852424,
     2428436474, 2756734187, 3204031479, 3329325298]"

definition sha256_init :: "u32 list" where
  "sha256_init =
    [0x6a09e667, 0xbb67ae85, 0x3c6ef372, 0xa54ff53a, 0x510e527f, 0x9b05688c,
     0x1f83d9ab, 0x5be0cd19]"

text \<open>Bytes to words of 32 bits, most significant byte first, and the Merkle-Damgard padding.\<close>

fun words_of :: "bytes \<Rightarrow> u32 list" where
  "words_of (a # b # c # d # r) = of_nat (unbe [a, b, c, d]) # words_of r"
| "words_of _ = []"

definition bytes_of :: "u32 list \<Rightarrow> bytes" where
  "bytes_of ws = concat (map (\<lambda>w. be 4 (unat w)) ws)"

definition md_pad :: "bytes \<Rightarrow> bytes" where
  "md_pad m = m @ [0x80] @ replicate ((119 - length m mod 64) mod 64) 0 @ be 8 (8 * length m)"

fun blocks_of :: "nat \<Rightarrow> 'a list \<Rightarrow> 'a list list" where
  "blocks_of 0 xs = []"
| "blocks_of (Suc k) xs = take 64 xs # blocks_of k (drop 64 xs)"

definition sha256_next :: "u32 list \<Rightarrow> u32" where
  "sha256_next w =
     (let n = length w; w15 = w ! (n - 15); w2 = w ! (n - 2);
          s0 = word_rotr 7 w15 XOR word_rotr 18 w15 XOR drop_bit 3 w15;
          s1 = word_rotr 17 w2 XOR word_rotr 19 w2 XOR drop_bit 10 w2
      in w ! (n - 16) + s0 + w ! (n - 7) + s1)"

primrec extend_by :: "(u32 list \<Rightarrow> u32) \<Rightarrow> nat \<Rightarrow> u32 list \<Rightarrow> u32 list" where
  "extend_by f 0 w = w"
| "extend_by f (Suc k) w = extend_by f k (w @ [f w])"

fun sha256_round :: "u32 list \<Rightarrow> u32 \<times> u32 \<Rightarrow> u32 list" where
  "sha256_round [a, b, c, d, e, f, g, h] (k, w) =
     (let s1 = word_rotr 6 e XOR word_rotr 11 e XOR word_rotr 25 e;
          ch = (e AND f) XOR (NOT e AND g);
          t1 = h + s1 + ch + k + w;
          s0 = word_rotr 2 a XOR word_rotr 13 a XOR word_rotr 22 a;
          maj = (a AND b) XOR (a AND c) XOR (b AND c)
      in [t1 + (s0 + maj), a, b, c, d + t1, e, f, g])"
| "sha256_round s _ = s"

definition sha256_block :: "u32 list \<Rightarrow> bytes \<Rightarrow> u32 list" where
  "sha256_block h blk =
     map2 (+) h (foldl sha256_round h (zip sha256_k (extend_by sha256_next 48 (words_of blk))))"

definition sha256 :: "bytes \<Rightarrow> bytes" where
  "sha256 m = (let p = md_pad m
     in bytes_of (foldl sha256_block sha256_init (blocks_of (length p div 64) p)))"

definition hmac_sha256 :: "bytes \<Rightarrow> bytes \<Rightarrow> bytes" where
  "hmac_sha256 key msg =
     (let k0 = (if length key > 64 then sha256 key else key);
          k = k0 @ replicate (64 - length k0) 0
      in sha256 (map (\<lambda>b. b XOR 0x5c) k @ sha256 (map (\<lambda>b. b XOR 0x36) k @ msg)))"

lemma length_bytes_of [simp]: "length (bytes_of ws) = 4 * length ws"
  by (induction ws) (auto simp: bytes_of_def)

lemma length_sha256_round [simp]: "length (sha256_round s kw) = length s"
  by (induction s kw rule: sha256_round.induct) (auto simp: Let_def)

lemma length_foldl_round [simp]: "length (foldl sha256_round s kws) = length s"
  by (induction kws arbitrary: s) auto

lemma length_sha256_block [simp]: "length (sha256_block h b) = length h"
  by (simp add: sha256_block_def)

lemma length_foldl_block [simp]: "length (foldl sha256_block h bs) = length h"
  by (induction bs arbitrary: h) auto

lemma length_sha256 [simp, bytes_simps]: "length (sha256 m) = 32"
  by (simp add: sha256_def sha256_init_def Let_def)

lemma length_hmac_sha256 [simp, bytes_simps]: "length (hmac_sha256 k m) = 32"
  by (simp add: hmac_sha256_def Let_def)

section \<open>SHA-1\<close>

definition sha1_next :: "u32 list \<Rightarrow> u32" where
  "sha1_next w = (let n = length w in
     word_rotl 1 (w ! (n - 3) XOR w ! (n - 8) XOR w ! (n - 14) XOR w ! (n - 16)))"

definition sha1_fk :: "nat \<Rightarrow> u32 \<Rightarrow> u32 \<Rightarrow> u32 \<Rightarrow> u32" where
  "sha1_fk t b c d =
     (if t < 20 then ((b AND c) OR (NOT b AND d)) + 0x5a827999
      else if t < 40 then (b XOR c XOR d) + 0x6ed9eba1
      else if t < 60 then ((b AND c) OR (b AND d) OR (c AND d)) + 0x8f1bbcdc
      else (b XOR c XOR d) + 0xca62c1d6)"

fun sha1_round :: "u32 list \<Rightarrow> nat \<times> u32 \<Rightarrow> u32 list" where
  "sha1_round [a, b, c, d, e] (t, w) = [word_rotl 5 a + sha1_fk t b c d + e + w, a, word_rotl 30 b, c, d]"
| "sha1_round s _ = s"

definition sha1_block :: "u32 list \<Rightarrow> bytes \<Rightarrow> u32 list" where
  "sha1_block h blk =
     map2 (+) h (foldl sha1_round h (zip [0..<80] (extend_by sha1_next 64 (words_of blk))))"

definition sha1 :: "bytes \<Rightarrow> bytes" where
  "sha1 m = (let p = md_pad m
     in bytes_of (foldl sha1_block [0x67452301, 0xefcdab89, 0x98badcfe, 0x10325476, 0xc3d2e1f0]
          (blocks_of (length p div 64) p)))"

lemma length_sha1_round [simp]: "length (sha1_round s kw) = length s"
  by (induction s kw rule: sha1_round.induct) auto

lemma length_foldl_sha1_round [simp]: "length (foldl sha1_round s kws) = length s"
  by (induction kws arbitrary: s) auto

lemma length_foldl_sha1_block [simp]: "length (foldl sha1_block h bs) = length h"
  by (induction bs arbitrary: h) (auto simp: sha1_block_def)

lemma length_sha1 [simp, bytes_simps]: "length (sha1 m) = 20"
  by (simp add: sha1_def Let_def)

section \<open>CRC-32\<close>

definition crc_bit :: "u32 \<Rightarrow> u32" where
  "crc_bit c = (if c AND 1 = 1 then drop_bit 1 c XOR 0xedb88320 else drop_bit 1 c)"

definition crc_byte :: "u32 \<Rightarrow> byte \<Rightarrow> u32" where
  "crc_byte c b = (crc_bit ^^ 8) (c XOR ucast b)"

definition crc32 :: "bytes \<Rightarrow> nat" where
  "crc32 bs = unat (foldl crc_byte 0xffffffff bs XOR 0xffffffff)"

lemma crc32_less: "crc32 bs < 256 ^ 4"
proof -
  have "unat (w :: u32) < 2 ^ 32" for w
    using unsigned_less [of w, where ?'a = nat] by simp
  then show ?thesis unfolding crc32_def by simp
qed

section \<open>UUIDs\<close>

text \<open>
  A UUID is 16 bytes; \<^verbatim>\<open>str(uuid.UUID(bytes=b))\<close> is \<open>uuid_str b\<close>, and
  \<^verbatim>\<open>uuid.UUID(s).bytes\<close> is \<open>uuid_bytes s\<close> (None where it raises ValueError): hyphens
  are dropped and exactly 32 hexadecimal digits must remain. The \<^verbatim>\<open>urn:\<close>, \<^verbatim>\<open>uuid:\<close> and
  braced spellings that the constructor also accepts are never written by these sources.
\<close>

definition hex_byte :: "byte \<Rightarrow> string" where
  "hex_byte b = [digit_char (unat b div 16), digit_char (unat b mod 16)]"

definition hex_of :: "bytes \<Rightarrow> string" where
  "hex_of bs = concat (map hex_byte bs)"

fun unhex :: "string \<Rightarrow> bytes option" where
  "unhex [] = Some []"
| "unhex [_] = None"
| "unhex (a # b # r) =
     (case (digit_val a, digit_val b, unhex r) of
        (Some x, Some y, Some bs) \<Rightarrow> Some (of_nat (16 * x + y) # bs)
      | _ \<Rightarrow> None)"

definition uuid_str :: "bytes \<Rightarrow> string" where
  "uuid_str b = (let h = hex_of b in
     slice 0 8 h @ ''-'' @ slice 8 4 h @ ''-'' @ slice 12 4 h @ ''-'' @ slice 16 4 h @ ''-'' @ drop 20 h)"

definition uuid_bytes :: "string \<Rightarrow> bytes option" where
  "uuid_bytes s = (let h = filter (\<lambda>c. c \<noteq> CHR ''-'') s in
     if length h = 32 then unhex h else None)"

definition uuid5 :: "bytes \<Rightarrow> bytes \<Rightarrow> bytes" where
  "uuid5 ns name = (let h = take 16 (sha1 (ns @ name)) in
     h[6 := (h ! 6 AND 0x0f) OR 0x50, 8 := (h ! 8 AND 0x3f) OR 0x80])"

lemma length_uuid5 [simp, bytes_simps]: "length (uuid5 ns name) = 16"
  by (simp add: uuid5_def Let_def)

lemma length_hex_of [simp]: "length (hex_of bs) = 2 * length bs"
  by (induction bs) (auto simp: hex_of_def hex_byte_def)

lemma hex_of_Cons: "hex_of (b # bs) = hex_byte b @ hex_of bs"
  by (simp add: hex_of_def)

lemma hex_of_Nil [simp]: "hex_of [] = []"
  by (simp add: hex_of_def)

lemma nibbles_less: "unat (b :: byte) div 16 < 16" "unat (b :: byte) mod 16 < 16"
  using unat_byte_less [of b] by auto

lemma unhex_hex_of [simp]: "unhex (hex_of bs) = Some bs"
proof (induction bs)
  case (Cons b bs)
  have "16 * (unat b div 16) + unat b mod 16 = unat b" by simp
  then show ?case using Cons nibbles_less [of b]
    by (simp add: hex_of_Cons hex_byte_def)
qed simp

lemma digit_char_not_hyphen: "n < 16 \<Longrightarrow> digit_char n \<noteq> CHR ''-''"
proof
  assume "n < 16" and "digit_char n = CHR ''-''"
  then have "digit_val (CHR ''-'') = Some n" using digit_val_char by metis
  then show False by (simp add: digit_val_def)
qed

lemma hyphen_not_in_hex: "CHR ''-'' \<notin> set (hex_of bs)"
proof (induction bs)
  case (Cons b bs)
  then show ?case
    using digit_char_not_hyphen [OF nibbles_less(1) [of b]]
      digit_char_not_hyphen [OF nibbles_less(2) [of b]]
    by (simp add: hex_of_Cons hex_byte_def eq_commute)
qed simp

lemma filter_hex_slice: "filter (\<lambda>c. c \<noteq> CHR ''-'') (slice i n (hex_of bs)) = slice i n (hex_of bs)"
  using hyphen_not_in_hex [of bs]
  by (intro filter_True) (auto simp: slice_def dest: in_set_takeD in_set_dropD)

lemma slices_uuid: "slice 0 8 h @ slice 8 4 h @ slice 12 4 h @ slice 16 4 h @ drop 20 h = h"
proof -
  have cut: "drop i h = slice i n h @ drop (i + n) h" for i n
    by (metis append_take_drop_id drop_drop add.commute slice_def)
  show ?thesis
    using cut [of 0 8] cut [of 8 4] cut [of 12 4] cut [of 16 4] by simp
qed

lemma uuid_bytes_str: "length b = 16 \<Longrightarrow> uuid_bytes (uuid_str b) = Some b"
proof -
  assume len: "length b = 16"
  let ?h = "hex_of b"
  have "filter (\<lambda>c. c \<noteq> CHR ''-'') (drop 20 ?h) = drop 20 ?h"
    using filter_hex_slice [of 20 "length ?h" b] by (simp add: slice_def)
  then have "filter (\<lambda>c. c \<noteq> CHR ''-'') (uuid_str b) = ?h"
    by (simp add: uuid_str_def Let_def filter_hex_slice slices_uuid)
  then show ?thesis by (simp add: uuid_bytes_def Let_def len)
qed

lemma uuid_str_inject: "length b = 16 \<Longrightarrow> length c = 16 \<Longrightarrow> uuid_str b = uuid_str c \<longleftrightarrow> b = c"
  by (metis option.inject uuid_bytes_str)

section \<open>Base64\<close>

text \<open>
  \<^verbatim>\<open>base64.b64encode\<close> and \<^verbatim>\<open>b64decode\<close> on well-formed text. (The library's decoder also skips
  characters outside the alphabet; here they, and bad padding, give \<open>None\<close>.)
\<close>

definition b64_alphabet :: string where
  "b64_alphabet = ''ABCDEFGHIJKLMNOPQRSTUVWXYZabcdefghijklmnopqrstuvwxyz0123456789+/''"

definition b64_char :: "nat \<Rightarrow> char" where
  "b64_char i = b64_alphabet ! i"

fun index_in :: "'a \<Rightarrow> 'a list \<Rightarrow> nat option" where
  "index_in x [] = None"
| "index_in x (y # ys) = (if x = y then Some 0 else map_option Suc (index_in x ys))"

definition b64_val :: "char \<Rightarrow> nat option" where
  "b64_val c = index_in c b64_alphabet"

definition b64_quad :: "nat \<Rightarrow> string" where
  "b64_quad n = [b64_char (n div 262144 mod 64), b64_char (n div 4096 mod 64), b64_char (n div 64 mod 64), b64_char (n mod 64)]"

fun b64encode :: "bytes \<Rightarrow> string" where
  "b64encode [] = []"
| "b64encode [a] = take 2 (b64_quad (unat a * 65536)) @ ''==''"
| "b64encode [a, b] = take 3 (b64_quad (unat a * 65536 + unat b * 256)) @ ''=''"
| "b64encode (a # b # c # r) = b64_quad (unat a * 65536 + unat b * 256 + unat c) @ b64encode r"

definition b64_join :: "char list \<Rightarrow> nat option" where
  "b64_join cs = foldl (\<lambda>acc c. case (acc, b64_val c) of (Some n, Some v) \<Rightarrow> Some (64 * n + v) | _ \<Rightarrow> None) (Some 0) cs"

fun b64decode :: "string \<Rightarrow> bytes option" where
  "b64decode [] = Some []"
| "b64decode (p # q # r # s # t) =
     (if r = CHR ''='' \<and> s = CHR ''='' \<and> t = [] then
        (case b64_join [p, q] of Some n \<Rightarrow> Some [of_nat (n div 16)] | None \<Rightarrow> None)
      else if s = CHR ''='' \<and> t = [] then
        (case b64_join [p, q, r] of Some n \<Rightarrow> Some [of_nat (n div 1024), of_nat (n div 4 mod 256)] | None \<Rightarrow> None)
      else case (b64_join [p, q, r, s], b64decode t) of
        (Some n, Some bs) \<Rightarrow> Some (of_nat (n div 65536) # of_nat (n div 256 mod 256) # of_nat (n mod 256) # bs)
      | _ \<Rightarrow> None)"
| "b64decode _ = None"

lemma index_in_nth: "distinct xs \<Longrightarrow> i < length xs \<Longrightarrow> index_in (xs ! i) xs = Some i"
proof (induction xs arbitrary: i)
  case (Cons x xs)
  then show ?case by (cases i) auto
qed simp

lemma b64_alphabet_facts: "distinct b64_alphabet" "length b64_alphabet = 64" "CHR ''='' \<notin> set b64_alphabet"
  by (simp_all add: b64_alphabet_def)

lemma b64_val_char: "i < 64 \<Longrightarrow> b64_val (b64_char i) = Some i" "i < 64 \<Longrightarrow> b64_char i \<noteq> CHR ''=''"
  using b64_alphabet_facts by (auto simp: b64_val_def b64_char_def index_in_nth) (metis nth_mem)

lemma digits64:
  fixes n :: nat
  assumes "n < 16777216"
  shows "64 * (n div 262144 mod 64) + n div 4096 mod 64 = n div 4096"
    "64 * (n div 4096) + n div 64 mod 64 = n div 64" "64 * (n div 64) + n mod 64 = n"
proof -
  have a: "n div 262144 = n div 4096 div 64" "n div 4096 = n div 64 div 64"
    by (simp_all add: div_mult2_eq [symmetric])
  have "n div 4096 div 64 < 64" using assms by (simp add: div_mult2_eq [symmetric] less_mult_imp_div_less)
  then show "64 * (n div 262144 mod 64) + n div 4096 mod 64 = n div 4096" by (simp add: a(1))
  show "64 * (n div 4096) + n div 64 mod 64 = n div 64" unfolding a(2) by simp
  show "64 * (n div 64) + n mod 64 = n" by simp
qed

lemma b64_join_quad:
  assumes "n < 16777216"
  shows "b64_join (b64_quad n) = Some n" "b64_join (take 3 (b64_quad n)) = Some (n div 64)"
    "b64_join (take 2 (b64_quad n)) = Some (n div 4096)"
  using digits64 [OF assms] by (simp_all add: b64_join_def b64_quad_def b64_val_char)

lemma b64_quad_noteq: "b64_quad n = [p, q, r, s] \<Longrightarrow> p \<noteq> CHR ''='' \<and> q \<noteq> CHR ''='' \<and> r \<noteq> CHR ''='' \<and> s \<noteq> CHR ''=''"
  by (auto simp: b64_quad_def b64_val_char)

lemma byte_fields:
  fixes a b c :: nat
  assumes "a < 256" "b < 256" "c < 256"
  shows "(a * 65536 + b * 256 + c) div 65536 = a" "(a * 65536 + b * 256 + c) div 256 mod 256 = b"
    "(a * 65536 + b * 256 + c) mod 256 = c" "(a * 1024 + b * 4) div 1024 = a" "(a * 1024 + b * 4) div 4 mod 256 = b"
proof -
  have "(b * 256 + c) div 65536 = 0" "(b * 4) div 1024 = 0" using assms by simp_all
  then show "(a * 65536 + b * 256 + c) div 65536 = a" "(a * 1024 + b * 4) div 1024 = a"
    using div_mult_self3 [of 65536 a "b * 256 + c"] div_mult_self3 [of 1024 a "b * 4"]
    by (simp_all add: add.assoc)
  have e: "a * 65536 + b * 256 + c = c + (a * 256 + b) * 256" "a * 1024 + b * 4 = 4 * (a * 256 + b)" by simp_all
  have "(c + (a * 256 + b) * 256) div 256 = a * 256 + b"
    using assms div_mult_self1 [of 256 c "a * 256 + b"] by simp
  then show "(a * 65536 + b * 256 + c) div 256 mod 256 = b" "(a * 65536 + b * 256 + c) mod 256 = c"
    unfolding e mod_mult_self1 using assms by simp_all
  show "(a * 1024 + b * 4) div 4 mod 256 = b" unfolding e using assms by simp
qed

lemma b64_round_trip: "b64decode (b64encode bs) = Some bs"
proof (induction bs rule: b64encode.induct)
  case (2 a)
  have u: "unat a < 256" by (rule unat_byte_less)
  obtain p q r s where q: "b64_quad (unat a * 65536) = [p, q, r, s]" by (simp add: b64_quad_def)
  have "b64_join [p, q] = Some (unat a * 65536 div 4096)"
    using b64_join_quad(3) [of "unat a * 65536"] u q by simp
  then show ?case using q by simp
next
  case (3 a b)
  have u: "unat a < 256" "unat b < 256" by (rule unat_byte_less)+
  let ?n = "unat a * 65536 + unat b * 256"
  obtain p q r s where q: "b64_quad ?n = [p, q, r, s]" by (simp add: b64_quad_def)
  have j: "b64_join [p, q, r] = Some (?n div 64)"
    using b64_join_quad(2) [of ?n] u q by simp
  have "?n div 64 = unat a * 1024 + unat b * 4" by simp
  then have "?n div 64 div 1024 = unat a" "?n div 64 div 4 mod 256 = unat b" using u by (simp_all add: byte_fields)
  then show ?case using q j b64_quad_noteq [OF q] by (simp add: div_mult2_eq)
next
  case (4 a b c r)
  have u: "unat a < 256" "unat b < 256" "unat c < 256" by (rule unat_byte_less)+
  let ?n = "unat a * 65536 + unat b * 256 + unat c"
  obtain p q x s where q: "b64_quad ?n = [p, q, x, s]" by (simp add: b64_quad_def)
  have j: "b64_join [p, q, x, s] = Some ?n"
    using b64_join_quad(1) [of ?n] u q by simp
  have "?n div 65536 = unat a" "?n div 256 mod 256 = unat b" "?n mod 256 = unat c"
    using u by (simp_all add: byte_fields)
  then show ?case using q j b64_quad_noteq [OF q] 4 by simp
qed simp

end
