(* ===== verification/Ids.thy ===== *)
theory Ids
  imports Hashes
begin

text \<open>
  Deterministic identifiers (\<^verbatim>\<open>lib/sih_common/ids.py\<close>): version-5 UUIDs over the
  \<open>|\<close>-joined fields, one namespace per kind. The lemmas show where the joined name
  determines the fields: UUIDs collide only where SHA-1 does, provided the names differ.
  A Python string is modelled by its UTF-8 bytes (a HOL \<open>string\<close>).
\<close>

section \<open>Namespaces and names\<close>

datatype namespace = EventNs | IncidentNs | UpdateNs | AlertNs | FeatureNs | InvalidNs

definition namespace_tail :: "namespace \<Rightarrow> byte" where
  "namespace_tail ns = (case ns of EventNs \<Rightarrow> 1 | IncidentNs \<Rightarrow> 2 | UpdateNs \<Rightarrow> 3
     | AlertNs \<Rightarrow> 4 | FeatureNs \<Rightarrow> 5 | InvalidNs \<Rightarrow> 6)"

definition namespaces :: "namespace \<Rightarrow> bytes" where
  "namespaces ns = [0x5d, 0x0c, 0x1c, 0x52, 0x8a, 0x4e, 0x4f, 0x0e, 0x9a, 0x51,
     0x3e, 0x3b, 0x8f, 0x6f, 0x2a, namespace_tail ns]"

text \<open>\<^verbatim>\<open>"" if p is None else str(p)\<close> for the part types the callers pass.\<close>

datatype part = PNone | PText string | PInt int

primrec part_str :: "part \<Rightarrow> string" where
  "part_str PNone = []"
| "part_str (PText s) = s"
| "part_str (PInt i) = str_of_int i"

definition join_name :: "part list \<Rightarrow> string" where
  "join_name parts = join_with CHR ''|'' (map part_str parts)"

definition derived_id :: "namespace \<Rightarrow> part list \<Rightarrow> string" where
  "derived_id ns parts = uuid_str (uuid5 (namespaces ns) (map of_char (join_name parts)))"

section \<open>The identifiers\<close>

definition event_id :: "string \<Rightarrow> string \<Rightarrow> int \<Rightarrow> string \<Rightarrow> string" where
  "event_id sensor_id boot_id sequence original_sha256 =
     derived_id EventNs [PText sensor_id, PText boot_id, PInt sequence, PText original_sha256]"

definition incident_id :: "string \<Rightarrow> string \<Rightarrow> string \<Rightarrow> int \<Rightarrow> string" where
  "incident_id threat_class entity_type entity_key incident_epoch_ms =
     derived_id IncidentNs [PText threat_class, PText entity_type, PText entity_key, PInt incident_epoch_ms]"

definition update_id :: "string \<Rightarrow> int \<Rightarrow> string" where
  "update_id incident update_seq = derived_id UpdateNs [PText incident, PInt update_seq]"

definition alert_id :: "string \<Rightarrow> string \<Rightarrow> string \<Rightarrow> int \<Rightarrow> string \<Rightarrow> string" where
  "alert_id detector entity_type entity_key window_end_ms subtype =
     derived_id AlertNs [PText detector, PText entity_type, PText entity_key, PInt window_end_ms, PText subtype]"

definition feature_record_id :: "string \<Rightarrow> string \<Rightarrow> string \<Rightarrow> int \<Rightarrow> string" where
  "feature_record_id detector entity_type entity_key window_end_ms =
     derived_id FeatureNs [PText detector, PText entity_type, PText entity_key, PInt window_end_ms]"

definition opt_text :: "string option \<Rightarrow> part" where
  "opt_text s = (case s of None \<Rightarrow> PNone | Some t \<Rightarrow> PText t)"

definition opt_int :: "int option \<Rightarrow> part" where
  "opt_int s = (case s of None \<Rightarrow> PNone | Some t \<Rightarrow> PInt t)"

definition invalid_id ::
  "string \<Rightarrow> string \<Rightarrow> string option \<Rightarrow> string option \<Rightarrow> string option \<Rightarrow> int option \<Rightarrow> string" where
  "invalid_id stage reason raw_sha256 sensor_id boot_id sequence =
     derived_id InvalidNs [PText stage, PText reason, opt_text raw_sha256, opt_text sensor_id,
       opt_text boot_id, opt_int sequence]"

section \<open>Names determine their fields\<close>

lemma bar_not_dec: "is_dec c \<Longrightarrow> c \<noteq> CHR ''|''"
  by (auto simp: is_dec_def Let_def)

lemma bar_not_in_nat [simp]: "CHR ''|'' \<notin> set (str_of_nat n)"
  using bar_not_dec list_all_str_of_nat [of n] by (auto simp: list_all_iff)

lemma bar_not_in_int [simp]: "CHR ''|'' \<notin> set (str_of_int i)"
  by (auto simp: str_of_int_def)

lemma minus_not_head: "str_of_nat n \<noteq> CHR ''-'' # xs"
proof
  assume eq: "str_of_nat n = CHR ''-'' # xs"
  have "list_all is_dec (str_of_nat n)" by simp
  then show False unfolding eq by (simp add: is_dec_def Let_def)
qed

lemma str_of_int_inject [simp]: "str_of_int i = str_of_int j \<longleftrightarrow> i = j"
  using minus_not_head minus_not_head [symmetric]
  by (auto simp: str_of_int_def)

lemma join_name_inject:
  assumes "length ps = length qs" "ps \<noteq> []"
    and "\<forall>p \<in> set ps. CHR ''|'' \<notin> set (part_str p)" "\<forall>p \<in> set qs. CHR ''|'' \<notin> set (part_str p)"
  shows "join_name ps = join_name qs \<longleftrightarrow> map part_str ps = map part_str qs"
proof
  assume eq: "join_name ps = join_name qs"
  have "qs \<noteq> []" using assms(1,2) by auto
  then have "split_on CHR ''|'' (join_name ps) = map part_str ps"
    and "split_on CHR ''|'' (join_name qs) = map part_str qs"
    using assms by (auto simp: join_name_def intro!: split_on_join_with)
  then show "map part_str ps = map part_str qs" by (simp add: eq)
qed (simp add: join_name_def)

text \<open>
  An entity key may itself hold separators (\<^verbatim>\<open>src|dst|port|proto\<close>): the incident name
  still determines its four fields, because the class and the entity type hold none and the
  epoch is the text after the last one.
\<close>

lemma last_bar_inject:
  assumes "xs @ c # u = ys @ c # v" "c \<notin> set u" "c \<notin> set v"
  shows "xs = ys \<and> u = v"
proof -
  have "split_on c (rev (xs @ c # u)) = rev u # split_on c (rev xs)"
    and "split_on c (rev (ys @ c # v)) = rev v # split_on c (rev ys)"
    using assms(2,3) by (simp_all add: split_on_append)
  then have "u = v" using assms(1) by simp
  then show ?thesis using assms(1) by simp
qed

lemma first_bar_inject:
  assumes "u @ c # xs = v @ c # ys" "c \<notin> set u" "c \<notin> set v"
  shows "u = v \<and> xs = ys"
proof -
  have "split_on c (u @ c # xs) = u # split_on c xs" and "split_on c (v @ c # ys) = v # split_on c ys"
    using assms(2,3) by (simp_all add: split_on_append)
  then have "u = v" using assms(1) by (metis list.inject)
  with assms(1) show ?thesis by simp
qed

lemma incident_name: "join_name [PText tc, PText et, PText key, PInt e] =
    tc @ CHR ''|'' # (et @ CHR ''|'' # (key @ CHR ''|'' # str_of_int e))"
  by (simp add: join_name_def)

lemma incident_name_inject:
  assumes "CHR ''|'' \<notin> set tc" "CHR ''|'' \<notin> set et" "CHR ''|'' \<notin> set tc'" "CHR ''|'' \<notin> set et'"
    and eq: "join_name [PText tc, PText et, PText key, PInt e] = join_name [PText tc', PText et', PText key', PInt e']"
  shows "tc = tc' \<and> et = et' \<and> key = key' \<and> e = e'"
proof -
  let ?r = "\<lambda>k i. k @ CHR ''|'' # str_of_int i"
  note eq1 = eq [unfolded incident_name]
  have 1: "tc = tc'" and eq2: "et @ CHR ''|'' # ?r key e = et' @ CHR ''|'' # ?r key' e'"
    using first_bar_inject [OF eq1 assms(1,3)] by auto
  then have 2: "et = et'" and eq3: "?r key e = ?r key' e'"
    using first_bar_inject [OF eq2 assms(2,4)] by auto
  then have "key = key' \<and> str_of_int e = str_of_int e'"
    by (intro last_bar_inject) auto
  then show ?thesis using 1 2 by simp
qed

lemma derived_id_eq_iff:
  "derived_id ns ps = derived_id ns qs \<longleftrightarrow>
     uuid5 (namespaces ns) (map of_char (join_name ps)) = uuid5 (namespaces ns) (map of_char (join_name qs))"
  by (simp add: derived_id_def uuid_str_inject)

end
