(* ===== verification/Timeutil.thy ===== *)
theory Timeutil
  imports Prelude
begin

text \<open>
  Canonical UTC timestamps (\<^verbatim>\<open>lib/sih_common/timeutil.py\<close>) over the proleptic Gregorian
  calendar of \<^verbatim>\<open>datetime\<close>. Times are integer microseconds since 1970. \<open>None\<close> is the
  exception: OverflowError outside the years 1 to 9999 when formatting, ValueError when parsing.
  \<^verbatim>\<open>%Y\<close> writes the year without padding (glibc), so years below 1000 do not read back.
\<close>

section \<open>Calendar\<close>

definition leap :: "nat \<Rightarrow> bool" where
  "leap y = (y mod 4 = 0 \<and> (y mod 100 \<noteq> 0 \<or> y mod 400 = 0))"

definition days_before_year :: "nat \<Rightarrow> nat" where
  "days_before_year y = (y - 1) * 365 + (y - 1) div 4 - (y - 1) div 100 + (y - 1) div 400"

definition days_in_month :: "nat \<Rightarrow> nat \<Rightarrow> nat" where
  "days_in_month y m = (if m = 2 then (if leap y then 29 else 28) else if m \<in> {4, 6, 9, 11} then 30 else 31)"

definition days_before_month :: "nat \<Rightarrow> nat \<Rightarrow> nat" where
  "days_before_month y m = sum_list (map (days_in_month y) [1..<m])"

definition ymd_ordinal :: "nat \<Rightarrow> nat \<Rightarrow> nat \<Rightarrow> nat" where
  "ymd_ordinal y m d = days_before_year y + days_before_month y m + d"

definition EPOCH_ORDINAL :: nat where "EPOCH_ORDINAL = 719163"
definition MAX_ORDINAL :: nat where "MAX_ORDINAL = 3652059"

text \<open>The year of an ordinal by search from a lower bound, the month by search over the twelve.\<close>

lemma days_before_year_ge: "y \<le> days_before_year (Suc y)"
  by (simp add: days_before_year_def)

function year_from :: "nat \<Rightarrow> nat \<Rightarrow> nat" where
  "year_from n y = (if days_before_year (Suc y) < n then year_from n (Suc y) else y)"
  by pat_completeness auto
termination
proof (relation "measure (\<lambda>(n, y). n - y)", goal_cases)
  case (2 n y)
  then show ?case using days_before_year_ge [of y] by simp
qed simp

declare year_from.simps [simp del]

fun month_from :: "nat \<Rightarrow> nat \<Rightarrow> nat \<Rightarrow> nat \<times> nat" where
  "month_from y 0 r = (12, r)"
| "month_from y (Suc k) r =
     (let m = 12 - Suc k; n = days_in_month y m in if r \<le> n then (m, r) else month_from y k (r - n))"

definition ordinal_ymd :: "nat \<Rightarrow> nat \<times> nat \<times> nat" where
  "ordinal_ymd n = (let y = year_from n (n div 366); (m, d) = month_from y 11 (n - days_before_year y) in (y, m, d))"

section \<open>Formatting and parsing\<close>

definition format_us :: "int \<Rightarrow> string option" where
  "format_us t =
     (let days = t div 86400000000; r = nat (t mod 86400000000); n = days + int EPOCH_ORDINAL;
          (y, m, d) = ordinal_ymd (nat n); s = r div 1000000
      in if n < 1 \<or> n > int MAX_ORDINAL then None
         else Some (str_of_nat y @ ''-'' @ pad_nat 2 m @ ''-'' @ pad_nat 2 d @ ''T'' @ pad_nat 2 (s div 3600) @ '':''
           @ pad_nat 2 (s div 60 mod 60) @ '':'' @ pad_nat 2 (s mod 60) @ ''.'' @ pad_nat 6 (r mod 1000000) @ ''Z''))"

definition format_ms :: "int \<Rightarrow> string option" where
  "format_ms t = format_us (t * 1000)"

definition clock_digits :: "string \<Rightarrow> string \<Rightarrow> bool" where
  "clock_digits pattern s = (length s = length pattern
     \<and> list_all2 (\<lambda>p c. if p = CHR ''0'' then is_dec c else p = c) pattern s)"

text \<open>The fraction group: absent (\<^verbatim>\<open>or "0"\<close>), or one to six digits.\<close>

definition frac_of :: "string \<Rightarrow> string option" where
  "frac_of s = (if s = ''Z'' then Some ''0''
     else if 3 \<le> length s \<and> length s \<le> 8 \<and> hd s = CHR ''.'' \<and> last s = CHR ''Z'' \<and> list_all is_dec (butlast (tl s))
     then Some (butlast (tl s)) else None)"

definition ljust :: "nat \<Rightarrow> char \<Rightarrow> string \<Rightarrow> string" where
  "ljust n c s = s @ replicate (n - length s) c"

definition parse_us :: "string \<Rightarrow> int option" where
  "parse_us text =
     (let head = take 19 text in
      if \<not> clock_digits ''0000-00-00T00:00:00'' head then None
      else case frac_of (drop 19 text) of None \<Rightarrow> None
      | Some fr \<Rightarrow>
        let y = dec_val (take 4 head); m = dec_val (slice 5 2 head); d = dec_val (slice 8 2 head);
            h = dec_val (slice 11 2 head); mi = dec_val (slice 14 2 head); s = dec_val (slice 17 2 head)
        in if y < 1 \<or> m < 1 \<or> m > 12 \<or> d < 1 \<or> d > days_in_month y m \<or> h > 23 \<or> mi > 59 \<or> s > 59 then None
           else Some ((int (ymd_ordinal y m d) - int EPOCH_ORDINAL) * 86400000000
             + int (h * 3600 + mi * 60 + s) * 1000000 + int (dec_val (ljust 6 (CHR ''0'') fr))))"

text \<open>\<^verbatim>\<open>Decimal\<close> seconds to microseconds, ties away from zero; a result of more than 28 digits is
  an \<^verbatim>\<open>InvalidOperation\<close>, \<open>None\<close>. The rounding of the product to 28 significant digits before is not modelled.\<close>

definition zeek_ts_to_us :: "'a::floor_ceiling \<Rightarrow> int option" where
  "zeek_ts_to_us ts = (let d = ts * 1000000; r = (if d < 0 then - \<lfloor>- d + 1 / 2\<rfloor> else \<lfloor>d + 1 / 2\<rfloor>)
     in if \<bar>r\<bar> < 10 ^ 28 then Some r else None)"

section \<open>Lemmas\<close>

lemma year_from_spec:
  "days_before_year y < n \<Longrightarrow> days_before_year (year_from n y) < n \<and> n \<le> days_before_year (Suc (year_from n y))
    \<and> y \<le> year_from n y"
proof (induction n y rule: year_from.induct)
  case (1 n y)
  then show ?case by (subst (1 2 3) year_from.simps) auto
qed

lemma days_in_year:
  assumes "0 < y"
  shows "days_before_year (Suc y) = days_before_year y + (if leap y then 366 else 365)"
proof -
  obtain z where y: "y = Suc z" using assms by (cases y) auto
  have m: "Suc z mod 400 = 0 \<Longrightarrow> Suc z mod 100 = 0" "Suc z mod 100 = 0 \<Longrightarrow> Suc z mod 4 = 0"
    by presburger+
  have gen: "b \<le> z * 365 + a \<Longrightarrow> Suc z * 365 + (a + e1) - (b + e2) + (c + e3) = z * 365 + a - b + c + (365 + e1 - e2 + e3)"
    if "e2 \<le> e1" for a b c e1 e2 e3 :: nat using that by simp
  have le: "z div 100 \<le> z * 365 + z div 4"
  proof -
    have "z div 100 \<le> z" by (rule div_le_dividend)
    also have "z \<le> z * 365" by simp
    also have "z * 365 \<le> z * 365 + z div 4" by (rule le_add1)
    finally show ?thesis .
  qed
  have s: "Suc z div k = z div k + (if Suc z mod k = 0 then 1 else 0)" for k by (simp add: div_Suc)
  have "days_before_year (Suc y) = days_before_year y + (365 + (if Suc z mod 4 = 0 then 1 else 0)
      - (if Suc z mod 100 = 0 then 1 else 0) + (if Suc z mod 400 = 0 then 1 else 0))"
    unfolding days_before_year_def y diff_Suc_1 s [of 4] s [of 100] s [of 400]
    by (rule gen [OF _ le]) (use m in auto)
  then show ?thesis using m unfolding leap_def y by (auto split: if_splits)
qed

lemma days_before_month_Suc: "0 < m \<Longrightarrow> days_before_month y (Suc m) = days_before_month y m + days_in_month y m"
  by (simp add: days_before_month_def)

lemma days_before_13: "days_before_month y 12 + days_in_month y 12 = (if leap y then 366 else 365)"
  by (simp add: days_before_month_def days_in_month_def upt_conv_Cons)

lemma month_from_spec:
  assumes "k \<le> 11" "1 \<le> r" "days_before_month y (12 - k) + r \<le> days_before_month y 12 + days_in_month y 12"
    "month_from y k r = (m, d)"
  shows "1 \<le> m \<and> m \<le> 12 \<and> 1 \<le> d \<and> d \<le> days_in_month y m \<and> days_before_month y m + d = days_before_month y (12 - k) + r"
  using assms
proof (induction k arbitrary: r)
  case (Suc k)
  let ?m = "12 - Suc k"
  have s: "12 - k = Suc ?m" "0 < ?m" using Suc.prems(1) by auto
  show ?case
  proof (cases "r \<le> days_in_month y ?m")
    case True
    then show ?thesis using Suc.prems s by (auto simp: Let_def)
  next
    case False
    then show ?thesis
      using Suc.IH [of "r - days_in_month y ?m"] Suc.prems days_before_month_Suc [OF s(2), of y] s
      by (simp add: Let_def)
  qed
qed simp

lemma dby_estimate: "0 < n \<Longrightarrow> days_before_year (n div 366) < n"
proof (cases "n div 366")
  case (Suc z)
  assume "0 < n"
  have "z * 365 + z div 4 - z div 100 + z div 400 \<le> z * 366" by linarith
  then have "days_before_year (n div 366) \<le> z * 366" unfolding days_before_year_def Suc diff_Suc_1 .
  moreover have "Suc z * 366 \<le> n" using Suc by (metis div_times_less_eq_dividend)
  ultimately show ?thesis by simp
qed (simp add: days_before_year_def)

lemma ordinal_ymd_spec:
  assumes "0 < n" "ordinal_ymd n = (y, m, d)"
  shows "ymd_ordinal y m d = n" "0 < y" "1 \<le> m" "m \<le> 12" "1 \<le> d" "d \<le> days_in_month y m"
    "days_before_year y < n" "n \<le> days_before_year (Suc y)"
proof -
  have y: "y = year_from n (n div 366)" "month_from y 11 (n - days_before_year y) = (m, d)"
    using assms(2) by (auto simp: ordinal_ymd_def Let_def split: prod.splits)
  have s: "days_before_year y < n" "n \<le> days_before_year (Suc y)"
    using year_from_spec [OF dby_estimate [OF assms(1)]] y(1) by auto
  show pos: "0 < y" using s by (cases y) (auto simp: days_before_year_def)
  have "days_before_month y (12 - 11) = 0" by (simp add: days_before_month_def)
  moreover have "n - days_before_year y \<le> days_before_month y 12 + days_in_month y 12"
    using s(2) days_in_year [OF pos] days_before_13 [of y] by simp
  ultimately have r: "1 \<le> m \<and> m \<le> 12 \<and> 1 \<le> d \<and> d \<le> days_in_month y m \<and> days_before_month y m + d = n - days_before_year y"
    using month_from_spec [of 11 "n - days_before_year y" y m d] y(2) s(1) by simp
  then show "ymd_ordinal y m d = n" "1 \<le> m" "m \<le> 12" "1 \<le> d" "d \<le> days_in_month y m"
    using s(1) by (auto simp: ymd_ordinal_def)
  show "days_before_year y < n" "n \<le> days_before_year (Suc y)" by (fact s)+
qed

lemma year_bounds:
  assumes "ordinal_ymd n = (y, m, d)" "365243 \<le> n" "n \<le> MAX_ORDINAL"
  shows "1000 \<le> y \<and> y \<le> 9999"
proof -
  note o = ordinal_ymd_spec [OF _ assms(1)]
  have "\<not> y < 1000"
  proof
    assume "y < 1000"
    then have "y div 4 \<le> 249" "y div 400 \<le> 2" by simp_all
    have "days_before_year (Suc y) = y * 365 + y div 4 - y div 100 + y div 400" by (simp add: days_before_year_def)
    also have "\<dots> \<le> 365242" using \<open>y < 1000\<close> by linarith
    finally show False using o(8) assms(2) by simp
  qed
  moreover have "\<not> y \<ge> 10000"
  proof
    assume "y \<ge> 10000"
    have "MAX_ORDINAL \<le> days_before_year y"
      using \<open>y \<ge> 10000\<close> unfolding MAX_ORDINAL_def days_before_year_def by linarith
    then show False using o(7) assms(2,3) by simp
  qed
  ultimately show ?thesis by simp
qed

section \<open>Round trip\<close>

lemma pad2: "pad_nat 2 n = [digit_char (n div 10 mod 10), digit_char (n mod 10)]"
  by (simp add: numeral_2_eq_2)

lemma pad4: "pad_nat 4 n = [digit_char (n div 1000 mod 10), digit_char (n div 100 mod 10), digit_char (n div 10 mod 10), digit_char (n mod 10)]"
proof -
  have four: "(4 :: nat) = Suc (Suc (Suc (Suc 0)))" by simp
  show ?thesis unfolding four pad_nat.simps by (simp add: div_mult2_eq [symmetric])
qed

lemma str_of_nat_year:
  assumes "1000 \<le> y" "y \<le> 9999"
  shows "str_of_nat y = pad_nat 4 y"
proof -
  have "y div 10 div 10 div 10 < 10" "\<not> y div 10 div 10 < 10" "\<not> y div 10 < 10" "\<not> y < 10"
    using assms by (simp_all add: div_mult2_eq [symmetric] less_mult_imp_div_less not_less)
  then have "str_of_nat y = [digit_char (y div 10 div 10 div 10), digit_char (y div 10 div 10 mod 10), digit_char (y div 10 mod 10), digit_char (y mod 10)]"
    by (subst str_of_nat.simps, simp, subst str_of_nat.simps, simp, subst str_of_nat.simps, simp, subst str_of_nat.simps, simp)
  moreover have "y div 1000 mod 10 = y div 10 div 10 div 10"
    using \<open>y div 10 div 10 div 10 < 10\<close> by (simp add: div_mult2_eq [symmetric])
  ultimately show ?thesis by (simp add: pad4 div_mult2_eq [symmetric])
qed

lemma parse_pad:
  assumes "1 \<le> y" "y \<le> 9999" "1 \<le> m" "m \<le> 12" "1 \<le> d" "d \<le> days_in_month y m" "h < 24" "mi < 60" "s < 60" "f < 1000000"
  shows "parse_us (pad_nat 4 y @ ''-'' @ pad_nat 2 m @ ''-'' @ pad_nat 2 d @ ''T'' @ pad_nat 2 h @ '':'' @ pad_nat 2 mi @ '':''
      @ pad_nat 2 s @ ''.'' @ pad_nat 6 f @ ''Z'')
    = Some ((int (ymd_ordinal y m d) - int EPOCH_ORDINAL) * 86400000000 + int (h * 3600 + mi * 60 + s) * 1000000 + int f)"
    (is "parse_us ?t = _")
proof -
  define head where "head = pad_nat 4 y @ ''-'' @ pad_nat 2 m @ ''-'' @ pad_nat 2 d @ ''T'' @ pad_nat 2 h @ '':'' @ pad_nat 2 mi @ '':'' @ pad_nat 2 s"
  have l: "length head = 19" by (simp add: head_def)
  have t: "?t = head @ CHR ''.'' # pad_nat 6 f @ ''Z''" by (simp add: head_def)
  have "list_all2 (\<lambda>p c. if p = CHR ''0'' then is_dec c else p = c) ''0000-00-00T00:00:00'' head"
    by (simp add: head_def pad2 pad4)
  then have clock: "clock_digits ''0000-00-00T00:00:00'' head" by (simp add: clock_digits_def l)
  have fr: "frac_of (CHR ''.'' # pad_nat 6 f @ ''Z'') = Some (pad_nat 6 f)"
    by (simp add: frac_of_def butlast_append)
  have v: "take 4 head = pad_nat 4 y" "slice 5 2 head = pad_nat 2 m" "slice 8 2 head = pad_nat 2 d"
    "slice 11 2 head = pad_nat 2 h" "slice 14 2 head = pad_nat 2 mi" "slice 17 2 head = pad_nat 2 s"
    by (simp_all add: head_def slice_def)
  have "d \<le> 31" using assms(6) by (simp add: days_in_month_def split: if_splits)
  then have dv: "dec_val (take 4 head) = y" "dec_val (slice 5 2 head) = m" "dec_val (slice 8 2 head) = d"
    "dec_val (slice 11 2 head) = h" "dec_val (slice 14 2 head) = mi" "dec_val (slice 17 2 head) = s"
    "dec_val (ljust 6 (CHR ''0'') (pad_nat 6 f)) = f"
    using assms by (simp_all only: v dec_val_pad_nat ljust_def length_pad_nat) (simp_all add: dec_val_pad_nat)
  have th: "take 19 ?t = head" "drop 19 ?t = CHR ''.'' # pad_nat 6 f @ ''Z''" unfolding t using l by simp_all
  show ?thesis
    unfolding parse_us_def Let_def th fr option.case dv using clock assms by simp
qed

lemma parse_format_us:
  assumes "365243 - int EPOCH_ORDINAL \<le> t div 86400000000" "t div 86400000000 \<le> int MAX_ORDINAL - int EPOCH_ORDINAL"
  shows "\<exists>text. format_us t = Some text \<and> parse_us text = Some t"
proof -
  let ?n = "nat (t div 86400000000 + int EPOCH_ORDINAL)" and ?r = "nat (t mod 86400000000)"
  let ?s = "?r div 1000000"
  obtain y m d where ymd: "ordinal_ymd ?n = (y, m, d)" by (metis prod_cases3)
  have n: "365243 \<le> ?n" "?n \<le> MAX_ORDINAL" "int ?n = t div 86400000000 + int EPOCH_ORDINAL"
    using assms by simp_all
  then have o: "ymd_ordinal y m d = ?n" "1 \<le> m" "m \<le> 12" "1 \<le> d" "d \<le> days_in_month y m"
    using ordinal_ymd_spec [OF _ ymd] by simp_all
  have y: "1000 \<le> y" "y \<le> 9999" using year_bounds [OF ymd n(1,2)] by auto
  have r: "?r < 86400000000" by (simp add: nat_less_iff)
  then have "?s < 86400" by (simp add: less_mult_imp_div_less)
  then have h: "?s div 3600 < 24" by (simp add: less_mult_imp_div_less)
  have hms: "?s div 3600 * 3600 + ?s div 60 mod 60 * 60 + ?s mod 60 = ?s"
  proof -
    have "?s div 3600 = ?s div 60 div 60" by (simp add: div_mult2_eq)
    moreover have "?s div 60 div 60 * 3600 + ?s div 60 mod 60 * 60 = ?s div 60 * 60"
      using div_mult_mod_eq [of "?s div 60" 60] by linarith
    ultimately show ?thesis using div_mult_mod_eq [of ?s 60] by linarith
  qed
  have "int ?s * 1000000 + int (?r mod 1000000) = int ?r"
    using arg_cong [OF div_mult_mod_eq [of ?r 1000000], of int] by (simp only: of_nat_add of_nat_mult of_nat_numeral)
  moreover have "int ?r = t mod 86400000000" by simp
  moreover have "int (ymd_ordinal y m d) - int EPOCH_ORDINAL = t div 86400000000" using n(3) o(1) by linarith
  ultimately have t: "(int (ymd_ordinal y m d) - int EPOCH_ORDINAL) * 86400000000 + int ?s * 1000000 + int (?r mod 1000000) = t"
    by (simp only: add.assoc div_mult_mod_eq)
  let ?text = "pad_nat 4 y @ ''-'' @ pad_nat 2 m @ ''-'' @ pad_nat 2 d @ ''T'' @ pad_nat 2 (?s div 3600) @ '':''
      @ pad_nat 2 (?s div 60 mod 60) @ '':'' @ pad_nat 2 (?s mod 60) @ ''.'' @ pad_nat 6 (?r mod 1000000) @ ''Z''"
  have "format_us t = Some ?text"
  proof -
    have "\<not> (t div 86400000000 + int EPOCH_ORDINAL < 1 \<or> int MAX_ORDINAL < t div 86400000000 + int EPOCH_ORDINAL)"
      using assms by simp
    then show ?thesis by (simp add: format_us_def Let_def ymd str_of_nat_year [OF y])
  qed
  moreover have "parse_us ?text = Some t"
  proof -
    have "1 \<le> y" "?s div 60 mod 60 < 60" "?s mod 60 < 60" "?r mod 1000000 < 1000000" using y(1) by simp_all
    from parse_pad [OF this(1) y(2) o(2-5) h this(2-4)] show ?thesis unfolding hms t .
  qed
  ultimately show ?thesis by blast
qed

lemma format_us_Some: "0 \<le> t \<Longrightarrow> t < 253402300800000000 \<Longrightarrow> format_us t \<noteq> None"
proof -
  assume t: "0 \<le> t" "t < 253402300800000000"
  then have "0 \<le> t div 86400000000" "t div 86400000000 \<le> int MAX_ORDINAL - int EPOCH_ORDINAL"
    by (simp_all add: pos_imp_zdiv_nonneg_iff MAX_ORDINAL_def EPOCH_ORDINAL_def)
  then have "\<exists>text. format_us t = Some text \<and> parse_us text = Some t"
    by (intro parse_format_us) (simp_all add: EPOCH_ORDINAL_def)
  then show ?thesis by auto
qed

text \<open>
  timestamps read back. For every instant from the year 1000 to the end of 9999, to the
  microsecond, the text \<^verbatim>\<open>format_us\<close> writes is accepted by \<^verbatim>\<open>parse_us\<close> and gives the
  same instant.
\<close>

theorem timestamp_round_trip:
  assumes "365243 - int EPOCH_ORDINAL \<le> t div 86400000000" "t div 86400000000 \<le> int MAX_ORDINAL - int EPOCH_ORDINAL"
  shows "\<exists>text. format_us t = Some text \<and> parse_us text = Some t"
  using assms by (rule parse_format_us)

theorem timestamp_round_trip_witness:
  "\<exists>text. format_us 1753000000123456 = Some text \<and> parse_us text = Some 1753000000123456"
  using timestamp_round_trip [of 1753000000123456] by (simp add: EPOCH_ORDINAL_def MAX_ORDINAL_def)

end
