(* ===== verification/LinkFrame.thy ===== *)
theory LinkFrame
  imports Hashes
begin

text \<open>
  The one-way link frame codec (\<^verbatim>\<open>lib/sih_common/linkframe.py\<close>): \<open>encode\<close> cuts a
  record into authenticated datagrams, \<open>decode\<close> checks one datagram in the code's order and
  returns its fields or the reason it is rejected. The lemmas give the round trip, the datagram
  bound, and what an accepted datagram guarantees; the locale \<open>record_link\<close> at the end
  is the contract the reassembly rests on.
\<close>

section \<open>Constants and types\<close>

definition MAGIC :: bytes where "MAGIC = [0x53, 0x49, 0x48, 0x31]"
definition TYPE_EVENT :: nat where "TYPE_EVENT = 1"
definition TYPE_HEALTH :: nat where "TYPE_HEALTH = 2"
definition MAX_DATAGRAM_BYTES :: nat where "MAX_DATAGRAM_BYTES = 1400"
definition MAX_CHUNK_BYTES :: nat where "MAX_CHUNK_BYTES = 1200"
definition MAX_RECORD_BYTES :: nat where "MAX_RECORD_BYTES = 9600"
definition MAX_FRAGMENTS :: nat where "MAX_FRAGMENTS = 8"
definition HMAC_BYTES :: nat where "HMAC_BYTES = 32"
definition HEAD_SIZE :: nat where "HEAD_SIZE = 10"
definition MID_SIZE :: nat where "MID_SIZE = 30"
definition MIN_FRAME :: nat where "MIN_FRAME = HEAD_SIZE + 1 + MID_SIZE + HMAC_BYTES"

lemmas link_consts = MAX_DATAGRAM_BYTES_def MAX_CHUNK_BYTES_def MAX_RECORD_BYTES_def
  MAX_FRAGMENTS_def HMAC_BYTES_def HEAD_SIZE_def MID_SIZE_def MIN_FRAME_def
  TYPE_EVENT_def TYPE_HEALTH_def

text \<open>\<^verbatim>\<open>_SID_OK\<close>: lower-case letters, digits and the hyphen.\<close>

definition sid_ok :: "byte \<Rightarrow> bool" where
  "sid_ok b = (97 \<le> unat b \<and> unat b \<le> 122 \<or> 48 \<le> unat b \<and> unat b \<le> 57 \<or> unat b = 45)"

datatype encode_error = RecordTooLarge | ValueError | StructError

datatype frame_error = FrameError (reason: string) (message: string)

record frame =
  frame_type :: nat
  frag_index :: nat
  frag_count :: nat
  frame_sensor :: string
  frame_boot :: string
  frame_seq :: nat
  total_length :: nat
  chunk :: bytes

text \<open>\<^verbatim>\<open>-(-a // b)\<close>\<close>

definition ceil_div :: "nat \<Rightarrow> nat \<Rightarrow> nat" where
  "ceil_div a b = (a + (b - 1)) div b"

section \<open>Encoding\<close>

text \<open>\<^verbatim>\<open>LinkCodec.__init__\<close>: the key must have at least 16 bytes.\<close>

definition link_codec :: "bytes \<Rightarrow> encode_error + bytes" where
  "link_codec key = (if length key < 16 then Inl ValueError else Inr key)"

definition link_mac :: "bytes \<Rightarrow> bytes \<Rightarrow> bytes" where
  "link_mac key data = hmac_sha256 key data"

text \<open>\<^verbatim>\<open>sensor_id.encode("ascii")\<close>: a character above 127 raises UnicodeEncodeError.\<close>

definition ascii_bytes :: "string \<Rightarrow> bytes option" where
  "ascii_bytes s = (if list_all (\<lambda>c. (of_char c :: nat) < 128) s then Some (map of_char s) else None)"

definition ascii_string :: "bytes \<Rightarrow> string" where
  "ascii_string bs = map (\<lambda>b. char_of (unat b)) bs"

definition head_bytes :: "nat \<Rightarrow> byte \<Rightarrow> nat \<Rightarrow> nat \<Rightarrow> nat \<Rightarrow> bytes" where
  "head_bytes ftype flags i count sid_len =
     MAGIC @ [1, of_nat ftype, flags, of_nat i, of_nat count, of_nat sid_len]"

definition mid_bytes :: "bytes \<Rightarrow> nat \<Rightarrow> nat \<Rightarrow> nat \<Rightarrow> bytes" where
  "mid_bytes boot sequence tot clen = boot @ be 8 sequence @ be 4 tot @ be 2 clen"

definition frame_body :: "nat \<Rightarrow> byte \<Rightarrow> nat \<Rightarrow> nat \<Rightarrow> bytes \<Rightarrow> bytes \<Rightarrow> nat \<Rightarrow> nat \<Rightarrow> bytes \<Rightarrow> bytes" where
  "frame_body ftype flags i count sid boot sequence tot chnk =
     head_bytes ftype flags i count (length sid) @ sid @ mid_bytes boot sequence tot (length chnk) @ chnk"

definition chunk_at :: "bytes \<Rightarrow> nat \<Rightarrow> bytes" where
  "chunk_at record_bytes i = slice (i * MAX_CHUNK_BYTES) MAX_CHUNK_BYTES record_bytes"

definition encode :: "bytes \<Rightarrow> nat \<Rightarrow> string \<Rightarrow> string \<Rightarrow> int \<Rightarrow> bytes \<Rightarrow> encode_error + bytes list" where
  "encode key ftype sensor_id boot_id sequence r =
     (if length r > MAX_RECORD_BYTES then Inl RecordTooLarge
      else if r = [] then Inl ValueError
      else case ascii_bytes sensor_id of
        None \<Rightarrow> Inl ValueError
      | Some sid \<Rightarrow>
          if \<not> (1 \<le> length sid \<and> length sid \<le> 63) then Inl ValueError
          else case uuid_bytes boot_id of
            None \<Rightarrow> Inl ValueError
          | Some boot \<Rightarrow>
              if \<not> (ftype < 256 \<and> 0 \<le> sequence \<and> sequence < 2 ^ 64) then Inl StructError
              else let count = ceil_div (length r) MAX_CHUNK_BYTES in
                Inr (map (\<lambda>i.
                  let body = frame_body ftype 0 i count sid boot (nat sequence) (length r) (chunk_at r i)
                  in body @ link_mac key body) [0..<count]))"

section \<open>Decoding\<close>

abbreviation malformed :: "string \<Rightarrow> frame_error + frame" where
  "malformed msg \<equiv> Inl (FrameError ''frame_malformed'' msg)"

definition byte_at :: "bytes \<Rightarrow> nat \<Rightarrow> nat" where
  "byte_at bs i = unat (bs ! i)"

definition decode :: "bytes \<Rightarrow> bytes \<Rightarrow> frame_error + frame" where
  "decode key data =
     (let n = length data in
      if n < MIN_FRAME \<or> n > MAX_DATAGRAM_BYTES
      then malformed (''datagram length '' @ str_of_nat n @ '' outside bounds'')
      else let body = take (n - HMAC_BYTES) data; tag = drop (n - HMAC_BYTES) data in
      if link_mac key body \<noteq> tag then Inl (FrameError ''frame_hmac_invalid'' ''HMAC mismatch'')
      else let ftype = byte_at body 5; idx = byte_at body 7; count = byte_at body 8; sid_len = byte_at body 9 in
      if take 4 body \<noteq> MAGIC \<or> byte_at body 4 \<noteq> 1 then malformed ''bad magic or version''
      else if ftype \<notin> {TYPE_EVENT, TYPE_HEALTH}
      then malformed (''unknown frame type '' @ str_of_nat ftype)
      else if \<not> (1 \<le> count \<and> count \<le> MAX_FRAGMENTS) \<or> idx \<ge> count
      then malformed (''bad fragment '' @ str_of_nat idx @ ''/'' @ str_of_nat count)
      else if \<not> (1 \<le> sid_len \<and> sid_len \<le> 63) \<or> length body < HEAD_SIZE + sid_len + MID_SIZE
      then malformed ''bad sensor_id length''
      else let sid = slice HEAD_SIZE sid_len body in
      if \<not> list_all sid_ok sid then malformed ''sensor_id has invalid characters''
      else let off = HEAD_SIZE + sid_len;
               boot = slice off 16 body; sequence = unbe (slice (off + 16) 8 body);
               tot = unbe (slice (off + 24) 4 body); chunk_len = unbe (slice (off + 28) 2 body);
               chnk = drop (off + MID_SIZE) body in
      if \<not> (1 \<le> tot \<and> tot \<le> MAX_RECORD_BYTES) \<or> chunk_len \<noteq> length chnk \<or> chunk_len > MAX_CHUNK_BYTES
      then malformed (''bad lengths total='' @ str_of_nat tot @ '' chunk='' @ str_of_nat chunk_len)
      else let expected_count = ceil_div tot MAX_CHUNK_BYTES;
               expected_len = (if Suc idx < expected_count then MAX_CHUNK_BYTES
                               else tot - (expected_count - 1) * MAX_CHUNK_BYTES) in
      if expected_count \<noteq> count \<or> chunk_len \<noteq> expected_len
      then malformed ''fragment geometry inconsistent with total length''
      else Inr \<lparr>frame_type = ftype, frag_index = idx, frag_count = count, frame_sensor = ascii_string sid,
                frame_boot = uuid_str boot, frame_seq = sequence, total_length = tot, chunk = chnk\<rparr>)"

section \<open>Fields of an encoded body\<close>

lemma length_head [simp]: "length (head_bytes t fl i c l) = 10"
  by (simp add: head_bytes_def MAGIC_def)

lemma length_mid [simp]: "length (mid_bytes boot s tot l) = length boot + 14"
  by (simp add: mid_bytes_def)

lemma length_frame_body [simp]:
  "length (frame_body t fl i c sid boot s tot ch) = 24 + length sid + length boot + length ch"
  by (simp add: frame_body_def)

lemma frame_body_head:
  assumes "k < 10"
  shows "frame_body t fl i c sid boot s tot ch ! k = head_bytes t fl i c (length sid) ! k"
  using assms by (simp add: frame_body_def nth_append)

lemma byte_at_head:
  "byte_at (frame_body t fl i c sid boot s tot ch) 4 = 1"
  "t < 256 \<Longrightarrow> byte_at (frame_body t fl i c sid boot s tot ch) 5 = t"
  "i < 256 \<Longrightarrow> byte_at (frame_body t fl i c sid boot s tot ch) 7 = i"
  "c < 256 \<Longrightarrow> byte_at (frame_body t fl i c sid boot s tot ch) 8 = c"
  "length sid < 256 \<Longrightarrow> byte_at (frame_body t fl i c sid boot s tot ch) 9 = length sid"
  by (simp_all add: byte_at_def frame_body_head head_bytes_def MAGIC_def unat_of_nat take_bit_eq_mod)

lemma take_magic [simp]: "take 4 (frame_body t fl i c sid boot s tot ch) = MAGIC"
  by (simp add: frame_body_def head_bytes_def MAGIC_def)

lemma slice_after:
  "length xs = n \<Longrightarrow> slice (n + m) k (xs @ ys) = slice m k ys"
  "length xs = n \<Longrightarrow> drop (n + m) (xs @ ys) = drop m ys"
  by (simp_all add: slice_def)

lemma frame_body_tail:
  assumes "length boot = 16"
  shows "slice 10 (length sid) (frame_body t fl i c sid boot s tot ch) = sid"
    and "slice (10 + length sid) 16 (frame_body t fl i c sid boot s tot ch) = boot"
    and "slice (10 + length sid + 16) 8 (frame_body t fl i c sid boot s tot ch) = be 8 s"
    and "slice (10 + length sid + 24) 4 (frame_body t fl i c sid boot s tot ch) = be 4 tot"
    and "slice (10 + length sid + 28) 2 (frame_body t fl i c sid boot s tot ch) = be 2 (length ch)"
    and "drop (10 + length sid + 30) (frame_body t fl i c sid boot s tot ch) = ch"
  using assms by (simp_all add: frame_body_def mid_bytes_def slice_def)

section \<open>Fragment geometry\<close>

lemma ceil_div_bounds:
  assumes "0 < b" "0 < n"
  shows "(ceil_div n b - 1) * b < n" "n \<le> ceil_div n b * b" "1 \<le> ceil_div n b"
proof -
  let ?q = "ceil_div n b"
  have "ceil_div n b = ((n - 1) + b) div b"
    using assms by (simp add: ceil_div_def)
  also have "\<dots> = (n - 1) div b + 1"
    using assms by (simp only: div_add_self2)
  finally have q: "?q = (n - 1) div b + 1" .
  have m: "(n - 1) div b * b \<le> n - 1" by simp
  have "(n - 1) mod b < b" using assms by simp
  then have m': "n - 1 < (n - 1) div b * b + b"
    by (metis add_less_cancel_left div_mult_mod_eq)
  show "(?q - 1) * b < n" unfolding q add_diff_cancel_right' using m assms by linarith
  show "n \<le> ?q * b" unfolding q using m' assms by (simp add: algebra_simps)
  show "1 \<le> ?q" by (simp add: q)
qed

definition expected_len :: "nat \<Rightarrow> nat \<Rightarrow> nat" where
  "expected_len tot idx = (if Suc idx < ceil_div tot MAX_CHUNK_BYTES then MAX_CHUNK_BYTES
     else tot - (ceil_div tot MAX_CHUNK_BYTES - 1) * MAX_CHUNK_BYTES)"

lemma length_chunk_at:
  assumes "r \<noteq> []" "i < ceil_div (length r) MAX_CHUNK_BYTES"
  shows "length (chunk_at r i) = expected_len (length r) i"
proof -
  let ?q = "ceil_div (length r) MAX_CHUNK_BYTES"
  have b: "(?q - 1) * 1200 < length r" "length r \<le> ?q * 1200" "1 \<le> ?q"
    using ceil_div_bounds [of 1200 "length r"] assms(1) by (auto simp: MAX_CHUNK_BYTES_def)
  show ?thesis
  proof (cases "Suc i < ?q")
    case True
    then have "(i + 1) * 1200 \<le> (?q - 1) * 1200" by (intro mult_le_mono1) simp
    then show ?thesis using True b
      by (simp add: chunk_at_def expected_len_def MAX_CHUNK_BYTES_def)
  next
    case False
    then have i: "i = ?q - 1" using assms(2) by simp
    have "length r - (?q - 1) * 1200 \<le> 1200"
      using b by (simp add: algebra_simps)
    then show ?thesis using False by (simp add: chunk_at_def expected_len_def MAX_CHUNK_BYTES_def i)
  qed
qed

lemma expected_len_bounds:
  assumes "0 < tot"
  shows "1 \<le> expected_len tot i \<and> expected_len tot i \<le> MAX_CHUNK_BYTES"
  using ceil_div_bounds [of MAX_CHUNK_BYTES tot] assms
  by (auto simp: expected_len_def MAX_CHUNK_BYTES_def algebra_simps)

lemma count_le_fragments:
  assumes "0 < n" "n \<le> MAX_RECORD_BYTES"
  shows "1 \<le> ceil_div n MAX_CHUNK_BYTES \<and> ceil_div n MAX_CHUNK_BYTES \<le> MAX_FRAGMENTS"
proof -
  have "(ceil_div n 1200 - 1) * 1200 < 8 * 1200"
    using ceil_div_bounds [of 1200 n] assms by (simp add: link_consts)
  then have "ceil_div n 1200 - 1 < 8" by simp
  then show ?thesis using ceil_div_bounds(3) [of 1200 n] assms by (simp add: link_consts)
qed

lemma concat_chunks_take:
  "concat (map (chunk_at r) [0..<k]) = take (k * MAX_CHUNK_BYTES) r"
proof (induction k)
  case (Suc k)
  have "take (Suc k * MAX_CHUNK_BYTES) r = take (k * MAX_CHUNK_BYTES + MAX_CHUNK_BYTES) r"
    by (simp add: add.commute)
  also have "\<dots> = take (k * MAX_CHUNK_BYTES) r @ chunk_at r k"
    by (simp only: take_add chunk_at_def slice_def)
  finally show ?case using Suc by simp
qed simp

lemma concat_chunks:
  assumes "r \<noteq> []"
  shows "concat (map (chunk_at r) [0..<ceil_div (length r) MAX_CHUNK_BYTES]) = r"
  using ceil_div_bounds(2) [of MAX_CHUNK_BYTES "length r"] assms
  by (simp add: concat_chunks_take MAX_CHUNK_BYTES_def)

lemma sum_expected_len:
  assumes "0 < tot"
  shows "sum_list (map (expected_len tot) [0..<ceil_div tot MAX_CHUNK_BYTES]) = tot"
proof -
  let ?r = "replicate tot (0::byte)"
  have "length (concat (map (chunk_at ?r) [0..<ceil_div (length ?r) MAX_CHUNK_BYTES])) = tot"
    using assms by (subst concat_chunks) auto
  moreover have "map (length \<circ> chunk_at ?r) [0..<ceil_div tot MAX_CHUNK_BYTES]
      = map (expected_len tot) [0..<ceil_div tot MAX_CHUNK_BYTES]"
    using length_chunk_at [of ?r] assms by (intro map_cong) auto
  ultimately show ?thesis by (simp add: length_concat)
qed

section \<open>Round trip and acceptance\<close>

lemma ascii_roundtrip:
  assumes "ascii_bytes s = Some bs"
  shows "ascii_string bs = s" "length bs = length s"
proof -
  from assms have c: "list_all (\<lambda>c. (of_char c :: nat) < 128) s" and bs: "bs = map of_char s"
    by (auto simp: ascii_bytes_def split: if_splits)
  have "char_of (unat (of_char c :: byte)) = c" if "(of_char c :: nat) < 128" for c :: char
  proof -
    have "unat (of_char c :: byte) = of_char c"
      using that by (simp add: of_char_def unat_of_nat flip: of_nat_of_char)
    then show ?thesis by simp
  qed
  with c show "ascii_string bs = s" "length bs = length s"
    by (auto simp: bs ascii_string_def list_all_iff intro: map_idI)
qed

lemma decode_frame_body:
  assumes t: "t = TYPE_EVENT \<or> t = TYPE_HEALTH"
    and r: "r \<noteq> []" "length r \<le> MAX_RECORD_BYTES" and i: "i < ceil_div (length r) MAX_CHUNK_BYTES"
    and sid: "list_all sid_ok sid" "1 \<le> length sid" "length sid \<le> 63"
    and boot: "length boot = 16" and s: "s < 2 ^ 64"
    and body: "body = frame_body t fl i (ceil_div (length r) MAX_CHUNK_BYTES) sid boot s (length r) (chunk_at r i)"
  shows "decode key (body @ link_mac key body) =
    Inr \<lparr>frame_type = t, frag_index = i, frag_count = ceil_div (length r) MAX_CHUNK_BYTES,
         frame_sensor = ascii_string sid, frame_boot = uuid_str boot, frame_seq = s,
         total_length = length r, chunk = chunk_at r i\<rparr>"
proof -
  let ?q = "ceil_div (length r) MAX_CHUNK_BYTES" and ?d = "body @ link_mac key body"
  have q: "1 \<le> ?q" "?q \<le> 8"
    using count_le_fragments [of "length r"] r by (auto simp: MAX_FRAGMENTS_def)
  have len: "length (chunk_at r i) = expected_len (length r) i"
    using length_chunk_at r(1) i by blast
  then have len12: "1 \<le> length (chunk_at r i)" "length (chunk_at r i) \<le> 1200"
    using expected_len_bounds [of "length r" i] r(1) by (auto simp: MAX_CHUNK_BYTES_def)
  have lb: "length body = 40 + length sid + length (chunk_at r i)"
    using boot by (simp add: body)
  have mac: "length (link_mac key body) = 32" by (simp add: link_mac_def)
  have tk: "take (length ?d - HMAC_BYTES) ?d = body" "drop (length ?d - HMAC_BYTES) ?d = link_mac key body"
    by (simp_all add: mac HMAC_BYTES_def)
  have t12: "t < 256" "t \<in> {TYPE_EVENT, TYPE_HEALTH}" using t by (auto simp: link_consts)
  have bytes: "byte_at body 4 = 1" "byte_at body 5 = t" "byte_at body 7 = i" "byte_at body 8 = ?q"
      "byte_at body 9 = length sid" "take 4 body = MAGIC"
    using t12 q i sid(3) by (simp_all add: body byte_at_head)
  have tail: "slice 10 (length sid) body = sid" "slice (10 + length sid) 16 body = boot"
      "unbe (slice (10 + length sid + 16) 8 body) = s" "unbe (slice (10 + length sid + 24) 4 body) = length r"
      "unbe (slice (10 + length sid + 28) 2 body) = length (chunk_at r i)"
      "drop (10 + length sid + 30) body = chunk_at r i"
    using frame_body_tail [OF boot] s len12 r(2)
    by (simp_all add: body unbe_be_small MAX_RECORD_BYTES_def)
  have n: "\<not> (length ?d < MIN_FRAME \<or> length ?d > MAX_DATAGRAM_BYTES)"
    using lb mac len12 sid by (auto simp: link_consts)
  have ge: "(if Suc i < ?q then MAX_CHUNK_BYTES else length r - (?q - 1) * MAX_CHUNK_BYTES)
      = length (chunk_at r i)"
    by (simp add: len expected_len_def)
  have "1 \<le> length r" using r(1) by (cases r) auto
  then show ?thesis
    unfolding decode_def Let_def tk bytes HEAD_SIZE_def MID_SIZE_def tail ge
    using n t12 q i sid lb r len12 by (simp add: link_consts)
qed

text \<open>What an accepted datagram guarantees: the geometry of its fragment and a clean sensor id.\<close>

definition wf_frame :: "frame \<Rightarrow> bool" where
  "wf_frame f = ((frame_type f = TYPE_EVENT \<or> frame_type f = TYPE_HEALTH) \<and>
     frag_index f < frag_count f \<and> frag_count f \<le> MAX_FRAGMENTS \<and>
     1 \<le> total_length f \<and> total_length f \<le> MAX_RECORD_BYTES \<and>
     frag_count f = ceil_div (total_length f) MAX_CHUNK_BYTES \<and>
     length (chunk f) = expected_len (total_length f) (frag_index f) \<and>
     frame_seq f < 2 ^ 64)"

lemma unbe_slice_less: "length bs \<ge> i + k \<Longrightarrow> unbe (slice i k bs) < 256 ^ k"
  using unbe_less [of "slice i k bs"] by simp

lemma decode_SomeD:
  assumes "decode key data = Inr f"
  obtains body sidb where
    "data = body @ link_mac key body" "length sidb = byte_at body 9" "1 \<le> length sidb" "length sidb \<le> 63"
    "sidb = slice 10 (length sidb) body" "list_all sid_ok sidb" "40 + length sidb \<le> length body"
    "take 4 body = MAGIC" "byte_at body 4 = 1"
    "f = \<lparr>frame_type = byte_at body 5, frag_index = byte_at body 7, frag_count = byte_at body 8,
          frame_sensor = ascii_string sidb, frame_boot = uuid_str (slice (10 + length sidb) 16 body),
          frame_seq = unbe (slice (26 + length sidb) 8 body),
          total_length = unbe (slice (34 + length sidb) 4 body), chunk = drop (40 + length sidb) body\<rparr>"
    "unbe (slice (38 + length sidb) 2 body) = length (chunk f)" "wf_frame f"
proof -
  define n where "n = length data"
  define body where "body = take (n - 32) data"
  define L where "L = byte_at body 9"
  define sidb where "sidb = slice 10 L body"
  have d: "\<not> (n < MIN_FRAME \<or> n > MAX_DATAGRAM_BYTES)" "link_mac key body = drop (n - 32) data"
    using assms by (auto simp: decode_def Let_def n_def [symmetric] body_def HMAC_BYTES_def split: if_splits)
  note dec = assms [unfolded decode_def Let_def n_def [symmetric] HMAC_BYTES_def body_def [symmetric]
      HEAD_SIZE_def MID_SIZE_def L_def [symmetric] sidb_def [symmetric]]
  have c: "take 4 body = MAGIC" "byte_at body 4 = 1" "byte_at body 5 \<in> {TYPE_EVENT, TYPE_HEALTH}"
      "1 \<le> byte_at body 8 \<and> byte_at body 8 \<le> MAX_FRAGMENTS" "byte_at body 7 < byte_at body 8"
      "1 \<le> L" "L \<le> 63" "40 + L \<le> length body" "list_all sid_ok sidb"
    using dec d by (auto split: if_splits)
  let ?tot = "unbe (slice (10 + L + 24) 4 body)"
  have f: "f = \<lparr>frame_type = byte_at body 5, frag_index = byte_at body 7, frag_count = byte_at body 8,
          frame_sensor = ascii_string sidb, frame_boot = uuid_str (slice (10 + L) 16 body),
          frame_seq = unbe (slice (10 + L + 16) 8 body), total_length = ?tot, chunk = drop (10 + L + 30) body\<rparr>"
    and g: "1 \<le> ?tot" "?tot \<le> MAX_RECORD_BYTES"
      "unbe (slice (10 + L + 28) 2 body) = length (drop (10 + L + 30) body)"
      "ceil_div ?tot MAX_CHUNK_BYTES = byte_at body 8"
      "unbe (slice (10 + L + 28) 2 body) = expected_len ?tot (byte_at body 7)"
    using dec d c by (auto simp: expected_len_def split: if_splits)
  have len: "length sidb = L" using c(8) by (simp add: sidb_def)
  have eq: "10 + L + 16 = 26 + L" "10 + L + 24 = 34 + L" "10 + L + 28 = 38 + L" "10 + L + 30 = 40 + L"
    by simp_all
  have seq: "unbe (slice (26 + L) 8 body) < 2 ^ 64"
    using unbe_slice_less [of "26 + L" 8 body] c(8) by simp
  have data: "data = body @ link_mac key body"
    using d(2) by (metis append_take_drop_id body_def)
  show ?thesis
  proof (rule that [of body sidb])
    show "wf_frame f" using c g seq by (auto simp: wf_frame_def f eq)
  qed (use data c g f len in \<open>simp_all add: eq L_def [symmetric] sidb_def [symmetric]\<close>)
qed

lemma decode_wf: "decode key data = Inr f \<Longrightarrow> wf_frame f"
  by (erule decode_SomeD)

text \<open>The body of an accepted datagram is determined by the decoded frame, but for the reserved
  flags byte, which the decoder ignores.\<close>

lemma cut: "i + n \<le> length xs \<Longrightarrow> drop i xs = slice i n xs @ drop (i + n) xs"
  by (metis add.commute append_take_drop_id drop_drop slice_def)

lemma take10:
  assumes "10 \<le> length (xs :: bytes)"
  shows "take 10 xs = take 4 xs @ [xs ! 4, xs ! 5, xs ! 6, xs ! 7, xs ! 8, xs ! 9]"
proof -
  have "take 10 xs = take 4 xs @ take 6 (drop 4 xs)"
    using take_add [of 4 6 xs] by simp
  also have "take 6 (drop 4 xs) = map (\<lambda>i. drop 4 xs ! i) [0..<6]"
    using assms by (intro nth_equalityI) auto
  also have "\<dots> = [xs ! 4, xs ! 5, xs ! 6, xs ! 7, xs ! 8, xs ! 9]"
    using assms by (simp add: upt_rec numeral_eq_Suc)
  finally show ?thesis .
qed

lemma of_nat_byte_at [simp]: "of_nat (byte_at bs i) = bs ! i"
  by (simp add: byte_at_def)

lemma decode_canonical:
  assumes "decode key data = Inr f"
  shows "\<exists>flags sidb boot. data = (let body = frame_body (frame_type f) flags (frag_index f) (frag_count f)
       sidb boot (frame_seq f) (total_length f) (chunk f) in body @ link_mac key body)
     \<and> frame_sensor f = ascii_string sidb \<and> frame_boot f = uuid_str boot \<and> length boot = 16 \<and> list_all sid_ok sidb"
proof -
  obtain body sidb where d: "data = body @ link_mac key body" "length sidb = byte_at body 9"
      "sidb = slice 10 (length sidb) body" "list_all sid_ok sidb" "40 + length sidb \<le> length body"
      "take 4 body = MAGIC" "byte_at body 4 = 1"
    and f: "f = \<lparr>frame_type = byte_at body 5, frag_index = byte_at body 7, frag_count = byte_at body 8,
          frame_sensor = ascii_string sidb, frame_boot = uuid_str (slice (10 + length sidb) 16 body),
          frame_seq = unbe (slice (26 + length sidb) 8 body),
          total_length = unbe (slice (34 + length sidb) 4 body), chunk = drop (40 + length sidb) body\<rparr>"
    and cl: "unbe (slice (38 + length sidb) 2 body) = length (chunk f)"
    using assms by (rule decode_SomeD)
  let ?L = "length sidb"
  have b4: "body ! 4 = 1" using d(7) by (simp add: byte_at_def word_unat_eq_iff)
  have l10: "10 \<le> length body" using d(5) by simp
  have head: "take 10 body = head_bytes (frame_type f) (body ! 6) (frag_index f) (frag_count f) ?L"
    by (simp add: take10 [OF l10] d(6) b4 head_bytes_def f d(2))
  have fld: "be k (unbe (slice i k body)) = slice i k body" if "i + k \<le> length body" for i k
    using that be_unbe [of "slice i k body"] by simp
  have "body = take 10 body @ drop 10 body" by simp
  also have "drop 10 body = sidb @ drop (10 + ?L) body"
    using cut [of 10 ?L body] d by simp
  also have "drop (10 + ?L) body = mid_bytes (slice (10 + ?L) 16 body) (frame_seq f) (total_length f)
      (length (chunk f)) @ chunk f"
    using cut [of "10 + ?L" 16 body] cut [of "26 + ?L" 8 body] cut [of "34 + ?L" 4 body]
      cut [of "38 + ?L" 2 body] d(5) fld [of "26 + ?L" 8] fld [of "34 + ?L" 4] fld [of "38 + ?L" 2]
    by (simp only: mid_bytes_def cl [symmetric]) (simp add: f)
  finally have "body = frame_body (frame_type f) (body ! 6) (frag_index f) (frag_count f) sidb
      (slice (10 + ?L) 16 body) (frame_seq f) (total_length f) (chunk f)"
    unfolding head frame_body_def by simp
  then show ?thesis
    using d f by (intro exI [of _ "body ! 6"] exI [of _ sidb] exI [of _ "slice (10 + ?L) 16 body"])
      (simp add: Let_def)
qed

section \<open>The fragments of a record\<close>

text \<open>What the other side decodes from the \<open>i\<close>-th datagram of a record.\<close>

definition fragment_of :: "nat \<Rightarrow> string \<Rightarrow> bytes \<Rightarrow> nat \<Rightarrow> bytes \<Rightarrow> nat \<Rightarrow> frame" where
  "fragment_of t sid boot sequence r i =
     \<lparr>frame_type = t, frag_index = i, frag_count = ceil_div (length r) MAX_CHUNK_BYTES,
      frame_sensor = sid, frame_boot = uuid_str boot, frame_seq = sequence,
      total_length = length r, chunk = chunk_at r i\<rparr>"

definition fragments :: "nat \<Rightarrow> string \<Rightarrow> bytes \<Rightarrow> nat \<Rightarrow> bytes \<Rightarrow> frame list" where
  "fragments t sid boot sequence r =
     map (fragment_of t sid boot sequence r) [0..<ceil_div (length r) MAX_CHUNK_BYTES]"

lemma length_fragments [simp]: "length (fragments t sid boot sq r) = ceil_div (length r) MAX_CHUNK_BYTES"
  by (simp add: fragments_def)

lemma nth_fragments:
  "i < ceil_div (length r) MAX_CHUNK_BYTES \<Longrightarrow> fragments t sid boot sq r ! i = fragment_of t sid boot sq r i"
  by (simp add: fragments_def)

lemma set_fragments:
  "set (fragments t sid boot sq r) = fragment_of t sid boot sq r ` {0..<ceil_div (length r) MAX_CHUNK_BYTES}"
  by (simp add: fragments_def)

lemma concat_fragments: "r \<noteq> [] \<Longrightarrow> concat (map chunk (fragments t sid boot sq r)) = r"
  using concat_chunks [of r] by (simp add: fragments_def fragment_of_def comp_def)

lemma length_unhex: "unhex s = Some b \<Longrightarrow> length s = 2 * length b"
  by (induction s arbitrary: b rule: unhex.induct) (auto split: option.splits)

lemma length_uuid_bytes: "uuid_bytes s = Some b \<Longrightarrow> length b = 16"
  using length_unhex by (auto simp: uuid_bytes_def Let_def split: if_splits)

lemma encode_InrE:
  assumes "encode key t sid boot sq r = Inr fs"
  obtains sidb ub where "ascii_bytes sid = Some sidb" "uuid_bytes boot = Some ub"
    "1 \<le> length sidb" "length sidb \<le> 63" "r \<noteq> []" "length r \<le> MAX_RECORD_BYTES"
    "t < 256" "0 \<le> sq" "sq < 2 ^ 64"
    "fs = map (\<lambda>i. let body = frame_body t 0 i (ceil_div (length r) MAX_CHUNK_BYTES) sidb ub (nat sq)
         (length r) (chunk_at r i) in body @ link_mac key body) [0..<ceil_div (length r) MAX_CHUNK_BYTES]"
  using assms by (auto simp: encode_def Let_def split: if_splits option.splits)

text \<open>
  C1: the link codec round trip. For a frame type the receiver knows and a sensor id over its
  alphabet, every datagram \<open>encode\<close> produces decodes, with the same key, to its fragment of the
  record (type, index, count, sensor, boot id, sequence, total length and chunk), and the chunks
  in index order are the record.
\<close>

theorem link_round_trip:
  assumes "encode key t sid boot sq r = Inr fs" and "t = TYPE_EVENT \<or> t = TYPE_HEALTH"
    and "list_all (\<lambda>c. sid_ok (of_char c)) sid" and "uuid_bytes boot = Some ub"
  shows "map (decode key) fs = map Inr (fragments t sid ub (nat sq) r)
    \<and> concat (map chunk (fragments t sid ub (nat sq) r)) = r"
proof -
  obtain sidb where e: "ascii_bytes sid = Some sidb" "1 \<le> length sidb" "length sidb \<le> 63" "r \<noteq> []"
      "length r \<le> MAX_RECORD_BYTES" "0 \<le> sq" "sq < 2 ^ 64"
    and fs: "fs = map (\<lambda>i. let body = frame_body t 0 i (ceil_div (length r) MAX_CHUNK_BYTES) sidb ub (nat sq)
         (length r) (chunk_at r i) in body @ link_mac key body) [0..<ceil_div (length r) MAX_CHUNK_BYTES]"
    using assms(1,4) by (auto elim: encode_InrE)
  have ok: "list_all sid_ok sidb"
    using e(1) assms(3) by (auto simp: ascii_bytes_def list_all_iff split: if_splits)
  have sq: "nat sq < 2 ^ 64" using e(6,7) by (simp add: nat_less_iff)
  have "map (decode key) fs = map Inr (fragments t sid ub (nat sq) r)"
    using assms(2) e ok sq length_uuid_bytes [OF assms(4)]
    by (auto simp: fs fragments_def fragment_of_def Let_def decode_frame_body ascii_roundtrip(1) [OF e(1)])
  moreover have "concat (map chunk (fragments t sid ub (nat sq) r)) = r"
    using concat_fragments [OF e(4)] .
  ultimately show ?thesis by simp
qed

lemma encode_example:
  "\<exists>fs. encode (replicate 16 1) TYPE_EVENT ''s1'' (uuid_str (replicate 16 7)) 5 [1, 2, 3] = Inr fs"
  by (simp add: encode_def uuid_bytes_str ascii_bytes_def MAX_RECORD_BYTES_def TYPE_EVENT_def Let_def)

theorem link_round_trip_witness:
  "\<exists>fs. encode (replicate 16 1) TYPE_EVENT ''s1'' (uuid_str (replicate 16 7)) 5 [1, 2, 3] = Inr fs
    \<and> map (decode (replicate 16 1)) fs = map Inr (fragments TYPE_EVENT ''s1'' (replicate 16 7) (nat 5) [1, 2, 3])"
proof -
  obtain fs where fs: "encode (replicate 16 1) TYPE_EVENT ''s1'' (uuid_str (replicate 16 7)) 5 [1, 2, 3] = Inr fs"
    using encode_example by blast
  have "list_all (\<lambda>c. sid_ok (of_char c)) ''s1''" by (simp add: sid_ok_def)
  then show ?thesis using link_round_trip [OF fs] fs by (simp add: uuid_bytes_str)
qed

text \<open>
  every datagram the sender emits is long enough for the receiver's length check and no longer
  than \<^verbatim>\<open>MAX_DATAGRAM_BYTES\<close>, so IP fragmentation is never relied on.
\<close>

theorem encode_datagram_bound:
  assumes "encode key t sid boot sq r = Inr fs" and "d \<in> set fs"
  shows "MIN_FRAME \<le> length d \<and> length d \<le> MAX_DATAGRAM_BYTES"
proof -
  obtain sidb ub i where e: "uuid_bytes boot = Some ub" "1 \<le> length sidb" "length sidb \<le> 63" "r \<noteq> []"
      "i < ceil_div (length r) MAX_CHUNK_BYTES"
    and d: "d = (let body = frame_body t 0 i (ceil_div (length r) MAX_CHUNK_BYTES) sidb ub (nat sq)
         (length r) (chunk_at r i) in body @ link_mac key body)"
    using assms by (auto elim!: encode_InrE)
  have "1 \<le> length (chunk_at r i) \<and> length (chunk_at r i) \<le> MAX_CHUNK_BYTES"
    using length_chunk_at [OF e(4,5)] expected_len_bounds [of "length r" i] e(4) by auto
  then show ?thesis
    using e(2,3) length_uuid_bytes [OF e(1)] by (auto simp: d Let_def link_mac_def link_consts)
qed

theorem encode_datagram_bound_witness:
  "\<exists>fs d. encode (replicate 16 1) TYPE_EVENT ''s1'' (uuid_str (replicate 16 7)) 5 [1, 2, 3] = Inr fs
    \<and> d \<in> set fs \<and> length d \<le> MAX_DATAGRAM_BYTES"
proof -
  obtain fs where fs: "encode (replicate 16 1) TYPE_EVENT ''s1'' (uuid_str (replicate 16 7)) 5 [1, 2, 3] = Inr fs"
    using encode_example by blast
  then have "length fs = 1" by (auto simp: ceil_div_def MAX_CHUNK_BYTES_def elim!: encode_InrE)
  then obtain d where "d \<in> set fs" by (cases fs) auto
  then show ?thesis using encode_datagram_bound [OF fs] fs by blast
qed

text \<open>
  C26: authenticity of what is accepted. A datagram that decodes to a frame carries the HMAC of its
  own body under the receiver's key, its body is exactly the encoding of that frame's fields (up to
  the reserved flags byte), and the frame's fragment index, count, chunk length and total length are
  consistent with each other.
\<close>

theorem decode_authentic:
  assumes "decode key data = Inr f"
  shows "wf_frame f \<and> (\<exists>flags sidb boot. data = (let body = frame_body (frame_type f) flags (frag_index f)
       (frag_count f) sidb boot (frame_seq f) (total_length f) (chunk f) in body @ link_mac key body)
     \<and> frame_sensor f = ascii_string sidb \<and> frame_boot f = uuid_str boot \<and> length boot = 16
     \<and> list_all sid_ok sidb)"
  using decode_wf [OF assms] decode_canonical [OF assms] by blast

theorem decode_authentic_witness:
  "\<exists>d f. decode (replicate 16 1) d = Inr f \<and> wf_frame f"
proof -
  have r: "([1, 2, 3] :: bytes) \<noteq> []" "length ([1, 2, 3] :: bytes) \<le> MAX_RECORD_BYTES"
      "0 < ceil_div (length ([1, 2, 3] :: bytes)) MAX_CHUNK_BYTES"
    by (simp_all add: link_consts ceil_div_def)
  have s: "list_all sid_ok [115 :: byte]" "1 \<le> length [115 :: byte]" "length [115 :: byte] \<le> 63"
    by (simp_all add: sid_ok_def)
  have u: "length (replicate 16 7 :: bytes) = 16" "5 < (2::nat) ^ 64" by simp_all
  obtain d f where df: "decode (replicate 16 1) d = Inr f"
    using decode_frame_body [OF disjI1 [OF refl] r s u refl] by metis
  then show ?thesis using decode_authentic [OF df] by blast
qed

section \<open>The contract the reassembly uses\<close>

text \<open>
  \<open>frags m r\<close> are the decoded fragments of record \<open>r\<close> under identity \<open>m\<close>: all agree
  on the identity, the count and the total length, the \<open>i\<close>-th has index \<open>i\<close>, and the
  chunks in order are the record.
\<close>

type_synonym frame_key = "nat \<times> string \<times> string \<times> nat"

definition frame_key :: "frame \<Rightarrow> frame_key" where
  "frame_key f = (frame_type f, frame_sensor f, frame_boot f, frame_seq f)"

locale record_fragments =
  fixes frags :: "'m \<Rightarrow> bytes \<Rightarrow> frame list" and ident :: "'m \<Rightarrow> frame_key"
  assumes frags_key: "f \<in> set (frags m r) \<Longrightarrow> frame_key f = ident m"
    and frags_count: "f \<in> set (frags m r) \<Longrightarrow> frag_count f = length (frags m r)"
    and frags_total: "f \<in> set (frags m r) \<Longrightarrow> total_length f = length r"
    and frags_index: "i < length (frags m r) \<Longrightarrow> frag_index (frags m r ! i) = i"
    and frags_concat: "r \<noteq> [] \<Longrightarrow> concat (map chunk (frags m r)) = r"
begin

lemma frags_in_range: "f \<in> set (frags m r) \<Longrightarrow> frag_index f < length (frags m r)"
  by (auto simp: in_set_conv_nth frags_index)

lemma frags_nth: "f \<in> set (frags m r) \<Longrightarrow> frags m r ! frag_index f = f"
  by (auto simp: in_set_conv_nth frags_index)

lemma frags_nonempty: "r \<noteq> [] \<Longrightarrow> frags m r \<noteq> []"
  using frags_concat [of r m] by auto

end

fun msg_fragments :: "nat \<times> string \<times> bytes \<times> nat \<Rightarrow> bytes \<Rightarrow> frame list" where
  "msg_fragments (t, sid, boot, sq) r = fragments t sid boot sq r"

fun msg_key :: "nat \<times> string \<times> bytes \<times> nat \<Rightarrow> frame_key" where
  "msg_key (t, sid, boot, sq) = (t, sid, uuid_str boot, sq)"

lemmas fragment_fields = set_fragments fragment_of_def frame_key_def

interpretation link: record_fragments msg_fragments msg_key
proof (unfold_locales, goal_cases)
  case (1 f m r) then show ?case by (cases m) (auto simp: fragment_fields)
next
  case (2 f m r) then show ?case by (cases m) (auto simp: fragment_fields)
next
  case (3 f m r) then show ?case by (cases m) (auto simp: fragment_fields)
next
  case (4 i m r) then show ?case by (cases m) (simp add: nth_fragments fragment_of_def)
next
  case (5 r m) then show ?case by (cases m) (simp add: concat_fragments)
qed

end
