(* ===== verification/Reassembly.thy ===== *)
theory Reassembly
  imports LinkFrame
begin

text \<open>
  Bounded fragment reassembly (\<^verbatim>\<open>ingest/receiver/sih_receiver/reassembly.py\<close>). The
  insertion-ordered dictionary of incomplete records is an association list; \<open>add\<close> and
  \<open>expire\<close> are the class's two operations, and \<open>run_ops\<close> a sequence of them. Shown:
  the table is bounded, a completed record is always the in-order concatenation of received
  fragments (whatever was lost, repeated, reordered, interleaved or expired), and the fragments
  of a record complete it in any order.
\<close>

section \<open>State\<close>

record complete =
  c_type :: nat
  c_sensor :: string
  c_boot :: string
  c_seq :: nat
  c_record :: bytes
  c_received_at :: int

record expired =
  x_reason :: string
  x_sensor :: string
  x_boot :: string
  x_seq :: nat

record pending =
  slots :: "bytes option list"
  p_total :: nat
  first_seen :: int
  received :: nat

type_synonym pendings = "(frame_key \<times> pending) list"

definition MAX_PENDING :: nat where "MAX_PENDING = 4096"
definition TIMEOUT_US :: int where "TIMEOUT_US = 2000000"

definition complete_of :: "frame \<Rightarrow> bytes \<Rightarrow> int \<Rightarrow> complete" where
  "complete_of f r now = \<lparr>c_type = frame_type f, c_sensor = frame_sensor f, c_boot = frame_boot f,
     c_seq = frame_seq f, c_record = r, c_received_at = now\<rparr>"

fun expired_of :: "string \<Rightarrow> frame_key \<Rightarrow> expired" where
  "expired_of why (t, sid, boot, sq) = \<lparr>x_reason = why, x_sensor = sid, x_boot = boot, x_seq = sq\<rparr>"

definition pending_count :: "pendings \<Rightarrow> nat" where
  "pending_count ps = length ps"

section \<open>Operations\<close>

text \<open>\<^verbatim>\<open>b"".join(p[0])\<close>; no slot is empty when it is called (\<open>join_slots_full\<close> below).\<close>

definition join_slots :: "bytes option list \<Rightarrow> bytes" where
  "join_slots ss = concat (map (\<lambda>s. case s of None \<Rightarrow> [] | Some c \<Rightarrow> c) ss)"

text \<open>The end of \<^verbatim>\<open>add\<close>: store the chunk unless its slot is filled, then finish or wait.\<close>

definition fill_slot :: "frame \<Rightarrow> pending \<Rightarrow> pending" where
  "fill_slot f p =
     (if slots p ! frag_index f = None
      then p\<lparr>slots := (slots p)[frag_index f := Some (chunk f)], received := Suc (received p)\<rparr>
      else p)"

definition store_chunk ::
  "pendings \<Rightarrow> frame \<Rightarrow> pending \<Rightarrow> int \<Rightarrow> complete option \<times> pendings" where
  "store_chunk ps f p now =
     (let p' = fill_slot f p
      in if received p' < frag_count f then (None, od_set (frame_key f) p' ps)
         else (Some (complete_of f (join_slots (slots p')) now), od_del (frame_key f) ps))"

definition fresh_pending :: "frame \<Rightarrow> int \<Rightarrow> pending" where
  "fresh_pending f now = \<lparr>slots = replicate (frag_count f) None, p_total = total_length f,
     first_seen = now, received = 0\<rparr>"

definition make_room :: "nat \<Rightarrow> pendings \<Rightarrow> expired list \<times> pendings" where
  "make_room max_pending ps =
     (if length ps \<ge> max_pending
      then (case ps of [] \<Rightarrow> ([], []) | (k, _) # rest \<Rightarrow> ([expired_of ''fragment_overflow'' k], rest))
      else ([], ps))"

definition add :: "nat \<Rightarrow> pendings \<Rightarrow> frame \<Rightarrow> int \<Rightarrow> complete option \<times> expired list \<times> pendings" where
  "add max_pending ps f now =
     (if frag_count f = 1 then (Some (complete_of f (chunk f) now), [], ps)
      else case map_of ps (frame_key f) of
        None \<Rightarrow>
          (let (ex, ps1) = make_room max_pending ps;
               (c, ps2) = store_chunk ps1 f (fresh_pending f now) now
           in (c, ex, ps2))
      | Some p \<Rightarrow>
          (if length (slots p) \<noteq> frag_count f \<or> p_total p \<noteq> total_length f
           then (None, [expired_of ''frame_malformed'' (frame_key f)], od_del (frame_key f) ps)
           else let (c, ps2) = store_chunk ps f p now in (c, [], ps2)))"

fun expire :: "int \<Rightarrow> int \<Rightarrow> pendings \<Rightarrow> expired list \<times> pendings" where
  "expire timeout now [] = ([], [])"
| "expire timeout now ((k, p) # ps) =
     (if now - first_seen p < timeout then ([], (k, p) # ps)
      else let (ex, ps') = expire timeout now ps in (expired_of ''fragment_timeout'' k # ex, ps'))"

datatype rop = Add frame int | Expire int

fun run_op :: "nat \<Rightarrow> int \<Rightarrow> rop \<Rightarrow> pendings \<Rightarrow> complete option \<times> expired list \<times> pendings" where
  "run_op mx timeout (Add f now) ps = add mx ps f now"
| "run_op mx timeout (Expire now) ps = (let (ex, ps') = expire timeout now ps in (None, ex, ps'))"

fun run_ops :: "nat \<Rightarrow> int \<Rightarrow> rop list \<Rightarrow> pendings \<Rightarrow> complete option list \<times> pendings" where
  "run_ops mx timeout [] ps = ([], ps)"
| "run_ops mx timeout (x # xs) ps =
     (let (c, ex, ps') = run_op mx timeout x ps; (cs, ps'') = run_ops mx timeout xs ps' in (c # cs, ps''))"

section \<open>Invariant\<close>

definition filled :: "bytes option list \<Rightarrow> nat" where
  "filled ss = length (filter (\<lambda>s. s \<noteq> None) ss)"

text \<open>
  \<open>H\<close> is the set of frames received so far. Every slot holds the chunk of a received
  fragment of the same record; the counter is the number of filled slots and is below the
  number of slots, so a record in the table is incomplete.
\<close>

definition slot_ok :: "frame set \<Rightarrow> frame_key \<Rightarrow> pending \<Rightarrow> nat \<Rightarrow> bool" where
  "slot_ok H k p i = (case slots p ! i of None \<Rightarrow> True | Some c \<Rightarrow>
     (\<exists>f \<in> H. frame_key f = k \<and> frag_index f = i \<and> frag_count f = length (slots p)
        \<and> total_length f = p_total p \<and> chunk f = c))"

definition slots_ok :: "frame set \<Rightarrow> frame_key \<Rightarrow> pending \<Rightarrow> bool" where
  "slots_ok H k p = (received p = filled (slots p) \<and> (\<forall>i < length (slots p). slot_ok H k p i))"

definition pending_ok :: "frame set \<Rightarrow> frame_key \<Rightarrow> pending \<Rightarrow> bool" where
  "pending_ok H k p = (slots_ok H k p \<and> received p < length (slots p))"

definition table_ok :: "nat \<Rightarrow> frame set \<Rightarrow> pendings \<Rightarrow> bool" where
  "table_ok mx H ps = (distinct (map fst ps) \<and> length ps \<le> mx \<and> (\<forall>(k, p) \<in> set ps. pending_ok H k p))"

text \<open>A completed record and the received fragments it is made of.\<close>

definition assembled :: "frame set \<Rightarrow> complete \<Rightarrow> bool" where
  "assembled H c = (\<exists>gs. gs \<noteq> [] \<and> set gs \<subseteq> H \<and> c_record c = concat (map chunk gs)
     \<and> (\<forall>i < length gs. frag_index (gs ! i) = i \<and> frag_count (gs ! i) = length gs
          \<and> total_length (gs ! i) = total_length (hd gs)
          \<and> frame_key (gs ! i) = (c_type c, c_sensor c, c_boot c, c_seq c)))"

lemma filled_le: "filled ss \<le> length ss"
  by (simp add: filled_def)

lemma filled_update:
  "i < length ss \<Longrightarrow> ss ! i = None \<Longrightarrow> filled (ss[i := Some c]) = Suc (filled ss)"
proof (induction ss arbitrary: i)
  case (Cons s ss)
  then show ?case by (cases i) (auto simp: filled_def)
qed simp

lemma filled_all: "filled ss = length ss \<longleftrightarrow> (\<forall>i < length ss. ss ! i \<noteq> None)"
  unfolding filled_def by (metis (mono_tags, lifting) all_nth_imp_all_set filter_True length_filter_less
      nat_less_le nth_mem)

lemma filled_fresh [simp]: "filled (replicate n None) = 0"
  by (simp add: filled_def)

lemma table_ok_mono: "table_ok mx H ps \<Longrightarrow> H \<subseteq> H' \<Longrightarrow> table_ok mx H' ps"
  unfolding table_ok_def pending_ok_def slots_ok_def slot_ok_def by (fastforce split: option.splits)

lemma pending_ok_mono: "pending_ok H k p \<Longrightarrow> H \<subseteq> H' \<Longrightarrow> pending_ok H' k p"
  unfolding pending_ok_def slots_ok_def slot_ok_def by (fastforce split: option.splits)


section \<open>Preservation\<close>

lemma fill_slot_fields [simp]:
  "length (slots (fill_slot f p)) = length (slots p)" "p_total (fill_slot f p) = p_total p"
  "first_seen (fill_slot f p) = first_seen p"
  by (auto simp: fill_slot_def)

lemma fill_slot_ok:
  assumes "slots_ok H (frame_key f) p" "f \<in> H" "frag_index f < frag_count f"
    and "length (slots p) = frag_count f" "p_total p = total_length f"
  shows "slots_ok H (frame_key f) (fill_slot f p)" "slots (fill_slot f p) ! frag_index f \<noteq> None"
proof -
  show "slots_ok H (frame_key f) (fill_slot f p)"
  proof (cases "slots p ! frag_index f = None")
    case True
    have "slot_ok H (frame_key f) (fill_slot f p) i" if "i < length (slots p)" for i
      using assms that True by (cases "i = frag_index f") (auto simp: slots_ok_def slot_ok_def fill_slot_def split: option.splits)
    then show ?thesis using assms True
      by (auto simp: slots_ok_def fill_slot_def filled_update)
  next
    case False
    then show ?thesis using assms by (auto simp: fill_slot_def)
  qed
  show "slots (fill_slot f p) ! frag_index f \<noteq> None"
    using assms by (auto simp: fill_slot_def)
qed

lemma fresh_ok: "slots_ok H k (fresh_pending f now)"
  by (auto simp: slots_ok_def slot_ok_def fresh_pending_def)

text \<open>A full table entry joins to the chunks of received fragments.\<close>

lemma full_assembled:
  assumes ok: "slots_ok H (frame_key f) p" and full: "length (slots p) \<le> received p" and ne: "0 < length (slots p)"
  shows "assembled H (complete_of f (join_slots (slots p)) now)"
proof -
  let ?n = "length (slots p)"
  have "filled (slots p) = ?n"
    using ok full filled_le [of "slots p"] by (simp add: slots_ok_def)
  then have "\<forall>i < ?n. \<exists>g \<in> H. frame_key g = frame_key f \<and> frag_index g = i \<and> frag_count g = ?n
      \<and> total_length g = p_total p \<and> slots p ! i = Some (chunk g)"
    using ok by (auto simp: filled_all slots_ok_def slot_ok_def split: option.splits) blast
  then obtain g where g: "\<And>i. i < ?n \<Longrightarrow> g i \<in> H \<and> frame_key (g i) = frame_key f \<and> frag_index (g i) = i
      \<and> frag_count (g i) = ?n \<and> total_length (g i) = p_total p \<and> slots p ! i = Some (chunk (g i))"
    by metis
  let ?gs = "map g [0..<?n]"
  have "map (\<lambda>s. case s of None \<Rightarrow> [] | Some c \<Rightarrow> c) (slots p) = map chunk ?gs"
    by (intro nth_equalityI) (auto simp: g)
  moreover have "hd ?gs = g 0" using ne by (simp add: hd_map)
  ultimately show ?thesis
    unfolding assembled_def using g ne
    by (intro exI [of _ ?gs]) (auto simp: complete_of_def join_slots_def frame_key_def)
qed

definition op_frames :: "rop \<Rightarrow> frame set" where
  "op_frames x = (case x of Add f _ \<Rightarrow> {f} | Expire _ \<Rightarrow> {})"

lemma store_chunk_ok:
  assumes ps: "distinct (map fst ps)" "\<forall>(k, q) \<in> set ps. pending_ok H k q"
    and p: "slots_ok H (frame_key f) p" "length (slots p) = frag_count f" "p_total p = total_length f"
    and f: "f \<in> H" "frag_index f < frag_count f"
    and len: "length (od_set (frame_key f) p ps) \<le> mx"
    and res: "store_chunk ps f p now = (c, ps')"
  shows "table_ok mx H ps' \<and> (\<forall>x. c = Some x \<longrightarrow> assembled H x)"
proof -
  let ?q = "fill_slot f p"
  note q = fill_slot_ok [OF p(1) f(1,2) p(2,3)]
  have set_set: "set (od_set (frame_key f) ?q ps) \<subseteq> insert (frame_key f, ?q) (set ps)"
    by (induction "frame_key f" ?q ps rule: od_set.induct) auto
  show ?thesis
  proof (cases "received ?q < frag_count f")
    case True
    then have "pending_ok H (frame_key f) ?q" using q p(2) by (simp add: pending_ok_def)
    moreover have "length (od_set (frame_key f) ?q ps) \<le> mx"
      using len by (simp add: length_od_set)
    ultimately have "table_ok mx H (od_set (frame_key f) ?q ps)"
      using ps set_set by (auto simp: table_ok_def)
    then show ?thesis using res True by (auto simp: store_chunk_def Let_def)
  next
    case False
    have "assembled H (complete_of f (join_slots (slots ?q)) now)"
      using False q p f by (intro full_assembled) auto
    moreover have "length (od_del (frame_key f) ps) \<le> mx"
      using len length_od_del_le [of "frame_key f" ps] by (auto simp: length_od_set split: if_splits)
    then have "table_ok mx H (od_del (frame_key f) ps)"
      using ps by (auto simp: table_ok_def set_od_del)
    ultimately show ?thesis using res False by (auto simp: store_chunk_def Let_def)
  qed
qed


lemma make_room_ok:
  assumes "make_room mx ps = (ex, ps1)" "table_ok mx H ps" "0 < mx"
  shows "distinct (map fst ps1)" "\<forall>(k, q) \<in> set ps1. pending_ok H k q" "Suc (length ps1) \<le> mx"
    "set ps1 \<subseteq> set ps"
  using assms by (auto simp: make_room_def table_ok_def split: if_splits list.splits)

lemma add_table_ok [state_inv]:
  assumes "table_ok mx H ps" "0 < mx" "frag_index f < frag_count f" "add mx ps f now = (c, ex, ps')"
  shows "table_ok mx (insert f H) ps' \<and> (\<forall>x. c = Some x \<longrightarrow> assembled (insert f H) x)"
proof (cases "frag_count f = 1")
  case True
  then have "assembled (insert f H) (complete_of f (chunk f) now)"
    using assms(3) unfolding assembled_def
    by (intro exI [of _ "[f]"]) (auto simp: complete_of_def frame_key_def)
  then show ?thesis using True assms table_ok_mono [of mx H ps "insert f H"]
    by (auto simp: add_def)
next
  case False
  let ?H = "insert f H"
  have tab: "table_ok mx ?H ps" using assms(1) table_ok_mono by blast
  show ?thesis
  proof (cases "map_of ps (frame_key f)")
    case None
    obtain ex1 ps1 where mr: "make_room mx ps = (ex1, ps1)" by fastforce
    note room = make_room_ok [OF mr tab assms(2)]
    have "frame_key f \<notin> fst ` set ps1"
      using room(4) None by (auto simp: map_of_eq_None_iff)
    then have "length (od_set (frame_key f) (fresh_pending f now) ps1) \<le> mx"
      using room(3) by (simp add: length_od_set)
    moreover have "store_chunk ps1 f (fresh_pending f now) now = (c, ps')"
      using assms(4) False None mr by (auto simp: add_def split: prod.splits)
    ultimately show ?thesis
      using room(1,2) fresh_ok assms(3)
      by (intro store_chunk_ok [where p = "fresh_pending f now"]) (auto simp: fresh_pending_def)
  next
    case (Some p)
    then have mem: "(frame_key f, p) \<in> set ps" by (rule map_of_SomeD)
    then have okp: "slots_ok ?H (frame_key f) p" using tab by (auto simp: table_ok_def pending_ok_def)
    have del: "table_ok mx ?H (od_del (frame_key f) ps)"
      using tab length_od_del_le [of "frame_key f" ps] by (auto simp: table_ok_def set_od_del)
    show ?thesis
    proof (cases "length (slots p) \<noteq> frag_count f \<or> p_total p \<noteq> total_length f")
      case True
      then show ?thesis using assms(4) False Some del by (auto simp: add_def)
    next
      case geom: False
      have "length (od_set (frame_key f) p ps) \<le> mx"
        using mem tab by (auto simp: length_od_set table_ok_def image_iff)
      moreover have "store_chunk ps f p now = (c, ps')"
        using assms(4) False Some geom by (auto simp: add_def split: prod.splits)
      ultimately show ?thesis
        using geom okp tab assms(3)
        by (intro store_chunk_ok [where p = p]) (auto simp: table_ok_def)
    qed
  qed
qed

lemma expire_suffix: "expire timeout now ps = (ex, ps') \<Longrightarrow> \<exists>qs. ps = qs @ ps' \<and> length ex = length qs"
proof (induction timeout now ps arbitrary: ex ps' rule: expire.induct)
  case (2 timeout now k p ps)
  show ?case
  proof (cases "now - first_seen p < timeout")
    case True
    then show ?thesis using 2(2) by auto
  next
    case False
    obtain ex1 ps1 where e: "expire timeout now ps = (ex1, ps1)" by fastforce
    then obtain qs where "ps = qs @ ps1 \<and> length ex1 = length qs" using 2(1) False by blast
    then show ?thesis using 2(2) False e by (intro exI [of _ "(k, p) # qs"]) auto
  qed
qed simp

lemma expire_table_ok [state_inv]:
  assumes "table_ok mx H ps" "expire timeout now ps = (ex, ps')"
  shows "table_ok mx H ps'"
proof -
  obtain qs where "ps = qs @ ps'" using expire_suffix [OF assms(2)] by blast
  then show ?thesis using assms(1) by (auto simp: table_ok_def)
qed

definition wf_op :: "rop \<Rightarrow> bool" where
  "wf_op x = (case x of Add f _ \<Rightarrow> frag_index f < frag_count f | Expire _ \<Rightarrow> True)"

lemma run_op_ok:
  assumes "table_ok mx H ps" "0 < mx" "wf_op x" "run_op mx timeout x ps = (c, ex, ps')"
  shows "table_ok mx (H \<union> op_frames x) ps' \<and> (\<forall>y. c = Some y \<longrightarrow> assembled (H \<union> op_frames x) y)"
proof (cases x)
  case (Add f now)
  then show ?thesis using assms add_table_ok [of mx H ps f now c ex ps']
    by (simp add: op_frames_def wf_op_def)
next
  case (Expire now)
  then show ?thesis using assms expire_table_ok [of mx H ps timeout now]
    by (auto simp: op_frames_def split: prod.splits)
qed

lemma run_ops_ok:
  assumes "table_ok mx H ps" "0 < mx" "list_all wf_op xs" "run_ops mx timeout xs ps = (cs, ps')"
  shows "table_ok mx (H \<union> \<Union> (op_frames ` set xs)) ps'
    \<and> (\<forall>y. Some y \<in> set cs \<longrightarrow> assembled (H \<union> \<Union> (op_frames ` set xs)) y)"
  using assms
proof (induction xs arbitrary: H ps cs ps')
  case (Cons x xs)
  obtain c ex ps1 where s1: "run_op mx timeout x ps = (c, ex, ps1)" by (metis prod_cases3)
  obtain cs1 ps2 where s2: "run_ops mx timeout xs ps1 = (cs1, ps2)" by fastforce
  have step: "table_ok mx (H \<union> op_frames x) ps1" "\<forall>y. c = Some y \<longrightarrow> assembled (H \<union> op_frames x) y"
    using run_op_ok [OF Cons.prems(1,2) _ s1] Cons.prems(3) by auto
  have rest: "table_ok mx (H \<union> op_frames x \<union> \<Union> (op_frames ` set xs)) ps2
      \<and> (\<forall>y. Some y \<in> set cs1 \<longrightarrow> assembled (H \<union> op_frames x \<union> \<Union> (op_frames ` set xs)) y)"
    using Cons.IH [OF step(1) Cons.prems(2) _ s2] Cons.prems(3) by auto
  have mono: "assembled A y \<Longrightarrow> A \<subseteq> B \<Longrightarrow> assembled B y" for A B y
    unfolding assembled_def by (meson order_trans)
  have all: "H \<union> \<Union> (op_frames ` set (x # xs)) = H \<union> op_frames x \<union> \<Union> (op_frames ` set xs)"
    by auto
  have "assembled (H \<union> op_frames x \<union> \<Union> (op_frames ` set xs)) y" if "c = Some y" for y
    using step(2) that mono [of "H \<union> op_frames x" y] by blast
  then show ?case unfolding all using rest Cons.prems(4) s1 s2 by auto
qed auto


section \<open>Any order completes a record\<close>

context record_fragments
begin

abbreviation (input) num :: "'m \<Rightarrow> bytes \<Rightarrow> nat" where
  "num m r \<equiv> length (frags m r)"

definition seen_slots :: "'m \<Rightarrow> bytes \<Rightarrow> nat set \<Rightarrow> bytes option list" where
  "seen_slots m r S = map (\<lambda>i. if i \<in> S then Some (chunk (frags m r ! i)) else None) [0..<num m r]"

definition holds_seen :: "'m \<Rightarrow> bytes \<Rightarrow> nat set \<Rightarrow> pending \<Rightarrow> bool" where
  "holds_seen m r S p = (slots p = seen_slots m r S \<and> p_total p = length r \<and> received p = card S)"

lemma seen_slots_insert:
  "i < num m r \<Longrightarrow> (seen_slots m r S)[i := Some (chunk (frags m r ! i))] = seen_slots m r (insert i S)"
  by (rule nth_equalityI) (auto simp: seen_slots_def nth_list_update)

lemma seen_slots_all: "join_slots (seen_slots m r {0..<num m r}) = concat (map chunk (frags m r))"
proof -
  have "map (\<lambda>s. case s of None \<Rightarrow> [] | Some c \<Rightarrow> c) (seen_slots m r {0..<num m r}) = map chunk (frags m r)"
    by (rule nth_equalityI) (auto simp: seen_slots_def)
  then show ?thesis by (simp add: join_slots_def)
qed

lemma fill_slot_seen:
  assumes "holds_seen m r S p" "finite S" "f \<in> set (frags m r)"
  shows "holds_seen m r (insert (frag_index f) S) (fill_slot f p)"
proof -
  have i: "frag_index f < num m r" using frags_in_range assms(3) by blast
  have f: "frags m r ! frag_index f = f" using frags_nth assms(3) by blast
  show ?thesis
  proof (cases "frag_index f \<in> S")
    case True
    then show ?thesis using assms i by (auto simp: holds_seen_def fill_slot_def seen_slots_def insert_absorb)
  next
    case False
    then have "slots p ! frag_index f = None" using assms(1) i by (simp add: holds_seen_def seen_slots_def)
    then show ?thesis
      using assms False seen_slots_insert [OF i, of S] f by (simp add: holds_seen_def fill_slot_def)
  qed
qed

definition table_at :: "'m \<Rightarrow> bytes \<Rightarrow> pendings \<Rightarrow> nat set \<Rightarrow> pendings \<Rightarrow> bool" where
  "table_at m r ps0 S ps = (if S = {} then ps = ps0
     else \<exists>p. ps = ps0 @ [(ident m, p)] \<and> holds_seen m r S p)"

lemma store_chunk_seen:
  assumes p: "holds_seen m r S p" "finite S" and f: "f \<in> set (frags m r)"
    and fresh: "ident m \<notin> fst ` set ps0" and ps: "ps = ps0 \<or> ps = ps0 @ [(ident m, q)]"
    and sub: "insert (frag_index f) S \<noteq> {0..<num m r}" "S \<subseteq> {0..<num m r}"
  shows "\<exists>ps'. store_chunk ps f p now = (None, ps') \<and> table_at m r ps0 (insert (frag_index f) S) ps'"
proof -
  let ?p = "fill_slot f p" and ?S = "insert (frag_index f) S"
  have h: "holds_seen m r ?S ?p" using fill_slot_seen assms by blast
  have "?S \<subset> {0..<num m r}" using sub frags_in_range [OF f] by auto
  then have "card ?S < num m r" using psubset_card_mono [of "{0..<num m r}" ?S] by simp
  then have "store_chunk ps f p now = (None, od_set (ident m) ?p ps)"
    using h frags_count [OF f] frags_key [OF f] by (simp add: store_chunk_def holds_seen_def)
  moreover have "od_set (ident m) ?p ps = ps0 @ [(ident m, ?p)]"
    using ps fresh by (elim disjE) (auto simp: od_set_new od_set_append)
  ultimately show ?thesis using h by (auto simp: table_at_def)
qed

lemma store_chunk_last:
  assumes p: "holds_seen m r S p" "finite S" and f: "f \<in> set (frags m r)" and r: "r \<noteq> []"
    and fresh: "ident m \<notin> fst ` set ps0" and ps: "ps = ps0 \<or> ps = ps0 @ [(ident m, q)]"
    and full: "insert (frag_index f) S = {0..<num m r}"
  shows "store_chunk ps f p now = (Some (complete_of f r now), ps0)"
proof -
  have h: "holds_seen m r {0..<num m r} (fill_slot f p)"
    using fill_slot_seen [OF p f] full by simp
  have "od_del (ident m) ps = ps0"
    using ps fresh by (elim disjE) (auto simp: od_del_absent od_del_append)
  then show ?thesis
    using h frags_count [OF f] frags_key [OF f] frags_concat [OF r]
    by (simp add: store_chunk_def holds_seen_def seen_slots_all)
qed


lemma fresh_holds_seen:
  "f \<in> set (frags m r) \<Longrightarrow> holds_seen m r {} (fresh_pending f now)"
  by (simp add: holds_seen_def fresh_pending_def seen_slots_def frags_count frags_total map_replicate_const)

lemma add_fragment:
  assumes tab: "table_at m r ps0 S ps" and S: "S \<subset> {0..<num m r}" and f: "f \<in> set (frags m r)"
    and fresh: "ident m \<notin> fst ` set ps0" and room: "length ps0 < mx" and one: "num m r \<noteq> 1"
  shows "\<exists>p q. (ps = ps0 \<or> ps = ps0 @ [(ident m, q)]) \<and> holds_seen m r S p
      \<and> add mx ps f now = (let (c, ps') = store_chunk ps f p now in (c, [], ps'))"
proof (cases "S = {}")
  case True
  then have ps: "ps = ps0" using tab by (simp add: table_at_def)
  have "map_of ps (frame_key f) = None"
    using fresh ps frags_key [OF f] by (simp add: map_of_eq_None_iff)
  then have "add mx ps f now = (let (c, ps') = store_chunk ps f (fresh_pending f now) now in (c, [], ps'))"
    using one room frags_count [OF f] ps by (simp add: add_def make_room_def)
  then show ?thesis using ps True fresh_holds_seen [OF f, of now] by blast
next
  case False
  then obtain p where p: "ps = ps0 @ [(ident m, p)]" "holds_seen m r S p"
    using tab by (auto simp: table_at_def)
  have "map_of ps0 (ident m) = None" using fresh by (simp add: map_of_eq_None_iff)
  then have "map_of ps (frame_key f) = Some p"
    using p frags_key [OF f] by (simp add: map_add_def)
  moreover have "length (slots p) = frag_count f" "p_total p = total_length f"
    using p(2) frags_count [OF f] frags_total [OF f] by (auto simp: holds_seen_def seen_slots_def)
  ultimately have "add mx ps f now = (let (c, ps') = store_chunk ps f p now in (c, [], ps'))"
    using one frags_count [OF f] by (simp add: add_def)
  then show ?thesis using p by blast
qed

lemma add_fragment_waits:
  assumes "table_at m r ps0 S ps" "S \<subset> {0..<num m r}" "f \<in> set (frags m r)"
    "ident m \<notin> fst ` set ps0" "length ps0 < mx" "num m r \<noteq> 1"
    and more: "insert (frag_index f) S \<noteq> {0..<num m r}"
  shows "\<exists>ps'. add mx ps f now = (None, [], ps') \<and> table_at m r ps0 (insert (frag_index f) S) ps'"
proof -
  obtain p q where pq: "ps = ps0 \<or> ps = ps0 @ [(ident m, q)]" "holds_seen m r S p"
      "add mx ps f now = (let (c, ps') = store_chunk ps f p now in (c, [], ps'))"
    using add_fragment [OF assms(1-6)] by blast
  have "finite S" "S \<subseteq> {0..<num m r}" using assms(2) finite_subset [of S "{0..<num m r}"] by auto
  then show ?thesis
    using store_chunk_seen [OF pq(2) _ assms(3,4) pq(1) more, of now] pq(3) by auto
qed

lemma add_fragment_completes:
  assumes "table_at m r ps0 S ps" "S \<subset> {0..<num m r}" "f \<in> set (frags m r)"
    "ident m \<notin> fst ` set ps0" "length ps0 < mx" "num m r \<noteq> 1" "r \<noteq> []"
    and full: "insert (frag_index f) S = {0..<num m r}"
  shows "add mx ps f now = (Some (complete_of f r now), [], ps0)"
proof -
  obtain p q where pq: "ps = ps0 \<or> ps = ps0 @ [(ident m, q)]" "holds_seen m r S p"
      "add mx ps f now = (let (c, ps') = store_chunk ps f p now in (c, [], ps'))"
    using add_fragment [OF assms(1-6)] by blast
  have "finite S" using assms(2) finite_subset [of S "{0..<num m r}"] by auto
  then show ?thesis
    using store_chunk_last [OF pq(2) _ assms(3,7,4) pq(1) full, of now] pq(3) by simp
qed

lemma run_adds_wait:
  assumes "table_at m r ps0 S ps" "S \<subset> {0..<num m r}" "set (map fst gs) \<subseteq> set (frags m r)"
    "ident m \<notin> fst ` set ps0" "length ps0 < mx" "num m r \<noteq> 1"
    and "S \<union> frag_index ` set (map fst gs) \<noteq> {0..<num m r}"
  shows "\<exists>ps'. run_ops mx timeout (map (\<lambda>(f, now). Add f now) gs) ps = (replicate (length gs) None, ps')
    \<and> table_at m r ps0 (S \<union> frag_index ` set (map fst gs)) ps'"
  using assms
proof (induction gs arbitrary: S ps)
  case (Cons g gs)
  obtain f now where g: "g = (f, now)" by fastforce
  have f: "f \<in> set (frags m r)" using Cons.prems(3) g by simp
  have range: "frag_index ` set (map fst gs) \<subseteq> {0..<num m r}" "frag_index f \<in> {0..<num m r}"
    using Cons.prems(3) g frags_in_range by auto
  have more: "insert (frag_index f) S \<noteq> {0..<num m r}"
    using Cons.prems(2,7) range g by auto
  obtain ps1 where a: "add mx ps f now = (None, [], ps1)" "table_at m r ps0 (insert (frag_index f) S) ps1"
    using add_fragment_waits [OF Cons.prems(1,2) f Cons.prems(4-6) more] by blast
  have "insert (frag_index f) S \<subset> {0..<num m r}" using more Cons.prems(2) range by auto
  moreover have "insert (frag_index f) S \<union> frag_index ` set (map fst gs) \<noteq> {0..<num m r}"
    using Cons.prems(7) g by simp
  ultimately obtain ps' where "run_ops mx timeout (map (\<lambda>(f, now). Add f now) gs) ps1 = (replicate (length gs) None, ps')"
      "table_at m r ps0 (insert (frag_index f) S \<union> frag_index ` set (map fst gs)) ps'"
    using Cons.IH [OF a(2) _ _ Cons.prems(4-6)] Cons.prems(3) by auto
  then show ?case using a g by simp
qed simp

lemma run_ops_append:
  "run_ops mx timeout (xs @ ys) ps = (let (cs, ps1) = run_ops mx timeout xs ps; (ds, ps2) = run_ops mx timeout ys ps1
     in (cs @ ds, ps2))"
  by (induction xs arbitrary: ps) (auto split: prod.splits)

lemma any_order:
  assumes r: "r \<noteq> []" and fresh: "ident m \<notin> fst ` set ps" "length ps < mx" and two: "num m r \<noteq> 1"
    and gs: "set (map fst gs) \<subset> set (frags m r)" "insert g (set (map fst gs)) = set (frags m r)"
  shows "run_ops mx timeout (map (\<lambda>(f, now). Add f now) (gs @ [(g, now)])) ps
    = (replicate (length gs) None @ [Some (complete_of g r now)], ps)"
proof -
  let ?S = "frag_index ` set (map fst gs)"
  have inj: "inj_on frag_index (set (frags m r))" by (metis inj_onI frags_nth)
  have img: "frag_index ` set (frags m r) = {0..<num m r}"
    by (force simp: in_set_conv_nth image_iff frags_index)
  have ne: "?S \<noteq> {0..<num m r}"
    using gs(1) inj img by (metis inj_on_image_eq_iff order_refl psubset_imp_subset psubset_eq)
  have empty: "table_at m r ps {} ps" by (simp add: table_at_def)
  have pos: "{} \<subset> {0..<num m r}" using frags_nonempty [OF r, of m] by auto
  obtain ps' where w: "run_ops mx timeout (map (\<lambda>(f, now). Add f now) gs) ps = (replicate (length gs) None, ps')"
      "table_at m r ps ?S ps'"
    using run_adds_wait [OF empty pos psubset_imp_subset [OF gs(1)] fresh two, of timeout] ne
    unfolding Un_empty_left by blast
  have gin: "g \<in> set (frags m r)" using gs(2) by blast
  have "insert (frag_index g) ?S = {0..<num m r}" using gs(2) img by (metis image_insert)
  moreover have "?S \<subset> {0..<num m r}" using ne gs(1) img by blast
  ultimately have "add mx ps' g now = (Some (complete_of g r now), [], ps)"
    using add_fragment_completes [OF w(2) _ gin fresh two r] by simp
  then show ?thesis using w(1) by (simp add: run_ops_append)
qed

end

section \<open>Properties\<close>

text \<open>
  whatever frames arrive, in whatever order and with whatever repetition, interleaving,
  timeouts and evictions, the table stays within its bound, and every completed record is the
  concatenation, in index order, of the chunks of frames that did arrive, that agree on the
  completed record's identity, count and total length, and that are as many as their count says.
\<close>

theorem reassembly_sound:
  assumes "0 < mx" "list_all wf_op xs" "run_ops mx timeout xs [] = (cs, ps)"
  shows "pending_count ps \<le> mx \<and> (\<forall>c. Some c \<in> set cs \<longrightarrow> assembled (\<Union> (op_frames ` set xs)) c)"
proof -
  have "table_ok mx {} []" by (simp add: table_ok_def)
  from run_ops_ok [OF this assms] show ?thesis by (simp add: table_ok_def pending_count_def)
qed

text \<open>Two fragments of one record of four bytes, out of order.\<close>

definition demo_frame :: "nat \<Rightarrow> bytes \<Rightarrow> frame" where
  "demo_frame i c = \<lparr>frame_type = 1, frag_index = i, frag_count = 2, frame_sensor = ''s1'',
     frame_boot = ''b'', frame_seq = 7, total_length = 4, chunk = c\<rparr>"

definition demo_ops :: "rop list" where
  "demo_ops = [Add (demo_frame 1 [3, 4]) 10, Expire 11, Add (demo_frame 0 [1, 2]) 12]"

lemma demo_run:
  "run_ops 8 100 demo_ops [] = ([None, None, Some (complete_of (demo_frame 0 [1, 2]) [1, 2, 3, 4] 12)], [])"
  by (simp add: demo_ops_def demo_frame_def add_def make_room_def store_chunk_def fill_slot_def fresh_pending_def
      frame_key_def join_slots_def numeral_2_eq_2)

theorem reassembly_sound_witness:
  "run_ops 8 100 demo_ops [] = ([None, None, Some (complete_of (demo_frame 0 [1, 2]) [1, 2, 3, 4] 12)], [])
   \<and> assembled (\<Union> (op_frames ` set demo_ops)) (complete_of (demo_frame 0 [1, 2]) [1, 2, 3, 4] 12)"
proof -
  have "list_all wf_op demo_ops" by (simp add: demo_ops_def wf_op_def demo_frame_def)
  then show ?thesis using reassembly_sound [OF _ _ demo_run] demo_run by auto
qed

text \<open>
  C25: any arrival order completes a record. When the fragments of a record (as \<open>encode\<close> cuts it,
  with at least two) arrive in any order, with any repetitions, at a table with room that
  does not hold the record, every arrival but the one that brings the last missing fragment waits,
  that one returns exactly the original record, and the table is left as it was.
\<close>

theorem reassembly_any_order:
  assumes "r \<noteq> []" "msg_key m \<notin> fst ` set ps" "length ps < mx" "length (msg_fragments m r) \<noteq> 1"
    and "set (map fst gs) \<subset> set (msg_fragments m r)"
    and "insert g (set (map fst gs)) = set (msg_fragments m r)"
  shows "run_ops mx timeout (map (\<lambda>(f, now). Add f now) (gs @ [(g, now)])) ps
    = (replicate (length gs) None @ [Some (complete_of g r now)], ps)"
  using assms by (rule link.any_order)

theorem reassembly_any_order_witness:
  "\<exists>r g h. length r = 1300 \<and> run_ops 4096 100 (map (\<lambda>(f, now). Add f now) [(h, 1), (h, 2), (g, 3)]) []
    = ([None, None, Some (complete_of g r 3)], [])"
proof -
  let ?m = "(1, ''s1'', replicate 16 7, 5)" and ?r = "replicate 1300 (7 :: byte)"
  let ?fr = "fragment_of 1 ''s1'' (replicate 16 7) 5 ?r"
  have two: "ceil_div 1300 MAX_CHUNK_BYTES = 2" by (simp add: ceil_div_def MAX_CHUNK_BYTES_def)
  have all: "set (msg_fragments ?m ?r) = {?fr 0, ?fr 1}"
    by (simp add: set_fragments two atLeast0_lessThan_Suc numeral_2_eq_2 insert_commute)
  have ne: "?fr 0 \<noteq> ?fr 1" by (simp add: fragment_of_def)
  have "run_ops 4096 100 (map (\<lambda>(f, now). Add f now) ([(?fr 1, 1), (?fr 1, 2)] @ [(?fr 0, 3)])) []
    = (replicate (length [(?fr 1, 1 :: int), (?fr 1, 2)]) None @ [Some (complete_of (?fr 0) ?r 3)], [])"
    by (rule reassembly_any_order [of ?r ?m]) (use two all ne in auto)
  then have "run_ops 4096 100 (map (\<lambda>(f, now). Add f now) [(?fr 1, 1), (?fr 1, 2), (?fr 0, 3)]) []
    = ([None, None, Some (complete_of (?fr 0) ?r 3)], [])"
    by (simp del: run_ops.simps)
  then show ?thesis by (metis length_replicate)
qed

text \<open>
  expiry. On a table whose entries were opened at non-decreasing times (the insertion order the
  receiver's clock gives), \<open>expire\<close> removes exactly the entries that have waited at least the
  timeout, reporting each one once and in order, and keeps every younger one.
\<close>

theorem expire_exact:
  assumes "sorted (map (\<lambda>(k, p). first_seen p) ps)"
  shows "expire timeout now ps =
    (map (\<lambda>(k, p). expired_of ''fragment_timeout'' k) (filter (\<lambda>(k, p). timeout \<le> now - first_seen p) ps),
     filter (\<lambda>(k, p). now - first_seen p < timeout) ps)"
  using assms
proof (induction timeout now ps rule: expire.induct)
  case (2 timeout now k p ps)
  show ?case
  proof (cases "now - first_seen p < timeout")
    case True
    have "\<forall>x \<in> set ps. now - first_seen (snd x) < timeout" using 2(2) True by fastforce
    then have "filter (\<lambda>(k, p). now - first_seen p < timeout) ps = ps"
        "filter (\<lambda>(k, p). timeout \<le> now - first_seen p) ps = []"
      by (fastforce simp: filter_id_conv filter_empty_conv)+
    then show ?thesis using True by simp
  next
    case False
    then show ?thesis using 2 by (simp split: prod.splits)
  qed
qed simp

theorem expire_exact_witness:
  "expire 5 10 [((1, ''s'', ''b'', 2), fresh_pending (demo_frame 0 [1]) 4), ((1, ''s'', ''b'', 3), fresh_pending (demo_frame 0 [1]) 6)]
   = ([expired_of ''fragment_timeout'' (1, ''s'', ''b'', 2)], [((1, ''s'', ''b'', 3), fresh_pending (demo_frame 0 [1]) 6)])"
  using expire_exact [of "[((1, ''s'', ''b'', 2), fresh_pending (demo_frame 0 [1]) 4), ((1, ''s'', ''b'', 3), fresh_pending (demo_frame 0 [1]) 6)]" 5 10]
  by (simp add: fresh_pending_def del: expire.simps)

end
