(* ===== verification/Dedup.thy ===== *)
theory Dedup
  imports Hashes
begin

text \<open>
  Per-stream sliding sequence windows (\<^verbatim>\<open>ingest/receiver/sih_receiver/dedup.py\<close>): a bit
  vector of 65536 positions addressed by \<^verbatim>\<open>seq & (WINDOW - 1)\<close>, the classification of a sequence
  number, the gap and loss counters, and the persisted snapshot. The abstract view of a stream is
  the set of sequence numbers accepted so far; the window, the counters and the classification are
  shown to be functions of that set.
\<close>

unbundle bit_operations_syntax

section \<open>State\<close>

definition WINDOW :: int where "WINDOW = 65536"
definition MAX_STREAMS :: nat where "MAX_STREAMS = 64"

datatype verdict = NEW | REORDERED | DUPLICATE | STALE

record stream =
  base :: int
  highest :: int
  missing :: int
  bits :: bytes

record counters =
  gaps_total :: int
  duplicates_total :: int
  reordered_total :: int
  stale_total :: int

record dedup = counters +
  streams :: "(string \<times> stream) list"

definition new_stream :: stream where
  "new_stream = \<lparr>base = -1, highest = -1, missing = 0, bits = replicate (nat (WINDOW div 8)) 0\<rparr>"

definition dedup_init :: dedup where
  "dedup_init = \<lparr>gaps_total = 0, duplicates_total = 0, reordered_total = 0, stale_total = 0, streams = []\<rparr>"

section \<open>Operations\<close>

definition get_bit :: "bytes \<Rightarrow> int \<Rightarrow> bool" where
  "get_bit bs sq = (let i = sq AND (WINDOW - 1) in
     bs ! nat (drop_bit 3 i) AND push_bit (nat (i AND 7)) 1 \<noteq> 0)"

definition set_bit_at :: "bytes \<Rightarrow> int \<Rightarrow> bool \<Rightarrow> bytes" where
  "set_bit_at bs sq v = (let i = sq AND (WINDOW - 1); j = nat (drop_bit 3 i); m = push_bit (nat (i AND 7)) 1 in
     bs[j := if v then bs ! j OR m else bs ! j AND NOT m])"

definition stream_key :: "string \<Rightarrow> string \<Rightarrow> string" where
  "stream_key sid boot = sid @ ''|'' @ boot"

definition check :: "dedup \<Rightarrow> string \<Rightarrow> string \<Rightarrow> int \<Rightarrow> verdict" where
  "check d sid boot sq = (case map_of (streams d) (stream_key sid boot) of None \<Rightarrow> NEW
   | Some s \<Rightarrow>
       if highest s < 0 \<or> sq > highest s then NEW
       else if sq \<le> highest s - WINDOW \<or> sq < base s then STALE
       else if get_bit (bits s) sq then DUPLICATE else REORDERED)"

text \<open>The body of the eviction loop of \<^verbatim>\<open>mark\<close>, for one position \<open>q\<close>, on the window and the gap counter.\<close>

definition evict_step :: "int \<Rightarrow> int \<Rightarrow> int \<times> int \<times> bytes \<Rightarrow> int \<times> int \<times> bytes" where
  "evict_step b q = (\<lambda>(gaps, miss, bs).
     let evicted = q - WINDOW; lost = (evicted \<ge> b \<and> \<not> get_bit bs evicted)
     in (if lost then gaps + 1 else gaps, if lost then miss - 1 else miss, set_bit_at bs q False))"

text \<open>The part of \<open>mark\<close> that works on the stream found or created.\<close>

definition mark_stream :: "stream \<Rightarrow> counters \<Rightarrow> int \<Rightarrow> verdict \<times> stream \<times> counters" where
  "mark_stream s c sq =
     (if highest s < 0 then (NEW, s\<lparr>base := sq, highest := sq, bits := set_bit_at (bits s) sq True\<rparr>, c)
      else if sq > highest s then
        (let delta = sq - highest s;
             (gaps, miss, bs) =
               (if delta > WINDOW
                then (gaps_total c + (missing s + (delta - WINDOW)), WINDOW - 1, replicate (length (bits s)) 0)
                else let (g, m, bs) = fold (evict_step (base s)) [highest s + 1..sq] (gaps_total c, missing s, bits s)
                     in (g, m + (delta - 1), bs))
         in (NEW, s\<lparr>highest := sq, missing := miss, bits := set_bit_at bs sq True\<rparr>, c\<lparr>gaps_total := gaps\<rparr>))
      else if sq \<le> highest s - WINDOW \<or> sq < base s then (STALE, s, c\<lparr>stale_total := stale_total c + 1\<rparr>)
      else if get_bit (bits s) sq then (DUPLICATE, s, c\<lparr>duplicates_total := duplicates_total c + 1\<rparr>)
      else (REORDERED, s\<lparr>missing := missing s - 1, bits := set_bit_at (bits s) sq True\<rparr>,
            c\<lparr>reordered_total := reordered_total c + 1\<rparr>))"

fun trim_streams :: "(string \<times> stream) list \<Rightarrow> (string \<times> stream) list" where
  "trim_streams [] = []"
| "trim_streams (x # xs) = (if Suc (length xs) > MAX_STREAMS then trim_streams xs else x # xs)"

text \<open>The head of \<^verbatim>\<open>mark\<close>: find or create the stream, most recently used last, at most 64 streams.\<close>

definition touch_stream :: "(string \<times> stream) list \<Rightarrow> string \<Rightarrow> stream \<times> (string \<times> stream) list" where
  "touch_stream ss key = (case map_of ss key of
     None \<Rightarrow> (new_stream, trim_streams (ss @ [(key, new_stream)]))
   | Some s \<Rightarrow> (s, od_del key ss @ [(key, s)]))"

definition mark :: "dedup \<Rightarrow> string \<Rightarrow> string \<Rightarrow> int \<Rightarrow> verdict \<times> dedup" where
  "mark d sid boot sq =
     (let key = stream_key sid boot;
          (s, ss) = touch_stream (streams d) key;
          (v, s', c) = mark_stream s (counters.truncate d) sq
      in (v, counters.extend c \<lparr>streams = od_set key s' ss\<rparr>))"

definition missing_in_window :: "dedup \<Rightarrow> int" where
  "missing_in_window d = sum_list (map (\<lambda>(k, s). missing s) (streams d))"

definition highest_of :: "dedup \<Rightarrow> string \<Rightarrow> string \<Rightarrow> int" where
  "highest_of d sid boot = (case map_of (streams d) (stream_key sid boot) of None \<Rightarrow> -1 | Some s \<Rightarrow> highest s)"

section \<open>Snapshots\<close>

text \<open>
  The JSON object of \<^verbatim>\<open>snapshot\<close>: counters may be absent when it is read back
  (\<^verbatim>\<open>snap.get(k, 0)\<close>), the bit vector is Base64 text.
\<close>

record snap_stream =
  sn_key :: string
  sn_base :: int
  sn_highest :: int
  sn_missing :: int
  sn_bits :: string

record snap =
  sn_gaps_total :: "int option"
  sn_duplicates_total :: "int option"
  sn_reordered_total :: "int option"
  sn_stale_total :: "int option"
  sn_streams :: "snap_stream list"

definition snapshot :: "dedup \<Rightarrow> snap" where
  "snapshot d = \<lparr>sn_gaps_total = Some (gaps_total d), sn_duplicates_total = Some (duplicates_total d),
     sn_reordered_total = Some (reordered_total d), sn_stale_total = Some (stale_total d),
     sn_streams = map (\<lambda>(k, s). \<lparr>sn_key = k, sn_base = base s, sn_highest = highest s, sn_missing = missing s,
       sn_bits = b64encode (bits s)\<rparr>) (streams d)\<rparr>"

definition get_or_0 :: "int option \<Rightarrow> int" where
  "get_or_0 x = (case x of None \<Rightarrow> 0 | Some n \<Rightarrow> n)"

text \<open>\<open>None\<close> is the exception \<^verbatim>\<open>b64decode\<close> raises on a damaged bit vector.\<close>

fun restore_streams :: "snap_stream list \<Rightarrow> (string \<times> stream) list \<Rightarrow> (string \<times> stream) list option" where
  "restore_streams [] ss = Some ss"
| "restore_streams (x # xs) ss = (case b64decode (sn_bits x) of None \<Rightarrow> None
     | Some bs \<Rightarrow> restore_streams xs (od_set (sn_key x)
         \<lparr>base = sn_base x, highest = sn_highest x, missing = sn_missing x, bits = bs\<rparr> ss))"

definition restore :: "snap \<Rightarrow> dedup option" where
  "restore sn = (case restore_streams (sn_streams sn) [] of None \<Rightarrow> None
     | Some ss \<Rightarrow> Some \<lparr>gaps_total = get_or_0 (sn_gaps_total sn), duplicates_total = get_or_0 (sn_duplicates_total sn),
         reordered_total = get_or_0 (sn_reordered_total sn), stale_total = get_or_0 (sn_stale_total sn), streams = ss\<rparr>)"

section \<open>The bit vector\<close>

definition bits_ok :: "bytes \<Rightarrow> bool" where
  "bits_ok bs = (length bs = 8192)"

lemma slot_index:
  "nat (drop_bit 3 (sq AND (WINDOW - 1))) = nat (sq mod 65536) div 8"
  "nat ((sq AND (WINDOW - 1)) AND 7) = nat (sq mod 65536) mod 8"
proof -
  have a: "sq AND (WINDOW - 1) = sq mod 65536"
    using take_bit_eq_mask [of 16 sq] by (simp add: WINDOW_def take_bit_eq_mod mask_eq_exp_minus_1)
  have b: "i AND 7 = i mod 8" for i :: int
    using take_bit_eq_mask [of 3 i] by (simp add: take_bit_eq_mod mask_eq_exp_minus_1)
  show "nat (drop_bit 3 (sq AND (WINDOW - 1))) = nat (sq mod 65536) div 8"
    by (simp add: a drop_bit_eq_div nat_div_distrib)
  show "nat ((sq AND (WINDOW - 1)) AND 7) = nat (sq mod 65536) mod 8"
    unfolding a b by (simp add: nat_mod_distrib)
qed

lemma slot_index_less [simp]: "nat (sq mod 65536) div 8 < 8192"
proof -
  have "nat (sq mod 65536) < 65536" by (simp add: nat_less_iff)
  then show ?thesis by (simp add: less_mult_imp_div_less)
qed

lemma get_bit_iff: "get_bit bs sq \<longleftrightarrow> bit (bs ! (nat (sq mod 65536) div 8)) (nat (sq mod 65536) mod 8)"
  unfolding get_bit_def Let_def slot_index by (simp only: bit_iff_and_push_bit_not_eq_0)

lemma same_slot:
  "nat (p mod 65536) div 8 = nat (q mod 65536) div 8 \<and> nat (p mod 65536) mod 8 = nat (q mod 65536) mod 8
   \<longleftrightarrow> p mod 65536 = q mod (65536 :: int)"
proof -
  have "nat (p mod 65536) = nat (q mod 65536) \<longleftrightarrow> p mod 65536 = q mod 65536" by (simp add: nat_eq_iff)
  moreover have "a div 8 = b div 8 \<and> a mod 8 = b mod 8 \<longleftrightarrow> a = b" for a b :: nat
    by (metis div_mult_mod_eq)
  ultimately show ?thesis by simp
qed

lemma set_bit_at_slot:
  "set_bit_at bs p v = (let j = nat (p mod 65536) div 8; m = push_bit (nat (p mod 65536) mod 8) 1 in
     bs[j := if v then bs ! j OR m else bs ! j AND NOT m])"
  unfolding set_bit_at_def Let_def slot_index ..

lemma bit_in_slot:
  fixes bs :: bytes
  assumes "j < length bs" "n < 8" "n' < 8"
  shows "bit (bs[j := if v then bs ! j OR push_bit n 1 else bs ! j AND NOT (push_bit n 1)] ! j') n'
    = (if j = j' \<and> n = n' then v else bit (bs ! j') n')"
  using assms by (cases v) (auto simp: nth_list_update bit_or_iff bit_and_iff bit_not_iff bit_exp_iff)

lemma get_set_bit:
  assumes "bits_ok bs"
  shows "get_bit (set_bit_at bs p v) q = (if p mod WINDOW = q mod WINDOW then v else get_bit bs q)"
proof -
  have "nat (p mod 65536) div 8 < length bs" using assms by (simp add: bits_ok_def)
  then have "get_bit (set_bit_at bs p v) q
      = (if p mod 65536 = q mod 65536 then v else get_bit bs q)"
    unfolding get_bit_iff set_bit_at_slot Let_def same_slot [symmetric] by (intro bit_in_slot) simp_all
  then show ?thesis by (simp add: WINDOW_def)
qed

lemma bits_ok_set [simp]: "bits_ok (set_bit_at bs p v) = bits_ok bs"
  by (simp add: bits_ok_def set_bit_at_def Let_def)

lemma get_bit_zero: "bits_ok bs \<Longrightarrow> \<not> get_bit (replicate (length bs) 0) q"
  by (simp add: get_bit_iff bits_ok_def)

lemma bits_ok_zero [simp]: "bits_ok (replicate (length bs) 0) = bits_ok bs"
  by (simp add: bits_ok_def)

section \<open>The window as a set\<close>

text \<open>
  \<open>A\<close> is the set of accepted sequence numbers of a stream whose first was \<open>b\<close>; the window of
  \<open>h\<close> holds the last 65536 positions from \<open>b\<close> on.
\<close>

definition window :: "int \<Rightarrow> int \<Rightarrow> int set" where
  "window b h = {max b (h - WINDOW + 1)..h}"

definition passed :: "int \<Rightarrow> int \<Rightarrow> int set" where
  "passed b h = {b..h - WINDOW}"

definition bits_match :: "int \<Rightarrow> int \<Rightarrow> bytes \<Rightarrow> int set \<Rightarrow> bool" where
  "bits_match b h bs A = (bits_ok bs \<and> (\<forall>q \<in> window b h. get_bit bs q \<longleftrightarrow> q \<in> A))"

text \<open>Position, window losses \<open>m\<close> and gap count \<open>g\<close> all read off the set \<open>A\<close>.\<close>

definition counted :: "int \<Rightarrow> int \<Rightarrow> int \<Rightarrow> int \<Rightarrow> bytes \<Rightarrow> int set \<Rightarrow> bool" where
  "counted b h g m bs A = (bits_match b h bs A \<and> b \<le> h
     \<and> m = int (card (window b h - A)) \<and> g = int (card (passed b h - A)))"

definition stream_ok :: "stream \<Rightarrow> int \<Rightarrow> int set \<Rightarrow> bool" where
  "stream_ok s g A = (0 \<le> base s \<and> counted (base s) (highest s) g (missing s) (bits s) A
     \<and> base s \<in> A \<and> highest s \<in> A \<and> A \<subseteq> {base s..highest s})"

lemma finite_window [simp]: "finite (window b h)" "finite (passed b h)"
  by (auto simp: window_def passed_def)

lemma window_mod_inj: "p \<in> window b h \<Longrightarrow> q \<in> window b h \<Longrightarrow> p mod WINDOW = q mod WINDOW \<Longrightarrow> p = q"
proof -
  assume a: "p \<in> window b h" "q \<in> window b h" "p mod WINDOW = q mod WINDOW"
  then have "WINDOW dvd p - q" by (simp add: mod_eq_dvd_iff)
  then obtain k where k: "p - q = WINDOW * k" by (auto elim: dvdE)
  have "\<bar>p - q\<bar> < WINDOW" using a by (auto simp: window_def WINDOW_def)
  then have "k = 0" unfolding k by (auto simp: WINDOW_def abs_mult)
  then show "p = q" using k by simp
qed

text \<open>One position enters the window unreceived, and the oldest one may leave it.\<close>

lemma window_next: "b \<le> h \<Longrightarrow> window b (h + 1) =
    insert (h + 1) (if h + 1 - WINDOW \<ge> b then window b h - {h + 1 - WINDOW} else window b h)"
  by (auto simp: window_def WINDOW_def)

lemma passed_next: "passed b (h + 1) = (if h + 1 - WINDOW \<ge> b then insert (h + 1 - WINDOW) (passed b h) else passed b h)"
  by (auto simp: passed_def WINDOW_def)

lemma evict_step_counted:
  assumes "counted b h g m bs A" "h + 1 \<notin> A"
  shows "case evict_step b (h + 1) (g, m, bs) of (g', m', bs') \<Rightarrow> counted b (h + 1) g' (m' + 1) bs' A"
proof -
  let ?e = "h + 1 - WINDOW"
  have bh: "b \<le> h" and bm: "bits_match b h bs A" using assms by (auto simp: counted_def)
  have ok: "bits_ok bs" using bm by (simp add: bits_match_def)
  have e_in: "?e \<ge> b \<Longrightarrow> ?e \<in> window b h" by (simp add: window_def WINDOW_def)
  have lost: "(?e \<ge> b \<and> \<not> get_bit bs ?e) = (?e \<ge> b \<and> ?e \<notin> A)"
    using bm e_in by (auto simp: bits_match_def)
  have match: "bits_match b (h + 1) (set_bit_at bs (h + 1) False) A"
  proof -
    have "get_bit (set_bit_at bs (h + 1) False) q \<longleftrightarrow> q \<in> A" if q: "q \<in> window b (h + 1)" for q
    proof (cases "q = h + 1")
      case True then show ?thesis using assms(2) ok by (simp add: get_set_bit)
    next
      case False
      then have "(h + 1) mod WINDOW \<noteq> q mod WINDOW"
        using window_mod_inj [OF _ q, of "h + 1"] bh by (auto simp: window_def WINDOW_def)
      moreover have "q \<in> window b h" using q False by (auto simp: window_def WINDOW_def)
      ultimately show ?thesis using bm ok by (simp add: get_set_bit bits_match_def)
    qed
    then show ?thesis using ok by (simp add: bits_match_def)
  qed
  have h1: "h + 1 \<notin> window b h" "?e \<notin> passed b h" by (auto simp: window_def passed_def)
  have diff: "window b (h + 1) - A = insert (h + 1) (if ?e \<ge> b then window b h - A - {?e} else window b h - A)"
    using window_next [OF bh] assms(2) by auto
  have m: "m = int (card (window b h - A))" "g = int (card (passed b h - A))"
    using assms(1) by (auto simp: counted_def)
  show ?thesis
  proof (cases "?e \<ge> b \<and> ?e \<notin> A")
    case True
    then have "card (window b h - A - {?e}) + 1 = card (window b h - A)"
      using e_in card_Suc_Diff1 [of "window b h - A" ?e] by simp
    then have "int (card (window b (h + 1) - A)) = m"
      using True h1 by (simp add: diff m)
    moreover have "int (card (passed b (h + 1) - A)) = g + 1"
      using True h1 by (simp add: passed_next m insert_Diff_if)
    ultimately show ?thesis
      using True lost match bh by (simp add: evict_step_def Let_def counted_def)
  next
    case False
    then have "window b (h + 1) - A = insert (h + 1) (window b h - A)" unfolding diff by auto
    then have "int (card (window b (h + 1) - A)) = m + 1" using h1 by (simp add: m)
    moreover have "passed b (h + 1) - A = passed b h - A" using False by (auto simp: passed_next)
    ultimately show ?thesis
      using False lost match bh m by (auto simp: evict_step_def Let_def counted_def)
  qed
qed

lemma evict_loop_gaps:
  "fold (evict_step b) qs (g, m, bs) = (g1, m1, bs1) \<Longrightarrow> fold (evict_step b) qs (g + k, m, bs) = (g1 + k, m1, bs1)"
proof (induction qs arbitrary: g m bs)
  case (Cons q qs)
  obtain g2 m2 bs2 where e: "evict_step b q (g, m, bs) = (g2, m2, bs2)" by (cases "evict_step b q (g, m, bs)")
  then have "evict_step b q (g + k, m, bs) = (g2 + k, m2, bs2)"
    by (auto simp: evict_step_def Let_def split: if_splits)
  then show ?case using Cons e by simp
qed simp

lemma evict_step_shift:
  "evict_step b q (g, m + k, bs) = (case evict_step b q (g, m, bs) of (g', m', bs') \<Rightarrow> (g', m' + k, bs'))"
  by (simp add: evict_step_def Let_def)

lemma evict_loop_counted:
  assumes "counted b h g m bs A" "A \<subseteq> {..h}"
  shows "case fold (evict_step b) [h + 1..h + int n] (g, m, bs) of
    (g', m', bs') \<Rightarrow> counted b (h + int n) g' (m' + int n) bs' A"
proof (induction n)
  case (Suc n)
  obtain g1 m1 bs1 where r: "fold (evict_step b) [h + 1..h + int n] (g, m, bs) = (g1, m1, bs1)"
    by (cases "fold (evict_step b) [h + 1..h + int n] (g, m, bs)")
  have c: "counted b (h + int n) g1 (m1 + int n) bs1 A" using Suc r by simp
  have "[h + 1..h + int (Suc n)] = [h + 1..h + int n] @ [h + int n + 1]"
    using upto_rec2 [of "h + 1" "h + int (Suc n)"] by (simp add: algebra_simps)
  then have "fold (evict_step b) [h + 1..h + int (Suc n)] (g, m, bs) = evict_step b (h + int n + 1) (g1, m1, bs1)"
    by (simp add: r)
  moreover have "h + int n + 1 \<notin> A" using assms(2) by auto
  ultimately show ?case
    using evict_step_counted [OF c] by (auto simp: evict_step_shift algebra_simps split: prod.splits)
qed (use assms in simp)

lemma receive_counted:
  assumes "counted b h g m bs A" "q \<in> window b h" "q \<notin> A"
  shows "counted b h g (m - 1) (set_bit_at bs q True) (insert q A)"
proof -
  have ok: "bits_ok bs" using assms by (simp add: counted_def bits_match_def)
  have "get_bit (set_bit_at bs q True) p \<longleftrightarrow> p \<in> insert q A" if "p \<in> window b h" for p
    using window_mod_inj [OF assms(2) that] assms(1) that ok
    by (auto simp: get_set_bit counted_def bits_match_def)
  moreover have "card (window b h - A) = Suc (card (window b h - insert q A))"
    using assms(2,3) card_Suc_Diff1 [of "window b h - A" q] by (simp add: Diff_insert [symmetric])
  moreover have "passed b h - insert q A = passed b h - A"
    using assms(2) by (auto simp: passed_def window_def)
  ultimately show ?thesis using assms(1) ok by (auto simp: counted_def bits_match_def)
qed

lemma jump_counted:
  assumes "counted b h g m bs A" "A \<subseteq> {b..h}" "sq - h > WINDOW"
  shows "counted b sq (g + (m + (sq - h - WINDOW))) WINDOW (replicate (length bs) 0) A"
proof -
  have bh: "b \<le> h" and ok: "bits_ok bs" using assms by (auto simp: counted_def bits_match_def)
  have w: "window b sq = {sq - WINDOW + 1..sq}" "window b sq \<inter> A = {}"
    using assms(2,3) bh by (auto simp: window_def)
  then have "window b sq - A = {sq - WINDOW + 1..sq}" by auto
  then have "int (card (window b sq - A)) = WINDOW" by (simp add: WINDOW_def)
  moreover have "passed b sq - A = (passed b h - A) \<union> (window b h - A) \<union> {h + 1..sq - WINDOW}"
    using assms(2,3) bh by (auto simp: passed_def window_def WINDOW_def)
  then have "int (card (passed b sq - A)) = int (card (passed b h - A)) + int (card (window b h - A)) + (sq - h - WINDOW)"
  proof -
    have "(passed b h - A) \<inter> (window b h - A) = {}" "((passed b h - A) \<union> (window b h - A)) \<inter> {h + 1..sq - WINDOW} = {}"
      by (auto simp: passed_def window_def WINDOW_def)
    moreover have "int (card {h + 1..sq - WINDOW}) = sq - h - WINDOW" using assms(3) by simp
    ultimately show ?thesis
      using \<open>passed b sq - A = _\<close> by (simp add: card_Un_disjoint)
  qed
  moreover have "bits_match b sq (replicate (length bs) 0) A"
    using w ok get_bit_zero [OF ok] by (auto simp: bits_match_def)
  ultimately show ?thesis using assms(1,3) bh by (auto simp: counted_def WINDOW_def)
qed

section \<open>Marking a stream\<close>

text \<open>What the classification of \<open>sq\<close> should be, from the accepted set alone.\<close>

definition classify :: "int \<Rightarrow> int \<Rightarrow> int set \<Rightarrow> int \<Rightarrow> verdict" where
  "classify b h A sq = (if sq > h then NEW else if sq \<le> h - WINDOW \<or> sq < b then STALE
     else if sq \<in> A then DUPLICATE else REORDERED)"

definition accepted :: "verdict \<Rightarrow> bool" where
  "accepted v = (v = NEW \<or> v = REORDERED)"

lemma first_mark:
  assumes "highest s < 0" "bits s = replicate 8192 0" "missing s = 0" "0 \<le> sq" "mark_stream s c sq = (v, s', c')"
  shows "v = NEW \<and> c' = c \<and> stream_ok s' 0 {sq}"
proof -
  have s': "s' = s\<lparr>base := sq, highest := sq, bits := set_bit_at (bits s) sq True\<rparr>" and v: "v = NEW" "c' = c"
    using assms by (auto simp: mark_stream_def)
  have ok: "bits_ok (bits s)" using assms(2) by (simp add: bits_ok_def)
  have w: "window sq sq = {sq}" "passed sq sq = {}" by (auto simp: window_def passed_def WINDOW_def)
  show ?thesis
    using ok v assms by (auto simp: stream_ok_def counted_def bits_match_def s' w get_set_bit)
qed

lemma in_window: "\<not> (sq \<le> h - WINDOW \<or> sq < b) \<Longrightarrow> sq \<le> h \<Longrightarrow> sq \<in> window b h"
  by (auto simp: window_def)

lemma mark_stream_ok:
  assumes ok: "stream_ok s g A" and r: "mark_stream s c sq = (v, s', c')"
  shows "v = classify (base s) (highest s) A sq
    \<and> stream_ok s' (g + (gaps_total c' - gaps_total c)) (if accepted v then insert sq A else A)
    \<and> base s' = base s"
proof -
  let ?b = "base s" and ?h = "highest s"
  have inv: "0 \<le> ?b" "?b \<le> ?h" "counted ?b ?h g (missing s) (bits s) A" "?b \<in> A" "?h \<in> A" "A \<subseteq> {?b..?h}"
    using ok by (auto simp: stream_ok_def counted_def)
  have seen: "get_bit (bits s) q \<longleftrightarrow> q \<in> A" if "q \<in> window ?b ?h" for q
    using inv(3) that by (simp add: counted_def bits_match_def)
  consider (stale) "sq \<le> ?h" "sq \<le> ?h - WINDOW \<or> sq < ?b" | (inside) "sq \<le> ?h" "\<not> (sq \<le> ?h - WINDOW \<or> sq < ?b)"
    | (loop) "sq > ?h" "\<not> sq - ?h > WINDOW" | (jump) "sq > ?h" "sq - ?h > WINDOW"
    by linarith
  then show ?thesis
  proof cases
    case stale
    then show ?thesis using r inv ok by (auto simp: mark_stream_def classify_def accepted_def)
  next
    case inside
    then have w: "sq \<in> window ?b ?h" by (auto intro: in_window)
    show ?thesis
    proof (cases "sq \<in> A")
      case True
      then show ?thesis
        using r inv ok inside seen [OF w] by (auto simp: mark_stream_def classify_def accepted_def)
    next
      case False
      then have "v = REORDERED" "s' = s\<lparr>missing := missing s - 1, bits := set_bit_at (bits s) sq True\<rparr>"
          "gaps_total c' = gaps_total c"
        using r inv(1,2) inside seen [OF w] by (auto simp: mark_stream_def)
      then show ?thesis
        using receive_counted [OF inv(3) w False] inv inside False
        by (auto simp: classify_def accepted_def stream_ok_def)
    qed
  next
    case loop
    obtain g1 m1 bs1 where f: "fold (evict_step ?b) [?h + 1..sq] (gaps_total c, missing s, bits s) = (g1, m1, bs1)"
      by (cases "fold (evict_step ?b) [?h + 1..sq] (gaps_total c, missing s, bits s)")
    have s': "v = NEW" "s' = s\<lparr>highest := sq, missing := m1 + (sq - ?h - 1), bits := set_bit_at bs1 sq True\<rparr>"
        "c' = c\<lparr>gaps_total := g1\<rparr>"
      using r inv(1,2) loop f by (auto simp: mark_stream_def Let_def)
    have "A \<subseteq> {..?h}" using inv(6) by auto
    then have "case fold (evict_step ?b) [?h + 1..?h + int (nat (sq - ?h))] (g, missing s, bits s) of
        (g', m', bs') \<Rightarrow> counted ?b (?h + int (nat (sq - ?h))) g' (m' + int (nat (sq - ?h))) bs' A"
      by (rule evict_loop_counted [OF inv(3)])
    moreover have "fold (evict_step ?b) [?h + 1..sq] (g, missing s, bits s) = (g1 + (g - gaps_total c), m1, bs1)"
      using evict_loop_gaps [OF f, of "g - gaps_total c"] by simp
    ultimately have "counted ?b sq (g + (g1 - gaps_total c)) (m1 + (sq - ?h)) bs1 A"
      using loop by (simp add: algebra_simps)
    moreover have "sq \<in> window ?b sq" "sq \<notin> A" using loop inv(2,6) by (auto simp: window_def WINDOW_def)
    ultimately have "counted ?b sq (g + (g1 - gaps_total c)) (m1 + (sq - ?h) - 1) (set_bit_at bs1 sq True) (insert sq A)"
      by (rule receive_counted)
    then show ?thesis
      using loop inv s' by (auto simp: classify_def accepted_def stream_ok_def algebra_simps)
  next
    case jump
    have s': "v = NEW" "s' = s\<lparr>highest := sq, missing := WINDOW - 1, bits := set_bit_at (replicate (length (bits s)) 0) sq True\<rparr>"
        "c' = c\<lparr>gaps_total := gaps_total c + (missing s + (sq - ?h - WINDOW))\<rparr>"
      using r inv(1,2) jump by (auto simp: mark_stream_def Let_def)
    have "sq \<in> window ?b sq" "sq \<notin> A" using jump inv(2,6) by (auto simp: window_def WINDOW_def)
    then show ?thesis
      using receive_counted [OF jump_counted [OF inv(3,6) jump(2)]] jump inv s'
      by (auto simp: classify_def accepted_def stream_ok_def)
  qed
qed

section \<open>Refinement to accepted sets\<close>

text \<open>
  The abstract filter keeps, per stream, only the set of accepted sequence numbers; its base and
  highest are the set's minimum and maximum.
\<close>

definition spec_verdict :: "int set \<Rightarrow> int \<Rightarrow> verdict" where
  "spec_verdict A sq = (if A = {} then NEW else classify (Min A) (Max A) A sq)"

definition spec_mark :: "int set \<Rightarrow> int \<Rightarrow> int set" where
  "spec_mark A sq = (if accepted (spec_verdict A sq) then insert sq A else A)"

definition gap_count :: "int set \<Rightarrow> int" where
  "gap_count A = (if A = {} then 0 else int (card (passed (Min A) (Max A) - A)))"

definition loss_count :: "int set \<Rightarrow> int" where
  "loss_count A = (if A = {} then 0 else int (card (window (Min A) (Max A) - A)))"

type_synonym msg = "string \<times> string \<times> int"

fun msg_stream :: "msg \<Rightarrow> string" where
  "msg_stream (sid, boot, sq) = stream_key sid boot"

fun msg_seq :: "msg \<Rightarrow> int" where
  "msg_seq (sid, boot, sq) = sq"

fun spec_run :: "msg list \<Rightarrow> (string \<Rightarrow> int set) \<Rightarrow> verdict list \<times> (string \<Rightarrow> int set)" where
  "spec_run [] S = ([], S)"
| "spec_run (x # xs) S =
     (let A = S (msg_stream x); (vs, S') = spec_run xs (S(msg_stream x := spec_mark A (msg_seq x)))
      in (spec_verdict A (msg_seq x) # vs, S'))"

fun run_marks :: "msg list \<Rightarrow> dedup \<Rightarrow> verdict list \<times> dedup" where
  "run_marks [] d = ([], d)"
| "run_marks ((sid, boot, sq) # xs) d =
     (let (v, d') = mark d sid boot sq; (vs, d'') = run_marks xs d' in (v # vs, d''))"

lemma stream_ok_extremes:
  assumes "stream_ok s g A"
  shows "finite A" "A \<noteq> {}" "Min A = base s" "Max A = highest s" "0 \<le> highest s"
    "g = gap_count A" "missing s = loss_count A"
proof -
  have a: "A \<subseteq> {base s..highest s}" "base s \<in> A" "highest s \<in> A" "0 \<le> base s"
    using assms by (auto simp: stream_ok_def)
  then show f: "finite A" "A \<noteq> {}" using finite_subset by auto
  show m: "Min A = base s" "Max A = highest s" using a f by (auto intro!: Min_eqI Max_eqI)
  show "0 \<le> highest s" using a by fastforce
  show "g = gap_count A" "missing s = loss_count A"
    using assms f m by (auto simp: gap_count_def loss_count_def stream_ok_def counted_def)
qed

definition dedup_rel :: "dedup \<Rightarrow> (string \<Rightarrow> int set) \<Rightarrow> bool" where
  "dedup_rel d S = (distinct (map fst (streams d))
     \<and> (\<forall>k. case map_of (streams d) k of None \<Rightarrow> S k = {} | Some s \<Rightarrow> stream_ok s (gap_count (S k)) (S k))
     \<and> gaps_total d = (\<Sum>k \<in> fst ` set (streams d). gap_count (S k)))"

lemma check_spec:
  assumes "dedup_rel d S"
  shows "check d sid boot sq = spec_verdict (S (stream_key sid boot)) sq"
proof (cases "map_of (streams d) (stream_key sid boot)")
  case None
  have "case map_of (streams d) (stream_key sid boot) of None \<Rightarrow> S (stream_key sid boot) = {}
      | Some s \<Rightarrow> stream_ok s (gap_count (S (stream_key sid boot))) (S (stream_key sid boot))"
    using assms unfolding dedup_rel_def by blast
  then show ?thesis using None by (simp add: check_def spec_verdict_def)
next
  case (Some s)
  let ?A = "S (stream_key sid boot)"
  have ok: "stream_ok s (gap_count ?A) ?A"
    using assms Some by (auto simp: dedup_rel_def split: option.splits)
  note e = stream_ok_extremes [OF ok]
  have "get_bit (bits s) sq \<longleftrightarrow> sq \<in> ?A" if "sq \<in> window (base s) (highest s)"
    using ok that by (auto simp: stream_ok_def counted_def bits_match_def)
  then show ?thesis
    using Some e in_window [of sq "highest s" "base s"]
    by (auto simp: check_def spec_verdict_def classify_def)
qed

lemma mark_stream_spec:
  assumes "s = new_stream \<and> A = {} \<or> stream_ok s (gap_count A) A" "0 \<le> sq" "mark_stream s c sq = (v, s', c')"
  shows "v = spec_verdict A sq" "stream_ok s' (gap_count (spec_mark A sq)) (spec_mark A sq)"
    "gaps_total c' = gaps_total c + (gap_count (spec_mark A sq) - gap_count A)"
    "duplicates_total c' = duplicates_total c + (if v = DUPLICATE then 1 else 0)"
    "reordered_total c' = reordered_total c + (if v = REORDERED then 1 else 0)"
    "stale_total c' = stale_total c + (if v = STALE then 1 else 0)"
proof -
  have "v = spec_verdict A sq \<and> stream_ok s' (gap_count A + (gaps_total c' - gaps_total c)) (spec_mark A sq)"
    using assms(1)
  proof
    assume a: "s = new_stream \<and> A = {}"
    then have "v = NEW \<and> c' = c \<and> stream_ok s' 0 {sq}"
      using first_mark [OF _ _ _ assms(2,3)] by (simp add: new_stream_def WINDOW_def)
    then show ?thesis using a by (simp add: spec_verdict_def spec_mark_def accepted_def gap_count_def)
  next
    assume "stream_ok s (gap_count A) A"
    from mark_stream_ok [OF this assms(3)] stream_ok_extremes [OF this] show ?thesis
      by (auto simp: spec_verdict_def spec_mark_def)
  qed
  moreover from this have "gap_count A + (gaps_total c' - gaps_total c) = gap_count (spec_mark A sq)"
    using stream_ok_extremes(6) by blast
  ultimately show "v = spec_verdict A sq" "stream_ok s' (gap_count (spec_mark A sq)) (spec_mark A sq)"
    "gaps_total c' = gaps_total c + (gap_count (spec_mark A sq) - gap_count A)" by auto
  show "duplicates_total c' = duplicates_total c + (if v = DUPLICATE then 1 else 0)"
    "reordered_total c' = reordered_total c + (if v = REORDERED then 1 else 0)"
    "stale_total c' = stale_total c + (if v = STALE then 1 else 0)"
    using assms(3) by (auto simp: mark_stream_def Let_def split: if_splits prod.splits)
qed

lemma trim_streams_small [simp]: "length ss \<le> MAX_STREAMS \<Longrightarrow> trim_streams ss = ss"
  by (cases ss) auto

lemma touch_stream_spec:
  assumes "touch_stream ss k = (s, ss')" "distinct (map fst ss)" "k \<in> fst ` set ss \<or> length ss < MAX_STREAMS"
  shows "s = (case map_of ss k of None \<Rightarrow> new_stream | Some s \<Rightarrow> s) \<and> distinct (map fst ss')
      \<and> fst ` set ss' = insert k (fst ` set ss) \<and> (\<forall>k'. k' \<noteq> k \<longrightarrow> map_of ss' k' = map_of ss k')"
proof (cases "map_of ss k")
  case None
  then have "k \<notin> fst ` set ss" by (simp add: map_of_eq_None_iff)
  moreover from this assms have "s = new_stream" "ss' = ss @ [(k, new_stream)]"
    using None by (auto simp: touch_stream_def)
  ultimately show ?thesis
    using None assms(2) by (auto simp: map_add_def split: option.splits)
next
  case (Some s0)
  then have "s = s0" "ss' = od_del k ss @ [(k, s0)]" using assms by (auto simp: touch_stream_def)
  moreover have "k \<in> fst ` set ss" using Some by (metis map_of_SomeD fst_conv image_eqI)
  ultimately show ?thesis
    using Some assms(2) by (auto simp: set_od_del map_add_def split: option.splits)
qed

lemma mark_spec:
  assumes rel: "dedup_rel d S" and sq: "0 \<le> sq"
    and room: "stream_key sid boot \<in> fst ` set (streams d) \<or> length (streams d) < MAX_STREAMS"
    and m: "mark d sid boot sq = (v, d')"
  shows "v = spec_verdict (S (stream_key sid boot)) sq
    \<and> dedup_rel d' (S(stream_key sid boot := spec_mark (S (stream_key sid boot)) sq))
    \<and> fst ` set (streams d') = insert (stream_key sid boot) (fst ` set (streams d))
    \<and> duplicates_total d' = duplicates_total d + (if v = DUPLICATE then 1 else 0)
    \<and> reordered_total d' = reordered_total d + (if v = REORDERED then 1 else 0)
    \<and> stale_total d' = stale_total d + (if v = STALE then 1 else 0)"
proof -
  let ?k = "stream_key sid boot" and ?ss = "streams d"
  let ?A = "S ?k" and ?B = "spec_mark (S ?k) sq"
  obtain s ss where t: "touch_stream ?ss ?k = (s, ss)" by fastforce
  obtain s' c where ms: "mark_stream s (counters.truncate d) sq = (v, s', c)" and
    d': "d' = counters.extend c \<lparr>streams = od_set ?k s' ss\<rparr>"
    using m t by (auto simp: mark_def split: prod.splits)
  have dis: "distinct (map fst ?ss)" and each: "\<And>k. case map_of ?ss k of None \<Rightarrow> S k = {} | Some s \<Rightarrow> stream_ok s (gap_count (S k)) (S k)"
    and tot: "gaps_total d = (\<Sum>k \<in> fst ` set ?ss. gap_count (S k))"
    using rel by (auto simp: dedup_rel_def)
  have ss: "s = (case map_of ?ss ?k of None \<Rightarrow> new_stream | Some s \<Rightarrow> s)" "distinct (map fst ss)"
    "fst ` set ss = insert ?k (fst ` set ?ss)" "\<And>k. k \<noteq> ?k \<Longrightarrow> map_of ss k = map_of ?ss k"
    using touch_stream_spec [OF t dis room] by auto
  have s: "s = new_stream \<and> ?A = {} \<or> stream_ok s (gap_count ?A) ?A"
    using each [of ?k] ss(1) by (cases "map_of ?ss ?k") auto
  note ms' = mark_stream_spec [OF s sq ms]
  have one: "?k \<notin> fst ` set ?ss \<Longrightarrow> gap_count ?A = 0"
    using each [of ?k] by (auto simp: gap_count_def map_of_eq_None_iff [symmetric])
  have "gaps_total d + (gap_count ?B - gap_count ?A)
      = (\<Sum>k \<in> insert ?k (fst ` set ?ss). gap_count ((S(?k := ?B)) k))"
  proof -
    have "(\<Sum>k \<in> insert ?k (fst ` set ?ss). gap_count ((S(?k := ?B)) k)) = gap_count ?B + (\<Sum>k \<in> fst ` set ?ss - {?k}. gap_count (S k))"
      by (simp add: sum.insert_remove)
    moreover have "gaps_total d = gap_count ?A + (\<Sum>k \<in> fst ` set ?ss - {?k}. gap_count (S k))"
      using one by (cases "?k \<in> fst ` set ?ss") (auto simp: tot sum.remove)
    ultimately show ?thesis by simp
  qed
  moreover have "fst ` set (od_set ?k s' ss) = insert ?k (fst ` set ?ss)"
    using ss(3) by (simp add: dom_map_of_conv_image_fst [symmetric])
  moreover have "case map_of (od_set ?k s' ss) k of None \<Rightarrow> (S(?k := ?B)) k = {}
      | Some s \<Rightarrow> stream_ok s (gap_count ((S(?k := ?B)) k)) ((S(?k := ?B)) k)" for k
    using ms'(2) each [of k] ss(4) [of k] by (cases "k = ?k"; cases "map_of ?ss k") auto
  ultimately show ?thesis
    using ms' ss(2) by (simp add: d' dedup_rel_def counters.defs)
qed

lemma run_marks_spec:
  assumes "dedup_rel d S" "\<forall>x \<in> set xs. 0 \<le> msg_seq x"
    and "card (fst ` set (streams d) \<union> msg_stream ` set xs) \<le> MAX_STREAMS"
    and "run_marks xs d = (vs, d')" "spec_run xs S = (us, S')"
  shows "vs = us \<and> dedup_rel d' S'
    \<and> duplicates_total d' = duplicates_total d + int (count_list vs DUPLICATE)
    \<and> reordered_total d' = reordered_total d + int (count_list vs REORDERED)
    \<and> stale_total d' = stale_total d + int (count_list vs STALE)"
  using assms
proof (induction xs arbitrary: d S vs us)
  case (Cons x xs)
  obtain sid boot sq where x: "x = (sid, boot, sq)" by (cases x) auto
  let ?k = "stream_key sid boot"
  obtain v d1 where m: "mark d sid boot sq = (v, d1)" by fastforce
  obtain vs1 where r: "run_marks xs d1 = (vs1, d')" "vs = v # vs1"
    using Cons.prems(4) m x by (auto split: prod.splits)
  let ?S1 = "S(?k := spec_mark (S ?k) sq)"
  obtain us1 where u: "spec_run xs ?S1 = (us1, S')" "us = spec_verdict (S ?k) sq # us1"
    using Cons.prems(5) x by (auto simp: Let_def split: prod.splits)
  let ?K = "fst ` set (streams d)"
  have len: "length (streams d) = card ?K"
    using Cons.prems(1) distinct_card [of "map fst (streams d)"] by (simp add: dedup_rel_def)
  have "?k \<in> ?K \<or> card ?K < MAX_STREAMS"
  proof (rule ccontr)
    assume "\<not> (?k \<in> ?K \<or> card ?K < MAX_STREAMS)"
    then have "MAX_STREAMS < card (insert ?k ?K)" by simp
    also have "card (insert ?k ?K) \<le> card (?K \<union> msg_stream ` set (x # xs))"
      by (rule card_mono) (auto simp: x)
    finally show False using Cons.prems(3) by simp
  qed
  then have step: "v = spec_verdict (S ?k) sq" "dedup_rel d1 ?S1" "fst ` set (streams d1) = insert ?k ?K"
      "duplicates_total d1 = duplicates_total d + (if v = DUPLICATE then 1 else 0)"
      "reordered_total d1 = reordered_total d + (if v = REORDERED then 1 else 0)"
      "stale_total d1 = stale_total d + (if v = STALE then 1 else 0)"
    using mark_spec [OF Cons.prems(1) _ _ m] Cons.prems(2) len by (auto simp: x)
  have "fst ` set (streams d1) \<union> msg_stream ` set xs = ?K \<union> msg_stream ` set (x # xs)"
    using step(3) by (auto simp: x)
  then show ?case
    using Cons.IH [OF step(2) _ _ r(1) u(1)] Cons.prems(2,3) step r(2) u(2) by auto
qed simp

lemma dedup_init_rel: "dedup_rel dedup_init (\<lambda>_. {})"
  by (simp add: dedup_rel_def dedup_init_def)

lemma missing_in_window_spec:
  assumes "dedup_rel d S"
  shows "missing_in_window d = (\<Sum>k \<in> fst ` set (streams d). loss_count (S k))"
proof -
  have "missing s = loss_count (S k)" if "(k, s) \<in> set (streams d)" for k s
  proof -
    have "map_of (streams d) k = Some s" using assms that by (simp add: dedup_rel_def)
    moreover have "case map_of (streams d) k of None \<Rightarrow> S k = {} | Some s \<Rightarrow> stream_ok s (gap_count (S k)) (S k)"
      using assms unfolding dedup_rel_def by blast
    ultimately show ?thesis using stream_ok_extremes(7) by auto
  qed
  then have "missing_in_window d = sum_list (map (\<lambda>k. loss_count (S k)) (map fst (streams d)))"
    unfolding missing_in_window_def map_map by (intro arg_cong [where f = sum_list] map_cong) auto
  then show ?thesis
    using assms sum_list_distinct_conv_sum_set [of "map fst (streams d)" "\<lambda>k. loss_count (S k)"]
    by (simp add: dedup_rel_def)
qed

subsection \<open>The abstract filter\<close>

lemma spec_mark_mono: "A \<subseteq> spec_mark A sq"
  by (auto simp: spec_mark_def)

lemma spec_run_mono: "spec_run xs S = (us, S') \<Longrightarrow> S k \<subseteq> S' k"
proof (induction xs arbitrary: S us)
  case (Cons x xs)
  obtain us1 where "spec_run xs (S(msg_stream x := spec_mark (S (msg_stream x)) (msg_seq x))) = (us1, S')"
    using Cons.prems by (auto simp: Let_def split: prod.splits)
  from Cons.IH [OF this] show ?case using spec_mark_mono [of "S k" "msg_seq x"]
    by (cases "k = msg_stream x") auto
qed simp

lemma seen_not_accepted: "finite A \<Longrightarrow> sq \<in> A \<Longrightarrow> \<not> accepted (spec_verdict A sq)"
  by (auto simp: spec_verdict_def classify_def accepted_def)

lemma length_spec_run: "spec_run xs S = (us, S') \<Longrightarrow> length us = length xs"
  by (induction xs arbitrary: S us) (auto simp: Let_def split: prod.splits)

lemma spec_run_rejects:
  assumes "spec_run xs S = (us, S')" "\<forall>k. finite (S k)" "sq \<in> S k" "j < length xs" "msg_stream (xs ! j) = k" "msg_seq (xs ! j) = sq"
  shows "\<not> accepted (us ! j)"
  using assms
proof (induction xs arbitrary: S us j)
  case (Cons x xs)
  let ?S1 = "S(msg_stream x := spec_mark (S (msg_stream x)) (msg_seq x))"
  obtain us1 where u: "spec_run xs ?S1 = (us1, S')" "us = spec_verdict (S (msg_stream x)) (msg_seq x) # us1"
    using Cons.prems(1) by (auto simp: Let_def split: prod.splits)
  have "\<forall>k. finite (?S1 k)" "sq \<in> ?S1 k"
    using Cons.prems(2,3) spec_mark_mono by (auto simp: spec_mark_def)
  then show ?case
    using Cons.IH [OF u(1)] Cons.prems u(2) seen_not_accepted [of "S k" sq]
    by (cases j) auto
qed simp

lemma spec_run_once:
  assumes "spec_run xs S = (us, S')" "\<forall>k. finite (S k)" "i < j" "j < length xs"
    "msg_stream (xs ! i) = msg_stream (xs ! j)" "msg_seq (xs ! i) = msg_seq (xs ! j)" "accepted (us ! i)"
  shows "\<not> accepted (us ! j)"
  using assms
proof (induction xs arbitrary: S us i j)
  case (Cons x xs)
  let ?S1 = "S(msg_stream x := spec_mark (S (msg_stream x)) (msg_seq x))"
  obtain us1 where u: "spec_run xs ?S1 = (us1, S')" "us = spec_verdict (S (msg_stream x)) (msg_seq x) # us1"
    using Cons.prems(1) by (auto simp: Let_def split: prod.splits)
  have fin: "\<forall>k. finite (?S1 k)" using Cons.prems(2) by (auto simp: spec_mark_def)
  obtain j' where j: "j = Suc j'" using Cons.prems(3) by (cases j) auto
  show ?case
  proof (cases i)
    case 0
    then have "msg_seq x \<in> ?S1 (msg_stream x)"
      using Cons.prems(7) u(2) by (simp add: spec_mark_def)
    then show ?thesis
      using spec_run_rejects [OF u(1) fin, of "msg_seq x" "msg_stream x" j'] Cons.prems 0 j u(2) by simp
  next
    case (Suc i')
    then show ?thesis using Cons.IH [OF u(1) fin, of i' j'] Cons.prems j u(2) by simp
  qed
qed simp

lemma stream_conservation:
  assumes "stream_ok s (gap_count A) A"
  shows "highest s - base s + 1 = int (card A) + missing s + gap_count A"
proof -
  let ?W = "window (base s) (highest s)" and ?P = "passed (base s) (highest s)"
  note e = stream_ok_extremes [OF assms]
  have a: "A \<subseteq> {base s..highest s}" "base s \<le> highest s" using assms by (auto simp: stream_ok_def counted_def)
  have "{base s..highest s} = A \<union> ((?W - A) \<union> (?P - A))"
    using a by (auto simp: window_def passed_def WINDOW_def)
  moreover have "(?W - A) \<inter> (?P - A) = {}" by (auto simp: window_def passed_def)
  then have "card ((?W - A) \<union> (?P - A)) = card (?W - A) + card (?P - A)"
    by (simp add: card_Un_disjoint)
  moreover have "card (A \<union> ((?W - A) \<union> (?P - A))) = card A + card ((?W - A) \<union> (?P - A))"
    using e(1) by (intro card_Un_disjoint) auto
  ultimately have "card {base s..highest s} = card A + card (?W - A) + card (?P - A)" by simp
  moreover have "int (card {base s..highest s}) = highest s - base s + 1" using a(2) by simp
  ultimately show ?thesis using e by (simp add: gap_count_def loss_count_def)
qed

subsection \<open>The stream table\<close>

lemma trim_streams_last: "trim_streams ss = last_n MAX_STREAMS ss"
proof (induction ss)
  case (Cons x ss)
  then show ?case by (auto simp: last_n_def Suc_diff_le)
qed (simp add: last_n_def)

lemma remdups_snoc: "remdups (xs @ [x]) = filter (\<lambda>y. y \<noteq> x) (remdups xs) @ [x]"
  by (induction xs) auto

lemma last_n_map: "map f (last_n n xs) = last_n n (map f xs)"
  by (simp add: last_n_def drop_map)

lemma length_filter_other:
  "distinct ws \<Longrightarrow> k \<in> set ws \<Longrightarrow> Suc (length (filter (\<lambda>y. y \<noteq> k) ws)) = length ws"
proof (induction ws)
  case (Cons w ws)
  have "filter (\<lambda>y. y \<noteq> k) ws = ws" if "k \<notin> set ws" using that by (auto simp: filter_id_conv)
  then show ?case using Cons by (cases "w = k") auto
qed simp

lemma last_n_lru:
  assumes "distinct ys" "0 < n"
  shows "(if k \<in> set (last_n n ys) then filter (\<lambda>y. y \<noteq> k) (last_n n ys) @ [k] else last_n n (last_n n ys @ [k]))
    = last_n n (filter (\<lambda>y. y \<noteq> k) ys @ [k])"
proof (cases "length ys \<le> n")
  case True
  then have l: "last_n n ys = ys" by (simp add: last_n_def)
  show ?thesis
  proof (cases "k \<in> set ys")
    case True
    then have "length (filter (\<lambda>y. y \<noteq> k) ys) < length ys" by (auto intro: length_filter_less)
    then show ?thesis using l True \<open>length ys \<le> n\<close> by (simp add: last_n_def)
  next
    case False
    then have "filter (\<lambda>y. y \<noteq> k) ys = ys" by (auto simp: filter_id_conv)
    then show ?thesis using l False by simp
  qed
next
  case False
  define us where "us = take (length ys - n) ys"
  define ws where "ws = last_n n ys"
  have ys: "ys = us @ ws" "length ws = n" using False by (auto simp: us_def ws_def last_n_def)
  have dw: "distinct ws" "set us \<inter> set ws = {}" using assms(1) ys by auto
  show ?thesis
  proof (cases "k \<in> set ws")
    case True
    then have "filter (\<lambda>y. y \<noteq> k) us = us" using dw by (auto simp: filter_id_conv)
    moreover have "Suc (length (filter (\<lambda>y. y \<noteq> k) ws)) = n"
      using length_filter_other [OF dw(1) True] ys(2) by simp
    ultimately show ?thesis using True ys by (simp add: ws_def [symmetric] last_n_def)
  next
    case False
    then have "filter (\<lambda>y. y \<noteq> k) ws = ws" by (auto simp: filter_id_conv)
    then show ?thesis using False ys assms(2) by (simp add: ws_def [symmetric] last_n_def)
  qed
qed

lemma mark_keys:
  "map fst (streams (snd (mark d sid boot sq))) =
    (if stream_key sid boot \<in> set (map fst (streams d))
     then filter (\<lambda>y. y \<noteq> stream_key sid boot) (map fst (streams d)) @ [stream_key sid boot]
     else last_n MAX_STREAMS (map fst (streams d) @ [stream_key sid boot]))"
proof -
  let ?k = "stream_key sid boot"
  obtain s ss where t: "touch_stream (streams d) ?k = (s, ss)" by fastforce
  have pos: "0 < MAX_STREAMS" by (simp add: MAX_STREAMS_def)
  have keys: "map fst ss = (if ?k \<in> set (map fst (streams d)) then filter (\<lambda>y. y \<noteq> ?k) (map fst (streams d)) @ [?k]
     else last_n MAX_STREAMS (map fst (streams d) @ [?k]))"
  proof (cases "map_of (streams d) ?k")
    case None
    then have "?k \<notin> set (map fst (streams d))" by (simp add: map_of_eq_None_iff)
    moreover have "ss = last_n MAX_STREAMS (streams d @ [(?k, new_stream)])"
      using t None by (simp add: touch_stream_def trim_streams_last)
    ultimately show ?thesis by (simp add: last_n_map)
  next
    case (Some s0)
    have "?k \<in> set (map fst (streams d))" using map_of_SomeD [OF Some] by force
    then show ?thesis using t Some by (auto simp: touch_stream_def keys_od_del)
  qed
  then have "?k \<in> set (map fst ss)" using pos by (auto simp: last_n_def)
  then have "map fst (od_set ?k s' ss) = map fst ss" for s' by (simp add: keys_od_set)
  then show ?thesis using t keys by (simp add: mark_def counters.defs split: prod.splits)
qed

lemma run_marks_keys:
  assumes "run_marks xs d = (vs, d')" "map fst (streams d) = last_n MAX_STREAMS (remdups ks)"
  shows "map fst (streams d') = last_n MAX_STREAMS (remdups (ks @ map msg_stream xs))"
  using assms
proof (induction xs arbitrary: d vs ks)
  case (Cons x xs)
  obtain sid boot sq where x: "x = (sid, boot, sq)" by (cases x) auto
  obtain v d1 where m: "mark d sid boot sq = (v, d1)" by fastforce
  obtain vs1 where r: "run_marks xs d1 = (vs1, d')" using Cons.prems(1) m x by (auto split: prod.splits)
  have pos: "0 < MAX_STREAMS" by (simp add: MAX_STREAMS_def)
  have "map fst (streams d1) = last_n MAX_STREAMS (remdups (ks @ [stream_key sid boot]))"
    using mark_keys [of d sid boot sq] m Cons.prems(2)
      last_n_lru [OF distinct_remdups [of ks] pos, of "stream_key sid boot"]
    by (simp only: remdups_snoc snd_conv)
  from Cons.IH [OF r this] show ?case by (simp add: x)
qed simp

section \<open>Properties\<close>

text \<open>
  C2: the sliding window implements the abstract filter. While at most 64 streams are in play, on
  any sequence of marks every verdict is the one read off the set of sequence numbers accepted so
  far (new above the maximum, stale below the window or the first number, duplicate if in the set,
  reordered otherwise), \<open>check\<close> gives the same verdict for the next number, \<^verbatim>\<open>gaps_total\<close> is
  the number of positions that left the window unreceived, \<open>missing_in_window\<close> the number of
  unreceived positions inside it, and the other counters count their verdicts.
\<close>

theorem dedup_refines_sets:
  assumes "\<forall>x \<in> set xs. 0 \<le> msg_seq x" "card (msg_stream ` set xs) \<le> MAX_STREAMS"
    and "run_marks xs dedup_init = (vs, d)" "spec_run xs (\<lambda>_. {}) = (us, S)"
  shows "vs = us
    \<and> (\<forall>sid boot sq. check d sid boot sq = spec_verdict (S (stream_key sid boot)) sq)
    \<and> gaps_total d = (\<Sum>k \<in> fst ` set (streams d). gap_count (S k))
    \<and> missing_in_window d = (\<Sum>k \<in> fst ` set (streams d). loss_count (S k))
    \<and> duplicates_total d = int (count_list vs DUPLICATE)
    \<and> reordered_total d = int (count_list vs REORDERED)
    \<and> stale_total d = int (count_list vs STALE)"
proof -
  have "card (fst ` set (streams dedup_init) \<union> msg_stream ` set xs) \<le> MAX_STREAMS"
    using assms(2) by (simp add: dedup_init_def)
  note r = run_marks_spec [OF dedup_init_rel assms(1) this assms(3,4)]
  then have rel: "dedup_rel d S" by blast
  show ?thesis
    using r check_spec [OF rel] missing_in_window_spec [OF rel] rel
    by (simp add: dedup_init_def dedup_rel_def)
qed

definition demo_msgs :: "msg list" where
  "demo_msgs = [(''s'', ''b'', 5), (''s'', ''b'', 8), (''s'', ''b'', 6), (''s'', ''b'', 8), (''s'', ''b'', 2), (''s'', ''b'', 65542)]"

lemma demo_spec:
  "fst (spec_run demo_msgs (\<lambda>_. {})) = [NEW, NEW, REORDERED, DUPLICATE, STALE, NEW]"
  by (simp add: demo_msgs_def stream_key_def spec_verdict_def spec_mark_def classify_def accepted_def WINDOW_def)

lemma demo_msgs_ok: "\<forall>x \<in> set demo_msgs. 0 \<le> msg_seq x" "card (msg_stream ` set demo_msgs) \<le> MAX_STREAMS"
  by (simp_all add: demo_msgs_def stream_key_def MAX_STREAMS_def)

theorem dedup_refines_sets_witness:
  "fst (run_marks demo_msgs dedup_init) = [NEW, NEW, REORDERED, DUPLICATE, STALE, NEW]
   \<and> stale_total (snd (run_marks demo_msgs dedup_init)) = 1"
proof -
  obtain vs d where r: "run_marks demo_msgs dedup_init = (vs, d)" by fastforce
  obtain us S where u: "spec_run demo_msgs (\<lambda>_. {}) = (us, S)" by fastforce
  have "us = [NEW, NEW, REORDERED, DUPLICATE, STALE, NEW]" using demo_spec u by simp
  then show ?thesis using dedup_refines_sets [OF demo_msgs_ok r u] r by simp
qed

text \<open>
  no sequence number of a stream is accepted twice. While at most 64 streams are in play, two
  marks of the same number on the same stream are never both classified new or reordered, whatever
  arrives in between and however far the window has moved.
\<close>

theorem accepted_at_most_once:
  assumes "\<forall>x \<in> set xs. 0 \<le> msg_seq x" "card (msg_stream ` set xs) \<le> MAX_STREAMS"
    and "run_marks xs dedup_init = (vs, d)"
    and "i < j" "j < length xs" "msg_stream (xs ! i) = msg_stream (xs ! j)" "msg_seq (xs ! i) = msg_seq (xs ! j)"
    and "accepted (vs ! i)"
  shows "\<not> accepted (vs ! j)"
proof -
  obtain us S where u: "spec_run xs (\<lambda>_. {}) = (us, S)" by fastforce
  have "card (fst ` set (streams dedup_init) \<union> msg_stream ` set xs) \<le> MAX_STREAMS"
    using assms(2) by (simp add: dedup_init_def)
  from run_marks_spec [OF dedup_init_rel assms(1) this assms(3) u] have "vs = us" by blast
  then show ?thesis using spec_run_once [OF u _ assms(4-7)] assms(8) by simp
qed

theorem accepted_at_most_once_witness:
  "\<exists>vs d. run_marks demo_msgs dedup_init = (vs, d) \<and> (accepted (vs ! 1) \<longrightarrow> \<not> accepted (vs ! 3))"
proof -
  obtain vs d where r: "run_marks demo_msgs dedup_init = (vs, d)" by fastforce
  have "accepted (vs ! 1) \<Longrightarrow> \<not> accepted (vs ! 3)"
    by (rule accepted_at_most_once [OF demo_msgs_ok r, of 1]) (simp_all add: demo_msgs_def)
  then show ?thesis using r by blast
qed

lemma accepted_new: "finite A \<Longrightarrow> accepted (spec_verdict A sq) \<Longrightarrow> sq \<notin> A"
  by (auto simp: spec_verdict_def classify_def accepted_def split: if_splits dest: Max_ge)

lemma spec_mark_card:
  "finite A \<Longrightarrow> finite (spec_mark A sq) \<and> card (spec_mark A sq) = card A + (if accepted (spec_verdict A sq) then 1 else 0)"
  using accepted_new [of A sq] by (simp add: spec_mark_def)

lemma spec_run_cards:
  assumes "spec_run xs S = (us, S')" "finite K" "msg_stream ` set xs \<subseteq> K" "\<forall>k. finite (S k)"
  shows "(\<Sum>k \<in> K. card (S' k)) = (\<Sum>k \<in> K. card (S k)) + length (filter accepted us)"
  using assms(1,3,4)
proof (induction xs arbitrary: S us)
  case (Cons x xs)
  let ?k = "msg_stream x" let ?A = "S ?k" let ?B = "spec_mark ?A (msg_seq x)"
  obtain vs where r: "spec_run xs (S(?k := ?B)) = (vs, S')" "us = spec_verdict ?A (msg_seq x) # vs"
    using Cons.prems(1) by (auto simp: Let_def split: prod.splits)
  have c: "finite ?B" "card ?B = card ?A + (if accepted (spec_verdict ?A (msg_seq x)) then 1 else 0)"
    using spec_mark_card [of ?A "msg_seq x"] Cons.prems(3) by auto
  have k: "?k \<in> K" using Cons.prems(2) by simp
  have "(\<Sum>k \<in> K. card ((S(?k := ?B)) k)) = card ?B + (\<Sum>k \<in> K - {?k}. card (S k))"
    using assms(2) k by (simp add: sum.remove [where x = ?k])
  also have "\<dots> = (\<Sum>k \<in> K. card (S k)) + (if accepted (spec_verdict ?A (msg_seq x)) then 1 else 0)"
    using assms(2) k c(2) by (simp add: sum.remove [where x = ?k])
  finally show ?case using Cons.IH [OF r(1)] Cons.prems(2,3) c(1) r(2) by simp
qed simp

text \<open>The verdicts of a run, by kind.\<close>

lemma length_verdicts: "length vs = length (filter accepted vs) + count_list vs DUPLICATE + count_list vs STALE"
proof (induction vs)
  case (Cons v vs)
  then show ?case by (cases v) (simp_all add: accepted_def)
qed simp

lemma length_run_marks: "run_marks xs d = (vs, d') \<Longrightarrow> length vs = length xs"
  by (induction xs d arbitrary: vs rule: run_marks.induct) (auto split: prod.splits)

text \<open>
  C27: conservation of the counters. While at most 64 streams are in play, after any sequence of marks
  the accepted ones, the positions still missing in the windows and the counted gaps add up to the length
  of all streams from their first number to their highest, and every mark is accepted, a duplicate or stale:
  nothing is lost or counted twice by wrap-around of the bit vector, reordering or jumps past the window.
\<close>

theorem dedup_conservation:
  assumes "\<forall>x \<in> set xs. 0 \<le> msg_seq x" "card (msg_stream ` set xs) \<le> MAX_STREAMS"
    and "run_marks xs dedup_init = (vs, d)"
  shows "int (length (filter accepted vs)) + missing_in_window d + gaps_total d = (\<Sum>(k, s)\<leftarrow>streams d. highest s - base s + 1)
    \<and> int (length xs) = int (length (filter accepted vs)) + duplicates_total d + stale_total d"
proof -
  obtain us S where u: "spec_run xs (\<lambda>_. {}) = (us, S)" by fastforce
  have "card (fst ` set (streams dedup_init) \<union> msg_stream ` set xs) \<le> MAX_STREAMS"
    using assms(2) by (simp add: dedup_init_def)
  note r = run_marks_spec [OF dedup_init_rel assms(1) this assms(3) u]
  then have rel: "dedup_rel d S" by blast
  let ?K = "fst ` set (streams d)" let ?L = "?K \<union> msg_stream ` set xs"
  have dist: "distinct (map fst (streams d))" using rel by (simp add: dedup_rel_def)
  have m: "case map_of (streams d) k of None \<Rightarrow> S k = {} | Some s \<Rightarrow> stream_ok s (gap_count (S k)) (S k)" for k
    using rel unfolding dedup_rel_def by blast
  have ok: "stream_ok s (gap_count (S k)) (S k)" if "(k, s) \<in> set (streams d)" for k s
    using m [of k] map_of_is_SomeI [OF dist that] by simp
  have "S k = {}" if "k \<notin> ?K" for k
  proof -
    have "map_of (streams d) k = None" using that by (simp add: map_of_eq_None_iff)
    then show ?thesis using m [of k] by simp
  qed
  then have "(\<Sum>k \<in> ?K. card (S k)) = (\<Sum>k \<in> ?L. card (S k))" by (intro sum.mono_neutral_left) auto
  also have "\<dots> = length (filter accepted us)" using spec_run_cards [OF u, of ?L] by simp
  finally have acc: "(\<Sum>k \<in> ?K. int (card (S k))) = int (length (filter accepted us))" by (simp flip: of_nat_sum)
  have "(\<Sum>(k, s)\<leftarrow>streams d. highest s - base s + 1) = (\<Sum>(k, s)\<leftarrow>streams d. int (card (S k)) + loss_count (S k) + gap_count (S k))"
    by (rule arg_cong [where f = sum_list], rule map_cong [OF refl])
      (use stream_conservation [OF ok] stream_ok_extremes(7) [OF ok] in force)
  also have "\<dots> = (\<Sum>k \<in> ?K. int (card (S k)) + loss_count (S k) + gap_count (S k))"
    using sum_list_distinct_conv_sum_set [OF dist, of "\<lambda>k. int (card (S k)) + loss_count (S k) + gap_count (S k)"]
    by (simp add: comp_def case_prod_unfold)
  also have "\<dots> = int (length (filter accepted us)) + missing_in_window d + gaps_total d"
    using acc missing_in_window_spec [OF rel] rel by (simp add: sum.distrib dedup_rel_def)
  finally show ?thesis
    using r length_verdicts [of vs] length_run_marks [OF assms(3)] by (simp add: dedup_init_def)
qed

theorem dedup_conservation_witness:
  "\<exists>d. snd (run_marks demo_msgs dedup_init) = d \<and> 4 + missing_in_window d + gaps_total d = (\<Sum>(k, s)\<leftarrow>streams d. highest s - base s + 1)
     \<and> duplicates_total d + stale_total d = 2"
proof -
  obtain vs d where r: "run_marks demo_msgs dedup_init = (vs, d)" by fastforce
  obtain us S where u: "spec_run demo_msgs (\<lambda>_. {}) = (us, S)" by fastforce
  have "card (fst ` set (streams dedup_init) \<union> msg_stream ` set demo_msgs) \<le> MAX_STREAMS"
    using demo_msgs_ok(2) by (simp add: dedup_init_def)
  then have "vs = [NEW, NEW, REORDERED, DUPLICATE, STALE, NEW]"
    using run_marks_spec [OF dedup_init_rel demo_msgs_ok(1) _ r u] demo_spec u by simp
  then have "length (filter accepted vs) = 4" by (simp add: accepted_def)
  then show ?thesis using dedup_conservation [OF demo_msgs_ok r] r by (simp add: demo_msgs_def)
qed

text \<open>
  the stream table is a least-recently-used cache. After any marks the table holds exactly the
  64 most recently marked streams (or all of them, when there are fewer), oldest first.
\<close>

theorem stream_table_lru:
  assumes "run_marks xs dedup_init = (vs, d)"
  shows "map fst (streams d) = last_n MAX_STREAMS (remdups (map msg_stream xs))"
  using run_marks_keys [OF assms, of "[]"] by (simp add: dedup_init_def last_n_def)

theorem stream_table_lru_witness:
  "map fst (streams (snd (run_marks demo_msgs dedup_init))) = [''s|b'']"
  using stream_table_lru [of demo_msgs] 
  by (cases "run_marks demo_msgs dedup_init") (simp add: demo_msgs_def stream_key_def last_n_def MAX_STREAMS_def)

lemma restore_streams_snap:
  assumes "distinct (map fst (ss @ ts))"
  shows "restore_streams (map (\<lambda>(k, s). \<lparr>sn_key = k, sn_base = base s, sn_highest = highest s, sn_missing = missing s,
       sn_bits = b64encode (bits s)\<rparr>) ts) ss = Some (ss @ ts)"
  using assms
proof (induction ts arbitrary: ss)
  case (Cons t ts)
  obtain k s where t: "t = (k, s)" by fastforce
  have eta: "\<lparr>base = base s, highest = highest s, missing = missing s, bits = bits s\<rparr> = s" by simp
  have "k \<notin> fst ` set ss" using Cons.prems t by auto
  then show ?case using Cons.IH [of "ss @ [t]"] Cons.prems by (simp add: t b64_round_trip od_set_new eta)
qed simp

lemma remdups_keys_distinct: "distinct (last_n n (remdups xs))"
  by (simp add: last_n_def)

text \<open>
  the persisted snapshot restores the filter. For every state the receiver reaches by marking,
  restoring its snapshot gives back exactly that state: the counters, the streams in their
  least-recently-used order, and every bit of every window.
\<close>

theorem snapshot_restore:
  assumes "run_marks xs dedup_init = (vs, d)"
  shows "restore (snapshot d) = Some d"
proof -
  have "distinct (map fst (streams d))"
    using run_marks_keys [OF assms, of "[]"] remdups_keys_distinct by (simp add: dedup_init_def last_n_def)
  then show ?thesis
    using restore_streams_snap [of "[]" "streams d"] by (simp add: restore_def snapshot_def get_or_0_def)
qed

theorem snapshot_restore_witness:
  "restore (snapshot (snd (run_marks demo_msgs dedup_init))) = Some (snd (run_marks demo_msgs dedup_init))"
  using snapshot_restore [of demo_msgs] by (cases "run_marks demo_msgs dedup_init") simp

end
