(* ===== verification/Spool.thy ===== *)
theory Spool
  imports LinkFrame
begin

text \<open>
  The durable spool between acceptance and publication
  (\<^verbatim>\<open>ingest/receiver/sih_receiver/spool.py\<close>): length-prefixed records with a CRC in segment
  files, the byte limit, rotation, group commit, reading between two positions, release, and the
  truncation of a torn tail when the spool is opened after a crash. The directory is an
  association list from segment numbers to file contents; \<open>sizes\<close> is the class's own table.
\<close>

section \<open>State\<close>

type_synonym position = "nat \<times> nat"

fun pos_less :: "position \<Rightarrow> position \<Rightarrow> bool" where
  "pos_less (s, a) (t, b) = (s < t \<or> s = t \<and> a < b)"

record entry =
  e_topic :: nat
  e_key :: bytes
  e_sensor :: "string option"
  e_boot :: "string option"
  e_seq :: int
  e_ts_ms :: int
  e_value :: bytes
  e_start :: position
  e_end :: position

datatype spool_error = PackError | IndexError | UnicodeError | UuidError | CrcMismatch nat nat

record spool =
  max_bytes :: nat
  segment_bytes :: nat
  files :: "(nat \<times> bytes) list"
  sizes :: "(nat \<times> nat) list"
  active :: nat
  total_bytes :: nat
  dirty :: bool
  synced :: position

definition TOPIC_RAW :: nat where "TOPIC_RAW = 1"
definition TOPIC_INVALID :: nat where "TOPIC_INVALID = 2"
definition TOPIC_HEALTH :: nat where "TOPIC_HEALTH = 3"

section \<open>Records\<close>

definition pack_body ::
  "nat \<Rightarrow> bytes \<Rightarrow> string option \<Rightarrow> string option \<Rightarrow> int \<Rightarrow> int \<Rightarrow> bytes \<Rightarrow> spool_error + bytes" where
  "pack_body tp key sid boot sq ts val =
     (case ascii_bytes (case sid of None \<Rightarrow> [] | Some s \<Rightarrow> s) of None \<Rightarrow> Inl UnicodeError
      | Some sidb \<Rightarrow>
        (case (case boot of None \<Rightarrow> Some (replicate 16 0) | Some b \<Rightarrow> if b = [] then Some (replicate 16 0) else uuid_bytes b) of
           None \<Rightarrow> Inl UuidError
         | Some ub \<Rightarrow>
             if tp \<ge> 256 \<or> length key \<ge> 65536 \<or> length sidb \<ge> 256 \<or> sq < - (2 ^ 63) \<or> sq \<ge> 2 ^ 63
               \<or> ts < - (2 ^ 63) \<or> ts \<ge> 2 ^ 63 \<or> length val \<ge> 2 ^ 32
             then Inl PackError
             else Inr (be 1 tp @ be 2 (length key) @ key @ be 1 (length sidb) @ sidb @ ub
               @ be_signed64 sq @ be_signed64 ts @ be 4 (length val) @ val)))"

definition record_of :: "bytes \<Rightarrow> bytes" where
  "record_of body = be 4 (length body) @ body @ be 4 (crc32 body)"

definition parse_body :: "bytes \<Rightarrow> position \<Rightarrow> position \<Rightarrow> spool_error + entry" where
  "parse_body body s e =
     (if length body < 3 then Inl PackError
      else let tp = unat (body ! 0); klen = unbe (slice 1 2 body); off = 3 + klen
      in if length body \<le> off then Inl IndexError
      else let slen = unat (body ! off); off1 = off + 1; sidb = slice off1 slen body;
               off2 = off1 + slen; boot = slice off2 16 body; off3 = off2 + 16
      in if slen \<noteq> 0 \<and> \<not> list_all (\<lambda>b. unat b < 128) sidb then Inl UnicodeError
      else if length body < off3 + 20 then Inl PackError
      else Inr \<lparr>e_topic = tp, e_key = slice 3 klen body,
                e_sensor = (if slen = 0 then None else Some (ascii_string sidb)),
                e_boot = (if slen = 0 then None else Some (uuid_str boot)),
                e_seq = unbe_signed64 (slice off3 8 body), e_ts_ms = unbe_signed64 (slice (off3 + 8) 8 body),
                e_value = slice (off3 + 20) (unbe (slice (off3 + 16) 4 body)) body,
                e_start = s, e_end = e\<rparr>)"

section \<open>Operations\<close>

definition file_of :: "spool \<Rightarrow> nat \<Rightarrow> bytes" where
  "file_of sp k = (case map_of (files sp) k of None \<Rightarrow> [] | Some d \<Rightarrow> d)"

definition size_of :: "spool \<Rightarrow> nat \<Rightarrow> nat" where
  "size_of sp k = (case map_of (sizes sp) k of None \<Rightarrow> 0 | Some n \<Rightarrow> n)"

definition open_segment :: "nat \<Rightarrow> spool \<Rightarrow> spool" where
  "open_segment seg sp = sp\<lparr>active := seg, files := od_set seg (file_of sp seg) (files sp),
     sizes := (if map_of (sizes sp) seg = None then od_set seg 0 (sizes sp) else sizes sp)\<rparr>"

text \<open>\<^verbatim>\<open>_valid_prefix\<close>: the length of the longest prefix of whole, checksummed records.\<close>

function valid_from :: "bytes \<Rightarrow> nat \<Rightarrow> nat" where
  "valid_from data pos =
     (if pos + 8 \<le> length data
      then let blen = unbe (slice pos 4 data)
        in if blen \<le> 0 \<or> pos + 8 + blen > length data then pos
        else if crc32 (slice (pos + 4) blen data) \<noteq> unbe (slice (pos + 4 + blen) 4 data) then pos
        else valid_from data (pos + 8 + blen)
      else pos)"
  by pat_completeness auto
termination by (relation "measure (\<lambda>(data, pos). length data - pos)") auto

declare valid_from.simps [simp del]

definition valid_prefix :: "bytes \<Rightarrow> nat" where
  "valid_prefix data = valid_from data 0"

text \<open>The constructor, on the directory's files.\<close>

definition open_spool :: "(nat \<times> bytes) list \<Rightarrow> nat \<Rightarrow> nat \<Rightarrow> spool" where
  "open_spool fs mx sb =
     (let sp = \<lparr>max_bytes = mx, segment_bytes = sb, files = fs, sizes = map (\<lambda>(k, d). (k, length d)) fs,
            active = 0, total_bytes = 0, dirty = False, synced = (0, 0)\<rparr>;
          sp1 = (if fs = [] then open_segment 0 sp
            else let act = Max (set (map fst fs)); data = file_of sp act; valid = valid_prefix data
              in sp\<lparr>active := act,
                    files := (if valid < size_of sp act then od_set act (take valid data) fs else fs),
                    sizes := od_set act valid (sizes sp)\<rparr>)
      in sp1\<lparr>total_bytes := sum_list (map snd (sizes sp1)), synced := (active sp1, size_of sp1 (active sp1))\<rparr>)"

text \<open>The write inside \<^verbatim>\<open>append\<close>.\<close>

definition write_record :: "bytes \<Rightarrow> spool \<Rightarrow> spool" where
  "write_record rec sp = (let a = active sp in
     sp\<lparr>files := od_set a (file_of sp a @ rec) (files sp), sizes := od_set a (size_of sp a + length rec) (sizes sp),
        total_bytes := total_bytes sp + length rec, dirty := True\<rparr>)"

definition append_record :: "spool \<Rightarrow> bytes \<Rightarrow> bool \<times> spool" where
  "append_record sp rec =
     (if total_bytes sp + length rec > max_bytes sp then (False, sp)
      else (True, write_record rec
        (if size_of sp (active sp) > 0 \<and> size_of sp (active sp) + length rec > segment_bytes sp
         then open_segment (active sp + 1) sp else sp)))"

definition spool_append :: "spool \<Rightarrow> nat \<Rightarrow> bytes \<Rightarrow> string option \<Rightarrow> string option \<Rightarrow> int \<Rightarrow> int \<Rightarrow> bytes
    \<Rightarrow> spool_error + (bool \<times> spool)" where
  "spool_append sp tp key sid boot sq ts val =
     (case pack_body tp key sid boot sq ts val of Inl e \<Rightarrow> Inl e
      | Inr body \<Rightarrow> if length body \<ge> 2 ^ 32 then Inl PackError else Inr (append_record sp (record_of body)))"

definition spool_end :: "spool \<Rightarrow> position" where
  "spool_end sp = (active sp, size_of sp (active sp))"

definition spool_sync :: "spool \<Rightarrow> position \<times> spool" where
  "spool_sync sp = (spool_end sp, sp\<lparr>dirty := False, synced := spool_end sp\<rparr>)"

definition first_position :: "spool \<Rightarrow> position" where
  "first_position sp = (Min (set (map fst (sizes sp))), 0)"

text \<open>The inner loop of \<^verbatim>\<open>read\<close>: one record of a segment file, and at most \<open>n\<close> of them.\<close>

definition read_one :: "bytes \<Rightarrow> nat \<Rightarrow> nat \<Rightarrow> spool_error + (entry \<times> nat)" where
  "read_one data seg off =
     (let head = slice off 4 data; blen = unbe head; body = slice (off + 4) blen data;
          tail = slice (off + 4 + length body) 4 data; nxt = off + 8 + blen
      in if length head < 4 then Inl PackError
         else if length tail < 4 then Inl PackError
         else if crc32 body \<noteq> unbe tail then Inl (CrcMismatch seg off)
         else case parse_body body (seg, off) (seg, nxt) of Inl e \<Rightarrow> Inl e | Inr x \<Rightarrow> Inr (x, nxt))"

primrec read_seg :: "bytes \<Rightarrow> nat \<Rightarrow> nat \<Rightarrow> nat \<Rightarrow> nat \<Rightarrow> spool_error + (entry list \<times> nat)" where
  "read_seg data seg seg_end 0 off = Inr ([], off)"
| "read_seg data seg seg_end (Suc n) off =
     (if off < seg_end then
        (case read_one data seg off of Inl e \<Rightarrow> Inl e
         | Inr (x, nxt) \<Rightarrow> (case read_seg data seg seg_end n nxt of Inl e \<Rightarrow> Inl e
             | Inr (xs, off') \<Rightarrow> Inr (x # xs, off')))
      else Inr ([], off))"

lemma read_one_progress: "read_one data seg off = Inr (x, nxt) \<Longrightarrow> off < nxt"
  by (auto simp: read_one_def Let_def split: if_splits sum.splits)

lemma read_seg_progress:
  "read_seg data seg seg_end n off = Inr (xs, off') \<Longrightarrow> off \<le> off' \<and> (0 < n \<and> off < seg_end \<longrightarrow> off < off')"
proof (induction n arbitrary: off xs)
  case (Suc n)
  show ?case
  proof (cases "off < seg_end")
    case True
    then obtain x nxt ys where "read_one data seg off = Inr (x, nxt)" "read_seg data seg seg_end n nxt = Inr (ys, off')"
      using Suc.prems by (auto split: sum.splits)
    then show ?thesis using Suc.IH read_one_progress by fastforce
  next
    case False
    then show ?thesis using Suc.prems by simp
  qed
qed simp

definition later_segs :: "spool \<Rightarrow> nat \<Rightarrow> nat list" where
  "later_segs sp seg = filter (\<lambda>s. s > seg) (map fst (sizes sp))"

lemma later_segs_next:
  assumes "later_segs sp seg \<noteq> []"
  shows "length (later_segs sp (Min (set (later_segs sp seg)))) < length (later_segs sp seg)"
proof -
  let ?m = "Min (set (later_segs sp seg))"
  have m: "?m \<in> set (later_segs sp seg)" using assms by (intro Min_in) auto
  then have "later_segs sp ?m = filter (\<lambda>s. s > ?m) (later_segs sp seg)"
    by (auto simp: later_segs_def intro!: filter_cong)
  then show ?thesis using m by (auto intro: length_filter_less)
qed

text \<open>The outer loop of \<^verbatim>\<open>read\<close> over the segments.\<close>

function read_from :: "spool \<Rightarrow> position \<Rightarrow> nat \<Rightarrow> position \<Rightarrow> entry list \<Rightarrow> spool_error + entry list" where
  "read_from sp limit max_entries (seg, off) out =
     (if length out < max_entries \<and> pos_less (seg, off) limit then
        (let later = later_segs sp seg in
         case map_of (sizes sp) seg of
           None \<Rightarrow> if later = [] then Inr out else read_from sp limit max_entries (Min (set later), 0) out
         | Some sz \<Rightarrow>
             let seg_end = (if seg = fst limit then snd limit else sz) in
             if off \<ge> seg_end then
               if seg \<ge> fst limit \<or> later = [] then Inr out
               else read_from sp limit max_entries (Min (set later), 0) out
             else case read_seg (file_of sp seg) seg seg_end (max_entries - length out) off of
               Inl e \<Rightarrow> Inl e
             | Inr (xs, off') \<Rightarrow> read_from sp limit max_entries (seg, off') (out @ xs))
      else Inr out)"
  by pat_completeness auto
termination
proof (relation "measures [\<lambda>(sp, limit, n, (seg, off), out). length (later_segs sp seg),
    \<lambda>(sp, limit, n, (seg, off), out). (if seg = fst limit then snd limit else size_of sp seg) - off]", goal_cases)
  case (2 sp limit n seg off out later)
  then show ?case using later_segs_next by simp
next
  case (3 sp limit n seg off out later sz seg_end)
  then show ?case using later_segs_next by simp
next
  case (4 sp limit n seg off out later sz seg_end r xs off')
  then have "off < off'" using read_seg_progress by fastforce
  then show ?case using 4 by (auto simp: size_of_def)
qed simp

declare read_from.simps [simp del]

definition spool_read :: "spool \<Rightarrow> position \<Rightarrow> position \<Rightarrow> nat \<Rightarrow> spool_error + entry list" where
  "spool_read sp start limit max_entries = read_from sp limit max_entries start []"

text \<open>The loop of \<^verbatim>\<open>release\<close> over the sorted segments, stopping at the first that is kept.\<close>

fun release_loop :: "nat \<Rightarrow> nat list \<Rightarrow> spool \<Rightarrow> spool" where
  "release_loop acked_seg [] sp = sp"
| "release_loop acked_seg (seg # segs) sp =
     (if seg \<ge> acked_seg \<or> seg = active sp then sp
      else release_loop acked_seg segs
        (sp\<lparr>total_bytes := total_bytes sp - size_of sp seg, sizes := od_del seg (sizes sp), files := od_del seg (files sp)\<rparr>))"

definition release :: "spool \<Rightarrow> position \<Rightarrow> spool" where
  "release sp acked = release_loop (fst acked) (sort (map fst (sizes sp))) sp"

section \<open>Cursor file\<close>

definition position_text :: "position \<Rightarrow> string" where
  "position_text p = str_of_nat (fst p) @ '':'' @ str_of_nat (snd p)"

definition parse_position :: "string \<Rightarrow> position option" where
  "parse_position t = (case split_on (CHR '':'') t of
     [a, b] \<Rightarrow> if a \<noteq> [] \<and> b \<noteq> [] \<and> list_all is_dec a \<and> list_all is_dec b then Some (dec_val a, dec_val b) else None
   | _ \<Rightarrow> None)"

section \<open>Records round trip\<close>

lemma unbe_be_field:
  "x < 256 \<Longrightarrow> unbe (be (Suc 0) x) = x" "x < 65536 \<Longrightarrow> unbe (be 2 x) = x" "x < 2 ^ 32 \<Longrightarrow> unbe (be 4 x) = x"
  by (simp_all add: unbe_be_small del: be.simps)

lemma parse_body_fields:
  fixes sidb :: bytes
  assumes "tp < 256" "length key < 65536" "length sidb < 256" "length ub = 16" "length val < 2 ^ 32"
    and "- (2 ^ 63) \<le> sq" "sq < 2 ^ 63" "- (2 ^ 63) \<le> ts" "ts < 2 ^ 63" "list_all (\<lambda>b. unat b < 128) sidb"
  shows "parse_body (be 1 tp @ be 2 (length key) @ key @ be 1 (length sidb) @ sidb @ ub @ be_signed64 sq
      @ be_signed64 ts @ be 4 (length val) @ val) s e
    = Inr \<lparr>e_topic = tp, e_key = key, e_sensor = (if sidb = [] then None else Some (ascii_string sidb)),
        e_boot = (if sidb = [] then None else Some (uuid_str ub)), e_seq = sq, e_ts_ms = ts, e_value = val,
        e_start = s, e_end = e\<rparr>" (is "parse_body ?b s e = _")
proof -
  let ?K = "length key" and ?L = "length sidb"
  have one: "be 1 x = [of_nat (x mod 256)]" for x by simp
  have b0: "unat (?b ! 0) = tp" using assms(1) unat_byte_of_nat [of tp] by (simp add: one)
  have f1: "unbe (slice 1 2 ?b) = ?K"
    using slice_mid [of "be 1 tp" 1 "be 2 ?K" 2] unbe_be_field(2) assms(2) by simp
  have f2: "slice 3 ?K ?b = key"
    using slice_mid [of "be 1 tp @ be 2 ?K" 3 key ?K] by simp
  have f3: "unat (?b ! (3 + ?K)) = ?L"
    using assms(3) nth_append_length [of "be 1 tp @ be 2 ?K @ key"] unat_byte_of_nat [of ?L] by (simp add: one)
  have f4: "slice (3 + ?K + 1) ?L ?b = sidb"
    using slice_mid [of "be 1 tp @ be 2 ?K @ key @ be 1 ?L" "3 + ?K + 1" sidb ?L] by simp
  have f5: "slice (3 + ?K + 1 + ?L) 16 ?b = ub"
    using slice_mid [of "be 1 tp @ be 2 ?K @ key @ be 1 ?L @ sidb" "3 + ?K + 1 + ?L" ub 16] assms(4) by simp
  have f6: "slice (3 + ?K + 1 + ?L + 16) 8 ?b = be_signed64 sq"
    using slice_mid [of "be 1 tp @ be 2 ?K @ key @ be 1 ?L @ sidb @ ub" "3 + ?K + 1 + ?L + 16" "be_signed64 sq" 8]
      assms(4) by simp
  have f7: "slice (3 + ?K + 1 + ?L + 16 + 8) 8 ?b = be_signed64 ts"
    using slice_mid [of "be 1 tp @ be 2 ?K @ key @ be 1 ?L @ sidb @ ub @ be_signed64 sq"
        "3 + ?K + 1 + ?L + 16 + 8" "be_signed64 ts" 8] assms(4) by simp
  have f8: "slice (3 + ?K + 1 + ?L + 16 + 16) 4 ?b = be 4 (length val)"
    using slice_mid [of "be 1 tp @ be 2 ?K @ key @ be 1 ?L @ sidb @ ub @ be_signed64 sq @ be_signed64 ts"
        "3 + ?K + 1 + ?L + 16 + 16" "be 4 (length val)" 4] assms(4) by simp
  have f9: "slice (3 + ?K + 1 + ?L + 16 + 20) (length val) ?b = val"
    using slice_end [of "be 1 tp @ be 2 ?K @ key @ be 1 ?L @ sidb @ ub @ be_signed64 sq @ be_signed64 ts @ be 4 (length val)"
        "3 + ?K + 1 + ?L + 16 + 20" val "length val"] assms(4) by simp
  have len: "length ?b = 3 + ?K + 1 + ?L + 36 + length val" using assms(4) by simp
  show ?thesis
    unfolding parse_body_def Let_def b0 f1 f2 f3 f4 f5 f6 f7 f8 f9 len unbe_be_field(3) [OF assms(5)]
    using assms unbe_signed64_be by simp
qed

lemma ascii_small:
  assumes "ascii_bytes s = Some bs"
  shows "list_all (\<lambda>b. unat b < 128) bs"
proof -
  have "unat (of_char c :: byte) = of_char c" if "(of_char c :: nat) < 128" for c
    using that by (simp add: of_char_def unat_of_nat flip: of_nat_of_char)
  then show ?thesis using assms by (auto simp: ascii_bytes_def list_all_iff split: if_splits)
qed

lemma pack_body_InrE:
  assumes "pack_body tp key sid boot sq ts val = Inr body"
  obtains sidb ub where "ascii_bytes (case sid of None \<Rightarrow> [] | Some s \<Rightarrow> s) = Some sidb"
    "(case boot of None \<Rightarrow> Some (replicate 16 0) | Some b \<Rightarrow> if b = [] then Some (replicate 16 0) else uuid_bytes b) = Some ub"
    "tp < 256" "length key < 65536" "length sidb < 256" "length ub = 16" "length val < 2 ^ 32"
    "- (2 ^ 63) \<le> sq" "sq < 2 ^ 63" "- (2 ^ 63) \<le> ts" "ts < 2 ^ 63" "list_all (\<lambda>b. unat b < 128) sidb"
    "body = be 1 tp @ be 2 (length key) @ key @ be 1 (length sidb) @ sidb @ ub @ be_signed64 sq
      @ be_signed64 ts @ be 4 (length val) @ val"
proof -
  let ?s = "case sid of None \<Rightarrow> [] | Some s \<Rightarrow> s"
  let ?u = "case boot of None \<Rightarrow> Some (replicate 16 0) | Some b \<Rightarrow> if b = [] then Some (replicate 16 0) else uuid_bytes b"
  obtain sidb where s: "ascii_bytes ?s = Some sidb"
    using assms by (auto simp: pack_body_def split: option.splits)
  obtain ub where u: "?u = Some ub"
    using assms s by (cases ?u) (auto simp: pack_body_def)
  have "length ub = 16"
    using u length_uuid_bytes by (auto split: option.splits if_splits)
  moreover have "list_all (\<lambda>b. unat b < 128) sidb"
    using ascii_small [OF s] .
  ultimately show thesis
    using assms s u that by (auto simp: pack_body_def not_le split: if_splits)
qed

lemma pack_parse:
  assumes "pack_body tp key sid boot sq ts val = Inr body"
  shows "\<exists>x. \<forall>s e. parse_body body s e = Inr (x\<lparr>e_start := s, e_end := e\<rparr>)"
  using assms
proof (rule pack_body_InrE)
  fix sidb ub :: bytes
  assume a: "tp < 256" "length key < 65536" "length sidb < 256" "length ub = 16" "length val < 2 ^ 32"
    "- (2 ^ 63) \<le> sq" "sq < 2 ^ 63" "- (2 ^ 63) \<le> ts" "ts < 2 ^ 63" "list_all (\<lambda>b. unat b < 128) sidb"
    "body = be 1 tp @ be 2 (length key) @ key @ be 1 (length sidb) @ sidb @ ub @ be_signed64 sq
      @ be_signed64 ts @ be 4 (length val) @ val"
  let ?x = "\<lparr>e_topic = tp, e_key = key, e_sensor = (if sidb = [] then None else Some (ascii_string sidb)),
      e_boot = (if sidb = [] then None else Some (uuid_str ub)), e_seq = sq, e_ts_ms = ts, e_value = val,
      e_start = (0, 0), e_end = (0, 0)\<rparr>"
  show ?thesis using parse_body_fields [OF a(1-10)] a(11) by (intro exI [of _ ?x]) simp
qed

lemma pack_body_length: "pack_body tp key sid boot sq ts val = Inr body \<Longrightarrow> 40 \<le> length body"
  by (erule pack_body_InrE) simp

section \<open>Whole records\<close>

definition body_ok :: "bytes \<Rightarrow> bool" where
  "body_ok b = (0 < length b \<and> length b < 2 ^ 32)"

abbreviation rec_len :: "bytes list \<Rightarrow> nat" where
  "rec_len bs \<equiv> length (concat (map record_of bs))"

lemma length_record_of [simp]: "length (record_of b) = length b + 8"
  by (simp add: record_of_def)

text \<open>The fields of a record that starts at \<open>length pre\<close>.\<close>

lemma record_fields:
  assumes "body_ok b" "data = pre @ record_of b @ post" "pos = length pre"
  shows "slice pos 4 data = be 4 (length b)" "unbe (slice pos 4 data) = length b"
    "slice (pos + 4) (length b) data = b" "slice (pos + 4 + length b) 4 data = be 4 (crc32 b)"
    "unbe (slice (pos + 4 + length b) 4 data) = crc32 b"
proof -
  show s: "slice pos 4 data = be 4 (length b)"
    using slice_mid [of pre pos "be 4 (length b)" 4] assms by (simp add: record_of_def)
  show "unbe (slice pos 4 data) = length b" using assms(1) s by (simp add: body_ok_def unbe_be_small)
  show "slice (pos + 4) (length b) data = b"
    using slice_mid [of "pre @ be 4 (length b)" "pos + 4" b "length b"] assms by (simp add: record_of_def)
  show c: "slice (pos + 4 + length b) 4 data = be 4 (crc32 b)"
    using slice_mid [of "pre @ be 4 (length b) @ b" "pos + 4 + length b" "be 4 (crc32 b)" 4] assms
    by (simp add: record_of_def)
  show "unbe (slice (pos + 4 + length b) 4 data) = crc32 b" using c crc32_less by (simp add: unbe_be_small)
qed

lemma valid_from_record:
  assumes "body_ok b" "data = pre @ record_of b @ post"
  shows "valid_from data (length pre) = valid_from data (length pre + 8 + length b)"
proof -
  note f = record_fields [OF assms refl]
  have "length data = length pre + 8 + length b + length post" using assms(2) by simp
  then show ?thesis
    using assms(1) by (subst valid_from.simps) (simp add: f(2,3,5) Let_def body_ok_def)
qed

text \<open>Part of a record: what a crash in the middle of a write leaves.\<close>

definition torn :: "bytes \<Rightarrow> bool" where
  "torn t = (\<exists>b n. body_ok b \<and> t = take n (record_of b) \<and> n < length (record_of b))"

lemma valid_from_torn:
  assumes "torn t" "data = pre @ t"
  shows "valid_from data (length pre) = length pre"
proof -
  obtain b n where b: "body_ok b" "t = take n (record_of b)" "n < length b + 8"
    using assms(1) by (auto simp: torn_def)
  show ?thesis
  proof (cases "n < 8")
    case True
    then show ?thesis using b assms(2) by (subst valid_from.simps) simp
  next
    case False
    have len: "length t = n" using b by simp
    have "record_of b = t @ drop n (record_of b)" using b(2) by (metis append_take_drop_id)
    then have "pre @ record_of b @ [] = data @ drop n (record_of b)" using assms(2) by simp
    then have "unbe (slice (length pre) 4 data) = length b"
      using record_fields(2) [OF b(1), of "pre @ record_of b @ []" pre "[]" "length pre"]
        slice_append_left [of "length pre" 4 data "drop n (record_of b)"] len False assms(2) by simp
    then show ?thesis using b(1,3) len assms(2)
      by (subst valid_from.simps) (auto simp: Let_def body_ok_def)
  qed
qed

lemma torn_Nil: "torn []"
  by (auto simp: torn_def body_ok_def intro!: exI [of _ "[0]"] exI [of _ "0 :: nat"])

lemma valid_from_concat:
  assumes "\<forall>b \<in> set bs. body_ok b" "torn t"
  shows "valid_from (pre @ concat (map record_of bs) @ t) (length pre) = length pre + rec_len bs"
  using assms(1)
proof (induction bs arbitrary: pre)
  case Nil
  then show ?case using valid_from_torn [OF assms(2)] by simp
next
  case (Cons b bs)
  have "valid_from (pre @ concat (map record_of (b # bs)) @ t) (length pre)
      = valid_from ((pre @ record_of b) @ concat (map record_of bs) @ t) (length (pre @ record_of b))"
    using valid_from_record [of b _ pre "concat (map record_of bs) @ t"] Cons.prems by (simp add: ac_simps)
  then show ?case using Cons.IH [of "pre @ record_of b"] Cons.prems by simp
qed

lemma valid_prefix_records:
  "\<forall>b \<in> set bs. body_ok b \<Longrightarrow> torn t \<Longrightarrow> valid_prefix (concat (map record_of bs) @ t) = rec_len bs"
  using valid_from_concat [of bs t "[]"] by (simp add: valid_prefix_def)

text \<open>Bytes of a sequence of records, cut anywhere, are whole records and a torn one.\<close>

lemma take_records:
  assumes "\<forall>b \<in> set bs. body_ok b"
  shows "\<exists>m t. take n (concat (map record_of bs)) = concat (map record_of (take m bs)) @ t \<and> torn t"
  using assms
proof (induction bs arbitrary: n)
  case (Cons b bs)
  show ?case
  proof (cases "n < length (record_of b)")
    case True
    then have "torn (take n (record_of b))" using Cons.prems by (auto simp: torn_def)
    then show ?thesis using True by (intro exI [of _ 0] exI [of _ "take n (record_of b)"]) simp
  next
    case False
    obtain m t where "take (n - length (record_of b)) (concat (map record_of bs)) = concat (map record_of (take m bs)) @ t" "torn t"
      using Cons.IH Cons.prems by (meson list.set_intros(2))
    then show ?thesis using False by (intro exI [of _ "Suc m"] exI [of _ t]) simp
  qed
qed (use torn_Nil in auto)

section \<open>Reading whole records\<close>

definition body_wf :: "bytes \<Rightarrow> bool" where
  "body_wf b = (body_ok b \<and> (\<exists>x. \<forall>s e. parse_body b s e = Inr (x\<lparr>e_start := s, e_end := e\<rparr>)))"

definition entry_at :: "bytes \<Rightarrow> position \<Rightarrow> position \<Rightarrow> entry" where
  "entry_at b s e = projr (parse_body b s e)"

lemma entry_at:
  assumes "body_wf b"
  shows "parse_body b s e = Inr (entry_at b s e)" "e_start (entry_at b s e) = s" "e_end (entry_at b s e) = e"
proof -
  obtain x where "parse_body b s e = Inr (x\<lparr>e_start := s, e_end := e\<rparr>)"
    using assms unfolding body_wf_def by blast
  then show "parse_body b s e = Inr (entry_at b s e)" "e_start (entry_at b s e) = s" "e_end (entry_at b s e) = e"
    by (simp_all add: entry_at_def)
qed

primrec seg_entries :: "nat \<Rightarrow> nat \<Rightarrow> bytes list \<Rightarrow> entry list" where
  "seg_entries k off [] = []"
| "seg_entries k off (b # bs) = entry_at b (k, off) (k, off + 8 + length b) # seg_entries k (off + 8 + length b) bs"

lemma length_seg_entries [simp]: "length (seg_entries k off bs) = length bs"
  by (induction bs arbitrary: off) auto

lemma seg_entries_append: "seg_entries k off (bs @ cs) = seg_entries k off bs @ seg_entries k (off + rec_len bs) cs"
  by (induction bs arbitrary: off) (auto simp: ac_simps)

lemma read_one_record:
  assumes "body_wf b" "data = pre @ record_of b @ post"
  shows "read_one data k (length pre) = Inr (entry_at b (k, length pre) (k, length pre + 8 + length b), length pre + 8 + length b)"
proof -
  have ok: "body_ok b" using assms(1) by (simp add: body_wf_def)
  note f = record_fields [OF ok assms(2) refl]
  have "slice (length pre) 4 data = be 4 (length b)" "unbe (be 4 (length b)) = length b"
    using f(1,2) by simp_all
  then show ?thesis by (simp add: read_one_def Let_def f(3,4) unbe_be_small [OF crc32_less] entry_at(1) [OF assms(1)])
qed

lemma read_seg_records:
  assumes "\<forall>b \<in> set bs. body_wf b"
  shows "read_seg (pre @ concat (map record_of bs) @ post) k (length pre + rec_len bs) n (length pre)
    = Inr (take n (seg_entries k (length pre) bs), length pre + rec_len (take n bs))"
  using assms
proof (induction n arbitrary: pre bs)
  case (Suc n)
  show ?case
  proof (cases bs)
    case Nil
    then show ?thesis by simp
  next
    case (Cons b cs)
    have "read_one (pre @ concat (map record_of bs) @ post) k (length pre)
        = Inr (entry_at b (k, length pre) (k, length pre + 8 + length b), length pre + 8 + length b)"
      using read_one_record [of b _ pre "concat (map record_of cs) @ post"] Suc.prems Cons by simp
    then show ?thesis
      using Suc.IH [of cs "pre @ record_of b"] Suc.prems Cons by (simp add: ac_simps)
  qed
qed simp

section \<open>Invariant\<close>

text \<open>
  \<open>bs k\<close> are the bodies stored in segment \<open>k\<close>: every file is exactly the records of its
  bodies, the table of sizes and the total agree with the files, and no segment is above the active one.
\<close>

definition spool_ok :: "spool \<Rightarrow> (nat \<Rightarrow> bytes list) \<Rightarrow> bool" where
  "spool_ok sp bs = (distinct (map fst (sizes sp)) \<and> distinct (map fst (files sp)) \<and> active sp \<in> fst ` set (sizes sp)
     \<and> (\<forall>k. map_of (sizes sp) k = map_option length (map_of (files sp) k))
     \<and> (\<forall>k \<in> fst ` set (sizes sp). k \<le> active sp)
     \<and> (\<forall>k. file_of sp k = concat (map record_of (bs k)) \<and> (\<forall>b \<in> set (bs k). body_wf b))
     \<and> total_bytes sp = (\<Sum>k \<in> fst ` set (sizes sp). size_of sp k))"

lemma spool_ok_size:
  assumes "spool_ok sp bs"
  shows "size_of sp k = rec_len (bs k)" "k \<notin> fst ` set (sizes sp) \<Longrightarrow> bs k = []"
proof -
  have m: "map_of (sizes sp) k = map_option length (map_of (files sp) k)"
    and f: "file_of sp k = concat (map record_of (bs k))"
    using assms by (auto simp: spool_ok_def)
  show s: "size_of sp k = rec_len (bs k)"
    using m f by (cases "map_of (files sp) k") (auto simp: size_of_def file_of_def)
  show "bs k = []" if "k \<notin> fst ` set (sizes sp)"
  proof -
    have "map_of (sizes sp) k = None" using that by (simp add: map_of_eq_None_iff)
    then have "rec_len (bs k) = 0" using s by (simp add: size_of_def)
    then show ?thesis by (cases "bs k") (auto simp: record_of_def)
  qed
qed

lemma file_of_update: "file_of (sp\<lparr>files := od_set j d fs\<rparr>) k = (if k = j then d else file_of (sp\<lparr>files := fs\<rparr>) k)"
  by (simp add: file_of_def)

lemma size_of_update: "size_of (sp\<lparr>sizes := od_set j n ss\<rparr>) k = (if k = j then n else size_of (sp\<lparr>sizes := ss\<rparr>) k)"
  by (simp add: size_of_def)

lemma keys_of_od_set: "fst ` set (od_set k v xs) = insert k (fst ` set xs)"
  by (simp add: dom_map_of_conv_image_fst [symmetric])

lemma open_segment_fields:
  assumes "map_of (sizes sp) seg = None" "map_of (files sp) seg = None"
  shows "file_of (open_segment seg sp) k = file_of sp k" "size_of (open_segment seg sp) k = size_of sp k"
    "map_of (sizes (open_segment seg sp)) = (map_of (sizes sp))(seg \<mapsto> 0)"
    "map_of (files (open_segment seg sp)) = (map_of (files sp))(seg \<mapsto> [])"
    "fst ` set (sizes (open_segment seg sp)) = insert seg (fst ` set (sizes sp))"
    "active (open_segment seg sp) = seg" "total_bytes (open_segment seg sp) = total_bytes sp"
    "distinct (map fst (sizes sp)) \<Longrightarrow> distinct (map fst (sizes (open_segment seg sp)))"
    "distinct (map fst (files sp)) \<Longrightarrow> distinct (map fst (files (open_segment seg sp)))"
    "max_bytes (open_segment seg sp) = max_bytes sp"
  using assms by (simp_all add: open_segment_def file_of_def size_of_def keys_of_od_set)

lemma open_segment_ok:
  assumes ok: "spool_ok sp bs" and seg: "active sp < seg"
  shows "spool_ok (open_segment seg sp) bs"
proof -
  have new: "seg \<notin> fst ` set (sizes sp)" using assms by (auto simp: spool_ok_def)
  then have m: "map_of (sizes sp) seg = None" by (simp add: map_of_eq_None_iff)
  then have n: "map_of (files sp) seg = None" using ok by (auto simp: spool_ok_def)
  have "size_of sp seg = 0" using m by (simp add: size_of_def)
  moreover have "\<forall>k \<in> fst ` set (sizes sp). k \<le> seg" using ok seg by (auto simp: spool_ok_def)
  ultimately show ?thesis
    using ok new unfolding spool_ok_def by (simp add: open_segment_fields [OF m n])
qed

lemma write_record_fields:
  "file_of (write_record rec sp) k = (if k = active sp then file_of sp k @ rec else file_of sp k)"
  "size_of (write_record rec sp) k = (if k = active sp then size_of sp k + length rec else size_of sp k)"
  "map_of (sizes (write_record rec sp)) = (map_of (sizes sp))(active sp \<mapsto> size_of sp (active sp) + length rec)"
  "map_of (files (write_record rec sp)) = (map_of (files sp))(active sp \<mapsto> file_of sp (active sp) @ rec)"
  "fst ` set (sizes (write_record rec sp)) = insert (active sp) (fst ` set (sizes sp))"
  "active (write_record rec sp) = active sp" "total_bytes (write_record rec sp) = total_bytes sp + length rec"
  "distinct (map fst (sizes sp)) \<Longrightarrow> distinct (map fst (sizes (write_record rec sp)))"
  "distinct (map fst (files sp)) \<Longrightarrow> distinct (map fst (files (write_record rec sp)))"
  by (simp_all add: write_record_def Let_def file_of_def size_of_def keys_of_od_set)

lemma write_record_ok:
  assumes ok: "spool_ok sp bs" and b: "body_wf b"
  shows "spool_ok (write_record (record_of b) sp) (bs(active sp := bs (active sp) @ [b]))"
proof -
  let ?K = "fst ` set (sizes sp)" and ?a = "active sp"
  have a: "?a \<in> ?K" using ok by (simp add: spool_ok_def)
  have "size_of sp ?a + length (record_of b) = length (file_of sp ?a @ record_of b)"
    using spool_ok_size(1) [OF ok, of ?a] ok by (simp add: spool_ok_def)
  moreover have "(\<Sum>k \<in> ?K. if k = ?a then size_of sp k + length (record_of b) else size_of sp k)
      = (\<Sum>k \<in> ?K. size_of sp k) + length (record_of b)"
    using a by (simp add: sum.remove)
  ultimately show ?thesis
    using ok b a unfolding spool_ok_def by (simp add: write_record_fields insert_absorb)
qed

lemma append_record_ok [state_inv]:
  assumes ok: "spool_ok sp bs" and b: "body_wf b" and r: "append_record sp (record_of b) = (ok', sp')"
  shows "if ok' then spool_ok sp' (bs(active sp' := bs (active sp') @ [b])) else sp' = sp"
proof (cases "total_bytes sp + length (record_of b) > max_bytes sp")
  case False
  define sp1 where "sp1 = (if size_of sp (active sp) > 0 \<and> size_of sp (active sp) + length (record_of b) > segment_bytes sp
      then open_segment (active sp + 1) sp else sp)"
  have "spool_ok sp1 bs" using ok open_segment_ok [OF ok] by (simp add: sp1_def)
  from write_record_ok [OF this b] show ?thesis
    using r False by (auto simp: append_record_def sp1_def write_record_fields)
qed (use r in \<open>simp add: append_record_def\<close>)

section \<open>Reading between positions\<close>

text \<open>The bodies of segment \<open>k\<close> that lie before the limit \<open>(ls, lo)\<close>, and the later segments' ones.\<close>

definition cut_at :: "(nat \<Rightarrow> bytes list) \<Rightarrow> nat \<Rightarrow> bytes list \<Rightarrow> nat \<Rightarrow> bytes list" where
  "cut_at bs ls cs k = (if k < ls then bs k else if k = ls then cs else [])"

definition seg_log :: "(nat \<Rightarrow> bytes list) \<Rightarrow> nat list \<Rightarrow> entry list" where
  "seg_log bs ks = concat (map (\<lambda>k. seg_entries k 0 (bs k)) ks)"

lemma sorted_later:
  assumes "distinct (map fst (sizes sp))" "later_segs sp seg \<noteq> []"
  defines "m \<equiv> Min (set (later_segs sp seg))"
  shows "sort (later_segs sp seg) = m # sort (later_segs sp m)" "m \<in> set (later_segs sp seg)"
proof -
  have m: "m \<in> set (later_segs sp seg)" unfolding m_def using assms(2) by (intro Min_in) auto
  then show "m \<in> set (later_segs sp seg)" .
  have d: "distinct (later_segs sp seg)" "distinct (later_segs sp m)" using assms(1) by (simp_all add: later_segs_def)
  have s: "set (later_segs sp seg) = insert m (set (later_segs sp m))"
  proof -
    have "\<And>k. k \<in> set (later_segs sp seg) \<Longrightarrow> m \<le> k" by (simp add: m_def)
    then show ?thesis using m by (fastforce simp: later_segs_def)
  qed
  have "sorted (m # sort (later_segs sp m))" by (auto simp: later_segs_def)
  moreover have "distinct (m # sort (later_segs sp m))" using d by (auto simp: later_segs_def)
  ultimately show "sort (later_segs sp seg) = m # sort (later_segs sp m)"
    using d(1) s by (intro sorted_distinct_set_unique) auto
qed

lemma rec_len_pos: "bs \<noteq> [] \<Longrightarrow> 0 < rec_len bs"
  by (cases bs) simp_all

lemma map_of_key: "k \<in> fst ` set xs \<Longrightarrow> \<exists>v. map_of xs k = Some v"
  by (metis map_of_eq_None_iff not_None_eq)

lemma seg_end_readable: "spool_ok sp bs \<Longrightarrow> k \<le> ls \<Longrightarrow> (if k = ls then rec_len cs else size_of sp k) = rec_len (cut_at bs ls cs k)"
  using spool_ok_size(1) by (simp add: cut_at_def)

lemma readable_wf:
  assumes ok: "spool_ok sp bs" and limit: "bs ls = cs @ ds"
  shows "\<forall>b \<in> set (cut_at bs ls cs k). body_wf b"
  using ok limit by (auto simp: spool_ok_def cut_at_def) (metis Un_iff set_append)

lemma file_readable:
  assumes ok: "spool_ok sp bs" and limit: "bs ls = cs @ ds"
  shows "k \<le> ls \<Longrightarrow> \<exists>post. file_of sp k = concat (map record_of (cut_at bs ls cs k)) @ post"
  using ok limit by (auto simp: spool_ok_def cut_at_def)

lemma later_empty_log: "ls \<le> k \<Longrightarrow> seg_log (cut_at bs ls cs) (sort (later_segs sp k)) = []"
  by (auto simp: seg_log_def later_segs_def cut_at_def)

text \<open>Where nothing is left to read in a segment, the loop goes on in the next one.\<close>

lemma read_from_exhausted:
  assumes "seg \<in> fst ` set (sizes sp)" "length out < n" "ls < seg \<or> rec_len (cut_at bs ls cs seg) \<le> off"
    and ok: "spool_ok sp bs"
  shows "read_from sp (ls, rec_len cs) n (seg, off) out =
    (if seg \<ge> ls \<or> later_segs sp seg = [] then Inr out
     else read_from sp (ls, rec_len cs) n (Min (set (later_segs sp seg)), 0) out)"
proof -
  obtain sz where sz: "map_of (sizes sp) seg = Some sz" using map_of_key [OF assms(1)] by blast
  then have "size_of sp seg = sz" by (simp add: size_of_def)
  then have "seg \<le> ls \<Longrightarrow> (if seg = ls then rec_len cs else sz) = rec_len (cut_at bs ls cs seg)"
    using seg_end_readable [OF ok, of seg ls cs] by (simp split: if_splits)
  then show ?thesis using assms sz by (subst read_from.simps) (auto simp: Let_def cut_at_def)
qed

lemma read_from_reads:
  assumes "length out < n" "pos_less (seg, off) limit" "map_of (sizes sp) seg = Some sz"
    and "(if seg = fst limit then snd limit else sz) = e" "off < e"
    and "read_seg (file_of sp seg) seg e (n - length out) off = Inr (xs, off')"
  shows "read_from sp limit n (seg, off) out = read_from sp limit n (seg, off') (out @ xs)"
  using assms by (subst read_from.simps) (auto simp: Let_def not_le split: if_splits)

lemma read_from_log:
  assumes ok: "spool_ok sp bs" and limit: "bs ls = cs @ ds"
    and "seg \<in> fst ` set (sizes sp)" "length out \<le> n"
    and "cut_at bs ls cs seg = b1 @ r \<and> off = rec_len b1 \<or> r = [] \<and> rec_len (cut_at bs ls cs seg) \<le> off"
  shows "read_from sp (ls, rec_len cs) n (seg, off) out
    = Inr (take n (out @ seg_entries seg off r @ seg_log (cut_at bs ls cs) (sort (later_segs sp seg))))"
  using assms(3-5)
proof (induction "length (later_segs sp seg)" arbitrary: seg out b1 r off rule: less_induct)
  case less
  have dist: "distinct (map fst (sizes sp))" using ok by (simp add: spool_ok_def)
  have next_seg: "later_segs sp seg \<noteq> [] \<Longrightarrow> length out' \<le> n \<Longrightarrow>
      read_from sp (ls, rec_len cs) n (Min (set (later_segs sp seg)), 0) out'
      = Inr (take n (out' @ seg_log (cut_at bs ls cs) (sort (later_segs sp seg))))" for out'
  proof -
    assume ne: "later_segs sp seg \<noteq> []" and l: "length out' \<le> n"
    let ?m = "Min (set (later_segs sp seg))"
    note m = sorted_later [OF dist ne]
    have "?m \<in> fst ` set (sizes sp)" using m(2) by (auto simp: later_segs_def)
    from less.hyps [OF later_segs_next [OF ne] this l, of "[]" "cut_at bs ls cs ?m" 0]
    show ?thesis using m(1) by (simp add: seg_log_def)
  qed
  have rest: "read_from sp (ls, rec_len cs) n (seg, off') out' = Inr (take n (out' @ seg_log (cut_at bs ls cs) (sort (later_segs sp seg))))"
    if "length out' \<le> n" "ls < seg \<or> rec_len (cut_at bs ls cs seg) \<le> off'" for off' out'
  proof (cases "length out' = n")
    case True
    then show ?thesis by (subst read_from.simps) simp
  next
    case False
    show ?thesis
    proof (cases "seg \<ge> ls \<or> later_segs sp seg = []")
      case True
      then have "seg_log (cut_at bs ls cs) (sort (later_segs sp seg)) = []"
        using later_empty_log by (auto simp: seg_log_def)
      then show ?thesis
        using read_from_exhausted [OF less.prems(1) _ that(2) ok, of out' n] that(1) True False by simp
    next
      case False': False
      then show ?thesis
        using read_from_exhausted [OF less.prems(1) _ that(2) ok, of out' n] that(1) False next_seg by simp
    qed
  qed
  show ?case
  proof (cases "r = [] \<or> length out = n")
    case True
    then show ?thesis
    proof
      assume "r = []"
      then have "rec_len (cut_at bs ls cs seg) \<le> off" using less.prems(3) by auto
      then show ?thesis using rest [OF less.prems(2)] \<open>r = []\<close> by simp
    next
      assume "length out = n"
      then show ?thesis by (subst read_from.simps) simp
    qed
  next
    case False
    then have r: "cut_at bs ls cs seg = b1 @ r" "off = rec_len b1" "r \<noteq> []" "length out < n"
      using less.prems(2,3) by auto
    have le: "seg \<le> ls" using r by (auto simp: cut_at_def split: if_splits)
    have e: "(if seg = ls then rec_len cs else size_of sp seg) = off + rec_len r"
      using seg_end_readable [OF ok le] r by simp
    obtain post where post: "file_of sp seg = concat (map record_of b1) @ concat (map record_of r) @ post"
      using file_readable [OF ok limit le] r(1) by auto
    have "\<forall>b \<in> set r. body_wf b" using readable_wf [OF ok limit, of seg] r(1) by auto
    from read_seg_records [OF this, of "concat (map record_of b1)" post seg "n - length out"]
    have rd: "read_seg (file_of sp seg) seg (off + rec_len r) (n - length out) off
        = Inr (take (n - length out) (seg_entries seg off r), off + rec_len (take (n - length out) r))"
      using post r(2) by simp
    obtain sz where sz: "map_of (sizes sp) seg = Some sz"
      using map_of_key [OF less.prems(1)] by blast
    then have e': "(if seg = ls then rec_len cs else sz) = off + rec_len r" using e by (auto simp: size_of_def split: if_splits)
    have "pos_less (seg, off) (ls, rec_len cs)"
      using le e rec_len_pos [OF r(3)] by auto
    then have step: "read_from sp (ls, rec_len cs) n (seg, off) out
        = read_from sp (ls, rec_len cs) n (seg, off + rec_len (take (n - length out) r)) (out @ take (n - length out) (seg_entries seg off r))"
      using rec_len_pos [OF r(3)] e' by (intro read_from_reads [OF r(4) _ sz _ _ rd]) auto
    show ?thesis
    proof (cases "length r \<le> n - length out")
      case True
      then show ?thesis
        using step rest [of "out @ seg_entries seg off r" "off + rec_len r"] r by simp
    next
      case False
      then have "length (out @ take (n - length out) (seg_entries seg off r)) = n" using r(4) by simp
      then show ?thesis using False unfolding step by (subst read_from.simps) simp
    qed
  qed
qed

section \<open>The log\<close>

definition spool_log :: "spool \<Rightarrow> (nat \<Rightarrow> bytes list) \<Rightarrow> entry list" where
  "spool_log sp bs = seg_log bs (sort (map fst (sizes sp)))"

lemma sort_split:
  fixes ks :: "nat list"
  assumes "distinct ks" "s \<in> set ks"
  shows "sort ks = sort (filter (\<lambda>k. k < s) ks) @ s # sort (filter (\<lambda>k. k > s) ks)"
proof (rule sorted_distinct_set_unique)
  show "sorted (sort (filter (\<lambda>k. k < s) ks) @ s # sort (filter (\<lambda>k. k > s) ks))"
    by (auto simp: sorted_append)
qed (use assms in auto)

lemma seg_entries_start:
  "\<forall>b \<in> set bs. body_wf b \<Longrightarrow> x \<in> set (seg_entries k off bs) \<Longrightarrow>
    \<exists>o'. e_start x = (k, o') \<and> off \<le> o' \<and> o' < off + rec_len bs"
proof (induction bs arbitrary: off)
  case (Cons b bs)
  show ?case
  proof (cases "x = entry_at b (k, off) (k, off + 8 + length b)")
    case True
    then show ?thesis using entry_at(2) [of b] Cons.prems by auto
  next
    case False
    then have "x \<in> set (seg_entries k (off + 8 + length b) bs)" using Cons.prems(2) by auto
    then show ?thesis using Cons.IH [of "off + 8 + length b"] Cons.prems(1) by auto
  qed
qed simp

lemma filter_all: "(\<And>x. x \<in> set xs \<Longrightarrow> P x) \<Longrightarrow> filter P xs = xs"
  by (simp add: filter_id_conv)

lemma filter_none: "(\<And>x. x \<in> set xs \<Longrightarrow> \<not> P x) \<Longrightarrow> filter P xs = []"
  by (simp add: filter_empty_conv)

definition between :: "position \<Rightarrow> position \<Rightarrow> entry \<Rightarrow> bool" where
  "between p q x = (\<not> pos_less (e_start x) p \<and> pos_less (e_start x) q)"

lemma filter_before:
  assumes "\<forall>b \<in> set (cs @ ds). body_wf b" "seg < k"
  shows "filter (between (seg, off) (k, rec_len cs)) (seg_entries k 0 (cs @ ds)) = seg_entries k 0 cs"
proof -
  have "filter (between (seg, off) (k, rec_len cs)) (seg_entries k 0 cs) = seg_entries k 0 cs"
    using seg_entries_start [of cs _ k 0] assms by (intro filter_all) (fastforce simp: between_def)
  moreover have "filter (between (seg, off) (k, rec_len cs)) (seg_entries k (rec_len cs) ds) = []"
    using seg_entries_start [of ds _ k "rec_len cs"] assms by (intro filter_none) (fastforce simp: between_def)
  ultimately show ?thesis by (simp add: seg_entries_append)
qed

lemma filter_other:
  assumes "\<forall>b \<in> set bs. body_wf b" "k \<noteq> ls" "seg < k"
  shows "filter (between (seg, off) (ls, lo)) (seg_entries k 0 bs) = (if k < ls then seg_entries k 0 bs else [])"
  using seg_entries_start [OF assms(1), of _ k 0] assms(2,3)
  by (cases "k < ls") (fastforce simp: between_def intro!: filter_all filter_none)+

lemma filter_first:
  assumes "\<forall>b \<in> set (b1 @ b2). body_wf b" "seg < ls"
  shows "filter (between (seg, rec_len b1) (ls, lo)) (seg_entries seg 0 (b1 @ b2)) = seg_entries seg (rec_len b1) b2"
proof -
  have "filter (between (seg, rec_len b1) (ls, lo)) (seg_entries seg 0 b1) = []"
    using seg_entries_start [of b1 _ seg 0] assms by (intro filter_none) (fastforce simp: between_def)
  moreover have "filter (between (seg, rec_len b1) (ls, lo)) (seg_entries seg (rec_len b1) b2) = seg_entries seg (rec_len b1) b2"
    using seg_entries_start [of b2 _ seg "rec_len b1"] assms by (intro filter_all) (fastforce simp: between_def)
  ultimately show ?thesis by (simp add: seg_entries_append)
qed

lemma filter_same:
  assumes "\<forall>b \<in> set (b1 @ r @ ds). body_wf b"
  shows "filter (between (seg, rec_len b1) (seg, rec_len (b1 @ r))) (seg_entries seg 0 (b1 @ r @ ds)) = seg_entries seg (rec_len b1) r"
proof -
  let ?P = "between (seg, rec_len b1) (seg, rec_len (b1 @ r))"
  have "filter ?P (seg_entries seg 0 b1) = []"
    using seg_entries_start [of b1 _ seg 0] assms by (intro filter_none) (fastforce simp: between_def)
  moreover have "filter ?P (seg_entries seg (rec_len b1) r) = seg_entries seg (rec_len b1) r"
    using seg_entries_start [of r _ seg "rec_len b1"] assms by (intro filter_all) (fastforce simp: between_def)
  moreover have "filter ?P (seg_entries seg (rec_len (b1 @ r)) ds) = []"
    using seg_entries_start [of ds _ seg "rec_len (b1 @ r)"] assms by (intro filter_none) (fastforce simp: between_def)
  ultimately show ?thesis by (simp add: seg_entries_append)
qed

lemma filter_seg_log: "filter P (seg_log bs ks) = concat (map (\<lambda>k. filter P (seg_entries k 0 (bs k))) ks)"
  by (simp add: seg_log_def filter_concat comp_def)

lemma pos_less_mono: "pos_less p (s, a) \<Longrightarrow> a \<le> b \<Longrightarrow> pos_less p (s, b)"
  by (cases p) auto

text \<open>What the loop reads in the first segment.\<close>

lemma first_part:
  assumes wf: "\<forall>k. \<forall>b \<in> set (bs k). body_wf b" and b: "bs seg = b1 @ b2" and c: "bs ls = cs @ ds"
  shows "\<exists>r. filter (between (seg, rec_len b1) (ls, rec_len cs)) (seg_entries seg 0 (bs seg)) = seg_entries seg (rec_len b1) r
    \<and> (cut_at bs ls cs seg = b1 @ r \<or> r = [] \<and> rec_len (cut_at bs ls cs seg) \<le> rec_len b1)"
proof -
  have w: "\<forall>b \<in> set (b1 @ b2). body_wf b" using wf b by metis
  consider "seg < ls" | "seg > ls" | (eq) "seg = ls" by linarith
  then show ?thesis
  proof cases
    case 1
    then show ?thesis using filter_first [OF w] b by (intro exI [of _ b2]) (simp add: cut_at_def)
  next
    case 2
    have "filter (between (seg, rec_len b1) (ls, rec_len cs)) (seg_entries seg 0 (bs seg)) = []"
      using seg_entries_start [of "bs seg" _ seg 0] wf 2 by (intro filter_none) (fastforce simp: between_def)
    then show ?thesis using 2 by (intro exI [of _ "[]"]) (simp add: cut_at_def)
  next
    case eq
    then have "b1 @ b2 = cs @ ds" using b c by simp
    then obtain us where "b1 = cs @ us \<and> us @ b2 = ds \<or> b1 @ us = cs \<and> b2 = us @ ds"
      by (auto simp: append_eq_append_conv2)
    then show ?thesis
    proof
      assume u: "b1 = cs @ us \<and> us @ b2 = ds"
      have "filter (between (seg, rec_len b1) (ls, rec_len cs)) (seg_entries seg 0 (bs seg)) = []"
        unfolding between_def eq using u by (intro filter_none) (use pos_less_mono in fastforce)
      then show ?thesis using eq u by (intro exI [of _ "[]"]) (simp add: cut_at_def)
    next
      assume u: "b1 @ us = cs \<and> b2 = us @ ds"
      then have "filter (between (seg, rec_len b1) (ls, rec_len cs)) (seg_entries seg 0 (bs seg)) = seg_entries seg (rec_len b1) us"
        using filter_same [of b1 us ds seg] w eq b by simp
      then show ?thesis using eq u by (intro exI [of _ us]) (simp add: cut_at_def)
    qed
  qed
qed

lemma spool_read_log:
  assumes ok: "spool_ok sp bs" and seg: "seg \<in> fst ` set (sizes sp)" and b: "bs seg = b1 @ b2" and c: "bs ls = cs @ ds"
  shows "spool_read sp (seg, rec_len b1) (ls, rec_len cs) n
    = Inr (take n (filter (between (seg, rec_len b1) (ls, rec_len cs)) (spool_log sp bs)))"
proof -
  let ?P = "between (seg, rec_len b1) (ls, rec_len cs)" and ?ks = "map fst (sizes sp)"
  have wf: "\<forall>k. \<forall>b \<in> set (bs k). body_wf b" using ok by (simp add: spool_ok_def)
  obtain r where r: "filter ?P (seg_entries seg 0 (bs seg)) = seg_entries seg (rec_len b1) r"
    "cut_at bs ls cs seg = b1 @ r \<or> r = [] \<and> rec_len (cut_at bs ls cs seg) \<le> rec_len b1"
    using first_part [of bs, OF wf b c] by blast
  have wfc: "\<forall>b \<in> set (cs @ ds). body_wf b" using wf c by metis
  have "filter ?P (seg_entries k 0 (bs k)) = seg_entries k 0 (cut_at bs ls cs k)" if "seg < k" for k
    using filter_before [OF wfc] filter_other [of "bs k" k ls seg] wf c that
    by (cases "k = ls") (auto simp: cut_at_def)
  then have above: "concat (map (\<lambda>k. filter ?P (seg_entries k 0 (bs k))) (sort (later_segs sp seg)))
      = seg_log (cut_at bs ls cs) (sort (later_segs sp seg))"
    unfolding seg_log_def by (intro arg_cong [where f = concat] map_cong) (auto simp: later_segs_def)
  have "filter ?P (seg_entries k 0 (bs k)) = []" if "k < seg" for k
    using seg_entries_start [of "bs k" _ k 0] wf that by (intro filter_none) (fastforce simp: between_def)
  then have below: "concat (map (\<lambda>k. filter ?P (seg_entries k 0 (bs k))) (sort (filter (\<lambda>k. k < seg) ?ks))) = []"
    by simp
  have "sort ?ks = sort (filter (\<lambda>k. k < seg) ?ks) @ seg # sort (later_segs sp seg)"
    using sort_split [of ?ks seg] ok seg by (simp add: spool_ok_def later_segs_def)
  then have "filter ?P (spool_log sp bs) = seg_entries seg (rec_len b1) r @ seg_log (cut_at bs ls cs) (sort (later_segs sp seg))"
    using above below r(1) by (simp add: spool_log_def filter_seg_log)
  then show ?thesis
    using read_from_log [OF ok c seg, of "[]" n b1 r "rec_len b1"] r(2) by (auto simp: spool_read_def)
qed

section \<open>Appending extends the log\<close>

lemma log_active_last:
  assumes "spool_ok sp bs"
  shows "spool_log sp bs = seg_log bs (sort (filter (\<lambda>k. k < active sp) (map fst (sizes sp)))) @ seg_entries (active sp) 0 (bs (active sp))"
proof -
  have "filter (\<lambda>k. k > active sp) (map fst (sizes sp)) = []"
    using assms by (intro filter_none) (auto simp: spool_ok_def)
  then show ?thesis
    using sort_split [of "map fst (sizes sp)" "active sp"] assms by (simp add: spool_log_def spool_ok_def seg_log_def)
qed

lemma seg_log_cong: "(\<And>k. k \<in> set ks \<Longrightarrow> bs k = bs' k) \<Longrightarrow> seg_log bs ks = seg_log bs' ks"
  unfolding seg_log_def by (intro arg_cong [where f = concat] map_cong) auto

lemma write_record_log:
  assumes ok: "spool_ok sp bs" and b: "body_wf b"
  shows "spool_log (write_record (record_of b) sp) (bs(active sp := bs (active sp) @ [b]))
    = spool_log sp bs @ [entry_at b (spool_end sp) (spool_end (write_record (record_of b) sp))]"
proof -
  let ?sp' = "write_record (record_of b) sp" and ?a = "active sp"
  have a: "?a \<in> fst ` set (sizes sp)" using ok by (simp add: spool_ok_def)
  have keys: "map fst (sizes ?sp') = map fst (sizes sp)"
    using a by (simp add: write_record_def Let_def keys_od_set)
  have low: "seg_log (bs(?a := bs ?a @ [b])) (sort (filter (\<lambda>k. k < ?a) (map fst (sizes sp))))
      = seg_log bs (sort (filter (\<lambda>k. k < ?a) (map fst (sizes sp))))"
    by (rule seg_log_cong) auto
  have "spool_end sp = (?a, rec_len (bs ?a))" "spool_end ?sp' = (?a, rec_len (bs ?a) + 8 + length b)"
    using spool_ok_size(1) [OF ok, of ?a] by (simp_all add: spool_end_def write_record_fields)
  then show ?thesis
    using log_active_last [OF write_record_ok [OF ok b]] log_active_last [OF ok] low
    by (simp add: keys write_record_fields seg_entries_append)
qed

lemma open_segment_log:
  assumes ok: "spool_ok sp bs"
  shows "spool_log (open_segment (Suc (active sp)) sp) bs = spool_log sp bs"
proof -
  let ?seg = "Suc (active sp)"
  have new: "?seg \<notin> fst ` set (sizes sp)" using ok by (auto simp: spool_ok_def)
  then have m: "map_of (sizes sp) ?seg = None" by (simp add: map_of_eq_None_iff)
  have keys: "map fst (sizes (open_segment ?seg sp)) = map fst (sizes sp) @ [?seg]"
    using m new by (simp add: open_segment_def od_set_new)
  have "filter (\<lambda>k. k < ?seg) (map fst (sizes sp)) = map fst (sizes sp)"
    using ok by (intro filter_all) (auto simp: spool_ok_def)
  then show ?thesis
    using log_active_last [OF open_segment_ok [OF ok lessI]] spool_ok_size(2) [OF ok new]
    unfolding keys spool_log_def by (simp add: open_segment_def)
qed

definition append_target :: "spool \<Rightarrow> nat \<Rightarrow> spool" where
  "append_target sp n = (if size_of sp (active sp) > 0 \<and> size_of sp (active sp) + n > segment_bytes sp
     then open_segment (active sp + 1) sp else sp)"

lemma append_target_ok:
  assumes "spool_ok sp bs"
  shows "spool_ok (append_target sp n) bs" "spool_log (append_target sp n) bs = spool_log sp bs"
    "total_bytes (append_target sp n) = total_bytes sp" "max_bytes (append_target sp n) = max_bytes sp"
  using open_segment_ok [OF assms, of "Suc (active sp)"] open_segment_log [OF assms] assms
  by (auto simp: append_target_def open_segment_def)

lemma append_record_log:
  assumes ok: "spool_ok sp bs" and b: "body_wf b" and r: "append_record sp (record_of b) = (True, sp')"
  shows "spool_ok sp' (bs(active sp' := bs (active sp') @ [b]))"
    "\<exists>s. spool_log sp' (bs(active sp' := bs (active sp') @ [b])) = spool_log sp bs @ [entry_at b s (spool_end sp')]"
    "total_bytes sp' = total_bytes sp + length (record_of b)" "total_bytes sp' \<le> max_bytes sp'" "max_bytes sp' = max_bytes sp"
proof -
  let ?t = "append_target sp (length (record_of b))"
  note t = append_target_ok [OF ok, of "length (record_of b)"]
  have sp': "sp' = write_record (record_of b) ?t" and lim: "\<not> total_bytes sp + length (record_of b) > max_bytes sp"
    using r by (auto simp: append_record_def append_target_def split: if_splits)
  have act: "active sp' = active ?t" by (simp add: sp' write_record_fields)
  show "spool_ok sp' (bs(active sp' := bs (active sp') @ [b]))"
    using write_record_ok [OF t(1) b] unfolding sp' write_record_fields(6) .
  show "\<exists>s. spool_log sp' (bs(active sp' := bs (active sp') @ [b])) = spool_log sp bs @ [entry_at b s (spool_end sp')]"
    using write_record_log [OF t(1) b] t(2) unfolding sp' write_record_fields(6)
    by (intro exI [of _ "spool_end ?t"]) simp
  show "total_bytes sp' = total_bytes sp + length (record_of b)" using t(3) by (simp add: sp' write_record_fields)
  show "max_bytes sp' = max_bytes sp" using t(4) by (simp add: sp' write_record_def Let_def)
  then show "total_bytes sp' \<le> max_bytes sp'"
    using lim \<open>total_bytes sp' = _\<close> by simp
qed

section \<open>Release\<close>

lemma release_loop_fields:
  fixes a :: nat
  assumes "distinct (map fst (sizes sp))" "distinct (map fst (files sp))" "distinct ks"
    and "\<And>k. map_of (sizes sp) k = map_option length (map_of (files sp) k)"
    and "set ks \<subseteq> fst ` set (sizes sp)" "total_bytes sp = (\<Sum>k \<in> fst ` set (sizes sp). size_of sp k)"
  defines "D \<equiv> set (takeWhile (\<lambda>k. \<not> (k \<ge> a \<or> k = active sp)) ks)"
  shows "let sp' = release_loop a ks sp in distinct (map fst (sizes sp')) \<and> distinct (map fst (files sp'))
    \<and> (\<forall>k. map_of (sizes sp') k = (if k \<in> D then None else map_of (sizes sp) k))
    \<and> (\<forall>k. map_of (files sp') k = (if k \<in> D then None else map_of (files sp) k))
    \<and> total_bytes sp' = (\<Sum>k \<in> fst ` set (sizes sp'). size_of sp' k) \<and> active sp' = active sp
    \<and> map fst (sizes sp') = filter (\<lambda>k. k \<notin> D) (map fst (sizes sp))"
  using assms(1-6) unfolding D_def
proof (induction ks arbitrary: sp)
  case Nil
  then show ?case by simp
next
  case (Cons k ks)
  show ?case
  proof (cases "k \<ge> a \<or> k = active sp")
    case True
    then have tw: "takeWhile (\<lambda>k. \<not> (k \<ge> a \<or> k = active sp)) (k # ks) = []" by auto
    show ?thesis unfolding tw using Cons.prems True by simp
  next
    case False
    define sp1 where "sp1 = sp\<lparr>total_bytes := total_bytes sp - size_of sp k, sizes := od_del k (sizes sp), files := od_del k (files sp)\<rparr>"
    have k: "k \<in> fst ` set (sizes sp)" using Cons.prems(5) by simp
    have keys: "fst ` set (sizes sp1) = fst ` set (sizes sp) - {k}" by (auto simp: sp1_def set_od_del)
    have "size_of sp1 j = size_of sp j" if "j \<noteq> k" for j using that by (simp add: sp1_def size_of_def)
    then have "total_bytes sp1 = (\<Sum>k \<in> fst ` set (sizes sp1). size_of sp1 k)"
      using Cons.prems(6) k by (simp add: keys sum.remove [of _ k]) (simp add: sp1_def)
    moreover have "set ks \<subseteq> fst ` set (sizes sp1)" using Cons.prems(3,5) by (auto simp: keys)
    moreover have "map_of (sizes sp1) j = map_option length (map_of (files sp1) j)" for j
      using Cons.prems(4) by (simp add: sp1_def)
    moreover have "distinct (map fst (sizes sp1))" "distinct (map fst (files sp1))" "active sp1 = active sp"
      using Cons.prems(1,2) by (simp_all add: sp1_def)
    moreover have "map_of (sizes sp1) = (map_of (sizes sp))(k := None)" "map_of (files sp1) = (map_of (files sp))(k := None)"
      "map fst (sizes sp1) = filter (\<lambda>j. j \<noteq> k) (map fst (sizes sp))"
      by (simp_all add: sp1_def keys_od_del)
    moreover have "release_loop a (k # ks) sp = release_loop a ks sp1" using False by (simp add: sp1_def)
    ultimately show ?thesis
      using Cons.IH [of sp1] Cons.prems(1,3) False by (simp add: Let_def conj_commute)
  qed
qed

lemma takeWhile_sorted: "set (takeWhile (\<lambda>k. k < m) (sort ks)) = {k \<in> set ks. k < (m :: nat)}"
proof -
  have "sorted xs \<Longrightarrow> set (takeWhile (\<lambda>k. k < m) xs) = {k \<in> set xs. k < m}" for xs :: "nat list"
    by (induction xs) force+
  from this [of "sort ks"] show ?thesis by simp
qed

lemma release_spec:
  fixes acked :: position
  assumes ok: "spool_ok sp bs"
  defines "m \<equiv> min (fst acked) (active sp)"
  shows "spool_ok (release sp acked) (\<lambda>k. if k < m then [] else bs k)"
    "map fst (sizes (release sp acked)) = filter (\<lambda>k. \<not> k < m) (map fst (sizes sp))"
    "active (release sp acked) = active sp"
proof -
  let ?sp' = "release sp acked" and ?K = "map fst (sizes sp)"
  have f: "distinct ?K" "distinct (map fst (files sp))" "\<And>k. map_of (sizes sp) k = map_option length (map_of (files sp) k)"
    "total_bytes sp = (\<Sum>k \<in> fst ` set (sizes sp). size_of sp k)" "\<forall>k \<in> set ?K. k \<le> active sp" "active sp \<in> set ?K"
    using ok by (auto simp: spool_ok_def)
  have "takeWhile (\<lambda>k. \<not> (k \<ge> fst acked \<or> k = active sp)) (sort ?K) = takeWhile (\<lambda>k. k < m) (sort ?K)"
    using f(5) by (intro takeWhile_cong) (auto simp: m_def)
  then have D: "set (takeWhile (\<lambda>k. \<not> (k \<ge> fst acked \<or> k = active sp)) (sort ?K)) = {k \<in> set ?K. k < m}"
    by (simp add: takeWhile_sorted)
  have r: "distinct (map fst (sizes ?sp')) \<and> distinct (map fst (files ?sp'))
    \<and> (\<forall>k. map_of (sizes ?sp') k = (if k \<in> {k \<in> set ?K. k < m} then None else map_of (sizes sp) k))
    \<and> (\<forall>k. map_of (files ?sp') k = (if k \<in> {k \<in> set ?K. k < m} then None else map_of (files sp) k))
    \<and> total_bytes ?sp' = (\<Sum>k \<in> fst ` set (sizes ?sp'). size_of ?sp' k) \<and> active ?sp' = active sp
    \<and> map fst (sizes ?sp') = filter (\<lambda>k. k \<notin> {k \<in> set ?K. k < m}) ?K"
    using release_loop_fields [OF f(1,2) _ f(3) _ f(4), of "sort ?K" "fst acked"] f(1) D
    by (simp add: release_def Let_def)
  then show keys: "map fst (sizes ?sp') = filter (\<lambda>k. \<not> k < m) ?K" and "active ?sp' = active sp"
    by (auto intro: filter_cong)
  have gone: "map_of (files sp) k = None" if "k \<notin> set ?K" for k
    using f(3) [of k] that by (metis map_of_eq_None_iff option.map_disc_iff set_map)
  have ks: "fst ` set (sizes ?sp') = {k \<in> set ?K. \<not> k < m}"
    using arg_cong [OF keys, of set] by auto
  have "file_of ?sp' k = (if k < m then [] else file_of sp k)" for k
    using r gone [of k] by (auto simp: file_of_def)
  moreover have "map_of (sizes ?sp') k = map_option length (map_of (files ?sp') k)" for k using r f(3) by auto
  moreover have "active sp \<in> fst ` set (sizes ?sp')" "\<forall>k \<in> set (sizes ?sp'). fst k \<le> active sp"
  proof -
    show "active sp \<in> fst ` set (sizes ?sp')" unfolding ks using f(6) by (simp add: m_def)
    have "fst k \<in> {k \<in> set ?K. \<not> k < m}" if "k \<in> set (sizes ?sp')" for k using that ks by blast
    then show "\<forall>k \<in> set (sizes ?sp'). fst k \<le> active sp" using f(5) by blast
  qed
  ultimately show "spool_ok ?sp' (\<lambda>k. if k < m then [] else bs k)"
    using r f ok by (simp add: spool_ok_def)
qed

section \<open>Opening after a crash\<close>

lemma sum_list_sizes:
  fixes xs :: "(nat \<times> nat) list"
  shows "distinct (map fst xs) \<Longrightarrow> sum_list (map snd xs) = (\<Sum>k \<in> fst ` set xs. case map_of xs k of None \<Rightarrow> 0 | Some n \<Rightarrow> n)"
proof (induction xs)
  case (Cons x xs)
  have "(\<Sum>k \<in> fst ` set xs. case map_of (x # xs) k of None \<Rightarrow> 0 | Some n \<Rightarrow> n)
      = (\<Sum>k \<in> fst ` set xs. case map_of xs k of None \<Rightarrow> 0 | Some n \<Rightarrow> n)"
  proof (intro sum.cong refl)
    fix k assume k: "k \<in> fst ` set xs"
    have "fst x \<notin> fst ` set xs" using Cons.prems by simp
    then have "k \<noteq> fst x" using k by metis
    then show "(case map_of (x # xs) k of None \<Rightarrow> 0 | Some n \<Rightarrow> n) = (case map_of xs k of None \<Rightarrow> 0 | Some n \<Rightarrow> n)"
      by (cases x) simp
  qed
  then show ?case using Cons by (cases x) simp
qed simp

lemma open_spool_ok:
  assumes fs: "distinct (map fst fs)" "fs \<noteq> []" and a: "a \<in> fst ` set fs" "\<forall>k \<in> fst ` set fs. k \<le> a"
    and wf: "\<And>k. k \<noteq> a \<Longrightarrow> (case map_of fs k of None \<Rightarrow> [] | Some d \<Rightarrow> d) = concat (map record_of (bs k))"
      "\<forall>k. \<forall>b \<in> set (bs k). body_wf b"
    and tail: "map_of fs a = Some (concat (map record_of (bs a)) @ t)" "torn t"
  shows "spool_ok (open_spool fs mx sb) bs" "active (open_spool fs mx sb) = a"
    "synced (open_spool fs mx sb) = spool_end (open_spool fs mx sb)"
    "fst ` set (sizes (open_spool fs mx sb)) = fst ` set fs"
proof -
  let ?sp = "open_spool fs mx sb"
  have max: "Max (fst ` set fs) = a" using a by (intro Max_eqI) auto
  have ok: "\<forall>b \<in> set (bs a). body_ok b" using wf(2) by (auto simp: body_wf_def)
  have vp: "valid_prefix (concat (map record_of (bs a)) @ t) = rec_len (bs a)"
    by (rule valid_prefix_records [OF ok tail(2)])
  define fs' where "fs' = (if t \<noteq> [] then od_set a (concat (map record_of (bs a))) fs else fs)"
  define ss where "ss = od_set a (rec_len (bs a)) (map (\<lambda>(k, d). (k, length d)) fs)"
  have sz: "map_of (map (\<lambda>(k, d). (k, length d)) fs) k = map_option length (map_of fs k)" for k
    by (induction fs) auto
  have keys: "map fst ss = map fst fs"
    using a(1) by (force simp: ss_def keys_od_set image_iff case_prod_beta)
  have f: "files ?sp = fs'" "sizes ?sp = ss" "active ?sp = a" "total_bytes ?sp = sum_list (map snd ss)"
    "synced ?sp = (a, size_of ?sp a)"
    using fs(2) tail(1) vp
    by (auto simp: open_spool_def Let_def max file_of_def size_of_def sz fs'_def ss_def)
  show "active ?sp = a" "synced ?sp = spool_end ?sp" using f by (simp_all add: spool_end_def)
  show "fst ` set (sizes ?sp) = fst ` set fs" using keys f by (metis set_map)
  have files: "map_of fs' k = (if k = a then Some (concat (map record_of (bs a))) else map_of fs k)" for k
    using tail(1) by (simp add: fs'_def)
  have sizes: "map_of ss k = map_option length (map_of fs' k)" for k
    by (simp add: files ss_def sz)
  have "total_bytes ?sp = (\<Sum>k \<in> fst ` set ss. size_of ?sp k)"
    using sum_list_sizes [of ss] keys fs(1) f by (simp add: size_of_def)
  moreover have "file_of ?sp k = concat (map record_of (bs k))" for k
    using wf(1) [of k] by (simp add: file_of_def f files)
  moreover have kset: "fst ` set ss = fst ` set fs" using keys by (metis set_map)
  moreover have "distinct (map fst fs')" using fs(1) by (simp add: fs'_def)
  ultimately show "spool_ok ?sp bs"
    using fs(1) a wf(2) keys sizes by (simp add: spool_ok_def f)
qed

lemma crash_reopen:
  assumes ok: "spool_ok sp bs" and c: "bs (active sp) = cs @ ds" and n: "rec_len cs \<le> n"
  defines "fs \<equiv> od_set (active sp) (take n (file_of sp (active sp))) (files sp)"
  shows "\<exists>m. length cs \<le> m \<and> spool_ok (open_spool fs mx sb) (bs(active sp := take m (bs (active sp))))
    \<and> active (open_spool fs mx sb) = active sp \<and> sort (map fst (sizes (open_spool fs mx sb))) = sort (map fst (sizes sp))
    \<and> synced (open_spool fs mx sb) = spool_end (open_spool fs mx sb)"
proof -
  let ?a = "active sp"
  have okb: "\<forall>b \<in> set ds. body_ok b" using ok c by (auto simp: spool_ok_def body_wf_def) (metis Un_iff set_append)
  have f: "file_of sp ?a = concat (map record_of cs) @ concat (map record_of ds)"
    using ok c by (simp add: spool_ok_def)
  obtain j t where jt: "take (n - rec_len cs) (concat (map record_of ds)) = concat (map record_of (take j ds)) @ t" "torn t"
    using take_records [OF okb] by blast
  let ?bs = "bs(?a := cs @ take j ds)"
  have act: "?a \<in> fst ` set (sizes sp)" and sz: "\<And>k. map_of (sizes sp) k = map_option length (map_of (files sp) k)"
    and le: "\<forall>k \<in> fst ` set (sizes sp). k \<le> ?a"
    using ok by (auto simp: spool_ok_def)
  have keys: "fst ` set (sizes sp) = fst ` set (files sp)"
  proof -
    have "dom (map_of (sizes sp)) = dom (map_of (files sp))" by (auto simp: sz dom_def)
    then show ?thesis by (simp add: dom_map_of_conv_image_fst)
  qed
  have mo: "map_of fs k = (if k = ?a then Some (take n (file_of sp ?a)) else map_of (files sp) k)" for k
    by (simp add: fs_def)
  have fsk: "fst ` set fs = insert ?a (fst ` set (files sp))" by (simp add: fs_def keys_of_od_set)
  have pre: "distinct (map fst fs)" "fs \<noteq> []" "?a \<in> fst ` set fs" "\<forall>k \<in> fst ` set fs. k \<le> ?a"
    using ok fsk le keys by (auto simp: fs_def spool_ok_def)
  have low: "(case map_of fs k of None \<Rightarrow> [] | Some d \<Rightarrow> d) = concat (map record_of (?bs k))" if "k \<noteq> ?a" for k
    using ok that by (simp add: mo spool_ok_def file_of_def [symmetric])
  have wf: "\<forall>k. \<forall>b \<in> set (?bs k). body_wf b"
  proof -
    have "\<forall>b \<in> set (cs @ ds). body_wf b" using ok c by (metis spool_ok_def)
    then show ?thesis using ok set_take_subset [of j ds] by (auto simp: spool_ok_def)
  qed
  have tail: "map_of fs ?a = Some (concat (map record_of (?bs ?a)) @ t)"
    using n jt(1) by (simp add: mo f)
  note o = open_spool_ok [where bs = ?bs and mx = mx and sb = sb, OF pre low wf tail jt(2)]
  have "spool_ok (open_spool fs mx sb) ?bs \<and> active (open_spool fs mx sb) = ?a
    \<and> synced (open_spool fs mx sb) = spool_end (open_spool fs mx sb)" using o by blast
  moreover have "cs @ take j ds = take (length cs + j) (bs ?a)" by (simp add: c)
  moreover have "sort (map fst (sizes (open_spool fs mx sb))) = sort (map fst (sizes sp))"
  proof (rule sorted_distinct_set_unique)
    have "fst ` set fs = fst ` set (sizes sp)" using keys act by (auto simp: fs_def keys_of_od_set)
    then show "set (sort (map fst (sizes (open_spool fs mx sb)))) = set (sort (map fst (sizes sp)))"
      using o(4) by simp
  qed (use o(1) ok in \<open>auto simp: spool_ok_def\<close>)
  ultimately show ?thesis by (intro exI [of _ "length cs + j"]) simp
qed

lemma sort_filter_ge:
  assumes "distinct ks"
  shows "sort (filter (\<lambda>k. \<not> k < m) ks) = filter (\<lambda>k. \<not> k < (m :: nat)) (sort ks)"
  using assms by (intro sorted_distinct_set_unique) (auto intro: sorted_filter [where f = id, simplified])

lemma release_log:
  assumes ok: "spool_ok sp bs"
  shows "spool_log (release sp acked) (\<lambda>k. if k < min (fst acked) (active sp) then [] else bs k)
    = filter (\<lambda>x. \<not> fst (e_start x) < min (fst acked) (active sp)) (spool_log sp bs)"
proof -
  define m where "m = min (fst acked) (active sp)"
  let ?ks = "sort (map fst (sizes sp))"
  have wf: "\<forall>b \<in> set (bs k). body_wf b" for k using ok by (simp add: spool_ok_def)
  have d: "distinct (map fst (sizes sp))" using ok by (simp add: spool_ok_def)
  have e: "filter (\<lambda>x. \<not> fst (e_start x) < m) (seg_entries k 0 (bs k)) = (if k < m then [] else seg_entries k 0 (bs k))" for k
    using seg_entries_start [OF wf [of k], of _ k 0]
    by (cases "k < m") (fastforce intro!: filter_all filter_none)+
  have drop: "seg_log (\<lambda>k. if k < m then [] else bs k) (filter (\<lambda>k. \<not> k < m) ks)
      = concat (map (\<lambda>k. if k < m then [] else seg_entries k 0 (bs k)) ks)" for ks
    by (induction ks) (auto simp: seg_log_def)
  have "spool_log (release sp acked) (\<lambda>k. if k < m then [] else bs k)
      = seg_log (\<lambda>k. if k < m then [] else bs k) (filter (\<lambda>k. \<not> k < m) ?ks)"
    unfolding spool_log_def release_spec(2) [OF ok] m_def [symmetric] sort_filter_ge [OF d] ..
  also have "\<dots> = concat (map (\<lambda>k. if k < m then [] else seg_entries k 0 (bs k)) ?ks)"
    by (rule drop)
  also have "\<dots> = filter (\<lambda>x. \<not> fst (e_start x) < m) (spool_log sp bs)"
    by (simp add: spool_log_def filter_seg_log e)
  finally show ?thesis by (simp add: m_def)
qed

section \<open>Properties\<close>

lemma pack_parse_fields:
  assumes "pack_body tp key sid boot sq ts val = Inr body" "parse_body body s e = Inr x"
  shows "e_topic x = tp \<and> e_key x = key \<and> e_seq x = sq \<and> e_ts_ms x = ts \<and> e_value x = val
    \<and> (sid = None \<longrightarrow> e_sensor x = None \<and> e_boot x = None)
    \<and> (\<forall>t ub. sid = Some t \<and> t \<noteq> [] \<and> boot = Some (uuid_str ub) \<and> length ub = 16 \<longrightarrow> e_sensor x = sid \<and> e_boot x = boot)"
  using assms(1)
proof (rule pack_body_InrE)
  fix sidb ub :: bytes
  assume a: "ascii_bytes (case sid of None \<Rightarrow> [] | Some s \<Rightarrow> s) = Some sidb"
    "(case boot of None \<Rightarrow> Some (replicate 16 0) | Some b \<Rightarrow> if b = [] then Some (replicate 16 0) else uuid_bytes b) = Some ub"
    "tp < 256" "length key < 65536" "length sidb < 256" "length ub = 16" "length val < 2 ^ 32"
    "- (2 ^ 63) \<le> sq" "sq < 2 ^ 63" "- (2 ^ 63) \<le> ts" "ts < 2 ^ 63" "list_all (\<lambda>b. unat b < 128) sidb"
    "body = be 1 tp @ be 2 (length key) @ key @ be 1 (length sidb) @ sidb @ ub @ be_signed64 sq
      @ be_signed64 ts @ be 4 (length val) @ val"
  have x: "x = \<lparr>e_topic = tp, e_key = key, e_sensor = (if sidb = [] then None else Some (ascii_string sidb)),
      e_boot = (if sidb = [] then None else Some (uuid_str ub)), e_seq = sq, e_ts_ms = ts, e_value = val,
      e_start = s, e_end = e\<rparr>"
    using assms(2) parse_body_fields [OF a(3-12), of s e] a(13) by simp
  have none: "sid = None \<Longrightarrow> sidb = []" using a(1) by (simp add: ascii_bytes_def)
  have str: "sid = Some t \<Longrightarrow> t \<noteq> [] \<Longrightarrow> sidb \<noteq> [] \<and> ascii_string sidb = t" for t
    using ascii_roundtrip [OF a(1)] by auto
  have boot: "boot = Some (uuid_str vb) \<Longrightarrow> length vb = 16 \<Longrightarrow> ub = vb" for vb
    using a(2) uuid_bytes_str [of vb] by (cases "uuid_str vb = []") (auto simp: uuid_str_def Let_def)
  show ?thesis using none str boot by (simp add: x)
qed

text \<open>
  appending to the spool. On a spool whose files are whole records, an append that is accepted
  keeps it so, keeps the total within the byte limit and extends the log of stored entries by exactly
  one entry, at the new end position, that reads back with the topic, key, sequence, time and
  value it was given (and with the sensor and boot id, where it has them); an append that is refused
  changes nothing and happens only when the record would pass the limit.
\<close>

theorem spool_append_log:
  assumes "spool_ok sp bs" "spool_append sp tp key sid boot sq ts val = Inr (stored, sp')"
  shows "if stored then
      (\<exists>bs' x. spool_ok sp' bs' \<and> spool_log sp' bs' = spool_log sp bs @ [x] \<and> e_end x = spool_end sp'
        \<and> total_bytes sp' \<le> max_bytes sp' \<and> max_bytes sp' = max_bytes sp
        \<and> e_topic x = tp \<and> e_key x = key \<and> e_seq x = sq \<and> e_ts_ms x = ts \<and> e_value x = val
        \<and> (sid = None \<longrightarrow> e_sensor x = None \<and> e_boot x = None)
        \<and> (\<forall>t ub. sid = Some t \<and> t \<noteq> [] \<and> boot = Some (uuid_str ub) \<and> length ub = 16 \<longrightarrow> e_sensor x = sid \<and> e_boot x = boot))
    else sp' = sp \<and> (\<exists>body. pack_body tp key sid boot sq ts val = Inr body \<and> max_bytes sp < total_bytes sp + (length body + 8))"
proof -
  obtain body where b: "pack_body tp key sid boot sq ts val = Inr body" "length body < 2 ^ 32"
      "append_record sp (record_of body) = (stored, sp')"
    using assms(2) by (auto simp: spool_append_def not_le split: sum.splits if_splits)
  have wf: "body_wf body"
    using pack_parse [OF b(1)] pack_body_length [OF b(1)] b(2) by (auto simp: body_wf_def body_ok_def)
  show ?thesis
  proof (cases stored)
    case True
    then have "append_record sp (record_of body) = (True, sp')" using b(3) by simp
    note r = append_record_log [OF assms(1) wf this]
    obtain s where s: "spool_log sp' (bs(active sp' := bs (active sp') @ [body])) = spool_log sp bs @ [entry_at body s (spool_end sp')]"
      using r(2) by blast
    show ?thesis
      using True r s entry_at(3) [OF wf] pack_parse_fields [OF b(1) entry_at(1) [OF wf, of s "spool_end sp'"]]
      by (intro if_bool_eq_conj [THEN iffD2] conjI impI exI [of _ "bs(active sp' := bs (active sp') @ [body])"]
          exI [of _ "entry_at body s (spool_end sp')"]) auto
  next
    case False
    then show ?thesis using b by (auto simp: append_record_def split: if_splits)
  qed
qed

lemma empty_spool_ok: "spool_ok (open_spool [] mx sb) (\<lambda>_. [])"
  by (simp add: open_spool_def open_segment_def spool_ok_def file_of_def size_of_def Let_def)

lemma uuid_str_nonempty [simp]: "uuid_str b \<noteq> []"
  by (simp add: uuid_str_def Let_def)

lemma demo_append:
  "\<exists>sp. spool_append (open_spool [] 1000 100) 1 [9] (Some ''s'') (Some (uuid_str (replicate 16 7))) 5 6 [1, 2]
    = Inr (True, sp)"
  by (simp add: spool_append_def pack_body_def ascii_bytes_def uuid_bytes_str append_record_def
      open_spool_def open_segment_def file_of_def size_of_def Let_def del: be.simps)

theorem spool_append_log_witness:
  "\<exists>sp bs x. spool_append (open_spool [] 1000 100) 1 [9] (Some ''s'') (Some (uuid_str (replicate 16 7))) 5 6 [1, 2]
      = Inr (True, sp) \<and> spool_ok sp bs \<and> spool_log sp bs = [x] \<and> e_sensor x = Some ''s'' \<and> e_seq x = 5 \<and> e_value x = [1, 2]"
proof -
  obtain sp where a: "spool_append (open_spool [] 1000 100) 1 [9] (Some ''s'') (Some (uuid_str (replicate 16 7))) 5 6 [1, 2]
      = Inr (True, sp)" using demo_append by blast
  have "spool_log (open_spool [] 1000 100) (\<lambda>_. []) = []" by (simp add: spool_log_def seg_log_def)
  then obtain bs x where x: "spool_ok sp bs" "spool_log sp bs = [x]" "e_seq x = 5" "e_value x = [1, 2]"
      "\<forall>ub. uuid_str (replicate 16 7) = uuid_str ub \<and> length ub = 16 \<longrightarrow> e_sensor x = Some ''s''"
    using spool_append_log [OF empty_spool_ok a] by auto
  then have "e_sensor x = Some ''s''" by (metis length_replicate)
  then show ?thesis using x a by blast
qed

text \<open>A spool of two records, written by two appends.\<close>

lemma demo_body: "\<exists>b. pack_body 1 [9] None None sq 6 [v] = Inr b \<and> body_wf b \<and> length b = 42" if "0 \<le> sq" "sq < 10"
proof -
  have "\<exists>b. pack_body 1 [9] None None sq 6 [v] = Inr b \<and> length b = 42"
    using that by (simp add: pack_body_def ascii_bytes_def be_signed64_def del: be.simps)
  then show ?thesis using pack_parse by (force simp: body_wf_def body_ok_def)
qed

lemma demo_spool:
  obtains sp b c where "spool_ok sp ((\<lambda>_. [])(0 := [b, c]))" "active sp = 0" "map fst (sizes sp) = [0]" "files sp = [(0, record_of b @ record_of c)]" "body_wf b" "body_wf c"
    "length b = 42" "length c = 42" "pack_body 1 [9] None None 5 6 [1] = Inr b" "pack_body 1 [9] None None 7 6 [2] = Inr c"
    "spool_append (open_spool [] 1000 1000) 1 [9] None None 5 6 [1] = Inr (True, snd (append_record (open_spool [] 1000 1000) (record_of b)))"
    "spool_append (snd (append_record (open_spool [] 1000 1000) (record_of b))) 1 [9] None None 7 6 [2] = Inr (True, sp)"
proof -
  obtain b where b: "pack_body 1 [9] None None 5 6 [1] = Inr b" "body_wf b" "length b = 42" using demo_body [of 5 1] by auto
  obtain c where c: "pack_body 1 [9] None None 7 6 [2] = Inr c" "body_wf c" "length c = 42" using demo_body [of 7 2] by auto
  let ?s0 = "open_spool [] 1000 1000" and ?s1 = "snd (append_record (open_spool [] 1000 1000) (record_of b))"
  let ?s2 = "snd (append_record ?s1 (record_of c))"
  have l: "length (record_of b) = 50" "length (record_of c) = 50" using b c by simp_all
  have r1: "append_record ?s0 (record_of b) = (True, ?s1)" "append_record ?s1 (record_of c) = (True, ?s2)"
    by (simp_all add: append_record_def open_spool_def open_segment_def write_record_def file_of_def size_of_def l b c Let_def)
  have a: "active ?s0 = 0" "active ?s1 = 0" "active ?s2 = 0" "map fst (sizes ?s2) = [0]" "files ?s2 = [(0, record_of b @ record_of c)]"
    by (simp_all add: append_record_def open_spool_def open_segment_def write_record_def file_of_def size_of_def l b c Let_def)
  have "spool_ok ?s1 ((\<lambda>_. [])(0 := [b]))" using append_record_log(1) [OF empty_spool_ok b(2) r1(1)] a by simp
  from append_record_log(1) [OF this c(2) r1(2)] have ok: "spool_ok ?s2 ((\<lambda>_. [])(0 := [b, c]))" unfolding a by simp
  show ?thesis
    by (rule that [OF ok a(3,4,5) b(2) c(2) b(3) c(3) b(1) c(1)]) (use b c r1 in \<open>simp_all add: spool_append_def\<close>)
qed

lemma demo_log:
  assumes "spool_ok sp ((\<lambda>_. [])(0 := [b, c]))" "map fst (sizes sp) = [0]" "length b = 42" "length c = 42"
  shows "spool_log sp ((\<lambda>_. [])(0 := [b, c])) = [entry_at b (0, 0) (0, 50), entry_at c (0, 50) (0, 100)]"
  using assms by (simp add: spool_log_def seg_log_def)

text \<open>
  C23: reading the spool. On a spool whose files are whole records, reading from the start of a stored
  record (or the end of a segment) up to any such limit returns, without an error and without ever
  failing a checksum, the log entries that start between the two positions, in append order across the
  segments, cut after \<open>max_entries\<close> of them.
\<close>

theorem spool_read_exact:
  assumes "spool_ok sp bs" "seg \<in> fst ` set (sizes sp)" "bs seg = b1 @ b2" "bs ls = cs @ ds"
  shows "spool_read sp (seg, rec_len b1) (ls, rec_len cs) max_entries
    = Inr (take max_entries (filter (\<lambda>x. \<not> pos_less (e_start x) (seg, rec_len b1) \<and> pos_less (e_start x) (ls, rec_len cs))
        (spool_log sp bs)))"
  using spool_read_log [OF assms] by (simp add: between_def [abs_def])

theorem spool_read_exact_witness:
  "\<exists>sp0 sp x y. spool_append (open_spool [] 1000 1000) 1 [9] None None 5 6 [1] = Inr (True, sp0) \<and> spool_append sp0 1 [9] None None 7 6 [2] = Inr (True, sp)
     \<and> spool_read sp (0, 0) (0, 100) 10 = Inr [x, y] \<and> spool_read sp (0, 0) (0, 100) 1 = Inr [x] \<and> spool_read sp (0, 50) (0, 100) 10 = Inr [y]
     \<and> e_seq x = 5 \<and> e_value x = [1] \<and> e_seq y = 7 \<and> e_value y = [2]"
proof -
  obtain sp b c where s: "spool_ok sp ((\<lambda>_. [])(0 := [b, c]))" "active sp = 0" "map fst (sizes sp) = [0]" "files sp = [(0, record_of b @ record_of c)]" "body_wf b" "body_wf c"
    "length b = 42" "length c = 42" "pack_body 1 [9] None None 5 6 [1] = Inr b" "pack_body 1 [9] None None 7 6 [2] = Inr c"
    "spool_append (open_spool [] 1000 1000) 1 [9] None None 5 6 [1] = Inr (True, snd (append_record (open_spool [] 1000 1000) (record_of b)))"
    "spool_append (snd (append_record (open_spool [] 1000 1000) (record_of b))) 1 [9] None None 7 6 [2] = Inr (True, sp)"
    by (rule demo_spool)
  let ?bs = "(\<lambda>_. [])(0 := [b, c])" and ?x = "entry_at b (0, 0) (0, 50)" and ?y = "entry_at c (0, 50) (0, 100)"
  note log = demo_log [OF s(1,3,7,8)]
  have k: "0 \<in> fst ` set (sizes sp)" using s(3) by (metis list.set_intros(1) set_map)
  have start: "e_start ?x = (0, 0)" "e_start ?y = (0, 50)" using s(5,6) by (simp_all add: entry_at(2))
  have "spool_read sp (0, rec_len []) (0, rec_len [b, c]) n = Inr (take n [?x, ?y])" for n
    using spool_read_exact [OF s(1) k, where ?b1.0 = "[]" and ?b2.0 = "[b, c]" and ls = 0 and cs = "[b, c]" and ds = "[]" and max_entries = n] s(7,8)
    by (simp add: log start)
  then have r: "spool_read sp (0, 0) (0, 100) n = Inr (take n [?x, ?y])" for n using s(7,8) by simp
  have "spool_read sp (0, rec_len [b]) (0, rec_len [b, c]) 10 = Inr [?y]"
    using spool_read_exact [OF s(1) k, where ?b1.0 = "[b]" and ?b2.0 = "[c]" and ls = 0 and cs = "[b, c]" and ds = "[]" and max_entries = 10] s(7,8)
    by (simp add: log start)
  then have r2: "spool_read sp (0, 50) (0, 100) 10 = Inr [?y]" using s(7,8) by simp
  have v: "e_seq ?x = 5" "e_value ?x = [1]" "e_seq ?y = 7" "e_value ?y = [2]"
    using pack_parse_fields [OF s(9) entry_at(1) [OF s(5)]] pack_parse_fields [OF s(10) entry_at(1) [OF s(6)]] by simp_all
  show ?thesis by (intro exI conjI, rule s(11), rule s(12)) (use r [of 10] r [of 1] r2 v in simp_all)
qed

text \<open>
  release. Releasing up to a position deletes segments but never the active one: the spool stays
  well formed, the log loses exactly the entries of segments before both the released position's
  segment and the active one, so no entry at or after the position is lost, and the end does not move.
\<close>

theorem release_keeps_unacked:
  assumes "spool_ok sp bs"
  shows "\<exists>bs'. spool_ok (release sp acked) bs'
    \<and> spool_log (release sp acked) bs' = filter (\<lambda>x. \<not> fst (e_start x) < min (fst acked) (active sp)) (spool_log sp bs)
    \<and> (\<forall>x \<in> set (spool_log sp bs). \<not> pos_less (e_start x) acked \<longrightarrow> x \<in> set (spool_log (release sp acked) bs'))
    \<and> spool_end (release sp acked) = spool_end sp"
proof -
  let ?m = "min (fst acked) (active sp)" and ?bs = "\<lambda>k. if k < min (fst acked) (active sp) then [] else bs k"
  note r = release_spec [OF assms, of acked] release_log [OF assms, of acked]
  have "size_of (release sp acked) (active sp) = size_of sp (active sp)"
    using spool_ok_size(1) [OF r(1), of "active sp"] spool_ok_size(1) [OF assms, of "active sp"] by simp
  then have "spool_end (release sp acked) = spool_end sp" using r(3) by (simp add: spool_end_def)
  moreover have "\<not> fst (e_start x) < ?m" if "\<not> pos_less (e_start x) acked" for x :: entry
    using that by (cases "e_start x"; cases acked) auto
  ultimately show ?thesis using r(1,4) by (intro exI [of _ ?bs]) auto
qed

theorem release_keeps_unacked_witness:
  "\<exists>bs. spool_ok (release (open_spool [] 1000 100) (5, 0)) bs"
  using release_keeps_unacked [OF empty_spool_ok, of 1000 100 "(5, 0)"] by blast

lemma crash_log:
  fixes mx sb :: nat
  assumes ok: "spool_ok sp bs" and c: "bs (active sp) = cs @ ds" and n: "rec_len cs \<le> n"
  defines "sp' \<equiv> open_spool (od_set (active sp) (take n (file_of sp (active sp))) (files sp)) mx sb"
  shows "\<exists>m lost. length cs \<le> m \<and> spool_ok sp' (bs(active sp := take m (bs (active sp)))) \<and> active sp' = active sp
    \<and> fst ` set (sizes sp') = fst ` set (sizes sp) \<and> synced sp' = spool_end sp'
    \<and> spool_log sp bs = spool_log sp' (bs(active sp := take m (bs (active sp)))) @ lost
    \<and> (\<forall>x \<in> set lost. \<not> pos_less (e_start x) (active sp, rec_len cs))"
proof -
  let ?o = sp' and ?a = "active sp"
  obtain m where m: "length cs \<le> m" "spool_ok ?o (bs(?a := take m (bs ?a)))" "active ?o = ?a"
      "sort (map fst (sizes ?o)) = sort (map fst (sizes sp))" "synced ?o = spool_end ?o"
    using crash_reopen [OF ok c n, of mx sb] unfolding sp'_def by blast
  let ?ks = "filter (\<lambda>k. k < ?a) (map fst (sizes sp))"
  have "set (map fst (sizes ?o)) = set (map fst (sizes sp))" using m(4) by (metis set_sort)
  then have ks: "sort (filter (\<lambda>k. k < ?a) (map fst (sizes ?o))) = sort ?ks"
    using m(2) ok by (intro sorted_distinct_set_unique) (auto simp: spool_ok_def)
  have low: "seg_log (bs(?a := take m (bs ?a))) (sort ?ks) = seg_log bs (sort ?ks)"
    by (rule seg_log_cong) auto
  have log': "spool_log ?o (bs(?a := take m (bs ?a))) = seg_log bs (sort ?ks) @ seg_entries ?a 0 (take m (bs ?a))"
    using log_active_last [OF m(2)] m(3) ks low by simp
  let ?lost = "seg_entries ?a (rec_len (take m (bs ?a))) (drop m (bs ?a))"
  have "spool_log sp bs = spool_log ?o (bs(?a := take m (bs ?a))) @ ?lost"
    unfolding log' log_active_last [OF ok]
    using seg_entries_append [of ?a 0 "take m (bs ?a)" "drop m (bs ?a)"] by simp
  moreover have "\<not> pos_less (e_start x) (?a, rec_len cs)" if "x \<in> set ?lost" for x
  proof -
    have "\<forall>b \<in> set (drop m (bs ?a)). body_wf b"
      using ok set_drop_subset [of m "bs ?a"] by (auto simp: spool_ok_def)
    from seg_entries_start [OF this that] obtain o' where o: "e_start x = (?a, o')" "rec_len (take m (bs ?a)) \<le> o'" by blast
    have "take m (bs ?a) = cs @ take (m - length cs) ds" using m(1) c by simp
    then have "rec_len cs \<le> o'" using o(2) by simp
    then show ?thesis using o(1) by simp
  qed
  ultimately show ?thesis using m \<open>set (map fst (sizes ?o)) = set (map fst (sizes sp))\<close>
    by (intro exI [of _ m] exI [of _ ?lost]) simp
qed

text \<open>
  C24: crash recovery. If the machine stops while the active segment holds any prefix of what was
  written to it that includes the synced records \<open>cs\<close>, whatever the cut (also in the middle of a
  record), opening the directory truncates the torn record and gives a well-formed spool whose log
  is the log before the crash less at most its last, unsynced entries.
\<close>

theorem crash_recovery:
  assumes "spool_ok sp bs" "bs (active sp) = cs @ ds" "rec_len cs \<le> n"
  shows "\<exists>bs' lost. spool_ok (open_spool (od_set (active sp) (take n (file_of sp (active sp))) (files sp)) mx sb) bs'
    \<and> spool_log sp bs = spool_log (open_spool (od_set (active sp) (take n (file_of sp (active sp))) (files sp)) mx sb) bs' @ lost
    \<and> (\<forall>x \<in> set lost. \<not> pos_less (e_start x) (active sp, rec_len cs))"
  using crash_log [OF assms, of mx sb] by blast

theorem crash_recovery_witness:
  "\<exists>sp0 sp bs x y bs'. spool_append (open_spool [] 1000 1000) 1 [9] None None 5 6 [1] = Inr (True, sp0) \<and> spool_append sp0 1 [9] None None 7 6 [2] = Inr (True, sp)
     \<and> spool_log sp bs = [x, y] \<and> spool_ok (open_spool (od_set 0 (take 60 (file_of sp 0)) (files sp)) 1000 1000) bs'
     \<and> spool_log (open_spool (od_set 0 (take 60 (file_of sp 0)) (files sp)) 1000 1000) bs' = [x]"
proof -
  obtain sp b c where s: "spool_ok sp ((\<lambda>_. [])(0 := [b, c]))" "active sp = 0" "map fst (sizes sp) = [0]" "files sp = [(0, record_of b @ record_of c)]" "body_wf b" "body_wf c"
    "length b = 42" "length c = 42" "pack_body 1 [9] None None 5 6 [1] = Inr b" "pack_body 1 [9] None None 7 6 [2] = Inr c"
    "spool_append (open_spool [] 1000 1000) 1 [9] None None 5 6 [1] = Inr (True, snd (append_record (open_spool [] 1000 1000) (record_of b)))"
    "spool_append (snd (append_record (open_spool [] 1000 1000) (record_of b))) 1 [9] None None 7 6 [2] = Inr (True, sp)"
    by (rule demo_spool)
  let ?bs = "(\<lambda>_. [])(0 := [b, c])" and ?x = "entry_at b (0, 0) (0, 50)" and ?y = "entry_at c (0, 50) (0, 100)"
  let ?o = "open_spool (od_set 0 (take 60 (file_of sp 0)) (files sp)) 1000 1000"
  note log = demo_log [OF s(1,3,7,8)]
  obtain bs' lost where c: "spool_ok ?o bs'" "[?x, ?y] = spool_log ?o bs' @ lost" "\<forall>z \<in> set lost. \<not> pos_less (e_start z) (0, 50)"
    using crash_recovery [OF s(1), where cs = "[b]" and ds = "[c]" and n = 60 and mx = 1000 and sb = 1000] s(2,7,8) log by auto
  have t60: "take 60 (record_of b @ record_of c) = record_of b @ take 10 (record_of c)" using s(7,8) by simp
  have "torn (take 10 (record_of c))" unfolding torn_def
    by (intro exI [of _ c] exI [of _ "10 :: nat"]) (use s(6,8) in \<open>simp add: body_wf_def\<close>)
  then have "valid_prefix (take 60 (record_of b @ record_of c)) = 50"
    using valid_prefix_records [of "[b]" "take 10 (record_of c)"] s(5,7) unfolding t60 by (simp add: body_wf_def)
  then have o: "map fst (sizes ?o) = [0]" "size_of ?o 0 = 50" by (simp_all add: open_spool_def s(4) file_of_def size_of_def Let_def)
  then have l: "spool_log ?o bs' = seg_entries 0 0 (bs' 0)" "rec_len (bs' 0) = 50"
    using spool_ok_size(1) [OF c(1), of 0] by (simp_all add: spool_log_def seg_log_def)
  have "spool_log ?o bs' = [?x]"
  proof (cases "bs' 0")
    case Nil
    then show ?thesis using l(2) by simp
  next
    case (Cons d ds)
    have "\<forall>b \<in> set (bs' 0). body_wf b" using c(1) unfolding spool_ok_def by blast
    then have wf: "body_wf d" using Cons by simp
    have "entry_at d (0, 0) (0, 8 + length d) = ?x" using c(2) Cons unfolding l(1) by simp
    then have "length d = 42" using entry_at(3) [OF wf, of "(0, 0)" "(0, 8 + length d)"] entry_at(3) [OF s(5), of "(0, 0)" "(0, 50)"] by simp
    then have "rec_len ds = 0" using l(2) Cons by simp
    then have "ds = []" using rec_len_pos [of ds] by auto
    then show ?thesis using Cons c(2) unfolding l(1) by simp
  qed
  then show ?thesis using s(10,11,12) c(1) log by blast
qed

text \<open>
  the publisher's cursor file. \<^verbatim>\<open>read_position\<close> reads back every position that
  \<^verbatim>\<open>write_position\<close> writes.
\<close>

lemma position_round_trip [simp]: "parse_position (position_text p) = Some p"
proof -
  have "CHR '':'' \<notin> set (str_of_nat n)" for n
    using list_all_str_of_nat [of n] by (auto simp: list_all_iff is_dec_def Let_def)
  then have "split_on (CHR '':'') (position_text p) = [str_of_nat (fst p), str_of_nat (snd p)]"
    by (simp add: position_text_def split_on_append split_on_no_sep)
  then show ?thesis by (simp add: parse_position_def)
qed

end
