(* ===== verification/Json.thy ===== *)
theory Json
  imports Prelude
begin

text \<open>
  Python values as the JSON documents of the repository hold them, the dictionary reads the
  sources use (\<^verbatim>\<open>d.get(k)\<close>, \<^verbatim>\<open>d[k]\<close>), text measured in code points, and the
  numeric text of f-strings. A \<^verbatim>\<open>dict\<close> is an association list in insertion order.
  The floats of these documents are modelled as exact reals: rounding of binary arithmetic is not
  modelled, infinities and NaN are treated in \<open>Floats\<close>. A \<^verbatim>\<open>str\<close> is the HOL string of its UTF-8 bytes.
\<close>

section \<open>Documents\<close>

datatype json =
    JNull
  | JBool bool
  | JInt int
  | JReal real
  | JStr string
  | JArr "json list"
  | JObj "(string \<times> json) list"

type_synonym dict = "(string \<times> json) list"

text \<open>\<open>dget\<close> is \<^verbatim>\<open>d.get(k)\<close> (absent and null agree), \<open>map_of d k\<close> tells them apart.\<close>

definition dget :: "dict \<Rightarrow> string \<Rightarrow> json" where
  "dget d k = (case map_of d k of None \<Rightarrow> JNull | Some v \<Rightarrow> v)"

fun as_int :: "json \<Rightarrow> int option" where
  "as_int (JInt i) = Some i"
| "as_int _ = None"

fun as_str :: "json \<Rightarrow> string option" where
  "as_str (JStr s) = Some s"
| "as_str _ = None"

fun as_real :: "json \<Rightarrow> real option" where
  "as_real (JInt i) = Some (of_int i)"
| "as_real (JReal r) = Some r"
| "as_real _ = None"

fun as_obj :: "json \<Rightarrow> dict option" where
  "as_obj (JObj d) = Some d"
| "as_obj _ = None"

definition jint :: "dict \<Rightarrow> string \<Rightarrow> int option" where
  "jint d k = as_int (dget d k)"

definition jstr :: "dict \<Rightarrow> string \<Rightarrow> string option" where
  "jstr d k = as_str (dget d k)"

definition jreal :: "dict \<Rightarrow> string \<Rightarrow> real option" where
  "jreal d k = as_real (dget d k)"

definition of_opt_int :: "int option \<Rightarrow> json" where
  "of_opt_int v = (case v of None \<Rightarrow> JNull | Some i \<Rightarrow> JInt i)"

definition of_opt_real :: "real option \<Rightarrow> json" where
  "of_opt_real v = (case v of None \<Rightarrow> JNull | Some r \<Rightarrow> JReal r)"

definition of_opt_str :: "string option \<Rightarrow> json" where
  "of_opt_str v = (case v of None \<Rightarrow> JNull | Some s \<Rightarrow> JStr s)"

lemma of_opt_simps [simp]:
  "of_opt_int None = JNull" "of_opt_int (Some i) = JInt i"
  "of_opt_real None = JNull" "of_opt_real (Some r) = JReal r"
  "of_opt_str None = JNull" "of_opt_str (Some s) = JStr s"
  by (simp_all add: of_opt_int_def of_opt_real_def of_opt_str_def)

lemma as_of_opt [simp]: "as_int (of_opt_int v) = v" "as_str (of_opt_str s) = s"
  by (cases v, simp_all, cases s, simp_all)

section \<open>Text in code points\<close>

text \<open>A code point of UTF-8 text is one byte outside the range 128 to 191 and what follows it.\<close>

definition lead_byte :: "char \<Rightarrow> bool" where
  "lead_byte c = (let n = of_char c :: nat in n < 128 \<or> 192 \<le> n)"

definition py_len :: "string \<Rightarrow> nat" where
  "py_len s = length (filter lead_byte s)"

fun py_take :: "nat \<Rightarrow> string \<Rightarrow> string" where
  "py_take n [] = []"
| "py_take n (c # s) =
     (if lead_byte c then (case n of 0 \<Rightarrow> [] | Suc m \<Rightarrow> c # py_take m s) else c # py_take n s)"

lemma py_len_Nil [simp]: "py_len [] = 0"
  by (simp add: py_len_def)

lemma py_take_le: "py_len (py_take n s) \<le> n"
  by (induction n s rule: py_take.induct) (auto simp: py_len_def split: nat.splits)

lemma py_take_all: "py_len s \<le> n \<Longrightarrow> py_take n s = s"
  by (induction n s rule: py_take.induct) (auto simp: py_len_def split: nat.splits)

lemma py_take_idem [simp]: "py_take n (py_take n s) = py_take n s"
  by (rule py_take_all) (rule py_take_le)

text \<open>The code points of a text, each as its bytes.\<close>

function py_chars :: "string \<Rightarrow> string list" where
  "py_chars [] = []"
| "py_chars (c # cs) = (c # takeWhile (\<lambda>x. \<not> lead_byte x) cs) # py_chars (dropWhile (\<lambda>x. \<not> lead_byte x) cs)"
  by pat_completeness auto
termination by (relation "measure length") (auto simp: le_imp_less_Suc length_dropWhile_le)

definition lower_char :: "char \<Rightarrow> char" where
  "lower_char c = (let n = of_char c :: nat in if 65 \<le> n \<and> n \<le> 90 then char_of (n + 32) else c)"

text \<open>\<^verbatim>\<open>s.lower()\<close> on ASCII letters; \<^verbatim>\<open>s.strip()\<close>, \<^verbatim>\<open>s.rstrip(chars)\<close>.\<close>

definition lower :: "string \<Rightarrow> string" where
  "lower s = map lower_char s"

definition is_space :: "char \<Rightarrow> bool" where
  "is_space c = (let n = of_char c :: nat in (9 \<le> n \<and> n \<le> 13) \<or> (28 \<le> n \<and> n \<le> 32))"

definition rstrip :: "(char \<Rightarrow> bool) \<Rightarrow> string \<Rightarrow> string" where
  "rstrip P s = rev (dropWhile P (rev s))"

definition strip :: "(char \<Rightarrow> bool) \<Rightarrow> string \<Rightarrow> string" where
  "strip P s = rstrip P (dropWhile P s)"

section \<open>Numbers\<close>

text \<open>\<^verbatim>\<open>round(x)\<close>: to the nearest integer, ties to even; and \<^verbatim>\<open>round(x, d)\<close>.\<close>

definition round_he :: "real \<Rightarrow> int" where
  "round_he x = (let f = \<lfloor>x\<rfloor>; r = x - of_int f in
     if r < 1 / 2 then f else if 1 / 2 < r then f + 1 else if even f then f else f + 1)"

definition round_to :: "nat \<Rightarrow> real \<Rightarrow> real" where
  "round_to d x = of_int (round_he (x * 10 ^ d)) / 10 ^ d"

text \<open>\<^verbatim>\<open>int(x)\<close> of a float truncates towards zero.\<close>

definition trunc :: "real \<Rightarrow> int" where
  "trunc x = (if x < 0 then - \<lfloor>- x\<rfloor> else \<lfloor>x\<rfloor>)"

text \<open>\<^verbatim>\<open>f"{x:.df}"\<close>, \<^verbatim>\<open>f"{x:.0%}"\<close>, and \<^verbatim>\<open>str(x)\<close> of a float with at most nine decimals.\<close>

definition fmt_fixed :: "nat \<Rightarrow> real \<Rightarrow> string" where
  "fmt_fixed d x =
     (let n = nat (round_he (\<bar>x\<bar> * 10 ^ d))
      in (if x < 0 then ''-'' else []) @ str_of_nat (n div 10 ^ d) @ (if d = 0 then [] else CHR ''.'' # pad_nat d n))"

definition fmt_percent :: "real \<Rightarrow> string" where
  "fmt_percent x = fmt_fixed 0 (x * 100) @ ''%''"

definition fmt_float :: "real \<Rightarrow> string" where
  "fmt_float x = (let t = rstrip (\<lambda>c. c = CHR ''0'') (fmt_fixed 9 x)
     in if last t = CHR ''.'' then t @ ''0'' else t)"

lemma round_he_of_int [simp]: "round_he (of_int i) = i"
  by (simp add: round_he_def)

lemma round_he_mono:
  assumes "x \<le> y" shows "round_he x \<le> round_he y"
proof (cases "\<lfloor>x\<rfloor> = \<lfloor>y\<rfloor>")
  case True
  then show ?thesis using assms by (simp add: round_he_def Let_def)
next
  case False
  then have "\<lfloor>x\<rfloor> + 1 \<le> \<lfloor>y\<rfloor>" using floor_mono [OF assms] by linarith
  moreover have "round_he x \<le> \<lfloor>x\<rfloor> + 1" "\<lfloor>y\<rfloor> \<le> round_he y" by (simp_all add: round_he_def Let_def)
  ultimately show ?thesis by linarith
qed

lemma round_to_range: "0 \<le> x \<Longrightarrow> x \<le> 1 \<Longrightarrow> 0 \<le> round_to d x \<and> round_to d x \<le> 1"
proof -
  assume x: "0 \<le> x" "x \<le> 1"
  have "round_he 0 \<le> round_he (x * 10 ^ d)" by (rule round_he_mono) (use x in simp)
  moreover have "round_he (x * 10 ^ d) \<le> round_he (of_int (10 ^ d))"
    by (rule round_he_mono) (use x in \<open>simp add: mult_left_le_one_le\<close>)
  ultimately have b: "0 \<le> round_he (x * 10 ^ d)" "round_he (x * 10 ^ d) \<le> 10 ^ d"
    using round_he_of_int [of 0] round_he_of_int [of "10 ^ d"] by (simp, metis)
  then have "real_of_int (round_he (x * 10 ^ d)) \<le> of_int (10 ^ d)" by (simp only: of_int_le_iff)
  then show ?thesis using b by (simp add: round_to_def divide_le_eq_1)
qed

section \<open>Conversions\<close>

text \<open>\<^verbatim>\<open>int(v)\<close> of a document value; \<open>None\<close> is TypeError or ValueError. A text is a decimal literal
  of ASCII digits, with single underscores between digits.\<close>

fun ungroup :: "bool \<Rightarrow> string \<Rightarrow> string option" where
  "ungroup after_digit [] = Some []"
| "ungroup after_digit (c # cs) =
     (if c = CHR ''_'' then (if after_digit \<and> (case cs of [] \<Rightarrow> False | x # _ \<Rightarrow> is_dec x) then ungroup False cs else None)
      else map_option ((#) c) (ungroup (is_dec c) cs))"

definition parse_int :: "string \<Rightarrow> int option" where
  "parse_int s =
     (case ungroup False (strip is_space s) of None \<Rightarrow> None
      | Some t \<Rightarrow>
     (let (neg, ds) = (case t of c # r \<Rightarrow> (if c = CHR ''-'' then (True, r) else if c = CHR ''+'' then (False, r) else (False, t))
                       | [] \<Rightarrow> (False, []))
      in if ds = [] \<or> \<not> list_all is_dec ds then None
         else Some (if neg then - int (dec_val ds) else int (dec_val ds))))"

lemma ungroup_digits: "list_all is_dec s \<Longrightarrow> ungroup b s = Some s"
  by (induction b s rule: ungroup.induct) (auto simp: is_dec_def)

fun py_int :: "json \<Rightarrow> int option" where
  "py_int (JInt i) = Some i"
| "py_int (JReal r) = Some (trunc r)"
| "py_int (JBool b) = Some (if b then 1 else 0)"
| "py_int (JStr s) = parse_int s"
| "py_int _ = None"

text \<open>Truth value of a document value, and \<^verbatim>\<open>x or y\<close>.\<close>

fun truthy :: "json \<Rightarrow> bool" where
  "truthy JNull = False"
| "truthy (JBool b) = b"
| "truthy (JInt i) = (i \<noteq> 0)"
| "truthy (JReal r) = (r \<noteq> 0)"
| "truthy (JStr s) = (s \<noteq> [])"
| "truthy (JArr xs) = (xs \<noteq> [])"
| "truthy (JObj d) = (d \<noteq> [])"

definition py_or :: "json \<Rightarrow> json \<Rightarrow> json" where
  "py_or x y = (if truthy x then x else y)"

text \<open>Values a \<^verbatim>\<open>set\<close> can be asked for; asking for a list or a dict is a TypeError.\<close>

fun hashable :: "json \<Rightarrow> bool" where
  "hashable (JArr _) = False"
| "hashable (JObj _) = False"
| "hashable _ = True"

definition has_key :: "dict \<Rightarrow> string \<Rightarrow> bool" where
  "has_key d k = (k \<in> set (map fst d))"

lemma has_key_map_of: "has_key d k \<longleftrightarrow> map_of d k \<noteq> None"
  by (simp add: has_key_def map_of_eq_None_iff image_image)

lemma dget_absent: "\<not> has_key d k \<Longrightarrow> dget d k = JNull"
  by (simp add: has_key_map_of dget_def)

lemma dget_Nil [simp]: "dget [] k = JNull"
  by (simp add: dget_def)

lemma dget_Cons [simp]: "dget ((k', v) # d) k = (if k = k' then v else dget d k)"
  by (simp add: dget_def)

end
