(* ===== verification/Floats.thy ===== *)
theory Floats
  imports Json
begin

text \<open>
  Python floats where the sources meet the values that are not numbers of the reals: infinities and
  NaN, which \<^verbatim>\<open>json.loads\<close> reads from the literals \<^verbatim>\<open>NaN\<close>, \<^verbatim>\<open>Infinity\<close> and from numbers out of
  range, \<^verbatim>\<open>float(s)\<close> from a text, and an inference may answer. Finite values stay exact reals
  (binary rounding is not modelled), the largest of them bounded as the double format bounds it.
  \<open>jdoc\<close> is a decoded document with such numbers; \<open>json_of\<close> is the same document as a \<open>json\<close>
  when all its numbers are finite.
\<close>

section \<open>Values and arithmetic\<close>

datatype pyfloat = Fin real | PInf | NInf | NaN

fun fneg :: "pyfloat \<Rightarrow> pyfloat" where
  "fneg (Fin x) = Fin (- x)"
| "fneg PInf = NInf"
| "fneg NInf = PInf"
| "fneg NaN = NaN"

fun fadd :: "pyfloat \<Rightarrow> pyfloat \<Rightarrow> pyfloat" where
  "fadd (Fin x) (Fin y) = Fin (x + y)"
| "fadd NaN _ = NaN"
| "fadd _ NaN = NaN"
| "fadd (Fin _) y = y"
| "fadd x (Fin _) = x"
| "fadd PInf PInf = PInf"
| "fadd NInf NInf = NInf"
| "fadd _ _ = NaN"

definition fsub :: "pyfloat \<Rightarrow> pyfloat \<Rightarrow> pyfloat" where
  "fsub x y = fadd x (fneg y)"

fun fabs :: "pyfloat \<Rightarrow> pyfloat" where
  "fabs (Fin x) = Fin \<bar>x\<bar>"
| "fabs NaN = NaN"
| "fabs _ = PInf"

text \<open>Multiplication by a positive constant.\<close>

fun fscale :: "real \<Rightarrow> pyfloat \<Rightarrow> pyfloat" where
  "fscale c (Fin x) = Fin (c * x)"
| "fscale _ x = x"

text \<open>\<^verbatim>\<open>x > y\<close>: false as soon as one side is NaN.\<close>

fun fgreater :: "pyfloat \<Rightarrow> pyfloat \<Rightarrow> bool" where
  "fgreater (Fin x) (Fin y) = (y < x)"
| "fgreater PInf (Fin _) = True"
| "fgreater PInf NInf = True"
| "fgreater (Fin _) NInf = True"
| "fgreater _ _ = False"

text \<open>\<^verbatim>\<open>x >= y\<close>.\<close>

definition fgeq :: "pyfloat \<Rightarrow> pyfloat \<Rightarrow> bool" where
  "fgeq x y = (fgreater x y \<or> (x = y \<and> x \<noteq> NaN))"

text \<open>\<^verbatim>\<open>max\<close> of an iterable keeps the first value and replaces it by a later one that is greater;
  of nothing it is a ValueError.\<close>

fun py_max :: "pyfloat list \<Rightarrow> pyfloat option" where
  "py_max [] = None"
| "py_max (x # xs) = Some (foldl (\<lambda>m y. if fgreater y m then y else m) x xs)"

text \<open>From half a unit in the last place above the largest double on, a number rounds to an infinity.\<close>

definition FLOAT_LIMIT :: int where "FLOAT_LIMIT = 2 ^ 1024 - 2 ^ 970"

definition flt :: "real \<Rightarrow> pyfloat" where
  "flt x = (if \<bar>x\<bar> < of_int FLOAT_LIMIT then Fin x else if x < 0 then NInf else PInf)"

section \<open>Text\<close>

definition signed :: "string \<Rightarrow> bool \<times> string" where
  "signed s = (case s of c # r \<Rightarrow> (if c = CHR ''-'' then (True, r) else if c = CHR ''+'' then (False, r) else (False, s))
     | [] \<Rightarrow> (False, []))"

definition mantissa :: "string \<Rightarrow> (nat \<times> nat) option" where
  "mantissa m =
     (let i = takeWhile (\<lambda>c. c \<noteq> CHR ''.'') m; f = drop (length i + 1) m
      in if i @ f = [] \<or> \<not> list_all is_dec (i @ f) then None else Some (dec_val (i @ f), length f))"

definition exponent :: "string \<Rightarrow> int option" where
  "exponent e =
     (case e of [] \<Rightarrow> Some 0
      | _ # r \<Rightarrow> (case signed r of (neg, ds) \<Rightarrow>
          if ds = [] \<or> \<not> list_all is_dec ds then None else Some (if neg then - int (dec_val ds) else int (dec_val ds))))"

definition decimal :: "nat \<Rightarrow> int \<Rightarrow> real" where
  "decimal n e = (if 0 \<le> e then real n * 10 ^ nat e else real n / 10 ^ nat (- e))"

text \<open>\<^verbatim>\<open>float(s)\<close>: a decimal literal of ASCII digits, or a name of a special value.\<close>

definition parse_float :: "string \<Rightarrow> pyfloat option" where
  "parse_float s =
     (case Option.bind (ungroup False (strip is_space s)) (\<lambda>t. Some (signed t)) of None \<Rightarrow> None
      | Some (neg, b) \<Rightarrow>
          (let l = lower b; sign = (if neg then fneg else (\<lambda>x. x)); m = takeWhile (\<lambda>c. c \<noteq> CHR ''e'') l
           in if l \<in> {''inf'', ''infinity''} then Some (sign PInf)
              else if l = ''nan'' then Some NaN
              else (case (mantissa m, exponent (drop (length m) l)) of
                  (Some (n, k), Some e) \<Rightarrow> Some (sign (flt (decimal n (e - int k))))
                | _ \<Rightarrow> None)))"

section \<open>Documents\<close>

datatype jdoc =
    DNull
  | DBool bool
  | DInt int
  | DFloat pyfloat
  | DStr string
  | DArr "jdoc list"
  | DObj "(string \<times> jdoc) list"

type_synonym ddict = "(string \<times> jdoc) list"

definition doc_get :: "ddict \<Rightarrow> string \<Rightarrow> jdoc" where
  "doc_get d k = (case map_of d k of None \<Rightarrow> DNull | Some v \<Rightarrow> v)"

fun doc_obj :: "jdoc \<Rightarrow> ddict option" where
  "doc_obj (DObj d) = Some d"
| "doc_obj _ = None"

fun doc_str :: "jdoc \<Rightarrow> string option" where
  "doc_str (DStr s) = Some s"
| "doc_str _ = None"

fun doc_truthy :: "jdoc \<Rightarrow> bool" where
  "doc_truthy DNull = False"
| "doc_truthy (DBool b) = b"
| "doc_truthy (DInt i) = (i \<noteq> 0)"
| "doc_truthy (DFloat x) = (x \<noteq> Fin 0)"
| "doc_truthy (DStr s) = (s \<noteq> [])"
| "doc_truthy (DArr xs) = (xs \<noteq> [])"
| "doc_truthy (DObj d) = (d \<noteq> [])"

fun doc_hashable :: "jdoc \<Rightarrow> bool" where
  "doc_hashable (DArr _) = False"
| "doc_hashable (DObj _) = False"
| "doc_hashable _ = True"

text \<open>The document as a \<open>json\<close>, and a \<open>json\<close> as a document.\<close>

fun json_of :: "jdoc \<Rightarrow> json option" where
  "json_of DNull = Some JNull"
| "json_of (DBool b) = Some (JBool b)"
| "json_of (DInt i) = Some (JInt i)"
| "json_of (DFloat x) = (case x of Fin r \<Rightarrow> Some (JReal r) | _ \<Rightarrow> None)"
| "json_of (DStr s) = Some (JStr s)"
| "json_of (DArr xs) = map_option JArr (those (map json_of xs))"
| "json_of (DObj d) = map_option JObj (those (map (\<lambda>(k, v). map_option (Pair k) (json_of v)) d))"

fun doc_of :: "json \<Rightarrow> jdoc" where
  "doc_of JNull = DNull"
| "doc_of (JBool b) = DBool b"
| "doc_of (JInt i) = DInt i"
| "doc_of (JReal r) = DFloat (Fin r)"
| "doc_of (JStr s) = DStr s"
| "doc_of (JArr xs) = DArr (map doc_of xs)"
| "doc_of (JObj d) = DObj (map (\<lambda>(k, v). (k, doc_of v)) d)"

section \<open>Conversions\<close>

text \<open>A \<^verbatim>\<open>TypeError\<close> or \<^verbatim>\<open>ValueError\<close>, and an \<^verbatim>\<open>OverflowError\<close>.\<close>

datatype conversion_error = BadValue | TooLarge

fun doc_float :: "jdoc \<Rightarrow> conversion_error + pyfloat" where
  "doc_float (DInt i) = (if \<bar>i\<bar> < FLOAT_LIMIT then Inr (Fin (of_int i)) else Inl TooLarge)"
| "doc_float (DFloat x) = Inr x"
| "doc_float (DBool b) = Inr (Fin (if b then 1 else 0))"
| "doc_float (DStr s) = need BadValue (parse_float s)"
| "doc_float _ = Inl BadValue"

text \<open>\<^verbatim>\<open>int(v)\<close> and \<^verbatim>\<open>round(x)\<close>.\<close>

fun doc_int :: "jdoc \<Rightarrow> conversion_error + int" where
  "doc_int (DInt i) = Inr i"
| "doc_int (DFloat x) = (case x of Fin r \<Rightarrow> Inr (trunc r) | NaN \<Rightarrow> Inl BadValue | _ \<Rightarrow> Inl TooLarge)"
| "doc_int (DBool b) = Inr (if b then 1 else 0)"
| "doc_int (DStr s) = need BadValue (parse_int s)"
| "doc_int _ = Inl BadValue"

fun round_float :: "pyfloat \<Rightarrow> conversion_error + int" where
  "round_float (Fin x) = Inr (round_he x)"
| "round_float NaN = Inl BadValue"
| "round_float _ = Inl TooLarge"

text \<open>An operand of float arithmetic: a number, never a text; an integer out of range raises.\<close>

fun doc_num :: "jdoc \<Rightarrow> pyfloat option" where
  "doc_num (DStr s) = None"
| "doc_num v = (case doc_float v of Inl e \<Rightarrow> None | Inr x \<Rightarrow> Some x)"

definition py_float :: "json \<Rightarrow> conversion_error + pyfloat" where
  "py_float v = doc_float (doc_of v)"

text \<open>\<^verbatim>\<open>round(float(v) * 1000000)\<close>.\<close>

definition micros :: "jdoc \<Rightarrow> conversion_error + int" where
  "micros v = andthen (doc_float v) (\<lambda>s. round_float (case s of Fin x \<Rightarrow> flt (x * 1000000) | _ \<Rightarrow> s))"

section \<open>Lemmas\<close>

lemma those_map_Some: "(\<And>x. x \<in> set xs \<Longrightarrow> f x = Some (g x)) \<Longrightarrow> those (map f xs) = Some (map g xs)"
  by (induction xs) auto

lemma json_of_doc_of [simp]: "json_of (doc_of v) = Some v"
proof (induction v rule: doc_of.induct)
  case (6 xs)
  then have "those (map (\<lambda>x. json_of (doc_of x)) xs) = Some (map (\<lambda>x. x) xs)" by (intro those_map_Some) auto
  then show ?case by (simp add: comp_def)
next
  case (7 d)
  then have "those (map (\<lambda>x. (case x of (k, v) \<Rightarrow> map_option (Pair k) (json_of (doc_of v)))) d) = Some (map (\<lambda>x. x) d)"
    by (intro those_map_Some) auto
  then show ?case by (simp add: comp_def case_prod_unfold)
qed auto

lemma fsub_Fin [simp]: "fsub (Fin x) (Fin y) = Fin (x - y)"
  by (simp add: fsub_def)

lemma fsub_NaN [simp]: "fsub NaN y = NaN" "fsub x NaN = NaN"
  by (simp add: fsub_def, cases x, simp_all add: fsub_def)

lemma fgreater_NaN [simp]: "\<not> fgreater NaN x" "\<not> fgreater x NaN"
  by (simp, cases x, simp_all)

lemma flt_small [simp]: "\<bar>x\<bar> < of_int FLOAT_LIMIT \<Longrightarrow> flt x = Fin x"
  by (simp add: flt_def)

lemma py_max_None [simp]: "py_max xs = None \<longleftrightarrow> xs = []"
  by (cases xs) simp_all

lemma fgreater_trans: "fgreater x y \<Longrightarrow> \<not> fgreater z y \<Longrightarrow> y \<noteq> NaN \<Longrightarrow> \<not> fgreater z x"
  by (cases x; cases y; cases z) auto

text \<open>Whether the maximum stays within a bound: a leading NaN is kept and hides everything, a later
  one is skipped.\<close>

lemma py_max_within:
  assumes "py_max xs = Some m" "c \<noteq> NaN"
  shows "\<not> fgreater m c \<longleftrightarrow> hd xs = NaN \<or> (\<forall>x \<in> set xs. \<not> fgreater x c)"
proof -
  let ?f = "\<lambda>m y. if fgreater y m then y else m"
  have nan: "foldl ?f NaN ys = NaN" for ys by (induction ys) simp_all
  have ok: "\<not> fgreater (foldl ?f x ys) c \<longleftrightarrow> \<not> fgreater x c \<and> (\<forall>y \<in> set ys. \<not> fgreater y c)" if "x \<noteq> NaN" for x ys
    using that
  proof (induction ys arbitrary: x)
    case (Cons y ys)
    show ?case
    proof (cases "fgreater y x")
      case True
      then have "y \<noteq> NaN" by auto
      moreover have "\<not> fgreater y c \<Longrightarrow> \<not> fgreater x c" using True Cons.prems assms(2) by (cases x; cases y; cases c) auto
      ultimately show ?thesis using Cons.IH [of y] True by auto
    next
      case False
      then have "\<not> fgreater x c \<Longrightarrow> \<not> fgreater y c" using Cons.prems assms(2) by (cases x; cases y; cases c) auto
      then show ?thesis using Cons.IH [OF Cons.prems] False by auto
    qed
  qed simp
  obtain x ys where xs: "xs = x # ys" using assms(1) by (cases xs) simp_all
  show ?thesis using assms(1) nan [of ys] ok [of x ys] unfolding xs by (cases "x = NaN") auto
qed

end
