(* ===== verification/Contracts.thy ===== *)
theory Contracts
  imports Floats Json Timeutil
begin

text \<open>
  Validation of documents (\<^verbatim>\<open>lib/sih_common/contracts.py\<close>): the version check, the JSON Schema
  errors, and the cross-field rules. The schema validator is the \<^verbatim>\<open>jsonschema\<close> package: it is the
  argument \<open>iter_errors\<close>, which gives the path and message of each error. \<open>None\<close> is an exception.
\<close>

section \<open>Kinds\<close>

datatype kind = Event | Alert | Feature | SensorHealth | InvalidEvent | ModelManifest | DeploymentManifest

definition SCHEMA_FILES :: "kind \<Rightarrow> string" where
  "SCHEMA_FILES k = (case k of
     Event \<Rightarrow> ''event.v1.schema.json'' | Alert \<Rightarrow> ''alert.v1.schema.json'' | Feature \<Rightarrow> ''feature.v1.schema.json''
   | SensorHealth \<Rightarrow> ''sensor-health.v1.schema.json'' | InvalidEvent \<Rightarrow> ''invalid-event.v1.schema.json''
   | ModelManifest \<Rightarrow> ''model-manifest.v1.schema.json'' | DeploymentManifest \<Rightarrow> ''deployment-manifest.v1.schema.json'')"

definition VERSION_FIELDS :: "kind \<Rightarrow> string \<times> string list" where
  "VERSION_FIELDS k = (case k of
     Event \<Rightarrow> (''event_schema_version'', [''1.0.0'']) | Alert \<Rightarrow> (''alert_schema_version'', [''1.0.0''])
   | Feature \<Rightarrow> (''feature_record_schema_version'', [''1.0.0'']) | SensorHealth \<Rightarrow> (''health_schema_version'', [''1.0.0''])
   | InvalidEvent \<Rightarrow> (''invalid_schema_version'', [''1.0.0'']) | ModelManifest \<Rightarrow> (''manifest_schema_version'', [''1.0.0''])
   | DeploymentManifest \<Rightarrow> (''deployment_manifest_version'', [''1.0.0'']))"

type_synonym errs = "(string \<times> string) list"
type_synonym schema_validator = "kind \<Rightarrow> json \<Rightarrow> (string list \<times> string) list"

text \<open>Sorting by path is stable and lexicographic on the path's components.\<close>

fun path_le :: "string list \<Rightarrow> string list \<Rightarrow> bool" where
  "path_le [] _ = True"
| "path_le (x # xs) [] = False"
| "path_le (x # xs) (y # ys) = (if x = y then path_le xs ys else lexordp (<) x y)"

fun insert_err :: "string list \<times> string \<Rightarrow> (string list \<times> string) list \<Rightarrow> (string list \<times> string) list" where
  "insert_err e [] = [e]"
| "insert_err e (f # fs) = (if path_le (fst e) (fst f) then e # f # fs else f # insert_err e fs)"

definition schema_errors :: "schema_validator \<Rightarrow> kind \<Rightarrow> json \<Rightarrow> errs" where
  "schema_errors iter_errors k obj =
     map (\<lambda>(path, msg). (''schema'', (if path = [] \<or> path = [[]] then ''<root>'' else join_with CHR ''/'' path)
            @ '': '' @ py_take 300 msg))
       (foldr insert_err (iter_errors k obj) [])"

section \<open>Cross-field rules\<close>

definition quoted :: "string \<Rightarrow> string" where
  "quoted s = CHR 0x27 # s @ [CHR 0x27]"

definition text_of :: "json \<Rightarrow> string" where
  "text_of v = (case as_str v of None \<Rightarrow> [] | Some s \<Rightarrow> s)"

definition availability_errors :: "dict \<Rightarrow> dict \<Rightarrow> dict \<Rightarrow> errs" where
  "availability_errors values availability reasons =
     concat (map (\<lambda>(key, value).
         (if value = JNull \<and> \<not> has_key availability key
          then [(''availability_null'', key @ '' is null without an availability state'')] else [])
       @ (if value \<noteq> JNull \<and> has_key availability key
          then [(''availability_on_value'', key @ '' has a value but is marked '' @ text_of (dget availability key))] else []))
       values)
     @ map (\<lambda>key. (''availability_unknown_field'', ''availability names unknown field '' @ key))
         (filter (\<lambda>key. \<not> has_key values key) (map fst availability))
     @ map (\<lambda>key. (''reason_without_availability'', ''availability_reasons.'' @ key @ '' without availability state''))
         (filter (\<lambda>key. \<not> has_key availability key) (map fst reasons))"

fun obj_or_empty :: "json \<Rightarrow> dict" where
  "obj_or_empty (JObj d) = d"
| "obj_or_empty _ = []"

definition event_rules :: "dict \<Rightarrow> errs" where
  "event_rules ev =
     availability_errors (obj_or_empty (dget ev ''payload'')) (obj_or_empty (dget ev ''availability''))
       (obj_or_empty (dget ev ''availability_reasons''))
     @ (if dget ev ''original_record'' = JNull \<and> \<not> truthy (dget ev ''original_record_truncated'')
        then [(''original_record_null'', ''original_record is null but original_record_truncated is false'')] else [])"

definition time_order :: "dict \<Rightarrow> string \<Rightarrow> string \<Rightarrow> errs option" where
  "time_order al a b =
     (case (Option.bind (jstr al a) parse_us, Option.bind (jstr al b) parse_us) of
        (Some x, Some y) \<Rightarrow> Some (if y < x then [(''time_order'', a @ '' is after '' @ b)] else [])
      | _ \<Rightarrow> None)"

definition alert_rules :: "dict \<Rightarrow> errs option" where
  "alert_rules al =
     (let kind = dget al ''confidence_kind'';
          e1 = (if (dget al ''confidence'' = JNull) \<noteq> (kind = JStr ''unavailable'')
                then [(''confidence_consistency'', ''confidence must be null exactly when confidence_kind is '' @ quoted ''unavailable'')] else []);
          e2 = (if kind = JStr ''calibrated_probability'' \<and> dget al ''calibration_status'' \<noteq> JStr ''calibrated''
                then [(''calibration_consistency'', ''calibrated_probability requires calibration_status '' @ quoted ''calibrated'')] else []);
          e3 = (if (dget al ''model_version'' = JNull) = (dget al ''detection_method'' \<in> {JStr ''model'', JStr ''hybrid''})
                then [(''model_version_consistency'', ''model_version must be set exactly for model/hybrid detections'')] else [])
      in case (time_order al ''window_start'' ''window_end'', time_order al ''first_seen'' ''last_seen'') of
           (Some t1, Some t2) \<Rightarrow> Some (e1 @ e2 @ e3 @ t1 @ t2) | _ \<Rightarrow> None)"

definition feature_rules :: "dict \<Rightarrow> errs" where
  "feature_rules fr =
     (let values = obj_or_empty (dget fr ''values'');
          capped = (case dget fr ''capped'' of JArr xs \<Rightarrow> map text_of xs | _ \<Rightarrow> [])
      in availability_errors values (obj_or_empty (dget fr ''availability'')) []
         @ map (\<lambda>key. (''capped_unknown'', ''capped feature '' @ key @ '' has no value''))
             (filter (\<lambda>key. dget values key = JNull) capped))"

definition cross_rules :: "kind \<Rightarrow> dict \<Rightarrow> errs option" where
  "cross_rules k d = (case k of Event \<Rightarrow> Some (event_rules d) | Alert \<Rightarrow> alert_rules d | Feature \<Rightarrow> Some (feature_rules d)
     | _ \<Rightarrow> Some [])"

section \<open>validate\<close>

text \<open>\<open>py_repr\<close> is Python's \<^verbatim>\<open>repr\<close>, used in a message only.\<close>

definition validate :: "(json \<Rightarrow> string) \<Rightarrow> schema_validator \<Rightarrow> kind \<Rightarrow> json \<Rightarrow> errs option" where
  "validate py_repr iter_errors k obj =
     (let (field, supported) = VERSION_FIELDS k; d = obj_or_empty obj
      in if has_key d field \<and> \<not> hashable (dget d field) then None
         else if has_key d field \<and> dget d field \<notin> set (map JStr supported)
         then Some [(''unsupported_schema_version'', field @ ''='' @ py_repr (dget d field) @ '' not in ''
                      @ py_repr (JArr (map JStr supported)))]
         else let errs = schema_errors iter_errors k obj
              in if errs \<noteq> [] then Some errs else cross_rules k d)"

definition is_valid :: "(json \<Rightarrow> string) \<Rightarrow> schema_validator \<Rightarrow> kind \<Rightarrow> json \<Rightarrow> bool" where
  "is_valid py_repr iter_errors k obj = (validate py_repr iter_errors k obj = Some [])"

text \<open>What \<^verbatim>\<open>observation_ms\<close> returns or raises, and only its value.\<close>

definition observation_result :: "dict \<Rightarrow> conversion_error + int" where
  "observation_result ev =
     andthen (need BadValue (Option.bind (jstr ev ''event_time'') parse_us)) (\<lambda>et.
     andthen (doc_int (doc_of (dget ev ''replay_time_offset_us''))) (\<lambda>off.
     (let dur = dget (obj_or_empty (dget ev ''payload'')) ''duration_s''
      in if dget ev ''log_type'' = JStr ''conn'' \<and> dur \<noteq> JNull
         then andthen (micros (doc_of dur)) (\<lambda>us. Inr ((et + off + us) div 1000))
         else Inr ((et + off) div 1000))))"

definition observation_ms :: "dict \<Rightarrow> int option" where
  "observation_ms ev = (case observation_result ev of Inl e \<Rightarrow> None | Inr ms \<Rightarrow> Some ms)"

definition codes :: "errs \<Rightarrow> string set" where
  "codes errs = set (map fst errs)"

section \<open>Lemmas\<close>

lemma has_keyI: "(k, v) \<in> set d \<Longrightarrow> has_key d k"
  by (force simp: has_key_def)

lemma insert_err_nonempty [simp]: "insert_err e fs \<noteq> []"
  by (cases fs) auto

lemma schema_errors_Nil_iff [simp]: "schema_errors it k obj = [] \<longleftrightarrow> it k obj = []"
  by (cases "it k obj") (simp_all add: schema_errors_def)

lemma availability_exact_iff:
  assumes "distinct (map fst values)"
  shows "availability_errors values availability reasons = [] \<longleftrightarrow>
     (\<forall>k. has_key values k \<longrightarrow> (dget values k = JNull \<longleftrightarrow> has_key availability k))
     \<and> (\<forall>k. has_key availability k \<longrightarrow> has_key values k) \<and> (\<forall>k. has_key reasons k \<longrightarrow> has_key availability k)"
proof -
  have d: "(k, v) \<in> set values \<Longrightarrow> dget values k = v" for k v
    using assms by (simp add: dget_def)
  have h: "has_key values k \<longleftrightarrow> (\<exists>v. (k, v) \<in> set values)" for k
    by (force simp: has_key_def)
  have 1: "(\<forall>(k, v) \<in> set values. (v = JNull) = has_key availability k)
    \<longleftrightarrow> (\<forall>k. has_key values k \<longrightarrow> (dget values k = JNull \<longleftrightarrow> has_key availability k))"
    unfolding h by (auto simp: d)
  have 2: "availability_errors values availability reasons = [] \<longleftrightarrow>
    (\<forall>(k, v) \<in> set values. (v = JNull) = has_key availability k)
    \<and> (\<forall>k \<in> set (map fst availability). has_key values k) \<and> (\<forall>k \<in> set (map fst reasons). has_key availability k)"
    unfolding availability_errors_def append_is_Nil_conv concat_eq_Nil_conv
    by (intro conj_cong; simp add: filter_empty_conv split_beta) (rule ball_cong; auto)
  show ?thesis unfolding 2 1 by (auto simp: has_key_def)
qed

text \<open>
  availability_errors reports nothing exactly when the null fields are the fields with an
  availability state, every state names a field, and every reason belongs to a state.
\<close>

theorem availability_exact:
  assumes "distinct (map fst values)"
  shows "availability_errors values availability reasons = [] \<longleftrightarrow>
     (\<forall>k. has_key values k \<longrightarrow> (dget values k = JNull \<longleftrightarrow> has_key availability k))
     \<and> (\<forall>k. has_key availability k \<longrightarrow> has_key values k) \<and> (\<forall>k. has_key reasons k \<longrightarrow> has_key availability k)"
  using assms by (rule availability_exact_iff)

theorem availability_exact_witness:
  "availability_errors [(''rtt_s'', JNull), (''proto'', JStr ''udp'')] [(''rtt_s'', JStr ''MISSING'')] [] = []"
  using availability_exact [of "[(''rtt_s'', JNull), (''proto'', JStr ''udp'')]" "[(''rtt_s'', JStr ''MISSING'')]" "[]"]
  by (simp add: has_key_def dget_def)

text \<open>
  validate accepts a document exactly when its version field, if present, is supported, the
  schema validator finds no error and the cross-field rules find none; an unsupported version is
  reported as such and alone, whatever else is wrong with the document (a list or object there raises).
\<close>

theorem validate_branches:
  "(is_valid py_repr it k (JObj d) \<longleftrightarrow>
      (has_key d (fst (VERSION_FIELDS k)) \<longrightarrow> dget d (fst (VERSION_FIELDS k)) \<in> set (map JStr (snd (VERSION_FIELDS k))))
      \<and> it k (JObj d) = [] \<and> cross_rules k d = Some [])
   \<and> (has_key d (fst (VERSION_FIELDS k)) \<and> hashable (dget d (fst (VERSION_FIELDS k)))
        \<and> dget d (fst (VERSION_FIELDS k)) \<notin> set (map JStr (snd (VERSION_FIELDS k)))
        \<longrightarrow> (\<exists>m. validate py_repr it k (JObj d) = Some [(''unsupported_schema_version'', m)]))"
  by (auto simp: is_valid_def validate_def split: prod.splits)

text \<open>A version that is a list or an object escapes as TypeError instead of being reported.\<close>

lemma validate_unhashable_raises:
  "validate py_repr it Event (JObj [(''event_schema_version'', JArr [])]) = None"
  by (simp add: validate_def VERSION_FIELDS_def has_key_def)

theorem validate_branches_witness:
  "\<exists>m. validate (\<lambda>_. []) (\<lambda>_ _. []) Event (JObj [(''event_schema_version'', JStr ''2.0.0'')])
     = Some [(''unsupported_schema_version'', m)]"
  by (rule validate_branches [THEN conjunct2, THEN mp]) (simp add: VERSION_FIELDS_def has_key_def dget_def)

end
