(* ===== verification/Receiver.thy ===== *)
theory Receiver
  imports Spool Dedup Reassembly Contracts Ids
begin

text \<open>
  The receiver pipeline (\<^verbatim>\<open>ingest/receiver/sih_receiver/core.py\<close>): a datagram is decoded,
  reassembled, deduplicated, validated and appended to the spool, or quarantined; housekeeping expires
  fragments, syncs the spool and writes the snapshot of the deduplication window, from which a restart
  rebuilds it together with the spool. The main loop catches what a handler raises and goes on, so a
  handler returns its state and whether it raised.
  The JSON decoder and encoder, the schema validator, Python's \<^verbatim>\<open>repr\<close> and the lossy UTF-8 decoder
  are the fields of \<open>rx_env\<close>; \<open>clock\<close> is the monotonic and the wall clock at which an operation runs.
  Prometheus counters are the list of increments, gauges a map; the latency histogram is left out.
\<close>

section \<open>State\<close>

record rx_env =
  rx_loads :: "bytes \<Rightarrow> json option"
  rx_dumps :: "json \<Rightarrow> bytes"
  rx_iter_errors :: schema_validator
  rx_repr :: "json \<Rightarrow> string"
  rx_replace :: "bytes \<Rightarrow> string"

record clock =
  mono :: real
  wall_us :: int

record sensor =
  sn_boot :: string
  sn_at :: real
  sn_rec :: dict

record receiver =
  rc_key :: bytes
  rc_pending :: pendings
  rc_dedup :: dedup
  rc_spool :: spool
  rc_counts :: "(string \<times> string) list"
  rc_gauges :: "((string \<times> string) \<times> real) list"
  rc_health_seen :: "(string \<times> int) list"
  rc_sensors :: "(string \<times> sensor) list"
  rc_q_rate :: int
  rc_q_tokens :: real
  rc_q_refill :: real
  rc_last_snapshot :: real
  rc_file :: "(snap \<times> string) option"

type_synonym outcome = "receiver \<times> bool"

definition bump :: "string \<Rightarrow> string \<Rightarrow> receiver \<Rightarrow> receiver" where
  "bump name lab R = R\<lparr>rc_counts := rc_counts R @ [(name, lab)]\<rparr>"

definition gauge :: "string \<Rightarrow> string \<Rightarrow> real \<Rightarrow> receiver \<Rightarrow> receiver" where
  "gauge name lab x R = R\<lparr>rc_gauges := od_set (name, lab) x (rc_gauges R)\<rparr>"

definition mark_rx :: "complete \<Rightarrow> receiver \<Rightarrow> receiver" where
  "mark_rx c R = R\<lparr>rc_dedup := snd (mark (rc_dedup R) (c_sensor c) (c_boot c) (int (c_seq c)))\<rparr>"

text \<open>Sequencing: what follows runs when nothing was raised.\<close>

definition and_then :: "outcome \<Rightarrow> (receiver \<Rightarrow> outcome) \<Rightarrow> outcome" where
  "and_then r f = (if snd r then r else f (fst r))"

section \<open>Quarantine\<close>

text \<open>\<^verbatim>\<open>quarantine\<close>: always counted, written to the spool while the token bucket allows it.\<close>

definition refill :: "real \<Rightarrow> receiver \<Rightarrow> receiver" where
  "refill now R = R\<lparr>rc_q_tokens := min (of_int (rc_q_rate R)) (rc_q_tokens R + (now - rc_q_refill R) * of_int (rc_q_rate R)),
     rc_q_refill := now\<rparr>"

definition invalid_doc ::
  "rx_env \<Rightarrow> string \<Rightarrow> string \<Rightarrow> string \<Rightarrow> string option \<Rightarrow> string option \<Rightarrow> int option \<Rightarrow> bytes option \<Rightarrow> dict" where
  "invalid_doc E detected why detail sid boot sq raw =
     (let sha = map_option (\<lambda>b. hex_of (sha256 b)) raw;
          excerpt = (case raw of None \<Rightarrow> None | Some b \<Rightarrow>
            if why \<in> {''frame_hmac_invalid'', ''frame_malformed''} then None else Some (py_take 2048 (rx_replace E b)))
      in [(''invalid_schema_version'', JStr ''1.0.0''),
          (''invalid_id'', JStr (invalid_id ''receiver'' why sha sid boot sq)), (''detected_at'', JStr detected),
          (''stage'', JStr ''receiver''), (''reason_code'', JStr why), (''detail'', JStr (py_take 512 detail)),
          (''sensor_id'', case sid of None \<Rightarrow> JNull | Some s \<Rightarrow> if s = [] then JNull else JStr (py_take 63 s)),
          (''sensor_boot_id'', of_opt_str boot),
          (''sequence'', case sq of None \<Rightarrow> JNull | Some q \<Rightarrow> if 0 \<le> q then JInt q else JNull),
          (''raw_sha256'', of_opt_str sha), (''raw_size_bytes'', JInt (case raw of None \<Rightarrow> 0 | Some b \<Rightarrow> int (length b))),
          (''raw_excerpt'', of_opt_str excerpt)])"

definition quarantine ::
  "rx_env \<Rightarrow> clock \<Rightarrow> string \<Rightarrow> string \<Rightarrow> string option \<Rightarrow> string option \<Rightarrow> int option \<Rightarrow> bytes option \<Rightarrow> receiver \<Rightarrow> outcome" where
  "quarantine E t why detail sid boot sq raw R =
     (let R1 = refill (mono t) (bump ''receiver_records_invalid_total'' why R)
      in if rc_q_tokens R1 < 1 then (bump ''receiver_quarantine_suppressed_total'' [] R1, False)
         else let R2 = R1\<lparr>rc_q_tokens := rc_q_tokens R1 - 1\<rparr> in
           case format_us (wall_us t) of None \<Rightarrow> (R2, True)
           | Some detected \<Rightarrow>
               let doc = invalid_doc E detected why detail sid boot sq raw in
               case spool_append (rc_spool R2) TOPIC_INVALID (utf8 (text_of (dget doc ''invalid_id''))) None None (- 1) 0
                      (rx_dumps E (JObj doc)) of
                 Inl _ \<Rightarrow> (R2, True)
               | Inr (_, sp) \<Rightarrow> (R2\<lparr>rc_spool := sp\<rparr>, False))"

definition quarantine_record :: "rx_env \<Rightarrow> clock \<Rightarrow> string \<Rightarrow> string \<Rightarrow> complete \<Rightarrow> receiver \<Rightarrow> outcome" where
  "quarantine_record E t why detail c R =
     quarantine E t why detail (Some (c_sensor c)) (Some (c_boot c)) (Some (int (c_seq c))) (Some (c_record c)) R"

fun quarantine_all :: "rx_env \<Rightarrow> clock \<Rightarrow> string \<Rightarrow> expired list \<Rightarrow> receiver \<Rightarrow> outcome" where
  "quarantine_all E t detail [] R = (R, False)"
| "quarantine_all E t detail (x # xs) R =
     and_then (quarantine E t (x_reason x) detail (Some (x_sensor x)) (Some (x_boot x)) (Some (int (x_seq x))) None R)
       (quarantine_all E t detail xs)"

section \<open>Events\<close>

definition code_reason :: "string \<Rightarrow> string \<Rightarrow> string" where
  "code_reason code other = (if code = ''schema'' then ''schema_violation''
     else if code = ''unsupported_schema_version'' then ''unsupported_schema_version'' else other)"

definition error_detail :: "errs \<Rightarrow> string" where
  "error_detail errs = concat (case map snd (take 3 errs) of [] \<Rightarrow> [] | m # ms \<Rightarrow> m # map (\<lambda>x. ''; '' @ x) ms)"

text \<open>The key under which Kafka partitions. A uid that is neither text nor absent is outside the schema.\<close>

definition partition_key :: "dict \<Rightarrow> bytes option" where
  "partition_key ev =
     (case (map_of ev ''payload'', jstr ev ''sensor_id'', jstr ev ''sensor_boot_id'', jstr ev ''event_id'') of
        (Some (JObj pl), Some sid, Some boot, Some eid) \<Rightarrow>
          (let uid = dget pl ''uid''; rid = (case jstr ev ''replay_run_id'' of None \<Rightarrow> [] | Some r \<Rightarrow> r)
           in case uid of
                JStr u \<Rightarrow> if u = [] then ascii_bytes eid else Some (utf8 (sid @ ''|'' @ boot @ ''|'' @ rid @ ''|'' @ u))
              | v \<Rightarrow> if truthy v then None else ascii_bytes eid)
      | _ \<Rightarrow> None)"

text \<open>\<^verbatim>\<open>==\<close> of a JSON number with an integer.\<close>

fun num_eq :: "json \<Rightarrow> int \<Rightarrow> bool" where
  "num_eq (JInt i) n = (i = n)"
| "num_eq (JReal x) n = (x = of_int n)"
| "num_eq (JBool b) n = ((if b then 1 else 0) = n)"
| "num_eq _ n = False"

text \<open>\<^verbatim>\<open>_validate_event\<close>: \<open>None\<close> raises, \<open>Some (None, ev)\<close> is valid; the reason and detail otherwise. Reads
  of fields the schema requires raise when they are absent or of another type.\<close>

definition identity_errors :: "dict \<Rightarrow> complete \<Rightarrow> (string \<times> string) option option" where
  "identity_errors ev c =
     (case (map_of ev ''sensor_id'', map_of ev ''sensor_boot_id'', map_of ev ''sequence'') of
        (Some s, Some b, Some q) \<Rightarrow>
          if s \<noteq> JStr (c_sensor c) \<or> b \<noteq> JStr (c_boot c) \<or> \<not> num_eq q (int (c_seq c))
          then Some (Some (''schema_violation'', ''envelope identity does not match link frame identity''))
          else (case (map_of ev ''original_record_sha256'', map_of ev ''original_record'', map_of ev ''event_id'') of
                  (Some (JStr sha), Some orig, Some eid) \<Rightarrow>
                    (case orig of
                       JNull \<Rightarrow> Some (if eid \<noteq> JStr (event_id (c_sensor c) (c_boot c) (int (c_seq c)) sha)
                         then Some (''schema_violation'', ''event_id is not the deterministic id for sensor/boot/sequence/hash'') else None)
                     | JStr txt \<Rightarrow>
                         if hex_of (sha256 (utf8 txt)) \<noteq> sha
                         then Some (Some (''schema_violation'', ''original_record_sha256 does not match original_record''))
                         else Some (if eid \<noteq> JStr (event_id (c_sensor c) (c_boot c) (int (c_seq c)) sha)
                           then Some (''schema_violation'', ''event_id is not the deterministic id for sensor/boot/sequence/hash'') else None)
                     | _ \<Rightarrow> None)
                | _ \<Rightarrow> None)
      | _ \<Rightarrow> None)"

definition validate_event :: "rx_env \<Rightarrow> json \<Rightarrow> complete \<Rightarrow> ((string \<times> string) option \<times> dict) option" where
  "validate_event E doc c =
     (case as_obj doc of
        None \<Rightarrow> Some (Some (''json_parse_error'', ''record is not a JSON object''), [])
      | Some d \<Rightarrow>
          (case format_us (c_received_at c) of None \<Rightarrow> None
           | Some recv \<Rightarrow>
               let ev = od_set ''receiver_received_at'' (JStr recv) d in
               case validate (rx_repr E) (rx_iter_errors E) Event (JObj ev) of
                 None \<Rightarrow> None
               | Some [] \<Rightarrow> map_option (\<lambda>e. (e, ev)) (identity_errors ev c)
               | Some (e # es) \<Rightarrow> Some (Some (code_reason (fst e) ''availability_violation'', error_detail (e # es)), ev)))"

definition rx_event :: "rx_env \<Rightarrow> clock \<Rightarrow> complete \<Rightarrow> receiver \<Rightarrow> outcome" where
  "rx_event E t c R =
     (if check (rc_dedup R) (c_sensor c) (c_boot c) (int (c_seq c)) \<in> {DUPLICATE, STALE} then (mark_rx c R, False)
      else case rx_loads E (c_record c) of
        None \<Rightarrow> quarantine_record E t ''json_parse_error'' ''record is not valid UTF-8 JSON'' c (mark_rx c R)
      | Some doc \<Rightarrow>
          (case validate_event E doc c of
             None \<Rightarrow> (R, True)
           | Some (Some (why, detail), _) \<Rightarrow> quarantine_record E t why detail c (mark_rx c R)
           | Some (None, ev) \<Rightarrow>
               (case (partition_key ev, observation_ms ev) of
                  (Some key, Some ts) \<Rightarrow>
                    (case spool_append (rc_spool R) TOPIC_RAW key (Some (c_sensor c)) (Some (c_boot c)) (int (c_seq c)) ts
                            (rx_dumps E (JObj ev)) of
                       Inl _ \<Rightarrow> (R, True)
                     | Inr (stored, sp) \<Rightarrow>
                         if \<not> stored then (bump ''receiver_dropped_total'' ''spool_full'' R, False)
                         else (bump ''receiver_records_accepted_total'' ''raw-events.v1'' (mark_rx c (R\<lparr>rc_spool := sp\<rparr>)), False))
                | _ \<Rightarrow> (R, True))))"

section \<open>Sensor health\<close>

fun set_gauges :: "string \<Rightarrow> (string \<times> int option) list \<Rightarrow> receiver \<Rightarrow> outcome" where
  "set_gauges sid [] R = (R, False)"
| "set_gauges sid ((name, None) # gs) R = (R, True)"
| "set_gauges sid ((name, Some v) # gs) R = set_gauges sid gs (gauge name sid (of_int v) R)"

definition health_gauges :: "dict \<Rightarrow> (string \<times> int option) list" where
  "health_gauges h =
     [(''sensor_last_sequence_sent'',
         (case map_of h ''last_sequence_sent'' of Some JNull \<Rightarrow> Some (- 1) | Some v \<Rightarrow> as_int v | None \<Rightarrow> None)),
      (''sensor_backlog_bytes'', jint h ''spool_bytes''),
      (''sensor_records_invalid_local_total'', jint h ''records_invalid_local_total''),
      (''sensor_records_rejected_oversize_total'', jint h ''records_rejected_oversize_total'')]"

definition health_store :: "rx_env \<Rightarrow> clock \<Rightarrow> complete \<Rightarrow> dict \<Rightarrow> receiver \<Rightarrow> outcome" where
  "health_store E t c h R =
     (let sid = c_sensor c;
          R1 = R\<lparr>rc_sensors := od_set sid \<lparr>sn_boot = c_boot c, sn_at = mono t, sn_rec = h\<rparr> (rc_sensors R)\<rparr>
      in and_then (set_gauges sid (health_gauges h) R1) (\<lambda>R2.
           case spool_append (rc_spool R2) TOPIC_HEALTH (utf8 sid) None None (- 1) 0 (rx_dumps E (JObj h)) of
             Inl _ \<Rightarrow> (R2, True)
           | Inr (stored, sp) \<Rightarrow>
               (if stored then bump ''receiver_records_accepted_total'' ''sensor-health.v1'' (R2\<lparr>rc_spool := sp\<rparr>)
                else bump ''receiver_dropped_total'' ''spool_full'' R2, False)))"

definition health_received :: "json \<Rightarrow> complete \<Rightarrow> json option" where
  "health_received doc c =
     (case as_obj doc of None \<Rightarrow> Some doc
      | Some d \<Rightarrow> map_option (\<lambda>ts. JObj (od_set ''received_at'' (JStr ts) d)) (format_us (c_received_at c)))"

definition rx_health :: "rx_env \<Rightarrow> clock \<Rightarrow> complete \<Rightarrow> receiver \<Rightarrow> outcome" where
  "rx_health E t c R =
     (let key = stream_key (c_sensor c) (c_boot c)
      in if int (c_seq c) \<le> (case map_of (rc_health_seen R) key of None \<Rightarrow> - 1 | Some q \<Rightarrow> q) then (R, False)
         else let R1 = R\<lparr>rc_health_seen := od_set key (int (c_seq c)) (rc_health_seen R)\<rparr> in
           case rx_loads E (c_record c) of
             None \<Rightarrow> quarantine_record E t ''json_parse_error'' ''health record is not valid UTF-8 JSON'' c R1
           | Some doc0 \<Rightarrow>
             (case health_received doc0 c of
                None \<Rightarrow> (R1, True)
              | Some doc \<Rightarrow>
                (case validate (rx_repr E) (rx_iter_errors E) SensorHealth doc of
                   None \<Rightarrow> (R1, True)
                 | Some (e # es) \<Rightarrow>
                     quarantine_record E t (code_reason (fst e) ''schema_violation'') (error_detail (e # es)) c R1
                 | Some [] \<Rightarrow>
                     (case as_obj doc of
                        None \<Rightarrow> (R1, True)
                      | Some h \<Rightarrow>
                          (case (map_of h ''sensor_id'', map_of h ''sensor_boot_id'') of
                             (Some s, Some b) \<Rightarrow>
                               if s \<noteq> JStr (c_sensor c) \<or> b \<noteq> JStr (c_boot c)
                               then quarantine_record E t ''schema_violation'' ''health identity does not match link frame identity'' c R1
                               else health_store E t c h R1
                           | _ \<Rightarrow> (R1, True))))))"

section \<open>Datagrams\<close>

definition rx_complete :: "rx_env \<Rightarrow> clock \<Rightarrow> complete \<Rightarrow> receiver \<Rightarrow> outcome" where
  "rx_complete E t c R =
     (if c_type c = TYPE_HEALTH then rx_health E t c (bump ''receiver_records_total'' ''health'' R)
      else rx_event E t c (bump ''receiver_records_total'' ''event'' R))"

definition handle_datagram :: "rx_env \<Rightarrow> clock \<Rightarrow> bytes \<Rightarrow> int \<Rightarrow> receiver \<Rightarrow> outcome" where
  "handle_datagram E t data now_us R0 =
     (let R = bump ''receiver_datagrams_total'' [] R0
      in case decode (rc_key R) data of
           Inl (FrameError why msg) \<Rightarrow>
             quarantine E t why msg None None None (Some data) (bump ''receiver_frames_rejected_total'' why R)
         | Inr f \<Rightarrow>
             (let (done, evicted, ps) = add MAX_PENDING (rc_pending R) f now_us
              in and_then (quarantine_all E t ''reassembly limit reached'' evicted (R\<lparr>rc_pending := ps\<rparr>)) (\<lambda>R2.
                   case done of None \<Rightarrow> (R2, False) | Some c \<Rightarrow> rx_complete E t c R2)))"

section \<open>Housekeeping and restart\<close>

definition window_gauges :: "receiver \<Rightarrow> receiver" where
  "window_gauges R =
     gauge ''link_stale_records_total'' [] (of_int (stale_total (rc_dedup R)))
      (gauge ''link_reordered_records_total'' [] (of_int (reordered_total (rc_dedup R)))
      (gauge ''link_duplicate_records_total'' [] (of_int (duplicates_total (rc_dedup R)))
      (gauge ''link_gap_records_total'' [] (of_int (gaps_total (rc_dedup R)))
      (gauge ''link_missing_in_window'' [] (of_int (missing_in_window (rc_dedup R)))
      (gauge ''receiver_reassembly_pending'' [] (of_nat (pending_count (rc_pending R)))
      (gauge ''receiver_spool_bytes'' [] (of_nat (total_bytes (rc_spool R))) R))))))"

definition sensor_gauges :: "real \<Rightarrow> receiver \<Rightarrow> receiver" where
  "sensor_gauges now R = foldl (\<lambda>R' (sid, s).
     gauge ''sensor_highest_sequence_received'' sid (of_int (highest_of (rc_dedup R') sid (sn_boot s)))
       (gauge ''sensor_health_age_seconds'' sid (now - sn_at s) R')) R (rc_sensors R)"

definition housekeeping :: "rx_env \<Rightarrow> clock \<Rightarrow> receiver \<Rightarrow> outcome" where
  "housekeeping E t R0 =
     (let (timed_out, ps) = expire TIMEOUT_US (wall_us t) (rc_pending R0)
      in and_then (quarantine_all E t ''fragments incomplete'' timed_out (R0\<lparr>rc_pending := ps\<rparr>)) (\<lambda>R.
           let (pos, sp) = spool_sync (rc_spool R);
               R1 = sensor_gauges (mono t) (window_gauges (R\<lparr>rc_spool := sp\<rparr>))
           in (if mono t - rc_last_snapshot R1 \<ge> 1
               then R1\<lparr>rc_file := Some (snapshot (rc_dedup R1), position_text pos), rc_last_snapshot := mono t\<rparr> else R1, False)))"

definition replay_entry :: "dedup \<Rightarrow> entry \<Rightarrow> dedup" where
  "replay_entry d x =
     (case (e_sensor x, e_boot x) of
        (Some sid, Some boot) \<Rightarrow> if e_topic x = TOPIC_RAW \<and> sid \<noteq> [] then snd (mark d sid boot (e_seq x)) else d
      | _ \<Rightarrow> d)"

text \<open>The replay loop; the outer \<open>None\<close> is a loop that never ends, \<open>Inl\<close> an exception.\<close>

partial_function (option) replay :: "spool \<Rightarrow> position \<Rightarrow> position \<Rightarrow> dedup \<Rightarrow> (spool_error + dedup) option" where
  "replay sp start limit d =
     (if \<not> pos_less start limit then Some (Inr d)
      else case spool_read sp start limit 5000 of
             Inl e \<Rightarrow> Some (Inl e)
           | Inr xs \<Rightarrow> if xs = [] then Some (Inr d) else replay sp (e_end (last xs)) limit (foldl replay_entry d xs))"

definition pos_max :: "position \<Rightarrow> position \<Rightarrow> position" where
  "pos_max p q = (if pos_less p q then q else p)"

text \<open>\<^verbatim>\<open>_restore_dedup\<close>. The inner \<open>None\<close> is an exception, that of a file that does not decode included.\<close>

definition restore_dedup :: "(snap \<times> string) option \<Rightarrow> spool \<Rightarrow> dedup option option" where
  "restore_dedup file sp =
     (let run = (\<lambda>start d. map_option (\<lambda>r. case r of Inl _ \<Rightarrow> None | Inr d' \<Rightarrow> Some d') (replay sp start (spool_end sp) d))
      in case file of
           None \<Rightarrow> run (first_position sp) dedup_init
         | Some (sn, txt) \<Rightarrow>
             (case (restore sn, parse_position txt) of
                (Some d, Some p) \<Rightarrow> run (pos_max (first_position sp) p) d
              | _ \<Rightarrow> Some None))"

definition rx_start ::
  "bytes \<Rightarrow> int \<Rightarrow> real \<Rightarrow> nat \<Rightarrow> nat \<Rightarrow> (nat \<times> bytes) list \<Rightarrow> (snap \<times> string) option \<Rightarrow> receiver option option" where
  "rx_start key rate now mx seg_bytes fs file =
     (let sp = open_spool fs mx seg_bytes
      in map_option (map_option (\<lambda>d. \<lparr>rc_key = key, rc_pending = [], rc_dedup = d, rc_spool = sp, rc_counts = [],
           rc_gauges = [((''receiver_spool_max_bytes'', []), of_nat mx)], rc_health_seen = [], rc_sensors = [],
           rc_q_rate = rate, rc_q_tokens = of_int rate, rc_q_refill = now, rc_last_snapshot = 0, rc_file = file\<rparr>))
         (restore_dedup file sp))"

end
