(* ===== verification/SpoolLog.thy ===== *)
theory SpoolLog
  imports Spool
begin

text \<open>
  The spool as an ordered log of entries: positions and record boundaries, reading from a boundary, what
  appending, syncing, releasing and a crash do to the log and to the positions others hold (the
  receiver's snapshot and the publisher's cursor).
\<close>

section \<open>The log is ordered by position\<close>

definition boundary :: "spool \<Rightarrow> (nat \<Rightarrow> bytes list) \<Rightarrow> position \<Rightarrow> bool" where
  "boundary sp bs p \<longleftrightarrow> fst p \<in> fst ` set (sizes sp) \<and> (\<exists>b1 b2. bs (fst p) = b1 @ b2 \<and> snd p = rec_len b1)"

definition follows :: "entry \<Rightarrow> entry \<Rightarrow> bool" where
  "follows x y \<longleftrightarrow> \<not> pos_less (e_start y) (e_end x)"

lemma pos_less_trans [trans]: "pos_less p q \<Longrightarrow> pos_less q r \<Longrightarrow> pos_less p r"
  by (cases p; cases q; cases r) auto

lemma pos_less_le_trans: "pos_less p q \<Longrightarrow> \<not> pos_less r q \<Longrightarrow> pos_less p r"
  by (cases p; cases q; cases r) auto

lemma pos_le_less_trans: "\<not> pos_less q p \<Longrightarrow> pos_less q r \<Longrightarrow> pos_less p r"
  by (cases p; cases q; cases r) auto

lemma pos_less_irrefl [simp]: "\<not> pos_less p p"
  by (cases p) simp

lemma seg_entries_end:
  "\<forall>b \<in> set bs. body_wf b \<Longrightarrow> x \<in> set (seg_entries k off bs) \<Longrightarrow>
    \<exists>c1 c2. bs = c1 @ c2 \<and> e_end x = (k, off + rec_len c1) \<and> pos_less (e_start x) (e_end x)"
proof (induction bs arbitrary: off)
  case (Cons b bs)
  show ?case
  proof (cases "x = entry_at b (k, off) (k, off + 8 + length b)")
    case True
    then show ?thesis using entry_at(2,3) [of b] Cons.prems by (intro exI [of _ "[b]"] exI [of _ bs]) auto
  next
    case False
    then have "x \<in> set (seg_entries k (off + 8 + length b) bs)" using Cons.prems(2) by auto
    then obtain c1 c2 where "bs = c1 @ c2" "e_end x = (k, off + 8 + length b + rec_len c1)" "pos_less (e_start x) (e_end x)"
      using Cons.IH [of "off + 8 + length b"] Cons.prems(1) by auto
    then show ?thesis by (intro exI [of _ "b # c1"] exI [of _ c2]) auto
  qed
qed simp

lemma seg_entries_sorted: "\<forall>b \<in> set bs. body_wf b \<Longrightarrow> sorted_wrt follows (seg_entries k off bs)"
proof (induction bs arbitrary: off)
  case (Cons b bs)
  have "follows (entry_at b (k, off) (k, off + 8 + length b)) y" if y: "y \<in> set (seg_entries k (off + 8 + length b) bs)" for y
    using seg_entries_start [OF _ y] Cons.prems entry_at(3) [of b] by (auto simp: follows_def)
  then show ?case using Cons by simp
qed simp

lemma spool_log_entry:
  assumes "spool_ok sp bs" "x \<in> set (spool_log sp bs)"
  shows "\<exists>k. k \<in> fst ` set (sizes sp) \<and> x \<in> set (seg_entries k 0 (bs k)) \<and> (\<forall>b \<in> set (bs k). body_wf b)"
  using assms by (fastforce simp: spool_log_def seg_log_def spool_ok_def)

lemma spool_log_sorted:
  assumes "spool_ok sp bs"
  shows "sorted_wrt follows (spool_log sp bs)"
proof -
  have wf: "\<forall>b \<in> set (bs k). body_wf b" for k using assms by (simp add: spool_ok_def)
  have "sorted_wrt follows (seg_log bs ks)" if "sorted ks" "distinct ks" for ks
    using that
  proof (induction ks)
    case (Cons k ks)
    have "follows x y" if x: "x \<in> set (seg_entries k 0 (bs k))" and y: "y \<in> set (seg_entries j 0 (bs j))" and j: "j \<in> set ks" for x y j
    proof -
      have "k < j" using Cons.prems j by (auto simp: order_less_le)
      then show ?thesis using seg_entries_end [OF wf x] seg_entries_start [OF wf y] by (auto simp: follows_def)
    qed
    then show ?case using Cons seg_entries_sorted [OF wf] by (auto simp: seg_log_def sorted_wrt_append)
  qed (simp add: seg_log_def)
  then show ?thesis using assms by (simp add: spool_log_def spool_ok_def)
qed

lemma spool_log_before_end:
  assumes "spool_ok sp bs" "x \<in> set (spool_log sp bs)"
  shows "pos_less (e_start x) (spool_end sp)" "boundary sp bs (e_end x)" "pos_less (e_start x) (e_end x)"
proof -
  obtain k where k: "k \<in> fst ` set (sizes sp)" "x \<in> set (seg_entries k 0 (bs k))" "\<forall>b \<in> set (bs k). body_wf b"
    using spool_log_entry [OF assms] by blast
  obtain o' where o: "e_start x = (k, o')" "o' < rec_len (bs k)" using seg_entries_start [OF k(3,2)] by auto
  have "k \<le> active sp" using assms(1) k(1) by (auto simp: spool_ok_def)
  then show "pos_less (e_start x) (spool_end sp)"
    using o spool_ok_size(1) [OF assms(1)] by (auto simp: spool_end_def order_le_less)
  obtain c1 c2 where c: "bs k = c1 @ c2" "e_end x = (k, rec_len c1)" "pos_less (e_start x) (e_end x)"
    using seg_entries_end [OF k(3,2)] by auto
  then show "boundary sp bs (e_end x)" "pos_less (e_start x) (e_end x)" using k(1) unfolding boundary_def by auto
qed

definition from_pos :: "position \<Rightarrow> entry list \<Rightarrow> entry list" where
  "from_pos p xs = filter (\<lambda>x. \<not> pos_less (e_start x) p) xs"

lemma from_pos_split:
  assumes ok: "spool_ok sp bs" and e: "from_pos p (spool_log sp bs) = xs @ ys" and xs: "xs \<noteq> []"
  shows "from_pos (e_end (last xs)) (spool_log sp bs) = ys"
proof -
  let ?L = "spool_log sp bs" and ?z = "last xs"
  have sub: "set (xs @ ys) \<subseteq> set ?L" unfolding e [symmetric] by (auto simp: from_pos_def)
  have srt: "sorted_wrt follows (xs @ ys)"
    unfolding e [symmetric] from_pos_def by (rule sorted_wrt_filter) (rule spool_log_sorted [OF ok])
  have "?z \<in> set (xs @ ys)" using xs by simp
  then have zL: "?z \<in> set ?L" and "?z \<in> set (from_pos p ?L)" using sub e by (blast, simp)
  then have zp: "\<not> pos_less (e_start ?z) p" by (simp add: from_pos_def)
  have z: "pos_less (e_start ?z) (e_end ?z)" by (rule spool_log_before_end(3) [OF ok zL])
  have "from_pos (e_end ?z) ?L = from_pos (e_end ?z) (from_pos p ?L)"
    unfolding from_pos_def filter_filter
  proof (rule filter_cong [OF refl])
    fix x assume "x \<in> set ?L"
    show "(\<not> pos_less (e_start x) (e_end ?z)) = (\<not> pos_less (e_start x) p \<and> \<not> pos_less (e_start x) (e_end ?z))"
      using pos_less_le_trans zp z pos_less_trans by blast
  qed
  also have "\<dots> = from_pos (e_end ?z) xs @ from_pos (e_end ?z) ys" unfolding e by (simp add: from_pos_def)
  also have "from_pos (e_end ?z) xs = []"
  proof -
    have x: "xs = butlast xs @ [?z]" using xs by simp
    have "pos_less (e_start y) (e_end ?z)" if "y \<in> set (butlast xs)" for y
    proof -
      have "sorted_wrt follows (butlast xs @ [?z])" using srt x by (simp add: sorted_wrt_append)
      then have f: "\<not> pos_less (e_start ?z) (e_end y)" using that by (simp add: sorted_wrt_append follows_def)
      have "y \<in> set ?L" using that in_set_butlastD [of y xs] sub by auto
      then have "pos_less (e_start y) (e_end y)" by (rule spool_log_before_end(3) [OF ok])
      from pos_less_trans [OF pos_less_le_trans [OF this f] z] show ?thesis .
    qed
    then show ?thesis using z x unfolding from_pos_def filter_empty_conv by (metis Un_iff empty_iff insert_iff list.set set_append)
  qed
  also have "from_pos (e_end ?z) ys = ys"
    unfolding from_pos_def using srt xs by (intro filter_True) (auto simp: sorted_wrt_append follows_def)
  finally show ?thesis by simp
qed

lemma read_from_boundary:
  assumes ok: "spool_ok sp bs" and p: "boundary sp bs p"
  shows "spool_read sp p (spool_end sp) n = Inr (take n (from_pos p (spool_log sp bs)))"
proof -
  obtain b1 b2 where b: "fst p \<in> fst ` set (sizes sp)" "bs (fst p) = b1 @ b2" "p = (fst p, rec_len b1)"
    using p by (cases p) (auto simp: boundary_def)
  have e: "spool_end sp = (active sp, rec_len (bs (active sp)))" by (simp add: spool_end_def spool_ok_size(1) [OF ok])
  have "filter (between p (spool_end sp)) (spool_log sp bs) = from_pos p (spool_log sp bs)"
    unfolding from_pos_def using spool_log_before_end(1) [OF ok] by (intro filter_cong) (auto simp: between_def)
  then show ?thesis using spool_read_log [OF ok b(1,2), of "active sp" "bs (active sp)" "[]" n] e b(3) by simp
qed

section \<open>What an append and a release do to positions\<close>

definition extends :: "spool \<Rightarrow> (nat \<Rightarrow> bytes list) \<Rightarrow> spool \<Rightarrow> (nat \<Rightarrow> bytes list) \<Rightarrow> bool" where
  "extends sp bs sp' bs' \<longleftrightarrow> (\<forall>k. \<exists>t. bs' k = bs k @ t) \<and> fst ` set (sizes sp) \<subseteq> fst ` set (sizes sp')
     \<and> (\<forall>k \<in> fst ` set (sizes sp'). k \<in> fst ` set (sizes sp) \<or> active sp < k) \<and> active sp \<le> active sp' \<and> synced sp' = synced sp"

lemma spool_append_extends:
  assumes ok: "spool_ok sp bs" and a: "spool_append sp tp key sid boot sq ts val = Inr (True, sp')"
  shows "\<exists>bs' x. spool_ok sp' bs' \<and> extends sp bs sp' bs' \<and> spool_log sp' bs' = spool_log sp bs @ [x]
    \<and> \<not> pos_less (e_start x) (spool_end sp) \<and> e_topic x = tp \<and> e_key x = key \<and> e_seq x = sq \<and> e_ts_ms x = ts \<and> e_value x = val
    \<and> (\<forall>t ub. sid = Some t \<and> t \<noteq> [] \<and> boot = Some (uuid_str ub) \<and> length ub = 16 \<longrightarrow> e_sensor x = sid \<and> e_boot x = boot)"
proof -
  obtain body where b: "pack_body tp key sid boot sq ts val = Inr body" "length body < 2 ^ 32"
      "append_record sp (record_of body) = (True, sp')"
    using a by (auto simp: spool_append_def not_le split: sum.splits if_splits)
  have wf: "body_wf body"
    using pack_parse [OF b(1)] pack_body_length [OF b(1)] b(2) by (auto simp: body_wf_def body_ok_def)
  let ?bs = "bs(active sp' := bs (active sp') @ [body])"
  note r = append_record_log [OF ok wf b(3)]
  obtain s where s: "spool_log sp' ?bs = spool_log sp bs @ [entry_at body s (spool_end sp')]" using r(2) by blast
  have sp': "sp' = write_record (record_of body) (append_target sp (length (record_of body)))"
    using b(3) by (auto simp: append_record_def append_target_def split: if_splits)
  have act: "active sp \<in> fst ` set (sizes sp)" using ok by (simp add: spool_ok_def)
  have keys: "fst ` set (sizes sp') = insert (active sp') (fst ` set (sizes sp))"
    using act unfolding sp' by (auto simp: append_target_def write_record_def open_segment_def Let_def keys_of_od_set insert_absorb simp del: image_insert)
  have nxt: "active sp' = active sp \<or> active sp' = Suc (active sp)" "synced sp' = synced sp"
    unfolding sp' by (auto simp: append_target_def write_record_def open_segment_def Let_def)
  have "extends sp bs sp' ?bs"
    unfolding extends_def keys
  proof (intro conjI ballI)
    show "k \<in> fst ` set (sizes sp) \<or> active sp < k" if "k \<in> insert (active sp') (fst ` set (sizes sp))" for k
      using that act nxt(1) by (metis insertE lessI)
  qed (use nxt in auto)
  moreover have "\<not> pos_less (e_start (entry_at body s (spool_end sp'))) (spool_end sp)"
  proof -
    let ?a = "active sp'"
    have "e_start (last (spool_log sp' ?bs)) = (?a, rec_len (bs ?a))"
      unfolding log_active_last [OF r(1)] using entry_at(2) [OF wf] by (simp add: seg_entries_append)
    then have "e_start (entry_at body s (spool_end sp')) = (?a, rec_len (bs ?a))" using s by simp
    then show ?thesis using nxt(1) spool_ok_size(1) [OF ok] by (auto simp: spool_end_def)
  qed
  ultimately show ?thesis using r(1) s pack_parse_fields [OF b(1) entry_at(1) [OF wf, of s "spool_end sp'"]]
    by (intro exI [of _ ?bs] exI [of _ "entry_at body s (spool_end sp')"]) auto
qed

section \<open>Positions that survive\<close>

text \<open>The bytes of the active segment that the last \<^verbatim>\<open>sync\<close> made durable.\<close>

definition durable :: "spool \<Rightarrow> nat" where
  "durable sp = (if fst (synced sp) = active sp then snd (synced sp) else 0)"

definition synced_ok :: "spool \<Rightarrow> (nat \<Rightarrow> bytes list) \<Rightarrow> bool" where
  "synced_ok sp bs \<longleftrightarrow> fst (synced sp) \<le> active sp \<and> (\<exists>cs ds. bs (active sp) = cs @ ds \<and> durable sp = rec_len cs)"

text \<open>A position of a snapshot: on a record boundary or in a released segment, and durable.\<close>

definition place_ok :: "spool \<Rightarrow> (nat \<Rightarrow> bytes list) \<Rightarrow> position \<Rightarrow> bool" where
  "place_ok sp bs p \<longleftrightarrow> (boundary sp bs p \<or> (\<forall>k \<in> fst ` set (sizes sp). fst p < k))
     \<and> (fst p < active sp \<or> fst p = active sp \<and> snd p \<le> durable sp)"

lemma place_before_end:
  assumes "spool_ok sp bs" "synced_ok sp bs" "place_ok sp bs p"
  shows "\<not> pos_less (spool_end sp) p"
proof -
  have "durable sp \<le> size_of sp (active sp)"
    using assms(2) spool_ok_size(1) [OF assms(1), of "active sp"] by (auto simp: synced_ok_def)
  then show ?thesis using assms(3) by (cases p) (auto simp: place_ok_def spool_end_def)
qed

lemma rec_len_prefix: "b1 @ b2 = c1 @ c2 \<Longrightarrow> rec_len b1 \<le> rec_len c1 \<Longrightarrow> \<exists>t. c1 = b1 @ t"
proof -
  assume e: "b1 @ b2 = c1 @ c2" and l: "rec_len b1 \<le> rec_len c1"
  from e obtain us where "b1 = c1 @ us \<and> us @ b2 = c2 \<or> b1 @ us = c1 \<and> b2 = us @ c2"
    by (auto simp: append_eq_append_conv2)
  then show ?thesis
  proof
    assume u: "b1 = c1 @ us \<and> us @ b2 = c2"
    then have "us = []" using l rec_len_pos [of us] by (cases "us = []") auto
    then show ?thesis using u by simp
  qed auto
qed

lemma boundary_extends: "extends sp bs sp' bs' \<Longrightarrow> boundary sp bs p \<Longrightarrow> boundary sp' bs' p"
  unfolding extends_def boundary_def by (metis append.assoc subsetD)

lemma durable_extends: "extends sp bs sp' bs' \<Longrightarrow> active sp' = active sp \<Longrightarrow> durable sp' = durable sp"
  by (simp add: extends_def durable_def)

lemma synced_extends:
  assumes "extends sp bs sp' bs'" "synced_ok sp bs"
  shows "synced_ok sp' bs'"
proof (cases "active sp' = active sp")
  case True
  obtain t where t: "bs' (active sp) = bs (active sp) @ t" using assms(1) unfolding extends_def by blast
  obtain cs ds where c: "bs (active sp) = cs @ ds" "durable sp = rec_len cs" using assms(2) unfolding synced_ok_def by blast
  have "bs' (active sp') = cs @ (ds @ t) \<and> durable sp' = rec_len cs"
    using t c durable_extends [OF assms(1) True] True by simp
  moreover have "fst (synced sp') \<le> active sp'" using assms by (auto simp: synced_ok_def extends_def)
  ultimately show ?thesis unfolding synced_ok_def by blast
next
  case False
  then have a: "active sp < active sp'" "fst (synced sp') \<le> active sp" using assms by (auto simp: extends_def synced_ok_def)
  then have "durable sp' = rec_len []" by (simp add: durable_def)
  then show ?thesis using a unfolding synced_ok_def by (metis append_Nil less_imp_le order_trans)
qed

lemma place_extends:
  assumes e: "extends sp bs sp' bs'" and p: "place_ok sp bs p"
  shows "place_ok sp' bs' p"
proof -
  have le: "fst p \<le> active sp" "active sp \<le> active sp'" using p e by (auto simp: place_ok_def extends_def)
  have "boundary sp' bs' p \<or> (\<forall>k \<in> fst ` set (sizes sp'). fst p < k)"
  proof (cases "boundary sp bs p")
    case True
    then show ?thesis using boundary_extends [OF e] by blast
  next
    case False
    then have "\<forall>k \<in> fst ` set (sizes sp). fst p < k" using p by (simp add: place_ok_def)
    then show ?thesis using e le unfolding extends_def by (metis le_less_trans)
  qed
  moreover have "fst p < active sp' \<or> fst p = active sp' \<and> snd p \<le> durable sp'"
    using p le durable_extends [OF e] by (auto simp: place_ok_def)
  ultimately show ?thesis by (simp add: place_ok_def)
qed

lemma release_loop_synced: "synced (release_loop a ks sp) = synced sp"
  by (induction a ks sp rule: release_loop.induct) simp_all

lemma release_synced: "synced (release sp acked) = synced sp"
  by (simp add: release_def release_loop_synced)


lemma release_places:
  fixes acked :: position
  assumes ok: "spool_ok sp bs" and y: "synced_ok sp bs"
  defines "m \<equiv> min (fst acked) (active sp)"
  defines "bs' \<equiv> \<lambda>k. if k < m then [] else bs k"
  shows "synced_ok (release sp acked) bs'" "place_ok sp bs p \<Longrightarrow> place_ok (release sp acked) bs' p"
proof -
  note r = release_spec [OF ok, of acked, folded m_def]
  have d: "durable (release sp acked) = durable sp" by (simp add: durable_def release_synced r(3))
  have "\<not> active sp < m" by (simp add: m_def)
  then show "synced_ok (release sp acked) bs'" using y d r(3) by (simp add: synced_ok_def release_synced bs'_def)
  have keys: "fst ` set (sizes (release sp acked)) = {k \<in> fst ` set (sizes sp). \<not> k < m}"
    using arg_cong [OF r(2), of set] by simp
  assume p: "place_ok sp bs p"
  have "boundary (release sp acked) bs' p \<or> (\<forall>k \<in> fst ` set (sizes (release sp acked)). fst p < k)"
  proof (cases "fst p < m")
    case True
    then show ?thesis unfolding keys by simp
  next
    case False
    then have "boundary sp bs p \<longrightarrow> boundary (release sp acked) bs' p" unfolding boundary_def keys bs'_def by simp
    moreover have "boundary sp bs p \<or> (\<forall>k \<in> fst ` set (sizes sp). fst p < k)" using p unfolding place_ok_def by blast
    ultimately show ?thesis unfolding keys by blast
  qed
  then show "place_ok (release sp acked) bs' p" using p d r(3) by (simp add: place_ok_def)
qed

lemma sync_places:
  assumes ok: "spool_ok sp bs" and y: "synced_ok sp bs" and s: "spool_sync sp = (p, sp')"
  shows "spool_ok sp' bs" "spool_log sp' bs = spool_log sp bs" "synced_ok sp' bs" "place_ok sp bs q \<Longrightarrow> place_ok sp' bs q"
    "place_ok sp' bs p" "p = spool_end sp'"
proof -
  have sp': "sp' = sp\<lparr>dirty := False, synced := spool_end sp\<rparr>" "p = spool_end sp" using s by (auto simp: spool_sync_def)
  show ok': "spool_ok sp' bs" using ok by (simp add: sp' spool_ok_def file_of_def size_of_def)
  show "spool_log sp' bs = spool_log sp bs" by (simp add: sp' spool_log_def)
  have sz: "size_of sp' = size_of sp" by (simp add: fun_eq_iff sp' size_of_def)
  have d: "durable sp' = rec_len (bs (active sp'))"
    using spool_ok_size(1) [OF ok] by (simp add: sp' durable_def spool_end_def)
  have dl: "durable sp \<le> durable sp'"
    using y spool_ok_size(1) [OF ok] by (auto simp: d synced_ok_def) (simp add: sp')
  show pe: "p = spool_end sp'" using sz by (simp add: sp'(2) spool_end_def) (simp add: sp')
  have "bs (active sp') = bs (active sp') @ []" by simp
  then show "synced_ok sp' bs" using d unfolding synced_ok_def by (auto simp: sp' spool_end_def)
  show "place_ok sp bs q \<Longrightarrow> place_ok sp' bs q" using dl by (auto simp: place_ok_def boundary_def sp')
  have a: "active sp' \<in> fst ` set (sizes sp')" using ok' by (simp add: spool_ok_def)
  have "snd p = rec_len (bs (active sp'))" "fst p = active sp'" using pe spool_ok_size(1) [OF ok'] by (simp_all add: spool_end_def)
  then show "place_ok sp' bs p" using a d unfolding place_ok_def boundary_def by (metis append_Nil2 order_refl)
qed

definition crash_files :: "nat \<Rightarrow> spool \<Rightarrow> (nat \<times> bytes) list" where
  "crash_files n sp = od_set (active sp) (take (max n (durable sp)) (file_of sp (active sp))) (files sp)"

lemma crash_places:
  fixes n mx sb :: nat
  assumes ok: "spool_ok sp bs" and y: "synced_ok sp bs"
  defines "sp' \<equiv> open_spool (crash_files n sp) mx sb"
  shows "\<exists>bs' lost. spool_ok sp' bs' \<and> synced_ok sp' bs' \<and> spool_log sp bs = spool_log sp' bs' @ lost
    \<and> (\<forall>p. place_ok sp bs p \<longrightarrow> place_ok sp' bs' p \<and> (boundary sp bs p \<longrightarrow> boundary sp' bs' p))
    \<and> synced sp' = spool_end sp' \<and> (\<forall>x \<in> set lost. \<not> pos_less (e_start x) (active sp, durable sp)) \<and> active sp' = active sp"
proof -
  let ?a = "active sp"
  obtain cs ds where c: "bs ?a = cs @ ds" "durable sp = rec_len cs" using y unfolding synced_ok_def by blast
  have n: "rec_len cs \<le> max n (durable sp)" using c(2) by simp
  obtain m lost where m: "length cs \<le> m" "spool_ok sp' (bs(?a := take m (bs ?a)))" "active sp' = ?a"
      "fst ` set (sizes sp') = fst ` set (sizes sp)" "synced sp' = spool_end sp'"
      "spool_log sp bs = spool_log sp' (bs(?a := take m (bs ?a))) @ lost" "\<forall>x \<in> set lost. \<not> pos_less (e_start x) (?a, rec_len cs)"
    using crash_log [OF ok c(1) n, of mx sb] unfolding sp'_def crash_files_def by blast
  let ?bs = "bs(?a := take m (bs ?a))"
  have e: "spool_end sp' = (?a, rec_len (take m (bs ?a)))" using spool_ok_size(1) [OF m(2), of ?a] m(3) by (simp add: spool_end_def)
  have d: "durable sp' = rec_len (take m (bs ?a))" using e m(3,5) by (simp add: durable_def)
  have tk: "take m (bs ?a) = cs @ take (m - length cs) ds" using m(1) c(1) by simp
  have "synced_ok sp' ?bs"
  proof -
    have "?bs (active sp') = take m (bs ?a) @ []" using m(3) by simp
    then show ?thesis unfolding synced_ok_def using d m(3,5) e by (metis fst_conv order_refl)
  qed
  moreover have "place_ok sp' ?bs p \<and> (boundary sp bs p \<longrightarrow> boundary sp' ?bs p)" if p: "place_ok sp bs p" for p
  proof (cases "fst p = ?a")
    case False
    then show ?thesis using p m(3,4) by (auto simp: place_ok_def boundary_def)
  next
    case True
    then have b: "boundary sp bs p" "snd p \<le> rec_len cs" using p c(2) ok by (auto simp: place_ok_def spool_ok_def)
    then obtain b1 b2 where b12: "bs ?a = b1 @ b2" "snd p = rec_len b1" using True by (auto simp: boundary_def)
    obtain t where t: "cs = b1 @ t" using rec_len_prefix [of b1 b2 cs ds] b12 c(1) b(2) by auto
    have "boundary sp' ?bs p" using b12(2) t tk True b(1) m(4) by (auto simp: boundary_def)
    moreover have "snd p \<le> durable sp'" using b(2) d tk by simp
    ultimately show ?thesis using True m(3) by (simp add: place_ok_def)
  qed
  ultimately show ?thesis using m(2,3,5-7) c(2) by (intro exI [of _ ?bs] exI [of _ lost]) simp
qed


lemma first_position_least:
  assumes "spool_ok sp bs"
  shows "boundary sp bs (first_position sp)" "fst (first_position sp) \<in> fst ` set (sizes sp)" "snd (first_position sp) = 0"
    "\<And>k. k \<in> fst ` set (sizes sp) \<Longrightarrow> fst (first_position sp) \<le> k"
    "\<And>x. x \<in> set (spool_log sp bs) \<Longrightarrow> \<not> pos_less (e_start x) (first_position sp)"
proof -
  have ne: "fst ` set (sizes sp) \<noteq> {}" using assms by (auto simp: spool_ok_def)
  show k: "fst (first_position sp) \<in> fst ` set (sizes sp)" "snd (first_position sp) = 0"
    using Min_in [OF _ ne] by (simp_all add: first_position_def)
  then show "boundary sp bs (first_position sp)" unfolding boundary_def by (metis append_Nil concat.simps(1) list.map(1) list.size(3))
  show le: "fst (first_position sp) \<le> k" if "k \<in> fst ` set (sizes sp)" for k
    using that Min_le [of "fst ` set (sizes sp)" k] by (simp add: first_position_def)
  show "\<not> pos_less (e_start x) (first_position sp)" if x: "x \<in> set (spool_log sp bs)" for x
  proof -
    obtain j where j: "j \<in> fst ` set (sizes sp)" "x \<in> set (seg_entries j 0 (bs j))" "\<forall>b \<in> set (bs j). body_wf b"
      using spool_log_entry [OF assms x] by blast
    then show ?thesis using seg_entries_start [OF j(3,2)] le [OF j(1)] k(2) by (cases "first_position sp") auto
  qed
qed

section \<open>Cutting the log at a position\<close>

lemma sorted_cut:
  assumes "sorted_wrt follows xs" "\<forall>x \<in> set xs. pos_less (e_start x) (e_end x)"
  shows "xs = filter (\<lambda>x. pos_less (e_start x) q) xs @ filter (\<lambda>x. \<not> pos_less (e_start x) q) xs"
  using assms
proof (induction xs)
  case (Cons x xs)
  show ?case
  proof (cases "pos_less (e_start x) q")
    case True
    then show ?thesis using Cons by simp
  next
    case False
    have "\<not> pos_less (e_start y) q" if "y \<in> set xs" for y
    proof -
      have "\<not> pos_less (e_start y) (e_end x)" "pos_less (e_start x) (e_end x)" using Cons.prems that by (auto simp: follows_def)
      then show ?thesis using False by (metis pos_less_le_trans pos_less_trans)
    qed
    then have "filter (\<lambda>x. pos_less (e_start x) q) xs = []" "filter (\<lambda>x. \<not> pos_less (e_start x) q) xs = xs"
      by (auto simp: filter_empty_conv)
    then show ?thesis using False by simp
  qed
qed simp

lemma from_pos_before:
  assumes ok: "spool_ok sp bs" and pq: "\<not> pos_less q p"
  shows "from_pos p (spool_log sp bs) = filter (between p q) (spool_log sp bs) @ from_pos q (spool_log sp bs)"
proof -
  let ?L = "spool_log sp bs"
  have "from_pos p ?L = filter (\<lambda>x. pos_less (e_start x) q) (from_pos p ?L) @ filter (\<lambda>x. \<not> pos_less (e_start x) q) (from_pos p ?L)"
    using sorted_wrt_filter [OF spool_log_sorted [OF ok]] spool_log_before_end(3) [OF ok]
    by (intro sorted_cut) (auto simp: from_pos_def)
  also have "filter (\<lambda>x. pos_less (e_start x) q) (from_pos p ?L) = filter (between p q) ?L"
    unfolding from_pos_def filter_filter by (rule filter_cong) (auto simp: between_def)
  also have "filter (\<lambda>x. \<not> pos_less (e_start x) q) (from_pos p ?L) = from_pos q ?L"
    unfolding from_pos_def filter_filter using pq pos_le_less_trans pos_less_le_trans by (intro filter_cong) blast+
  finally show ?thesis .
qed

lemma read_between:
  assumes ok: "spool_ok sp bs" and p: "boundary sp bs p" and q: "boundary sp bs q"
  shows "spool_read sp p q n = Inr (take n (filter (between p q) (spool_log sp bs)))"
proof -
  obtain b1 b2 c1 c2 where b: "fst p \<in> fst ` set (sizes sp)" "bs (fst p) = b1 @ b2" "snd p = rec_len b1"
      and c: "bs (fst q) = c1 @ c2" "snd q = rec_len c1"
    using p q unfolding boundary_def by blast
  have "p = (fst p, rec_len b1)" "q = (fst q, rec_len c1)" using b(3) c(2) by (simp_all add: prod_eq_iff)
  then show ?thesis using spool_read_log [OF ok b(1,2) c(1), of n] by metis
qed

lemma boundary_before_end: "spool_ok sp bs \<Longrightarrow> boundary sp bs p \<Longrightarrow> \<not> pos_less (spool_end sp) p"
proof -
  assume ok: "spool_ok sp bs" and p: "boundary sp bs p"
  obtain b1 b2 where b: "fst p \<in> fst ` set (sizes sp)" "bs (fst p) = b1 @ b2" "snd p = rec_len b1" using p by (auto simp: boundary_def)
  have "fst p \<le> active sp" using ok b(1) by (auto simp: spool_ok_def)
  moreover have "snd p \<le> size_of sp (fst p)" using b(2,3) spool_ok_size(1) [OF ok, of "fst p"] by simp
  ultimately show ?thesis by (cases p) (auto simp: spool_end_def)
qed

lemma boundary_end: "spool_ok sp bs \<Longrightarrow> boundary sp bs (spool_end sp)"
  using spool_ok_size(1) [of sp bs "active sp"] unfolding boundary_def spool_end_def spool_ok_def
  by (metis append_Nil2 fst_conv snd_conv)

lemma boundary_synced_ok:
  assumes "spool_ok sp bs" "boundary sp bs (synced sp)"
  shows "synced_ok sp bs"
proof -
  obtain b1 b2 where b: "fst (synced sp) \<in> fst ` set (sizes sp)" "bs (fst (synced sp)) = b1 @ b2" "snd (synced sp) = rec_len b1"
    using assms(2) unfolding boundary_def by blast
  have le: "fst (synced sp) \<le> active sp" using assms(1) b(1) by (auto simp: spool_ok_def)
  have "\<exists>cs ds. bs (active sp) = cs @ ds \<and> durable sp = rec_len cs"
  proof (cases "fst (synced sp) = active sp")
    case True
    then have "bs (active sp) = b1 @ b2 \<and> durable sp = rec_len b1" using b by (simp add: durable_def)
    then show ?thesis by blast
  next
    case False
    then have "bs (active sp) = [] @ bs (active sp) \<and> durable sp = rec_len []" by (simp add: durable_def)
    then show ?thesis by blast
  qed
  then show ?thesis using le by (simp add: synced_ok_def)
qed

lemma boundary_place_ok:
  assumes "spool_ok sp bs" "boundary sp bs (synced sp)" "boundary sp bs p" "\<not> pos_less (synced sp) p"
  shows "place_ok sp bs p"
proof -
  have "fst p \<le> fst (synced sp)" "fst (synced sp) \<le> active sp"
    using assms by (cases p; cases "synced sp"; auto simp: boundary_def spool_ok_def)+
  then show ?thesis using assms(3,4) by (cases p; cases "synced sp") (auto simp: place_ok_def durable_def)
qed

text \<open>The stored entries, as a reader of the whole spool gets them.\<close>

definition holds :: "spool \<Rightarrow> entry list \<Rightarrow> bool" where
  "holds sp L \<longleftrightarrow> (\<forall>n. spool_read sp (first_position sp) (spool_end sp) n = Inr (take n L))"

lemma log_holds:
  assumes "spool_ok sp bs"
  shows "holds sp (spool_log sp bs)"
proof -
  have "from_pos (first_position sp) (spool_log sp bs) = spool_log sp bs"
    unfolding from_pos_def using first_position_least(5) [OF assms] by (intro filter_True) blast
  then show ?thesis unfolding holds_def using read_from_boundary [OF assms first_position_least(1) [OF assms]] by simp
qed

lemma holds_unique: "holds sp L \<Longrightarrow> holds sp L' \<Longrightarrow> L = L'"
proof -
  assume a: "holds sp L" "holds sp L'"
  have "take n L = take n L'" for n
    using a [unfolded holds_def, THEN spec, of n] by simp
  from this [of "max (length L) (length L')"] show ?thesis by simp
qed

end
