(* ===== verification/ReceiverSafety.thy ===== *)
theory ReceiverSafety
  imports Receiver SpoolLog
begin

text \<open>
  What the receiver's spool holds: whatever datagrams arrive, through releases by the publisher and
  through crashes at any point of the unsynced tail, the raw entries the spool holds at a time are distinct,
  each passed the validation, and none of them is accepted again. The restart part shows that the replay loop ends and marks exactly the log entries from the snapshot's position on.
\<close>

section \<open>The replay loop\<close>

lemma replay_log:
  assumes ok: "spool_ok sp bs" and p: "boundary sp bs p"
  shows "replay sp p (spool_end sp) d = Some (Inr (foldl replay_entry d (from_pos p (spool_log sp bs))))"
  using p
proof (induction "length (from_pos p (spool_log sp bs))" arbitrary: p d rule: less_induct)
  case less
  let ?F = "from_pos p (spool_log sp bs)"
  note rd = read_from_boundary [OF ok less.prems, of 5000]
  show ?case
  proof (cases "pos_less p (spool_end sp)")
    case False
    then have "?F = []"
      using spool_log_before_end(1) [OF ok] pos_less_le_trans unfolding from_pos_def filter_empty_conv by blast
    then show ?thesis using False by (simp add: replay.simps [of sp p])
  next
    case True
    show ?thesis
    proof (cases "?F = []")
      case True
      then show ?thesis using \<open>pos_less p (spool_end sp)\<close> rd by (simp add: replay.simps [of sp p])
    next
      case False
      let ?xs = "take 5000 ?F" and ?ys = "drop 5000 ?F"
      have x: "?F = ?xs @ ?ys" "?xs \<noteq> []" using False by simp_all
      have r: "from_pos (e_end (last ?xs)) (spool_log sp bs) = ?ys" by (rule from_pos_split [OF ok x])
      have "last ?xs \<in> set ?F" using x(2) by (metis in_set_takeD last_in_set)
      then have "boundary sp bs (e_end (last ?xs))"
        using spool_log_before_end(2) [OF ok] by (auto simp: from_pos_def)
      moreover have "length ?ys < length ?F" using False by (simp add: length_greater_0_conv [symmetric] del: length_greater_0_conv)
      ultimately have "replay sp (e_end (last ?xs)) (spool_end sp) (foldl replay_entry d ?xs)
          = Some (Inr (foldl replay_entry (foldl replay_entry d ?xs) ?ys))"
        using less.hyps [of "e_end (last ?xs)" "foldl replay_entry d ?xs"] r by simp
      also have "foldl replay_entry (foldl replay_entry d ?xs) ?ys = foldl replay_entry d ?F"
        by (metis append_take_drop_id foldl_append)
      finally show ?thesis using True rd x(2) by (simp add: replay.simps [of sp p])
    qed
  qed
qed

section \<open>The filter keeps rejecting\<close>

definition rejects :: "(string \<Rightarrow> int set) \<Rightarrow> string \<Rightarrow> int \<Rightarrow> bool" where
  "rejects S k q \<longleftrightarrow> \<not> accepted (spec_verdict (S k) q)"

definition grows :: "(string \<Rightarrow> int set) \<Rightarrow> (string \<Rightarrow> int set) \<Rightarrow> bool" where
  "grows S S' \<longleftrightarrow> (\<forall>k q. rejects S k q \<longrightarrow> rejects S' k q)"

definition window_ok :: "string set \<Rightarrow> dedup \<Rightarrow> (string \<Rightarrow> int set) \<Rightarrow> bool" where
  "window_ok K d S \<longleftrightarrow> dedup_rel d S \<and> fst ` set (streams d) \<subseteq> K"

definition fits :: "string set \<Rightarrow> bool" where
  "fits K \<longleftrightarrow> finite K \<and> card K \<le> MAX_STREAMS"

lemma grows_refl [simp]: "grows S S"
  by (simp add: grows_def)

lemma grows_trans: "grows S T \<Longrightarrow> grows T U \<Longrightarrow> grows S U"
  by (auto simp: grows_def)

lemma rejected_accepted: "accepted (spec_verdict A p) \<Longrightarrow> finite A \<Longrightarrow> \<not> accepted (spec_verdict A q) \<Longrightarrow> \<not> accepted (spec_verdict (insert p A) q)"
proof -
  assume a: "accepted (spec_verdict A p)" "finite A" "\<not> accepted (spec_verdict A q)"
  have ne: "A \<noteq> {}" using a(3) by (auto simp: spec_verdict_def accepted_def)
  have "Min A \<le> Max A" using Max_in [OF a(2) ne] Min_le [OF a(2)] by blast
  then have p: "Min A \<le> p"
    by (cases "p > Max A") (use a(1) ne in \<open>auto simp: spec_verdict_def classify_def accepted_def split: if_splits\<close>)
  have mi: "Min (insert p A) = Min A" using Min_insert [OF a(2) ne] p by (simp only: min_absorb2)
  have ma: "Max A \<le> Max (insert p A)" using a(2) ne by simp
  show ?thesis using a(3) ne mi ma by (auto simp: spec_verdict_def classify_def accepted_def split: if_splits)
qed

lemma rejected_mark: "finite A \<Longrightarrow> \<not> accepted (spec_verdict A q) \<Longrightarrow> \<not> accepted (spec_verdict (spec_mark A p) q)"
  using rejected_accepted by (simp add: spec_mark_def)

lemma mark_rejects: "finite A \<Longrightarrow> \<not> accepted (spec_verdict (spec_mark A q) q)"
  using seen_not_accepted [of "insert q A" q] by (simp add: spec_mark_def)

lemma window_finite: "dedup_rel d S \<Longrightarrow> finite (S k)"
proof -
  assume r: "dedup_rel d S"
  show ?thesis
  proof (cases "map_of (streams d) k")
    case None
    then have "S k = {}" using r [unfolded dedup_rel_def, THEN conjunct2, THEN conjunct1, THEN spec, of k] by simp
    then show ?thesis by simp
  next
    case (Some s)
    then have "stream_ok s (gap_count (S k)) (S k)"
      using r [unfolded dedup_rel_def, THEN conjunct2, THEN conjunct1, THEN spec, of k] by simp
    then show ?thesis by (rule stream_ok_extremes(1))
  qed
qed

lemma window_mark:
  assumes w: "window_ok K d S" and k: "stream_key sid boot \<in> K" and f: "fits K" and q: "0 \<le> sq"
  shows "\<exists>S'. window_ok K (snd (mark d sid boot sq)) S' \<and> grows S S' \<and> rejects S' (stream_key sid boot) sq"
proof -
  let ?k = "stream_key sid boot"
  obtain v d' where m: "mark d sid boot sq = (v, d')" by fastforce
  have rel: "dedup_rel d S" and sub: "fst ` set (streams d) \<subseteq> K" using w by (simp_all add: window_ok_def)
  have "?k \<in> fst ` set (streams d) \<or> length (streams d) < MAX_STREAMS"
  proof (rule disjCI)
    assume "\<not> length (streams d) < MAX_STREAMS"
    moreover have "card (fst ` set (streams d)) = length (streams d)" 
      using rel distinct_card [of "map fst (streams d)"] by (simp add: dedup_rel_def)
    ultimately have "fst ` set (streams d) = K" using f sub by (intro card_seteq) (auto simp: fits_def)
    then show "?k \<in> fst ` set (streams d)" using k by simp
  qed
  from mark_spec [OF rel q this m]
  have r: "dedup_rel d' (S(?k := spec_mark (S ?k) sq))" "fst ` set (streams d') = insert ?k (fst ` set (streams d))" by auto
  have "grows S (S(?k := spec_mark (S ?k) sq))"
    using rejected_mark window_finite [OF rel] by (simp add: grows_def rejects_def)
  moreover have "rejects (S(?k := spec_mark (S ?k) sq)) ?k sq" using mark_rejects window_finite [OF rel] by (simp add: rejects_def)
  ultimately show ?thesis using r sub k m by (intro exI [of _ "S(?k := spec_mark (S ?k) sq)"]) (simp add: window_ok_def)
qed

section \<open>Raw entries\<close>

definition skey :: "entry \<Rightarrow> string" where
  "skey x = (case (e_sensor x, e_boot x) of (Some s, Some b) \<Rightarrow> stream_key s b | _ \<Rightarrow> [])"

definition is_raw :: "entry \<Rightarrow> bool" where
  "is_raw x \<longleftrightarrow> e_topic x = TOPIC_RAW"

text \<open>What is known of a stored event: its envelope passed the validation and carries the identity of its entry.\<close>

definition genuine :: "rx_env \<Rightarrow> entry \<Rightarrow> bool" where
  "genuine E x \<longleftrightarrow> (\<exists>ev sid boot sha. e_sensor x = Some sid \<and> e_boot x = Some boot \<and> e_value x = rx_dumps E (JObj ev)
     \<and> validate (rx_repr E) (rx_iter_errors E) Event (JObj ev) = Some []
     \<and> dget ev ''sensor_id'' = JStr sid \<and> dget ev ''sensor_boot_id'' = JStr boot \<and> num_eq (dget ev ''sequence'') (e_seq x)
     \<and> dget ev ''original_record_sha256'' = JStr sha \<and> dget ev ''event_id'' = JStr (event_id sid boot (e_seq x) sha)
     \<and> observation_ms ev = Some (e_ts_ms x) \<and> partition_key ev = Some (e_key x))"

definition raw_ok :: "rx_env \<Rightarrow> string set \<Rightarrow> entry \<Rightarrow> bool" where
  "raw_ok E K x \<longleftrightarrow> (\<exists>s b. e_sensor x = Some s \<and> s \<noteq> [] \<and> e_boot x = Some b \<and> stream_key s b \<in> K) \<and> 0 \<le> e_seq x \<and> genuine E x"

lemma replay_entries:
  assumes "window_ok K d S" "fits K" "\<forall>x \<in> set xs. is_raw x \<longrightarrow> raw_ok E K x"
  shows "\<exists>S'. window_ok K (foldl replay_entry d xs) S' \<and> grows S S'
    \<and> (\<forall>x \<in> set xs. is_raw x \<longrightarrow> rejects S' (skey x) (e_seq x))"
  using assms
proof (induction xs arbitrary: d S)
  case Nil
  then show ?case by (auto intro: exI [of _ S])
next
  case (Cons x xs)
  have "\<exists>S1. window_ok K (replay_entry d x) S1 \<and> grows S S1 \<and> (is_raw x \<longrightarrow> rejects S1 (skey x) (e_seq x))"
  proof (cases "is_raw x")
    case True
    then obtain s b where sb: "e_sensor x = Some s" "s \<noteq> []" "e_boot x = Some b" "stream_key s b \<in> K" "0 \<le> e_seq x"
      using Cons.prems(3) by (auto simp: raw_ok_def)
    then show ?thesis using window_mark [OF Cons.prems(1) sb(4) Cons.prems(2) sb(5)] True
      by (simp add: replay_entry_def is_raw_def skey_def)
  next
    case False
    then have "replay_entry d x = d" by (auto simp: replay_entry_def is_raw_def split: option.splits)
    then show ?thesis using Cons.prems(1) False by auto
  qed
  then obtain S1 where S1: "window_ok K (replay_entry d x) S1" "grows S S1" "is_raw x \<longrightarrow> rejects S1 (skey x) (e_seq x)" by blast
  obtain S2 where S2: "window_ok K (foldl replay_entry (replay_entry d x) xs) S2" "grows S1 S2"
    "\<forall>y \<in> set xs. is_raw y \<longrightarrow> rejects S2 (skey y) (e_seq y)"
    using Cons.IH [OF S1(1) Cons.prems(2)] Cons.prems(3) by auto
  have "is_raw x \<longrightarrow> rejects S2 (skey x) (e_seq x)" using S1(3) S2(2) by (auto simp: grows_def)
  then show ?case using S2 grows_trans [OF S1(2) S2(2)] by (intro exI [of _ S2]) auto
qed

section \<open>The invariant\<close>

definition ident :: "entry \<Rightarrow> string \<times> int" where
  "ident x = (skey x, e_seq x)"

definition raws :: "spool \<Rightarrow> (nat \<Rightarrow> bytes list) \<Rightarrow> entry list" where
  "raws sp bs = filter is_raw (spool_log sp bs)"

text \<open>The snapshot restores a window that rejects what lies before its position.\<close>

definition file_ok :: "string set \<Rightarrow> spool \<Rightarrow> (nat \<Rightarrow> bytes list) \<Rightarrow> (snap \<times> string) option \<Rightarrow> bool" where
  "file_ok K sp bs file \<longleftrightarrow> (\<forall>sn ptx. file = Some (sn, ptx) \<longrightarrow> (\<exists>d0 S0 p. restore sn = Some d0 \<and> window_ok K d0 S0
     \<and> parse_position ptx = Some p \<and> place_ok sp bs p
     \<and> (\<forall>x \<in> set (raws sp bs). pos_less (e_start x) p \<longrightarrow> rejects S0 (skey x) (e_seq x))))"

definition safe :: "rx_env \<Rightarrow> string set \<Rightarrow> spool \<Rightarrow> dedup \<Rightarrow> (snap \<times> string) option \<Rightarrow> (string \<Rightarrow> int set) \<Rightarrow> bool" where
  "safe E K sp d file S \<longleftrightarrow> (\<exists>bs. spool_ok sp bs \<and> synced_ok sp bs \<and> window_ok K d S
     \<and> (\<forall>x \<in> set (raws sp bs). raw_ok E K x \<and> rejects S (skey x) (e_seq x))
     \<and> distinct (map ident (raws sp bs)) \<and> file_ok K sp bs file)"

lemma safeE:
  assumes "safe E K sp d file S"
  obtains bs where "spool_ok sp bs" "synced_ok sp bs" "window_ok K d S" "distinct (map ident (raws sp bs))" "file_ok K sp bs file"
    "\<And>x. x \<in> set (raws sp bs) \<Longrightarrow> raw_ok E K x" "\<And>x. x \<in> set (raws sp bs) \<Longrightarrow> rejects S (skey x) (e_seq x)"
  using assms unfolding safe_def by blast

lemma file_ok_keeps:
  assumes f: "file_ok K sp bs file" and p: "\<And>p. place_ok sp bs p \<Longrightarrow> place_ok sp' bs' p"
    and x: "\<And>x p. x \<in> set (raws sp' bs') \<Longrightarrow> x \<in> set (raws sp bs) \<or> (\<forall>p. place_ok sp bs p \<longrightarrow> \<not> pos_less (e_start x) p)"
  shows "file_ok K sp' bs' file"
  unfolding file_ok_def
proof (intro allI impI)
  fix sn ptx assume "file = Some (sn, ptx)"
  then obtain d0 S0 p where d: "restore sn = Some d0" "window_ok K d0 S0" "parse_position ptx = Some p" "place_ok sp bs p"
      "\<forall>x \<in> set (raws sp bs). pos_less (e_start x) p \<longrightarrow> rejects S0 (skey x) (e_seq x)"
    using f unfolding file_ok_def by blast
  have "\<forall>x \<in> set (raws sp' bs'). pos_less (e_start x) p \<longrightarrow> rejects S0 (skey x) (e_seq x)" using x d(4,5) by blast
  then show "\<exists>d0 S0 p. restore sn = Some d0 \<and> window_ok K d0 S0 \<and> parse_position ptx = Some p \<and> place_ok sp' bs' p
      \<and> (\<forall>x \<in> set (raws sp' bs'). pos_less (e_start x) p \<longrightarrow> rejects S0 (skey x) (e_seq x))"
    using d(1-3) p [OF d(4)] by blast
qed

lemma safe_grows:
  assumes s: "safe E K sp d file S" and w: "window_ok K d' S'" and g: "grows S S'"
  shows "safe E K sp d' file S'"
  using s
proof (rule safeE)
  fix bs assume "spool_ok sp bs" "synced_ok sp bs" "distinct (map ident (raws sp bs))" "file_ok K sp bs file"
    "\<And>x. x \<in> set (raws sp bs) \<Longrightarrow> raw_ok E K x" "\<And>x. x \<in> set (raws sp bs) \<Longrightarrow> rejects S (skey x) (e_seq x)"
  moreover from this(6) have "rejects S' (skey x) (e_seq x)" if "x \<in> set (raws sp bs)" for x
    using g that unfolding grows_def by blast
  ultimately show ?thesis using w unfolding safe_def by (intro exI [of _ bs]) simp
qed

lemma safe_window: "safe E K sp d file S \<Longrightarrow> window_ok K d S"
  by (auto elim: safeE)

lemma safe_mark:
  assumes "safe E K sp d file S" "stream_key sid boot \<in> K" "fits K" "0 \<le> sq"
  shows "\<exists>S'. safe E K sp (snd (mark d sid boot sq)) file S' \<and> grows S S'"
  using window_mark [OF safe_window [OF assms(1)] assms(2-4)] safe_grows [OF assms(1)] by blast

text \<open>An append, of another topic or of a raw entry whose identity was never stored.\<close>

lemma append_keeps:
  assumes f: "file_ok K sp bs file" and ok: "spool_ok sp bs" and y: "synced_ok sp bs" and e: "extends sp bs sp' bs'"
    and l: "spool_log sp' bs' = spool_log sp bs @ [x]" and x: "\<not> pos_less (e_start x) (spool_end sp)"
  shows "file_ok K sp' bs' file"
proof (rule file_ok_keeps [OF f place_extends [OF e]])
  fix z p assume z: "z \<in> set (raws sp' bs')"
  have "\<not> pos_less (e_start x) p" if "place_ok sp bs p" for p
    using place_before_end [OF ok y that] x pos_less_le_trans by blast
  then show "z \<in> set (raws sp bs) \<or> (\<forall>p. place_ok sp bs p \<longrightarrow> \<not> pos_less (e_start z) p)"
    using z l by (auto simp: raws_def split: if_splits)
qed

lemma safe_append_other:
  assumes s: "safe E K sp d file S" and a: "spool_append sp tp key sid boot sq ts val = Inr (stored, sp')" and t: "tp \<noteq> TOPIC_RAW"
  shows "safe E K sp' d file S"
proof (cases stored)
  case False
  then have "sp' = sp" using a by (auto simp: spool_append_def append_record_def split: sum.splits if_splits)
  then show ?thesis using s by simp
next
  case True
  then have a': "spool_append sp tp key sid boot sq ts val = Inr (True, sp')" using a by simp
  obtain bs where b: "spool_ok sp bs" "synced_ok sp bs" "window_ok K d S" "distinct (map ident (raws sp bs))" "file_ok K sp bs file"
    "\<And>x. x \<in> set (raws sp bs) \<Longrightarrow> raw_ok E K x" "\<And>x. x \<in> set (raws sp bs) \<Longrightarrow> rejects S (skey x) (e_seq x)"
    using safeE [OF s] by blast
  obtain bs' x where x: "spool_ok sp' bs'" "extends sp bs sp' bs'" "spool_log sp' bs' = spool_log sp bs @ [x]"
      "\<not> pos_less (e_start x) (spool_end sp)" "e_topic x = tp"
    using spool_append_extends [OF b(1) a'] by blast
  have "raws sp' bs' = raws sp bs" using x(3,5) t by (simp add: raws_def is_raw_def)
  then show ?thesis
    unfolding safe_def using b x(1) synced_extends [OF x(2) b(2)] append_keeps [OF b(5,1,2) x(2-4)]
    by (intro exI [of _ bs']) simp
qed

lemma safe_accept:
  assumes s: "safe E K sp d file S" and k: "fits K" "stream_key sid boot \<in> K" "sid \<noteq> []" "boot = uuid_str ub" "length ub = 16" "0 \<le> sq"
    and c: "check d sid boot sq \<notin> {DUPLICATE, STALE}"
    and a: "spool_append sp TOPIC_RAW key (Some sid) (Some boot) sq ts val = Inr (True, sp')"
    and g: "\<And>x. e_sensor x = Some sid \<Longrightarrow> e_boot x = Some boot \<Longrightarrow> e_seq x = sq \<Longrightarrow> e_ts_ms x = ts \<Longrightarrow> e_key x = key \<Longrightarrow> e_value x = val
      \<Longrightarrow> genuine E x"
  shows "\<exists>S'. safe E K sp' (snd (mark d sid boot sq)) file S' \<and> grows S S'"
proof -
  obtain bs where b: "spool_ok sp bs" "synced_ok sp bs" "window_ok K d S" "distinct (map ident (raws sp bs))" "file_ok K sp bs file"
    "\<And>x. x \<in> set (raws sp bs) \<Longrightarrow> raw_ok E K x" "\<And>x. x \<in> set (raws sp bs) \<Longrightarrow> rejects S (skey x) (e_seq x)"
    using safeE [OF s] by blast
  obtain bs' x where x: "spool_ok sp' bs'" "extends sp bs sp' bs'" "spool_log sp' bs' = spool_log sp bs @ [x]"
      "\<not> pos_less (e_start x) (spool_end sp)" "e_topic x = TOPIC_RAW" "e_key x = key" "e_seq x = sq" "e_ts_ms x = ts" "e_value x = val"
      "e_sensor x = Some sid" "e_boot x = Some boot"
    using spool_append_extends [OF b(1) a] k(3-5) by auto
  obtain S' where S': "window_ok K (snd (mark d sid boot sq)) S'" "grows S S'" "rejects S' (stream_key sid boot) sq"
    using window_mark [OF b(3) k(2,1,6)] by blast
  have r: "raws sp' bs' = raws sp bs @ [x]" using x(3,5) by (simp add: raws_def is_raw_def)
  have sk: "skey x = stream_key sid boot" using x(10,11) by (simp add: skey_def)
  have "check d sid boot sq = spec_verdict (S (stream_key sid boot)) sq"
    using check_spec b(3) by (auto simp: window_ok_def)
  then have "\<not> rejects S (stream_key sid boot) sq"
    using c by (cases "check d sid boot sq") (auto simp: rejects_def accepted_def)
  then have "ident x \<notin> ident ` set (raws sp bs)" using b(7) sk x(7) by (auto simp: ident_def)
  then have "distinct (map ident (raws sp' bs'))" using b(4) by (simp add: r)
  moreover have "raw_ok E K x" using x k g by (auto simp: raw_ok_def)
  moreover have "rejects S' (skey y) (e_seq y)" if "y \<in> set (raws sp' bs')" for y
    using that b(7) S'(2,3) sk x(7) by (auto simp: r grows_def)
  ultimately have "safe E K sp' (snd (mark d sid boot sq)) file S'"
    unfolding safe_def using b(6) x(1) r S'(1) synced_extends [OF x(2) b(2)] append_keeps [OF b(5,1,2) x(2-4)]
    by (intro exI [of _ bs']) auto
  then show ?thesis using S'(2) by blast
qed

lemma safe_release: "safe E K sp d file S \<Longrightarrow> safe E K (release sp acked) d file S"
proof -
  assume "safe E K sp d file S"
  then obtain bs where b: "spool_ok sp bs" "synced_ok sp bs" "window_ok K d S" "distinct (map ident (raws sp bs))" "file_ok K sp bs file"
    "\<And>x. x \<in> set (raws sp bs) \<Longrightarrow> raw_ok E K x" "\<And>x. x \<in> set (raws sp bs) \<Longrightarrow> rejects S (skey x) (e_seq x)"
    using safeE by blast
  let ?bs = "\<lambda>k. if k < min (fst acked) (active sp) then [] else bs k"
  have r: "raws (release sp acked) ?bs = filter (\<lambda>x. \<not> fst (e_start x) < min (fst acked) (active sp)) (raws sp bs)"
    unfolding raws_def release_log [OF b(1)] filter_filter by (metis (mono_tags, lifting))
  have "distinct (map ident (raws (release sp acked) ?bs))" unfolding r using b(4) by (rule distinct_map_filter)
  moreover have "file_ok K (release sp acked) ?bs file"
    by (rule file_ok_keeps [OF b(5) release_places(2) [OF b(1,2)]]) (simp_all only: r set_filter mem_Collect_eq simp_thms)
  moreover have "raw_ok E K x \<and> rejects S (skey x) (e_seq x)" if "x \<in> set (raws (release sp acked) ?bs)" for x
    using that b(6,7) unfolding r by simp
  ultimately show ?thesis
    unfolding safe_def using release_spec(1) [OF b(1)] release_places(1) [OF b(1,2)] b(3)
    by (intro exI [of _ ?bs]) blast
qed

lemma safe_sync:
  assumes s: "safe E K sp d file S" and y: "spool_sync sp = (p, sp')"
  shows "safe E K sp' d file S" "safe E K sp' d (Some (snapshot d, position_text p)) S"
proof -
  obtain bs where b: "spool_ok sp bs" "synced_ok sp bs" "window_ok K d S" "distinct (map ident (raws sp bs))" "file_ok K sp bs file"
    "\<And>x. x \<in> set (raws sp bs) \<Longrightarrow> raw_ok E K x" "\<And>x. x \<in> set (raws sp bs) \<Longrightarrow> rejects S (skey x) (e_seq x)"
    using safeE [OF s] by blast
  note z = sync_places [OF b(1,2) y]
  have r: "raws sp' bs = raws sp bs" by (simp add: raws_def z(2))
  have "file_ok K sp' bs file" by (rule file_ok_keeps [OF b(5) z(4)]) (simp_all add: r)
  then show "safe E K sp' d file S" unfolding safe_def using z(1,3) b by (intro exI [of _ bs]) (simp add: r)
  have "restore (snapshot d) = Some d"
    using b(3) restore_streams_snap [of "[]" "streams d"]
    by (simp add: window_ok_def dedup_rel_def restore_def snapshot_def get_or_0_def)
  then have "file_ok K sp' bs (Some (snapshot d, position_text p))"
    unfolding file_ok_def using b(3,7) z(5) r by (metis Pair_inject option.inject position_round_trip)
  then show "safe E K sp' d (Some (snapshot d, position_text p)) S"
    unfolding safe_def using z(1,3) b by (intro exI [of _ bs]) (simp add: r)
qed

lemma empty_window: "window_ok K dedup_init (\<lambda>_. {})"
  by (simp add: window_ok_def dedup_rel_def dedup_init_def)

lemma restart_safe:
  assumes f: "fits K" and b: "spool_ok sp bs" "synced_ok sp bs" "distinct (map ident (raws sp bs))" "file_ok K sp bs file"
    and g: "\<And>x. x \<in> set (raws sp bs) \<Longrightarrow> raw_ok E K x"
  shows "\<exists>d S. restore_dedup file sp = Some (Some d) \<and> safe E K sp d file S"
proof -
  let ?L = "spool_log sp bs"
  note fp = first_position_least [OF b(1)]
  have "\<exists>d0 S0 start. window_ok K d0 S0 \<and> boundary sp bs start
      \<and> (\<forall>x \<in> set (raws sp bs). pos_less (e_start x) start \<longrightarrow> rejects S0 (skey x) (e_seq x))
      \<and> restore_dedup file sp = map_option (\<lambda>r. case r of Inl _ \<Rightarrow> None | Inr d' \<Rightarrow> Some d') (replay sp start (spool_end sp) d0)"
  proof (cases "file")
    case None
    then show ?thesis using empty_window [of K] fp(1,5)
      by (intro exI [of _ dedup_init] exI [of _ "\<lambda>_. {}"] exI [of _ "first_position sp"]) (auto simp: restore_dedup_def raws_def)
  next
    case (Some q)
    then obtain sn ptx where q: "file = Some (sn, ptx)" by (cases q) simp
    then obtain d0 S0 p where d: "restore sn = Some d0" "window_ok K d0 S0" "parse_position ptx = Some p" "place_ok sp bs p"
        "\<forall>x \<in> set (raws sp bs). pos_less (e_start x) p \<longrightarrow> rejects S0 (skey x) (e_seq x)"
      using b(4) unfolding file_ok_def by blast
    let ?start = "pos_max (first_position sp) p"
    have bd: "boundary sp bs ?start"
    proof (cases "pos_less (first_position sp) p")
      case True
      have "\<not> fst p < fst (first_position sp)" using True by (cases p; cases "first_position sp") auto
      then show ?thesis using True d(4) fp(2) by (auto simp: pos_max_def place_ok_def)
    next
      case False
      then show ?thesis using fp(1) by (simp add: pos_max_def)
    qed
    have "\<forall>x \<in> set (raws sp bs). pos_less (e_start x) ?start \<longrightarrow> rejects S0 (skey x) (e_seq x)"
      using d(5) fp(5) by (auto simp: pos_max_def raws_def)
    then show ?thesis using d bd q
      by (intro exI [of _ d0] exI [of _ S0] exI [of _ ?start]) (simp add: restore_dedup_def)
  qed
  then obtain d0 S0 start where d: "window_ok K d0 S0" "boundary sp bs start"
      "\<forall>x \<in> set (raws sp bs). pos_less (e_start x) start \<longrightarrow> rejects S0 (skey x) (e_seq x)"
      "restore_dedup file sp = map_option (\<lambda>r. case r of Inl _ \<Rightarrow> None | Inr d' \<Rightarrow> Some d') (replay sp start (spool_end sp) d0)"
    by blast
  let ?d = "foldl replay_entry d0 (from_pos start ?L)"
  have "\<forall>x \<in> set (from_pos start ?L). is_raw x \<longrightarrow> raw_ok E K x" using g by (auto simp: from_pos_def raws_def)
  then obtain S where S: "window_ok K ?d S" "grows S0 S" "\<forall>x \<in> set (from_pos start ?L). is_raw x \<longrightarrow> rejects S (skey x) (e_seq x)"
    using replay_entries [OF d(1) f] by blast
  have "rejects S (skey x) (e_seq x)" if x: "x \<in> set (raws sp bs)" for x
  proof (cases "pos_less (e_start x) start")
    case True
    then show ?thesis using d(3) x S(2) by (auto simp: grows_def)
  next
    case False
    then show ?thesis using S(3) x by (auto simp: raws_def from_pos_def)
  qed
  then have "safe E K sp ?d file S" unfolding safe_def using b g S(1) by (intro exI [of _ bs]) simp
  moreover have "restore_dedup file sp = Some (Some ?d)" using d(4) replay_log [OF b(1) d(2)] by simp
  ultimately show ?thesis by blast
qed

lemma crash_safe:
  fixes n mx sb :: nat
  assumes s: "safe E K sp d file S" and f: "fits K"
  defines "sp' \<equiv> open_spool (crash_files n sp) mx sb"
  shows "\<exists>d' S'. restore_dedup file sp' = Some (Some d') \<and> safe E K sp' d' file S'"
proof -
  obtain bs where b: "spool_ok sp bs" "synced_ok sp bs" "window_ok K d S" "distinct (map ident (raws sp bs))" "file_ok K sp bs file"
    "\<And>x. x \<in> set (raws sp bs) \<Longrightarrow> raw_ok E K x" "\<And>x. x \<in> set (raws sp bs) \<Longrightarrow> rejects S (skey x) (e_seq x)"
    using safeE [OF s] by blast
  obtain bs' lost where c: "spool_ok sp' bs'" "synced_ok sp' bs'" "spool_log sp bs = spool_log sp' bs' @ lost"
      "\<forall>p. place_ok sp bs p \<longrightarrow> place_ok sp' bs' p"
    using crash_places [OF b(1,2), of n mx sb] unfolding sp'_def by blast
  have r: "raws sp bs = raws sp' bs' @ filter is_raw lost" by (simp add: raws_def c(3))
  have "file_ok K sp' bs' file" by (rule file_ok_keeps [OF b(5)]) (use c(4) r in auto)
  moreover have "distinct (map ident (raws sp' bs'))" using b(4) by (simp add: r)
  moreover have "\<And>x. x \<in> set (raws sp' bs') \<Longrightarrow> raw_ok E K x" using b(6) by (simp add: r)
  ultimately show ?thesis using restart_safe [OF f c(1,2)] by blast
qed

lemma empty_safe: "synced_ok (open_spool [] mx sb) (\<lambda>_. [])" "raws (open_spool [] mx sb) (\<lambda>_. []) = []"
  by (simp_all add: synced_ok_def durable_def open_spool_def open_segment_def Let_def size_of_def raws_def spool_log_def seg_log_def)


section \<open>Every handler keeps the invariant\<close>

definition rsafe :: "rx_env \<Rightarrow> string set \<Rightarrow> (string \<Rightarrow> int set) \<Rightarrow> receiver \<Rightarrow> bool" where
  "rsafe E K S R \<longleftrightarrow> safe E K (rc_spool R) (rc_dedup R) (rc_file R) S"

definition leads :: "rx_env \<Rightarrow> string set \<Rightarrow> (string \<Rightarrow> int set) \<Rightarrow> receiver \<Rightarrow> receiver \<Rightarrow> bool" where
  "leads E K S R R' \<longleftrightarrow> (\<exists>S'. rsafe E K S' R' \<and> grows S S' \<and> rc_key R' = rc_key R)"

definition same_store :: "receiver \<Rightarrow> receiver \<Rightarrow> bool" where
  "same_store R R' \<longleftrightarrow> rc_spool R' = rc_spool R \<and> rc_dedup R' = rc_dedup R \<and> rc_file R' = rc_file R \<and> rc_key R' = rc_key R"

definition good_complete :: "string set \<Rightarrow> complete \<Rightarrow> bool" where
  "good_complete K c \<longleftrightarrow> stream_key (c_sensor c) (c_boot c) \<in> K \<and> c_sensor c \<noteq> [] \<and> (\<exists>ub. c_boot c = uuid_str ub \<and> length ub = 16)"

lemma leads_refl: "rsafe E K S R \<Longrightarrow> leads E K S R R"
  unfolding leads_def by (intro exI [of _ S]) simp

lemma leads_trans:
  assumes "leads E K S R R1" "\<And>S1. rsafe E K S1 R1 \<Longrightarrow> leads E K S1 R1 R2"
  shows "leads E K S R R2"
  using assms unfolding leads_def by (metis grows_trans)

lemma leads_same: "rsafe E K S R \<Longrightarrow> same_store R R' \<Longrightarrow> leads E K S R R'"
  unfolding leads_def by (intro exI [of _ S]) (simp add: rsafe_def same_store_def)

lemma leads_fst: "leads E K S R R1 \<Longrightarrow> same_store R R0 \<Longrightarrow> leads E K S R0 R1"
  by (simp add: leads_def same_store_def)

lemma rsafe_same: "rsafe E K S R \<Longrightarrow> same_store R R' \<Longrightarrow> rsafe E K S R'"
  by (simp add: rsafe_def same_store_def)

lemma same_store_simps [simp]:
  "same_store R R" "same_store R0 (bump n l R) = same_store R0 R" "same_store R0 (gauge n l v R) = same_store R0 R"
  "same_store R0 (refill now R) = same_store R0 R"
  by (simp_all add: same_store_def bump_def gauge_def refill_def)

lemma store_simps [simp]:
  "rc_spool (bump n l R) = rc_spool R" "rc_dedup (bump n l R) = rc_dedup R" "rc_file (bump n l R) = rc_file R" "rc_key (bump n l R) = rc_key R"
  "rc_spool (refill now R) = rc_spool R" "rc_spool (gauge n l v R) = rc_spool R"
  by (simp_all add: bump_def refill_def gauge_def)

lemma leads_and_then:
  assumes "leads E K S R (fst r)" "\<And>S1. rsafe E K S1 (fst r) \<Longrightarrow> leads E K S1 (fst r) (fst (f (fst r)))"
  shows "leads E K S R (fst (and_then r f))"
  using assms leads_trans unfolding and_then_def by simp

text \<open>An append that is not of the raw topic.\<close>

lemma leads_append:
  assumes r: "rsafe E K S R" and m: "same_store R R1" and t: "tp \<noteq> TOPIC_RAW"
    and a: "spool_append (rc_spool R1) tp key sid boot sq ts val = Inr (stored, sp')"
  shows "leads E K S R (R1\<lparr>rc_spool := sp'\<rparr>)"
  unfolding leads_def
proof (intro exI conjI)
  show "rsafe E K S (R1\<lparr>rc_spool := sp'\<rparr>)"
    using safe_append_other [OF _ a t] r m by (simp add: rsafe_def same_store_def)
qed (use m in \<open>simp_all add: same_store_def\<close>)

lemma leads_quarantine:
  assumes r: "rsafe E K S R"
  shows "leads E K S R (fst (quarantine E t why detail sid boot sq raw R))"
proof -
  define R1 where "R1 = refill (mono t) (bump ''receiver_records_invalid_total'' why R)"
  define R2 where "R2 = R1\<lparr>rc_q_tokens := rc_q_tokens R1 - 1\<rparr>"
  have m: "same_store R R1" "same_store R R2" by (simp_all add: R1_def) (simp add: R2_def R1_def same_store_def refill_def bump_def)
  have tp: "TOPIC_INVALID \<noteq> TOPIC_RAW" by (simp add: TOPIC_INVALID_def TOPIC_RAW_def)
  show ?thesis
    unfolding quarantine_def Let_def R1_def [symmetric] R2_def [symmetric]
    using leads_same [OF r] leads_append [OF r m(2) tp] m by (auto split: option.splits sum.splits)
qed

lemma leads_quarantine_record:
  "rsafe E K S R \<Longrightarrow> leads E K S R (fst (quarantine_record E t why detail c R))"
  unfolding quarantine_record_def by (rule leads_quarantine)

lemma leads_quarantine_all: "rsafe E K S R \<Longrightarrow> leads E K S R (fst (quarantine_all E t detail xs R))"
proof (induction xs arbitrary: S R)
  case (Cons x xs)
  show ?case unfolding quarantine_all.simps by (rule leads_and_then [OF leads_quarantine [OF Cons.prems]]) (rule Cons.IH)
qed (simp add: leads_refl)

lemma leads_mark:
  assumes "rsafe E K S R" "fits K" "good_complete K c"
  shows "leads E K S R (mark_rx c R)"
  using safe_mark [of E K "rc_spool R" "rc_dedup R" "rc_file R" S "c_sensor c" "c_boot c" "int (c_seq c)"] assms
  by (auto simp: rsafe_def leads_def mark_rx_def good_complete_def)

subsection \<open>Events\<close>

lemma identity_checked:
  assumes "identity_errors ev c = Some None"
  shows "dget ev ''sensor_id'' = JStr (c_sensor c)" "dget ev ''sensor_boot_id'' = JStr (c_boot c)"
    "num_eq (dget ev ''sequence'') (int (c_seq c))"
    "\<exists>sha. dget ev ''original_record_sha256'' = JStr sha \<and> dget ev ''event_id'' = JStr (event_id (c_sensor c) (c_boot c) (int (c_seq c)) sha)"
  using assms unfolding identity_errors_def dget_def by (auto split: option.splits json.splits if_splits)

lemma validated_genuine:
  assumes v: "validate_event E doc c = Some (None, ev)" and k: "partition_key ev = Some key" "observation_ms ev = Some ts"
    and x: "e_sensor x = Some (c_sensor c)" "e_boot x = Some (c_boot c)" "e_seq x = int (c_seq c)" "e_ts_ms x = ts" "e_key x = key"
      "e_value x = rx_dumps E (JObj ev)"
  shows "genuine E x"
proof -
  have "validate (rx_repr E) (rx_iter_errors E) Event (JObj ev) = Some []" "identity_errors ev c = Some None"
    using v by (auto simp: validate_event_def Let_def split: option.splits list.splits)
  then show ?thesis using identity_checked [of ev c] k x by (auto simp: genuine_def)
qed

lemma leads_event:
  assumes r: "rsafe E K S R" and f: "fits K" and g: "good_complete K c"
  shows "leads E K S R (fst (rx_event E t c R))"
proof (cases "check (rc_dedup R) (c_sensor c) (c_boot c) (int (c_seq c)) \<in> {DUPLICATE, STALE}")
  case True
  then show ?thesis using leads_mark [OF r f g] by (simp add: rx_event_def)
next
  case c: False
  have q: "leads E K S R (fst (quarantine_record E t why detail c (mark_rx c R)))" for why detail
    by (rule leads_trans [OF leads_mark [OF r f g] leads_quarantine_record])
  show ?thesis
  proof (cases "\<exists>doc ev key ts sp'. rx_loads E (c_record c) = Some doc \<and> validate_event E doc c = Some (None, ev)
      \<and> partition_key ev = Some key \<and> observation_ms ev = Some ts
      \<and> spool_append (rc_spool R) TOPIC_RAW key (Some (c_sensor c)) (Some (c_boot c)) (int (c_seq c)) ts (rx_dumps E (JObj ev)) = Inr (True, sp')")
    case True
    then obtain doc ev key ts sp' where a: "rx_loads E (c_record c) = Some doc" "validate_event E doc c = Some (None, ev)"
        "partition_key ev = Some key" "observation_ms ev = Some ts"
        "spool_append (rc_spool R) TOPIC_RAW key (Some (c_sensor c)) (Some (c_boot c)) (int (c_seq c)) ts (rx_dumps E (JObj ev)) = Inr (True, sp')"
      by blast
    obtain ub where ub: "stream_key (c_sensor c) (c_boot c) \<in> K" "c_sensor c \<noteq> []" "c_boot c = uuid_str ub" "length ub = 16"
      using g by (auto simp: good_complete_def)
    have "0 \<le> int (c_seq c)" by simp
    from safe_accept [OF r [unfolded rsafe_def] f ub this c a(5) validated_genuine [OF a(2-4)]]
    obtain S' where "safe E K sp' (snd (mark (rc_dedup R) (c_sensor c) (c_boot c) (int (c_seq c)))) (rc_file R) S'" "grows S S'" by blast
    then show ?thesis using a c by (auto simp: rx_event_def leads_def rsafe_def mark_rx_def)
  next
    case False
    then show ?thesis
      unfolding rx_event_def using c q leads_refl [OF r] leads_same [OF r, of "bump ''receiver_dropped_total'' ''spool_full'' R"]
      by (auto split: option.splits sum.splits prod.splits)
  qed
qed

subsection \<open>Health records, datagrams and housekeeping\<close>

lemma same_store_trans: "same_store R R1 \<Longrightarrow> same_store R1 R2 \<Longrightarrow> same_store R R2"
  by (simp add: same_store_def)

lemma same_set_gauges: "same_store R (fst (set_gauges sid gs R))"
proof (induction sid gs R rule: set_gauges.induct)
  case (3 sid name v gs R)
  then show ?case by (auto simp: same_store_def gauge_def)
qed simp_all

lemma leads_health_store:
  assumes "rsafe E K S R"
  shows "leads E K S R (fst (health_store E t c h R))"
proof -
  let ?R1 = "R\<lparr>rc_sensors := od_set (c_sensor c) \<lparr>sn_boot = c_boot c, sn_at = mono t, sn_rec = h\<rparr> (rc_sensors R)\<rparr>"
  have m1: "same_store R ?R1" by (simp add: same_store_def)
  have tp: "TOPIC_HEALTH \<noteq> TOPIC_RAW" by (simp add: TOPIC_HEALTH_def TOPIC_RAW_def)
  let ?G = "set_gauges (c_sensor c) (health_gauges h) ?R1"
  let ?f = "\<lambda>R2. case spool_append (rc_spool R2) TOPIC_HEALTH (utf8 (c_sensor c)) None None (- 1) 0 (rx_dumps E (JObj h)) of
             Inl _ \<Rightarrow> (R2, True)
           | Inr (stored, sp) \<Rightarrow>
               (if stored then bump ''receiver_records_accepted_total'' ''sensor-health.v1'' (R2\<lparr>rc_spool := sp\<rparr>)
                else bump ''receiver_dropped_total'' ''spool_full'' R2, False)"
  have "leads E K S R (fst (and_then ?G ?f))"
  proof (rule leads_and_then)
    show "leads E K S R (fst ?G)" by (rule leads_same [OF assms same_store_trans [OF m1 same_set_gauges]])
    fix S1 assume s: "rsafe E K S1 (fst ?G)"
    have b: "leads E K S1 R0 (bump n l R')" if "leads E K S1 R0 R'" for R0 R' n l
      using that by (simp add: leads_def rsafe_def)
    show "leads E K S1 (fst ?G) (fst (?f (fst ?G)))"
      using leads_refl [OF s] leads_append [OF s same_store_simps(1) tp] b by (auto split: sum.splits prod.splits)
  qed
  then show ?thesis by (simp add: health_store_def Let_def)
qed

lemma leads_health:
  assumes r: "rsafe E K S R"
  shows "leads E K S R (fst (rx_health E t c R))"
proof -
  let ?R1 = "R\<lparr>rc_health_seen := od_set (stream_key (c_sensor c) (c_boot c)) (int (c_seq c)) (rc_health_seen R)\<rparr>"
  have m: "same_store R ?R1" by (simp add: same_store_def)
  note r1 = rsafe_same [OF r m]
  have q: "leads E K S R (fst (quarantine_record E t why detail c ?R1))" for why detail
    using leads_trans [OF leads_same [OF r m] leads_quarantine_record] .
  have h: "leads E K S R (fst (health_store E t c d ?R1))" for d
    using leads_trans [OF leads_same [OF r m] leads_health_store] .
  show ?thesis
    unfolding rx_health_def Let_def using q h leads_refl [OF r] leads_same [OF r m]
    by (auto split: option.splits list.splits)
qed

lemma leads_complete:
  assumes r: "rsafe E K S R" and f: "fits K" and g: "c_type c \<noteq> TYPE_HEALTH \<Longrightarrow> good_complete K c"
  shows "leads E K S R (fst (rx_complete E t c R))"
proof -
  have b: "leads E K S R (bump n l R)" for n l by (rule leads_same [OF r]) simp
  show ?thesis
  proof (cases "c_type c = TYPE_HEALTH")
    case True
    then show ?thesis using leads_trans [OF b leads_health] by (simp add: rx_complete_def)
  next
    case False
    then show ?thesis using leads_trans [OF b leads_event [OF _ f g]] by (simp add: rx_complete_def)
  qed
qed

text \<open>The identity of a completed record is that of the authenticated frame that completed it.\<close>

lemma complete_identity:
  assumes "add mx ps fr now = (Some c, ex, ps')"
  shows "c_sensor c = frame_sensor fr \<and> c_boot c = frame_boot fr \<and> c_seq c = frame_seq fr \<and> c_type c = frame_type fr"
  using assms by (auto simp: add_def store_chunk_def complete_of_def Let_def split: if_splits option.splits prod.splits)

definition frame_in :: "string set \<Rightarrow> bytes \<Rightarrow> bytes \<Rightarrow> bool" where
  "frame_in K key data \<longleftrightarrow> (case decode key data of Inl _ \<Rightarrow> True
     | Inr f \<Rightarrow> frame_type f = TYPE_HEALTH \<or> stream_key (frame_sensor f) (frame_boot f) \<in> K)"

lemma decoded_complete:
  assumes "decode key data = Inr fr" "frame_in K key data" "add mx ps fr now = (Some c, ex, ps')" "c_type c \<noteq> TYPE_HEALTH"
  shows "good_complete K c"
proof -
  obtain flags sidb boot where "frame_sensor fr = ascii_string sidb" "frame_boot fr = uuid_str boot" "length boot = 16"
    using decode_canonical [OF assms(1)] by blast
  moreover have "frame_sensor fr \<noteq> []" using assms(1) by (rule decode_SomeD) (auto simp: ascii_string_def slice_def min_def split: if_splits)
  ultimately show ?thesis using complete_identity [OF assms(3)] assms(1,2,4) by (auto simp: good_complete_def frame_in_def)
qed

lemma leads_datagram:
  assumes r: "rsafe E K S R" and f: "fits K" and k: "frame_in K (rc_key R) data"
  shows "leads E K S R (fst (handle_datagram E t data now R))"
proof (cases "decode (rc_key R) data")
  case (Inl e)
  obtain why msg where e: "e = FrameError why msg" by (cases e)
  have "same_store R (bump ''receiver_frames_rejected_total'' why (bump ''receiver_datagrams_total'' [] R))" by simp
  then show ?thesis using leads_trans [OF leads_same [OF r] leads_quarantine] Inl e by (simp add: handle_datagram_def)
next
  case (Inr fr)
  let ?R = "bump ''receiver_datagrams_total'' [] R"
  obtain fin evicted ps where a: "add MAX_PENDING (rc_pending R) fr now = (fin, evicted, ps)" by (cases "add MAX_PENDING (rc_pending R) fr now") auto
  have "same_store R (?R\<lparr>rc_pending := ps\<rparr>)" by (simp add: same_store_def)
  then have q: "leads E K S R (fst (quarantine_all E t ''reassembly limit reached'' evicted (?R\<lparr>rc_pending := ps\<rparr>)))"
    using leads_trans [OF leads_same [OF r] leads_quarantine_all] by blast
  have pend: "rc_pending ?R = rc_pending R" by (simp add: bump_def)
  show ?thesis
    unfolding handle_datagram_def Let_def store_simps Inr sum.case pend a prod.case
    by (rule leads_and_then [OF q])
      (use leads_refl leads_complete [OF _ f decoded_complete [OF Inr k]] a in \<open>auto split: option.splits\<close>)
qed

lemma foldl_same:
  "(\<And>R x. same_store R0 R \<Longrightarrow> same_store R0 (F R x)) \<Longrightarrow> same_store R0 R1 \<Longrightarrow> same_store R0 (foldl F R1 xs)"
  by (induction xs arbitrary: R1) simp_all

lemma same_sensor_gauges: "same_store R (sensor_gauges now R)"
  unfolding sensor_gauges_def by (rule foldl_same) (simp_all add: case_prod_beta)

lemma leads_housekeeping:
  assumes r: "rsafe E K S R0"
  shows "leads E K S R0 (fst (housekeeping E t R0))"
proof -
  obtain timed_out ps where x: "expire TIMEOUT_US (wall_us t) (rc_pending R0) = (timed_out, ps)" by fastforce
  let ?G = "\<lambda>R. let (pos, sp) = spool_sync (rc_spool R); R1 = sensor_gauges (mono t) (window_gauges (R\<lparr>rc_spool := sp\<rparr>))
     in (if mono t - rc_last_snapshot R1 \<ge> 1
         then R1\<lparr>rc_file := Some (snapshot (rc_dedup R1), position_text pos), rc_last_snapshot := mono t\<rparr> else R1, False)"
  have "same_store R0 (R0\<lparr>rc_pending := ps\<rparr>)" by (simp add: same_store_def)
  then have q: "leads E K S R0 (fst (quarantine_all E t ''fragments incomplete'' timed_out (R0\<lparr>rc_pending := ps\<rparr>)))"
    using leads_trans [OF leads_same [OF r] leads_quarantine_all] by blast
  have g: "leads E K S1 R (fst (?G R))" if s: "rsafe E K S1 R" for S1 R
  proof -
    obtain pos sp where y: "spool_sync (rc_spool R) = (pos, sp)" by fastforce
    let ?R1 = "sensor_gauges (mono t) (window_gauges (R\<lparr>rc_spool := sp\<rparr>))"
    have m: "same_store (R\<lparr>rc_spool := sp\<rparr>) ?R1"
      by (rule same_store_trans [OF _ same_sensor_gauges]) (simp add: window_gauges_def)
    note sy = safe_sync [OF s [unfolded rsafe_def] y]
    have "rsafe E K S1 ?R1" using m sy(1) by (simp add: rsafe_def same_store_def)
    moreover have "rsafe E K S1 (?R1\<lparr>rc_file := Some (snapshot (rc_dedup ?R1), position_text pos), rc_last_snapshot := mono t\<rparr>)"
      using m sy(2) by (simp add: rsafe_def same_store_def)
    moreover have "rc_key ?R1 = rc_key R" using m by (simp add: same_store_def)
    ultimately show ?thesis unfolding y leads_def by (intro exI [of _ S1]) (simp add: Let_def)
  qed
  show ?thesis using leads_and_then [OF q, of ?G] g by (simp add: housekeeping_def x)
qed

section \<open>Runs with crashes\<close>

text \<open>
  What can happen to a receiver: a datagram arrives (with the time stamp of its arrival), housekeeping
  runs, the publisher releases what it has published, the process dies and starts again. A crash keeps
  the durable bytes of the active segment and cuts the others anywhere.
\<close>

datatype rx_op = Arrive bytes int clock | Tick clock | Released position | Crash nat real

fun rx_step :: "rx_env \<Rightarrow> int \<Rightarrow> rx_op \<Rightarrow> receiver \<Rightarrow> receiver option option" where
  "rx_step E rate (Arrive data now t) R = Some (Some (fst (handle_datagram E t data now R)))"
| "rx_step E rate (Tick t) R = Some (Some (fst (housekeeping E t R)))"
| "rx_step E rate (Released p) R = Some (Some (R\<lparr>rc_spool := release (rc_spool R) p\<rparr>))"
| "rx_step E rate (Crash n now) R =
     rx_start (rc_key R) rate now (max_bytes (rc_spool R)) (segment_bytes (rc_spool R)) (crash_files n (rc_spool R)) (rc_file R)"

fun rx_run :: "rx_env \<Rightarrow> int \<Rightarrow> rx_op list \<Rightarrow> receiver \<Rightarrow> receiver option option" where
  "rx_run E rate [] R = Some (Some R)"
| "rx_run E rate (x # xs) R = (case rx_step E rate x R of Some (Some R1) \<Rightarrow> rx_run E rate xs R1 | r \<Rightarrow> r)"

fun op_in :: "string set \<Rightarrow> bytes \<Rightarrow> rx_op \<Rightarrow> bool" where
  "op_in K key (Arrive data now t) = frame_in K key data"
| "op_in K key _ = True"

fun is_crash :: "rx_op \<Rightarrow> bool" where
  "is_crash (Crash n now) = True"
| "is_crash _ = False"

lemma start_safe:
  assumes f: "fits K" and d: "restore_dedup file (open_spool fs mx sb) = Some (Some d)" and s: "safe E K (open_spool fs mx sb) d file S"
  shows "\<exists>R. rx_start key rate now mx sb fs file = Some (Some R) \<and> rsafe E K S R \<and> rc_key R = key"
  using d s by (simp add: rx_start_def Let_def rsafe_def)

lemma step_safe:
  assumes r: "rsafe E K S R" and f: "fits K" and k: "op_in K (rc_key R) x"
  shows "\<exists>R' S'. rx_step E rate x R = Some (Some R') \<and> rsafe E K S' R' \<and> rc_key R' = rc_key R \<and> (is_crash x \<or> grows S S')"
proof (cases x)
  case (Arrive data now t)
  then show ?thesis using leads_datagram [OF r f, of data t now] k by (auto simp: leads_def)
next
  case (Tick t)
  then show ?thesis using leads_housekeeping [OF r, of t] by (auto simp: leads_def)
next
  case (Released p)
  then show ?thesis using safe_release [OF r [unfolded rsafe_def], of p] by (auto simp: rsafe_def intro: exI [of _ S])
next
  case (Crash n now)
  obtain d' S' where "restore_dedup (rc_file R) (open_spool (crash_files n (rc_spool R)) (max_bytes (rc_spool R)) (segment_bytes (rc_spool R))) = Some (Some d')"
      "safe E K (open_spool (crash_files n (rc_spool R)) (max_bytes (rc_spool R)) (segment_bytes (rc_spool R))) d' (rc_file R) S'"
    using crash_safe [OF r [unfolded rsafe_def] f] by blast
  from start_safe [OF f this, of "rc_key R" rate now] show ?thesis using Crash by auto
qed

lemma run_safe:
  assumes "rsafe E K S R" "fits K" "\<forall>x \<in> set xs. op_in K (rc_key R) x"
  shows "\<exists>R' S'. rx_run E rate xs R = Some (Some R') \<and> rsafe E K S' R' \<and> rc_key R' = rc_key R
    \<and> ((\<exists>x \<in> set xs. is_crash x) \<or> grows S S')"
  using assms
proof (induction xs arbitrary: R S)
  case Nil
  then show ?case by (auto intro: exI [of _ S])
next
  case (Cons x xs)
  have "op_in K (rc_key R) x" using Cons.prems(3) by simp
  from step_safe [OF Cons.prems(1,2) this, of rate]
  obtain R1 S1 where 1: "rx_step E rate x R = Some (Some R1)" "rsafe E K S1 R1" "rc_key R1 = rc_key R" "is_crash x \<or> grows S S1" by blast
  have "\<forall>y \<in> set xs. op_in K (rc_key R1) y" using Cons.prems(3) 1(3) by simp
  from Cons.IH [OF 1(2) Cons.prems(2) this]
  obtain R2 S2 where 2: "rx_run E rate xs R1 = Some (Some R2)" "rsafe E K S2 R2" "rc_key R2 = rc_key R1"
      "(\<exists>x \<in> set xs. is_crash x) \<or> grows S1 S2" by blast
  have "(\<exists>y \<in> set (x # xs). is_crash y) \<or> grows S S2" using 1(4) 2(4) grows_trans by auto
  then show ?case using 1 2 by (intro exI [of _ R2] exI [of _ S2]) simp
qed

lemma fresh_safe:
  assumes "fits K"
  shows "\<exists>R S. rx_start key rate now mx sb [] None = Some (Some R) \<and> rsafe E K S R \<and> rc_key R = key"
proof -
  have "distinct (map ident (raws (open_spool [] mx sb) (\<lambda>_. [])))" by (simp add: empty_safe(2))
  moreover have "file_ok K (open_spool [] mx sb) (\<lambda>_. []) None" by (simp add: file_ok_def)
  ultimately obtain d S where "restore_dedup None (open_spool [] mx sb) = Some (Some d)" "safe E K (open_spool [] mx sb) d None S"
    using restart_safe [OF assms empty_spool_ok empty_safe(1), of mx sb None E] by (auto simp: empty_safe(2))
  from start_safe [OF assms this, of key rate now] show ?thesis by blast
qed

definition refused :: "receiver \<Rightarrow> entry \<Rightarrow> bool" where
  "refused R x \<longleftrightarrow> (\<exists>sid boot. e_sensor x = Some sid \<and> e_boot x = Some boot \<and> check (rc_dedup R) sid boot (e_seq x) \<in> {DUPLICATE, STALE})"

lemma safe_holds:
  assumes "rsafe E K S R"
  shows "\<exists>L. holds (rc_spool R) L \<and> distinct (map ident (filter is_raw L))
    \<and> (\<forall>x \<in> set L. is_raw x \<longrightarrow> genuine E x \<and> rejects S (skey x) (e_seq x))"
  using assms unfolding rsafe_def
proof (rule safeE)
  fix bs assume b: "spool_ok (rc_spool R) bs" "distinct (map ident (raws (rc_spool R) bs))"
    "\<And>x. x \<in> set (raws (rc_spool R) bs) \<Longrightarrow> raw_ok E K x" "\<And>x. x \<in> set (raws (rc_spool R) bs) \<Longrightarrow> rejects S (skey x) (e_seq x)"
  show ?thesis
    using log_holds [OF b(1)] b(2-4) by (intro exI [of _ "spool_log (rc_spool R) bs"]) (auto simp: raws_def raw_ok_def)
qed

lemma rejects_refused:
  assumes "rsafe E K S R" "rejects S (skey x) (e_seq x)" "genuine E x"
  shows "refused R x"
proof -
  obtain sid boot where x: "e_sensor x = Some sid" "e_boot x = Some boot" using assms(3) by (auto simp: genuine_def)
  have "check (rc_dedup R) sid boot (e_seq x) = spec_verdict (S (stream_key sid boot)) (e_seq x)"
    using safe_window [OF assms(1) [unfolded rsafe_def]] check_spec by (auto simp: window_ok_def)
  moreover have "\<not> accepted (spec_verdict (S (stream_key sid boot)) (e_seq x))" using assms(2) x by (simp add: rejects_def skey_def)
  ultimately show ?thesis using x by (cases "check (rc_dedup R) sid boot (e_seq x)") (auto simp: refused_def accepted_def)
qed

text \<open>
  C3: the receiver across crashes. Start it on an empty directory and let datagrams arrive, housekeeping
  run, the publisher release, and the process die at any point with the unsynced tail of the spool cut
  anywhere: every restart succeeds (the replay loop ends), the spool can be read as a whole, the events
  it then holds are distinct, each of them passed the validation and carries the identity and the key
  of its envelope, and each is refused when it arrives again - and stays refused, also after the
  publisher has released its segment and however far the window has moved, for as long as the process
  then lives. At most 64 streams are in play. (An event that is no longer held when the process dies is
  not covered: if it was released after the last snapshot of the windows, a restart has forgotten it.)
\<close>

theorem receiver_holds_once:
  assumes "fits K" "\<forall>x \<in> set (ops1 @ ops2). op_in K key x" "rx_start key rate now mx sb [] None = Some (Some R0)"
    and "\<forall>y \<in> set ops2. \<not> is_crash y"
  shows "\<exists>R1 R2 L. rx_run E rate ops1 R0 = Some (Some R1) \<and> rx_run E rate ops2 R1 = Some (Some R2)
    \<and> holds (rc_spool R1) L \<and> distinct (map ident (filter is_raw L))
    \<and> (\<forall>x \<in> set L. is_raw x \<longrightarrow> genuine E x \<and> refused R1 x \<and> refused R2 x)"
proof -
  obtain S where s: "rsafe E K S R0" "rc_key R0 = key" using fresh_safe [OF assms(1), of key rate now mx sb E] assms(3) by auto
  obtain R1 S1 where r1: "rx_run E rate ops1 R0 = Some (Some R1)" "rsafe E K S1 R1" "rc_key R1 = key"
    using run_safe [OF s(1) assms(1), of ops1 rate] assms(2) s(2) by auto
  obtain R2 S2 where r2: "rx_run E rate ops2 R1 = Some (Some R2)" "rsafe E K S2 R2" "grows S1 S2"
    using run_safe [OF r1(2) assms(1), of ops2 rate] assms(2,4) r1(3) by auto
  obtain L where l: "holds (rc_spool R1) L" "distinct (map ident (filter is_raw L))"
      "\<forall>x \<in> set L. is_raw x \<longrightarrow> genuine E x \<and> rejects S1 (skey x) (e_seq x)"
    using safe_holds [OF r1(2)] by blast
  have "genuine E x \<and> refused R1 x \<and> refused R2 x" if "x \<in> set L" "is_raw x" for x
    using l(3) that rejects_refused [OF r1(2)] rejects_refused [OF r2(2)] r2(3) by (simp add: grows_def)
  then show ?thesis using r1(1) r2(1) l(1,2) by blast
qed

subsection \<open>A receiver that accepts an event and crashes\<close>

definition demo_boot :: string where
  "demo_boot = uuid_str (replicate 16 7)"

definition demo_envelope :: "string \<Rightarrow> dict" where
  "demo_envelope time = [(''event_schema_version'', JStr ''1.0.0''), (''event_time'', JStr time), (''replay_time_offset_us'', JInt 0),
     (''payload'', JObj [(''uid'', JStr ''C1'')]), (''availability'', JObj []), (''original_record'', JNull),
     (''original_record_truncated'', JBool True), (''original_record_sha256'', JStr ''ab''), (''sensor_id'', JStr ''s''),
     (''sensor_boot_id'', JStr demo_boot), (''sequence'', JInt 5), (''event_id'', JStr (event_id ''s'' demo_boot 5 ''ab''))]"

definition demo_rx_env :: "string \<Rightarrow> rx_env" where
  "demo_rx_env time = \<lparr>rx_loads = (\<lambda>_. Some (JObj (demo_envelope time))), rx_dumps = (\<lambda>_. [1]), rx_iter_errors = (\<lambda>_ _. []),
     rx_repr = (\<lambda>_. []), rx_replace = (\<lambda>_. [])\<rparr>"

definition demo_receiver :: receiver where
  "demo_receiver = \<lparr>rc_key = replicate 16 1, rc_pending = [], rc_dedup = dedup_init, rc_spool = open_spool [] 1000 100, rc_counts = [],
     rc_gauges = [((''receiver_spool_max_bytes'', []), 1000)], rc_health_seen = [], rc_sensors = [], rc_q_rate = 1, rc_q_tokens = 1,
     rc_q_refill = 0, rc_last_snapshot = 0, rc_file = None\<rparr>"

lemma demo_start: "rx_start (replicate 16 1) 1 0 1000 100 [] None = Some (Some demo_receiver)"
proof -
  have "spool_log (open_spool [] 1000 100) (\<lambda>_. []) = []" by (simp add: spool_log_def seg_log_def)
  then have "replay (open_spool [] 1000 100) (first_position (open_spool [] 1000 100)) (spool_end (open_spool [] 1000 100)) dedup_init
      = Some (Inr dedup_init)"
    using replay_log [OF empty_spool_ok first_position_least(1) [OF empty_spool_ok], of 1000 100 dedup_init] by (simp add: from_pos_def)
  then show ?thesis by (simp add: rx_start_def restore_dedup_def demo_receiver_def Let_def)
qed

lemma demo_complete:
  assumes "parse_us time = Some 1753000000123456" "c_sensor c = ''s''" "c_boot c = demo_boot" "c_seq c = 5" "c_received_at c = 0"
    "rc_spool R = open_spool [] 1000 100" "rc_dedup R = dedup_init"
  shows "\<exists>sp L x. rc_spool (fst (rx_event (demo_rx_env time) t c R)) = sp \<and> holds sp L \<and> L = [x] \<and> is_raw x"
proof -
  obtain recv where r: "format_us 0 = Some recv" using format_us_Some [of 0] by auto
  let ?ev = "od_set ''receiver_received_at'' (JStr recv) (demo_envelope time)"
  have get: "map_of ?ev k = (if k = ''receiver_received_at'' then Some (JStr recv) else map_of (demo_envelope time) k)" for k by simp
  have v: "validate_event (demo_rx_env time) (JObj (demo_envelope time)) c = Some (None, ?ev)"
    using assms(2-5) r
    by (simp add: validate_event_def demo_rx_env_def validate_def VERSION_FIELDS_def has_key_map_of dget_def get cross_rules_def
        event_rules_def availability_errors_def identity_errors_def demo_envelope_def)
  have k: "partition_key ?ev = Some (utf8 (''s|'' @ demo_boot @ ''||C1''))" "observation_ms ?ev = Some 1753000000123"
    using assms(1) by (simp_all add: partition_key_def observation_ms_def observation_result_def get dget_def jstr_def demo_envelope_def Let_def)
  have "length demo_boot = 36" by (simp add: demo_boot_def uuid_str_def Let_def)
  then obtain sp where sp: "spool_append (open_spool [] 1000 100) TOPIC_RAW (utf8 (''s|'' @ demo_boot @ ''||C1'')) (Some ''s'') (Some demo_boot) 5
      1753000000123 [1] = Inr (True, sp)"
    by (simp add: spool_append_def pack_body_def ascii_bytes_def uuid_bytes_str append_record_def demo_boot_def TOPIC_RAW_def utf8_def
        open_spool_def open_segment_def file_of_def size_of_def Let_def del: be.simps)
  obtain bs x where x: "spool_ok sp bs" "spool_log sp bs = spool_log (open_spool [] 1000 100) (\<lambda>_. []) @ [x]" "e_topic x = TOPIC_RAW"
    using spool_append_extends [OF empty_spool_ok sp] by auto
  have "rc_spool (fst (rx_event (demo_rx_env time) t c R)) = sp"
    using assms v k sp by (simp add: rx_event_def check_def dedup_init_def demo_rx_env_def bump_def mark_rx_def)
  then show ?thesis using log_holds [OF x(1)] x(2,3) by (auto simp: is_raw_def spool_log_def seg_log_def)
qed

lemma demo_stored:
  "\<exists>time d R x. fst (handle_datagram (demo_rx_env time) \<lparr>mono = 0, wall_us = 0\<rparr> d 0 demo_receiver) = R \<and> holds (rc_spool R) [x] \<and> is_raw x
    \<and> frame_in {stream_key ''s'' demo_boot} (replicate 16 1) d"
proof -
  have r: "([1] :: bytes) \<noteq> []" "length ([1] :: bytes) \<le> MAX_RECORD_BYTES" "0 < ceil_div (length ([1] :: bytes)) MAX_CHUNK_BYTES"
    by (simp_all add: link_consts ceil_div_def)
  have s: "list_all sid_ok [115 :: byte]" "1 \<le> length [115 :: byte]" "length [115 :: byte] \<le> 63" by (simp_all add: sid_ok_def)
  have u: "length (replicate 16 7 :: bytes) = 16" "5 < (2::nat) ^ 64" by simp_all
  have str: "ascii_string [115] = ''s''" by code_simp
  have n: "ceil_div (Suc 0) MAX_CHUNK_BYTES = 1" by (simp add: link_consts ceil_div_def)
  obtain d where d: "decode (replicate 16 1) d = Inr \<lparr>frame_type = TYPE_EVENT, frag_index = 0, frag_count = 1, frame_sensor = ''s'',
      frame_boot = demo_boot, frame_seq = 5, total_length = 1, chunk = chunk_at [1] 0\<rparr>"
    using decode_frame_body [OF disjI1 [OF refl] r s u refl] str n by (auto simp: demo_boot_def)
  obtain time where t: "parse_us time = Some 1753000000123456"
    using parse_format_us [of 1753000000123456] by (auto simp: EPOCH_ORDINAL_def MAX_ORDINAL_def)
  define c where "c = \<lparr>c_type = TYPE_EVENT, c_sensor = ''s'', c_boot = demo_boot, c_seq = 5, c_record = chunk_at [1] 0, c_received_at = 0\<rparr>"
  define R0 where "R0 = bump ''receiver_records_total'' ''event'' (bump ''receiver_datagrams_total'' [] demo_receiver\<lparr>rc_pending := []\<rparr>)"
  have R0: "rc_spool R0 = open_spool [] 1000 100" "rc_dedup R0 = dedup_init" by (simp_all add: R0_def demo_receiver_def)
  let ?R = "fst (rx_event (demo_rx_env time) \<lparr>mono = 0, wall_us = 0\<rparr> c R0)"
  have h: "fst (handle_datagram (demo_rx_env time) \<lparr>mono = 0, wall_us = 0\<rparr> d 0 demo_receiver) = ?R"
    using d by (simp add: handle_datagram_def demo_receiver_def add_def complete_of_def and_then_def rx_complete_def link_consts c_def R0_def bump_def)
  have "c_sensor c = ''s''" "c_boot c = demo_boot" "c_seq c = 5" "c_received_at c = 0" by (simp_all add: c_def)
  from demo_complete [OF t this R0, of "\<lparr>mono = 0, wall_us = 0\<rparr>"]
  obtain x where x: "holds (rc_spool ?R) [x]" "is_raw x" by blast
  have "frame_in {stream_key ''s'' demo_boot} (replicate 16 1) d" by (simp add: frame_in_def d)
  then show ?thesis using h x by metis
qed


lemma demo_fits: "fits {stream_key ''s'' demo_boot}"
  by (simp add: fits_def MAX_STREAMS_def)

theorem receiver_holds_once_witness:
  "\<exists>E d R R2 x. rx_run E 1 [Arrive d 0 \<lparr>mono = 0, wall_us = 0\<rparr>] demo_receiver = Some (Some R)
    \<and> rx_run E 1 [Released (9, 9)] R = Some (Some R2)
    \<and> holds (rc_spool R) [x] \<and> is_raw x \<and> genuine E x \<and> refused R x \<and> refused R2 x"
proof -
  obtain time d R x where d: "fst (handle_datagram (demo_rx_env time) \<lparr>mono = 0, wall_us = 0\<rparr> d 0 demo_receiver) = R"
      "holds (rc_spool R) [x]" "is_raw x" "frame_in {stream_key ''s'' demo_boot} (replicate 16 1) d"
    using demo_stored by blast
  let ?a = "Arrive d 0 \<lparr>mono = 0, wall_us = 0\<rparr>"
  have i: "\<forall>y \<in> set ([?a] @ [Released (9, 9)]). op_in {stream_key ''s'' demo_boot} (replicate 16 1) y"
    "\<forall>y \<in> set [Released (9, 9)]. \<not> is_crash y" using d(4) by simp_all
  from receiver_holds_once [OF demo_fits i(1) demo_start i(2), of "demo_rx_env time"]
  obtain R2 L where L: "rx_run (demo_rx_env time) 1 [Released (9, 9)] R = Some (Some R2)" "holds (rc_spool R) L"
      "\<forall>y \<in> set L. is_raw y \<longrightarrow> genuine (demo_rx_env time) y \<and> refused R y \<and> refused R2 y"
    using d(1) by auto
  have "L = [x]" by (rule holds_unique [OF L(2) d(2)])
  moreover have "rx_run (demo_rx_env time) 1 [?a] demo_receiver = Some (Some R)" using d(1) by simp
  ultimately show ?thesis using L(1,3) d(2,3) by (metis list.set_intros(1))
qed

end
