(* ===== verification/Publisher.thy ===== *)
theory Publisher
  imports SpoolLog
begin

text \<open>
  The publisher (\<^verbatim>\<open>ingest/receiver/sih_receiver/publisher.py\<close>): one pass of the loop of \<^verbatim>\<open>pump\<close> reads a batch
  of synced entries, hands them to the producer, runs the delivery callbacks, moves the cursor over
  the acknowledged prefix of what is in flight, and persists the cursor and releases segments. What the
  broker reports in a pass is its list of callbacks, any positions with success or failure. An exception
  ends the pump; the next one starts again from the cursor. Retries of a full producer queue only run
  callbacks, so they are part of the pass's list.
\<close>

section \<open>State\<close>

record publisher =
  pb_cursor :: position
  pb_file :: "string option"
  pb_healthy :: bool
  pb_published :: nat
  pb_errors :: nat
  pb_backoff :: real

record pump =
  pm_read :: position
  pm_in_flight :: "position list"
  pm_acked :: "position set"
  pm_failed :: bool
  pm_persist :: real
  pm_idle :: nat

record message =
  m_topic :: string
  m_value :: bytes
  m_key :: "bytes option"
  m_ts :: int

definition TOPICS :: "nat \<Rightarrow> string option" where
  "TOPICS t = map_of [(1, ''raw-events.v1''), (2, ''invalid-events.v1''), (3, ''sensor-health.v1'')] t"

text \<open>The arguments of \<^verbatim>\<open>produce\<close>; \<open>None\<close> is the \<^verbatim>\<open>KeyError\<close> of an unknown topic.\<close>

definition message_of :: "entry \<Rightarrow> message option" where
  "message_of x = map_option (\<lambda>t. \<lparr>m_topic = t, m_value = e_value x, m_key = (if e_key x = [] then None else Some (e_key x)),
     m_ts = (if e_ts_ms x > 0 then e_ts_ms x else 0)\<rparr>) (TOPICS (e_topic x))"

section \<open>Operations\<close>

text \<open>The constructor; \<open>None\<close> when the cursor file does not parse.\<close>

definition pub_open :: "spool \<Rightarrow> string option \<Rightarrow> publisher option" where
  "pub_open sp file = map_option (\<lambda>c. \<lparr>pb_cursor = c, pb_file = file, pb_healthy = False, pb_published = 0, pb_errors = 0, pb_backoff = 1 / 2\<rparr>)
     (case file of None \<Rightarrow> Some (first_position sp) | Some t \<Rightarrow> parse_position t)"

definition backlog_bytes :: "spool \<Rightarrow> publisher \<Rightarrow> nat" where
  "backlog_bytes sp pb =
     (if fst (spool_end sp) = fst (pb_cursor pb) then snd (spool_end sp) - snd (pb_cursor pb) else total_bytes sp)"

definition pump_start :: "real \<Rightarrow> publisher \<Rightarrow> pump" where
  "pump_start now pb = \<lparr>pm_read = pb_cursor pb, pm_in_flight = [], pm_acked = {}, pm_failed = False, pm_persist = now, pm_idle = 0\<rparr>"

fun deliver :: "(position \<times> bool) list \<Rightarrow> publisher \<times> pump \<Rightarrow> publisher \<times> pump" where
  "deliver [] s = s"
| "deliver ((p, delivered) # cbs) (pb, pm) = deliver cbs
     (if delivered then (pb\<lparr>pb_published := pb_published pb + 1\<rparr>, pm\<lparr>pm_acked := insert p (pm_acked pm)\<rparr>)
      else (pb, pm\<lparr>pm_failed := True\<rparr>))"

text \<open>The cursor moves over the acknowledged prefix; the flag says whether it moved.\<close>

fun settle :: "position list \<Rightarrow> position set \<Rightarrow> position \<Rightarrow> bool \<Rightarrow> position list \<times> position set \<times> position \<times> bool" where
  "settle [] acked cursor moved = ([], acked, cursor, moved)"
| "settle (p # ps) acked cursor moved =
     (if p \<in> acked then settle ps (acked - {p}) p True else (p # ps, acked, cursor, moved))"

datatype pump_result = Raised | Returned | Pumping pump

definition pump_pass ::
  "nat option \<Rightarrow> (position \<times> bool) list \<Rightarrow> real \<Rightarrow> spool \<Rightarrow> publisher \<Rightarrow> pump \<Rightarrow> (spool \<times> publisher \<times> pump_result) \<times> message list" where
  "pump_pass max_idle cbs now sp pb pm =
     (if pm_failed pm then ((sp, pb, Raised), [])
      else case (if length (pm_in_flight pm) < 50000 then spool_read sp (pm_read pm) (synced sp) 2000 else Inr []) of
        Inl e \<Rightarrow> ((sp, pb, Raised), [])
      | Inr batch \<Rightarrow>
          let produced = map the (takeWhile (\<lambda>m. m \<noteq> None) (map message_of batch))
          in if None \<in> set (map message_of batch) then ((sp, pb, Raised), produced)
          else let (pb1, pm1) = deliver cbs (pb, pm\<lparr>pm_in_flight := pm_in_flight pm @ map e_end batch,
                     pm_read := (if batch = [] then pm_read pm else e_end (last batch))\<rparr>);
                   (flight, acked, cursor, moved) = settle (pm_in_flight pm1) (pm_acked pm1) (pb_cursor pb1) False;
                   pb2 = pb1\<lparr>pb_cursor := cursor, pb_healthy := pb_healthy pb1 \<or> moved\<rparr>;
                   pm2 = pm1\<lparr>pm_in_flight := flight, pm_acked := acked\<rparr>;
                   persist = (moved \<and> (now - pm_persist pm2 \<ge> 1 / 5 \<or> flight = []));
                   sp3 = (if persist then release sp cursor else sp);
                   pb3 = (if persist then pb2\<lparr>pb_file := Some (position_text cursor)\<rparr> else pb2);
                   pm3 = (if persist then pm2\<lparr>pm_persist := now\<rparr> else pm2)
               in ((sp3, pb3,
                    if batch = [] \<and> flight = [] then
                      (case max_idle of Some m \<Rightarrow> if m \<le> pm_idle pm3 + 1 then Returned else Pumping (pm3\<lparr>pm_idle := pm_idle pm3 + 1\<rparr>)
                       | None \<Rightarrow> Pumping (pm3\<lparr>pm_idle := pm_idle pm3 + 1\<rparr>))
                    else Pumping (pm3\<lparr>pm_idle := 0\<rparr>)), produced))"

text \<open>What \<^verbatim>\<open>run\<close> does after a pump ended.\<close>

definition after_pump :: "bool \<Rightarrow> publisher \<Rightarrow> publisher" where
  "after_pump raised pb =
     (let pb1 = (if raised then pb\<lparr>pb_errors := pb_errors pb + 1\<rparr> else pb\<lparr>pb_backoff := 1 / 2\<rparr>)
      in pb1\<lparr>pb_healthy := False, pb_backoff := min 10 (pb_backoff pb1 * 2)\<rparr>)"

section \<open>The publisher beside the receiver\<close>

text \<open>
  The steps of the two processes on one spool: the receiver stores an entry or syncs, a pump starts,
  makes a pass, or an exception of the producer ends it, and the machine stops and starts again.
\<close>

datatype pub_op = Store nat bytes "string option" "string option" int int bytes | Sync
  | Begin real | Pass "(position \<times> bool) list" real | Broken | Restart nat

record pub_sys =
  y_spool :: spool
  y_pub :: publisher
  y_pump :: "pump option"

fun pub_step :: "pub_op \<Rightarrow> pub_sys \<Rightarrow> pub_sys option" where
  "pub_step (Store tp key sid boot sq ts val) y =
     Some (case spool_append (y_spool y) tp key sid boot sq ts val of Inl _ \<Rightarrow> y | Inr (_, sp) \<Rightarrow> y\<lparr>y_spool := sp\<rparr>)"
| "pub_step Sync y = Some (y\<lparr>y_spool := snd (spool_sync (y_spool y))\<rparr>)"
| "pub_step (Begin now) y = Some (if y_pump y = None then y\<lparr>y_pump := Some (pump_start now (y_pub y))\<rparr> else y)"
| "pub_step (Pass cbs now) y =
     Some (case y_pump y of None \<Rightarrow> y
      | Some pm \<Rightarrow>
          (case fst (pump_pass None cbs now (y_spool y) (y_pub y) pm) of
             (sp, pb, Raised) \<Rightarrow> \<lparr>y_spool = sp, y_pub = after_pump True pb, y_pump = None\<rparr>
           | (sp, pb, Returned) \<Rightarrow> \<lparr>y_spool = sp, y_pub = after_pump False pb, y_pump = None\<rparr>
           | (sp, pb, Pumping pm') \<Rightarrow> \<lparr>y_spool = sp, y_pub = pb, y_pump = Some pm'\<rparr>))"
| "pub_step Broken y = Some (y\<lparr>y_pub := after_pump True (y_pub y), y_pump := None\<rparr>)"
| "pub_step (Restart n) y =
     (let sp = open_spool (crash_files n (y_spool y)) (max_bytes (y_spool y)) (segment_bytes (y_spool y))
      in map_option (\<lambda>pb. \<lparr>y_spool = sp, y_pub = pb, y_pump = None\<rparr>) (pub_open sp (pb_file (y_pub y))))"

fun pub_run :: "pub_op list \<Rightarrow> pub_sys \<Rightarrow> pub_sys option" where
  "pub_run [] y = Some y"
| "pub_run (x # xs) y = Option.bind (pub_step x y) (pub_run xs)"

lemma pub_run_append: "pub_run (xs @ ys) y = Option.bind (pub_run xs y) (pub_run ys)"
proof (induction xs arbitrary: y)
  case (Cons x xs)
  then show ?case by (cases "pub_step x y") simp_all
qed simp

text \<open>The positions for which the broker reported success.\<close>

fun reported :: "pub_op list \<Rightarrow> position set" where
  "reported [] = {}"
| "reported (Pass cbs now # xs) = {p. (p, True) \<in> set cbs} \<union> reported xs"
| "reported (_ # xs) = reported xs"

section \<open>What is in flight\<close>

lemma before_boundary:
  assumes ok: "spool_ok sp bs" and q: "boundary sp bs q" and x: "x \<in> set (spool_log sp bs)" "pos_less (e_start x) q"
  shows "\<not> pos_less q (e_end x)"
proof -
  obtain k where k: "k \<in> fst ` set (sizes sp)" "x \<in> set (seg_entries k 0 (bs k))" "\<forall>b \<in> set (bs k). body_wf b"
    using spool_log_entry [OF ok x(1)] by blast
  obtain b1 b2 where b: "bs (fst q) = b1 @ b2" "snd q = rec_len b1" using q unfolding boundary_def by blast
  show ?thesis
  proof (cases "k = fst q")
    case False
    then show ?thesis using seg_entries_end [OF k(3,2)] seg_entries_start [OF k(3,2)] x(2) by (cases q) auto
  next
    case True
    have wf: "\<forall>b \<in> set b1. body_wf b" "\<forall>b \<in> set b2. body_wf b" using k(3) True b(1) by auto
    have "x \<in> set (seg_entries k 0 b1) \<or> x \<in> set (seg_entries k (rec_len b1) b2)"
      using k(2) True b(1) by (simp add: seg_entries_append)
    then show ?thesis
    proof
      assume a: "x \<in> set (seg_entries k 0 b1)"
      show ?thesis using seg_entries_end [OF wf(1) a] True b(2) by (cases q) auto
    next
      assume a: "x \<in> set (seg_entries k (rec_len b1) b2)"
      show ?thesis using seg_entries_start [OF wf(2) a] True b(2) x(2) by (cases q) auto
    qed
  qed
qed

definition flight_ok :: "spool \<Rightarrow> (nat \<Rightarrow> bytes list) \<Rightarrow> position \<Rightarrow> position \<Rightarrow> position list \<Rightarrow> bool" where
  "flight_ok sp bs cursor rd flight \<longleftrightarrow> boundary sp bs rd \<and> \<not> pos_less (synced sp) rd \<and> \<not> pos_less rd cursor
     \<and> (\<exists>F. from_pos cursor (spool_log sp bs) = F @ from_pos rd (spool_log sp bs) \<and> flight = map e_end F)"

lemma flight_okE:
  assumes "flight_ok sp bs cursor rd flight"
  obtains F where "boundary sp bs rd" "\<not> pos_less (synced sp) rd" "\<not> pos_less rd cursor"
    "from_pos cursor (spool_log sp bs) = F @ from_pos rd (spool_log sp bs)" "flight = map e_end F"
  using assms unfolding flight_ok_def by (elim conjE exE) (rule that)

lemma flight_okI:
  "boundary sp bs rd \<Longrightarrow> \<not> pos_less (synced sp) rd \<Longrightarrow> \<not> pos_less rd cursor \<Longrightarrow> from_pos cursor (spool_log sp bs) = F @ from_pos rd (spool_log sp bs)
    \<Longrightarrow> flight = map e_end F \<Longrightarrow> flight_ok sp bs cursor rd flight"
  unfolding flight_ok_def by (intro conjI exI)

definition cursor_ok :: "spool \<Rightarrow> (nat \<Rightarrow> bytes list) \<Rightarrow> position \<Rightarrow> position set \<Rightarrow> bool" where
  "cursor_ok sp bs cursor P \<longleftrightarrow> boundary sp bs cursor \<and> \<not> pos_less (synced sp) cursor
     \<and> (\<forall>x \<in> set (spool_log sp bs). pos_less (e_start x) cursor \<longrightarrow> e_end x \<in> P)"

definition pub_ok :: "position set \<Rightarrow> pub_sys \<Rightarrow> (nat \<Rightarrow> bytes list) \<Rightarrow> bool" where
  "pub_ok P y bs \<longleftrightarrow> spool_ok (y_spool y) bs \<and> boundary (y_spool y) bs (synced (y_spool y))
     \<and> cursor_ok (y_spool y) bs (pb_cursor (y_pub y)) P
     \<and> (\<forall>t. pb_file (y_pub y) = Some t \<longrightarrow> (\<exists>p. parse_position t = Some p \<and> boundary (y_spool y) bs p \<and> \<not> pos_less (pb_cursor (y_pub y)) p))
     \<and> (\<forall>pm. y_pump y = Some pm \<longrightarrow> flight_ok (y_spool y) bs (pb_cursor (y_pub y)) (pm_read pm) (pm_in_flight pm) \<and> pm_acked pm \<subseteq> P)"

lemma from_pos_in: "x \<in> set (from_pos p L) \<longleftrightarrow> x \<in> set L \<and> \<not> pos_less (e_start x) p"
  by (simp add: from_pos_def)

text \<open>One acknowledged entry is passed.\<close>

lemma pass_one:
  assumes ok: "spool_ok sp bs" and c: "cursor_ok sp bs cursor P" and f: "flight_ok sp bs cursor rd (p # ps)" and a: "p \<in> P"
  shows "cursor_ok sp bs p P" "flight_ok sp bs p rd ps"
proof -
  let ?L = "spool_log sp bs"
  obtain F where rd: "boundary sp bs rd" "\<not> pos_less (synced sp) rd" "\<not> pos_less rd cursor" and F: "from_pos cursor ?L = F @ from_pos rd ?L" "p # ps = map e_end F"
    by (rule flight_okE [OF f])
  then obtain x F' where x: "F = x # F'" "p = e_end x" "ps = map e_end F'" by (cases F) auto
  have "x \<in> set (from_pos cursor ?L)" using F(1) x(1) by simp
  then have xL: "x \<in> set ?L" "\<not> pos_less (e_start x) cursor" by (simp_all add: from_pos_in)
  note e = spool_log_before_end(2,3) [OF ok xL(1)]
  have s: "from_pos p ?L = F' @ from_pos rd ?L"
    using from_pos_split [OF ok, of cursor "[x]" "F' @ from_pos rd ?L"] F(1) x by simp
  have "pos_less (e_start x) rd"
  proof (rule ccontr)
    assume "\<not> pos_less (e_start x) rd"
    then have "x \<in> set (from_pos p ?L)" using xL(1) s by (simp add: from_pos_in)
    then show False using e(2) x(2) by (simp add: from_pos_in)
  qed
  then have rp: "\<not> pos_less rd p" using before_boundary [OF ok rd(1) xL(1)] x(2) by simp
  then show "flight_ok sp bs p rd ps" by (rule flight_okI [OF rd(1,2) _ s x(3)])
  have "\<not> pos_less (synced sp) p" using rd(2) rp by (metis pos_less_le_trans)
  moreover have "e_end z \<in> P" if z: "z \<in> set ?L" "pos_less (e_start z) p" for z
  proof (cases "pos_less (e_start z) cursor")
    case True
    then show ?thesis using c z(1) by (simp add: cursor_ok_def)
  next
    case False
    then have "z \<in> set (x # from_pos p ?L)" using z(1) F(1) x(1) s by (metis append_Cons from_pos_in)
    then have "z = x" using z(2) by (auto simp: from_pos_in)
    then show ?thesis using a x(2) by simp
  qed
  ultimately show "cursor_ok sp bs p P" using e(1) x(2) by (simp add: cursor_ok_def)
qed

lemma settle_ok:
  assumes "spool_ok sp bs" "cursor_ok sp bs cursor P" "flight_ok sp bs cursor rd flight" "acked \<subseteq> P"
    and "settle flight acked cursor moved = (flight', acked', cursor', moved')"
  shows "cursor_ok sp bs cursor' P \<and> flight_ok sp bs cursor' rd flight' \<and> acked' \<subseteq> P \<and> \<not> pos_less cursor' cursor"
  using assms
proof (induction flight acked cursor moved rule: settle.induct)
  case (2 p ps acked cursor moved)
  show ?case
  proof (cases "p \<in> acked")
    case True
    have "p \<in> P" using True "2.prems"(4) by blast
    note one = pass_one [OF "2.prems"(1-3) this]
    have r: "cursor_ok sp bs cursor' P \<and> flight_ok sp bs cursor' rd flight' \<and> acked' \<subseteq> P \<and> \<not> pos_less cursor' p"
      by (rule "2.IH" [OF True "2.prems"(1) one]) (use "2.prems"(4,5) True in auto)
    have "\<not> pos_less p cursor"
    proof -
      obtain F where F: "from_pos cursor (spool_log sp bs) = F @ from_pos rd (spool_log sp bs)" "p # ps = map e_end F"
        by (rule flight_okE [OF "2.prems"(3)])
      then obtain x F' where x: "F = x # F'" "p = e_end x" by (cases F) auto
      have "x \<in> set (from_pos cursor (spool_log sp bs))" using F(1) x(1) by simp
      then have "\<not> pos_less (e_start x) cursor" "pos_less (e_start x) p"
        using spool_log_before_end(3) [OF "2.prems"(1)] x(2) by (auto simp: from_pos_in)
      then show ?thesis by (metis pos_less_trans)
    qed
    then show ?thesis using r by (metis pos_less_le_trans)
  next
    case False
    then show ?thesis using "2.prems" by simp
  qed
qed simp

text \<open>A batch joins what is in flight.\<close>

lemma batch_ok:
  assumes ok: "spool_ok sp bs" and y: "boundary sp bs (synced sp)" and f: "flight_ok sp bs cursor rd flight"
    and r: "spool_read sp rd (synced sp) n = Inr batch"
  shows "flight_ok sp bs cursor (if batch = [] then rd else e_end (last batch)) (flight @ map e_end batch)"
    "batch = take n (filter (between rd (synced sp)) (spool_log sp bs))"
proof -
  let ?L = "spool_log sp bs"
  obtain F where rd: "boundary sp bs rd" "\<not> pos_less (synced sp) rd" "\<not> pos_less rd cursor" and F: "from_pos cursor ?L = F @ from_pos rd ?L" "flight = map e_end F"
    by (rule flight_okE [OF f])
  show b: "batch = take n (filter (between rd (synced sp)) ?L)" using r read_between [OF ok rd(1) y] by simp
  show "flight_ok sp bs cursor (if batch = [] then rd else e_end (last batch)) (flight @ map e_end batch)"
  proof (cases "batch = []")
    case True
    then show ?thesis using f by simp
  next
    case False
    let ?B = "filter (between rd (synced sp)) ?L"
    have "from_pos rd ?L = batch @ (drop n ?B @ from_pos (synced sp) ?L)"
      using from_pos_before [OF ok rd(2)] b by (metis append.assoc append_take_drop_id)
    then have s: "from_pos (e_end (last batch)) ?L = drop n ?B @ from_pos (synced sp) ?L" "from_pos rd ?L = batch @ from_pos (e_end (last batch)) ?L"
      using from_pos_split [OF ok _ False] by auto
    have "last batch \<in> set ?B" using False b by (metis in_set_takeD last_in_set)
    then have l: "last batch \<in> set ?L" "pos_less (e_start (last batch)) (synced sp)" "\<not> pos_less (e_start (last batch)) rd"
      by (simp_all add: between_def)
    have "boundary sp bs (e_end (last batch))" "\<not> pos_less (synced sp) (e_end (last batch))"
      using spool_log_before_end(2) [OF ok l(1)] before_boundary [OF ok y l(1,2)] by auto
    moreover have "\<not> pos_less (e_end (last batch)) cursor"
      using rd(3) l(3) spool_log_before_end(3) [OF ok l(1)] by (metis pos_less_le_trans pos_less_trans)
    moreover have "from_pos cursor ?L = (F @ batch) @ from_pos (e_end (last batch)) ?L" using F(1) s(2) by simp
    ultimately have "flight_ok sp bs cursor (e_end (last batch)) (flight @ map e_end batch)" using F(2) by (intro flight_okI) auto
    then show ?thesis using False by simp
  qed
qed

section \<open>Every step keeps the invariant\<close>

lemma pos_leD: "\<not> pos_less p q \<Longrightarrow> fst q \<le> fst p"
  by (cases p; cases q) auto

lemma pub_okE:
  assumes "pub_ok P y bs"
  obtains "spool_ok (y_spool y) bs" "boundary (y_spool y) bs (synced (y_spool y))" "cursor_ok (y_spool y) bs (pb_cursor (y_pub y)) P"
    "\<And>t. pb_file (y_pub y) = Some t \<Longrightarrow> \<exists>p. parse_position t = Some p \<and> boundary (y_spool y) bs p \<and> \<not> pos_less (pb_cursor (y_pub y)) p"
    "\<And>pm. y_pump y = Some pm \<Longrightarrow> flight_ok (y_spool y) bs (pb_cursor (y_pub y)) (pm_read pm) (pm_in_flight pm) \<and> pm_acked pm \<subseteq> P"
  using assms unfolding pub_ok_def by (elim conjE) (rule that; simp)

lemma release_keeps:
  assumes ok: "spool_ok sp bs" and c: "cursor_ok sp bs cursor P" and y: "boundary sp bs (synced sp)"
  defines "bs' \<equiv> \<lambda>k. if k < min (fst cursor) (active sp) then [] else bs k"
  shows "spool_ok (release sp cursor) bs'" "boundary (release sp cursor) bs' (synced (release sp cursor))"
    "cursor_ok (release sp cursor) bs' cursor P" "flight_ok sp bs cursor rd flight \<Longrightarrow> flight_ok (release sp cursor) bs' cursor rd flight"
    "x \<in> set (spool_log sp bs) \<Longrightarrow> x \<in> set (spool_log (release sp cursor) bs') \<or> e_end x \<in> P"
proof -
  have bc: "boundary sp bs cursor" "\<not> pos_less (synced sp) cursor" using c by (simp_all add: cursor_ok_def)
  have "fst cursor \<in> fst ` set (sizes sp)" using bc(1) unfolding boundary_def by blast
  then have "fst cursor \<le> active sp" using ok by (auto simp: spool_ok_def)
  then have m: "min (fst cursor) (active sp) = fst cursor" by simp
  note r = release_spec [OF ok, of cursor, folded bs'_def] 
  show ok': "spool_ok (release sp cursor) bs'" using r(1) .
  have keys: "fst ` set (sizes (release sp cursor)) = {k \<in> fst ` set (sizes sp). \<not> k < fst cursor}"
    using arg_cong [OF r(2), of set] m by simp
  have bd: "boundary (release sp cursor) bs' p" if "boundary sp bs p" "\<not> fst p < fst cursor" for p
    using that unfolding boundary_def keys bs'_def m by simp
  have L: "spool_log (release sp cursor) bs' = filter (\<lambda>x. \<not> fst (e_start x) < fst cursor) (spool_log sp bs)"
    using release_log [OF ok, of cursor] unfolding bs'_def m .
  have fp: "from_pos p (spool_log (release sp cursor) bs') = from_pos p (spool_log sp bs)" if "\<not> fst p < fst cursor" for p
    unfolding L from_pos_def filter_filter
  proof (rule filter_cong [OF refl])
    fix x show "(\<not> fst (e_start x) < fst cursor \<and> \<not> pos_less (e_start x) p) = (\<not> pos_less (e_start x) p)"
      using that pos_leD [of "e_start x" p] by auto
  qed
  have s: "synced (release sp cursor) = synced sp" "\<not> fst (synced sp) < fst cursor"
    using pos_leD [OF bc(2)] by (simp_all add: release_synced)
  show "boundary (release sp cursor) bs' (synced (release sp cursor))" using bd [OF y s(2)] s(1) by simp
  show "cursor_ok (release sp cursor) bs' cursor P"
    using c bd [OF bc(1)] s(1) unfolding cursor_ok_def L by simp
  show "flight_ok (release sp cursor) bs' cursor rd flight" if f: "flight_ok sp bs cursor rd flight"
  proof -
    obtain F where rd: "boundary sp bs rd" "\<not> pos_less (synced sp) rd" "\<not> pos_less rd cursor"
      and F: "from_pos cursor (spool_log sp bs) = F @ from_pos rd (spool_log sp bs)" "flight = map e_end F"
      by (rule flight_okE [OF f])
    have "\<not> fst rd < fst cursor" using pos_leD [OF rd(3)] by simp
    then show ?thesis using rd F fp s(1) bd by (intro flight_okI) auto
  qed
  show "x \<in> set (spool_log (release sp cursor) bs') \<or> e_end x \<in> P" if x: "x \<in> set (spool_log sp bs)"
  proof (cases "fst (e_start x) < fst cursor")
    case True
    then have "pos_less (e_start x) cursor" by (cases "e_start x"; cases cursor) auto
    then show ?thesis using c x by (simp add: cursor_ok_def)
  next
    case False
    then show ?thesis using x by (simp add: L)
  qed
qed

lemma deliver_fields:
  "deliver cbs (pb, pm) = (pb1, pm1) \<Longrightarrow> pb_cursor pb1 = pb_cursor pb \<and> pb_file pb1 = pb_file pb \<and> pm_in_flight pm1 = pm_in_flight pm
    \<and> pm_read pm1 = pm_read pm \<and> pm_acked pm1 = pm_acked pm \<union> {p. (p, True) \<in> set cbs}"
proof (induction cbs arbitrary: pb pm)
  case (Cons c cbs)
  obtain p b where c: "c = (p, b)" by fastforce
  show ?case
  proof (cases b)
    case True
    have d: "deliver cbs (pb\<lparr>pb_published := pb_published pb + 1\<rparr>, pm\<lparr>pm_acked := insert p (pm_acked pm)\<rparr>) = (pb1, pm1)"
      using Cons.prems c True by simp
    from Cons.IH [OF d] show ?thesis using c True by auto
  next
    case False
    have d: "deliver cbs (pb, pm\<lparr>pm_failed := True\<rparr>) = (pb1, pm1)" using Cons.prems c False by simp
    from Cons.IH [OF d] show ?thesis using c False by auto
  qed
qed simp

text \<open>A pass that was not ended by an exception settles at a new cursor and may persist it.\<close>

definition settled :: "spool \<Rightarrow> (nat \<Rightarrow> bytes list) \<Rightarrow> publisher \<Rightarrow> position set \<Rightarrow> spool \<Rightarrow> publisher \<Rightarrow> pump \<Rightarrow> bool" where
  "settled sp bs pb P sp' pb' pm' \<longleftrightarrow> cursor_ok sp bs (pb_cursor pb') P \<and> flight_ok sp bs (pb_cursor pb') (pm_read pm') (pm_in_flight pm')
     \<and> pm_acked pm' \<subseteq> P \<and> \<not> pos_less (pb_cursor pb') (pb_cursor pb)
     \<and> (sp' = sp \<and> pb_file pb' = pb_file pb \<or> sp' = release sp (pb_cursor pb') \<and> pb_file pb' = Some (position_text (pb_cursor pb')))"

lemma pass_settled:
  assumes ok: "spool_ok sp bs" "boundary sp bs (synced sp)" and c: "cursor_ok sp bs (pb_cursor pb) P"
    and f: "flight_ok sp bs (pb_cursor pb) (pm_read pm) (pm_in_flight pm)" "pm_acked pm \<subseteq> P" and P: "{p. (p, True) \<in> set cbs} \<subseteq> P"
    and r: "fst (pump_pass None cbs now sp pb pm) = (sp', pb', res)"
  shows "res = Raised \<and> sp' = sp \<and> pb' = pb \<or> (\<exists>pm'. res = Pumping pm' \<and> settled sp bs pb P sp' pb' pm')"
proof -
  let ?rd = "if length (pm_in_flight pm) < 50000 then spool_read sp (pm_read pm) (synced sp) 2000 else Inr []"
  consider (failed) "pm_failed pm" | (error) e where "\<not> pm_failed pm" "?rd = Inl e"
    | (topic) batch where "\<not> pm_failed pm" "?rd = Inr batch" "None \<in> set (map message_of batch)"
    | (read) batch where "\<not> pm_failed pm" "?rd = Inr batch" "None \<notin> set (map message_of batch)"
    by (cases ?rd) blast+
  then show ?thesis
  proof cases
    case failed
    then show ?thesis using r by (simp add: pump_pass_def)
  next
    case error
    then show ?thesis using r by (simp add: pump_pass_def)
  next
    case topic
    then show ?thesis using r unfolding pump_pass_def Let_def topic(2) sum.case if_P [OF topic(3)] by simp
  next
    case read
    define pm0 where "pm0 = pm\<lparr>pm_in_flight := pm_in_flight pm @ map e_end batch,
       pm_read := (if batch = [] then pm_read pm else e_end (last batch))\<rparr>"
    have f0: "flight_ok sp bs (pb_cursor pb) (pm_read pm0) (pm_in_flight pm0)"
    proof (cases "length (pm_in_flight pm) < 50000")
      case True
      then show ?thesis using batch_ok(1) [OF ok f(1)] read(2) by (simp add: pm0_def)
    next
      case False
      then show ?thesis using f(1) read(2) by (simp add: pm0_def)
    qed
    obtain pb1 pm1 where d: "deliver cbs (pb, pm0) = (pb1, pm1)" by fastforce
    note d' = deliver_fields [OF d]
    obtain flight acked cursor moved where s: "settle (pm_in_flight pm1) (pm_acked pm1) (pb_cursor pb1) False = (flight, acked, cursor, moved)"
      by (cases "settle (pm_in_flight pm1) (pm_acked pm1) (pb_cursor pb1) False")
    have a: "pm_acked pm1 \<subseteq> P" using d' f(2) P by (auto simp: pm0_def)
    have k: "cursor_ok sp bs cursor P \<and> flight_ok sp bs cursor (pm_read pm0) flight \<and> acked \<subseteq> P \<and> \<not> pos_less cursor (pb_cursor pb)"
      using settle_ok [OF ok(1) _ _ a s, of "pm_read pm0"] c f0 d' by simp
    show ?thesis
      using r read k d' s d unfolding pump_pass_def settled_def
      by (auto simp: Let_def pm0_def [symmetric] split: if_splits)
  qed
qed

definition keeps :: "position set \<Rightarrow> spool \<Rightarrow> (nat \<Rightarrow> bytes list) \<Rightarrow> spool \<Rightarrow> (nat \<Rightarrow> bytes list) \<Rightarrow> bool" where
  "keeps P sp bs sp' bs' \<longleftrightarrow> (\<forall>x \<in> set (spool_log sp bs). pos_less (e_start x) (synced sp)
     \<longrightarrow> x \<in> set (spool_log sp' bs') \<and> pos_less (e_start x) (synced sp') \<or> e_end x \<in> P)"

lemma settled_ok:
  assumes ok: "spool_ok sp bs" "boundary sp bs (synced sp)" and s: "settled sp bs pb P sp' pb' pm'"
    and t: "\<And>t. pb_file pb = Some t \<Longrightarrow> \<exists>p. parse_position t = Some p \<and> boundary sp bs p \<and> \<not> pos_less (pb_cursor pb) p"
  shows "\<exists>bs'. pub_ok P \<lparr>y_spool = sp', y_pub = pb', y_pump = Some pm'\<rparr> bs' \<and> keeps P sp bs sp' bs'"
proof -
  have s': "cursor_ok sp bs (pb_cursor pb') P" "flight_ok sp bs (pb_cursor pb') (pm_read pm') (pm_in_flight pm')" "pm_acked pm' \<subseteq> P"
      "\<not> pos_less (pb_cursor pb') (pb_cursor pb)"
    and cs: "sp' = sp \<and> pb_file pb' = pb_file pb \<or> sp' = release sp (pb_cursor pb') \<and> pb_file pb' = Some (position_text (pb_cursor pb'))"
    using s by (simp_all add: settled_def)
  from cs show ?thesis
  proof
    assume e: "sp' = sp \<and> pb_file pb' = pb_file pb"
    have "\<exists>p. parse_position u = Some p \<and> boundary sp bs p \<and> \<not> pos_less (pb_cursor pb') p" if "pb_file pb' = Some u" for u
      using t [of u] that e s'(4) by (metis pos_less_le_trans)
    then have "pub_ok P \<lparr>y_spool = sp', y_pub = pb', y_pump = Some pm'\<rparr> bs" using ok s'(1-3) e by (simp add: pub_ok_def)
    moreover have "keeps P sp bs sp' bs" using e by (simp add: keeps_def)
    ultimately show ?thesis by blast
  next
    assume e: "sp' = release sp (pb_cursor pb') \<and> pb_file pb' = Some (position_text (pb_cursor pb'))"
    let ?bs = "\<lambda>k. if k < min (fst (pb_cursor pb')) (active sp) then [] else bs k"
    note r = release_keeps [OF ok(1) s'(1) ok(2)]
    have "boundary sp' ?bs (pb_cursor pb')" using r(3) e by (simp add: cursor_ok_def)
    then have "pub_ok P \<lparr>y_spool = sp', y_pub = pb', y_pump = Some pm'\<rparr> ?bs"
      using r(1-3) r(4) [OF s'(2)] s'(3) e by (simp add: pub_ok_def del: split_paired_Ex)
    moreover have "keeps P sp bs sp' ?bs" using r(5) e by (auto simp: keeps_def release_synced)
    ultimately show ?thesis by blast
  qed
qed

lemma keeps_refl: "keeps P sp bs sp bs"
  by (simp add: keeps_def)

lemma from_pos_snoc: "\<not> pos_less (e_start x) p \<Longrightarrow> from_pos p (L @ [x]) = from_pos p L @ [x]"
  by (simp add: from_pos_def)

lemma store_ok:
  assumes y: "pub_ok P y bs" and e: "extends (y_spool y) bs sp' bs'" "spool_ok sp' bs'"
    and l: "spool_log sp' bs' = spool_log (y_spool y) bs @ [x]" and x: "\<not> pos_less (e_start x) (spool_end (y_spool y))"
  shows "pub_ok P (y\<lparr>y_spool := sp'\<rparr>) bs' \<and> keeps P (y_spool y) bs sp' bs'"
  using y
proof (rule pub_okE)
  assume ok: "spool_ok (y_spool y) bs" "boundary (y_spool y) bs (synced (y_spool y))" and c: "cursor_ok (y_spool y) bs (pb_cursor (y_pub y)) P"
    and t: "\<And>t. pb_file (y_pub y) = Some t \<Longrightarrow> \<exists>p. parse_position t = Some p \<and> boundary (y_spool y) bs p \<and> \<not> pos_less (pb_cursor (y_pub y)) p"
    and f: "\<And>pm. y_pump y = Some pm \<Longrightarrow> flight_ok (y_spool y) bs (pb_cursor (y_pub y)) (pm_read pm) (pm_in_flight pm) \<and> pm_acked pm \<subseteq> P"
  have s: "synced sp' = synced (y_spool y)" using e(1) by (simp add: extends_def)
  have b: "boundary sp' bs' p \<and> \<not> pos_less (e_start x) p" if "boundary (y_spool y) bs p" for p
    using boundary_extends [OF e(1) that] x boundary_before_end [OF ok(1) that] by (metis pos_less_le_trans)
  have c': "cursor_ok sp' bs' (pb_cursor (y_pub y)) P" using c b l s by (auto simp: cursor_ok_def)
  have "flight_ok sp' bs' (pb_cursor (y_pub y)) (pm_read pm) (pm_in_flight pm)" if pm: "y_pump y = Some pm" for pm
  proof -
    obtain F where rd: "boundary (y_spool y) bs (pm_read pm)" "\<not> pos_less (synced (y_spool y)) (pm_read pm)" "\<not> pos_less (pm_read pm) (pb_cursor (y_pub y))"
      and F: "from_pos (pb_cursor (y_pub y)) (spool_log (y_spool y) bs) = F @ from_pos (pm_read pm) (spool_log (y_spool y) bs)" "pm_in_flight pm = map e_end F"
      using f [OF pm] by (elim conjE flight_okE)
    have cb: "boundary (y_spool y) bs (pb_cursor (y_pub y))" using c by (simp add: cursor_ok_def)
    show ?thesis
    proof (rule flight_okI)
      show "from_pos (pb_cursor (y_pub y)) (spool_log sp' bs') = F @ from_pos (pm_read pm) (spool_log sp' bs')"
        using b [OF rd(1)] b [OF cb] F(1) by (simp add: l from_pos_snoc)
    qed (use rd b s F(2) in auto)
  qed
  moreover have "\<exists>p. parse_position u = Some p \<and> boundary sp' bs' p \<and> \<not> pos_less (pb_cursor (y_pub y)) p" if "pb_file (y_pub y) = Some u" for u
    using t [OF that] b by metis
  ultimately show ?thesis using e(2) ok(2) c' b s f l by (simp add: pub_ok_def keeps_def)
qed

lemma sync_ok:
  assumes y: "pub_ok P y bs" and s: "spool_sync (y_spool y) = (q, sp')"
  shows "pub_ok P (y\<lparr>y_spool := sp'\<rparr>) bs \<and> keeps P (y_spool y) bs sp' bs"
  using y
proof (rule pub_okE)
  assume ok: "spool_ok (y_spool y) bs" "boundary (y_spool y) bs (synced (y_spool y))" and c: "cursor_ok (y_spool y) bs (pb_cursor (y_pub y)) P"
    and t: "\<And>t. pb_file (y_pub y) = Some t \<Longrightarrow> \<exists>p. parse_position t = Some p \<and> boundary (y_spool y) bs p \<and> \<not> pos_less (pb_cursor (y_pub y)) p"
    and f: "\<And>pm. y_pump y = Some pm \<Longrightarrow> flight_ok (y_spool y) bs (pb_cursor (y_pub y)) (pm_read pm) (pm_in_flight pm) \<and> pm_acked pm \<subseteq> P"
  have sp': "sp' = (y_spool y)\<lparr>dirty := False, synced := spool_end (y_spool y)\<rparr>" using s by (auto simp: spool_sync_def)
  note z = sync_places(1,2) [OF ok(1) boundary_synced_ok [OF ok] s]
  have b: "boundary sp' bs p = boundary (y_spool y) bs p" for p by (simp add: boundary_def sp')
  have e: "synced sp' = spool_end (y_spool y)" by (simp add: sp')
  have le: "\<not> pos_less (synced sp') p" if "boundary (y_spool y) bs p" for p using boundary_before_end [OF ok(1) that] e by simp
  have fl: "flight_ok sp' bs (pb_cursor (y_pub y)) (pm_read pm) (pm_in_flight pm)" if "y_pump y = Some pm" for pm
    using f [OF that] le unfolding flight_ok_def z(2) b by simp
  have cu: "cursor_ok sp' bs (pb_cursor (y_pub y)) P" using c le unfolding cursor_ok_def z(2) b by simp
  have "boundary sp' bs (synced sp')" using boundary_end [OF ok(1)] b e by simp
  then have "pub_ok P (y\<lparr>y_spool := sp'\<rparr>) bs" using z(1) cu fl t b f by (simp add: pub_ok_def)
  moreover have "keeps P (y_spool y) bs sp' bs" using spool_log_before_end(1) [OF ok(1)] z(2) e by (simp add: keeps_def)
  ultimately show ?thesis by blast
qed

lemma after_pump_fields [simp]: "pb_cursor (after_pump raised pb) = pb_cursor pb" "pb_file (after_pump raised pb) = pb_file pb"
  by (simp_all add: after_pump_def Let_def)

lemma no_pump_ok: "pub_ok P y bs \<Longrightarrow> pb_cursor pb = pb_cursor (y_pub y) \<Longrightarrow> pb_file pb = pb_file (y_pub y)
    \<Longrightarrow> pub_ok P \<lparr>y_spool = y_spool y, y_pub = pb, y_pump = None\<rparr> bs"
  by (simp add: pub_ok_def)

lemma begin_ok: "pub_ok P y bs \<Longrightarrow> pub_ok P (y\<lparr>y_pump := Some (pump_start now (y_pub y))\<rparr>) bs"
  by (auto simp: pub_ok_def pump_start_def cursor_ok_def intro: flight_okI [where F = "[]"])

lemma restart_ok:
  assumes y: "pub_ok P y bs"
  shows "\<exists>y' bs'. pub_step (Restart n) y = Some y' \<and> pub_ok P y' bs' \<and> keeps P (y_spool y) bs (y_spool y') bs'"
  using y
proof (rule pub_okE)
  let ?sp = "y_spool y" and ?c = "pb_cursor (y_pub y)"
  assume ok: "spool_ok (y_spool y) bs" "boundary (y_spool y) bs (synced (y_spool y))" and c: "cursor_ok (y_spool y) bs (pb_cursor (y_pub y)) P"
    and t: "\<And>t. pb_file (y_pub y) = Some t \<Longrightarrow> \<exists>p. parse_position t = Some p \<and> boundary (y_spool y) bs p \<and> \<not> pos_less (pb_cursor (y_pub y)) p"
  let ?sp' = "open_spool (crash_files n ?sp) (max_bytes ?sp) (segment_bytes ?sp)"
  obtain bs' lost where b: "spool_ok ?sp' bs'" "spool_log ?sp bs = spool_log ?sp' bs' @ lost"
      "\<forall>p. place_ok ?sp bs p \<longrightarrow> place_ok ?sp' bs' p \<and> (boundary ?sp bs p \<longrightarrow> boundary ?sp' bs' p)"
      "synced ?sp' = spool_end ?sp'" "\<forall>x \<in> set lost. \<not> pos_less (e_start x) (active ?sp, durable ?sp)"
    using crash_places [OF ok(1) boundary_synced_ok [OF ok], of n "max_bytes ?sp" "segment_bytes ?sp"] by blast
  have bd: "boundary ?sp' bs' p" if "boundary ?sp bs p" "\<not> pos_less (synced ?sp) p" for p
    using b(3) boundary_place_ok [OF ok that] that(1) by blast
  have "\<exists>p. (case pb_file (y_pub y) of None \<Rightarrow> Some (first_position ?sp') | Some t \<Rightarrow> parse_position t) = Some p
      \<and> boundary ?sp' bs' p \<and> (\<forall>x \<in> set (spool_log ?sp' bs'). pos_less (e_start x) p \<longrightarrow> e_end x \<in> P)"
  proof (cases "pb_file (y_pub y)")
    case None
    then show ?thesis using first_position_least(1,5) [OF b(1)] by (simp del: split_paired_Ex)
  next
    case (Some u)
    obtain p where p: "parse_position u = Some p" "boundary ?sp bs p" "\<not> pos_less ?c p" using t [OF Some] by blast
    have "\<not> pos_less (synced ?sp) p" using c p(3) by (metis cursor_ok_def pos_less_le_trans)
    then have "boundary ?sp' bs' p" using bd p(2) by blast
    moreover have "e_end x \<in> P" if x: "x \<in> set (spool_log ?sp' bs')" "pos_less (e_start x) p" for x
    proof -
      have "pos_less (e_start x) ?c" using x(2) p(3) by (metis pos_less_le_trans)
      then show ?thesis using c x(1) b(2) by (auto simp: cursor_ok_def)
    qed
    ultimately show ?thesis using Some p(1) by (intro exI [of _ p]) simp
  qed
  then obtain p where p: "(case pb_file (y_pub y) of None \<Rightarrow> Some (first_position ?sp') | Some t \<Rightarrow> parse_position t) = Some p"
      "boundary ?sp' bs' p" "\<forall>x \<in> set (spool_log ?sp' bs'). pos_less (e_start x) p \<longrightarrow> e_end x \<in> P" by blast
  let ?y = "\<lparr>y_spool = ?sp', y_pub = \<lparr>pb_cursor = p, pb_file = pb_file (y_pub y), pb_healthy = False, pb_published = 0, pb_errors = 0,
     pb_backoff = 1 / 2\<rparr>, y_pump = None\<rparr>"
  have "\<exists>q. parse_position u = Some q \<and> boundary ?sp' bs' q \<and> \<not> pos_less p q" if u: "pb_file (y_pub y) = Some u" for u
    using p(1,2) u by (simp del: split_paired_Ex)
  then have "pub_ok P ?y bs'"
    using b(1,4) boundary_end [OF b(1)] p(2,3) boundary_before_end [OF b(1) p(2)] by (simp add: pub_ok_def cursor_ok_def)
  moreover have "keeps P ?sp bs ?sp' bs'"
    unfolding keeps_def
  proof (intro ballI impI disjI1)
    fix x assume x: "x \<in> set (spool_log ?sp bs)" "pos_less (e_start x) (synced ?sp)"
    have "fst (synced ?sp) \<le> active ?sp" using boundary_synced_ok [OF ok] by (simp add: synced_ok_def)
    then have "pos_less (e_start x) (active ?sp, durable ?sp)" using x(2) by (cases "e_start x"; cases "synced ?sp") (auto simp: durable_def)
    then have "x \<in> set (spool_log ?sp' bs')" using x(1) b(2,5) by auto
    then show "x \<in> set (spool_log ?sp' bs') \<and> pos_less (e_start x) (synced ?sp')"
      using spool_log_before_end(1) [OF b(1)] b(4) by simp
  qed
  moreover have "pub_step (Restart n) y = Some ?y" using p(1) by (simp add: pub_open_def Let_def)
  ultimately show ?thesis by (intro exI [of _ ?y] exI [of _ bs']) simp
qed

section \<open>Properties\<close>

lemma pub_ok_mono: "pub_ok P y bs \<Longrightarrow> P \<subseteq> P' \<Longrightarrow> pub_ok P' y bs"
  unfolding pub_ok_def cursor_ok_def by blast

lemma keeps_mono: "keeps P sp bs sp' bs' \<Longrightarrow> P \<subseteq> P' \<Longrightarrow> keeps P' sp bs sp' bs'"
  unfolding keeps_def by blast

lemma pub_step_ok:
  assumes y: "pub_ok P y bs"
  shows "\<exists>y' bs'. pub_step x y = Some y' \<and> pub_ok (P \<union> reported [x]) y' bs' \<and> keeps (P \<union> reported [x]) (y_spool y) bs (y_spool y') bs'"
proof (cases x)
  case (Store tp key sid boot sq ts val)
  have same: ?thesis if "pub_step x y = Some y" using that y Store keeps_refl by auto
  show ?thesis
  proof (cases "spool_append (y_spool y) tp key sid boot sq ts val")
    case (Inl e)
    then show ?thesis using same Store by simp
  next
    case (Inr r)
    obtain stored sp' where r: "r = (stored, sp')" by fastforce
    show ?thesis
    proof (cases stored)
      case True
      have a: "spool_append (y_spool y) tp key sid boot sq ts val = Inr (True, sp')" using Inr r True by simp
      obtain bs' z where z: "spool_ok sp' bs'" "extends (y_spool y) bs sp' bs'" "spool_log sp' bs' = spool_log (y_spool y) bs @ [z]"
          "\<not> pos_less (e_start z) (spool_end (y_spool y))"
        using spool_append_extends [OF conjunct1 [OF y [unfolded pub_ok_def]] a] by blast
      have "pub_step x y = Some (y\<lparr>y_spool := sp'\<rparr>)" using Store a by simp
      then show ?thesis using store_ok [OF y z(2,1,3,4)] Store
        by (intro exI [of _ "y\<lparr>y_spool := sp'\<rparr>"] exI [of _ bs']) simp
    next
      case False
      then have "sp' = y_spool y" using Inr r by (auto simp: spool_append_def append_record_def split: sum.splits if_splits)
      then show ?thesis using same Store Inr r by simp
    qed
  qed
next
  case Sync
  obtain q sp' where q: "spool_sync (y_spool y) = (q, sp')" by fastforce
  show ?thesis using sync_ok [OF y q] Sync q by (intro exI [of _ "y\<lparr>y_spool := sp'\<rparr>"] exI [of _ bs]) simp
next
  case (Begin now)
  show ?thesis
  proof (cases "y_pump y")
    case None
    then show ?thesis using begin_ok [OF y, of now] Begin keeps_refl
      by (intro exI [of _ "y\<lparr>y_pump := Some (pump_start now (y_pub y))\<rparr>"] exI [of _ bs]) simp
  next
    case (Some pm)
    then show ?thesis using y Begin keeps_refl by (intro exI [of _ y] exI [of _ bs]) simp
  qed
next
  case (Pass cbs now)
  let ?P = "P \<union> reported [x]"
  have R: "reported [x] = {p. (p, True) \<in> set cbs}" by (simp add: Pass)
  have y': "pub_ok ?P y bs" using pub_ok_mono [OF y] by blast
  show ?thesis
  proof (cases "y_pump y")
    case None
    then show ?thesis using y' Pass keeps_refl by (intro exI [of _ y] exI [of _ bs]) simp
  next
    case (Some pm)
    obtain sp' pb' res where p: "fst (pump_pass None cbs now (y_spool y) (y_pub y) pm) = (sp', pb', res)" by (cases "fst (pump_pass None cbs now (y_spool y) (y_pub y) pm)")
    show ?thesis
      using y'
    proof (rule pub_okE)
      assume ok: "spool_ok (y_spool y) bs" "boundary (y_spool y) bs (synced (y_spool y))" and c: "cursor_ok (y_spool y) bs (pb_cursor (y_pub y)) ?P"
        and t: "\<And>t. pb_file (y_pub y) = Some t \<Longrightarrow> \<exists>p. parse_position t = Some p \<and> boundary (y_spool y) bs p \<and> \<not> pos_less (pb_cursor (y_pub y)) p"
        and f: "\<And>pm. y_pump y = Some pm \<Longrightarrow> flight_ok (y_spool y) bs (pb_cursor (y_pub y)) (pm_read pm) (pm_in_flight pm) \<and> pm_acked pm \<subseteq> ?P"
      from pass_settled [OF ok c conjunct1 [OF f [OF Some]] conjunct2 [OF f [OF Some]] _ p] R
      consider "res = Raised" "sp' = y_spool y" "pb' = y_pub y" | pm' where "res = Pumping pm'" "settled (y_spool y) bs (y_pub y) ?P sp' pb' pm'" by auto
      then show ?thesis
      proof cases
        case 1
        let ?y = "\<lparr>y_spool = y_spool y, y_pub = after_pump True (y_pub y), y_pump = None\<rparr>"
        have "pub_ok ?P ?y bs" by (rule no_pump_ok [OF y']) simp_all
        moreover have "pub_step x y = Some ?y" using Pass Some p 1 by simp
        ultimately show ?thesis using keeps_refl by (intro exI [of _ ?y] exI [of _ bs]) simp
      next
        case 2
        let ?y = "\<lparr>y_spool = sp', y_pub = pb', y_pump = Some pm'\<rparr>"
        obtain bs' where "pub_ok ?P ?y bs'" "keeps ?P (y_spool y) bs sp' bs'" using settled_ok [OF ok 2(2) t] by blast
        moreover have "pub_step x y = Some ?y" using Pass Some p 2(1) by simp
        ultimately show ?thesis by (intro exI [of _ ?y] exI [of _ bs']) simp
      qed
    qed
  qed
next
  case Broken
  have "pub_ok P \<lparr>y_spool = y_spool y, y_pub = after_pump True (y_pub y), y_pump = None\<rparr> bs" by (rule no_pump_ok [OF y]) simp_all
  then show ?thesis using Broken keeps_refl
    by (intro exI [of _ "\<lparr>y_spool = y_spool y, y_pub = after_pump True (y_pub y), y_pump = None\<rparr>"] exI [of _ bs]) simp
next
  case (Restart n)
  then show ?thesis using restart_ok [OF y, of n] by simp
qed

lemma reported_Cons: "reported (x # xs) = reported [x] \<union> reported xs"
  by (cases x) auto

lemma reported_append: "reported (xs @ zs) = reported xs \<union> reported zs"
proof (induction xs)
  case (Cons x xs)
  then show ?case using reported_Cons [of x xs] reported_Cons [of x "xs @ zs"] by (simp add: Un_assoc)
qed simp

lemma keeps_trans: "keeps P sp bs sp1 bs1 \<Longrightarrow> keeps P sp1 bs1 sp2 bs2 \<Longrightarrow> keeps P sp bs sp2 bs2"
  unfolding keeps_def by blast

lemma pub_run_ok:
  assumes "pub_ok P y bs"
  shows "\<exists>y' bs'. pub_run xs y = Some y' \<and> pub_ok (P \<union> reported xs) y' bs' \<and> keeps (P \<union> reported xs) (y_spool y) bs (y_spool y') bs'"
  using assms
proof (induction xs arbitrary: P y bs)
  case Nil
  then show ?case using keeps_refl by (intro exI [of _ y] exI [of _ bs]) simp
next
  case (Cons x xs)
  obtain y1 bs1 where 1: "pub_step x y = Some y1" "pub_ok (P \<union> reported [x]) y1 bs1"
      "keeps (P \<union> reported [x]) (y_spool y) bs (y_spool y1) bs1"
    using pub_step_ok [OF Cons.prems] by blast
  obtain y2 bs2 where 2: "pub_run xs y1 = Some y2" "pub_ok (P \<union> reported [x] \<union> reported xs) y2 bs2"
      "keeps (P \<union> reported [x] \<union> reported xs) (y_spool y1) bs1 (y_spool y2) bs2"
    using Cons.IH [OF 1(2)] by blast
  have "keeps (P \<union> reported [x] \<union> reported xs) (y_spool y) bs (y_spool y2) bs2"
    by (rule keeps_trans [OF keeps_mono [OF 1(3)] 2(3)]) blast
  then show ?case using 1(1) 2(1,2) reported_Cons [of x xs]
    by (intro exI [of _ y2] exI [of _ bs2]) (simp add: Un_assoc)
qed

definition pub_fresh :: "nat \<Rightarrow> nat \<Rightarrow> pub_sys" where
  "pub_fresh mx sb = \<lparr>y_spool = open_spool [] mx sb, y_pub = the (pub_open (open_spool [] mx sb) None), y_pump = None\<rparr>"

lemma fresh_flight_ok: "pub_ok {} (pub_fresh mx sb) (\<lambda>_. [])"
proof -
  let ?sp = "open_spool [] mx sb"
  note e = empty_spool_ok [of mx sb]
  have s: "synced ?sp = spool_end ?sp" by (simp add: open_spool_def spool_end_def open_segment_def Let_def size_of_def)
  have l: "spool_log ?sp (\<lambda>_. []) = []" by (simp add: spool_log_def seg_log_def)
  have f: "boundary ?sp (\<lambda>_. []) (first_position ?sp)" by (rule first_position_least(1) [OF e])
  show ?thesis
    using e boundary_end [OF e] f boundary_before_end [OF e f] s l by (simp add: pub_ok_def pub_fresh_def pub_open_def cursor_ok_def)
qed

lemma reached_ok:
  assumes "pub_run ops (pub_fresh mx sb) = Some y"
  shows "\<exists>bs. pub_ok (reported ops) y bs"
  using pub_run_ok [OF fresh_flight_ok, of ops mx sb] assms by auto

text \<open>
  C4: nothing is lost between the spool and the broker. Start on an empty directory and let the receiver
  store and sync, pumps start, make passes with any callbacks and fail, and the machine crash with the
  unsynced tail cut anywhere: every restart succeeds, and an entry that was synced at some moment is at any
  later moment still in the spool, unless the broker has reported it delivered.
\<close>

theorem publisher_loses_nothing:
  "\<exists>y1 y2 L1 L2. pub_run ops1 (pub_fresh mx sb) = Some y1 \<and> pub_run ops2 y1 = Some y2
    \<and> holds (y_spool y1) L1 \<and> holds (y_spool y2) L2
    \<and> (\<forall>x \<in> set L1. pos_less (e_start x) (synced (y_spool y1)) \<longrightarrow> x \<in> set L2 \<or> e_end x \<in> reported (ops1 @ ops2))"
proof -
  obtain y1 bs1 where 1: "pub_run ops1 (pub_fresh mx sb) = Some y1" "pub_ok (reported ops1) y1 bs1"
    using pub_run_ok [OF fresh_flight_ok, of ops1 mx sb] by auto
  obtain y2 bs2 where 2: "pub_run ops2 y1 = Some y2" "pub_ok (reported ops1 \<union> reported ops2) y2 bs2"
      "keeps (reported ops1 \<union> reported ops2) (y_spool y1) bs1 (y_spool y2) bs2"
    using pub_run_ok [OF 1(2), of ops2] by blast
  have "holds (y_spool y1) (spool_log (y_spool y1) bs1)" "holds (y_spool y2) (spool_log (y_spool y2) bs2)"
    using 1(2) 2(2) log_holds by (simp_all add: pub_ok_def)
  then show ?thesis using 1(1) 2(1,3) unfolding keeps_def reported_append by blast
qed

lemma pass_batch:
  assumes "pump_pass None cbs now sp pb pm = ((sp', pb', Pumping pm'), sent)"
  obtains batch pb1 pm1 where
    "(if length (pm_in_flight pm) < 50000 then spool_read sp (pm_read pm) (synced sp) 2000 else Inr []) = Inr batch"
    "None \<notin> set (map message_of batch)" "sent = map (the \<circ> message_of) batch"
    "deliver cbs (pb, pm\<lparr>pm_in_flight := pm_in_flight pm @ map e_end batch,
       pm_read := (if batch = [] then pm_read pm else e_end (last batch))\<rparr>) = (pb1, pm1)"
    "pm_read pm' = pm_read pm1"
    "\<exists>acked moved. settle (pm_in_flight pm1) (pm_acked pm1) (pb_cursor pb1) False = (pm_in_flight pm', acked, pb_cursor pb', moved)"
proof -
  let ?rd = "if length (pm_in_flight pm) < 50000 then spool_read sp (pm_read pm) (synced sp) 2000 else Inr []"
  have nf: "\<not> pm_failed pm" using assms by (auto simp: pump_pass_def)
  obtain batch where b: "?rd = Inr batch"
    using assms nf by (cases ?rd) (simp_all add: pump_pass_def)
  have n: "None \<notin> set (map message_of batch)"
  proof
    assume "None \<in> set (map message_of batch)"
    then show False using assms nf unfolding pump_pass_def Let_def b sum.case by (simp only: if_False if_True) simp
  qed
  define pm0 where "pm0 = pm\<lparr>pm_in_flight := pm_in_flight pm @ map e_end batch,
       pm_read := (if batch = [] then pm_read pm else e_end (last batch))\<rparr>"
  obtain pb1 pm1 where d: "deliver cbs (pb, pm0) = (pb1, pm1)" by fastforce
  obtain flight acked cursor moved where s: "settle (pm_in_flight pm1) (pm_acked pm1) (pb_cursor pb1) False = (flight, acked, cursor, moved)"
    by (cases "settle (pm_in_flight pm1) (pm_acked pm1) (pb_cursor pb1) False")
  have "takeWhile (\<lambda>m. m \<noteq> None) (map message_of batch) = map message_of batch" using n by (simp only: takeWhile_eq_all_conv) metis
  then have sent: "sent = map (the \<circ> message_of) batch"
    using assms nf n s d unfolding pump_pass_def Let_def b sum.case pm0_def [symmetric] by (simp only: if_False if_True d s prod.case) simp
  have r: "pm_read pm' = pm_read pm1" "pm_in_flight pm' = flight" "pb_cursor pb' = cursor"
    using assms nf n s d unfolding pump_pass_def Let_def b sum.case pm0_def [symmetric]
    by (auto simp only: if_False if_True d s prod.case split: if_splits) auto
  show ?thesis by (rule that [OF b n sent d [unfolded pm0_def] r(1)]) (use s r in simp)
qed

text \<open>
  C5: the publisher sends in spool order, without gaps or repetitions. In every reachable state a pass hands to
  the producer exactly the next entries of the spool from the pump's read position on, at most 2000 of
  them, all synced, each with the topic, key, value and time of its entry, and leaves the read
  position at the first entry it did not send; a shorter batch means that every synced entry is sent.
\<close>

theorem publisher_sends_in_order:
  assumes "pub_run ops (pub_fresh mx sb) = Some y" "y_pump y = Some pm"
    and "pump_pass None cbs now (y_spool y) (y_pub y) pm = ((sp', pb', Pumping pm'), sent)"
  shows "\<exists>L batch. holds (y_spool y) L \<and> map Some sent = map message_of batch
    \<and> from_pos (pm_read pm) L = batch @ from_pos (pm_read pm') L
    \<and> length batch \<le> 2000 \<and> (\<forall>x \<in> set batch. pos_less (e_start x) (synced (y_spool y)))
    \<and> (length (pm_in_flight pm) < 50000 \<and> length batch < 2000 \<longrightarrow>
        (\<forall>x \<in> set (from_pos (pm_read pm') L). \<not> pos_less (e_start x) (synced (y_spool y))))"
proof -
  obtain bs where y: "pub_ok (reported ops) y bs" using reached_ok [OF assms(1)] by blast
  let ?sp = "y_spool y" and ?L = "spool_log (y_spool y) bs"
  have ok: "spool_ok ?sp bs" "boundary ?sp bs (synced ?sp)"
    and f: "flight_ok ?sp bs (pb_cursor (y_pub y)) (pm_read pm) (pm_in_flight pm)"
    using y assms(2) by (simp_all add: pub_ok_def)
  obtain batch pb1 pm1 where b: "(if length (pm_in_flight pm) < 50000 then spool_read ?sp (pm_read pm) (synced ?sp) 2000 else Inr []) = Inr batch"
      "None \<notin> set (map message_of batch)" "sent = map (the \<circ> message_of) batch"
      "deliver cbs (y_pub y, pm\<lparr>pm_in_flight := pm_in_flight pm @ map e_end batch,
         pm_read := (if batch = [] then pm_read pm else e_end (last batch))\<rparr>) = (pb1, pm1)" "pm_read pm' = pm_read pm1"
    by (rule pass_batch [OF assms(3)])
  have rd: "pm_read pm' = (if batch = [] then pm_read pm else e_end (last batch))" using deliver_fields [OF b(4)] b(5) by simp
  have lt: "\<not> pos_less (synced ?sp) (pm_read pm)" using f by (simp add: flight_ok_def)
  let ?B = "filter (between (pm_read pm) (synced ?sp)) ?L"
  have split: "from_pos (pm_read pm) ?L = ?B @ from_pos (synced ?sp) ?L" by (rule from_pos_before [OF ok(1) lt])
  have bt: "batch = take 2000 ?B \<or> batch = [] \<and> \<not> length (pm_in_flight pm) < 50000"
  proof (cases "length (pm_in_flight pm) < 50000")
    case True
    then show ?thesis using batch_ok(2) [OF ok f, of 2000 batch] b(1) by simp
  next
    case False
    then show ?thesis using b(1) by simp
  qed
  have r: "from_pos (pm_read pm) ?L = batch @ from_pos (pm_read pm') ?L"
  proof (cases "batch = []")
    case False
    then have "from_pos (pm_read pm) ?L = batch @ (drop 2000 ?B @ from_pos (synced ?sp) ?L)"
      using split bt by (metis append.assoc append_take_drop_id)
    from from_pos_split [OF ok(1) this False] show ?thesis using \<open>_ = batch @ (_ @ _)\<close> rd False by simp
  qed (simp add: rd)
  have m: "map Some sent = map message_of batch" using b(2,3) by (auto simp: image_iff)
  have full: "\<not> pos_less (e_start x) (synced ?sp)"
    if "length (pm_in_flight pm) < 50000 \<and> length batch < 2000" "x \<in> set (from_pos (pm_read pm') ?L)" for x
  proof -
    have "batch = ?B" using that(1) bt by auto
    then have "from_pos (pm_read pm') ?L = from_pos (synced ?sp) ?L" using r split by simp
    then show ?thesis using that(2) by (simp add: from_pos_in)
  qed
  have sub: "pos_less (e_start x) (synced ?sp)" if "x \<in> set batch" for x
    using that bt in_set_takeD [of x 2000 ?B] by (auto simp: between_def)
  have len: "length batch \<le> 2000" using bt by auto
  show ?thesis using log_holds [OF ok(1)] m r len sub full by (intro exI [of _ ?L] exI [of _ batch]) simp
qed


lemma ends_distinct:
  "sorted_wrt follows xs \<Longrightarrow> \<forall>x \<in> set xs. pos_less (e_start x) (e_end x) \<Longrightarrow> distinct (map e_end xs)"
proof (induction xs)
  case (Cons x xs)
  have "e_end x \<noteq> e_end y" if "y \<in> set xs" for y
    using Cons.prems that by (auto simp: follows_def)
  then show ?case using Cons by auto
qed simp

lemma settle_stops:
  assumes "settle flight acked cursor moved = (flight', acked', cursor', moved')" "distinct flight"
  shows "flight' = [] \<or> hd flight' \<notin> acked"
  using assms
proof (induction flight acked cursor moved rule: settle.induct)
  case (2 p ps acked cursor moved)
  show ?case
  proof (cases "p \<in> acked")
    case True
    have "flight' = [] \<or> hd flight' \<notin> acked - {p}" using 2 True by simp
    moreover have "set flight' \<subseteq> set ps" if "settle ps A c m = (flight', acked', cursor', moved')" for A c m
      using that by (induction ps A c m rule: settle.induct) (auto split: if_splits)
    then have "set flight' \<subseteq> set ps" using 2 True by simp
    ultimately show ?thesis using 2(3) by (cases flight') auto
  next
    case False
    then show ?thesis using 2 by auto
  qed
qed auto

text \<open>
  the cursor goes as far as the reports allow. In every reachable state, after a pass either nothing is in
  flight and no sent entry is left behind the cursor, or the first position in flight is one for which
  no success was reported; in particular a pass in which the broker reports every sent entry ends with
  nothing left to acknowledge.
\<close>

theorem publisher_progress:
  assumes "pub_run ops (pub_fresh mx sb) = Some y" "y_pump y = Some pm"
    and "pump_pass None cbs now (y_spool y) (y_pub y) pm = ((sp', pb', Pumping pm'), sent)" "holds (y_spool y) L"
  shows "if pm_in_flight pm' = [] then from_pos (pb_cursor pb') L = from_pos (pm_read pm') L
    else hd (pm_in_flight pm') \<notin> pm_acked pm \<and> (hd (pm_in_flight pm'), True) \<notin> set cbs"
proof -
  let ?P = "reported ops \<union> {p. (p, True) \<in> set cbs}" and ?sp = "y_spool y"
  obtain bs where y: "pub_ok (reported ops) y bs" using reached_ok [OF assms(1)] by blast
  have y': "pub_ok ?P y bs" by (rule pub_ok_mono [OF y]) blast
  have ok: "spool_ok ?sp bs" "boundary ?sp bs (synced ?sp)" and c: "cursor_ok ?sp bs (pb_cursor (y_pub y)) ?P"
    and f: "flight_ok ?sp bs (pb_cursor (y_pub y)) (pm_read pm) (pm_in_flight pm)" "pm_acked pm \<subseteq> ?P"
    using y' assms(2) by (simp_all add: pub_ok_def)
  have L: "L = spool_log ?sp bs" by (rule holds_unique [OF assms(4) log_holds [OF ok(1)]])
  obtain batch pb1 pm1 acked moved where b: "(if length (pm_in_flight pm) < 50000 then spool_read ?sp (pm_read pm) (synced ?sp) 2000 else Inr []) = Inr batch"
      "deliver cbs (y_pub y, pm\<lparr>pm_in_flight := pm_in_flight pm @ map e_end batch,
         pm_read := (if batch = [] then pm_read pm else e_end (last batch))\<rparr>) = (pb1, pm1)"
      "settle (pm_in_flight pm1) (pm_acked pm1) (pb_cursor pb1) False = (pm_in_flight pm', acked, pb_cursor pb', moved)"
    by (rule pass_batch [OF assms(3)]) metis
  have fl: "pm_in_flight pm1 = pm_in_flight pm @ map e_end batch" "pm_acked pm1 = pm_acked pm \<union> {p. (p, True) \<in> set cbs}"
    using deliver_fields [OF b(2)] by simp_all
  have f1: "flight_ok ?sp bs (pb_cursor (y_pub y)) (if batch = [] then pm_read pm else e_end (last batch)) (pm_in_flight pm1)"
  proof (cases "length (pm_in_flight pm) < 50000")
    case True
    then show ?thesis using batch_ok(1) [OF ok f(1)] b(1) fl(1) by simp
  next
    case False
    then show ?thesis using f(1) b(1) fl(1) by simp
  qed
  then obtain F where F: "from_pos (pb_cursor (y_pub y)) L = F @ from_pos (if batch = [] then pm_read pm else e_end (last batch)) L"
      "pm_in_flight pm1 = map e_end F" unfolding L by (rule flight_okE)
  have "sorted_wrt follows (from_pos (pb_cursor (y_pub y)) L)" 
    unfolding from_pos_def L by (rule sorted_wrt_filter [OF spool_log_sorted [OF ok(1)]])
  moreover have "set (from_pos (pb_cursor (y_pub y)) L) \<subseteq> set L" by (auto simp: from_pos_def)
  then have "set F \<subseteq> set L" using F(1) by (metis Un_subset_iff set_append)
  ultimately have "distinct (pm_in_flight pm1)"
    unfolding F by (intro ends_distinct) (use F(1) spool_log_before_end(3) [OF ok(1)] in \<open>auto simp: sorted_wrt_append L\<close>)
  from settle_stops [OF b(3) this] have stop: "pm_in_flight pm' = [] \<or> hd (pm_in_flight pm') \<notin> pm_acked pm1" .
  have "fst (pump_pass None cbs now ?sp (y_pub y) pm) = (sp', pb', Pumping pm')" using assms(3) by simp
  from pass_settled [OF ok c f _ this] have "settled ?sp bs (y_pub y) ?P sp' pb' pm'" by auto
  then have "flight_ok ?sp bs (pb_cursor pb') (pm_read pm') (pm_in_flight pm')" by (simp add: settled_def)
  then obtain G where G: "from_pos (pb_cursor pb') L = G @ from_pos (pm_read pm') L" "pm_in_flight pm' = map e_end G"
    unfolding L by (rule flight_okE)
  show ?thesis using stop G fl(2) by auto
qed

subsection \<open>A pump over a small spool\<close>

lemma demo_pass:
  "\<exists>ops y pm cbs sp' pb' pm' m L. pub_run ops (pub_fresh 1000 100) = Some y \<and> y_pump y = Some pm \<and> holds (y_spool y) L
    \<and> pump_pass None cbs 0 (y_spool y) (y_pub y) pm = ((sp', pb', Pumping pm'), [m]) \<and> pm_in_flight pm' = [] \<and> m_topic m = ''raw-events.v1''
    \<and> (\<exists>x \<in> set L. pos_less (e_start x) (synced (y_spool y))) \<and> reported (ops @ [Restart 0]) = {}"
proof -
  let ?S0 = "open_spool [] 1000 100"
  obtain sp where a: "spool_append ?S0 1 [9] (Some ''s'') (Some (uuid_str (replicate 16 7))) 5 6 [1, 2] = Inr (True, sp)"
    using demo_append by blast
  obtain bs x where x: "spool_ok sp bs" "extends ?S0 (\<lambda>_. []) sp bs" "spool_log sp bs = spool_log ?S0 (\<lambda>_. []) @ [x]" "e_topic x = 1"
    using spool_append_extends [OF empty_spool_ok a] by blast
  have e: "spool_log ?S0 (\<lambda>_. []) = []" by (simp add: spool_log_def seg_log_def)
  define sp1 where "sp1 = sp\<lparr>dirty := False, synced := spool_end sp\<rparr>"
  have sy: "spool_sync sp = (spool_end sp, sp1)" by (simp add: spool_sync_def sp1_def)
  have y0: "synced_ok sp bs" using synced_extends [OF x(2)] boundary_synced_ok [OF empty_spool_ok]
    using boundary_end [OF empty_spool_ok, of 1000 100] by (simp add: open_spool_def spool_end_def open_segment_def Let_def size_of_def)
  note z = sync_places(1,2) [OF x(1) y0 sy]
  have end1: "synced sp1 = spool_end sp1" by (simp add: sp1_def spool_end_def size_of_def)
  have first: "first_position ?S0 = (0, 0)" "boundary sp1 bs (0, 0)"
  proof -
    show f: "first_position ?S0 = (0, 0)" by (simp add: first_position_def open_spool_def open_segment_def Let_def)
    have "boundary sp bs (first_position ?S0)" by (rule boundary_extends [OF x(2) first_position_least(1) [OF empty_spool_ok]])
    then show "boundary sp1 bs (0, 0)" by (simp add: f boundary_def sp1_def)
  qed
  let ?pb = "y_pub (pub_fresh 1000 100)" and ?y = "\<lparr>y_spool = sp1, y_pub = y_pub (pub_fresh 1000 100), y_pump = Some (pump_start 0 (y_pub (pub_fresh 1000 100)))\<rparr>"
  have run: "pub_run [Store 1 [9] (Some ''s'') (Some (uuid_str (replicate 16 7))) 5 6 [1, 2], Sync, Begin 0] (pub_fresh 1000 100) = Some ?y"
    using a sy by (simp add: pub_fresh_def)
  have "x \<in> set (spool_log sp1 bs)" using x(3) z(2) by simp
  then have "filter (between (0, 0) (synced sp1)) (spool_log sp1 bs) = [x]"
    using spool_log_before_end(1) [OF z(1)] x(3) e z(2) end1 by (cases "e_start x") (simp add: between_def)
  then have rd: "spool_read sp1 (0, 0) (synced sp1) 2000 = Inr [x]"
    using read_between [OF z(1) first(2) boundary_end [OF z(1)], of 2000] end1 by simp
  obtain m where m: "message_of x = Some m" "m_topic m = ''raw-events.v1''" using x(4) by (auto simp: message_of_def TOPICS_def)
  have p: "\<exists>sp' pb' pm'. pump_pass None [(e_end x, True)] 0 sp1 ?pb (pump_start 0 ?pb) = ((sp', pb', Pumping pm'), [m]) \<and> pm_in_flight pm' = []"
    using rd m(1) first(1) by (simp add: pump_pass_def pump_start_def pub_fresh_def pub_open_def)
  define Y where "Y = ?y"
  have "y_pump Y = Some (pump_start 0 ?pb)" "holds (y_spool Y) (spool_log sp1 bs)"
    "\<exists>sp' pb' pm'. pump_pass None [(e_end x, True)] 0 (y_spool Y) (y_pub Y) (pump_start 0 ?pb) = ((sp', pb', Pumping pm'), [m]) \<and> pm_in_flight pm' = []"
    using p log_holds [OF z(1)] by (simp_all add: Y_def)
  moreover have "\<exists>x \<in> set (spool_log sp1 bs). pos_less (e_start x) (synced (y_spool Y))"
    using \<open>x \<in> set (spool_log sp1 bs)\<close> spool_log_before_end(1) [OF z(1)] end1 by (auto simp: Y_def)
  moreover have "reported ([Store 1 [9] (Some ''s'') (Some (uuid_str (replicate 16 7))) 5 6 [1, 2], Sync, Begin 0] @ [Restart 0]) = {}" by simp
  ultimately show ?thesis using run [folded Y_def] m(2) by blast
qed

theorem publisher_loses_nothing_witness:
  "\<exists>ops y L x. pub_run (ops @ [Restart 0]) (pub_fresh 1000 100) = Some y \<and> holds (y_spool y) L \<and> x \<in> set L"
proof -
  obtain ops y L x where d: "pub_run ops (pub_fresh 1000 100) = Some y" "holds (y_spool y) L" "x \<in> set L"
      "pos_less (e_start x) (synced (y_spool y))" "reported (ops @ [Restart 0]) = {}"
    using demo_pass by blast
  obtain y2 L1 L2 where r: "pub_run [Restart 0] y = Some y2" "holds (y_spool y) L1" "holds (y_spool y2) L2"
      "\<forall>x \<in> set L1. pos_less (e_start x) (synced (y_spool y)) \<longrightarrow> x \<in> set L2 \<or> e_end x \<in> reported (ops @ [Restart 0])"
    using publisher_loses_nothing [of ops 1000 100 "[Restart 0]"] d(1) by auto
  have "L1 = L" by (rule holds_unique [OF r(2) d(2)])
  then have "x \<in> set L2" using r(4) d(3-5) by blast
  moreover have "pub_run (ops @ [Restart 0]) (pub_fresh 1000 100) = Some y2" using d(1) r(1) by (simp only: pub_run_append bind.bind_lunit)
  ultimately show ?thesis using r(3) by blast
qed

theorem publisher_sends_in_order_witness:
  "\<exists>ops y pm cbs r m x L. pub_run ops (pub_fresh 1000 100) = Some y \<and> pump_pass None cbs 0 (y_spool y) (y_pub y) pm = (r, [m])
    \<and> holds (y_spool y) L \<and> x \<in> set L \<and> message_of x = Some m"
proof -
  obtain ops y pm cbs sp' pb' pm' m where d: "pub_run ops (pub_fresh 1000 100) = Some y" "y_pump y = Some pm"
      "pump_pass None cbs 0 (y_spool y) (y_pub y) pm = ((sp', pb', Pumping pm'), [m])"
    using demo_pass by blast
  obtain L batch where l: "holds (y_spool y) L" "map Some [m] = map message_of batch" "from_pos (pm_read pm) L = batch @ from_pos (pm_read pm') L"
    using publisher_sends_in_order [OF d] by blast
  obtain x where "batch = [x]" "message_of x = Some m" using l(2) by (cases batch) auto
  then have "x \<in> set L" using l(3) by (metis from_pos_in append_Cons list.set_intros(1))
  then show ?thesis using d(1,3) l(1) \<open>message_of x = Some m\<close> by blast
qed

theorem publisher_progress_witness:
  "\<exists>ops y pm cbs sp' pb' pm' sent L. pub_run ops (pub_fresh 1000 100) = Some y \<and> holds (y_spool y) L
    \<and> pump_pass None cbs 0 (y_spool y) (y_pub y) pm = ((sp', pb', Pumping pm'), sent) \<and> sent \<noteq> []
    \<and> from_pos (pb_cursor pb') L = from_pos (pm_read pm') L"
proof -
  obtain ops y pm cbs sp' pb' pm' m L where d: "pub_run ops (pub_fresh 1000 100) = Some y" "y_pump y = Some pm"
      "pump_pass None cbs 0 (y_spool y) (y_pub y) pm = ((sp', pb', Pumping pm'), [m])" "holds (y_spool y) L" "pm_in_flight pm' = []"
    using demo_pass by blast
  have "from_pos (pb_cursor pb') L = from_pos (pm_read pm') L" using publisher_progress [OF d(1-4)] d(5) by simp
  then show ?thesis using d(1,3,4) by blast
qed

end
