(* ===== verification/Iputil.thy ===== *)
theory Iputil
  imports Json
begin

text \<open>
  IP literals (\<^verbatim>\<open>lib/sih_common/iputil.py\<close>): the text forms \<^verbatim>\<open>ipaddress.ip_address\<close>
  accepts, and membership in the configured networks. Netmask and hostmask suffixes of
  \<^verbatim>\<open>ip_network\<close> (\<^verbatim>\<open>10.0.0.0/255.0.0.0\<close>) are not modelled: the inventory uses prefix lengths.
\<close>

section \<open>Addresses\<close>

datatype ip = V4 int | V6 int

fun ip_bits :: "ip \<Rightarrow> nat" where
  "ip_bits (V4 _) = 32"
| "ip_bits (V6 _) = 128"

fun ip_value :: "ip \<Rightarrow> int" where
  "ip_value (V4 n) = n"
| "ip_value (V6 n) = n"

definition parse_octet :: "string \<Rightarrow> nat option" where
  "parse_octet s = (if s = [] \<or> \<not> list_all is_dec s \<or> 3 < length s \<or> (s \<noteq> ''0'' \<and> hd s = CHR ''0'') \<or> 255 < dec_val s
     then None else Some (dec_val s))"

definition parse_v4 :: "string \<Rightarrow> int option" where
  "parse_v4 s = (let parts = split_on CHR ''.'' s in
     if length parts \<noteq> 4 then None
     else case those (map parse_octet parts) of None \<Rightarrow> None
          | Some os \<Rightarrow> Some (foldl (\<lambda>a b. a * 256 + int b) 0 os))"

definition parse_hextet :: "string \<Rightarrow> int option" where
  "parse_hextet s = (if s = [] \<or> 4 < length s then None
     else map_option (foldl (\<lambda>a b. a * 16 + int b) 0) (those (map digit_val s)))"

text \<open>The last part may be dotted: its four octets become two hextets, \<open>None\<close> when they do not parse.\<close>

definition hextet_parts :: "string list \<Rightarrow> int option list" where
  "hextet_parts parts =
     (if CHR ''.'' \<in> set (last parts)
      then map parse_hextet (butlast parts)
        @ (case parse_v4 (last parts) of None \<Rightarrow> [None, None] | Some n \<Rightarrow> [Some (n div 65536), Some (n mod 65536)])
      else map parse_hextet parts)"

text \<open>\<^verbatim>\<open>IPv6Address._ip_int_from_string\<close>: at most one empty part inside, eight hextets otherwise.\<close>

definition inner_empty :: "string list \<Rightarrow> nat list" where
  "inner_empty parts = filter (\<lambda>i. parts ! i = []) [1..<length parts - 1]"

definition parse_v6 :: "string \<Rightarrow> int option" where
  "parse_v6 s =
     (let parts = split_on CHR '':'' s; hs = hextet_parts parts; n = length hs;
          join = (\<lambda>xs. map_option (foldl (\<lambda>a b. a * 65536 + b) 0) (those xs))
      in if length parts < 3 \<or> 9 < n then None
         else case inner_empty parts of
           [] \<Rightarrow> if n \<noteq> 8 then None else join hs
         | [k] \<Rightarrow>
             (let hi = (if hd parts = [] then k - 1 else k);
                  lo = (if last parts = [] then n - k - 2 else n - k - 1)
              in if (hd parts = [] \<and> hi \<noteq> 0) \<or> (last parts = [] \<and> lo \<noteq> 0) \<or> 8 < hi + lo + 1 then None
                 else case (join (take hi hs), join (drop (n - lo) hs)) of
                   (Some a, Some b) \<Rightarrow> Some (a * 65536 ^ (8 - hi) + b) | _ \<Rightarrow> None)
         | _ \<Rightarrow> None)"

text \<open>\<^verbatim>\<open>ip_address\<close>: an IPv4 literal, otherwise an IPv6 one; \<open>None\<close> is ValueError.\<close>

definition ip_address :: "string \<Rightarrow> ip option" where
  "ip_address s = (case parse_v4 s of Some n \<Rightarrow> Some (V4 n) | None \<Rightarrow> map_option V6 (parse_v6 s))"

definition is_ip :: "string \<Rightarrow> bool" where
  "is_ip s = (2 \<le> py_len s \<and> py_len s \<le> 45 \<and> CHR ''%'' \<notin> set s \<and> ip_address s \<noteq> None)"

text \<open>\<^verbatim>\<open>is_ip\<close> of any JSON value: only a \<^verbatim>\<open>str\<close> can be a literal.\<close>

fun is_ip_value :: "json \<Rightarrow> bool" where
  "is_ip_value (JStr s) = is_ip s"
| "is_ip_value _ = False"

section \<open>Networks\<close>

record net =
  net_base :: ip
  net_prefix :: nat

definition mask_value :: "nat \<Rightarrow> nat \<Rightarrow> int \<Rightarrow> int" where
  "mask_value bits p v = v div 2 ^ (bits - p) * 2 ^ (bits - p)"

fun mask_ip :: "nat \<Rightarrow> ip \<Rightarrow> ip" where
  "mask_ip p (V4 n) = V4 (mask_value 32 p n)"
| "mask_ip p (V6 n) = V6 (mask_value 128 p n)"

definition ip_network :: "string \<Rightarrow> net option" where
  "ip_network s = (case split_on CHR ''/'' s of
     [a] \<Rightarrow> map_option (\<lambda>ip. \<lparr>net_base = ip, net_prefix = ip_bits ip\<rparr>) (ip_address a)
   | [a, p] \<Rightarrow> (case ip_address a of None \<Rightarrow> None
       | Some ip \<Rightarrow> if p = [] \<or> \<not> list_all is_dec p \<or> ip_bits ip < dec_val p then None
                    else Some \<lparr>net_base = mask_ip (dec_val p) ip, net_prefix = dec_val p\<rparr>)
   | _ \<Rightarrow> None)"

type_synonym networks = "net list"

definition net_set :: "string list \<Rightarrow> networks option" where
  "net_set cidrs = those (map ip_network cidrs)"

definition same_version :: "ip \<Rightarrow> ip \<Rightarrow> bool" where
  "same_version a b = (ip_bits a = ip_bits b)"

definition in_net :: "ip \<Rightarrow> net \<Rightarrow> bool" where
  "in_net a n = (mask_ip (net_prefix n) a = net_base n)"

definition net_contains :: "networks \<Rightarrow> string option \<Rightarrow> bool" where
  "net_contains nets ip = (case ip of None \<Rightarrow> False
     | Some s \<Rightarrow> (if s = [] \<or> \<not> is_ip s then False
         else (case ip_address s of None \<Rightarrow> False
               | Some a \<Rightarrow> list_ex (\<lambda>n. same_version a (net_base n) \<and> in_net a n) nets)))"

section \<open>Lemmas\<close>

lemma mask_value_eq_iff:
  "mask_value bits p v = mask_value bits p w \<longleftrightarrow> v div 2 ^ (bits - p) = w div 2 ^ (bits - p)"
  by (simp add: mask_value_def)

lemma same_version_mask [simp]: "same_version a (mask_ip p b) \<longleftrightarrow> ip_bits a = ip_bits b"
  by (cases b) (simp_all add: same_version_def)

lemma mask_ip_eq_iff:
  "ip_bits a = ip_bits b \<Longrightarrow> mask_ip p a = mask_ip p b
     \<longleftrightarrow> ip_value a div 2 ^ (ip_bits a - p) = ip_value b div 2 ^ (ip_bits b - p)"
  by (cases a; cases b) (simp_all only: mask_ip.simps ip.inject mask_value_eq_iff ip_bits.simps ip_value.simps
      numeral_eq_iff num.simps)

lemma ip_network_prefix_le: "ip_network s = Some n \<Longrightarrow> net_prefix n \<le> ip_bits (net_base n)"
proof -
  have [simp]: "ip_bits (mask_ip p a) = ip_bits a" for p a by (cases a) simp_all
  show "ip_network s = Some n \<Longrightarrow> ?thesis"
    by (auto simp: ip_network_def split: list.splits option.splits if_splits)
qed

text \<open>
  A text is inside a parsed network exactly when it is an address of the same version whose
  leading prefix bits are the network's: both addresses give the same quotient by the host part.
\<close>

theorem net_contains_prefix:
  assumes "ip_network (c @ ''/'' @ p) = Some n" and "ip_address c = Some base" and "CHR ''/'' \<notin> set c"
    "CHR ''/'' \<notin> set p" and "is_ip s" and "ip_address s = Some a"
  shows "net_contains [n] (Some s) \<longleftrightarrow> ip_bits a = ip_bits base
     \<and> ip_value a div 2 ^ (ip_bits a - dec_val p) = ip_value base div 2 ^ (ip_bits base - dec_val p)"
proof -
  have sp: "split_on CHR ''/'' (c @ ''/'' @ p) = [c, p]"
    using assms(3,4) by (simp add: split_on_append split_on_no_sep)
  have n: "n = \<lparr>net_base = mask_ip (dec_val p) base, net_prefix = dec_val p\<rparr>"
    using assms(1) unfolding ip_network_def sp by (auto simp: assms(2) split: if_splits)
  have ne: "s \<noteq> []" using assms(5) by (auto simp: is_ip_def)
  show ?thesis
    using mask_ip_eq_iff [of a base "dec_val p"]
    by (simp only: net_contains_def option.case ne assms(5,6) n net.simps in_net_def list_ex_iff same_version_mask) auto
qed

theorem net_contains_prefix_witness:
  "net_contains [\<lparr>net_base = V4 167772160, net_prefix = 8\<rparr>] (Some ''10.2.3.4'')"
proof -
  have "net_contains [\<lparr>net_base = V4 167772160, net_prefix = 8\<rparr>] (Some ''10.2.3.4'')
    \<longleftrightarrow> ip_bits (V4 167904004) = ip_bits (V4 167772161)
      \<and> ip_value (V4 167904004) div 2 ^ (ip_bits (V4 167904004) - dec_val ''8'')
        = ip_value (V4 167772161) div 2 ^ (ip_bits (V4 167772161) - dec_val ''8'')"
  proof (rule net_contains_prefix [where c = "''10.0.0.1''"])
    show "ip_network (''10.0.0.1'' @ ''/'' @ ''8'') = Some \<lparr>net_base = V4 167772160, net_prefix = 8\<rparr>" by code_simp
    show "ip_address ''10.0.0.1'' = Some (V4 167772161)" by code_simp
    show "is_ip ''10.2.3.4''" by code_simp
    show "ip_address ''10.2.3.4'' = Some (V4 167904004)" by code_simp
  qed simp_all
  then show ?thesis by (simp add: dec_val_def)
qed

end
