(* ===== verification/Normalizer.thy ===== *)
theory Normalizer
  imports Contracts Ids LinkFrame Iputil
begin

text \<open>
  The sender's normalizer (\<^verbatim>\<open>ingest/sender/sih_sender/normalizer.py\<close>): a Zeek JSON line becomes
  the payload of an event with an availability state for every null, and the link envelope around it. A
  result is \<open>Some (Inr x)\<close>, \<open>Some (Inl message)\<close> for a \<^verbatim>\<open>NormalizationError\<close>, or \<open>None\<close> for any
  other exception, which the callers do not catch. \<open>loads\<close> reads a line (numbers with a fraction as exact
  decimals), \<open>dumps\<close> writes a document, \<open>py_str\<close> is the text of a value that is not a string. A regular
  expression is a bound on the length and a class of ASCII characters.
\<close>

section \<open>Value classes\<close>

definition LOG_NAMES :: "string list" where "LOG_NAMES = [''conn'', ''flow_update'', ''dns'', ''ssl'', ''weird'']"
definition MAX_SAFE :: int where "MAX_SAFE = 2 ^ 53 - 1"
definition ORIGINAL_MAX_CHARS :: nat where "ORIGINAL_MAX_CHARS = 4096"
definition CONN_STATES :: "string list" where
  "CONN_STATES = [''S0'', ''S1'', ''SF'', ''REJ'', ''S2'', ''S3'', ''RSTO'', ''RSTR'', ''RSTOS0'', ''RSTRH'', ''SH'', ''SHR'', ''OTH'']"
definition COUNTERS :: "string list" where
  "COUNTERS = [''orig_bytes'', ''resp_bytes'', ''orig_pkts'', ''resp_pkts'', ''orig_ip_bytes'', ''resp_ip_bytes'']"

definition is_letter :: "char \<Rightarrow> bool" where
  "is_letter c = (let n = of_char c :: nat in (65 \<le> n \<and> n \<le> 90) \<or> (97 \<le> n \<and> n \<le> 122))"

definition alnum_or :: "string \<Rightarrow> char \<Rightarrow> bool" where
  "alnum_or extra c = (is_letter c \<or> is_dec c \<or> c \<in> set extra)"

definition fullmatch :: "(char \<Rightarrow> bool) \<Rightarrow> nat \<Rightarrow> nat \<Rightarrow> string \<Rightarrow> bool" where
  "fullmatch P lo hi s = (lo \<le> length s \<and> length s \<le> hi \<and> list_all P s)"

definition UID :: "string \<Rightarrow> bool" where "UID = fullmatch (alnum_or []) 1 32"
definition SERVICE :: "string \<Rightarrow> bool" where "SERVICE = fullmatch (alnum_or ''_,.-'') 1 64"
definition HISTORY :: "string \<Rightarrow> bool" where "HISTORY = fullmatch (\<lambda>c. is_letter c \<or> c = CHR 0x5E) 0 64"
definition SSL_HISTORY :: "string \<Rightarrow> bool" where "SSL_HISTORY = fullmatch is_letter 0 64"
definition QTYPE_NAME :: "string \<Rightarrow> bool" where "QTYPE_NAME = fullmatch (alnum_or ''_*-'') 1 16"
definition RCODE_NAME :: "string \<Rightarrow> bool" where "RCODE_NAME = fullmatch (alnum_or ''_-'') 1 32"
definition TLS_VERSION :: "string \<Rightarrow> bool" where "TLS_VERSION = fullmatch (alnum_or ''._ -'') 1 16"
definition CIPHER :: "string \<Rightarrow> bool" where "CIPHER = fullmatch (alnum_or ''_-'') 1 128"
definition CURVE :: "string \<Rightarrow> bool" where "CURVE = fullmatch (alnum_or ''_-'') 1 64"
definition any_text :: "string \<Rightarrow> bool" where "any_text s = True"

text \<open>Characters a weird's name keeps; every other one becomes an underscore.\<close>

definition weird_name :: "string \<Rightarrow> string" where
  "weird_name name = take 128 (map (\<lambda>p. (case p of [c] \<Rightarrow> if alnum_or ''_./:-'' c then c else CHR ''_'' | _ \<Rightarrow> CHR ''_'')) (py_chars name))"

fun is_num :: "json \<Rightarrow> bool" where
  "is_num (JInt i) = True"
| "is_num (JReal r) = True"
| "is_num _ = False"

fun num_of :: "json \<Rightarrow> real" where
  "num_of (JInt i) = of_int i"
| "num_of (JReal r) = r"
| "num_of _ = 0"

definition str_of :: "(json \<Rightarrow> string) \<Rightarrow> json \<Rightarrow> string" where
  "str_of py_str v = (case v of JStr s \<Rightarrow> s | _ \<Rightarrow> py_str v)"

section \<open>The payload and its availability\<close>

record builder =
  bd_payload :: dict
  bd_avail :: dict
  bd_reasons :: dict

definition builder_new :: builder where
  "builder_new = \<lparr>bd_payload = [], bd_avail = [], bd_reasons = []\<rparr>"

definition put :: "string \<Rightarrow> json \<Rightarrow> builder \<Rightarrow> builder" where
  "put field v b = b\<lparr>bd_payload := od_set field v (bd_payload b)\<rparr>"

definition unavailable :: "string \<Rightarrow> string \<Rightarrow> string \<Rightarrow> builder \<Rightarrow> builder" where
  "unavailable field state why b =
     \<lparr>bd_payload = od_set field JNull (bd_payload b), bd_avail = od_set field (JStr state) (bd_avail b),
      bd_reasons = (if why = [] then bd_reasons b else od_set field (JStr why) (bd_reasons b))\<rparr>"

text \<open>A value: absent, in its class (\<open>conv\<close>), or out of contract.\<close>

definition enter :: "json \<Rightarrow> string \<Rightarrow> (json \<Rightarrow> json option) \<Rightarrow> string \<Rightarrow> string \<Rightarrow> builder \<Rightarrow> builder" where
  "enter v field conv state why b =
     (if v = JNull then unavailable field state why b
      else (case conv v of Some w \<Rightarrow> put field w b | None \<Rightarrow> unavailable field ''UNKNOWN'' ''value_out_of_contract'' b))"

definition int_in :: "int \<Rightarrow> json \<Rightarrow> json option" where
  "int_in hi v = (case v of JInt i \<Rightarrow> if 0 \<le> i \<and> i \<le> hi then Some v else None | _ \<Rightarrow> None)"

definition seconds_in :: "json \<Rightarrow> json option" where
  "seconds_in v = (if is_num v \<and> 0 \<le> num_of v \<and> num_of v \<le> 31536000 then Some (JReal (num_of v)) else None)"

definition bool_in :: "json \<Rightarrow> json option" where
  "bool_in v = (case v of JBool c \<Rightarrow> Some v | _ \<Rightarrow> None)"

definition text_in :: "(string \<Rightarrow> bool) \<Rightarrow> nat \<Rightarrow> json \<Rightarrow> json option" where
  "text_in pattern hi v = (case v of JStr s \<Rightarrow> if py_len s \<le> hi \<and> pattern s then Some v else None | _ \<Rightarrow> None)"

definition enter_count :: "dict \<Rightarrow> string \<Rightarrow> string \<Rightarrow> int \<Rightarrow> string \<Rightarrow> string \<Rightarrow> builder \<Rightarrow> builder" where
  "enter_count n zeek field hi state why = enter (dget n zeek) field (int_in hi) state why"

definition enter_port :: "dict \<Rightarrow> string \<Rightarrow> string \<Rightarrow> builder \<Rightarrow> builder" where
  "enter_port n zeek field = enter_count n zeek field 65535 ''MISSING'' ''zeek_field_absent''"

definition enter_seconds :: "dict \<Rightarrow> string \<Rightarrow> string \<Rightarrow> string \<Rightarrow> string \<Rightarrow> builder \<Rightarrow> builder" where
  "enter_seconds n zeek field state why = enter (dget n zeek) field seconds_in state why"

definition enter_bool :: "dict \<Rightarrow> string \<Rightarrow> string \<Rightarrow> string \<Rightarrow> string \<Rightarrow> builder \<Rightarrow> builder" where
  "enter_bool n zeek field state why = enter (dget n zeek) field bool_in state why"

definition enter_text :: "dict \<Rightarrow> string \<Rightarrow> string \<Rightarrow> (string \<Rightarrow> bool) \<Rightarrow> nat \<Rightarrow> string \<Rightarrow> string \<Rightarrow> builder \<Rightarrow> builder" where
  "enter_text n zeek field pattern hi state why = enter (dget n zeek) field (text_in pattern hi) state why"

section \<open>Required fields\<close>

text \<open>Reading a line fails as \<^verbatim>\<open>ValueError\<close> or \<^verbatim>\<open>RecursionError\<close>, which is a rejection, or as the
  \<^verbatim>\<open>InvalidOperation\<close> of a number whose exponent no \<^verbatim>\<open>Decimal\<close> holds, which is not caught.\<close>

datatype loads_error = NotJson | NoDecimal

type_synonym loader = "string \<Rightarrow> loads_error + json"

definition parse_line :: "loader \<Rightarrow> string \<Rightarrow> (string + dict) option" where
  "parse_line loads line = (case loads line of Inl NotJson \<Rightarrow> Some (Inl ''not valid JSON'') | Inl NoDecimal \<Rightarrow> None
     | Inr v \<Rightarrow> Some (need ''record is not a JSON object'' (as_obj v)))"

definition ts_of :: "dict \<Rightarrow> (string + int) option" where
  "ts_of n = (let t = dget n ''ts'' in if \<not> is_num t then Some (Inl ''ts missing or not numeric'')
     else map_option Inr (zeek_ts_to_us (num_of t)))"

definition required_uid :: "dict \<Rightarrow> string + string" where
  "required_uid n = (case dget n ''uid'' of JStr u \<Rightarrow> if UID u then Inr u else Inl ''uid missing or invalid'' | _ \<Rightarrow> Inl ''uid missing or invalid'')"

definition required_ip :: "dict \<Rightarrow> string \<Rightarrow> string + json" where
  "required_ip n field = (if is_ip_value (dget n field) then Inr (dget n field) else Inl (field @ '' missing or not an IP literal''))"

definition transport :: "dict \<Rightarrow> string" where
  "transport n = (let p = dget n ''proto'' in if p \<in> {JStr ''tcp'', JStr ''udp'', JStr ''icmp''} then text_of p else ''unknown_transport'')"

text \<open>The identity and the two ends of a connection, which every record but a weird must have.\<close>

definition ends_of :: "dict \<Rightarrow> builder \<Rightarrow> string + string \<times> builder" where
  "ends_of n b =
     andthen (required_uid n) (\<lambda>uid.
     andthen (required_ip n ''id.orig_h'') (\<lambda>src.
     andthen (required_ip n ''id.resp_h'') (\<lambda>dst.
     Inr (uid, enter_port n ''id.resp_p'' ''dst_port'' (put ''dst_ip'' dst (enter_port n ''id.orig_p'' ''src_port''
       (put ''src_ip'' src (put ''uid'' (JStr uid) b))))))))"

section \<open>Connections\<close>

definition service_value :: "(json \<Rightarrow> string) \<Rightarrow> dict \<Rightarrow> json" where
  "service_value py_str n = (case dget n ''service'' of JArr xs \<Rightarrow> JStr (join_with (CHR '','') (map (str_of py_str) xs)) | v \<Rightarrow> v)"

definition hidden_fields :: "string \<Rightarrow> string list" where
  "hidden_fields coverage = (if coverage = ''originator_only'' then [''resp_bytes'', ''resp_pkts'', ''resp_ip_bytes'']
     else if coverage = ''responder_only'' then [''orig_bytes'', ''orig_pkts'', ''orig_ip_bytes''] else [])"

definition od_pop :: "string \<Rightarrow> dict \<Rightarrow> dict" where
  "od_pop k d = filter (\<lambda>(k', v). k' \<noteq> k) d"

definition hide :: "string \<Rightarrow> builder \<Rightarrow> builder" where
  "hide f b = unavailable f ''UNKNOWN'' ''direction_not_observed''
     (b\<lparr>bd_avail := od_pop f (bd_avail b), bd_reasons := od_pop f (bd_reasons b)\<rparr>)"

definition conn_common :: "(json \<Rightarrow> string) \<Rightarrow> dict \<Rightarrow> builder \<Rightarrow> builder" where
  "conn_common py_str n b =
     enter_text n ''history'' ''history'' HISTORY 64 ''MISSING'' ''zeek_field_absent''
       (fold (\<lambda>f. enter_count n f f MAX_SAFE ''MISSING'' ''zeek_field_absent'') COUNTERS
         (enter_seconds n ''duration'' ''duration_s'' ''MISSING'' ''zeek_field_absent''
           (enter (service_value py_str n) ''service'' (text_in SERVICE 64) ''UNKNOWN'' ''no_protocol_identified''
             (put ''proto'' (JStr (transport n)) b))))"

text \<open>What only the terminal record has; looking up a list or an object in a set raises.\<close>

definition state_in :: "json \<Rightarrow> json option" where
  "state_in v = (if v \<in> set (map JStr CONN_STATES) then Some v else None)"

definition conn_terminal :: "dict \<Rightarrow> builder \<Rightarrow> builder option" where
  "conn_terminal n b =
     (if \<not> hashable (dget n ''conn_state'') then None
      else Some (enter_bool n ''local_resp'' ''local_resp'' ''UNKNOWN'' ''site_networks_unconfigured''
        (enter_bool n ''local_orig'' ''local_orig'' ''UNKNOWN'' ''site_networks_unconfigured''
          (enter (dget n ''conn_state'') ''conn_state'' state_in ''MISSING'' ''zeek_field_absent''
            (enter_count n ''missed_bytes'' ''missed_bytes'' MAX_SAFE ''MISSING'' ''zeek_field_absent'' b)))))"

definition conn_like :: "(json \<Rightarrow> string) \<Rightarrow> string \<Rightarrow> dict \<Rightarrow> bool \<Rightarrow> (string + string \<times> builder) option" where
  "conn_like py_str coverage n terminal =
     (case ends_of n builder_new of Inl e \<Rightarrow> Some (Inl e)
      | Inr (uid, b) \<Rightarrow>
          map_option (\<lambda>b'. Inr (uid, fold hide (hidden_fields coverage) b'))
            (if terminal then conn_terminal n (conn_common py_str n b) else Some (conn_common py_str n b)))"

section \<open>DNS, TLS and weirds\<close>

definition enter_answers :: "(json \<Rightarrow> string) \<Rightarrow> dict \<Rightarrow> builder \<Rightarrow> builder" where
  "enter_answers py_str n b =
     (case dget n ''answers'' of
        JArr xs \<Rightarrow> (let ts = map (str_of py_str) (take 16 xs) in
          put ''answers_truncated'' (JBool (length xs > 16 \<or> (\<exists>s \<in> set ts. py_len s > 255)))
            (put ''answers'' (JArr (map (\<lambda>s. JStr (py_take 255 s)) ts)) b))
      | _ \<Rightarrow> put ''answers_truncated'' (JBool False)
          (if dget (bd_payload b) ''rcode'' \<noteq> JNull then put ''answers'' (JArr []) b
           else unavailable ''answers'' ''MISSING'' ''no_response_observed'' b))"

definition enter_query_name :: "dict \<Rightarrow> builder \<Rightarrow> builder" where
  "enter_query_name n b =
     (case dget n ''query'' of
        JStr q \<Rightarrow> put ''query_truncated'' (JBool (py_len q > 255)) (put ''query'' (JStr (py_take 255 q)) b)
      | _ \<Rightarrow> put ''query_truncated'' (JBool False) (unavailable ''query'' ''MISSING'' ''zeek_field_absent'' b))"

definition dns_fields :: "(json \<Rightarrow> string) \<Rightarrow> dict \<Rightarrow> builder \<Rightarrow> builder" where
  "dns_fields py_str n b =
     (let b1 = enter_query_name n (enter_seconds n ''rtt'' ''rtt_s'' ''MISSING'' ''no_response_observed''
            (enter_count n ''trans_id'' ''trans_id'' 65535 ''MISSING'' ''zeek_field_absent'' (put ''proto'' (JStr (transport n)) b)));
          b2 = enter_text n ''rcode_name'' ''rcode_name'' RCODE_NAME 32 ''MISSING'' ''no_response_observed''
            (enter_count n ''rcode'' ''rcode'' 65535 ''MISSING'' ''no_response_observed''
            (enter_text n ''qtype_name'' ''qtype_name'' QTYPE_NAME 16 ''MISSING'' ''zeek_field_absent''
            (enter_count n ''qtype'' ''qtype'' 65535 ''MISSING'' ''zeek_field_absent''
            (enter_count n ''qclass'' ''qclass'' 65535 ''MISSING'' ''zeek_field_absent'' b1))));
          b3 = fold (\<lambda>f. enter_bool n f (lower f) ''MISSING'' ''zeek_field_absent'') [''AA'', ''TC'', ''RD'', ''RA''] b2
      in enter_bool n ''rejected'' ''rejected'' ''MISSING'' ''zeek_field_absent'' (enter_answers py_str n b3))"

definition dns_record :: "(json \<Rightarrow> string) \<Rightarrow> dict \<Rightarrow> string + string \<times> builder" where
  "dns_record py_str n =
     andthen (ends_of n builder_new) (\<lambda>(uid, b).
       if transport n \<in> {''udp'', ''tcp''} then Inr (uid, dns_fields py_str n b) else Inl ''dns proto must be udp or tcp'')"

definition enter_chain :: "dict \<Rightarrow> builder \<Rightarrow> builder" where
  "enter_chain n b =
     (case dget n ''cert_chain_fps'' of
        JArr xs \<Rightarrow> if length xs \<le> 32 then put ''cert_chain_len'' (JInt (int (length xs))) b
          else unavailable ''cert_chain_len'' ''UNKNOWN'' ''value_out_of_contract'' b
      | _ \<Rightarrow> unavailable ''cert_chain_len'' ''UNKNOWN''
          (if dget n ''version'' = JStr ''TLSv13'' then ''tls13_certificates_encrypted'' else ''no_certificate_observed'') b)"

definition ssl_fields :: "dict \<Rightarrow> builder \<Rightarrow> builder" where
  "ssl_fields n b =
     (let b1 = enter_text n ''server_name'' ''server_name'' any_text 255 ''MISSING'' ''not_sent_by_client''
            (enter_text n ''curve'' ''curve'' CURVE 64 ''UNKNOWN'' ''zeek_field_absent''
            (enter_text n ''cipher'' ''cipher'' CIPHER 128 ''MISSING'' ''handshake_incomplete''
            (enter_text n ''version'' ''version'' TLS_VERSION 16 ''MISSING'' ''handshake_incomplete'' b)));
          b2 = enter_text n ''ssl_history'' ''ssl_history'' SSL_HISTORY 64 ''MISSING'' ''zeek_field_absent''
            (enter_text n ''next_protocol'' ''next_protocol'' any_text 64 ''NOT_APPLICABLE'' ''alpn_not_negotiated''
            (enter_bool n ''established'' ''established'' ''MISSING'' ''zeek_field_absent''
            (enter_bool n ''resumed'' ''resumed'' ''MISSING'' ''zeek_field_absent'' b1)))
      in enter_bool n ''sni_matches_cert'' ''sni_matches_cert'' ''UNKNOWN'' ''zeek_field_absent''
           (enter_chain n (enter_text n ''validation_status'' ''validation_status'' any_text 128 ''UNKNOWN'' ''validation_not_configured'' b2)))"

definition ssl_record :: "dict \<Rightarrow> string + string \<times> builder" where
  "ssl_record n = andthen (ends_of n builder_new) (\<lambda>(uid, b). Inr (uid, ssl_fields n b))"

definition ip_in :: "json \<Rightarrow> json option" where
  "ip_in v = (if is_ip_value v then Some v else None)"

definition weird_uid :: "dict \<Rightarrow> string option" where
  "weird_uid n = (case dget n ''uid'' of JStr u \<Rightarrow> if UID u then Some u else None | _ \<Rightarrow> None)"

definition weird_fields :: "(json \<Rightarrow> string) \<Rightarrow> dict \<Rightarrow> string \<Rightarrow> builder" where
  "weird_fields py_str n name =
     (let b0 = (case weird_uid n of Some u \<Rightarrow> put ''uid'' (JStr u) builder_new
            | None \<Rightarrow> unavailable ''uid'' ''NOT_APPLICABLE'' ''not_connection_scoped'' builder_new);
          b1 = enter_count n ''id.resp_p'' ''dst_port'' 65535 ''NOT_APPLICABLE'' ''not_connection_scoped''
            (enter_count n ''id.orig_p'' ''src_port'' 65535 ''NOT_APPLICABLE'' ''not_connection_scoped''
            (enter (dget n ''id.resp_h'') ''dst_ip'' ip_in ''NOT_APPLICABLE'' ''not_connection_scoped''
            (enter (dget n ''id.orig_h'') ''src_ip'' ip_in ''NOT_APPLICABLE'' ''not_connection_scoped'' b0)));
          b2 = put ''name'' (JStr (weird_name name)) b1;
          b3 = enter (dget n ''addl'') ''addl'' (\<lambda>v. Some (JStr (py_take 256 (str_of py_str v)))) ''NOT_APPLICABLE'' ''no_additional_info'' b2
      in enter_text n ''source'' ''source'' any_text 64 ''NOT_APPLICABLE'' ''zeek_field_absent''
           (enter_text n ''peer'' ''peer'' any_text 64 ''MISSING'' ''zeek_field_absent''
             (enter_bool n ''notice'' ''notice'' ''MISSING'' ''zeek_field_absent'' b3)))"

definition weird_record :: "(json \<Rightarrow> string) \<Rightarrow> dict \<Rightarrow> string + string option \<times> builder" where
  "weird_record py_str n = (case dget n ''name'' of
     JStr name \<Rightarrow> if name = [] then Inl ''weird name missing'' else Inr (weird_uid n, weird_fields py_str n name)
   | _ \<Rightarrow> Inl ''weird name missing'')"

section \<open>normalize and envelope\<close>

record normalized =
  nz_type :: string
  nz_payload :: dict
  nz_avail :: dict
  nz_reasons :: dict
  nz_event_us :: int
  nz_emit_us :: int
  nz_uid :: "string option"
  nz_line :: string

text \<open>The snapshot fields of a flow update; the float 0.1 is compared exactly with the decimal.\<close>

definition snapshot_fields :: "dict \<Rightarrow> builder \<Rightarrow> string + builder" where
  "snapshot_fields n b =
     (case dget n ''snapshot_seq'' of
        JInt i \<Rightarrow>
          if \<not> (1 \<le> i \<and> i \<le> 1000000000) then Inl ''flow_update snapshot_seq missing or out of range''
          else (let iv = dget n ''snapshot_interval'' in
            if is_num iv \<and> 3602879701896397 / 36028797018963968 \<le> num_of iv \<and> num_of iv \<le> 3600
            then Inr (put ''snapshot_interval_s'' (JReal (num_of iv)) (put ''snapshot_seq'' (JInt i) b))
            else Inl ''flow_update snapshot_interval missing or out of range'')
      | _ \<Rightarrow> Inl ''flow_update snapshot_seq missing or out of range'')"

definition record_of_type :: "(json \<Rightarrow> string) \<Rightarrow> string \<Rightarrow> string \<Rightarrow> dict \<Rightarrow> (string + string option \<times> builder) option" where
  "record_of_type py_str coverage lt n =
     (let some_uid = (\<lambda>(uid, b). Inr (Some uid, b))
      in if lt = ''conn'' then map_option (\<lambda>r. andthen r some_uid) (conn_like py_str coverage n True)
         else if lt = ''flow_update''
         then map_option (\<lambda>r. andthen r (\<lambda>(uid, b). andthen (snapshot_fields n b) (\<lambda>b'. Inr (Some uid, b')))) (conn_like py_str coverage n False)
         else if lt = ''dns'' then Some (andthen (dns_record py_str n) some_uid)
         else if lt = ''ssl'' then Some (andthen (ssl_record n) some_uid)
         else Some (weird_record py_str n))"

text \<open>When a live sensor would have emitted the record: a connection at its end.\<close>

definition emit_of :: "string \<Rightarrow> dict \<Rightarrow> dict \<Rightarrow> int \<Rightarrow> int option" where
  "emit_of lt n payload ts =
     (if lt = ''conn'' \<and> dget payload ''duration_s'' \<noteq> JNull
      then map_option (\<lambda>d. ts + d) (zeek_ts_to_us (num_of (dget n ''duration''))) else Some ts)"

definition normalize :: "loader \<Rightarrow> (json \<Rightarrow> string) \<Rightarrow> string \<Rightarrow> string \<Rightarrow> string \<Rightarrow> (string + normalized) option" where
  "normalize loads py_str coverage lt line =
     (if lt \<notin> set LOG_NAMES then Some (Inl (''unsupported log type '' @ lt))
      else (case parse_line loads line of None \<Rightarrow> None | Some (Inl e) \<Rightarrow> Some (Inl e)
      | Some (Inr n) \<Rightarrow> (case ts_of n of None \<Rightarrow> None | Some (Inl e) \<Rightarrow> Some (Inl e)
      | Some (Inr ts) \<Rightarrow> (case record_of_type py_str coverage lt n of None \<Rightarrow> None | Some (Inl e) \<Rightarrow> Some (Inl e)
      | Some (Inr (uid, b)) \<Rightarrow>
          map_option (\<lambda>emit. Inr \<lparr>nz_type = lt, nz_payload = bd_payload b, nz_avail = bd_avail b, nz_reasons = bd_reasons b,
             nz_event_us = ts, nz_emit_us = emit, nz_uid = uid, nz_line = line\<rparr>) (emit_of lt n (bd_payload b) ts)))))"

text \<open>\<^verbatim>\<open>emit_time_us\<close>: the ordering key of a replay.\<close>

definition emit_time :: "loader \<Rightarrow> string \<Rightarrow> string \<Rightarrow> (string + int) option" where
  "emit_time loads lt line =
     (case parse_line loads line of None \<Rightarrow> None | Some (Inl e) \<Rightarrow> Some (Inl e)
      | Some (Inr n) \<Rightarrow> (case ts_of n of None \<Rightarrow> None | Some (Inl e) \<Rightarrow> Some (Inl e)
        | Some (Inr ts) \<Rightarrow> (let d = dget n ''duration'' in
            if lt = ''conn'' \<and> is_num d \<and> 0 \<le> num_of d
            then map_option (\<lambda>x. Inr (ts + x)) (zeek_ts_to_us (num_of d)) else Some (Inr ts))))"

text \<open>\<open>se_dumps\<close> gives \<open>None\<close> for a document with a lone surrogate, which \<^verbatim>\<open>encode\<close> refuses
  (\<^verbatim>\<open>UnicodeEncodeError\<close>); the JSON reader accepts one written as an escape.\<close>

record send_env =
  se_loads :: loader
  se_dumps :: "json \<Rightarrow> bytes option"
  se_str :: "json \<Rightarrow> string"

definition envelope_dict ::
  "string \<Rightarrow> normalized \<Rightarrow> string \<Rightarrow> string \<Rightarrow> int \<Rightarrow> string option \<Rightarrow> int \<Rightarrow> string \<Rightarrow> string \<Rightarrow> string \<Rightarrow> bool \<Rightarrow> dict" where
  "envelope_dict coverage r sensor boot sq rid offset capture event_time emitted keep =
     (let sha = hex_of (sha256 (utf8 (nz_line r)))
      in [(''event_schema_version'', JStr ''1.0.0''), (''event_id'', JStr (event_id sensor boot sq sha)), (''sensor_id'', JStr sensor),
          (''sensor_boot_id'', JStr boot), (''sequence'', JInt sq), (''replay_run_id'', of_opt_str rid),
          (''replay_time_offset_us'', JInt offset), (''log_type'', JStr (nz_type r)), (''event_time'', JStr event_time),
          (''sensor_emitted_at'', JStr emitted), (''capture_mode'', JStr capture), (''observation_coverage'', JStr coverage),
          (''original_record_sha256'', JStr sha), (''original_record'', if keep then JStr (nz_line r) else JNull),
          (''original_record_truncated'', JBool (\<not> keep)), (''availability'', JObj (nz_avail r)),
          (''availability_reasons'', JObj (nz_reasons r)), (''payload'', JObj (nz_payload r))])"

text \<open>\<open>Inl\<close>: the record is too large even without the original; \<open>None\<close>: a time \<^verbatim>\<open>datetime\<close> cannot
  write, or a document that cannot be encoded.\<close>

definition envelope ::
  "send_env \<Rightarrow> string \<Rightarrow> normalized \<Rightarrow> string \<Rightarrow> string \<Rightarrow> int \<Rightarrow> string option \<Rightarrow> int \<Rightarrow> string \<Rightarrow> int \<Rightarrow> (nat + bytes) option" where
  "envelope E coverage r sensor boot sq rid offset capture now_us =
     (case (format_us (nz_event_us r), format_us now_us) of
        (Some et, Some em) \<Rightarrow>
          (let fits = (py_len (nz_line r) \<le> ORIGINAL_MAX_CHARS);
               doc = (\<lambda>keep. se_dumps E (JObj (envelope_dict coverage r sensor boot sq rid offset capture et em keep)))
           in Option.bind (doc fits) (\<lambda>first.
              Option.bind (if length first > MAX_RECORD_BYTES \<and> fits then doc False else Some first) (\<lambda>out.
              Some (if length out > MAX_RECORD_BYTES then Inl (length out) else Inr out))))
      | _ \<Rightarrow> None)"

section \<open>Every null has a state\<close>

definition keys :: "builder \<Rightarrow> string set" where
  "keys b = fst ` set (bd_payload b)"

definition builder_ok :: "builder \<Rightarrow> bool" where
  "builder_ok b \<longleftrightarrow> distinct (map fst (bd_payload b))
     \<and> (\<forall>k. map_of (bd_avail b) k \<noteq> None \<longleftrightarrow> map_of (bd_payload b) k = Some JNull)
     \<and> (\<forall>k. map_of (bd_reasons b) k \<noteq> None \<longrightarrow> map_of (bd_avail b) k \<noteq> None)"

lemma keys_new [simp]: "keys builder_new = {}" "builder_ok builder_new"
  by (simp_all add: keys_def builder_new_def builder_ok_def)

lemma keys_put [simp]: "keys (put f v b) = insert f (keys b)"
  by (auto simp: keys_def put_def keys_od_set set_map [symmetric] simp del: set_map)

lemma keys_unavailable [simp]: "keys (unavailable f st why b) = insert f (keys b)"
  by (auto simp: keys_def unavailable_def keys_od_set set_map [symmetric] simp del: set_map)

lemma keys_enter [simp]: "keys (enter v f conv st why b) = insert f (keys b)"
  by (simp add: enter_def split: option.splits)

lemma put_ok [simp]: "builder_ok b \<Longrightarrow> f \<notin> keys b \<Longrightarrow> v \<noteq> JNull \<Longrightarrow> builder_ok (put f v b)"
  by (auto simp: builder_ok_def put_def keys_def map_of_eq_None_iff [symmetric] simp del: not_None_eq)

lemma unavailable_ok [simp]: "builder_ok b \<Longrightarrow> builder_ok (unavailable f st why b)"
  by (auto simp: builder_ok_def unavailable_def)

definition not_null :: "(json \<Rightarrow> json option) \<Rightarrow> bool" where
  "not_null conv \<longleftrightarrow> (\<forall>v w. conv v = Some w \<longrightarrow> w \<noteq> JNull)"

lemma enter_ok [simp]: "builder_ok b \<Longrightarrow> f \<notin> keys b \<Longrightarrow> not_null conv \<Longrightarrow> builder_ok (enter v f conv st why b)"
  by (auto simp: enter_def not_null_def split: option.splits)

lemma conv_not_null [simp]: "not_null (int_in hi)" "not_null seconds_in" "not_null bool_in" "not_null (text_in p m)" "not_null state_in"
  "not_null ip_in" "not_null (\<lambda>v. Some (JStr (g v)))"
  by (auto simp: not_null_def int_in_def seconds_in_def bool_in_def text_in_def state_in_def CONN_STATES_def ip_in_def split: json.splits if_splits)

lemmas enter_defs = enter_count_def enter_port_def enter_seconds_def enter_bool_def enter_text_def

lemma ip_value_not_null [simp]: "is_ip_value v \<Longrightarrow> v \<noteq> JNull"
  by auto

lemma ends_ok: "ends_of n b = Inr (uid, b') \<Longrightarrow> builder_ok b \<Longrightarrow> keys b = {}
    \<Longrightarrow> builder_ok b' \<and> keys b' = {''uid'', ''src_ip'', ''src_port'', ''dst_ip'', ''dst_port''}"
  by (auto simp: ends_of_def andthen_Inr enter_defs required_ip_def split: if_splits)

lemma conn_common_ok:
  "builder_ok b \<Longrightarrow> keys b = {''uid'', ''src_ip'', ''src_port'', ''dst_ip'', ''dst_port''} \<Longrightarrow> builder_ok (conn_common py_str n b)
    \<and> keys (conn_common py_str n b) = {''uid'', ''src_ip'', ''src_port'', ''dst_ip'', ''dst_port'', ''proto'', ''service'', ''duration_s'', ''history''} \<union> set COUNTERS"
  by (auto simp: conn_common_def enter_defs COUNTERS_def)

lemma conn_terminal_ok:
  "conn_terminal n b = Some b' \<Longrightarrow> builder_ok b \<Longrightarrow> keys b \<inter> {''missed_bytes'', ''conn_state'', ''local_orig'', ''local_resp''} = {} \<Longrightarrow> builder_ok b' \<and> keys b \<subseteq> keys b'"
  by (auto simp: conn_terminal_def enter_defs split: if_splits)

lemma map_of_od_pop [simp]: "map_of (od_pop k d) = (map_of d)(k := None)"
  unfolding od_pop_def by (induction d) auto

lemma hide_ok [simp]: "builder_ok b \<Longrightarrow> builder_ok (hide f b)"
  by (auto simp: builder_ok_def hide_def unavailable_def)

lemma hides_ok: "builder_ok b \<Longrightarrow> builder_ok (fold hide fs b)"
  by (induction fs arbitrary: b) simp_all

lemma conn_like_ok: "conn_like py_str coverage n terminal = Some (Inr (uid, b)) \<Longrightarrow> builder_ok b"
proof -
  assume a: "conn_like py_str coverage n terminal = Some (Inr (uid, b))"
  obtain b0 where b0: "ends_of n builder_new = Inr (uid, b0)"
    using a by (auto simp: conn_like_def split: sum.splits)
  let ?c = "conn_common py_str n b0"
  have c: "builder_ok ?c" "keys ?c \<inter> {''missed_bytes'', ''conn_state'', ''local_orig'', ''local_resp''} = {}"
    using ends_ok [OF b0] conn_common_ok by (auto simp: COUNTERS_def)
  obtain b1 where "builder_ok b1" "b = fold hide (hidden_fields coverage) b1"
    using a b0 c conn_terminal_ok [OF _ c] by (auto simp: conn_like_def split: if_splits)
  then show ?thesis by (simp add: hides_ok)
qed

lemma enter_answers_ok: "builder_ok b \<Longrightarrow> keys b \<inter> {''answers'', ''answers_truncated''} = {} \<Longrightarrow> builder_ok (enter_answers py_str n b)
    \<and> keys (enter_answers py_str n b) = keys b \<union> {''answers'', ''answers_truncated''}"
  by (auto simp: enter_answers_def Let_def split: json.splits)

lemma enter_query_name_ok: "builder_ok b \<Longrightarrow> keys b \<inter> {''query'', ''query_truncated''} = {} \<Longrightarrow> builder_ok (enter_query_name n b)
    \<and> keys (enter_query_name n b) = keys b \<union> {''query'', ''query_truncated''}"
  by (auto simp: enter_query_name_def split: json.splits)

lemma lower_flags [simp]: "lower ''AA'' = ''aa''" "lower ''TC'' = ''tc''" "lower ''RD'' = ''rd''" "lower ''RA'' = ''ra''"
  by code_simp+

lemma dns_fields_ok:
  assumes "builder_ok b" "keys b = {''uid'', ''src_ip'', ''src_port'', ''dst_ip'', ''dst_port''}"
  shows "builder_ok (dns_fields py_str n b)"
proof -
  define b0 where "b0 = enter_seconds n ''rtt'' ''rtt_s'' ''MISSING'' ''no_response_observed''
            (enter_count n ''trans_id'' ''trans_id'' 65535 ''MISSING'' ''zeek_field_absent'' (put ''proto'' (JStr (transport n)) b))"
  define b1 where "b1 = enter_query_name n b0"
  have "builder_ok b0" "keys b0 = keys b \<union> {''proto'', ''trans_id'', ''rtt_s''}" using assms by (auto simp: b0_def enter_defs)
  then have b1: "builder_ok b1" "keys b1 = keys b \<union> {''proto'', ''trans_id'', ''rtt_s'', ''query'', ''query_truncated''}"
    using enter_query_name_ok [of b0] assms(2) by (auto simp: b1_def)
  define b2 where "b2 = enter_text n ''rcode_name'' ''rcode_name'' RCODE_NAME 32 ''MISSING'' ''no_response_observed''
            (enter_count n ''rcode'' ''rcode'' 65535 ''MISSING'' ''no_response_observed''
            (enter_text n ''qtype_name'' ''qtype_name'' QTYPE_NAME 16 ''MISSING'' ''zeek_field_absent''
            (enter_count n ''qtype'' ''qtype'' 65535 ''MISSING'' ''zeek_field_absent''
            (enter_count n ''qclass'' ''qclass'' 65535 ''MISSING'' ''zeek_field_absent'' b1))))"
  have b2: "builder_ok b2" "keys b2 = keys b1 \<union> {''qclass'', ''qtype'', ''qtype_name'', ''rcode'', ''rcode_name''}"
    using b1 assms(2) by (auto simp: b2_def enter_defs)
  define b3 where "b3 = fold (\<lambda>f. enter_bool n f (lower f) ''MISSING'' ''zeek_field_absent'') [''AA'', ''TC'', ''RD'', ''RA''] b2"
  have b3: "builder_ok b3" "keys b3 = keys b2 \<union> {''aa'', ''tc'', ''rd'', ''ra''}"
    using b1 b2 assms(2) by (auto simp: b3_def enter_bool_def)
  have "builder_ok (enter_answers py_str n b3)" "keys (enter_answers py_str n b3) = keys b3 \<union> {''answers'', ''answers_truncated''}"
    using enter_answers_ok [OF b3(1)] b1(2) b2(2) b3(2) assms(2) by auto
  then show ?thesis
    using b1(2) b2(2) b3(2) assms(2) unfolding dns_fields_def Let_def b0_def [symmetric] b1_def [symmetric] b2_def [symmetric] b3_def [symmetric]
    by (simp add: enter_bool_def)
qed

lemma enter_chain_ok: "builder_ok b \<Longrightarrow> ''cert_chain_len'' \<notin> keys b \<Longrightarrow> builder_ok (enter_chain n b) \<and> keys (enter_chain n b) = insert ''cert_chain_len'' (keys b)"
  by (auto simp: enter_chain_def split: json.splits)

lemma ssl_fields_ok:
  assumes "builder_ok b" "keys b = {''uid'', ''src_ip'', ''src_port'', ''dst_ip'', ''dst_port''}"
  shows "builder_ok (ssl_fields n b)"
  using assms unfolding ssl_fields_def Let_def by (simp add: enter_defs enter_chain_ok)

lemma weird_fields_ok: "builder_ok (weird_fields py_str n name)"
  unfolding weird_fields_def Let_def by (simp add: enter_defs split: option.splits)

lemma snapshot_fields_ok: "snapshot_fields n b = Inr b' \<Longrightarrow> builder_ok b \<Longrightarrow> keys b \<inter> {''snapshot_seq'', ''snapshot_interval_s''} = {} \<Longrightarrow> builder_ok b'"
  by (auto simp: snapshot_fields_def Let_def split: json.splits if_splits)
lemma dns_record_ok: "dns_record py_str n = Inr (uid, b) \<Longrightarrow> builder_ok b"
proof -
  assume "dns_record py_str n = Inr (uid, b)"
  then obtain b0 where "ends_of n builder_new = Inr (uid, b0)" "b = dns_fields py_str n b0" by (auto simp: dns_record_def andthen_Inr split: if_splits)
  then show ?thesis using ends_ok [of n builder_new uid b0] dns_fields_ok by simp
qed

lemma ssl_record_ok: "ssl_record n = Inr (uid, b) \<Longrightarrow> builder_ok b"
proof -
  assume "ssl_record n = Inr (uid, b)"
  then obtain b0 where "ends_of n builder_new = Inr (uid, b0)" "b = ssl_fields n b0" by (auto simp: ssl_record_def andthen_Inr)
  then show ?thesis using ends_ok [of n builder_new uid b0] ssl_fields_ok by simp
qed

lemma keys_hide [simp]: "keys (hide f b) = insert f (keys b)"
  unfolding hide_def keys_unavailable by (simp add: keys_def)

lemma keys_hides: "keys (fold hide fs b) = set fs \<union> keys b"
  by (induction fs arbitrary: b) auto

lemma keys_conn: "conn_like py_str coverage n False = Some (Inr (uid, b)) \<Longrightarrow> keys b \<inter> {''snapshot_seq'', ''snapshot_interval_s''} = {}"
  using ends_ok [of n builder_new] conn_common_ok
  by (fastforce simp: conn_like_def keys_hides hidden_fields_def COUNTERS_def split: sum.splits if_splits)

lemma record_of_type_ok:
  assumes "record_of_type py_str coverage lt n = Some (Inr (uid, b))" shows "builder_ok b"
proof -
  consider "lt = ''conn''" | "lt = ''flow_update''" | "lt = ''dns''" | "lt = ''ssl''" | "lt \<notin> {''conn'', ''flow_update'', ''dns'', ''ssl''}" by blast
  then show ?thesis
  proof cases
    case 1
    then obtain u where "conn_like py_str coverage n True = Some (Inr (u, b))" using assms by (auto simp: record_of_type_def Let_def andthen_Inr)
    then show ?thesis by (rule conn_like_ok)
  next
    case 2
    then obtain u b0 where c: "conn_like py_str coverage n False = Some (Inr (u, b0))" "snapshot_fields n b0 = Inr b"
      using assms by (auto simp: record_of_type_def Let_def andthen_Inr)
    show ?thesis by (rule snapshot_fields_ok [OF c(2) conn_like_ok [OF c(1)] keys_conn [OF c(1)]])
  next
    case 3
    then obtain u where "dns_record py_str n = Inr (u, b)" using assms by (auto simp: record_of_type_def Let_def andthen_Inr)
    then show ?thesis by (rule dns_record_ok)
  next
    case 4
    then obtain u where "ssl_record n = Inr (u, b)" using assms by (auto simp: record_of_type_def Let_def andthen_Inr)
    then show ?thesis by (rule ssl_record_ok)
  next
    case 5
    then show ?thesis using assms weird_fields_ok by (auto simp: record_of_type_def Let_def weird_record_def split: json.splits if_splits)
  qed
qed

lemma builder_ok_rules: "builder_ok b \<Longrightarrow> availability_errors (bd_payload b) (bd_avail b) (bd_reasons b) = []"
proof -
  assume b: "builder_ok b"
  then have d: "distinct (map fst (bd_payload b))" by (simp add: builder_ok_def)
  have "dget (bd_payload b) k = JNull \<longleftrightarrow> map_of (bd_payload b) k = Some JNull" if "has_key (bd_payload b) k" for k
    using that by (auto simp: dget_def has_key_map_of)
  then show ?thesis using b unfolding availability_exact_iff [OF d] by (auto simp: builder_ok_def has_key_map_of)
qed

lemma parse_line_Inr: "parse_line loads line = Some (Inr n) \<Longrightarrow> loads line = Inr (JObj n)"
  by (auto simp: parse_line_def split: sum.splits loads_error.splits elim!: as_obj.elims)

lemma normalize_InrD:
  assumes "normalize loads py_str coverage lt line = Some (Inr r)"
  obtains n uid b where "lt \<in> set LOG_NAMES" "parse_line loads line = Some (Inr n)" "ts_of n = Some (Inr (nz_event_us r))"
    "record_of_type py_str coverage lt n = Some (Inr (uid, b))" "nz_payload r = bd_payload b" "nz_avail r = bd_avail b"
    "nz_reasons r = bd_reasons b" "nz_type r = lt" "nz_line r = line" "emit_of lt n (bd_payload b) (nz_event_us r) = Some (nz_emit_us r)"
  using assms by (auto simp: normalize_def split: if_splits sum.splits option.splits)

lemma normalize_rules: "normalize loads py_str coverage lt line = Some (Inr r) \<Longrightarrow> availability_errors (nz_payload r) (nz_avail r) (nz_reasons r) = []"
  by (elim normalize_InrD) (simp add: record_of_type_ok builder_ok_rules)

text \<open>
  C12: Whatever line comes in, an accepted record keeps the availability contract the receiver and the consumers
  check: a field is null exactly when it has an availability state, every state names a field of the record,
  and every reason belongs to a state.
\<close>

theorem normalized_availability:
  assumes "normalize loads py_str coverage lt line = Some (Inr r)"
  shows "availability_errors (nz_payload r) (nz_avail r) (nz_reasons r) = []"
  using assms by (rule normalize_rules)

definition demo_conn :: dict where
  "demo_conn = [(''ts'', JReal (1753000000 + 1 / 8)), (''uid'', JStr ''C1''), (''id.orig_h'', JStr ''10.0.0.1''), (''id.orig_p'', JInt 40000),
     (''id.resp_h'', JStr ''192.0.2.1''), (''id.resp_p'', JInt 443), (''proto'', JStr ''tcp''), (''duration'', JReal (3 / 2)),
     (''orig_bytes'', JInt 100), (''resp_bytes'', JInt 0), (''conn_state'', JStr ''SF'')]"

lemma demo_ips [simp]: "is_ip ''10.0.0.1''" "is_ip ''192.0.2.1''"
  by code_simp+

lemma demo_normalized:
  "\<exists>r. normalize (\<lambda>_. Inr (JObj demo_conn)) (\<lambda>_. []) ''originator_only'' ''conn'' [] = Some (Inr r)"
  by (simp add: normalize_def LOG_NAMES_def parse_line_def ts_of_def demo_conn_def dget_def zeek_ts_to_us_def record_of_type_def conn_like_def
      ends_of_def required_uid_def UID_def fullmatch_def alnum_or_def is_letter_def is_dec_def required_ip_def demo_ips conn_terminal_def emit_of_def Let_def)

theorem normalized_availability_witness:
  "\<exists>r. normalize (\<lambda>_. Inr (JObj demo_conn)) (\<lambda>_. []) ''originator_only'' ''conn'' [] = Some (Inr r)
     \<and> availability_errors (nz_payload r) (nz_avail r) (nz_reasons r) = []"
  using demo_normalized normalized_availability by blast

section \<open>Counters are copied or null\<close>

lemma payload_put [simp]: "map_of (bd_payload (put f v b)) = (map_of (bd_payload b))(f \<mapsto> v)"
  by (simp add: put_def)

lemma payload_unavailable [simp]: "map_of (bd_payload (unavailable f st why b)) = (map_of (bd_payload b))(f \<mapsto> JNull)"
  by (simp add: unavailable_def)

definition entered :: "json \<Rightarrow> (json \<Rightarrow> json option) \<Rightarrow> json" where
  "entered v conv = (if v = JNull then JNull else case conv v of Some w \<Rightarrow> w | None \<Rightarrow> JNull)"

lemma payload_enter [simp]: "map_of (bd_payload (enter v f conv st why b)) = (map_of (bd_payload b))(f \<mapsto> entered v conv)"
  by (auto simp: enter_def entered_def split: option.splits)

lemma payload_hide [simp]: "map_of (bd_payload (hide f b)) = (map_of (bd_payload b))(f \<mapsto> JNull)"
  by (simp add: hide_def)

lemma payload_hides: "map_of (bd_payload (fold hide fs b)) k = (if k \<in> set fs then Some JNull else map_of (bd_payload b) k)"
  by (induction fs arbitrary: b) auto

lemma hide_states [simp]: "map_of (bd_reasons (hide f b)) = (map_of (bd_reasons b))(f \<mapsto> JStr ''direction_not_observed'')"
  "map_of (bd_avail (hide f b)) = (map_of (bd_avail b))(f \<mapsto> JStr ''UNKNOWN'')"
  by (simp_all add: hide_def unavailable_def)

lemma reasons_hides: "k \<in> set fs \<Longrightarrow> map_of (bd_reasons (fold hide fs b)) k = Some (JStr ''direction_not_observed'')
    \<and> map_of (bd_avail (fold hide fs b)) k = Some (JStr ''UNKNOWN'')"
proof (induction fs arbitrary: b)
  case (Cons f fs)
  have keep: "map_of (bd_reasons (fold hide gs b)) k = map_of (bd_reasons b) k \<and> map_of (bd_avail (fold hide gs b)) k = map_of (bd_avail b) k"
    if "k \<notin> set gs" for gs b
    using that by (induction gs arbitrary: b) auto
  show ?case using Cons keep [of fs "hide f b"] by (cases "k \<in> set fs") auto
qed simp

lemma conn_counter:
  assumes "conn_like py_str coverage n terminal = Some (Inr (uid, b))" "f \<in> set COUNTERS"
  shows "map_of (bd_payload b) f = Some (if f \<in> set (hidden_fields coverage) then JNull else entered (dget n f) (int_in MAX_SAFE))"
proof -
  obtain b0 b1 where b: "b = fold hide (hidden_fields coverage) b1"
      "(if terminal then conn_terminal n (conn_common py_str n b0) else Some (conn_common py_str n b0)) = Some b1"
    using assms(1) by (auto simp: conn_like_def split: sum.splits)
  have t: "map_of (bd_payload b1) f = map_of (bd_payload (conn_common py_str n b0)) f"
    using b(2) assms(2) by (auto simp: conn_terminal_def enter_defs COUNTERS_def split: if_splits)
  show ?thesis using assms(2) unfolding b(1) payload_hides t by (auto simp: conn_common_def enter_defs COUNTERS_def)
qed

text \<open>
  C13: A connection's counters are never invented. Each is the integer of the Zeek record when that is in range and
  null otherwise, and the counters of a direction the sensor does not observe are null with the state UNKNOWN and the
  reason direction_not_observed, whatever the record says.
\<close>

theorem counters_copied_or_null:
  assumes "normalize loads py_str coverage lt line = Some (Inr r)" and "lt = ''conn'' \<or> lt = ''flow_update''" and "f \<in> set COUNTERS"
  shows "\<exists>n. loads line = Inr (JObj n)
    \<and> (if f \<in> set (hidden_fields coverage)
       then map_of (nz_payload r) f = Some JNull \<and> map_of (nz_avail r) f = Some (JStr ''UNKNOWN'')
         \<and> map_of (nz_reasons r) f = Some (JStr ''direction_not_observed'')
       else if \<exists>i. dget n f = JInt i \<and> 0 \<le> i \<and> i \<le> MAX_SAFE then map_of (nz_payload r) f = Some (dget n f)
       else map_of (nz_payload r) f = Some JNull)"
proof -
  obtain n uid b where n: "parse_line loads line = Some (Inr n)" "record_of_type py_str coverage lt n = Some (Inr (uid, b))"
      "nz_payload r = bd_payload b" "nz_avail r = bd_avail b" "nz_reasons r = bd_reasons b"
    using assms(1) by (elim normalize_InrD) blast
  have l: "loads line = Inr (JObj n)" by (rule parse_line_Inr [OF n(1)])
  obtain u b0 tm where c: "conn_like py_str coverage n tm = Some (Inr (u, b0))"
      "map_of (bd_payload b) f = map_of (bd_payload b0) f" "map_of (bd_avail b) f = map_of (bd_avail b0) f" "map_of (bd_reasons b) f = map_of (bd_reasons b0) f"
  proof (cases "lt = ''conn''")
    case True
    then show ?thesis using that [of True u b for u] n(2) by (auto simp: record_of_type_def Let_def andthen_Inr)
  next
    case False
    then obtain u b0 where "conn_like py_str coverage n False = Some (Inr (u, b0))" "snapshot_fields n b0 = Inr b"
      using n(2) assms(2) by (auto simp: record_of_type_def Let_def andthen_Inr)
    then show ?thesis using that [of False u b0] assms(3)
      by (auto simp: snapshot_fields_def Let_def COUNTERS_def put_def split: json.splits if_splits)
  qed
  have h: "\<exists>b1. b0 = fold hide (hidden_fields coverage) b1" using c(1) by (auto simp: conn_like_def split: sum.splits)
  have e: "entered v (int_in MAX_SAFE) = (if \<exists>i. v = JInt i \<and> 0 \<le> i \<and> i \<le> MAX_SAFE then v else JNull)" for v
    by (auto simp: entered_def int_in_def split: json.splits)
  show ?thesis
    using l conn_counter [OF c(1) assms(3)] h reasons_hides [of f "hidden_fields coverage"] c(2-4) unfolding n(3-5) e by auto
qed

theorem counters_copied_or_null_witness:
  "\<exists>r. normalize (\<lambda>_. Inr (JObj demo_conn)) (\<lambda>_. []) ''originator_only'' ''conn'' [] = Some (Inr r)
     \<and> map_of (nz_payload r) ''resp_bytes'' = Some JNull \<and> map_of (nz_payload r) ''orig_bytes'' = Some (JInt 100)"
proof -
  obtain r where r: "normalize (\<lambda>_. Inr (JObj demo_conn)) (\<lambda>_. []) ''originator_only'' ''conn'' [] = Some (Inr r)" using demo_normalized by blast
  show ?thesis
    using counters_copied_or_null [OF r, of "''resp_bytes''"] counters_copied_or_null [OF r, of "''orig_bytes''"] r
    by (auto simp: COUNTERS_def hidden_fields_def demo_conn_def MAX_SAFE_def)
qed

section \<open>What escapes\<close>

text \<open>The times \<^verbatim>\<open>datetime\<close> can write: the years 1 to 9999.\<close>

definition writable :: "int \<Rightarrow> bool" where
  "writable t \<longleftrightarrow> - 62135596800000000 \<le> t \<and> t < 253402300800000000"

lemma format_us_writable: "format_us t = None \<longleftrightarrow> \<not> writable t"
proof -
  define q m where "q = t div 86400000000" and "m = t mod 86400000000"
  have "t = q * 86400000000 + m" "0 \<le> m" "m < 86400000000" by (simp_all add: q_def m_def)
  then have "q + 719163 < 1 \<longleftrightarrow> t < - 62135596800000000" "q + 719163 > 3652059 \<longleftrightarrow> 253402300800000000 \<le> t" by linarith+
  then have "t div 86400000000 + int EPOCH_ORDINAL < 1 \<longleftrightarrow> t < - 62135596800000000"
    "t div 86400000000 + int EPOCH_ORDINAL > int MAX_ORDINAL \<longleftrightarrow> 253402300800000000 \<le> t"
    by (simp_all add: EPOCH_ORDINAL_def MAX_ORDINAL_def q_def)
  then show ?thesis by (auto simp: format_us_def writable_def Let_def split: prod.splits)
qed

definition identified :: "dict \<Rightarrow> bool" where
  "identified n \<longleftrightarrow> (\<exists>u. dget n ''uid'' = JStr u \<and> UID u) \<and> is_ip_value (dget n ''id.orig_h'') \<and> is_ip_value (dget n ''id.resp_h'')"

lemma ends_identified: "(\<exists>p. ends_of n builder_new = Inr p) \<longleftrightarrow> identified n"
  by (auto simp: ends_of_def identified_def required_uid_def required_ip_def andthen_Inr split: json.splits)

lemma conn_like_raises: "conn_like py_str coverage n True = None \<longleftrightarrow> (\<exists>p. ends_of n builder_new = Inr p) \<and> \<not> hashable (dget n ''conn_state'')"
  by (auto simp: conn_like_def conn_terminal_def split: sum.splits)

lemma conn_duration:
  assumes "conn_like py_str coverage n True = Some (Inr (uid, b))"
  shows "dget (bd_payload b) ''duration_s'' = entered (dget n ''duration'') seconds_in"
proof -
  obtain b0 b1 where b: "b = fold hide (hidden_fields coverage) b1" "conn_terminal n (conn_common py_str n b0) = Some b1"
    using assms by (auto simp: conn_like_def split: sum.splits)
  have "map_of (bd_payload b1) ''duration_s'' = map_of (bd_payload (conn_common py_str n b0)) ''duration_s''"
    using b(2) by (auto simp: conn_terminal_def enter_defs split: if_splits)
  then show ?thesis unfolding b(1) dget_def [of "bd_payload (fold hide (hidden_fields coverage) b1)"] payload_hides
    by (simp add: hidden_fields_def conn_common_def enter_defs COUNTERS_def)
qed

lemma duration_representable: "entered v seconds_in \<noteq> JNull \<Longrightarrow> zeek_ts_to_us (num_of v) \<noteq> None"
proof -
  assume "entered v seconds_in \<noteq> JNull"
  then have "0 \<le> num_of v" "num_of v \<le> 31536000" by (auto simp: entered_def seconds_in_def split: if_splits)
  moreover from this have "\<lfloor>num_of v * 1000000 + 1 / 2\<rfloor> < 10 ^ 28" by (simp add: floor_less_iff)
  moreover have "0 \<le> \<lfloor>num_of v * 1000000 + 1 / 2\<rfloor>" using \<open>0 \<le> num_of v\<close> by simp
  ultimately show ?thesis by (simp add: zeek_ts_to_us_def Let_def)
qed

lemma record_of_type_raises: "record_of_type py_str coverage lt n = None \<longleftrightarrow> lt = ''conn'' \<and> conn_like py_str coverage n True = None"
  by (auto simp: record_of_type_def conn_like_def Let_def split: sum.splits)

lemma emit_of_total:
  assumes "record_of_type py_str coverage lt n = Some (Inr (uid, b))" shows "emit_of lt n (bd_payload b) ts \<noteq> None"
proof (cases "lt = ''conn''")
  case True
  then obtain u where "conn_like py_str coverage n True = Some (Inr (u, b))" using assms by (auto simp: record_of_type_def Let_def andthen_Inr)
  then show ?thesis using conn_duration duration_representable by (auto simp: emit_of_def)
qed (simp add: emit_of_def)

lemma envelope_raises:
  "envelope E coverage r sensor boot sq rid offset capture now_us = None \<longleftrightarrow>
       (writable (nz_event_us r) \<and> writable now_us \<longrightarrow>
         (\<exists>et em fits. format_us (nz_event_us r) = Some et \<and> format_us now_us = Some em \<and> fits = (py_len (nz_line r) \<le> ORIGINAL_MAX_CHARS)
           \<and> (se_dumps E (JObj (envelope_dict coverage r sensor boot sq rid offset capture et em fits)) = None
              \<or> fits \<and> (\<exists>b. se_dumps E (JObj (envelope_dict coverage r sensor boot sq rid offset capture et em True)) = Some b
                  \<and> MAX_RECORD_BYTES < length b)
                \<and> se_dumps E (JObj (envelope_dict coverage r sensor boot sq rid offset capture et em False)) = None)))"
proof (cases "writable (nz_event_us r) \<and> writable now_us")
  case True
  then obtain et em where t: "format_us (nz_event_us r) = Some et" "format_us now_us = Some em"
    using format_us_writable not_None_eq by metis
  then show ?thesis using True by (auto simp: envelope_def Let_def bind_eq_None_conv split: if_splits)
next
  case False
  then have "format_us (nz_event_us r) = None \<or> format_us now_us = None" by (simp add: format_us_writable)
  then have "envelope E coverage r sensor boot sq rid offset capture now_us = None" by (auto simp: envelope_def split: option.splits)
  then show ?thesis using False by blast
qed

text \<open>
  C36: Which records stop the sender: exactly these exceptions are neither a rejection nor RecordTooLarge and escape
  to callers that do not catch them. From \<^verbatim>\<open>normalize\<close>: a number in the line has an exponent no decimal
  holds; the time has more digits than a decimal can round; or, for a connection with valid identity and
  addresses, the connection state is a list or an object, which is looked up in a set. From \<^verbatim>\<open>envelope\<close>: the
  time of the record or of the clock lies outside the years 1 to 9999, or the document, or the one without the
  original line that is written when the first is too large, cannot be encoded.
\<close>

theorem escaping_exceptions:
  "(normalize loads py_str coverage lt line = None \<longleftrightarrow> lt \<in> set LOG_NAMES \<and>
      (loads line = Inl NoDecimal \<or> (\<exists>n. loads line = Inr (JObj n) \<and> is_num (dget n ''ts'') \<and>
        (zeek_ts_to_us (num_of (dget n ''ts'')) = None \<or> lt = ''conn'' \<and> identified n \<and> \<not> hashable (dget n ''conn_state'')))))
   \<and> (envelope E coverage r sensor boot sq rid offset capture now_us = None \<longleftrightarrow>
       (writable (nz_event_us r) \<and> writable now_us \<longrightarrow>
         (\<exists>et em fits. format_us (nz_event_us r) = Some et \<and> format_us now_us = Some em \<and> fits = (py_len (nz_line r) \<le> ORIGINAL_MAX_CHARS)
           \<and> (se_dumps E (JObj (envelope_dict coverage r sensor boot sq rid offset capture et em fits)) = None
              \<or> fits \<and> (\<exists>b. se_dumps E (JObj (envelope_dict coverage r sensor boot sq rid offset capture et em True)) = Some b
                  \<and> MAX_RECORD_BYTES < length b)
                \<and> se_dumps E (JObj (envelope_dict coverage r sensor boot sq rid offset capture et em False)) = None))))"
proof -
  have parsed: "parse_line loads line = None \<longleftrightarrow> loads line = Inl NoDecimal"
    "parse_line loads line = Some (Inr n) \<longleftrightarrow> loads line = Inr (JObj n)" for n
    by (auto simp: parse_line_def split: sum.splits loads_error.splits elim!: as_obj.elims)
  have raised: "ts_of n = None \<or> (\<exists>ts. ts_of n = Some (Inr ts)) \<and> record_of_type py_str coverage lt n = None \<longleftrightarrow>
      is_num (dget n ''ts'') \<and> (zeek_ts_to_us (num_of (dget n ''ts'')) = None
        \<or> lt = ''conn'' \<and> identified n \<and> \<not> hashable (dget n ''conn_state''))" for n
    unfolding record_of_type_raises conn_like_raises ends_identified by (auto simp: ts_of_def Let_def)
  have "normalize loads py_str coverage lt line = None \<longleftrightarrow> lt \<in> set LOG_NAMES \<and> (parse_line loads line = None
      \<or> (\<exists>n. parse_line loads line = Some (Inr n) \<and> (ts_of n = None \<or> (\<exists>ts. ts_of n = Some (Inr ts)) \<and> record_of_type py_str coverage lt n = None)))"
    using emit_of_total by (auto simp: normalize_def split: option.splits sum.splits)
  then show ?thesis unfolding parsed raised using envelope_raises by (rule conjI)
qed

theorem escaping_exceptions_witness:
  "normalize (\<lambda>_. Inr (JObj ((''conn_state'', JArr []) # demo_conn))) (\<lambda>_. []) ''unknown'' ''conn'' [] = None
   \<and> normalize (\<lambda>_. Inl NoDecimal) (\<lambda>_. []) ''unknown'' ''dns'' [] = None
   \<and> envelope \<lparr>se_loads = \<lambda>_. Inl NotJson, se_dumps = \<lambda>_. Some [], se_str = \<lambda>_. []\<rparr> ''unknown''
       \<lparr>nz_type = ''conn'', nz_payload = [], nz_avail = [], nz_reasons = [], nz_event_us = - 62135596800000001, nz_emit_us = 0,
         nz_uid = None, nz_line = []\<rparr> ''s'' ''b'' 1 None 0 ''live'' 0 = None"
proof -
  let ?n = "(''conn_state'', JArr []) # demo_conn"
  have "identified ?n"
    by (simp add: identified_def demo_conn_def dget_def UID_def fullmatch_def alnum_or_def is_letter_def is_dec_def)
  then show ?thesis
    using escaping_exceptions [of "\<lambda>_. Inr (JObj ?n)" "\<lambda>_. []" "''unknown''" "''conn''" "[]", THEN conjunct1]
      escaping_exceptions [of "\<lambda>_. Inl NoDecimal" "\<lambda>_. []" "''unknown''" "''dns''" "[]", THEN conjunct1]
    by (intro conjI escaping_exceptions [THEN conjunct2, THEN iffD2]) (simp_all add: LOG_NAMES_def demo_conn_def writable_def)
qed

end
