(* ===== verification/Sender.thy ===== *)
theory Sender
  imports Normalizer
begin

text \<open>
  The sender's settings, durable state, link writer and the sending of one record (\<^verbatim>\<open>context.py\<close>,
  \<^verbatim>\<open>state.py\<close> and \<^verbatim>\<open>link.py\<close> of \<^verbatim>\<open>ingest/sender/sih_sender\<close>). \<open>sd_disk\<close> is what
  the state file holds, \<open>sd_state\<close> the state in memory; \<open>sd_sent\<close> is the trace of the records handed to
  \<open>send_record\<close>, which the code does not keep. What becomes of each datagram (name resolution, the socket)
  is the environment \<open>net\<close>, by the number of the attempt; pacing is left out.
\<close>

section \<open>Durable state\<close>

record tail_file =
  tf_path :: string
  tf_offset :: nat
  tf_fingerprint :: string

record replay_run =
  rr_id :: string
  rr_base :: int
  rr_total :: int
  rr_next :: int
  rr_wall :: int
  rr_first :: int
  rr_offset :: int

record sender_state =
  st_boot :: string
  st_next :: int
  st_health :: int
  st_files :: "(string \<times> tail_file) list"
  st_completed :: "string list"
  st_run :: "replay_run option"

definition MAX_COMPLETED_RUNS :: nat where "MAX_COMPLETED_RUNS = 1000"

definition state_new :: "string \<Rightarrow> sender_state" where
  "state_new boot = \<lparr>st_boot = boot, st_next = 0, st_health = 0, st_files = [], st_completed = [], st_run = None\<rparr>"

definition run_doc :: "replay_run option \<Rightarrow> json" where
  "run_doc r = (case r of None \<Rightarrow> JNull
     | Some q \<Rightarrow> JObj [(''run_id'', JStr (rr_id q)), (''base_sequence'', JInt (rr_base q)), (''total'', JInt (rr_total q)),
         (''next_index'', JInt (rr_next q)), (''wall_start_us'', JInt (rr_wall q)), (''first_emit_us'', JInt (rr_first q)),
         (''offset_us'', JInt (rr_offset q))])"

definition file_doc :: "string \<times> tail_file \<Rightarrow> json" where
  "file_doc kf = (case kf of (k, f) \<Rightarrow> JObj [(''key'', JStr k), (''path'', JStr (tf_path f)), (''offset'', JInt (int (tf_offset f))),
     (''fingerprint'', JStr (tf_fingerprint f))])"

text \<open>The document \<^verbatim>\<open>save\<close> writes.\<close>

definition state_doc :: "sender_state \<Rightarrow> dict" where
  "state_doc s = [(''state_version'', JInt 1), (''sensor_boot_id'', JStr (st_boot s)), (''next_sequence'', JInt (st_next s)),
     (''health_seq'', JInt (st_health s)), (''tail_files'', JArr (map file_doc (st_files s))),
     (''completed_runs'', JArr (map JStr (last_n MAX_COMPLETED_RUNS (st_completed s)))), (''current_run'', run_doc (st_run s))]"

definition load_file :: "json \<Rightarrow> (string \<times> tail_file) option" where
  "load_file v = (case as_obj v of None \<Rightarrow> None
     | Some d \<Rightarrow> (case (jstr d ''key'', jstr d ''path'', py_int (dget d ''offset''), jstr d ''fingerprint'') of
         (Some k, Some p, Some off, Some fp) \<Rightarrow> if off < 0 then None else Some (k, \<lparr>tf_path = p, tf_offset = nat off, tf_fingerprint = fp\<rparr>)
       | _ \<Rightarrow> None))"

definition load_run :: "json \<Rightarrow> replay_run option option" where
  "load_run v = (case v of JNull \<Rightarrow> Some None
     | JObj d \<Rightarrow> (case (jstr d ''run_id'', jint d ''base_sequence'', jint d ''total'', jint d ''next_index'', jint d ''wall_start_us'',
           jint d ''first_emit_us'', jint d ''offset_us'') of
         (Some i, Some b, Some t, Some n, Some w, Some f, Some off) \<Rightarrow>
           Some (Some \<lparr>rr_id = i, rr_base = b, rr_total = t, rr_next = n, rr_wall = w, rr_first = f, rr_offset = off\<rparr>)
       | _ \<Rightarrow> None)
     | _ \<Rightarrow> None)"

definition list_of :: "dict \<Rightarrow> string \<Rightarrow> json list option" where
  "list_of d k = (case map_of d k of None \<Rightarrow> Some [] | Some (JArr xs) \<Rightarrow> Some xs | _ \<Rightarrow> None)"

text \<open>\<^verbatim>\<open>load\<close> of an existing file; a document of another shape raises at once, not at its first use.\<close>

definition state_load :: "dict \<Rightarrow> sender_state option" where
  "state_load d =
     (case (jstr d ''sensor_boot_id'', py_int (dget d ''next_sequence''), py_int (if has_key d ''health_seq'' then dget d ''health_seq'' else JInt 0),
            Option.bind (list_of d ''tail_files'') (\<lambda>xs. those (map load_file xs)),
            Option.bind (list_of d ''completed_runs'') (\<lambda>xs. those (map as_str xs)), load_run (dget d ''current_run'')) of
        (Some boot, Some nxt, Some h, Some fs, Some done_runs, Some r) \<Rightarrow>
          Some \<lparr>st_boot = boot, st_next = nxt, st_health = h, st_files = fold (\<lambda>(k, f). od_set k f) fs [], st_completed = done_runs, st_run = r\<rparr>
      | _ \<Rightarrow> None)"

definition mark_completed :: "string \<Rightarrow> sender_state \<Rightarrow> sender_state" where
  "mark_completed rid s = s\<lparr>st_completed := last_n MAX_COMPLETED_RUNS (st_completed s @ [rid]), st_run := None\<rparr>"

section \<open>Settings\<close>

record settings =
  cf_sensor :: string
  cf_mode :: string
  cf_capture :: string
  cf_coverage :: string
  cf_speed :: real
  cf_max_records :: int
  cf_spool_max :: int
  cf_persist_every :: int

definition sensor_id_ok :: "string \<Rightarrow> bool" where
  "sensor_id_ok s = (case s of [] \<Rightarrow> False
     | c # cs \<Rightarrow> (\<lambda>c. is_dec c \<or> lower_char c = c \<and> is_letter c) c \<and> length cs \<le> 62
         \<and> list_all (\<lambda>c. is_dec c \<or> lower_char c = c \<and> is_letter c \<or> c = CHR ''-'') cs)"

definition validate_settings :: "settings \<Rightarrow> string option" where
  "validate_settings c =
     (if \<not> sensor_id_ok (cf_sensor c) then Some ''SENSOR_ID must match ^[a-z0-9][a-z0-9-]{0,62}$''
      else if cf_mode c \<notin> {''tail'', ''replay''} then Some ''SENDER_MODE must be tail or replay''
      else if cf_capture c \<notin> {''pcap_replay'', ''synthetic_log'', ''passive_live''} then Some (''invalid SENDER_CAPTURE_MODE '' @ cf_capture c)
      else if cf_coverage c \<notin> {''both_directions'', ''originator_only'', ''responder_only'', ''unknown''}
      then Some (''invalid SENDER_OBSERVATION_COVERAGE '' @ cf_coverage c)
      else if cf_speed c \<le> 0 then Some ''SENDER_REPLAY_SPEED must be positive'' else None)"

section \<open>The link writer\<close>

text \<open>What becomes of an attempt: no target, an error of the socket, or handed to it.\<close>

datatype attempt = Unresolved | Refused | Handed

record link_writer =
  lk_key :: bytes
  lk_redundancy :: nat
  lk_frames :: nat
  lk_records :: int
  lk_errors :: nat
  lk_last :: int

definition transmit :: "(nat \<Rightarrow> attempt) \<Rightarrow> bytes \<Rightarrow> link_writer \<times> bytes list \<Rightarrow> link_writer \<times> bytes list" where
  "transmit net f st = (case st of (lk, wire) \<Rightarrow>
     (case net (lk_frames lk + lk_errors lk) of
        Handed \<Rightarrow> (lk\<lparr>lk_frames := lk_frames lk + 1\<rparr>, wire @ [f])
      | _ \<Rightarrow> (lk\<lparr>lk_errors := lk_errors lk + 1\<rparr>, wire)))"

text \<open>Every frame of the record, the whole sequence repeated \<open>redundancy\<close> times.\<close>

definition link_send :: "(nat \<Rightarrow> attempt) \<Rightarrow> nat \<Rightarrow> string \<Rightarrow> string \<Rightarrow> int \<Rightarrow> bytes \<Rightarrow> link_writer \<Rightarrow> encode_error + link_writer \<times> bytes list" where
  "link_send net ftype sensor boot sq record_bytes lk =
     (case encode (lk_key lk) ftype sensor boot sq record_bytes of Inl e \<Rightarrow> Inl e
      | Inr frames \<Rightarrow>
          (let (lk1, wire) = fold (transmit net) (concat (replicate (max 1 (lk_redundancy lk)) frames)) (lk, [])
           in Inr (if ftype = TYPE_EVENT then lk1\<lparr>lk_records := lk_records lk1 + 1, lk_last := sq\<rparr> else lk1, wire)))"

section \<open>Sending one record\<close>

record sender_env =
  sv_env :: send_env
  sv_decode :: "bytes \<Rightarrow> string option"
  sv_net :: "nat \<Rightarrow> attempt"
  sv_now :: int

record sent =
  sn_type :: string
  sn_line :: string
  sn_seq :: int
  sn_run :: "string option"
  sn_offset :: int

record sender =
  sd_cfg :: settings
  sd_state :: sender_state
  sd_disk :: sender_state
  sd_link :: link_writer
  sd_since_save :: int
  sd_records_read :: int
  sd_oversize :: int
  sd_invalid :: int
  sd_lag :: "int option"
  sd_tracked :: nat
  sd_backlog :: int
  sd_zeek :: string
  sd_status :: string
  sd_sent :: "sent list"
  sd_wire :: "bytes list"

text \<open>A sender as it starts: the settings are checked first.\<close>

definition sender_new :: "settings \<Rightarrow> sender_state \<Rightarrow> link_writer \<Rightarrow> string + sender" where
  "sender_new c st lk = (case validate_settings c of Some e \<Rightarrow> Inl e
     | None \<Rightarrow> Inr \<lparr>sd_cfg = c, sd_state = st, sd_disk = st, sd_link = lk, sd_since_save = 0, sd_records_read = 0, sd_oversize = 0, sd_invalid = 0,
         sd_lag = None, sd_tracked = 0, sd_backlog = 0, sd_zeek = ''unknown'', sd_status = ''running'', sd_sent = [], sd_wire = []\<rparr>)"

definition save :: "sender \<Rightarrow> sender" where
  "save s = s\<lparr>sd_disk := sd_state s\<rparr>"

text \<open>\<open>None\<close>: an exception that is neither a rejection of the normalizer nor RecordTooLarge.\<close>

definition send_record :: "sender_env \<Rightarrow> string \<Rightarrow> string \<Rightarrow> int \<Rightarrow> string option \<Rightarrow> int \<Rightarrow> sender \<Rightarrow> (bool \<times> sender) option" where
  "send_record E lt line sq rid offset s0 =
     (let s = s0\<lparr>sd_records_read := sd_records_read s0 + 1,
            sd_sent := sd_sent s0 @ [\<lparr>sn_type = lt, sn_line = line, sn_seq = sq, sn_run = rid, sn_offset = offset\<rparr>]\<rparr>;
          c = sd_cfg s; boot = st_boot (sd_state s); too_large = s\<lparr>sd_oversize := sd_oversize s + 1\<rparr>
      in case normalize (se_loads (sv_env E)) (se_str (sv_env E)) (cf_coverage c) lt line of
           None \<Rightarrow> None
         | Some (Inl _) \<Rightarrow> Some (False, s\<lparr>sd_invalid := sd_invalid s + 1\<rparr>)
         | Some (Inr r) \<Rightarrow>
             (case envelope (sv_env E) (cf_coverage c) r (cf_sensor c) boot sq rid offset (cf_capture c) (sv_now E) of
                None \<Rightarrow> None
              | Some (Inl _) \<Rightarrow> Some (False, too_large)
              | Some (Inr out) \<Rightarrow>
                  (case link_send (sv_net E) TYPE_EVENT (cf_sensor c) boot sq out (sd_link s) of
                     Inl RecordTooLarge \<Rightarrow> Some (False, too_large)
                   | Inl _ \<Rightarrow> None
                   | Inr (lk, wire) \<Rightarrow> Some (True, s\<lparr>sd_link := lk, sd_wire := sd_wire s @ wire\<rparr>))))"

section \<open>Lemmas\<close>

lemma those_map_inverse: "(\<And>x. x \<in> set xs \<Longrightarrow> g (f x) = Some x) \<Longrightarrow> those (map g (map f xs)) = Some xs"
  by (induction xs) simp_all

lemma od_fold_distinct: "distinct (map fst (ys @ xs)) \<Longrightarrow> fold (\<lambda>(k, f). od_set k f) xs ys = ys @ xs"
proof (induction xs arbitrary: ys)
  case (Cons x xs)
  obtain k f where x: "x = (k, f)" by fastforce
  have "k \<notin> fst ` set ys" using Cons.prems x by auto
  then have "fold (\<lambda>(k, f). od_set k f) (x # xs) ys = fold (\<lambda>(k, f). od_set k f) xs (ys @ [x])" by (simp add: x od_set_new)
  also have "\<dots> = (ys @ [x]) @ xs" by (rule Cons.IH) (use Cons.prems in simp)
  finally show ?case by simp
qed simp

text \<open>
  The state file reads back as the state that was saved, except that of more than a thousand completed runs the
  latest thousand are kept.
\<close>

theorem state_round_trip:
  assumes "distinct (map fst (st_files s))"
  shows "state_load (state_doc s) = Some (s\<lparr>st_completed := last_n MAX_COMPLETED_RUNS (st_completed s)\<rparr>)"
proof -
  have f: "those (map load_file (map file_doc (st_files s))) = Some (st_files s)"
    by (rule those_map_inverse) (auto simp: load_file_def file_doc_def jstr_def split: prod.splits)
  have c: "those (map as_str (map JStr xs)) = Some xs" for xs by (rule those_map_inverse) simp
  have r: "load_run (run_doc (st_run s)) = Some (st_run s)"
    by (cases "st_run s") (simp_all add: run_doc_def load_run_def jstr_def jint_def)
  have d: "fold (\<lambda>(k, f). od_set k f) (st_files s) [] = st_files s" using od_fold_distinct [of "[]" "st_files s"] assms by simp
  show ?thesis using f c r d by (simp add: state_load_def state_doc_def jstr_def list_of_def has_key_def)
qed

theorem state_round_trip_witness:
  "state_load (state_doc ((state_new ''b'')\<lparr>st_next := 7, st_files := [(''1:2'', \<lparr>tf_path = ''conn.log'', tf_offset = 5, tf_fingerprint = ''f:5''\<rparr>)]\<rparr>))
     = Some ((state_new ''b'')\<lparr>st_next := 7, st_files := [(''1:2'', \<lparr>tf_path = ''conn.log'', tf_offset = 5, tf_fingerprint = ''f:5''\<rparr>)]\<rparr>)"
  using state_round_trip [of "(state_new ''b'')\<lparr>st_next := 7, st_files := [(''1:2'', \<lparr>tf_path = ''conn.log'', tf_offset = 5, tf_fingerprint = ''f:5''\<rparr>)]\<rparr>"]
  by (simp add: state_new_def)

lemma transmit_counts: "transmit net f (lk, wire) = (lk', wire') \<Longrightarrow> \<exists>w. wire' = wire @ w \<and> set w \<subseteq> {f} \<and> lk_key lk' = lk_key lk
    \<and> lk_redundancy lk' = lk_redundancy lk \<and> lk_records lk' = lk_records lk \<and> lk_last lk' = lk_last lk
    \<and> lk_frames lk' = lk_frames lk + length w \<and> lk_frames lk' + lk_errors lk' = Suc (lk_frames lk + lk_errors lk)"
  by (auto simp: transmit_def split: attempt.splits)

lemma transmits_counts: "fold (transmit net) fs (lk, wire) = (lk', wire') \<Longrightarrow> \<exists>w. wire' = wire @ w \<and> set w \<subseteq> set fs \<and> lk_key lk' = lk_key lk
    \<and> lk_redundancy lk' = lk_redundancy lk \<and> lk_records lk' = lk_records lk \<and> lk_last lk' = lk_last lk
    \<and> lk_frames lk' = lk_frames lk + length w \<and> lk_frames lk' + lk_errors lk' = lk_frames lk + lk_errors lk + length fs"
proof (induction fs arbitrary: lk wire)
  case (Cons f fs)
  obtain lk1 wire1 where t: "transmit net f (lk, wire) = (lk1, wire1)" by fastforce
  show ?case using transmit_counts [OF t] Cons.IH [of lk1 wire1] Cons.prems t by fastforce
qed simp

lemma link_send_total: "encode (lk_key lk) ftype sensor boot sq r = Inr frames \<Longrightarrow> \<exists>lk' wire. link_send net ftype sensor boot sq r lk = Inr (lk', wire)"
  by (simp add: link_send_def Let_def case_prod_beta)

text \<open>
  The sender is outward only and keeps count: sending a record attempts each of its frames as often as configured,
  what reaches the wire are frames of this record and nothing else, and every attempt is counted either as a frame
  sent or as an error.
\<close>

theorem link_send_accounts:
  assumes "link_send net ftype sensor boot sq record_bytes lk = Inr (lk', wire)"
    and "encode (lk_key lk) ftype sensor boot sq record_bytes = Inr frames"
  shows "set wire \<subseteq> set frames \<and> lk_frames lk' = lk_frames lk + length wire
    \<and> lk_frames lk' + lk_errors lk' = lk_frames lk + lk_errors lk + max 1 (lk_redundancy lk) * length frames
    \<and> ((\<forall>k. net k = Handed) \<longrightarrow> wire = concat (replicate (max 1 (lk_redundancy lk)) frames))"
proof -
  let ?fs = "concat (replicate (max 1 (lk_redundancy lk)) frames)"
  obtain lk1 where f: "fold (transmit net) ?fs (lk, []) = (lk1, wire)" "lk_frames lk' = lk_frames lk1" "lk_errors lk' = lk_errors lk1"
    using assms by (auto simp: link_send_def split: prod.splits if_splits)
  have len: "length (concat (replicate n xs)) = n * length xs" for n and xs :: "bytes list" by (induction n) simp_all
  have all: "\<exists>lk2. fold (transmit net) fs (lk0, w) = (lk2, w @ fs)" if "\<forall>k. net k = Handed" for fs lk0 w
  proof (induction fs arbitrary: lk0 w)
    case (Cons f fs)
    show ?case using Cons.IH [of "lk0\<lparr>lk_frames := Suc (lk_frames lk0)\<rparr>" "w @ [f]"] that by (simp add: transmit_def)
  qed simp
  show ?thesis using transmits_counts [OF f(1)] f(2,3) len all [of ?fs lk "[]"] f(1) by (auto simp: set_replicate_conv_if split: if_splits)
qed

theorem link_send_accounts_witness:
  "\<exists>lk' wire frames. link_send (\<lambda>_. Handed) TYPE_EVENT ''s'' (uuid_str (replicate 16 7)) 5 [1, 2]
     \<lparr>lk_key = [], lk_redundancy = 2, lk_frames = 0, lk_records = 0, lk_errors = 0, lk_last = - 1\<rparr> = Inr (lk', wire) \<and> wire = frames @ frames \<and> frames \<noteq> []"
proof -
  let ?lk = "\<lparr>lk_key = [], lk_redundancy = 2, lk_frames = 0, lk_records = 0, lk_errors = 0, lk_last = - 1\<rparr>"
  obtain frames where f: "encode [] TYPE_EVENT ''s'' (uuid_str (replicate 16 7)) 5 [1, 2] = Inr frames" "frames \<noteq> []"
    by (auto simp: encode_def ascii_bytes_def uuid_bytes_str link_consts ceil_div_def TYPE_EVENT_def Let_def)
  obtain lk' wire where l: "link_send (\<lambda>_. Handed) TYPE_EVENT ''s'' (uuid_str (replicate 16 7)) 5 [1, 2] ?lk = Inr (lk', wire)"
    using link_send_total [where net = "\<lambda>_. Handed", of ?lk TYPE_EVENT "''s''" "uuid_str (replicate 16 7)" 5 "[1, 2]" frames] f(1) by auto
  have "wire = concat (replicate (max 1 (lk_redundancy ?lk)) frames)" using link_send_accounts [OF l] f(1) by simp
  then have "wire = frames @ frames" by (simp add: numeral_2_eq_2)
  then show ?thesis using l f(2) by blast
qed

end
