(* ===== verification/Tail.thy ===== *)
theory Tail
  imports Sender
begin

text \<open>
  Following the logs of a directory (\<^verbatim>\<open>ingest/sender/sih_sender/tail.py\<close>). A pass is given the files
  as they are when it looks at them, by name: device and inode (\<open>key\<close>) and content. The theorems show that a
  file is read line by line exactly once and in order, however the reads fall, and that the state saved while
  reading is not the state a restart should resume from.
\<close>

section \<open>Names and fingerprints\<close>

definition FINGERPRINT_BYTES :: nat where "FINGERPRINT_BYTES = 256"
definition MAX_LINES_PER_FILE_PASS :: nat where "MAX_LINES_PER_FILE_PASS = 500"
definition MAX_TRACKED_FILES :: nat where "MAX_TRACKED_FILES = 1000"
definition MAX_LINE_BYTES :: nat where "MAX_LINE_BYTES = 2 ^ 20"
definition CHUNK :: nat where "CHUNK = 65536"

text \<open>The log type of a file name of the form \<^verbatim>\<open>type.log\<close> or \<^verbatim>\<open>type.anything.log\<close>.\<close>

definition middle_ok :: "string \<Rightarrow> bool" where
  "middle_ok m = (m = [] \<or> (length m \<ge> 2 \<and> hd m = CHR ''.'' \<and> CHR 0x0A \<notin> set m))"

definition is_log_name :: "string \<Rightarrow> string \<Rightarrow> bool" where
  "is_log_name name lt = (length lt + 4 \<le> length name \<and> take (length lt) name = lt \<and> drop (length name - 4) name = ''.log''
     \<and> middle_ok (slice (length lt) (length name - length lt - 4) name))"

definition log_type_of :: "string \<Rightarrow> string option" where
  "log_type_of name = find (is_log_name name) LOG_NAMES"

definition file_fingerprint :: "bytes \<Rightarrow> nat \<Rightarrow> string option" where
  "file_fingerprint content n = (if length content < n then None
     else Some (take 32 (hex_of (sha256 (take n content))) @ '':'' @ str_of_nat n))"

text \<open>The number after the last colon of a stored fingerprint.\<close>

definition tagged_length :: "string \<Rightarrow> int option" where
  "tagged_length stored = (if CHR '':'' \<notin> set stored then None else parse_int (last (split_on (CHR '':'') stored)))"

definition same_prefix :: "bytes \<Rightarrow> string \<Rightarrow> bool" where
  "same_prefix content stored = (case tagged_length stored of None \<Rightarrow> False
     | Some n \<Rightarrow> 0 \<le> n \<and> n \<le> int (length content) \<and> file_fingerprint content (nat n) = Some stored)"

section \<open>One line\<close>

definition set_offset :: "string \<Rightarrow> nat \<Rightarrow> sender \<Rightarrow> sender" where
  "set_offset key pos s = s\<lparr>sd_state := (sd_state s)\<lparr>st_files :=
     map (\<lambda>(k, f). (k, if k = key then f\<lparr>tf_offset := pos\<rparr> else f)) (st_files (sd_state s))\<rparr>\<rparr>"

definition strip_cr :: "bytes \<Rightarrow> bytes" where
  "strip_cr raw = (if raw \<noteq> [] \<and> last raw = 13 then butlast raw else raw)"

definition count_sent :: "sender \<Rightarrow> sender" where
  "count_sent s = (let s1 = s\<lparr>sd_since_save := sd_since_save s + 1\<rparr>
     in if sd_since_save s1 \<ge> cf_persist_every (sd_cfg s1) then (save s1)\<lparr>sd_since_save := 0\<rparr> else s1)"

definition set_next :: "int \<Rightarrow> sender \<Rightarrow> sender" where
  "set_next n s = s\<lparr>sd_state := (sd_state s)\<lparr>st_next := n\<rparr>\<rparr>"

definition handle :: "sender_env \<Rightarrow> string \<Rightarrow> bytes \<Rightarrow> sender \<Rightarrow> sender option" where
  "handle E lt raw s =
     (let line = strip_cr raw in
      if line = [] \<or> hd line = 35 then Some s
      else (case sv_decode E line of
        None \<Rightarrow> Some (s\<lparr>sd_invalid := sd_invalid s + 1\<rparr>)
      | Some txt' \<Rightarrow> (let sq = st_next (sd_state s) in
          map_option (\<lambda>(ok, s1). count_sent (set_next (sq + 1) s1)) (send_record E lt txt' sq None 0 s))))"

section \<open>Reading the lines of a file\<close>

record reader =
  rd_buf :: bytes
  rd_pos :: nat
  rd_skipping :: bool
  rd_lines :: nat

text \<open>The lines in the buffer, until it holds no newline or enough lines were read.\<close>

definition newline :: "bytes \<Rightarrow> nat option" where
  "newline buf = (if 10 \<in> set buf then Some (length (takeWhile (\<lambda>b. b \<noteq> 10) buf)) else None)"

function scan :: "(bytes \<Rightarrow> sender \<Rightarrow> sender option) \<Rightarrow> string \<Rightarrow> reader \<Rightarrow> sender \<Rightarrow> (reader \<times> sender) option" where
  "scan h key rd s =
     (if rd_lines rd \<ge> MAX_LINES_PER_FILE_PASS then Some (rd, s)
      else (case newline (rd_buf rd) of
        None \<Rightarrow>
          if length (rd_buf rd) > MAX_LINE_BYTES
          then Some (rd\<lparr>rd_pos := rd_pos rd + length (rd_buf rd), rd_buf := [], rd_skipping := True\<rparr>,
                     if rd_skipping rd then s else s\<lparr>sd_oversize := sd_oversize s + 1\<rparr>)
          else Some (rd, s)
      | Some nl \<Rightarrow>
          (let line = take nl (rd_buf rd); rest = drop (nl + 1) (rd_buf rd); pos = rd_pos rd + nl + 1;
               rd1 = rd\<lparr>rd_buf := rest, rd_pos := pos\<rparr>
           in if rd_skipping rd then scan h key (rd1\<lparr>rd_skipping := False\<rparr>) (set_offset key pos s)
              else (case h line s of None \<Rightarrow> None
                | Some s1 \<Rightarrow> scan h key (rd1\<lparr>rd_lines := rd_lines rd + 1\<rparr>) (set_offset key pos s1)))))"
  by pat_completeness auto
termination
  by (relation "measure (\<lambda>(h, key, rd, s). length (rd_buf rd))")
    (auto simp: newline_def split: if_splits intro: diff_less dest: length_pos_if_in_set)

function read_chunks :: "(bytes \<Rightarrow> sender \<Rightarrow> sender option) \<Rightarrow> string \<Rightarrow> bytes \<Rightarrow> reader \<Rightarrow> sender \<Rightarrow> (reader \<times> sender) option" where
  "read_chunks h key rest rd s =
     (if rd_lines rd \<ge> MAX_LINES_PER_FILE_PASS \<or> rest = [] then Some (rd, s)
      else (case scan h key (rd\<lparr>rd_buf := rd_buf rd @ take CHUNK rest\<rparr>) s of
        None \<Rightarrow> None
      | Some (rd1, s1) \<Rightarrow> read_chunks h key (drop CHUNK rest) rd1 (if rd_skipping rd1 then set_offset key (rd_pos rd1) s1 else s1)))"
  by pat_completeness auto
termination
  by (relation "measure (\<lambda>(h, key, rest, rd, s). length rest)") (auto simp: CHUNK_def)

declare scan.simps [simp del] read_chunks.simps [simp del]

definition offset_of :: "string \<Rightarrow> sender \<Rightarrow> nat" where
  "offset_of key s = (case map_of (st_files (sd_state s)) key of None \<Rightarrow> 0 | Some f \<Rightarrow> tf_offset f)"

definition read_lines :: "sender_env \<Rightarrow> string \<Rightarrow> bytes \<Rightarrow> string \<Rightarrow> sender \<Rightarrow> (bool \<times> sender) option" where
  "read_lines E key content lt s =
     (let off = offset_of key s in
      map_option (\<lambda>(rd, s1). (rd_lines rd > 0, s1))
        (read_chunks (handle E lt) key (drop off content) \<lparr>rd_buf = [], rd_pos = off, rd_skipping = False, rd_lines = 0\<rparr> s))"

section \<open>A pass over the directory\<close>

record log_file =
  lf_name :: string
  lf_path :: string
  lf_key :: string
  lf_content :: bytes

definition track :: "log_file \<Rightarrow> string \<Rightarrow> sender \<Rightarrow> sender" where
  "track p fp s =
     (let st = sd_state s; size' = length (lf_content p);
          kept = (case map_of (st_files st) (lf_key p) of None \<Rightarrow> None
            | Some f \<Rightarrow> if size' < tf_offset f \<or> \<not> same_prefix (lf_content p) (tf_fingerprint f) then None else Some f);
          f1 = (case kept of None \<Rightarrow> \<lparr>tf_path = lf_path p, tf_offset = 0, tf_fingerprint = fp\<rparr>
            | Some f \<Rightarrow> f\<lparr>tf_path := lf_path p, tf_fingerprint := fp\<rparr>)
      in s\<lparr>sd_state := st\<lparr>st_files := od_set (lf_key p) f1 (st_files st)\<rparr>\<rparr>)"

text \<open>One file of the pass: the sender, the bytes left and whether a line was read.\<close>

definition visit :: "sender_env \<Rightarrow> log_file \<Rightarrow> sender \<Rightarrow> (sender \<times> int \<times> bool) option" where
  "visit E p s =
     (if lf_content p = [] then Some (s, 0, False)
      else (case file_fingerprint (lf_content p) (min (length (lf_content p)) FINGERPRINT_BYTES) of
        None \<Rightarrow> Some (s, 0, False)
      | Some fp \<Rightarrow>
          (let s1 = track p fp s; size' = length (lf_content p)
           in map_option (\<lambda>(progressed, s2). (s2, max 0 (int size' - int (offset_of (lf_key p) s2)), progressed))
                (if size' > offset_of (lf_key p) s1
                 then read_lines E (lf_key p) (lf_content p) (the (log_type_of (lf_name p))) s1 else Some (False, s1)))))"

fun visits :: "sender_env \<Rightarrow> log_file list \<Rightarrow> sender \<times> int \<times> bool \<Rightarrow> (sender \<times> int \<times> bool) option" where
  "visits E [] acc = Some acc"
| "visits E (p # ps) (s, lag, progressed) =
     (case visit E p s of None \<Rightarrow> None | Some (s1, l, pr) \<Rightarrow> visits E ps (s1, lag + l, progressed \<or> pr))"

definition forget :: "string set \<Rightarrow> sender \<Rightarrow> sender" where
  "forget seen s = (let fs = filter (\<lambda>(k, f). k \<in> seen) (st_files (sd_state s))
     in s\<lparr>sd_state := (sd_state s)\<lparr>st_files := last_n MAX_TRACKED_FILES fs\<rparr>\<rparr>)"

text \<open>\<open>listing\<close>: the regular files of the directory in the order of their paths.\<close>

definition pass_once :: "sender_env \<Rightarrow> log_file list \<Rightarrow> sender \<Rightarrow> (bool \<times> sender) option" where
  "pass_once E listing s =
     (let ps = filter (\<lambda>p. log_type_of (lf_name p) \<noteq> None) listing in
      map_option (\<lambda>(s1, lag, progressed).
          (progressed, (let s2 = forget (lf_key ` set ps) s1 in s2\<lparr>sd_lag := Some lag, sd_backlog := lag,
             sd_tracked := length (st_files (sd_state s2)),
             sd_status := (if lag > cf_spool_max (sd_cfg s1) then ''degraded'' else if progressed then ''running'' else ''idle'')\<rparr>)))
        (visits E ps (s, 0, False)))"

text \<open>What \<^verbatim>\<open>run\<close> does after a pass: an idle one saves what was read since the last save.\<close>

definition after_pass :: "bool \<times> sender \<Rightarrow> sender" where
  "after_pass r = (case r of (progressed, s) \<Rightarrow>
     if \<not> progressed \<and> sd_since_save s \<noteq> 0 then (save s)\<lparr>sd_since_save := 0\<rparr> else s)"

text \<open>A restart continues from the saved state; what is in memory is lost.\<close>

definition restart :: "sender \<Rightarrow> sender" where
  "restart s = s\<lparr>sd_state := sd_disk s, sd_since_save := 0, sd_sent := [], sd_wire := []\<rparr>"

section \<open>Reading is by lines, however the chunks fall\<close>

definition unlines :: "bytes list \<Rightarrow> bytes" where
  "unlines ls = concat (map (\<lambda>l. l @ [10]) ls)"

lemma unlines_simps [simp]: "unlines [] = []" "unlines (l # ls) = l @ 10 # unlines ls" "unlines (xs @ ys) = unlines xs @ unlines ys"
  by (simp_all add: unlines_def)

text \<open>The lines handled one after the other, the offset following each.\<close>

fun feed_lines :: "(bytes \<Rightarrow> sender \<Rightarrow> sender option) \<Rightarrow> string \<Rightarrow> nat \<Rightarrow> bytes list \<Rightarrow> sender \<Rightarrow> sender option" where
  "feed_lines h key pos [] s = Some s"
| "feed_lines h key pos (l # ls) s = (case h l s of None \<Rightarrow> None
     | Some s1 \<Rightarrow> feed_lines h key (pos + length l + 1) ls (set_offset key (pos + length l + 1) s1))"

lemma feed_append: "feed_lines h key pos (xs @ ys) s = Option.bind (feed_lines h key pos xs s) (feed_lines h key (pos + length (unlines xs)) ys)"
  by (induction xs arbitrary: pos s) (auto simp: add.assoc split: option.splits)

definition short_lines :: "bytes list \<Rightarrow> bytes \<Rightarrow> bool" where
  "short_lines ls t \<longleftrightarrow> (\<forall>l \<in> set (t # ls). 10 \<notin> set l \<and> length l \<le> MAX_LINE_BYTES)"

lemma newline_hit [simp]: "10 \<notin> set l \<Longrightarrow> newline (l @ 10 # r) = Some (length l)"
  by (simp add: newline_def takeWhile_append)

lemma scan_lines:
  assumes "short_lines ls t" "\<not> rd_skipping rd" "rd_buf rd = unlines ls @ t"
  shows "scan h key rd s = map_option (\<lambda>s'. (rd\<lparr>rd_buf := unlines (drop (MAX_LINES_PER_FILE_PASS - rd_lines rd) ls) @ t,
      rd_pos := rd_pos rd + length (unlines (take (MAX_LINES_PER_FILE_PASS - rd_lines rd) ls)),
      rd_lines := rd_lines rd + length (take (MAX_LINES_PER_FILE_PASS - rd_lines rd) ls)\<rparr>, s'))
      (feed_lines h key (rd_pos rd) (take (MAX_LINES_PER_FILE_PASS - rd_lines rd) ls) s)"
  using assms
proof (induction ls arbitrary: rd s)
  case Nil
  have "newline (rd_buf rd) = None" "\<not> length (rd_buf rd) > MAX_LINE_BYTES" using Nil by (auto simp: newline_def short_lines_def)
  moreover have "rd\<lparr>rd_buf := t, rd_pos := rd_pos rd, rd_lines := rd_lines rd\<rparr> = rd" using Nil by simp
  ultimately show ?case by (simp add: scan.simps)
next
  case (Cons l ls)
  show ?case
  proof (cases "rd_lines rd \<ge> MAX_LINES_PER_FILE_PASS")
    case True
    moreover have "rd\<lparr>rd_buf := l @ 10 # unlines ls @ t, rd_pos := rd_pos rd, rd_lines := rd_lines rd\<rparr> = rd" using Cons.prems(3) by simp
    ultimately show ?thesis using Cons.prems(3) by (simp add: scan.simps)
  next
    case False
    then have k: "MAX_LINES_PER_FILE_PASS - rd_lines rd = Suc (MAX_LINES_PER_FILE_PASS - Suc (rd_lines rd))" by simp
    have n: "newline (rd_buf rd) = Some (length l)" "take (length l) (rd_buf rd) = l" "drop (length l + 1) (rd_buf rd) = unlines ls @ t"
      using Cons.prems by (auto simp: short_lines_def)
    let ?rd = "rd\<lparr>rd_buf := unlines ls @ t, rd_pos := rd_pos rd + length l + 1, rd_lines := rd_lines rd + 1\<rparr>"
    have sh: "short_lines ls t" using Cons.prems(1) by (simp add: short_lines_def)
    have "scan h key rd s = (case h l s of None \<Rightarrow> None | Some s1 \<Rightarrow> scan h key ?rd (set_offset key (rd_pos rd + length l + 1) s1))"
      using False n Cons.prems(2) by (subst scan.simps) (simp add: Let_def split: option.split)
    also have "\<dots> = (case h l s of None \<Rightarrow> None | Some s1 \<Rightarrow> map_option (\<lambda>s'. (?rd\<lparr>rd_buf := unlines (drop (MAX_LINES_PER_FILE_PASS - rd_lines ?rd) ls) @ t,
      rd_pos := rd_pos ?rd + length (unlines (take (MAX_LINES_PER_FILE_PASS - rd_lines ?rd) ls)),
      rd_lines := rd_lines ?rd + length (take (MAX_LINES_PER_FILE_PASS - rd_lines ?rd) ls)\<rparr>, s'))
      (feed_lines h key (rd_pos ?rd) (take (MAX_LINES_PER_FILE_PASS - rd_lines ?rd) ls) (set_offset key (rd_pos rd + length l + 1) s1)))"
      using Cons.IH [of ?rd, OF sh] Cons.prems(2) by (simp split: option.split)
    finally show ?thesis unfolding k by (simp add: add.assoc split: option.split)
  qed
qed

lemma split_prefix:
  assumes "xs @ ys = unlines ls @ t" "\<forall>l \<in> set (t # ls). 10 \<notin> set l"
  shows "\<exists>ls1 ls2 u. ls = ls1 @ ls2 \<and> xs = unlines ls1 @ u \<and> 10 \<notin> set u \<and> u @ ys = unlines ls2 @ t"
  using assms
proof (induction ls arbitrary: xs)
  case Nil
  then have "10 \<notin> set xs" by (metis Un_iff append_Nil list.set_intros(1) set_append unlines_simps(1))
  then show ?case using Nil by (intro exI [of _ "[]"] exI [of _ xs]) simp
next
  case (Cons l ls)
  show ?case
  proof (cases "length xs \<le> length l")
    case True
    then have "xs = take (length xs) l" using Cons.prems(1)
      by (metis append_eq_append_conv_if take_append append_Nil2 diff_is_0_eq take_0 unlines_simps(2) append.assoc)
    then have "10 \<notin> set xs" using Cons.prems(2) by (metis in_set_takeD list.set_intros(1,2))
    then show ?thesis using Cons.prems(1) by (intro exI [of _ "[]"] exI [of _ "l # ls"] exI [of _ xs]) simp
  next
    case False
    then obtain zs where z: "xs = l @ 10 # zs" "zs @ ys = unlines ls @ t"
    proof -
      have e: "xs @ ys = l @ (10 # unlines ls @ t)" using Cons.prems(1) by simp
      then have "xs = l @ drop (length l) xs" using False by (metis append_eq_append_conv_if append_take_drop_id nat_le_linear)
      moreover from this obtain c zs where "drop (length l) xs = c # zs" using False by (cases "drop (length l) xs") auto
      ultimately show ?thesis using that e by (metis append_Cons append_assoc list.inject same_append_eq)
    qed
    obtain ls1 ls2 u where "ls = ls1 @ ls2" "zs = unlines ls1 @ u" "10 \<notin> set u" "u @ ys = unlines ls2 @ t"
      using Cons.IH [OF z(2)] Cons.prems(2) by auto
    then show ?thesis using z(1) by (intro exI [of _ "l # ls1"] exI [of _ ls2] exI [of _ u]) simp
  qed
qed

lemma tail_short:
  assumes "u @ ys = unlines ls @ t" "10 \<notin> set u" "short_lines ls t" shows "short_lines [] u"
proof (cases ls)
  case Nil
  then show ?thesis using assms by (auto simp: short_lines_def dest: arg_cong [where f = length])
next
  case (Cons l ls')
  have "length u \<le> length l"
  proof (rule ccontr)
    assume "\<not> length u \<le> length l"
    then have "(u @ ys) ! length l = u ! length l" "length l < length u" by (simp_all add: nth_append)
    moreover have "(u @ ys) ! length l = 10" using assms(1) Cons by (simp add: nth_append)
    ultimately show False using assms(2) nth_mem by metis
  qed
  then show ?thesis using assms Cons by (simp add: short_lines_def)
qed

lemma read_chunks_lines:
  assumes "short_lines ls t" "\<not> rd_skipping rd" "rd_buf rd @ rest = unlines ls @ t" "10 \<notin> set (rd_buf rd)"
  shows "\<exists>rd'. read_chunks h key rest rd s = map_option (\<lambda>s'. (rd', s')) (feed_lines h key (rd_pos rd) (take (MAX_LINES_PER_FILE_PASS - rd_lines rd) ls) s)
    \<and> rd_lines rd' = rd_lines rd + length (take (MAX_LINES_PER_FILE_PASS - rd_lines rd) ls)"
  using assms
proof (induction rest arbitrary: rd s ls rule: length_induct)
  case (1 rest)
  let ?k = "MAX_LINES_PER_FILE_PASS - rd_lines rd"
  consider (full) "rd_lines rd \<ge> MAX_LINES_PER_FILE_PASS" | (over) "rd_lines rd < MAX_LINES_PER_FILE_PASS" "rest = []"
    | (more) "rd_lines rd < MAX_LINES_PER_FILE_PASS" "rest \<noteq> []" by linarith
  then show ?case
  proof cases
    case full
    then show ?thesis by (intro exI [of _ rd]) (simp add: read_chunks.simps)
  next
    case over
    then have "10 \<notin> set (unlines ls @ t)" using 1(4,5) by (metis append_Nil2)
    then have "ls = []" by (cases ls) auto
    then show ?thesis using over by (intro exI [of _ rd]) (simp add: read_chunks.simps)
  next
    case more
    let ?rest = "drop CHUNK rest" and ?rd = "rd\<lparr>rd_buf := rd_buf rd @ take CHUNK rest\<rparr>"
    have "(rd_buf rd @ take CHUNK rest) @ ?rest = unlines ls @ t" using 1(4) by simp
    then obtain ls1 ls2 u where u: "ls = ls1 @ ls2" "rd_buf rd @ take CHUNK rest = unlines ls1 @ u" "10 \<notin> set u" "u @ ?rest = unlines ls2 @ t"
      using split_prefix 1(2) by (metis (no_types, lifting) short_lines_def)
    have sh2: "short_lines ls2 t" using 1(2) u(1) by (simp add: short_lines_def)
    have "short_lines ls1 u" using tail_short [OF u(4,3) sh2] 1(2) u(1) by (simp add: short_lines_def)
    then have sc: "scan h key ?rd s = map_option (\<lambda>s'. (?rd\<lparr>rd_buf := unlines (drop ?k ls1) @ u, rd_pos := rd_pos rd + length (unlines (take ?k ls1)),
        rd_lines := rd_lines rd + length (take ?k ls1)\<rparr>, s')) (feed_lines h key (rd_pos rd) (take ?k ls1) s)"
      using scan_lines [of ls1 u ?rd h key s] 1(3) u(2) by simp
    define rd1 where "rd1 = ?rd\<lparr>rd_buf := unlines (drop ?k ls1) @ u, rd_pos := rd_pos rd + length (unlines (take ?k ls1)),
        rd_lines := rd_lines rd + length (take ?k ls1)\<rparr>"
    have st: "read_chunks h key rest rd s = (case feed_lines h key (rd_pos rd) (take ?k ls1) s of None \<Rightarrow> None | Some s1 \<Rightarrow> read_chunks h key ?rest rd1 s1)"
      using more sc 1(3) by (subst read_chunks.simps) (simp add: rd1_def split: option.split)
    show ?thesis
    proof (cases "length ls1 \<ge> ?k")
      case True
      then have f: "rd_lines rd1 = MAX_LINES_PER_FILE_PASS" "take ?k ls = take ?k ls1" using more u(1) by (simp_all add: rd1_def)
      have "read_chunks h key ?rest rd1 s1 = Some (rd1, s1)" for s1 using f(1) by (simp add: read_chunks.simps)
      then show ?thesis unfolding st f(2) using f(1) more True
        by (intro exI [of _ rd1]) (simp add: rd1_def split: option.split)
    next
      case False
      then have f: "take ?k ls1 = ls1" "drop ?k ls1 = []" "rd_lines rd1 = rd_lines rd + length ls1" "rd_buf rd1 = u" "\<not> rd_skipping rd1"
          "rd_pos rd1 = rd_pos rd + length (unlines ls1)" "take ?k ls = ls1 @ take (?k - length ls1) ls2"
          "MAX_LINES_PER_FILE_PASS - rd_lines rd1 = ?k - length ls1"
        using 1(3) u(1) by (simp_all add: rd1_def)
      have len: "length ?rest < length rest" using more(2) by (simp add: CHUNK_def)
      have ih: "\<exists>rd'. read_chunks h key ?rest rd1 s1 = map_option (\<lambda>s'. (rd', s')) (feed_lines h key (rd_pos rd1) (take (MAX_LINES_PER_FILE_PASS - rd_lines rd1) ls2) s1)
          \<and> rd_lines rd' = rd_lines rd1 + length (take (MAX_LINES_PER_FILE_PASS - rd_lines rd1) ls2)" for s1
        using 1(1) len sh2 f(5) u(4,3) f(4) by blast
      show ?thesis
      proof (cases "feed_lines h key (rd_pos rd) ls1 s")
        case None
        then show ?thesis unfolding st f(1,7) feed_append
          by (intro exI [of _ "rd\<lparr>rd_lines := rd_lines rd + length (ls1 @ take (?k - length ls1) ls2)\<rparr>"]) simp
      next
        case (Some s1)
        obtain rd' where r: "read_chunks h key ?rest rd1 s1 = map_option (\<lambda>s'. (rd', s')) (feed_lines h key (rd_pos rd1) (take (?k - length ls1) ls2) s1)"
            "rd_lines rd' = rd_lines rd1 + length (take (?k - length ls1) ls2)"
          using ih [of s1] unfolding f(8) by blast
        show ?thesis unfolding st f(1,7) feed_append using Some r f(3,6) by (intro exI [of _ rd']) simp
      qed
    qed
  qed
qed
section \<open>Sequence numbers\<close>

lemma send_record_trace:
  assumes "send_record E lt line sq rid offset s = Some (okay, s')"
  shows "sd_sent s' = sd_sent s @ [\<lparr>sn_type = lt, sn_line = line, sn_seq = sq, sn_run = rid, sn_offset = offset\<rparr>] \<and> sd_state s' = sd_state s
    \<and> sd_disk s' = sd_disk s \<and> sd_cfg s' = sd_cfg s \<and> sd_since_save s' = sd_since_save s"
  using assms by (auto simp: send_record_def Let_def split: option.splits sum.splits encode_error.splits prod.splits)

lemma sender_updates [simp]:
  "sd_sent (count_sent s) = sd_sent s" "sd_state (count_sent s) = sd_state s" "sd_cfg (count_sent s) = sd_cfg s"
  "sd_sent (set_next n s) = sd_sent s" "st_next (sd_state (set_next n s)) = n" "st_files (sd_state (set_next n s)) = st_files (sd_state s)"
  "sd_disk (set_next n s) = sd_disk s" "sd_cfg (set_next n s) = sd_cfg s" "sd_since_save (set_next n s) = sd_since_save s"
  "sd_sent (set_offset key p s) = sd_sent s" "sd_disk (set_offset key p s) = sd_disk s" "st_next (sd_state (set_offset key p s)) = st_next (sd_state s)"
  by (auto simp: count_sent_def Let_def save_def set_next_def set_offset_def)

lemma set_offset_keys [simp]: "fst ` set (st_files (sd_state (set_offset key p s))) = fst ` set (st_files (sd_state s))"
proof -
  have "map fst (st_files (sd_state (set_offset key p s))) = map fst (st_files (sd_state s))"
    by (simp add: set_offset_def case_prod_beta comp_def)
  then show ?thesis by (metis list.set_map)
qed

text \<open>A line that is text and neither empty nor a comment takes the next number; no other line does.\<close>

definition counted :: "sender_env \<Rightarrow> bytes \<Rightarrow> bool" where
  "counted E raw = (strip_cr raw \<noteq> [] \<and> hd (strip_cr raw) \<noteq> 35 \<and> sv_decode E (strip_cr raw) \<noteq> None)"

lemma handle_trace:
  assumes "handle E lt raw s = Some s'"
  shows "st_files (sd_state s') = st_files (sd_state s)
    \<and> (if counted E raw
       then st_next (sd_state s') = st_next (sd_state s) + 1 \<and> sd_sent s' = sd_sent s @
         [\<lparr>sn_type = lt, sn_line = the (sv_decode E (strip_cr raw)), sn_seq = st_next (sd_state s), sn_run = None, sn_offset = 0\<rparr>]
       else st_next (sd_state s') = st_next (sd_state s) \<and> sd_sent s' = sd_sent s)"
proof (cases "counted E raw")
  case True
  then obtain line okay s1 where "sv_decode E (strip_cr raw) = Some line" "send_record E lt line (st_next (sd_state s)) None 0 s = Some (okay, s1)"
      "s' = count_sent (set_next (st_next (sd_state s) + 1) s1)"
    using assms by (auto simp: handle_def counted_def Let_def split: if_splits option.splits)
  then show ?thesis using send_record_trace True by simp
next
  case False
  then show ?thesis using assms by (auto simp: handle_def counted_def Let_def split: if_splits option.splits)
qed

lemma offset_of_set: "key \<in> fst ` set (st_files (sd_state s)) \<Longrightarrow> offset_of key (set_offset key p s) = p"
proof -
  have "key \<in> fst ` set fs \<Longrightarrow> map_of (map (\<lambda>(k, f). (k, if k = key then f\<lparr>tf_offset := p\<rparr> else f)) fs) key = Some ((the (map_of fs key))\<lparr>tf_offset := p\<rparr>)"
    for fs :: "(string \<times> tail_file) list"
    by (induction fs) auto
  then show "key \<in> fst ` set (st_files (sd_state s)) \<Longrightarrow> offset_of key (set_offset key p s) = p" by (simp add: offset_of_def set_offset_def)
qed

lemma feed_trace:
  assumes "feed_lines (handle E lt) key pos ls s = Some s'" "key \<in> fst ` set (st_files (sd_state s))"
  shows "key \<in> fst ` set (st_files (sd_state s')) \<and> (ls \<noteq> [] \<longrightarrow> offset_of key s' = pos + length (unlines ls))
    \<and> st_next (sd_state s') = st_next (sd_state s) + int (length (filter (counted E) ls))
    \<and> sd_sent s' = sd_sent s @ map (\<lambda>(i, raw). \<lparr>sn_type = lt, sn_line = the (sv_decode E (strip_cr raw)), sn_seq = st_next (sd_state s) + int i,
        sn_run = None, sn_offset = 0\<rparr>) (zip [0..<length (filter (counted E) ls)] (filter (counted E) ls))"
  using assms
proof (induction ls arbitrary: pos s)
  case (Cons l ls)
  obtain s1 where h: "handle E lt l s = Some s1" and f: "feed_lines (handle E lt) key (pos + length l + 1) ls (set_offset key (pos + length l + 1) s1) = Some s'"
    using Cons.prems(1) by (auto split: option.splits)
  let ?s1 = "set_offset key (pos + length l + 1) s1"
  have k: "key \<in> fst ` set (st_files (sd_state s1))" using handle_trace [OF h] Cons.prems(2) by simp
  note ih = Cons.IH [OF f] and o' = offset_of_set [OF k, of "pos + length l + 1"]
  have off: "offset_of key s' = pos + length (unlines (l # ls))"
    using ih k o' f by (cases ls) auto
  have z: "zip [0..<Suc n] (x # xs) = (0, x) # map (\<lambda>(i, r). (Suc i, r)) (zip [0..<n] xs)" for n and x :: bytes and xs
  proof -
    have "zip [0..<Suc n] (x # xs) = (0, x) # zip (map Suc [0..<n]) xs" by (simp only: upt_rec [of 0 "Suc n"] map_Suc_upt) simp
    then show ?thesis by (simp only: zip_map1)
  qed
  show ?case using ih k off handle_trace [OF h] by (auto simp: z split: if_splits simp del: upt_Suc)
qed simp

lemma read_lines_feed:
  assumes "drop (offset_of key s) content = unlines ls @ t" and "short_lines ls t" and "read_lines E key content lt s = Some (progressed, s')"
  shows "feed_lines (handle E lt) key (offset_of key s) (take MAX_LINES_PER_FILE_PASS ls) s = Some s'" (is ?f) "progressed = (ls \<noteq> [])" (is ?p)
proof -
  let ?rd = "\<lparr>rd_buf = [], rd_pos = offset_of key s, rd_skipping = False, rd_lines = 0\<rparr>" and ?ks = "take MAX_LINES_PER_FILE_PASS ls"
  obtain rd' where r: "read_chunks (handle E lt) key (drop (offset_of key s) content) ?rd s
       = map_option (\<lambda>s'. (rd', s')) (feed_lines (handle E lt) key (offset_of key s) ?ks s)" "rd_lines rd' = length ?ks"
    using read_chunks_lines [of ls t ?rd "drop (offset_of key s) content" "handle E lt" key s] assms(1,2) by auto
  then have "feed_lines (handle E lt) key (offset_of key s) ?ks s = Some s' \<and> progressed = (0 < length ?ks)"
    using assms(3) by (auto simp: read_lines_def Let_def)
  then show ?f ?p by (auto simp: MAX_LINES_PER_FILE_PASS_def)
qed

lemma handle_disk:
  assumes "handle E lt raw s = Some s'"
  shows "sd_disk s' = sd_disk s \<or> counted E raw \<and> sd_disk s' = (sd_state s)\<lparr>st_next := st_next (sd_state s) + 1\<rparr>"
proof (cases "counted E raw")
  case True
  then obtain line okay s1 where "send_record E lt line (st_next (sd_state s)) None 0 s = Some (okay, s1)"
      "s' = count_sent (set_next (st_next (sd_state s) + 1) s1)"
    using assms by (auto simp: handle_def counted_def Let_def split: if_splits option.splits)
  then show ?thesis using send_record_trace True by (auto simp: count_sent_def Let_def save_def set_next_def)
next
  case False
  then show ?thesis using assms by (auto simp: handle_def counted_def Let_def split: if_splits option.splits)
qed

lemma feed_disk:
  assumes "feed_lines (handle E lt) key (offset_of key s) ls s = Some s'" "key \<in> fst ` set (st_files (sd_state s))"
  shows "sd_disk s' = sd_disk s \<or> (\<exists>j < length ls. counted E (ls ! j) \<and> offset_of key (restart s') = offset_of key s + length (unlines (take j ls))
    \<and> st_next (sd_disk s') = st_next (sd_state s) + int (length (filter (counted E) (take (Suc j) ls))))"
  using assms
proof (induction ls arbitrary: s)
  case (Cons l ls)
  let ?p = "offset_of key s + length l + 1"
  obtain s1 where h: "handle E lt l s = Some s1" and f: "feed_lines (handle E lt) key ?p ls (set_offset key ?p s1) = Some s'"
    using Cons.prems(1) by (auto split: option.splits)
  have k: "key \<in> fst ` set (st_files (sd_state s1))" using handle_trace [OF h] Cons.prems(2) by simp
  note o' = offset_of_set [OF k, of ?p]
  have ih: "sd_disk s' = sd_disk s1 \<or> (\<exists>j < length ls. counted E (ls ! j) \<and> offset_of key (restart s') = ?p + length (unlines (take j ls))
    \<and> st_next (sd_disk s') = st_next (sd_state s1) + int (length (filter (counted E) (take (Suc j) ls))))"
    using Cons.IH [of "set_offset key ?p s1"] f k o' by simp
  show ?case
  proof (cases "sd_disk s' = sd_disk s1")
    case True
    then show ?thesis using handle_disk [OF h] by (auto simp: offset_of_def restart_def intro: exI [of _ 0])
  next
    case False
    then obtain j where "j < length ls" "counted E (ls ! j)" "offset_of key (restart s') = ?p + length (unlines (take j ls))"
        "st_next (sd_disk s') = st_next (sd_state s1) + int (length (filter (counted E) (take (Suc j) ls)))" using ih by blast
    then show ?thesis using handle_trace [OF h] by (intro disjI2 exI [of _ "Suc j"]) (auto split: if_splits)
  qed
qed simp

text \<open>
  C10: Tailing a file reads it line by line. Whatever the chunks the file is read in, a pass hands over exactly the next
  complete lines, at most five hundred, in order and once each; those that are text take consecutive sequence
  numbers; the offset ends after the last of them and an incomplete line stays unread. (No line is longer than the limit.)
\<close>

theorem tail_reads_lines:
  assumes "drop (offset_of key s) content = unlines ls @ t" and "short_lines ls t" and "key \<in> fst ` set (st_files (sd_state s))"
    and "read_lines E key content lt s = Some (progressed, s')"
  shows "let ks = take MAX_LINES_PER_FILE_PASS ls; cs = filter (counted E) ks in
      progressed = (ls \<noteq> []) \<and> offset_of key s' = offset_of key s + length (unlines ks)
    \<and> st_next (sd_state s') = st_next (sd_state s) + int (length cs)
    \<and> map sn_seq (drop (length (sd_sent s)) (sd_sent s')) = map (\<lambda>i. st_next (sd_state s) + int i) [0..<length cs]
    \<and> map sn_line (drop (length (sd_sent s)) (sd_sent s')) = map (\<lambda>raw. the (sv_decode E (strip_cr raw))) cs"
proof -
  let ?ks = "take MAX_LINES_PER_FILE_PASS ls"
  note f = read_lines_feed [OF assms(1,2,4)]
  note t = feed_trace [OF f(1) assms(3)]
  have o': "offset_of key s' = offset_of key s + length (unlines ?ks)" using t f(1) by (cases "?ks") auto
  have "map (sn_seq \<circ> (\<lambda>(i, raw). \<lparr>sn_type = lt, sn_line = the (sv_decode E (strip_cr raw)), sn_seq = st_next (sd_state s) + int i, sn_run = None, sn_offset = 0\<rparr>))
      (zip [0..<length cs] cs) = map (\<lambda>i. st_next (sd_state s) + int i) [0..<length cs]"
    "map (sn_line \<circ> (\<lambda>(i, raw). \<lparr>sn_type = lt, sn_line = the (sv_decode E (strip_cr raw)), sn_seq = st_next (sd_state s) + int i, sn_run = None, sn_offset = 0\<rparr>))
      (zip [0..<length cs] cs) = map (\<lambda>raw. the (sv_decode E (strip_cr raw))) cs" for cs
    by (auto intro: nth_equalityI)
  then show ?thesis using t o' f(2) unfolding Let_def by simp
qed

text \<open>
  C11: What a crash leaves behind: the saved state is the one of before the pass, or it was written while some line of
  the pass was handled. Then its offset is still the start of that line, so a restart skips nothing, but its next
  sequence number already counts the line.
\<close>

theorem saved_state_lags:
  assumes "drop (offset_of key s) content = unlines ls @ t" and "short_lines ls t" and "key \<in> fst ` set (st_files (sd_state s))"
    and "read_lines E key content lt s = Some (progressed, s')"
  shows "sd_disk s' = sd_disk s \<or> (\<exists>j < min MAX_LINES_PER_FILE_PASS (length ls). counted E (ls ! j)
    \<and> offset_of key (restart s') = offset_of key s + length (unlines (take j ls))
    \<and> st_next (sd_state (restart s')) = st_next (sd_state s) + int (length (filter (counted E) (take (Suc j) ls))))"
proof -
  have r: "sd_state (restart s') = sd_disk s'" by (simp add: restart_def)
  have t: "take j (take n ls) = take j ls" "take (Suc j) (take n ls) = take (Suc j) ls" "take n ls ! j = ls ! j" if "j < n" for j n
    using that by (simp_all add: min_absorb1)
  show ?thesis using feed_disk [OF read_lines_feed(1) [OF assms(1,2,4)] assms(3)] unfolding r by (force simp: t)
qed

text \<open>
  C37: So the numbers are not assigned again as they were: when the save falls on a line and the sender restarts, that
  line was sent under its number and is sent again under the next one, as a new event.
\<close>

theorem restart_repeats_line:
  assumes "drop (offset_of key s) content = unlines (raw # ls) @ t" and "short_lines (raw # ls) t" and "key \<in> fst ` set (st_files (sd_state s))"
    and "handle E lt raw s = Some s1" and "counted E raw" and "cf_persist_every (sd_cfg s) \<le> sd_since_save s + 1"
    and "read_lines E key content lt (restart (set_offset key p s1)) = Some (progressed, s2)"
  shows "\<exists>line. last (sd_sent s1) = \<lparr>sn_type = lt, sn_line = line, sn_seq = st_next (sd_state s), sn_run = None, sn_offset = 0\<rparr>
    \<and> hd (sd_sent s2) = \<lparr>sn_type = lt, sn_line = line, sn_seq = st_next (sd_state s) + 1, sn_run = None, sn_offset = 0\<rparr>"
proof -
  let ?r = "restart (set_offset key p s1)"
  have d: "sd_disk s1 = (sd_state s)\<lparr>st_next := st_next (sd_state s) + 1\<rparr>"
  proof -
    obtain line okay s0 where "send_record E lt line (st_next (sd_state s)) None 0 s = Some (okay, s0)"
        "s1 = count_sent (set_next (st_next (sd_state s) + 1) s0)"
      using assms(4,5) by (auto simp: handle_def counted_def Let_def split: if_splits option.splits)
    then show ?thesis using send_record_trace assms(6) by (auto simp: count_sent_def Let_def save_def set_next_def)
  qed
  then have r: "sd_state ?r = (sd_state s)\<lparr>st_next := st_next (sd_state s) + 1\<rparr>" "sd_sent ?r = []" by (simp_all add: restart_def set_offset_def)
  then have o': "offset_of key ?r = offset_of key s" "key \<in> fst ` set (st_files (sd_state ?r))" using assms(3) by (simp_all add: offset_of_def)
  have "feed_lines (handle E lt) key (offset_of key ?r) (take MAX_LINES_PER_FILE_PASS (raw # ls)) ?r = Some s2"
    by (rule read_lines_feed(1)) (use assms(1,2,7) o' in simp_all)
  moreover have "take MAX_LINES_PER_FILE_PASS (raw # ls) = raw # take (MAX_LINES_PER_FILE_PASS - 1) ls" by (simp add: MAX_LINES_PER_FILE_PASS_def)
  ultimately have "feed_lines (handle E lt) key (offset_of key ?r) (raw # take (MAX_LINES_PER_FILE_PASS - 1) ls) ?r = Some s2" by simp
  then have "hd (sd_sent s2) = \<lparr>sn_type = lt, sn_line = the (sv_decode E (strip_cr raw)), sn_seq = st_next (sd_state s) + 1, sn_run = None, sn_offset = 0\<rparr>"
    using feed_trace [OF _ o'(2)] r assms(5) by (fastforce simp: upt_rec simp del: upt_Suc)
  then show ?thesis using handle_trace [OF assms(4)] assms(5) by auto
qed

section \<open>A run\<close>

definition demo_tail_env :: sender_env where
  "demo_tail_env = \<lparr>sv_env = \<lparr>se_loads = \<lambda>_. Inl NotJson, se_dumps = \<lambda>_. Some [], se_str = \<lambda>_. []\<rparr>, sv_decode = \<lambda>b. Some (map (\<lambda>x. char_of (unat x)) b),
     sv_net = \<lambda>_. Handed, sv_now = 0\<rparr>"

definition demo_sender :: sender where
  "demo_sender = (let st = (state_new ''b'')\<lparr>st_next := 7, st_files := [(''1:2'', \<lparr>tf_path = ''conn.log'', tf_offset = 2, tf_fingerprint = ''f:2''\<rparr>)]\<rparr> in
     \<lparr>sd_cfg = \<lparr>cf_sensor = ''s'', cf_mode = ''tail'', cf_capture = ''pcap_replay'', cf_coverage = ''unknown'', cf_speed = 1, cf_max_records = 10,
        cf_spool_max = 10, cf_persist_every = 1\<rparr>, sd_state = st, sd_disk = st,
      sd_link = \<lparr>lk_key = [], lk_redundancy = 1, lk_frames = 0, lk_records = 0, lk_errors = 0, lk_last = - 1\<rparr>, sd_since_save = 0,
      sd_records_read = 0, sd_oversize = 0, sd_invalid = 0, sd_lag = None, sd_tracked = 0, sd_backlog = 0, sd_zeek = [], sd_status = [], sd_sent = [], sd_wire = []\<rparr>)"

lemma demo_handle: "handle demo_tail_env ''conn'' raw s \<noteq> None"
  by (simp add: handle_def demo_tail_env_def send_record_def normalize_def LOG_NAMES_def parse_line_def Let_def)

lemma demo_feed: "feed_lines (handle demo_tail_env ''conn'') key pos ls s \<noteq> None"
  using demo_handle by (induction ls arbitrary: pos s) (auto split: option.split)

lemma demo_read_lines:
  assumes "drop (offset_of key s) content = unlines ls @ t" "short_lines ls t"
  shows "\<exists>r s'. read_lines demo_tail_env key content ''conn'' s = Some (r, s')"
  using read_chunks_lines [of ls t "\<lparr>rd_buf = [], rd_pos = offset_of key s, rd_skipping = False, rd_lines = 0\<rparr>" "drop (offset_of key s) content"
      "handle demo_tail_env ''conn''" key s] assms demo_feed by (fastforce simp: read_lines_def Let_def)

lemma demo_offset: "offset_of ''1:2'' demo_sender = 2" "''1:2'' \<in> fst ` set (st_files (sd_state demo_sender))"
  "st_next (sd_state demo_sender) = 7" "sd_sent demo_sender = []"
  by (simp_all add: offset_of_def demo_sender_def state_new_def Let_def)

lemma demo_short: "short_lines [[97], [98]] [99]" by (simp add: short_lines_def MAX_LINE_BYTES_def)

lemma demo_counted [simp]: "counted demo_tail_env [97]" "counted demo_tail_env [98]"
  by (simp_all add: counted_def strip_cr_def demo_tail_env_def)

lemma demo_decode [simp]: "sv_decode demo_tail_env (strip_cr [97]) = Some ''a''" "sv_decode demo_tail_env (strip_cr [98]) = Some ''b''"
  by code_simp+

theorem tail_reads_lines_witness:
  "\<exists>s'. read_lines demo_tail_env ''1:2'' [0, 10, 97, 10, 98, 10, 99] ''conn'' demo_sender = Some (True, s')
     \<and> offset_of ''1:2'' s' = 6 \<and> map sn_seq (sd_sent s') = [7, 8] \<and> map sn_line (sd_sent s') = [''a'', ''b'']"
proof -
  have d: "drop (offset_of ''1:2'' demo_sender) [0, 10, 97, 10, 98, 10, 99] = unlines [[97], [98]] @ [99]" by (simp add: demo_offset)
  obtain r s' where r: "read_lines demo_tail_env ''1:2'' [0, 10, 97, 10, 98, 10, 99] ''conn'' demo_sender = Some (r, s')"
    using demo_read_lines [OF d demo_short] by blast
  show ?thesis using tail_reads_lines [OF d demo_short demo_offset(2) r] r
    by (simp add: MAX_LINES_PER_FILE_PASS_def demo_offset numeral_2_eq_2 Let_def)
qed

theorem saved_state_lags_witness:
  "\<exists>s'. read_lines demo_tail_env ''1:2'' [0, 10, 97, 10, 98, 10, 99] ''conn'' demo_sender = Some (True, s')
     \<and> (sd_disk s' = sd_disk demo_sender \<or> offset_of ''1:2'' (restart s') \<in> {2, 4})"
proof -
  have d: "drop (offset_of ''1:2'' demo_sender) [0, 10, 97, 10, 98, 10, 99] = unlines [[97], [98]] @ [99]" by (simp add: demo_offset)
  obtain r s' where r: "read_lines demo_tail_env ''1:2'' [0, 10, 97, 10, 98, 10, 99] ''conn'' demo_sender = Some (r, s')"
    using demo_read_lines [OF d demo_short] by blast
  have "r" using read_lines_feed(2) [OF d demo_short r] by simp
  moreover have l: "length (unlines (take j [[97], [98 :: 8 word]])) \<in> {0, 2}" if "j < min MAX_LINES_PER_FILE_PASS (length [[97], [98 :: 8 word]])" for j
  proof -
    have "j = 0 \<or> j = 1" using that by (auto simp: MAX_LINES_PER_FILE_PASS_def)
    then show ?thesis by (elim disjE) simp_all
  qed
  moreover have "sd_disk s' = sd_disk demo_sender \<or> offset_of ''1:2'' (restart s') \<in> {2, 4}"
    using saved_state_lags [OF d demo_short demo_offset(2) r] l unfolding demo_offset(1) by fastforce
  ultimately show ?thesis using r by auto
qed

theorem restart_repeats_line_witness:
  "\<exists>s1 s2. handle demo_tail_env ''conn'' [97] demo_sender = Some s1
     \<and> (\<exists>p. read_lines demo_tail_env ''1:2'' [0, 10, 97, 10, 98, 10, 99] ''conn'' (restart (set_offset ''1:2'' 4 s1)) = Some (p, s2))
     \<and> sn_line (last (sd_sent s1)) = sn_line (hd (sd_sent s2)) \<and> sn_seq (last (sd_sent s1)) = 7 \<and> sn_seq (hd (sd_sent s2)) = 8"
proof -
  obtain s1 where h: "handle demo_tail_env ''conn'' [97] demo_sender = Some s1" using demo_handle by blast
  let ?r = "restart (set_offset ''1:2'' 4 s1)"
  have d: "drop (offset_of ''1:2'' demo_sender) [0, 10, 97, 10, 98, 10, 99] = unlines [[97], [98]] @ [99]" by (simp add: demo_offset)
  have "sd_disk s1 = sd_disk demo_sender \<or> st_files (sd_disk s1) = st_files (sd_state demo_sender)" using handle_disk [OF h] by auto
  then have "offset_of ''1:2'' ?r = 2" by (auto simp: offset_of_def restart_def demo_sender_def state_new_def Let_def set_offset_def)
  then obtain p s2 where r: "read_lines demo_tail_env ''1:2'' [0, 10, 97, 10, 98, 10, 99] ''conn'' ?r = Some (p, s2)"
    using demo_read_lines [of "''1:2''" ?r "[0, 10, 97, 10, 98, 10, 99]" "[[97], [98]]" "[99]"] demo_short by auto
  have c: "cf_persist_every (sd_cfg demo_sender) \<le> sd_since_save demo_sender + 1" by (simp add: demo_sender_def Let_def)
  show ?thesis using restart_repeats_line [OF d demo_short demo_offset(2) h demo_counted(1) c r] h r by (auto simp: demo_offset)
qed

section \<open>Lines over the limit\<close>

lemma read_chunks_oversize:
  assumes "10 \<notin> set (rd_buf rd @ rest)" "\<not> rd_skipping rd" "rd_lines rd = 0" "length (rd_buf rd) + n * CHUNK = MAX_LINE_BYTES"
    and "n * CHUNK < length rest" "length rest \<le> Suc n * CHUNK"
  shows "read_chunks h key rest rd s = Some (rd\<lparr>rd_buf := [], rd_pos := rd_pos rd + length (rd_buf rd) + length rest, rd_skipping := True\<rparr>,
    set_offset key (rd_pos rd + length (rd_buf rd) + length rest) (s\<lparr>sd_oversize := sd_oversize s + 1\<rparr>))"
  using assms
proof (induction n arbitrary: rd rest)
  case 0
  let ?rd = "rd\<lparr>rd_buf := rd_buf rd @ rest\<rparr>"
  have "newline (rd_buf ?rd) = None" "take CHUNK rest = rest" "drop CHUNK rest = []" "rest \<noteq> []" using 0 by (auto simp: newline_def)
  then show ?case using 0 by (simp add: read_chunks.simps [of h key rest] read_chunks.simps [of h key "[]"] scan.simps MAX_LINES_PER_FILE_PASS_def add.assoc)
next
  case (Suc n)
  let ?rd = "rd\<lparr>rd_buf := rd_buf rd @ take CHUNK rest\<rparr>"
  have n: "newline (rd_buf ?rd) = None" "rest \<noteq> []" "length (take CHUNK rest) = CHUNK"
    using Suc.prems by (auto simp: newline_def dest: in_set_takeD)
  then have l: "length (rd_buf ?rd) + n * CHUNK = MAX_LINE_BYTES" using Suc.prems by simp
  have "read_chunks h key rest rd s = read_chunks h key (drop CHUNK rest) ?rd s"
    using n l Suc.prems(2,3) by (subst read_chunks.simps) (simp add: scan.simps MAX_LINES_PER_FILE_PASS_def)
  also have "\<dots> = Some (?rd\<lparr>rd_buf := [], rd_pos := rd_pos ?rd + length (rd_buf ?rd) + length (drop CHUNK rest), rd_skipping := True\<rparr>,
    set_offset key (rd_pos ?rd + length (rd_buf ?rd) + length (drop CHUNK rest)) (s\<lparr>sd_oversize := sd_oversize s + 1\<rparr>))"
    using Suc.prems l by (intro Suc.IH) simp_all
  finally show ?case using Suc.prems(5) by (simp add: add.assoc)
qed

lemma read_lines_oversize:
  assumes "10 \<notin> set big" "MAX_LINE_BYTES < length big" "length big \<le> 17 * CHUNK" "offset_of key s = 0"
  shows "read_lines E key big lt s = Some (False, set_offset key (length big) (s\<lparr>sd_oversize := sd_oversize s + 1\<rparr>))"
proof -
  have "read_chunks (handle E lt) key big \<lparr>rd_buf = [], rd_pos = 0, rd_skipping = False, rd_lines = 0\<rparr> s
      = Some (\<lparr>rd_buf = [], rd_pos = length big, rd_skipping = True, rd_lines = 0\<rparr>, set_offset key (length big) (s\<lparr>sd_oversize := sd_oversize s + 1\<rparr>))"
    using assms(1-3) read_chunks_oversize [of "\<lparr>rd_buf = [], rd_pos = 0, rd_skipping = False, rd_lines = 0\<rparr>" big 16] by (simp add: CHUNK_def MAX_LINE_BYTES_def)
  then show ?thesis using assms(4) by (simp add: read_lines_def)
qed

text \<open>
  C38: The reader discards an oversized line and skips to its newline, but only within one pass: when the file ends inside
  such a line the next pass starts in the middle of it, and sends what is left of it as a record of its own.
\<close>

theorem oversize_rest_is_sent:
  assumes "10 \<notin> set big" and "MAX_LINE_BYTES < length big" and "length big \<le> 17 * CHUNK"
    and "10 \<notin> set rest" and "length rest \<le> MAX_LINE_BYTES" and "counted E rest"
    and "key \<in> fst ` set (st_files (sd_state s))" and "offset_of key s = 0"
    and "read_lines E key big lt s = Some (p1, s1)" and "read_lines E key (big @ rest @ [10]) lt s1 = Some (p2, s2)"
  shows "\<not> p1 \<and> sd_oversize s1 = sd_oversize s + 1 \<and> sd_sent s1 = sd_sent s
    \<and> sd_sent s2 = sd_sent s @ [\<lparr>sn_type = lt, sn_line = the (sv_decode E (strip_cr rest)), sn_seq = st_next (sd_state s), sn_run = None, sn_offset = 0\<rparr>]"
proof -
  let ?s0 = "s\<lparr>sd_oversize := sd_oversize s + 1\<rparr>"
  have r: "\<not> p1" "s1 = set_offset key (length big) ?s0" using assms(9) read_lines_oversize [OF assms(1,2,3,8)] by auto
  have k: "offset_of key s1 = length big" "key \<in> fst ` set (st_files (sd_state s1))" using offset_of_set [of key ?s0] assms(7) r(2) by simp_all
  have "feed_lines (handle E lt) key (offset_of key s1) (take MAX_LINES_PER_FILE_PASS [rest]) s1 = Some s2"
    by (rule read_lines_feed(1) [OF _ _ assms(10), where t = "[]"]) (use assms(4,5) k in \<open>simp_all add: short_lines_def\<close>)
  moreover have "take MAX_LINES_PER_FILE_PASS [rest] = [rest]" by (simp add: MAX_LINES_PER_FILE_PASS_def)
  ultimately have "feed_lines (handle E lt) key (offset_of key s1) [rest] s1 = Some s2" by simp
  from feed_trace [OF this k(2)] show ?thesis using r assms(6) by (simp add: set_offset_def)
qed

theorem oversize_rest_is_sent_witness:
  "\<exists>s1 s2. read_lines demo_tail_env ''1:2'' (replicate (Suc (2 ^ 20)) 0) ''conn'' (set_offset ''1:2'' 0 demo_sender) = Some (False, s1)
     \<and> (\<exists>p. read_lines demo_tail_env ''1:2'' (replicate (Suc (2 ^ 20)) 0 @ [97] @ [10]) ''conn'' s1 = Some (p, s2)) \<and> map sn_line (sd_sent s2) = [''a'']"
proof -
  let ?big = "replicate (Suc (2 ^ 20)) (0 :: 8 word)" and ?s = "set_offset ''1:2'' 0 demo_sender"
  have big: "10 \<notin> set ?big" "MAX_LINE_BYTES < length ?big" "length ?big \<le> 17 * CHUNK" by (simp_all add: MAX_LINE_BYTES_def CHUNK_def)
  have o': "offset_of ''1:2'' ?s = 0" "''1:2'' \<in> fst ` set (st_files (sd_state ?s))" using offset_of_set demo_offset(2) by simp_all
  obtain s1 where r: "read_lines demo_tail_env ''1:2'' ?big ''conn'' ?s = Some (False, s1)"
      "s1 = set_offset ''1:2'' (length ?big) (?s\<lparr>sd_oversize := sd_oversize ?s + 1\<rparr>)"
    using read_lines_oversize [OF big o'(1)] by blast
  have "offset_of ''1:2'' s1 = length ?big" using offset_of_set [of "''1:2''" "?s\<lparr>sd_oversize := sd_oversize ?s + 1\<rparr>"] o'(2) r(2) by simp
  then obtain p s2 where r2: "read_lines demo_tail_env ''1:2'' (?big @ [97] @ [10]) ''conn'' s1 = Some (p, s2)"
    using demo_read_lines [of "''1:2''" s1 "?big @ [97] @ [10]" "[[97]]" "[]"] by (auto simp: short_lines_def MAX_LINE_BYTES_def simp del: replicate.simps)
  have "sd_sent s2 = sd_sent ?s @ [\<lparr>sn_type = ''conn'', sn_line = the (sv_decode demo_tail_env (strip_cr [97])), sn_seq = st_next (sd_state ?s), sn_run = None, sn_offset = 0\<rparr>]"
    using oversize_rest_is_sent [OF big _ _ demo_counted(1) o'(2,1) r(1) r2] by (simp add: MAX_LINE_BYTES_def)
  then have "map sn_line (sd_sent s2) = [''a'']" by (simp add: demo_offset)
  with r(1) r2 show ?thesis by (intro exI conjI)
qed

section \<open>Rotation\<close>

lemma hex_no_colon: "CHR '':'' \<notin> set (hex_of bs)"
proof -
  have "digit_char n \<noteq> CHR '':''" if "n < 16" for n
    using digit_val_char [OF that] by (auto simp: digit_val_def)
  from this [symmetric] show ?thesis by (induction bs) (auto simp: hex_of_Cons hex_byte_def nibbles_less)
qed

lemma dec_not_space: "is_dec c \<Longrightarrow> \<not> is_space c"
  by (auto simp: is_dec_def is_space_def Let_def)

lemma strip_id: "\<forall>x \<in> set xs. \<not> p x \<Longrightarrow> strip p xs = xs"
proof -
  assume a: "\<forall>x \<in> set xs. \<not> p x"
  have d: "dropWhile p ys = ys" if "set ys \<subseteq> set xs" for ys using a that by (cases ys) auto
  show ?thesis by (simp add: strip_def rstrip_def d)
qed

lemma parse_int_str_of_nat [simp]: "parse_int (str_of_nat n) = Some (int n)"
proof -
  obtain c cs where c: "str_of_nat n = c # cs" using str_of_nat_nonempty by (cases "str_of_nat n") auto
  have d: "list_all is_dec (str_of_nat n)" by simp
  then have "\<forall>x \<in> set (str_of_nat n). \<not> is_space x" by (auto simp: list_all_iff dec_not_space)
  then have "strip is_space (str_of_nat n) = str_of_nat n" by (rule strip_id)
  moreover have "is_dec c" using d c by simp
  then have "c \<noteq> CHR ''-''" "c \<noteq> CHR ''+''" by (auto simp: is_dec_def Let_def)
  ultimately show ?thesis using d c dec_val_str_of_nat [of n] ungroup_digits [OF d] by (simp add: parse_int_def del: dec_val_str_of_nat)
qed

lemma tagged_length_fingerprint: "tagged_length (take 32 (hex_of bs) @ '':'' @ str_of_nat n) = Some (int n)"
proof -
  have "CHR '':'' \<notin> set (str_of_nat n)" using list_all_str_of_nat [of n] by (auto simp: list_all_iff is_dec_def Let_def)
  moreover have "CHR '':'' \<notin> set (take 32 (hex_of bs))" using hex_no_colon [of bs] by (meson in_set_takeD)
  ultimately have "split_on (CHR '':'') (take 32 (hex_of bs) @ CHR '':'' # str_of_nat n) = [take 32 (hex_of bs), str_of_nat n]"
    by (metis split_on_append split_on_no_sep)
  then show ?thesis by (simp add: tagged_length_def)
qed

text \<open>
  C17: A tracked file keeps its position across renames and growth: with the bytes it had when it was last fingerprinted
  still in front, reading goes on at the stored offset, whatever its name. It starts from zero when it has become
  shorter than the offset or its first bytes have another hash.
\<close>

theorem rotation_keeps_position:
  assumes "map_of (st_files (sd_state s)) (lf_key p) = Some f"
    and "file_fingerprint old (min (length old) FINGERPRINT_BYTES) = Some (tf_fingerprint f)"
  shows "(\<forall>more. lf_content p = old @ more \<and> tf_offset f \<le> length (lf_content p) \<longrightarrow> offset_of (lf_key p) (track p fp s) = tf_offset f)
    \<and> (length (lf_content p) < tf_offset f \<or> file_fingerprint (lf_content p) (min (length old) FINGERPRINT_BYTES) \<noteq> Some (tf_fingerprint f)
       \<longrightarrow> offset_of (lf_key p) (track p fp s) = 0)"
proof -
  let ?n = "min (length old) FINGERPRINT_BYTES"
  have fp: "tf_fingerprint f = take 32 (hex_of (sha256 (take ?n old))) @ '':'' @ str_of_nat ?n" using assms(2) by (auto simp: file_fingerprint_def)
  have len: "file_fingerprint c n = Some x \<Longrightarrow> n \<le> length c" for c n x by (auto simp: file_fingerprint_def split: if_splits)
  have sp: "same_prefix c (tf_fingerprint f) = (file_fingerprint c ?n = Some (tf_fingerprint f))" for c
    using len [of c ?n] unfolding same_prefix_def fp tagged_length_fingerprint by auto
  have "offset_of (lf_key p) (track p fp s) = (if length (lf_content p) < tf_offset f \<or> \<not> same_prefix (lf_content p) (tf_fingerprint f) then 0 else tf_offset f)"
    using assms(1) by (simp add: offset_of_def track_def Let_def)
  moreover have "file_fingerprint (old @ more) ?n = Some (tf_fingerprint f)" for more unfolding fp by (simp add: file_fingerprint_def min_def)
  ultimately show ?thesis unfolding sp by auto
qed

theorem rotation_keeps_position_witness:
  "offset_of ''1:2'' (track \<lparr>lf_name = ''conn.1.log'', lf_path = ''d/conn.1.log'', lf_key = ''1:2'', lf_content = [97, 10, 98]\<rparr> ''f''
     (demo_sender\<lparr>sd_state := (state_new ''b'')\<lparr>st_files :=
        [(''1:2'', \<lparr>tf_path = ''d/conn.log'', tf_offset = 2, tf_fingerprint = the (file_fingerprint [97, 10] 2)\<rparr>)]\<rparr>\<rparr>)) = 2"
  (is "offset_of _ (track ?p _ ?s) = 2")
proof -
  let ?f = "\<lparr>tf_path = ''d/conn.log'', tf_offset = 2, tf_fingerprint = the (file_fingerprint [97, 10] 2)\<rparr>"
  have "map_of (st_files (sd_state ?s)) (lf_key ?p) = Some ?f" by simp
  moreover have "file_fingerprint [97, 10] (min (length [97, 10 :: 8 word]) FINGERPRINT_BYTES) = Some (tf_fingerprint ?f)"
    by (simp add: file_fingerprint_def FINGERPRINT_BYTES_def)
  ultimately show ?thesis using rotation_keeps_position [of ?s ?p ?f "[97, 10]" "''f''"] by simp
qed

end
