(* ===== verification/Replay.thy ===== *)
theory Replay
  imports Tail "HOL-Library.Product_Lexorder"
begin

text \<open>
  Replaying completed run directories (\<^verbatim>\<open>replay.py\<close> of \<^verbatim>\<open>ingest/sender/sih_sender\<close>) and the
  health records of the sender (\<^verbatim>\<open>__main__.py\<close>). A run is given by its directory: the name, whether
  \<^verbatim>\<open>.done\<close> is there, and its files by name and content in the order of their paths. \<open>stop\<close>
  tells before which record the stop event is seen; the waits that pace the records against the wall clock are left
  out. The theorem shows the contract of the module: a run that is interrupted and resumed sends every record under
  the same number again.
\<close>

section \<open>The records of a run in order\<close>

type_synonym index_item = "int \<times> nat \<times> nat \<times> nat"

record run_dir =
  rd_name :: string
  rd_done :: bool
  rd_files :: "(string \<times> bytes) list"

definition run_id_ok :: "string \<Rightarrow> bool" where
  "run_id_ok s = (s \<noteq> [] \<and> length s \<le> 64 \<and> list_all (\<lambda>c. is_dec c \<or> is_letter c \<or> c \<in> set ''._-'') s)"

definition run_files :: "run_dir \<Rightarrow> (string \<times> bytes) list" where
  "run_files d = filter (\<lambda>(n, c). log_type_of n \<noteq> None) (rd_files d)"

text \<open>The lines of a binary file, each with its newline if it has one.\<close>

fun raw_lines :: "bytes \<Rightarrow> bytes list" where
  "raw_lines [] = []"
| "raw_lines (b # bs) = (if b = 10 then [10] # raw_lines bs
     else case raw_lines bs of [] \<Rightarrow> [[b]] | l # ls \<Rightarrow> (b # l) # ls)"

definition line_of :: "bytes \<Rightarrow> bytes" where
  "line_of raw = strip_cr (rev (dropWhile (\<lambda>b. b = 10) (rev raw)))"

text \<open>One file: whether the limit was reached, the items so far and the lines without a time. \<open>None\<close>: an exception.\<close>

fun index_lines :: "sender_env \<Rightarrow> int \<Rightarrow> string \<Rightarrow> nat \<Rightarrow> nat \<Rightarrow> bytes list \<Rightarrow> index_item list \<times> nat \<Rightarrow> (bool \<times> index_item list \<times> nat) option" where
  "index_lines E limit lt fi pos [] acc = Some (False, acc)"
| "index_lines E limit lt fi pos (raw # rs) (items, bad) =
     (let line = line_of raw; pos' = pos + length raw in
      if line = [] \<or> hd line = 35 then index_lines E limit lt fi pos' rs (items, bad)
      else (case sv_decode E line of
        None \<Rightarrow> index_lines E limit lt fi pos' rs (items, bad + 1)
      | Some txt' \<Rightarrow> (case emit_time (se_loads (sv_env E)) lt txt' of
          None \<Rightarrow> None
        | Some (Inl _) \<Rightarrow> index_lines E limit lt fi pos' rs (items, bad + 1)
        | Some (Inr emit) \<Rightarrow>
            (let items' = items @ [(emit, fi, pos, length line)] in
             if int (length items') \<ge> limit then Some (True, items', bad)
             else index_lines E limit lt fi pos' rs (items', bad)))))"

fun index_files :: "sender_env \<Rightarrow> int \<Rightarrow> nat \<Rightarrow> (string \<times> bytes) list \<Rightarrow> index_item list \<times> nat \<Rightarrow> (index_item list \<times> nat) option" where
  "index_files E limit fi [] acc = Some acc"
| "index_files E limit fi ((name, content) # fs) acc =
     (case index_lines E limit (the (log_type_of name)) fi 0 (raw_lines content) acc of
        None \<Rightarrow> None
      | Some (full, acc') \<Rightarrow> if full then Some acc' else index_files E limit (fi + 1) fs acc')"

definition index :: "sender_env \<Rightarrow> int \<Rightarrow> (string \<times> bytes) list \<Rightarrow> (index_item list \<times> nat) option" where
  "index E limit fs = map_option (\<lambda>(items, bad). (sort items, bad)) (index_files E limit 0 fs ([], 0))"

section \<open>Choosing a run\<close>

text \<open>\<open>dirs\<close>: the directories under the root in the order of their names.\<close>

definition next_run :: "run_dir list \<Rightarrow> sender \<Rightarrow> run_dir option \<times> sender" where
  "next_run dirs s =
     (case Option.bind (st_run (sd_state s)) (\<lambda>r. find (\<lambda>d. rd_name d = rr_id r) dirs) of
        Some d \<Rightarrow> (Some d, s)
      | None \<Rightarrow>
          (let s1 = (case st_run (sd_state s) of None \<Rightarrow> s
                       | Some r \<Rightarrow> save (s\<lparr>sd_state := mark_completed (rr_id r) (sd_state s)\<rparr>))
           in (find (\<lambda>d. run_id_ok (rd_name d) \<and> rd_done d \<and> rd_name d \<notin> set (st_completed (sd_state s1))) dirs, s1)))"

section \<open>Replaying a run\<close>

definition new_run :: "int \<Rightarrow> string \<Rightarrow> index_item list \<Rightarrow> sender \<Rightarrow> replay_run" where
  "new_run now rid items s =
     (let wall = now + 500000; first = (case items of [] \<Rightarrow> 0 | it # _ \<Rightarrow> fst it)
      in \<lparr>rr_id = rid, rr_base = st_next (sd_state s), rr_total = int (length items), rr_next = 0, rr_wall = wall,
          rr_first = first, rr_offset = wall - first\<rparr>)"

definition set_run :: "replay_run \<Rightarrow> sender \<Rightarrow> sender" where
  "set_run r s = s\<lparr>sd_state := (sd_state s)\<lparr>st_run := Some r\<rparr>\<rparr>"

text \<open>A new run reserves its sequence numbers and is saved before its first record.\<close>

definition begin_run :: "int \<Rightarrow> string \<Rightarrow> index_item list \<Rightarrow> sender \<Rightarrow> replay_run \<times> sender" where
  "begin_run now rid items s =
     (case st_run (sd_state s) of
        Some r \<Rightarrow> if rr_id r = rid then (r, s)
                  else (let q = new_run now rid items s in (q, save (set_next (rr_base q + rr_total q) (set_run q s))))
      | None \<Rightarrow> (let q = new_run now rid items s in (q, save (set_next (rr_base q + rr_total q) (set_run q s)))))"

definition run_limit :: "replay_run \<Rightarrow> index_item list \<Rightarrow> nat" where
  "run_limit r items = nat (min (rr_total r) (int (length items)))"

definition read_item :: "sender_env \<Rightarrow> (string \<times> bytes) list \<Rightarrow> index_item \<Rightarrow> (string \<times> string) option" where
  "read_item E fs it = (case it of (emit, fi, off, len) \<Rightarrow> (case fs ! fi of (name, content) \<Rightarrow>
     map_option (\<lambda>txt'. (the (log_type_of name), txt')) (sv_decode E (take len (drop off content)))))"

text \<open>The loop over the indices that are left; \<open>k\<close> counts the records since the last save.\<close>

fun replay_steps :: "sender_env \<Rightarrow> (nat \<Rightarrow> bool) \<Rightarrow> (string \<times> bytes) list \<Rightarrow> index_item list \<Rightarrow> replay_run \<Rightarrow> int \<Rightarrow> nat list \<Rightarrow> sender
    \<Rightarrow> (replay_run \<times> sender) option" where
  "replay_steps E stop fs items r k [] s = Some (r, s)"
| "replay_steps E stop fs items r k (i # is) s =
     (if stop i then Some (r, s)
      else (case read_item E fs (items ! i) of None \<Rightarrow> None
      | Some (lt, line) \<Rightarrow>
          (case send_record E lt line (rr_base r + int i) (Some (rr_id r)) (rr_offset r) s of None \<Rightarrow> None
           | Some (_, s1) \<Rightarrow>
               (let r1 = r\<lparr>rr_next := int i + 1\<rparr>;
                    s2 = (set_run r1 s1)\<lparr>sd_backlog := (int (run_limit r items) - int i - 1) * 400\<rparr>
                in if k + 1 \<ge> cf_persist_every (sd_cfg s2) then replay_steps E stop fs items r1 0 is (save s2)
                   else replay_steps E stop fs items r1 (k + 1) is s2))))"

definition finish_run :: "string \<Rightarrow> index_item list \<Rightarrow> replay_run \<times> sender \<Rightarrow> sender" where
  "finish_run rid items rs = (case rs of (r, s) \<Rightarrow>
     save (if rr_next r \<ge> min (rr_total r) (int (length items))
           then s\<lparr>sd_state := mark_completed rid (sd_state s), sd_backlog := 0\<rparr> else s))"

definition replay_begin :: "sender_env \<Rightarrow> int \<Rightarrow> run_dir \<Rightarrow> sender \<Rightarrow> (index_item list \<times> replay_run \<times> sender) option" where
  "replay_begin E now d s =
     map_option (\<lambda>(items, bad). (items, begin_run now (rd_name d) items (s\<lparr>sd_invalid := sd_invalid s + int bad\<rparr>)))
       (index E (cf_max_records (sd_cfg s)) (run_files d))"

definition replay_run_dir :: "sender_env \<Rightarrow> int \<Rightarrow> (nat \<Rightarrow> bool) \<Rightarrow> run_dir \<Rightarrow> sender \<Rightarrow> sender option" where
  "replay_run_dir E now stop d s =
     (case replay_begin E now d s of None \<Rightarrow> None
      | Some (items, r, s1) \<Rightarrow>
          map_option (finish_run (rd_name d) items)
            (replay_steps E stop (run_files d) items r 0 [nat (rr_next r)..<run_limit r items] s1))"

text \<open>One turn of \<^verbatim>\<open>run\<close>.\<close>

definition replay_turn :: "sender_env \<Rightarrow> int \<Rightarrow> (nat \<Rightarrow> bool) \<Rightarrow> run_dir list \<Rightarrow> sender \<Rightarrow> sender option" where
  "replay_turn E now stop dirs s =
     (case next_run dirs s of
        (None, s1) \<Rightarrow> Some (s1\<lparr>sd_status := ''idle'', sd_zeek := ''not_running''\<rparr>)
      | (Some d, s1) \<Rightarrow> replay_run_dir E now stop d (s1\<lparr>sd_status := ''running'', sd_zeek := ''finished''\<rparr>))"

section \<open>Health records\<close>

definition health_record :: "int \<Rightarrow> sender \<Rightarrow> dict option \<times> sender" where
  "health_record now s =
     (let st = sd_state s; run = st_run st; lst = lk_last (sd_link s) in
      (map_option (\<lambda>emitted.
        [(''health_schema_version'', JStr ''1.0.0''), (''sensor_id'', JStr (cf_sensor (sd_cfg s))), (''sensor_boot_id'', JStr (st_boot st)),
         (''health_seq'', JInt (st_health st)), (''emitted_at'', JStr emitted), (''sender_state'', JStr (sd_status s)), (''mode'', JStr (cf_mode (sd_cfg s))),
         (''replay_run_id'', of_opt_str (map_option rr_id run)), (''last_sequence_sent'', if lst \<ge> 0 then JInt lst else JNull),
         (''records_read_total'', JInt (sd_records_read s)), (''frames_sent_total'', JInt (int (lk_frames (sd_link s)))),
         (''records_rejected_oversize_total'', JInt (sd_oversize s)), (''records_invalid_local_total'', JInt (sd_invalid s)),
         (''spool_bytes'', JInt (max 0 (sd_backlog s))), (''spool_max_bytes'', JInt (cf_spool_max (sd_cfg s))),
         (''tail_lag_bytes'', of_opt_int (sd_lag s)), (''files_tracked'', JInt (int (sd_tracked s))),
         (''zeek_status'', JStr (if cf_mode (sd_cfg s) = ''tail'' then ''unknown'' else sd_zeek s)),
         (''replay_records_total'', of_opt_int (map_option rr_total run)), (''replay_records_sent'', of_opt_int (map_option rr_next run))])
        (format_us now),
       s\<lparr>sd_state := st\<lparr>st_health := st_health st + 1\<rparr>\<rparr>))"

text \<open>A health record that cannot be built or sent is dropped: nothing it raises reaches the sender.\<close>

definition send_health :: "sender_env \<Rightarrow> sender \<Rightarrow> sender" where
  "send_health E s =
     (case health_record (sv_now E) s of
        (None, s1) \<Rightarrow> s1
      | (Some h, s1) \<Rightarrow>
          (case se_dumps (sv_env E) (JObj h) of None \<Rightarrow> s1
           | Some out \<Rightarrow>
               (case link_send (sv_net E) TYPE_HEALTH (cf_sensor (sd_cfg s)) (st_boot (sd_state s)) (st_health (sd_state s)) out (sd_link s) of
                  Inl _ \<Rightarrow> s1
                | Inr (lk, wire) \<Rightarrow> s1\<lparr>sd_link := lk, sd_wire := sd_wire s1 @ wire\<rparr>)))"

section \<open>The index points at the lines\<close>

lemma concat_raw_lines [simp]: "concat (raw_lines bs) = bs"
  by (induction bs) (auto split: list.splits)

lemma line_of_prefix: "take (length (line_of raw)) raw = line_of raw"
proof -
  have p: "\<exists>t. xs = rev (dropWhile P (rev xs)) @ t" for P and xs :: bytes
    by (metis takeWhile_dropWhile_id rev_append rev_rev_ident)
  obtain t where t: "raw = rev (dropWhile (\<lambda>b. b = 10) (rev raw)) @ t" using p by blast
  have "\<exists>u. xs = strip_cr xs @ u" for xs by (auto simp: strip_cr_def intro: append_butlast_last_id [symmetric])
  then obtain u where "rev (dropWhile (\<lambda>b. b = 10) (rev raw)) = line_of raw @ u" unfolding line_of_def by blast
  then show ?thesis using t by (metis append.assoc append_eq_conv_conj)
qed

definition item_ok :: "sender_env \<Rightarrow> (string \<times> bytes) list \<Rightarrow> index_item \<Rightarrow> bool" where
  "item_ok E fs it = (case read_item E fs it of None \<Rightarrow> False
     | Some (lt, line) \<Rightarrow> emit_time (se_loads (sv_env E)) lt line = Some (Inr (fst it)))"

lemma index_lines_ok:
  assumes "index_lines E limit lt fi pos raws (items, bad) = Some (full, items', bad')"
    and "fi < length fs" "fs ! fi = (name, content)" "lt = the (log_type_of name)" "drop pos content = concat raws"
    and "\<forall>it \<in> set items. item_ok E fs it"
  shows "\<forall>it \<in> set items'. item_ok E fs it"
  using assms(1,5,6)
proof (induction raws arbitrary: pos items bad)
  case (Cons raw raws)
  have d: "drop (pos + length raw) content = concat raws" 
  proof -
    have "drop (length raw) (drop pos content) = concat raws" using Cons.prems(2) by simp
    then show ?thesis by (simp add: add.commute)
  qed
  have line: "take (length (line_of raw)) (drop pos content) = line_of raw"
  proof -
    have "raw = line_of raw @ drop (length (line_of raw)) raw" using line_of_prefix by (metis append_take_drop_id)
    then have "drop pos content = line_of raw @ drop (length (line_of raw)) raw @ concat raws" using Cons.prems(2) by simp
    then show ?thesis by simp
  qed
  note ih = Cons.IH [OF _ d]
  show ?case
  proof (cases "line_of raw = [] \<or> hd (line_of raw) = 35")
    case True
    then show ?thesis using Cons.prems ih by (simp add: Let_def split: if_splits)
  next
    case nb: False
    show ?thesis
    proof (cases "sv_decode E (line_of raw)")
      case None
      then show ?thesis using nb Cons.prems ih by (simp add: Let_def split: if_splits)
    next
      case (Some txt')
      show ?thesis
      proof (cases "emit_time (se_loads (sv_env E)) lt txt'")
        case None
        then show ?thesis using nb Some Cons.prems(1) by (simp add: Let_def split: if_splits)
      next
        case em: (Some r)
        show ?thesis
        proof (cases r)
          case (Inl e)
          then show ?thesis using nb Some em Cons.prems ih by (simp add: Let_def split: if_splits)
        next
          case (Inr emit)
          have "item_ok E fs (emit, fi, pos, length (line_of raw))"
            using Some em Inr assms(3,4) line by (simp add: item_ok_def read_item_def)
          then have ok: "\<forall>it \<in> set (items @ [(emit, fi, pos, length (line_of raw))]). item_ok E fs it" using Cons.prems(3) by simp
          show ?thesis
          proof (cases "int (length (items @ [(emit, fi, pos, length (line_of raw))])) \<ge> limit")
            case True
            then have "items' = items @ [(emit, fi, pos, length (line_of raw))]" using nb Some em Inr Cons.prems(1) by (simp add: Let_def)
            then show ?thesis using ok by simp
          next
            case False
            then have "index_lines E limit lt fi (pos + length raw) raws (items @ [(emit, fi, pos, length (line_of raw))], bad) = Some (full, items', bad')"
              using nb Some em Inr Cons.prems(1) by (simp add: Let_def)
            then show ?thesis using ih ok by blast
          qed
        qed
      qed
    qed
  qed
qed simp

lemma index_files_ok:
  assumes "index_files E limit fi gs (items, bad) = Some (items', bad')" "drop fi fs = gs" "\<forall>it \<in> set items. item_ok E fs it"
  shows "\<forall>it \<in> set items'. item_ok E fs it"
  using assms
proof (induction gs arbitrary: fi items bad)
  case (Cons g gs)
  obtain name content where g: "g = (name, content)" by fastforce
  obtain full items1 bad1 where l: "index_lines E limit (the (log_type_of name)) fi 0 (raw_lines content) (items, bad) = Some (full, items1, bad1)"
    and r: "if full then (items', bad') = (items1, bad1) else index_files E limit (fi + 1) gs (items1, bad1) = Some (items', bad')"
    using Cons.prems(1) by (auto simp: g split: option.splits prod.splits if_splits)
  have f: "fi < length fs" using Cons.prems(2) by (metis drop_all leI list.distinct(1))
  then have n: "fs ! fi = (name, content)" "drop (fi + 1) fs = gs" using Cons.prems(2) g
    by (metis Cons_nth_drop_Suc list.inject, metis Cons_nth_drop_Suc Suc_eq_plus1 list.inject)
  have "\<forall>it \<in> set items1. item_ok E fs it" by (rule index_lines_ok [OF l f n(1) refl _ Cons.prems(3)]) simp
  then show ?case using r Cons.IH [OF _ n(2)] by (auto split: if_splits)
qed simp

text \<open>
  The index of a run is in the order the records are sent, and each entry leads back to a line of its file that has
  the time it is sorted by, so reading it again does not fail.
\<close>

theorem replay_index_sound:
  assumes "index E limit fs = Some (items, bad)"
  shows "sorted items \<and> (\<forall>it \<in> set items. \<exists>lt line. read_item E fs it = Some (lt, line) \<and> emit_time (se_loads (sv_env E)) lt line = Some (Inr (fst it)))"
proof -
  obtain items0 where i: "index_files E limit 0 fs ([], 0) = Some (items0, bad)" "items = sort items0" using assms by (auto simp: index_def)
  have "\<forall>it \<in> set items0. item_ok E fs it" by (rule index_files_ok [OF i(1)]) simp_all
  then show ?thesis using i(2) by (auto simp: item_ok_def split: option.splits)
qed

section \<open>Resuming a run\<close>

text \<open>What the record with index \<open>i\<close> of a run is sent as.\<close>

definition sent_as :: "sender_env \<Rightarrow> run_dir \<Rightarrow> index_item list \<Rightarrow> int \<Rightarrow> int \<Rightarrow> nat \<Rightarrow> sent" where
  "sent_as E d items base offset i = (case the (read_item E (run_files d) (items ! i)) of (lt, line) \<Rightarrow>
     \<lparr>sn_type = lt, sn_line = line, sn_seq = base + int i, sn_run = Some (rd_name d), sn_offset = offset\<rparr>)"

text \<open>
  Any sequence of turns on a run, each stopped where it likes, and of crashes: between turns or inside one, when the
  memory is lost and the sender starts again from the saved state. The list holds all records sent, across crashes.
\<close>

inductive attempts :: "sender_env \<Rightarrow> run_dir \<Rightarrow> sender \<Rightarrow> sent list \<Rightarrow> sender \<Rightarrow> bool" for E d s0 where
  start: "attempts E d s0 [] s0"
| turn: "attempts E d s0 h s \<Longrightarrow> rd_name d \<notin> set (st_completed (sd_state s)) \<Longrightarrow> replay_run_dir E now stop d s = Some s'
    \<Longrightarrow> attempts E d s0 (h @ drop (length (sd_sent s)) (sd_sent s')) s'"
| crash: "attempts E d s0 h s \<Longrightarrow> rd_name d \<notin> set (st_completed (sd_state s)) \<Longrightarrow> replay_begin E now d s = Some (items, r, s1)
    \<Longrightarrow> replay_steps E (\<lambda>_. False) (run_files d) items r 0 (take n [nat (rr_next r)..<run_limit r items]) s1 = Some (r', s')
    \<Longrightarrow> attempts E d s0 (h @ drop (length (sd_sent s)) (sd_sent s')) (restart s')"
| down: "attempts E d s0 h s \<Longrightarrow> attempts E d s0 h (restart s)"

definition run_at :: "string \<Rightarrow> nat \<Rightarrow> int \<Rightarrow> int \<Rightarrow> nat \<Rightarrow> replay_run \<Rightarrow> bool" where
  "run_at rid n base offset i r = (rr_id r = rid \<and> rr_base r = base \<and> rr_offset r = offset \<and> rr_total r = int n \<and> rr_next r = int i \<and> i \<le> n)"

text \<open>A state of the run: where it stands, and everything before was sent.\<close>

definition stands :: "string \<Rightarrow> nat \<Rightarrow> int \<Rightarrow> int \<Rightarrow> (nat \<Rightarrow> sent) \<Rightarrow> sent set \<Rightarrow> sender_state \<Rightarrow> bool" where
  "stands rid n base offset e H st \<longleftrightarrow>
     (\<exists>r i. st_run st = Some r \<and> run_at rid n base offset i r \<and> e ` {..<i} \<subseteq> H \<and> rid \<notin> set (st_completed st))
     \<or> (st_run st = None \<and> rid \<in> set (st_completed st) \<and> e ` {..<n} \<subseteq> H)"

lemma stands_mono: "stands rid n base offset e H st \<Longrightarrow> H \<subseteq> H' \<Longrightarrow> stands rid n base offset e H' st"
  unfolding stands_def by blast

lemma replay_step_trace:
  assumes "read_item E (run_files d) (items ! i) = Some (lt, line)"
    and "send_record E lt line (rr_base r + int i) (Some (rr_id r)) (rr_offset r) s = Some (okay, s1)" and "rr_id r = rd_name d"
  shows "sd_sent s1 = sd_sent s @ [sent_as E d items (rr_base r) (rr_offset r) i]" "sd_state s1 = sd_state s" "sd_disk s1 = sd_disk s" "sd_cfg s1 = sd_cfg s"
  using send_record_trace [OF assms(2)] assms(1,3) by (simp_all add: sent_as_def)

lemma set_run_simps [simp]:
  "sd_sent (set_run r s) = sd_sent s" "sd_cfg (set_run r s) = sd_cfg s" "sd_disk (set_run r s) = sd_disk s" "st_run (sd_state (set_run r s)) = Some r"
  "st_completed (sd_state (set_run r s)) = st_completed (sd_state s)" "sd_sent (save s) = sd_sent s" "sd_cfg (save s) = sd_cfg s"
  "sd_state (save s) = sd_state s" "sd_disk (save s) = sd_state s"
  by (simp_all add: set_run_def save_def)

lemma replay_steps_trace:
  assumes "replay_steps E stop (run_files d) items r k [a..<b] s = Some (r', s')" and "b \<le> length items"
    and "run_at (rd_name d) (length items) base offset a r" "st_run (sd_state s) = Some r"
  shows "\<exists>j. a \<le> j \<and> sd_sent s' = sd_sent s @ map (sent_as E d items base offset) [a..<j] \<and> run_at (rd_name d) (length items) base offset j r'
    \<and> st_run (sd_state s') = Some r' \<and> st_completed (sd_state s') = st_completed (sd_state s) \<and> sd_cfg s' = sd_cfg s
    \<and> (sd_disk s' = sd_disk s \<or> (\<exists>i q. i \<le> j \<and> run_at (rd_name d) (length items) base offset i q \<and> st_run (sd_disk s') = Some q
        \<and> st_completed (sd_disk s') = st_completed (sd_state s)))"
  using assms
proof (induction "b - a" arbitrary: a r k s)
  case 0
  then show ?case by (auto intro!: exI [of _ a])
next
  case (Suc m)
  have e: "[a..<b] = a # [Suc a..<b]" using Suc.hyps(2) by (simp add: upt_rec)
  show ?case
  proof (cases "stop a")
    case True
    then show ?thesis using Suc.prems unfolding e by (auto intro!: exI [of _ a])
  next
    case False
    obtain lt line where i: "read_item E (run_files d) (items ! a) = Some (lt, line)" using Suc.prems(1) False unfolding e by (auto split: option.splits)
    obtain okay s1 where sr: "send_record E lt line (rr_base r + int a) (Some (rr_id r)) (rr_offset r) s = Some (okay, s1)"
      using Suc.prems(1) False i unfolding e by (auto split: option.splits)
    have ra: "rr_id r = rd_name d" "rr_base r = base" "rr_offset r = offset" using Suc.prems(3) by (simp_all add: run_at_def)
    note t = replay_step_trace [OF i sr ra(1)]
    let ?r = "r\<lparr>rr_next := int a + 1\<rparr>"
    let ?s2 = "(set_run ?r s1)\<lparr>sd_backlog := (int (run_limit r items) - int a - 1) * 400\<rparr>"
    have at: "run_at (rd_name d) (length items) base offset (Suc a) ?r" using Suc.prems(2,3) Suc.hyps(2) by (simp add: run_at_def)
    define s3 where "s3 = (if k + 1 \<ge> cf_persist_every (sd_cfg ?s2) then save ?s2 else ?s2)"
    have st: "\<exists>k'. replay_steps E stop (run_files d) items ?r k' [Suc a..<b] s3 = Some (r', s')"
      using Suc.prems(1) False i sr unfolding e s3_def by (simp add: Let_def split: if_splits) blast+
    have s3: "sd_sent s3 = sd_sent s @ [sent_as E d items base offset a]" "st_run (sd_state s3) = Some ?r"
        "st_completed (sd_state s3) = st_completed (sd_state s)" "sd_cfg s3 = sd_cfg s"
        "sd_disk s3 = sd_disk s \<or> st_run (sd_disk s3) = Some ?r \<and> st_completed (sd_disk s3) = st_completed (sd_state s)"
      using t ra by (auto simp: s3_def)
    have m: "m = b - Suc a" using Suc.hyps(2) by simp
    obtain k' where "replay_steps E stop (run_files d) items ?r k' [Suc a..<b] s3 = Some (r', s')" using st by blast
    from Suc.hyps(1) [OF m this Suc.prems(2) at s3(2)]
    obtain j where j: "Suc a \<le> j" "sd_sent s' = sd_sent s3 @ map (sent_as E d items base offset) [Suc a..<j]"
        "run_at (rd_name d) (length items) base offset j r'" "st_run (sd_state s') = Some r'"
        "st_completed (sd_state s') = st_completed (sd_state s3)" "sd_cfg s' = sd_cfg s3"
        "sd_disk s' = sd_disk s3 \<or> (\<exists>i q. i \<le> j \<and> run_at (rd_name d) (length items) base offset i q \<and> st_run (sd_disk s') = Some q
          \<and> st_completed (sd_disk s') = st_completed (sd_state s3))" by blast
    have "[a..<j] = a # [Suc a..<j]" using j(1) by (simp add: upt_rec)
    then have snt: "sd_sent s' = sd_sent s @ map (sent_as E d items base offset) [a..<j]" using j(2) s3(1) by simp
    have "sd_disk s' = sd_disk s \<or> (\<exists>i q. i \<le> j \<and> run_at (rd_name d) (length items) base offset i q \<and> st_run (sd_disk s') = Some q
          \<and> st_completed (sd_disk s') = st_completed (sd_state s))"
      using j(1,7) s3(3,5) at by metis
    then show ?thesis using j s3 snt by (intro exI [of _ j]) auto
  qed
qed

lemma begin_stands:
  assumes "index E (cf_max_records (sd_cfg s)) (run_files d) = Some (items, bad)" and "replay_begin E now d s = Some (items', r, s1)"
    and "rd_name d \<notin> set (st_completed (sd_state s))" and "st_run (sd_state s) = None"
  shows "items' = items \<and> run_at (rd_name d) (length items) (st_next (sd_state s)) (rr_offset r) 0 r \<and> st_run (sd_state s1) = Some r \<and> sd_disk s1 = sd_state s1
    \<and> sd_sent s1 = sd_sent s \<and> sd_cfg s1 = sd_cfg s \<and> st_completed (sd_state s1) = st_completed (sd_state s)"
  using assms by (auto simp: replay_begin_def begin_run_def new_run_def run_at_def Let_def save_def set_next_def set_run_def)

lemma begin_resumes:
  assumes "index E (cf_max_records (sd_cfg s)) (run_files d) = Some (items, bad)" and "replay_begin E now d s = Some (items', r, s1)"
    and "st_run (sd_state s) = Some q" and "rr_id q = rd_name d"
  shows "items' = items \<and> r = q \<and> sd_state s1 = sd_state s \<and> sd_disk s1 = sd_disk s \<and> sd_sent s1 = sd_sent s \<and> sd_cfg s1 = sd_cfg s"
  using assms by (auto simp: replay_begin_def begin_run_def)

text \<open>The state of the attempts: nothing sent yet, or the run has its numbers, in memory and on disk.\<close>

definition resumable :: "sender_env \<Rightarrow> run_dir \<Rightarrow> index_item list \<Rightarrow> sender \<Rightarrow> sent list \<Rightarrow> sender \<Rightarrow> bool" where
  "resumable E d items s0 h s \<longleftrightarrow> sd_cfg s = sd_cfg s0 \<and>
     ((h = [] \<and> sd_state s = sd_state s0 \<and> sd_disk s = sd_state s0)
      \<or> (\<exists>offset. set h \<subseteq> sent_as E d items (st_next (sd_state s0)) offset ` {..<length items}
          \<and> stands (rd_name d) (length items) (st_next (sd_state s0)) offset (sent_as E d items (st_next (sd_state s0)) offset) (set h) (sd_state s)
          \<and> stands (rd_name d) (length items) (st_next (sd_state s0)) offset (sent_as E d items (st_next (sd_state s0)) offset) (set h) (sd_disk s)))"

lemma run_limit_at: "run_at rid (length items) base offset i r \<Longrightarrow> run_limit r items = length items \<and> nat (rr_next r) = i"
  by (simp add: run_at_def run_limit_def)

lemma loop_resumable:
  assumes "resumable E d items s0 h s" and "index E (cf_max_records (sd_cfg s0)) (run_files d) = Some (items, bad)"
    and "st_run (sd_state s0) = None" and "rd_name d \<notin> set (st_completed (sd_state s))"
    and "replay_begin E now d s = Some (items', r, s1)"
    and "replay_steps E stop (run_files d) items' r 0 [nat (rr_next r)..<b] s1 = Some (r', s')" and "b \<le> run_limit r items'"
  defines "h' \<equiv> h @ drop (length (sd_sent s)) (sd_sent s')" and "base \<equiv> st_next (sd_state s0)"
  shows "\<exists>offset j. items' = items \<and> run_at (rd_name d) (length items) base offset j r' \<and> st_run (sd_state s') = Some r'
    \<and> rd_name d \<notin> set (st_completed (sd_state s')) \<and> sd_cfg s' = sd_cfg s0 \<and> set h' \<subseteq> sent_as E d items base offset ` {..<length items}
    \<and> sent_as E d items base offset ` {..<j} \<subseteq> set h' \<and> stands (rd_name d) (length items) base offset (sent_as E d items base offset) (set h') (sd_disk s')"
proof -
  have cfg: "sd_cfg s = sd_cfg s0" using assms(1) by (simp add: resumable_def)
  obtain offset a where b: "items' = items" "run_at (rd_name d) (length items) base offset a r" "st_run (sd_state s1) = Some r"
      "sd_sent s1 = sd_sent s" "sd_cfg s1 = sd_cfg s0" "rd_name d \<notin> set (st_completed (sd_state s1))"
      "set h \<subseteq> sent_as E d items base offset ` {..<length items}" "sent_as E d items base offset ` {..<a} \<subseteq> set h"
      "stands (rd_name d) (length items) base offset (sent_as E d items base offset) (set h) (sd_disk s1)"
  proof (cases "h = [] \<and> sd_state s = sd_state s0 \<and> sd_disk s = sd_state s0")
    case True
    have "index E (cf_max_records (sd_cfg s)) (run_files d) = Some (items, bad)" "st_run (sd_state s) = None" using assms(2,3) cfg True by simp_all
    note g = begin_stands [OF this(1) assms(5,4) this(2)]
    have "stands (rd_name d) (length items) base (rr_offset r) (sent_as E d items base (rr_offset r)) (set h) (sd_disk s1)"
      unfolding stands_def using g True assms(4) by (intro disjI1 exI [of _ r] exI [of _ 0]) (simp add: base_def)
    then show ?thesis using that [of "rr_offset r" 0] g True assms(4) cfg by (simp add: base_def)
  next
    case False
    then obtain offset where o': "set h \<subseteq> sent_as E d items base offset ` {..<length items}"
        "stands (rd_name d) (length items) base offset (sent_as E d items base offset) (set h) (sd_state s)"
        "stands (rd_name d) (length items) base offset (sent_as E d items base offset) (set h) (sd_disk s)"
      using assms(1) unfolding resumable_def base_def by blast
    then obtain q a where q: "st_run (sd_state s) = Some q" "run_at (rd_name d) (length items) base offset a q" "sent_as E d items base offset ` {..<a} \<subseteq> set h"
      using assms(4) unfolding stands_def by blast
    have "index E (cf_max_records (sd_cfg s)) (run_files d) = Some (items, bad)" "rr_id q = rd_name d" using assms(2) cfg q(2) by (simp_all add: run_at_def)
    note g = begin_resumes [OF this(1) assms(5) q(1) this(2)]
    show ?thesis using that [of offset a] g q o' assms(4) cfg by simp
  qed
  note l = run_limit_at [OF b(2)]
  have len: "b \<le> length items" using assms(7) b(1) l by simp
  have st: "replay_steps E stop (run_files d) items r 0 [a..<b] s1 = Some (r', s')" using assms(6) b(1) l by simp
  obtain j where j: "a \<le> j" "sd_sent s' = sd_sent s1 @ map (sent_as E d items base offset) [a..<j]" "run_at (rd_name d) (length items) base offset j r'"
      "st_run (sd_state s') = Some r'" "st_completed (sd_state s') = st_completed (sd_state s1)" "sd_cfg s' = sd_cfg s1"
      "sd_disk s' = sd_disk s1 \<or> (\<exists>i q. i \<le> j \<and> run_at (rd_name d) (length items) base offset i q \<and> st_run (sd_disk s') = Some q
        \<and> st_completed (sd_disk s') = st_completed (sd_state s1))"
    using replay_steps_trace [OF st len b(2,3)] by blast
  have h': "set h' = set h \<union> sent_as E d items base offset ` {a..<j}" using j(2) b(4) by (simp add: h'_def)
  have jl: "j \<le> length items" using j(3) by (simp add: run_at_def)
  have sub: "set h' \<subseteq> sent_as E d items base offset ` {..<length items}" using h' b(7) jl by auto
  have cov: "sent_as E d items base offset ` {..<j} \<subseteq> set h'"
  proof -
    have "{..<j} = {..<a} \<union> {a..<j}" using j(1) by auto
    then show ?thesis using h' b(8) by (simp add: image_Un) blast
  qed
  have "stands (rd_name d) (length items) base offset (sent_as E d items base offset) (set h') (sd_disk s')"
  proof (cases "sd_disk s' = sd_disk s1")
    case True
    then show ?thesis using stands_mono [OF b(9)] h' by simp
  next
    case False
    then obtain i q where i: "i \<le> j" "run_at (rd_name d) (length items) base offset i q" "st_run (sd_disk s') = Some q"
        "st_completed (sd_disk s') = st_completed (sd_state s1)" using j(7) by blast
    have "sent_as E d items base offset ` {..<i} \<subseteq> set h'" using cov i(1) by (meson image_mono lessThan_subset_iff subset_trans)
    then show ?thesis unfolding stands_def using i b(6) by auto
  qed
  then show ?thesis using b(1,5,6) j sub cov by (intro exI [of _ offset] exI [of _ j]) simp
qed

lemma last_n_last: "0 < n \<Longrightarrow> x \<in> set (last_n n (xs @ [x]))"
  by (simp add: last_n_def drop_append)

lemma finish_resumable:
  assumes "run_at (rd_name d) (length items) (st_next (sd_state s0)) offset j r'" and "st_run (sd_state s') = Some r'"
    and "rd_name d \<notin> set (st_completed (sd_state s'))" and "sd_cfg s' = sd_cfg s0"
    and "set h \<subseteq> sent_as E d items (st_next (sd_state s0)) offset ` {..<length items}"
    and "sent_as E d items (st_next (sd_state s0)) offset ` {..<j} \<subseteq> set h"
  shows "resumable E d items s0 h (finish_run (rd_name d) items (r', s')) \<and> sd_sent (finish_run (rd_name d) items (r', s')) = sd_sent s'"
proof (cases "j = length items")
  case True
  then have "rr_next r' \<ge> min (rr_total r') (int (length items))" using assms(1) by (simp add: run_at_def)
  then show ?thesis using assms True last_n_last [of MAX_COMPLETED_RUNS "rd_name d" "st_completed (sd_state s')"]
    by (auto simp: finish_run_def resumable_def stands_def mark_completed_def MAX_COMPLETED_RUNS_def)
next
  case False
  then have "\<not> rr_next r' \<ge> min (rr_total r') (int (length items))" using assms(1) by (simp add: run_at_def)
  then have f: "finish_run (rd_name d) items (r', s') = save s'" by (simp add: finish_run_def)
  have "stands (rd_name d) (length items) (st_next (sd_state s0)) offset (sent_as E d items (st_next (sd_state s0)) offset) (set h) (sd_state s')"
    unfolding stands_def using assms by blast
  then show ?thesis unfolding f resumable_def using assms(4,5) by auto
qed

lemma attempts_resumable:
  assumes "attempts E d s0 h s" and "index E (cf_max_records (sd_cfg s0)) (run_files d) = Some (items, bad)"
    and "st_run (sd_state s0) = None" and "sd_disk s0 = sd_state s0"
  shows "resumable E d items s0 h s"
  using assms(1)
proof (induction rule: attempts.induct)
  case start
  then show ?case using assms(4) by (simp add: resumable_def)
next
  case (turn h s now stop s')
  obtain items' r s1 r' s2 where b: "replay_begin E now d s = Some (items', r, s1)"
      "replay_steps E stop (run_files d) items' r 0 [nat (rr_next r)..<run_limit r items'] s1 = Some (r', s2)"
      "s' = finish_run (rd_name d) items' (r', s2)"
    using turn.hyps(3) by (auto simp: replay_run_dir_def split: option.splits)
  from loop_resumable [OF turn.IH assms(2,3) turn.hyps(2) b(1,2) order_refl]
  obtain offset j where o': "items' = items" "run_at (rd_name d) (length items) (st_next (sd_state s0)) offset j r'" "st_run (sd_state s2) = Some r'"
      "rd_name d \<notin> set (st_completed (sd_state s2))" "sd_cfg s2 = sd_cfg s0"
      "set (h @ drop (length (sd_sent s)) (sd_sent s2)) \<subseteq> sent_as E d items (st_next (sd_state s0)) offset ` {..<length items}"
      "sent_as E d items (st_next (sd_state s0)) offset ` {..<j} \<subseteq> set (h @ drop (length (sd_sent s)) (sd_sent s2))" by blast
  show ?case using finish_resumable [OF o'(2-)] b(3) o'(1) by simp
next
  case (crash h s now items' r s1 n r' s')
  have t: "take n [a..<c] = [a..<min (a + n) c]" for a c :: nat by (cases "a + n \<le> c") (simp_all add: take_upt min_def)
  have st: "replay_steps E (\<lambda>_. False) (run_files d) items' r 0 [nat (rr_next r)..<min (nat (rr_next r) + n) (run_limit r items')] s1 = Some (r', s')"
    using crash.hyps(4) unfolding t .
  from loop_resumable [OF crash.IH assms(2,3) crash.hyps(2,3) st min.cobounded2]
  obtain offset where "sd_cfg s' = sd_cfg s0"
      "set (h @ drop (length (sd_sent s)) (sd_sent s')) \<subseteq> sent_as E d items (st_next (sd_state s0)) offset ` {..<length items}"
      "stands (rd_name d) (length items) (st_next (sd_state s0)) offset (sent_as E d items (st_next (sd_state s0)) offset)
        (set (h @ drop (length (sd_sent s)) (sd_sent s'))) (sd_disk s')" by blast
  then show ?case unfolding resumable_def restart_def by auto
next
  case (down h s)
  then show ?case unfolding resumable_def restart_def by auto
qed

text \<open>
  C9: However often the replay of a run is stopped or crashes, there is one base and one offset such that record number
  \<open>i\<close> of the run is only ever sent as the same line under the number \<open>base + i\<close>: what is sent twice is
  an exact duplicate, which the receiver drops. Once the run counts as completed every one of its records was sent.
\<close>

theorem replay_resends_duplicates:
  assumes "attempts E d s0 h s" and "index E (cf_max_records (sd_cfg s0)) (run_files d) = Some (items, bad)"
    and "st_run (sd_state s0) = None" and "sd_disk s0 = sd_state s0" and "rd_name d \<notin> set (st_completed (sd_state s0))"
  shows "\<exists>offset. (\<forall>x \<in> set h. \<exists>i < length items. x = sent_as E d items (st_next (sd_state s0)) offset i)
    \<and> (rd_name d \<in> set (st_completed (sd_state s)) \<longrightarrow> (\<forall>i < length items. sent_as E d items (st_next (sd_state s0)) offset i \<in> set h))"
proof -
  consider "h = []" "sd_state s = sd_state s0" | offset where "set h \<subseteq> sent_as E d items (st_next (sd_state s0)) offset ` {..<length items}"
      "stands (rd_name d) (length items) (st_next (sd_state s0)) offset (sent_as E d items (st_next (sd_state s0)) offset) (set h) (sd_state s)"
    using attempts_resumable [OF assms(1-4)] unfolding resumable_def by blast
  then show ?thesis
  proof cases
    case 1
    then show ?thesis using assms(5) by simp
  next
    case 2
    then show ?thesis unfolding stands_def by (intro exI [of _ offset]) blast
  qed
qed

section \<open>A run resumed\<close>

definition demo_replay_env :: sender_env where
  "demo_replay_env = demo_tail_env\<lparr>sv_env := \<lparr>se_loads = \<lambda>_. Inr (JObj [(''ts'', JInt 5)]), se_dumps = \<lambda>_. Some [], se_str = \<lambda>_. []\<rparr>\<rparr>"

definition demo_dir :: run_dir where
  "demo_dir = \<lparr>rd_name = ''r'', rd_done = True, rd_files = [(''.done'', []), (''conn.log'', [97, 10, 98, 10])]\<rparr>"

definition demo_replayer :: sender where
  "demo_replayer = demo_sender\<lparr>sd_cfg := (sd_cfg demo_sender)\<lparr>cf_mode := ''replay'', cf_persist_every := 10\<rparr>,
     sd_state := state_new ''b'', sd_disk := state_new ''b''\<rparr>"

lemma demo_files: "run_files demo_dir = [(''conn.log'', [97, 10, 98, 10])]"
  by code_simp

lemma demo_log_type: "log_type_of ''conn.log'' = Some ''conn''"
  by code_simp

lemma demo_emit: "emit_time (se_loads (sv_env demo_replay_env)) ''conn'' x = Some (Inr 5000000)"
  by (simp add: demo_replay_env_def emit_time_def parse_line_def ts_of_def zeek_ts_to_us_def)

lemma demo_replay_decode: "sv_decode demo_replay_env bs = Some (map (\<lambda>x. char_of (unat x)) bs)"
  by (simp add: demo_replay_env_def demo_tail_env_def)

lemma demo_index: "index demo_replay_env 10 (run_files demo_dir) = Some ([(5000000, 0, 0, 1), (5000000, 0, 2, 1)], 0)"
  by (simp add: demo_files index_def demo_log_type demo_emit line_of_def strip_cr_def Let_def demo_replay_decode)

lemma demo_send:
  "send_record demo_replay_env ''conn'' line sq rid offset s = Some (False, s\<lparr>sd_records_read := sd_records_read s + 1,
     sd_sent := sd_sent s @ [\<lparr>sn_type = ''conn'', sn_line = line, sn_seq = sq, sn_run = rid, sn_offset = offset\<rparr>], sd_invalid := sd_invalid s + 1\<rparr>)"
proof -
  have "normalize (se_loads (sv_env demo_replay_env)) (se_str (sv_env demo_replay_env)) c ''conn'' line = Some (Inl ''uid missing or invalid'')" for c
    by (simp add: normalize_def LOG_NAMES_def demo_replay_env_def parse_line_def ts_of_def zeek_ts_to_us_def record_of_type_def conn_like_def ends_of_def
        required_uid_def)
  then show ?thesis by (simp add: send_record_def Let_def)
qed

abbreviation (input) "demo_items \<equiv> [(5000000 :: int, 0 :: nat, 0 :: nat, 1 :: nat), (5000000, 0, 2, 1)]"

definition demo_run :: "int \<Rightarrow> replay_run" where
  "demo_run i = \<lparr>rr_id = ''r'', rr_base = 0, rr_total = 2, rr_next = i, rr_wall = 500000, rr_first = 5000000, rr_offset = - 4500000\<rparr>"

lemma demo_begin:
  "\<exists>s1. replay_begin demo_replay_env 0 demo_dir demo_replayer = Some (demo_items, demo_run 0, s1) \<and> st_run (sd_disk s1) = Some (demo_run 0)
     \<and> sd_state s1 = sd_disk s1 \<and> sd_cfg s1 = sd_cfg demo_replayer \<and> st_completed (sd_disk s1) = [] \<and> sd_sent s1 = []"
proof -
  have "cf_max_records (sd_cfg demo_replayer) = 10" "rd_name demo_dir = ''r''" "sd_state demo_replayer = state_new ''b''" "sd_sent demo_replayer = []"
    by (simp_all add: demo_replayer_def demo_sender_def demo_dir_def Let_def)
  then show ?thesis by (simp add: replay_begin_def demo_index begin_run_def new_run_def state_new_def demo_run_def Let_def save_def set_next_def set_run_def)
qed

lemma demo_read: "read_item demo_replay_env (run_files demo_dir) (5000000, 0, 0, 1) = Some (''conn'', ''a'')"
  "read_item demo_replay_env (run_files demo_dir) (5000000, 0, 2, 1) = Some (''conn'', ''b'')"
  by code_simp+

lemma demo_steps:
  assumes "sd_cfg s = sd_cfg demo_replayer"
  shows "\<exists>s'. replay_steps demo_replay_env (\<lambda>_. False) (run_files demo_dir) demo_items (demo_run 0) 0 [0] s = Some (demo_run 1, s')
      \<and> sd_disk s' = sd_disk s \<and> sd_cfg s' = sd_cfg s \<and> sd_sent s' = sd_sent s @ [\<lparr>sn_type = ''conn'', sn_line = ''a'', sn_seq = 0, sn_run = Some ''r'', sn_offset = - 4500000\<rparr>]"
    and "\<exists>s'. replay_steps demo_replay_env (\<lambda>_. False) (run_files demo_dir) demo_items (demo_run 0) 0 [0, 1] s = Some (demo_run 2, s')
      \<and> st_completed (sd_state s') = st_completed (sd_state s)
      \<and> sd_sent s' = sd_sent s @ [\<lparr>sn_type = ''conn'', sn_line = ''a'', sn_seq = 0, sn_run = Some ''r'', sn_offset = - 4500000\<rparr>,
          \<lparr>sn_type = ''conn'', sn_line = ''b'', sn_seq = 1, sn_run = Some ''r'', sn_offset = - 4500000\<rparr>]"
proof -
  have "cf_persist_every (sd_cfg s) = 10" using assms by (simp add: demo_replayer_def demo_sender_def Let_def)
  then show "\<exists>s'. replay_steps demo_replay_env (\<lambda>_. False) (run_files demo_dir) demo_items (demo_run 0) 0 [0] s = Some (demo_run 1, s')
      \<and> sd_disk s' = sd_disk s \<and> sd_cfg s' = sd_cfg s \<and> sd_sent s' = sd_sent s @ [\<lparr>sn_type = ''conn'', sn_line = ''a'', sn_seq = 0, sn_run = Some ''r'', sn_offset = - 4500000\<rparr>]"
    "\<exists>s'. replay_steps demo_replay_env (\<lambda>_. False) (run_files demo_dir) demo_items (demo_run 0) 0 [0, 1] s = Some (demo_run 2, s')
      \<and> st_completed (sd_state s') = st_completed (sd_state s)
      \<and> sd_sent s' = sd_sent s @ [\<lparr>sn_type = ''conn'', sn_line = ''a'', sn_seq = 0, sn_run = Some ''r'', sn_offset = - 4500000\<rparr>,
          \<lparr>sn_type = ''conn'', sn_line = ''b'', sn_seq = 1, sn_run = Some ''r'', sn_offset = - 4500000\<rparr>]"
    by (simp_all add: demo_read [unfolded One_nat_def] demo_send demo_run_def set_run_def Let_def)
qed

theorem replay_resends_duplicates_witness:
  "\<exists>h s. attempts demo_replay_env demo_dir demo_replayer h s \<and> map sn_seq h = [0, 0, 1] \<and> map sn_line h = [''a'', ''a'', ''b'']
     \<and> (\<exists>offset. \<forall>i < 2. sent_as demo_replay_env demo_dir demo_items 0 offset i \<in> set h)"
proof -
  have m: "cf_max_records (sd_cfg demo_replayer) = 10" "st_run (sd_state demo_replayer) = None" "sd_disk demo_replayer = sd_state demo_replayer"
      "st_completed (sd_state demo_replayer) = []" "sd_sent demo_replayer = []" "st_next (sd_state demo_replayer) = 0" "rd_name demo_dir = ''r''"
    by (simp_all add: demo_replayer_def demo_sender_def state_new_def Let_def demo_dir_def)
  have l: "run_limit (demo_run 0) demo_items = 2" "nat (rr_next (demo_run 0)) = 0" "rr_id (demo_run 0) = ''r''" by (simp_all add: run_limit_def demo_run_def)
  obtain s1 where b: "replay_begin demo_replay_env 0 demo_dir demo_replayer = Some (demo_items, demo_run 0, s1)" "st_run (sd_disk s1) = Some (demo_run 0)"
      "sd_cfg s1 = sd_cfg demo_replayer" "st_completed (sd_disk s1) = []" "sd_sent s1 = []" using demo_begin by blast
  obtain s2 where s2: "replay_steps demo_replay_env (\<lambda>_. False) (run_files demo_dir) demo_items (demo_run 0) 0 [0] s1 = Some (demo_run 1, s2)"
      "sd_disk s2 = sd_disk s1" "sd_cfg s2 = sd_cfg s1" "sd_sent s2 = sd_sent s1 @ [\<lparr>sn_type = ''conn'', sn_line = ''a'', sn_seq = 0, sn_run = Some ''r'', sn_offset = - 4500000\<rparr>]"
    using demo_steps(1) [OF b(3)] by blast
  let ?e0 = "\<lparr>sn_type = ''conn'', sn_line = ''a'', sn_seq = 0, sn_run = Some ''r'', sn_offset = - 4500000\<rparr>"
  have a1: "attempts demo_replay_env demo_dir demo_replayer ([] @ drop (length (sd_sent demo_replayer)) (sd_sent s2)) (restart s2)"
    by (rule attempts.crash [OF attempts.start _ b(1), where n = 1 and r' = "demo_run 1"]) (use m l s2(1) in \<open>simp_all add: numeral_2_eq_2\<close>)
  let ?s = "(restart s2)\<lparr>sd_invalid := sd_invalid (restart s2)\<rparr>"
  have r: "st_run (sd_state (restart s2)) = Some (demo_run 0)" "sd_cfg (restart s2) = sd_cfg demo_replayer" "st_completed (sd_state (restart s2)) = []" "sd_sent (restart s2) = []"
    using s2 b by (simp_all add: restart_def)
  obtain s3 where s3: "replay_steps demo_replay_env (\<lambda>_. False) (run_files demo_dir) demo_items (demo_run 0) 0 [0, 1] ?s = Some (demo_run 2, s3)"
      "st_completed (sd_state s3) = []" "sd_sent s3 = [?e0, \<lparr>sn_type = ''conn'', sn_line = ''b'', sn_seq = 1, sn_run = Some ''r'', sn_offset = - 4500000\<rparr>]"
    using demo_steps(2) [of ?s] r by auto
  have t: "replay_run_dir demo_replay_env 0 (\<lambda>_. False) demo_dir (restart s2) = Some (finish_run ''r'' demo_items (demo_run 2, s3))"
    using r m l s3(1) by (simp add: replay_run_dir_def replay_begin_def demo_index begin_run_def numeral_2_eq_2)
  let ?s4 = "finish_run ''r'' demo_items (demo_run 2, s3)"
  have f: "sd_sent ?s4 = sd_sent s3" "''r'' \<in> set (st_completed (sd_state ?s4))"
    by (simp_all add: finish_run_def demo_run_def mark_completed_def s3(2) last_n_def MAX_COMPLETED_RUNS_def)
  have a2: "attempts demo_replay_env demo_dir demo_replayer ([?e0] @ drop (length (sd_sent (restart s2))) (sd_sent ?s4)) ?s4"
    by (rule attempts.turn [OF _ _ t]) (use a1 s2(4) b(5) m r in simp_all)
  from replay_resends_duplicates [OF a2 demo_index [folded m(1)] m(2,3)] f(2) m
  obtain offset where "\<forall>i < length demo_items. sent_as demo_replay_env demo_dir demo_items 0 offset i \<in> set ([?e0] @ drop (length (sd_sent (restart s2))) (sd_sent ?s4))"
    by auto
  then have e: "\<forall>i < 2. sent_as demo_replay_env demo_dir demo_items 0 offset i \<in> set ([?e0] @ drop (length (sd_sent (restart s2))) (sd_sent ?s4))"
    by (metis One_nat_def Suc_1 length_Cons list.size(3))
  have h: "[?e0] @ drop (length (sd_sent (restart s2))) (sd_sent ?s4) = [?e0, ?e0, \<lparr>sn_type = ''conn'', sn_line = ''b'', sn_seq = 1, sn_run = Some ''r'', sn_offset = - 4500000\<rparr>]"
    using f(1) s3(3) r(4) by simp
  note a3 = a2 [unfolded h] and e3 = e [unfolded h]
  let ?h = "[?e0, ?e0, \<lparr>sn_type = ''conn'', sn_line = ''b'', sn_seq = 1, sn_run = Some ''r'', sn_offset = - 4500000\<rparr>]"
  have m1: "map sn_seq ?h = [0, 0, 1]" and m2: "map sn_line ?h = [''a'', ''a'', ''b'']" by simp_all
  have "\<exists>offset. \<forall>i < 2. sent_as demo_replay_env demo_dir demo_items 0 offset i \<in> set ?h" by (rule exI, rule e3)
  then have "attempts demo_replay_env demo_dir demo_replayer ?h ?s4 \<and> map sn_seq ?h = [0, 0, 1] \<and> map sn_line ?h = [''a'', ''a'', ''b'']
     \<and> (\<exists>offset. \<forall>i < 2. sent_as demo_replay_env demo_dir demo_items 0 offset i \<in> set ?h)" by (intro conjI a3 m1 m2)
  then show ?thesis by (intro exI)
qed

theorem replay_index_sound_witness:
  "index demo_replay_env 10 (run_files demo_dir) = Some (demo_items, 0) \<and> sorted demo_items
     \<and> (\<exists>lt line. read_item demo_replay_env (run_files demo_dir) (5000000, 0, 2, 1) = Some (lt, line))"
  using demo_index replay_index_sound [OF demo_index] by auto

end
