(* ===== verification/Consumers.thy ===== *)
theory Consumers
  imports Json "HOL-Library.Monad_Syntax"
begin

text \<open>
  The consumers of the topics (\<^verbatim>\<open>base.py\<close> and \<^verbatim>\<open>notifier.py\<close> of
  \<^verbatim>\<open>consumers/sih_consumers\<close>): a batch is transformed, written durably and only then committed.
  The storage is the environment \<open>A\<close>, which gives the outcome of each call by its number; \<open>sk_written\<close> and
  \<open>sk_quarantined\<close> are the calls it acknowledged, which the code does not keep. The retry loop may run as long as the
  storage is away, so it is a partial function: \<open>None\<close> is not returning. Counters, lag and back-off times are left out.
\<close>

section \<open>Storage\<close>

datatype storage_error = PermanentWriteError | ClickHouseError bool | TypeOrValueError | OtherError

definition is_permanent :: "storage_error \<Rightarrow> bool" where
  "is_permanent e = (case e of PermanentWriteError \<Rightarrow> True | ClickHouseError p \<Rightarrow> p | TypeOrValueError \<Rightarrow> True | OtherError \<Rightarrow> False)"

type_synonym storage = "nat \<Rightarrow> (storage_error \<times> string) option"

record 'r batch_item =
  it_topic :: string
  it_partition :: int
  it_offset :: int
  it_payload :: bytes
  it_rows :: "'r list"

type_synonym poison_record = "string \<times> int \<times> int \<times> string \<times> bytes"

record 'r sink =
  sk_calls :: nat
  sk_written :: "'r list list"
  sk_quarantined :: "poison_record list"

definition sink_write :: "storage \<Rightarrow> 'r list \<Rightarrow> 'r sink \<Rightarrow> (storage_error \<times> string) option \<times> 'r sink" where
  "sink_write A rows st = (case A (sk_calls st) of
     None \<Rightarrow> (None, st\<lparr>sk_calls := sk_calls st + 1, sk_written := sk_written st @ [rows]\<rparr>)
   | Some e \<Rightarrow> (Some e, st\<lparr>sk_calls := sk_calls st + 1\<rparr>))"

definition sink_quarantine :: "storage \<Rightarrow> poison_record list \<Rightarrow> 'r sink \<Rightarrow> (storage_error \<times> string) option \<times> 'r sink" where
  "sink_quarantine A ps st = (case A (sk_calls st) of
     None \<Rightarrow> (None, st\<lparr>sk_calls := sk_calls st + 1, sk_quarantined := sk_quarantined st @ ps\<rparr>)
   | Some e \<Rightarrow> (Some e, st\<lparr>sk_calls := sk_calls st + 1\<rparr>))"

section \<open>Writing a batch\<close>

record 'r batch =
  ba_good :: "'r batch_item list"
  ba_poison :: "('r batch_item \<times> string) list"
  ba_permanent :: nat

definition poison_of :: "'r batch_item \<Rightarrow> string \<Rightarrow> poison_record" where
  "poison_of i reason = (it_topic i, it_partition i, it_offset i, reason, it_payload i)"

definition write_reason :: "string \<Rightarrow> string" where
  "write_reason e = ''write_rejected: '' @ py_take 300 e"

text \<open>One attempt: all rows in one call, then what is in quarantine.\<close>

definition batch_attempt :: "storage \<Rightarrow> 'r batch \<Rightarrow> 'r sink \<Rightarrow> (storage_error \<times> string) option \<times> 'r sink" where
  "batch_attempt A b st =
     (let rows = concat (map it_rows (ba_good b))
      in case (if rows = [] then (None, st) else sink_write A rows st) of
           (Some e, st1) \<Rightarrow> (Some e, st1)
         | (None, st1) \<Rightarrow> (if ba_poison b = [] then (None, st1)
             else sink_quarantine A (map (\<lambda>(i, reason). poison_of i reason) (ba_poison b)) st1))"

text \<open>After three rejections each record is written alone: written, set aside, or kept for the next attempt.\<close>

fun isolate :: "storage \<Rightarrow> 'r batch_item list \<Rightarrow> 'r batch_item list \<times> ('r batch_item \<times> string) list \<times> 'r sink
    \<Rightarrow> 'r batch_item list \<times> ('r batch_item \<times> string) list \<times> 'r sink" where
  "isolate A [] acc = acc"
| "isolate A (i # is) (still, poison, st) =
     (case sink_write A (it_rows i) st of
        (None, st1) \<Rightarrow> isolate A is (still, poison, st1)
      | (Some (e, text'), st1) \<Rightarrow>
          if is_permanent e then isolate A is (still, poison @ [(i, write_reason text')], st1)
          else isolate A is (still @ [i], poison, st1))"

definition batch_failed :: "storage \<Rightarrow> storage_error \<Rightarrow> 'r batch \<times> 'r sink \<Rightarrow> 'r batch \<times> 'r sink" where
  "batch_failed A e bs = (case bs of (b, st) \<Rightarrow>
     if is_permanent e \<and> ba_good b \<noteq> []
     then (let b1 = b\<lparr>ba_permanent := ba_permanent b + 1\<rparr> in
           if ba_permanent b1 \<ge> 3
           then (let (still, poison, st1) = isolate A (ba_good b) ([], ba_poison b, st) in (b1\<lparr>ba_good := still, ba_poison := poison\<rparr>, st1))
           else (b1, st))
     else (b, st))"

partial_function (option) write_loop :: "storage \<Rightarrow> (nat \<Rightarrow> bool) \<Rightarrow> nat \<Rightarrow> 'r batch \<Rightarrow> 'r sink \<Rightarrow> (bool \<times> 'r sink) option" where
  "write_loop A stop n b st =
     (if stop n then Some (False, st)
      else (case batch_attempt A b st of
        (None, st1) \<Rightarrow> Some (True, st1)
      | (Some (e, text'), st1) \<Rightarrow> write_loop A stop (n + 1) (fst (batch_failed A e (b, st1))) (snd (batch_failed A e (b, st1)))))"

definition durable_write :: "storage \<Rightarrow> (nat \<Rightarrow> bool) \<Rightarrow> 'r batch_item list \<Rightarrow> 'r sink \<Rightarrow> (bool \<times> 'r sink) option" where
  "durable_write A stop items st =
     write_loop A stop 0 \<lparr>ba_good = filter (\<lambda>i. it_rows i \<noteq> []) items, ba_poison = [], ba_permanent = 0\<rparr> st"

section \<open>Consuming\<close>

text \<open>What \<^verbatim>\<open>transform\<close> makes of a payload; \<open>Escapes\<close>: an exception other than \<^verbatim>\<open>Poison\<close>.\<close>

datatype 'r transformed = Rows "'r list" | Poisoned string | Escapes

text \<open>A message of the broker: an error or a record.\<close>

datatype polled = Failed | Message string int int bytes

datatype poll_outcome = Crashed | Stopped | Committed | Nothing

definition plain_item :: "string \<Rightarrow> int \<Rightarrow> int \<Rightarrow> bytes \<Rightarrow> 'r list \<Rightarrow> 'r batch_item" where
  "plain_item t p off v rows = \<lparr>it_topic = t, it_partition = p, it_offset = off, it_payload = v, it_rows = rows\<rparr>"

definition transform_reason :: "string \<Rightarrow> string" where
  "transform_reason e = ''transform: '' @ py_take 300 e"

text \<open>The items of a poll. A poison record is quarantined at once; when that fails the consumer is restarted.\<close>

fun transform_all :: "(bytes \<Rightarrow> 'r transformed) \<Rightarrow> storage \<Rightarrow> polled list \<Rightarrow> 'r batch_item list \<times> 'r sink \<Rightarrow> bool \<times> 'r batch_item list \<times> 'r sink" where
  "transform_all T A [] acc = (True, acc)"
| "transform_all T A (Failed # ms) acc = transform_all T A ms acc"
| "transform_all T A (Message t p off v # ms) (items, st) =
     (case T v of
        Rows rows \<Rightarrow> transform_all T A ms (items @ [plain_item t p off v rows], st)
      | Poisoned e \<Rightarrow>
          (let i = plain_item t p off v [] in
           case sink_quarantine A [poison_of i (transform_reason e)] st of
             (None, st1) \<Rightarrow> transform_all T A ms (items @ [i], st1)
           | (Some _, st1) \<Rightarrow> (False, items @ [i], st1))
      | Escapes \<Rightarrow> (False, items, st))"

definition consume_batch :: "(bytes \<Rightarrow> 'r transformed) \<Rightarrow> storage \<Rightarrow> (nat \<Rightarrow> bool) \<Rightarrow> polled list \<Rightarrow> 'r sink \<Rightarrow> (poll_outcome \<times> 'r sink) option" where
  "consume_batch T A stop ms st =
     (case transform_all T A ms ([], st) of
        (False, _, st1) \<Rightarrow> Some (Crashed, st1)
      | (True, items, st1) \<Rightarrow>
          if items = [] then Some (Nothing, st1)
          else map_option (\<lambda>(okay, st2). (if okay then Committed else Stopped, st2)) (durable_write A stop items st1))"

section \<open>What is committed is stored\<close>

definition in_store :: "'r sink \<Rightarrow> 'r batch_item \<Rightarrow> bool" where
  "in_store st i = (\<exists>call \<in> set (sk_written st). set (it_rows i) \<subseteq> set call)"

definition in_quarantine :: "'r sink \<Rightarrow> 'r batch_item \<Rightarrow> bool" where
  "in_quarantine st i = (\<exists>reason. poison_of i reason \<in> set (sk_quarantined st))"

definition grows :: "'r sink \<Rightarrow> 'r sink \<Rightarrow> bool" where
  "grows st st' = (set (sk_written st) \<subseteq> set (sk_written st') \<and> set (sk_quarantined st) \<subseteq> set (sk_quarantined st') \<and> sk_calls st \<le> sk_calls st')"

lemma sink_grows_refl [simp]: "grows st st" by (simp add: grows_def)

lemma sink_grows_trans [trans]: "grows a b \<Longrightarrow> grows b c \<Longrightarrow> grows a c" by (auto simp: grows_def)

lemma stored_grows: "grows st st' \<Longrightarrow> in_store st i \<Longrightarrow> in_store st' i" "grows st st' \<Longrightarrow> in_quarantine st i \<Longrightarrow> in_quarantine st' i"
  by (auto simp: grows_def in_store_def in_quarantine_def)

lemma sink_write_cases:
  "sink_write A rows st = (None, st') \<Longrightarrow> grows st st' \<and> rows \<in> set (sk_written st') \<and> sk_calls st' = Suc (sk_calls st)"
  "sink_write A rows st = (Some e, st') \<Longrightarrow> grows st st' \<and> A (sk_calls st) = Some e \<and> sk_calls st' = Suc (sk_calls st)"
  by (auto simp: sink_write_def grows_def split: option.splits)

lemma sink_quarantine_cases:
  "sink_quarantine A ps st = (None, st') \<Longrightarrow> grows st st' \<and> set ps \<subseteq> set (sk_quarantined st') \<and> sk_calls st' = Suc (sk_calls st)"
  "sink_quarantine A ps st = (Some e, st') \<Longrightarrow> grows st st' \<and> A (sk_calls st) = Some e \<and> sk_calls st' = Suc (sk_calls st)"
  by (auto simp: sink_quarantine_def grows_def split: option.splits)

lemma batch_attempt_done:
  assumes "batch_attempt A b st = (None, st')" and "\<forall>i \<in> set (ba_good b). it_rows i \<noteq> []"
  shows "grows st st' \<and> (\<forall>i \<in> set (ba_good b). in_store st' i) \<and> (\<forall>(i, r) \<in> set (ba_poison b). in_quarantine st' i)"
proof -
  let ?rows = "concat (map it_rows (ba_good b))"
  obtain st1 where w: "(if ?rows = [] then (None, st) else sink_write A ?rows st) = (None, st1)"
      and q: "(if ba_poison b = [] then (None, st1) else sink_quarantine A (map (\<lambda>(i, reason). poison_of i reason) (ba_poison b)) st1) = (None, st')"
    using assms(1) by (auto simp: batch_attempt_def Let_def split: prod.splits option.splits)
  have g1: "grows st st1 \<and> (\<forall>i \<in> set (ba_good b). in_store st1 i)"
  proof (cases "?rows = []")
    case True
    then have "ba_good b = []" using assms(2) by (cases "ba_good b") auto
    then show ?thesis using w True by simp
  next
    case False
    have "sink_write A ?rows st = (None, st1)" using w unfolding if_not_P [OF False] .
    then have "grows st st1 \<and> ?rows \<in> set (sk_written st1)" using sink_write_cases(1) by blast
    then show ?thesis by (auto simp: in_store_def intro!: bexI [of _ ?rows])
  qed
  have g2: "grows st1 st' \<and> (\<forall>(i, r) \<in> set (ba_poison b). in_quarantine st' i)"
  proof (cases "ba_poison b = []")
    case False
    then have "grows st1 st' \<and> set (map (\<lambda>(i, reason). poison_of i reason) (ba_poison b)) \<subseteq> set (sk_quarantined st')"
      using q sink_quarantine_cases(1) by fastforce
    then show ?thesis by (fastforce simp: in_quarantine_def)
  qed (use q in simp)
  show ?thesis using g1 g2 sink_grows_trans stored_grows by blast
qed

lemma batch_attempt_failed:
  assumes "batch_attempt A b st = (Some e, st')"
  shows "grows st st' \<and> (\<exists>k. sk_calls st \<le> k \<and> A k = Some e) \<and> sk_calls st < sk_calls st'"
proof -
  let ?rows = "concat (map it_rows (ba_good b))"
  consider "(if ?rows = [] then (None, st) else sink_write A ?rows st) = (Some e, st')"
    | st1 where "(if ?rows = [] then (None, st) else sink_write A ?rows st) = (None, st1)"
        "sink_quarantine A (map (\<lambda>(i, reason). poison_of i reason) (ba_poison b)) st1 = (Some e, st')"
    using assms by (auto simp: batch_attempt_def Let_def split: prod.splits option.splits if_splits)
  then show ?thesis
  proof cases
    case 1
    then show ?thesis using sink_write_cases(2) by (fastforce split: if_splits)
  next
    case (2 st1)
    have "grows st st1" using 2(1) sink_write_cases(1) by (fastforce split: if_splits)
    then show ?thesis using sink_quarantine_cases(2) [OF 2(2)] sink_grows_trans by (fastforce simp: grows_def)
  qed
qed

text \<open>A record is set aside only for a rejection of its own.\<close>

definition rejected :: "storage \<Rightarrow> ('r batch_item \<times> string) list \<Rightarrow> bool" where
  "rejected A ps \<longleftrightarrow> (\<forall>(i, r) \<in> set ps. \<exists>k e text'. A k = Some (e, text') \<and> is_permanent e \<and> r = write_reason text')"

lemma isolate_sound:
  assumes "isolate A is (still, poison, st) = (still', poison', st')" and "rejected A poison"
  shows "grows st st' \<and> set still \<subseteq> set still' \<and> set still' \<subseteq> set still \<union> set is \<and> set poison \<subseteq> set poison' \<and> rejected A poison'
    \<and> (\<forall>i \<in> set is. i \<in> set still' \<or> i \<in> fst ` set poison' \<or> in_store st' i)"
  using assms
proof (induction "is" arbitrary: still poison st)
  case (Cons i "is")
  obtain r st1 where w: "sink_write A (it_rows i) st = (r, st1)" by fastforce
  show ?case
  proof (cases r)
    case None
    have g: "grows st st1" "in_store st1 i" using sink_write_cases(1) [OF w [unfolded None]] by (auto simp: in_store_def)
    have "isolate A is (still, poison, st1) = (still', poison', st')" using Cons.prems(1) w None by simp
    note ih = Cons.IH [OF this Cons.prems(2)]
    show ?thesis using ih g sink_grows_trans [of st st1 st'] stored_grows(1) [of st1 st' i] by auto
  next
    case (Some et)
    obtain e text' where et: "et = (e, text')" by fastforce
    have g: "grows st st1" "A (sk_calls st) = Some (e, text')" using sink_write_cases(2) [OF w [unfolded Some et]] by auto
    show ?thesis
    proof (cases "is_permanent e")
      case True
      have "isolate A is (still, poison @ [(i, write_reason text')], st1) = (still', poison', st')" using Cons.prems(1) w Some et True by simp
      moreover have "rejected A (poison @ [(i, write_reason text')])" using Cons.prems(2) g(2) True by (auto simp: rejected_def)
      ultimately have ih: "grows st1 st'" "set still \<subseteq> set still'" "set still' \<subseteq> set still \<union> set is" "set (poison @ [(i, write_reason text')]) \<subseteq> set poison'"
          "rejected A poison'" "\<forall>i \<in> set is. i \<in> set still' \<or> i \<in> fst ` set poison' \<or> in_store st' i" using Cons.IH by blast+
      have "(i, write_reason text') \<in> set poison'" using ih(4) by simp
      then have "i \<in> fst ` set poison'" by (rule image_eqI [rotated]) simp
      moreover have "set poison \<subseteq> set poison'" "set still' \<subseteq> set still \<union> set (i # is)" using ih(3,4) by auto
      ultimately show ?thesis using ih(2,5,6) sink_grows_trans [OF g(1) ih(1)] by simp
    next
      case False
      have "isolate A is (still @ [i], poison, st1) = (still', poison', st')" using Cons.prems(1) w Some et False by simp
      note ih = Cons.IH [OF this Cons.prems(2)]
      show ?thesis using ih g(1) sink_grows_trans [of st st1 st'] by auto
    qed
  qed
qed simp

lemma batch_failed_sound:
  assumes "batch_failed A e (b, st) = (b', st')" and "\<forall>i \<in> set (ba_good b). it_rows i \<noteq> []" and "rejected A (ba_poison b)"
  shows "grows st st' \<and> (\<forall>i \<in> set (ba_good b'). it_rows i \<noteq> []) \<and> rejected A (ba_poison b') \<and> set (ba_poison b) \<subseteq> set (ba_poison b')
    \<and> (\<forall>i \<in> set (ba_good b). i \<in> set (ba_good b') \<or> i \<in> fst ` set (ba_poison b') \<or> in_store st' i)"
proof (cases "is_permanent e \<and> ba_good b \<noteq> [] \<and> ba_permanent b + 1 \<ge> 3")
  case True
  obtain still poison st1 where i: "isolate A (ba_good b) ([], ba_poison b, st) = (still, poison, st1)" by (metis surj_pair)
  then have "b' = b\<lparr>ba_permanent := ba_permanent b + 1, ba_good := still, ba_poison := poison\<rparr>" "st' = st1"
    using assms(1) True by (auto simp: batch_failed_def Let_def)
  then show ?thesis using isolate_sound [OF i assms(3)] assms(2) by auto
next
  case False
  then have "st' = st \<and> ba_good b' = ba_good b \<and> ba_poison b' = ba_poison b" using assms(1) by (auto simp: batch_failed_def Let_def split: if_splits)
  then show ?thesis using assms(2,3) by simp
qed

lemma write_loop_sound:
  assumes "write_loop A stop n b st = Some r" and "\<forall>i \<in> set (ba_good b). it_rows i \<noteq> []" and "rejected A (ba_poison b)"
  shows "grows st (snd r) \<and> (fst r \<longrightarrow> (\<forall>i \<in> set (ba_good b) \<union> fst ` set (ba_poison b). in_store (snd r) i \<or> in_quarantine (snd r) i))"
  using assms
proof (induction A stop n b st r rule: write_loop.raw_induct [rotated, consumes 1])
  case (1 loop A stop n b st r)
  show ?case
  proof (cases "stop n")
    case True
    then show ?thesis using 1(2) by auto
  next
    case False
    obtain a st1 where a: "batch_attempt A b st = (a, st1)" by fastforce
    show ?thesis
    proof (cases a)
      case None
      then have "r = (True, st1)" using 1(2) False a by simp
      then show ?thesis using batch_attempt_done [of A b st st1] a None 1(3) by fastforce
    next
      case (Some et)
      obtain e text' where et: "et = (e, text')" by fastforce
      obtain b' st2 where f: "batch_failed A e (b, st1) = (b', st2)" by fastforce
      have l: "loop A stop (n + 1) b' st2 = Some r" using 1(2) False a Some et f by simp
      note s = batch_failed_sound [OF f 1(3,4)]
      have s': "\<forall>i \<in> set (ba_good b'). it_rows i \<noteq> []" "rejected A (ba_poison b')" using s by simp_all
      note ih = 1(1) [OF l s']
      have "grows st st1" using batch_attempt_failed a Some by blast
      then have g: "grows st (snd r)" using s ih sink_grows_trans [of st st1 st2] sink_grows_trans [of st st2 "snd r"] by simp
      show ?thesis
      proof (intro conjI g impI ballI)
        fix i
        assume okay: "fst r" and i: "i \<in> set (ba_good b) \<union> fst ` set (ba_poison b)"
        have "fst ` set (ba_poison b) \<subseteq> fst ` set (ba_poison b')" using s by (simp add: image_mono)
        then have "i \<in> set (ba_good b') \<union> fst ` set (ba_poison b') \<or> in_store st2 i" using s i by blast
        then show "in_store (snd r) i \<or> in_quarantine (snd r) i" using ih okay stored_grows(1) [of st2 "snd r" i] by blast
      qed
    qed
  qed
qed


lemma poison_of_plain [simp]: "poison_of (plain_item t p off v rows) r = (t, p, off, r, v)"
  by (simp add: poison_of_def plain_item_def)

lemma transform_all_sound:
  assumes "transform_all T A ms (items, st) = (True, items', st')"
  shows "grows st st' \<and> set items \<subseteq> set items' \<and> (\<forall>t p off v rows. Message t p off v \<in> set ms \<and> T v = Rows rows \<longrightarrow> plain_item t p off v rows \<in> set items')
    \<and> (\<forall>t p off v e. Message t p off v \<in> set ms \<and> T v = Poisoned e \<longrightarrow> (t, p, off, transform_reason e, v) \<in> set (sk_quarantined st'))
    \<and> (\<forall>t p off v. Message t p off v \<in> set ms \<longrightarrow> T v \<noteq> Escapes \<and> items' \<noteq> [])"
  using assms
proof (induction T A ms "(items, st)" arbitrary: items st rule: transform_all.induct)
  case (3 T A t p off v ms items st)
  show ?case
  proof (cases "T v")
    case (Rows rows)
    then have "transform_all T A ms (items @ [plain_item t p off v rows], st) = (True, items', st')" using 3(3) by simp
    from 3(1) [OF Rows this] show ?thesis using Rows by auto
  next
    case (Poisoned e)
    obtain res st1 where q0: "sink_quarantine A [(t, p, off, transform_reason e, v)] st = (res, st1)" by fastforce
    then have "res = None" using 3(3) Poisoned by (cases res) (simp_all add: Let_def)
    then have q: "sink_quarantine A [(t, p, off, transform_reason e, v)] st = (None, st1)"
        and r: "transform_all T A ms (items @ [plain_item t p off v []], st1) = (True, items', st')"
      using 3(3) Poisoned q0 by (simp_all add: Let_def)
    have g: "grows st st1" "(t, p, off, transform_reason e, v) \<in> set (sk_quarantined st1)" using sink_quarantine_cases(1) [OF q] by auto
    have "(None, st1) = sink_quarantine A [poison_of (plain_item t p off v []) (transform_reason e)] st" using q by simp
    note ih = 3(2) [OF Poisoned refl this refl r]
    have "(t, p, off, transform_reason e, v) \<in> set (sk_quarantined st')" using ih g(2) by (auto simp: grows_def)
    then show ?thesis using ih Poisoned sink_grows_trans [OF g(1)] by auto
  next
    case Escapes
    then show ?thesis using 3(3) by simp
  qed
qed auto

text \<open>
  C7: Offsets are committed only for what is stored: of every record of the poll the rows were written in a call the
  storage acknowledged, or there are none, or the record is in quarantine.
\<close>

theorem committed_is_stored:
  assumes "consume_batch T A stop ms st = Some (Committed, st')" and "Message t p off v \<in> set ms"
  shows "(\<exists>rows. T v = Rows rows \<and> (rows = [] \<or> (\<exists>call \<in> set (sk_written st'). set rows \<subseteq> set call)
      \<or> (\<exists>reason. (t, p, off, reason, v) \<in> set (sk_quarantined st'))))
    \<or> (\<exists>e. T v = Poisoned e \<and> (t, p, off, transform_reason e, v) \<in> set (sk_quarantined st'))"
proof -
  obtain items st1 where tr: "transform_all T A ms ([], st) = (True, items, st1)" and d: "durable_write A stop items st1 = Some (True, st')"
    using assms(1) by (auto simp: consume_batch_def split: prod.splits bool.splits if_splits)
  note t = transform_all_sound [OF tr]
  have w: "grows st1 st'" "\<forall>i \<in> set items. it_rows i \<noteq> [] \<longrightarrow> in_store st' i \<or> in_quarantine st' i"
    using write_loop_sound [OF d [unfolded durable_write_def]] by (simp_all add: rejected_def)
  show ?thesis
  proof (cases "T v")
    case (Rows rows)
    then have "plain_item t p off v rows \<in> set items" using t assms(2) by blast
    then have "rows \<noteq> [] \<Longrightarrow> in_store st' (plain_item t p off v rows) \<or> in_quarantine st' (plain_item t p off v rows)" using w(2) by (force simp: plain_item_def)
    then show ?thesis using Rows by (auto simp: in_store_def in_quarantine_def plain_item_def poison_of_def)
  next
    case (Poisoned e)
    then have "(t, p, off, transform_reason e, v) \<in> set (sk_quarantined st1)" using t assms(2) by blast
    then show ?thesis using w(1) Poisoned by (auto simp: grows_def poison_of_def plain_item_def)
  next
    case Escapes
    then show ?thesis using t assms(2) by blast
  qed
qed

lemma sink_write_calls: "sink_write A rows st = (r, st') \<Longrightarrow> sk_calls st' = Suc (sk_calls st)"
  by (auto simp: sink_write_def split: option.splits)

lemma isolate_calls: "isolate A is (x, y, st) = (x', y', st') \<Longrightarrow> sk_calls st \<le> sk_calls st'"
proof (induction "is" arbitrary: x y st)
  case (Cons j js)
  obtain r s1 where w: "sink_write A (it_rows j) st = (r, s1)" by fastforce
  have "sk_calls s1 \<le> sk_calls st'" using Cons w by (cases r) (auto split: if_splits)
  then show ?case using sink_write_calls [OF w] by simp
qed simp

lemma write_loop_returns:
  assumes "\<forall>m \<ge> k. A m = None"
  shows "\<exists>st'. write_loop A (\<lambda>_. False) n b st = Some (True, st')"
proof (induction "k - sk_calls st" arbitrary: n b st rule: less_induct)
  case less
  obtain a st1 where a: "batch_attempt A b st = (a, st1)" by fastforce
  show ?case
  proof (cases a)
    case None
    then show ?thesis using a by (subst write_loop.simps) simp
  next
    case (Some et)
    obtain e text' where et: "et = (e, text')" by fastforce
    obtain b' st2 where f: "batch_failed A e (b, st1) = (b', st2)" by fastforce
    obtain k' where k': "sk_calls st \<le> k'" "A k' \<noteq> None" "sk_calls st < sk_calls st1" using batch_attempt_failed a Some by blast
    have "k' < k" using assms k'(2) by (meson leI)
    have c: "sk_calls st1 \<le> sk_calls st2"
    proof (cases "is_permanent e \<and> ba_good b \<noteq> [] \<and> ba_permanent b + 1 \<ge> 3")
      case True
      obtain still poison st3 where i: "isolate A (ba_good b) ([], ba_poison b, st1) = (still, poison, st3)" by (metis surj_pair)
      then have "st2 = st3" using f True by (auto simp: batch_failed_def Let_def)
      then show ?thesis using isolate_calls [OF i] by simp
    next
      case False
      then show ?thesis using f by (auto simp: batch_failed_def Let_def split: if_splits)
    qed
    have "k - sk_calls st2 < k - sk_calls st" using c k'(1,3) \<open>k' < k\<close> by linarith
    from less [OF this] show ?thesis using a Some et f by (subst write_loop.simps) simp
  qed
qed

text \<open>
  C21: The consumer outlasts an outage: when the storage accepts every call from some point on, and the consumer is not
  stopped before, the write of a batch returns with success.
\<close>

theorem outage_outlasted:
  assumes "\<forall>m \<ge> k. A m = None"
  shows "\<exists>st'. durable_write A (\<lambda>_. False) items st = Some (True, st')"
  using write_loop_returns [OF assms] unfolding durable_write_def by blast

theorem outage_outlasted_witness:
  "\<exists>st'. durable_write (\<lambda>m. if m < 5 then Some (ClickHouseError (m = 2), ''down'') else None) (\<lambda>_. False)
     [plain_item ''t'' 0 7 [1] [''row'']] \<lparr>sk_calls = 0, sk_written = [], sk_quarantined = []\<rparr> = Some (True, st')"
  by (rule outage_outlasted [of 5]) simp

theorem committed_is_stored_witness:
  "\<exists>st'. consume_batch (\<lambda>v. Rows [v]) (\<lambda>m. if m = 0 then Some (OtherError, ''down'') else None) (\<lambda>_. False) [Failed, Message ''t'' 0 7 [1]]
     \<lparr>sk_calls = 0, sk_written = [], sk_quarantined = []\<rparr> = Some (Committed, st') \<and> (\<exists>call \<in> set (sk_written st'). [1] \<in> set call)"
proof -
  let ?A = "\<lambda>m. if m = 0 then Some (OtherError, ''down'') else None" and ?st = "\<lparr>sk_calls = 0, sk_written = [], sk_quarantined = []\<rparr>"
  have c: "consume_batch (\<lambda>v. Rows [v]) ?A (\<lambda>_. False) [Failed, Message ''t'' 0 7 [1]] ?st
      = Some (Committed, \<lparr>sk_calls = 2, sk_written = [[[1]]], sk_quarantined = []\<rparr>)"
    by (simp add: consume_batch_def durable_write_def write_loop.simps batch_attempt_def batch_failed_def sink_write_def plain_item_def is_permanent_def)
  have "Message ''t'' 0 7 [1] \<in> set [Failed, Message ''t'' 0 7 [1]]" by simp
  from committed_is_stored [OF c this] show ?thesis using c by auto
qed

end
