(* ===== verification/Sinks.thy ===== *)
theory Sinks
  imports Consumers Contracts
begin

text \<open>
  What the sinks make of a payload: the rows of the ClickHouse tables (\<^verbatim>\<open>clickhouse_sinks.py\<close>), the
  notifications (\<^verbatim>\<open>notifier.py\<close>) and the documents for OpenSearch (\<^verbatim>\<open>opensearch_sink.py\<close>,
  all of \<^verbatim>\<open>consumers/sih_consumers\<close>). Parameters: the JSON and UTF-8 decoders, the text of the exception a payload
  raises, \<^verbatim>\<open>str()\<close> of a value and the schema validator. The connections to the stores are the environment of
  theory \<open>Consumers\<close>.
\<close>

record sink_env =
  sx_loads :: "bytes \<Rightarrow> json option"
  sx_decode :: "bytes \<Rightarrow> string option"
  sx_text :: "bytes \<Rightarrow> string"
  sx_str :: "json \<Rightarrow> string"
  sx_errors :: schema_validator

section \<open>Rows\<close>

definition read_keys :: "dict \<Rightarrow> string list \<Rightarrow> dict option" where
  "read_keys d ks = those (map (\<lambda>k. map_option (\<lambda>v. (k, v)) (map_of d k)) ks)"

definition load_doc :: "sink_env \<Rightarrow> bytes \<Rightarrow> string + dict" where
  "load_doc X payload = (case sx_loads X payload of None \<Rightarrow> Inl (''json_parse_error: '' @ sx_text X payload)
     | Some v \<Rightarrow> (case as_obj v of None \<Rightarrow> Inl ''record is not a JSON object'' | Some d \<Rightarrow> Inr d))"

definition missing :: "sink_env \<Rightarrow> bytes \<Rightarrow> dict transformed" where
  "missing X payload = Poisoned (''missing field: '' @ sx_text X payload)"

definition raw_rows :: "sink_env \<Rightarrow> bytes \<Rightarrow> dict transformed" where
  "raw_rows X payload = (case load_doc X payload of Inl e \<Rightarrow> Poisoned e
     | Inr ev \<Rightarrow> (case (map_of ev ''payload'',
            read_keys ev [''event_id'', ''sensor_id'', ''sensor_boot_id'', ''sequence'', ''replay_run_id'', ''log_type'', ''event_time'']) of
         (Some p, Some fs) \<Rightarrow>
           (case observation_result ev of Inl BadValue \<Rightarrow> missing X payload | Inl TooLarge \<Rightarrow> Escapes
            | Inr ms \<Rightarrow> (case format_ms ms of None \<Rightarrow> Escapes
            | Some observed \<Rightarrow> (case read_keys ev [''receiver_received_at'', ''capture_mode'', ''observation_coverage''] of None \<Rightarrow> missing X payload
            | Some gs \<Rightarrow> (case as_obj p of None \<Rightarrow> Escapes
            | Some pl \<Rightarrow> (case sx_decode X payload of None \<Rightarrow> missing X payload
            | Some text' \<Rightarrow> Rows [fs @ [(''observation_time'', JStr observed)] @ gs
                @ map (\<lambda>k. (k, dget pl k)) [''uid'', ''src_ip'', ''src_port'', ''dst_ip'', ''dst_port'', ''proto''] @ [(''event_json'', JStr text')]])))))
       | _ \<Rightarrow> missing X payload))"

text \<open>The type and the key of an entity; \<open>None\<close> when it has none or is not an object.\<close>

definition entity_of :: "dict \<Rightarrow> (json \<times> json) option" where
  "entity_of d = (case map_of d ''entity'' of Some (JObj e) \<Rightarrow>
       (case (map_of e ''type'', map_of e ''key'') of (Some t, Some k) \<Rightarrow> Some (t, k) | _ \<Rightarrow> None)
     | _ \<Rightarrow> None)"

text \<open>The floats of the values that are present. One that is not finite is written as its literal,
  here the text of it.\<close>

fun float_json :: "pyfloat \<Rightarrow> json" where
  "float_json (Fin x) = JReal x"
| "float_json PInf = JStr ''Infinity''"
| "float_json NInf = JStr ''-Infinity''"
| "float_json NaN = JStr ''NaN''"

fun float_values :: "dict \<Rightarrow> conversion_error + dict" where
  "float_values [] = Inr []"
| "float_values ((k, v) # d) =
     (if v = JNull then float_values d
      else andthen (py_float v) (\<lambda>x. andthen (float_values d) (\<lambda>r. Inr ((k, float_json x) # r))))"

definition feature_rows :: "sink_env \<Rightarrow> bytes \<Rightarrow> dict transformed" where
  "feature_rows X payload = (case load_doc X payload of Inl e \<Rightarrow> Poisoned e
     | Inr fr \<Rightarrow> (case (read_keys fr [''feature_record_id'', ''feature_schema_version'', ''detector''], entity_of fr,
            read_keys fr [''sensor_id'', ''window_start'', ''window_end'', ''computed_at'', ''values'']) of
         (Some fs, Some (t, k), Some gs) \<Rightarrow>
           (case as_obj (dget fr ''values'') of None \<Rightarrow> Escapes
            | Some vs \<Rightarrow> (case (float_values vs, read_keys fr [''availability'', ''capped''], sx_decode X payload) of
                (Inl TooLarge, _, _) \<Rightarrow> Escapes
              | (Inr fv, Some hs, Some text') \<Rightarrow> Rows [fs @ [(''entity_type'', t), (''entity_key'', k)] @ butlast gs @ [(''feature_values'', JObj fv)] @ hs
                  @ [(''record_json'', JStr text')]]
              | _ \<Rightarrow> missing X payload))
       | _ \<Rightarrow> missing X payload))"

definition alert_rows :: "sink_env \<Rightarrow> bytes \<Rightarrow> dict transformed" where
  "alert_rows X payload = (case load_doc X payload of Inl e \<Rightarrow> Poisoned e
     | Inr a \<Rightarrow> (case validate (sx_str X) (sx_errors X) Alert (JObj a) of None \<Rightarrow> Escapes
       | Some (er # _) \<Rightarrow> Poisoned (''schema_violation: '' @ snd er)
       | Some [] \<Rightarrow>
           (case (read_keys a [''update_id'', ''incident_id'', ''alert_id'', ''update_seq'', ''status''], map_of a ''timestamp'',
               read_keys a [''event_time'', ''observation_time'', ''evidence_received_at'', ''sensor_id'', ''replay_run_id'', ''threat_class'', ''subtype'',
                 ''severity'', ''confidence'', ''confidence_kind'', ''calibration_status'', ''model_version'', ''detector_version'', ''detection_method''],
               entity_of a,
               read_keys a [''src_ip'', ''src_port'', ''dst_ip'', ''dst_port'', ''protocol'', ''window_start'', ''window_end'', ''first_seen'', ''last_seen'',
                 ''explanation''], sx_decode X payload) of
             (Some fs, Some ts, Some gs, Some (t, k), Some hs, Some text') \<Rightarrow>
               Rows [fs @ [(''ts'', ts)] @ gs @ [(''entity_type'', t), (''entity_key'', k)] @ hs @ [(''alert_json'', JStr text')]]
           | _ \<Rightarrow> Escapes)))"

definition invalid_rows :: "sink_env \<Rightarrow> bytes \<Rightarrow> dict transformed" where
  "invalid_rows X payload = (case load_doc X payload of Inl e \<Rightarrow> Poisoned e
     | Inr q \<Rightarrow> (case read_keys q [''invalid_id'', ''detected_at'', ''stage'', ''reason_code'', ''detail'', ''sensor_id'', ''sensor_boot_id'', ''sequence'',
           ''raw_sha256'', ''raw_size_bytes'', ''raw_excerpt''] of None \<Rightarrow> missing X payload | Some r \<Rightarrow> Rows [r]))"

definition health_rows :: "sink_env \<Rightarrow> bytes \<Rightarrow> dict transformed" where
  "health_rows X payload = (case load_doc X payload of Inl e \<Rightarrow> Poisoned e
     | Inr h \<Rightarrow> (case read_keys h [''sensor_id'', ''sensor_boot_id'', ''health_seq'', ''emitted_at'', ''received_at'', ''sender_state'', ''last_sequence_sent'',
           ''records_read_total'', ''records_invalid_local_total'', ''records_rejected_oversize_total'', ''spool_bytes''] of None \<Rightarrow> missing X payload
       | Some r \<Rightarrow> (case sx_decode X payload of None \<Rightarrow> Escapes | Some text' \<Rightarrow> Rows [r @ [(''record_json'', JStr text')]])))"

section \<open>Notifications\<close>

definition RANK :: "string \<Rightarrow> int option" where
  "RANK s = map_of [(''info'', 0), (''low'', 1), (''medium'', 2), (''high'', 3), (''critical'', 4)] s"

text \<open>\<^verbatim>\<open>RANK.get(v, -1)\<close>: raises for a list or an object.\<close>

definition rank_get :: "json \<Rightarrow> int option" where
  "rank_get v = (if \<not> hashable v then None else case v of JStr s \<Rightarrow> Some (case RANK s of None \<Rightarrow> - 1 | Some r \<Rightarrow> r) | _ \<Rightarrow> Some (- 1))"

definition upper :: "string \<Rightarrow> string" where
  "upper s = map (\<lambda>c. let n = of_char c :: nat in if 97 \<le> n \<and> n \<le> 122 then char_of (n - 32) else c) s"

text \<open>The severity is one of the keys of \<open>RANK\<close> here, hence a string.\<close>

definition notification :: "sink_env \<Rightarrow> dict \<Rightarrow> dict option" where
  "notification X a =
     (case (entity_of a, jstr a ''severity'', map_of a ''threat_class'', map_of a ''subtype'', map_of a ''explanation'',
            map_of a ''update_id'', map_of a ''incident_id'', map_of a ''timestamp'') of
        (Some (t, k), Some sev, Some tc, Some sub, Some ex, Some u, Some i, Some ts) \<Rightarrow>
          (let entity = sx_str X t @ ''='' @ sx_str X k;
               msg = py_take 2000 (''['' @ upper sev @ ''] '' @ sx_str X tc @ ''/'' @ sx_str X sub @ '' '' @ entity @ '': '' @ sx_str X ex)
           in Some [(''update_id'', u), (''incident_id'', i), (''status'', dget a ''status''), (''severity'', JStr sev), (''threat_class'', tc),
                (''entity'', JStr entity), (''message'', JStr msg), (''alert_ts'', ts)])
      | _ \<Rightarrow> None)"

definition notifier_transform :: "sink_env \<Rightarrow> int \<Rightarrow> bytes \<Rightarrow> dict transformed" where
  "notifier_transform X min_rank payload =
     (let bad = Poisoned (''unparseable alert: '' @ sx_text X payload) in
      case sx_loads X payload of None \<Rightarrow> bad
      | Some v \<Rightarrow> (case as_obj v of None \<Rightarrow> Escapes
      | Some a \<Rightarrow>
          if dget a ''status'' \<notin> {JStr ''new'', JStr ''escalated''} then Rows []
          else (case rank_get (dget a ''severity'') of None \<Rightarrow> bad
          | Some r \<Rightarrow> if r < min_rank then Rows []
              else (case notification X a of None \<Rightarrow> bad | Some n \<Rightarrow> Rows [n]))))"

section \<open>Documents\<close>

definition opensearch_transform :: "sink_env \<Rightarrow> bytes \<Rightarrow> dict transformed" where
  "opensearch_transform X payload =
     (let bad = Poisoned (''unparseable alert: '' @ sx_text X payload) in
      case Option.bind (sx_loads X payload) as_obj of None \<Rightarrow> bad
      | Some a \<Rightarrow> (if list_all (has_key a) [''update_id'', ''incident_id'', ''update_seq'', ''timestamp''] then Rows [a] else bad))"

text \<open>
  The lines of a bulk request: every update is a document of its own, and the incident's document is replaced unless
  it already has a higher version.
\<close>

definition bulk_lines :: "dict \<Rightarrow> dict list" where
  "bulk_lines a = (let d = od_set ''@timestamp'' (dget a ''timestamp'') a in
     [[(''index'', JObj [(''_index'', JStr ''sih-alerts-v1''), (''_id'', dget a ''update_id'')])], d,
      [(''index'', JObj [(''_index'', JStr ''sih-incidents-v1''), (''_id'', dget a ''incident_id''), (''version'', dget a ''update_seq''), (''version_type'', JStr ''external_gte'')])], d])"

section \<open>Records no transform handles\<close>

lemma transform_all_escapes:
  assumes "Message t p off v \<in> set ms" and "T v = Escapes"
  shows "\<exists>items' st'. transform_all T A ms acc = (False, items', st')"
  using assms(1)
proof (induction ms arbitrary: acc)
  case (Cons m ms)
  obtain items st where acc: "acc = (items, st)" by fastforce
  show ?case
  proof (cases m)
    case Failed
    then show ?thesis using Cons acc by simp
  next
    case (Message t' p' off' v')
    show ?thesis
    proof (cases "T v'")
      case (Rows rows)
      then have "Message t p off v \<in> set ms" using Cons.prems Message assms(2) by auto
      then show ?thesis using Cons.IH Message Rows acc by simp
    next
      case (Poisoned e)
      then have "Message t p off v \<in> set ms" using Cons.prems Message assms(2) by auto
      then show ?thesis using Cons.IH Message Poisoned acc
        by (cases "sink_quarantine A [(t', p', off', transform_reason e, v')] st") (auto simp: Let_def split: option.split)
    next
      case Escapes
      then show ?thesis using Message acc by simp
    qed
  qed
qed simp

lemma notifier_escapes: "notifier_transform X n v = Escapes \<longleftrightarrow> (\<exists>j. sx_loads X v = Some j \<and> as_obj j = None)"
  by (auto simp: notifier_transform_def Let_def split: option.splits)

text \<open>
  C40: A record that cannot be transformed is meant to be quarantined so that its offset advances. The notifier raises
  AttributeError for JSON that is not an object, which nothing catches: whatever the storage does, no poll that holds
  such a record is ever committed, and the restarted consumer meets it again. The OpenSearch sink, which reads the
  same topic, quarantines the same record.
\<close>

theorem non_object_stops_notifier:
  assumes "Message t p off v \<in> set ms" and "sx_loads X v = Some j" and "as_obj j = None"
  shows "(\<exists>st'. consume_batch (notifier_transform X n) A stop ms st = Some (Crashed, st'))
    \<and> opensearch_transform X v = Poisoned (''unparseable alert: '' @ sx_text X v)"
proof -
  have "notifier_transform X n v = Escapes" using assms(2,3) by (simp add: notifier_escapes)
  then obtain items' st' where "transform_all (notifier_transform X n) A ms ([], st) = (False, items', st')"
    using transform_all_escapes [OF assms(1)] by blast
  then show ?thesis using assms(2,3) by (simp add: consume_batch_def opensearch_transform_def Let_def)
qed

theorem non_object_stops_notifier_witness:
  "\<exists>st'. consume_batch (notifier_transform \<lparr>sx_loads = \<lambda>_. Some (JArr []), sx_decode = \<lambda>_. None, sx_text = \<lambda>_. [], sx_str = \<lambda>_. [], sx_errors = \<lambda>_ _. []\<rparr> 2)
     (\<lambda>_. None) (\<lambda>_. False) [Message ''alerts.v1'' 0 3 [91, 93]] \<lparr>sk_calls = 0, sk_written = [], sk_quarantined = []\<rparr> = Some (Crashed, st')"
  using non_object_stops_notifier [of "''alerts.v1''" 0 3 "[91, 93]" "[Message ''alerts.v1'' 0 3 [91, 93]]"
      "\<lparr>sx_loads = \<lambda>_. Some (JArr []), sx_decode = \<lambda>_. None, sx_text = \<lambda>_. [], sx_str = \<lambda>_. [], sx_errors = \<lambda>_ _. []\<rparr>" "JArr []" 2] by simp

end
