(* ===== verification/Archive.thy ===== *)
theory Archive
  imports Timeutil Hashes "HOL-Library.List_Lexorder"
begin

text \<open>
  The archive exporter (\<^verbatim>\<open>consumers/sih_consumers/archive.py\<close>): closed daily partitions are exported to the
  object store, verified by reading them back, and dropped from the hot tables when they are old enough. ClickHouse and
  the object store are the environment: \<open>av_fails\<close> tells by its number which call raises, \<open>av_applied\<close> whether a
  call that raised took effect all the same, the other fields what the calls answer; \<open>av_final\<close> answers the query for a manifest from
  the rows inserted so far, \<open>av_get\<close> a download from the uploads so far, \<open>ar_objects\<close> with the latest first. \<open>ar_log\<close> is the sequence of the calls and their answers, which the code does not keep.
  The column \<^verbatim>\<open>updated_at\<close> (a clock reading, by which the table keeps the latest row), counters and logging are left out.
\<close>

section \<open>State and calls\<close>

record archive_row =
  mf_table :: string
  mf_pid :: string
  mf_key :: string
  mf_rows :: int
  mf_sha :: string
  mf_status :: string
  mf_exported :: string
  mf_verified :: "string option"

datatype archive_event =
    Stored string bytes | Inserted archive_row | ReadBack string string int | Counted string string int | Dropped string string | Restored string bytes

record summary =
  su_exported :: nat
  su_verified :: nat
  su_dropped :: nat
  su_unverified :: nat

record archive =
  ar_calls :: nat
  ar_sum :: summary
  ar_rows :: "archive_row list"
  ar_objects :: "(string \<times> bytes) list"
  ar_log :: "archive_event list"

record archive_env =
  av_fails :: "nat \<Rightarrow> bool"
  av_applied :: "nat \<Rightarrow> bool"
  av_parts :: "nat \<Rightarrow> string \<Rightarrow> string list"
  av_final :: "archive_row list \<Rightarrow> string \<Rightarrow> string \<Rightarrow> archive_row option"
  av_stream :: "nat \<Rightarrow> string \<Rightarrow> string \<Rightarrow> bytes list"
  av_count :: "nat \<Rightarrow> string \<Rightarrow> string \<Rightarrow> int"
  av_get :: "nat \<Rightarrow> (string \<times> bytes) list \<Rightarrow> string \<Rightarrow> bytes option"
  av_gzip :: "bytes \<Rightarrow> bytes"
  av_gunzip :: "bytes \<Rightarrow> bytes option"
  av_body :: "archive_row \<Rightarrow> bytes"
  av_now :: "nat \<Rightarrow> string"
  av_today :: nat
  av_hot_days :: nat

type_synonym 'a act = "archive \<Rightarrow> 'a option \<times> archive"

text \<open>A step that raises ends the block; \<open>None\<close> is the exception.\<close>

definition seq :: "'a act \<Rightarrow> ('a \<Rightarrow> 'b act) \<Rightarrow> 'b act" where
  "seq m f s = (case m s of (None, s1) \<Rightarrow> (None, s1) | (Some x, s1) \<Rightarrow> f x s1)"

definition pure :: "'a option \<Rightarrow> 'a act" where
  "pure x s = (x, s)"

definition ask :: "archive_env \<Rightarrow> (nat \<Rightarrow> archive \<Rightarrow> 'a) \<Rightarrow> ('a \<Rightarrow> archive_event list) \<Rightarrow> 'a act" where
  "ask E f ev s = (let n = ar_calls s; s1 = s\<lparr>ar_calls := n + 1\<rparr> in
     if av_fails E n then (None, s1) else (Some (f n s), s1\<lparr>ar_log := ar_log s1 @ ev (f n s)\<rparr>))"

definition perform :: "archive_env \<Rightarrow> archive_event \<Rightarrow> unit act" where
  "perform E ev s = (let n = ar_calls s; s1 = s\<lparr>ar_calls := n + 1\<rparr>;
       s2 = s1\<lparr>ar_log := ar_log s1 @ [ev], ar_rows := ar_rows s1 @ (case ev of Inserted m \<Rightarrow> [m] | _ \<Rightarrow> []),
              ar_objects := (case ev of Stored key data \<Rightarrow> [(key, data)] | _ \<Rightarrow> []) @ ar_objects s1\<rparr>
     in if av_fails E n then (None, if av_applied E n then s2 else s1) else (Some (), s2))"

definition clock :: "archive_env \<Rightarrow> string act" where
  "clock E s = (Some (av_now E (ar_calls s)), s)"

definition note_sum :: "(summary \<Rightarrow> summary) \<Rightarrow> unit act" where
  "note_sum f s = (Some (), s\<lparr>ar_sum := f (ar_sum s)\<rparr>)"

section \<open>Operations\<close>

definition TABLES :: "string list" where
  "TABLES = [''raw_events'', ''features'', ''alert_updates'', ''invalid_events'', ''sensor_health'']"

text \<open>\<^verbatim>\<open>strftime("%Y%m%d")\<close> of a day.\<close>

definition day_id :: "nat \<Rightarrow> string" where
  "day_id n = (let (y, m, d) = ordinal_ymd n in str_of_nat y @ pad_nat 2 m @ pad_nat 2 d)"

definition closed_partitions :: "archive_env \<Rightarrow> string \<Rightarrow> string list act" where
  "closed_partitions E t = seq (ask E (\<lambda>n s. av_parts E n t) (\<lambda>_. [])) (\<lambda>ps. pure (Some (filter (\<lambda>p. p < day_id (av_today E)) ps)))"

definition manifest :: "archive_env \<Rightarrow> string \<Rightarrow> string \<Rightarrow> archive_row option act" where
  "manifest E t p = ask E (\<lambda>n s. av_final E (ar_rows s) t p) (\<lambda>_. [])"

definition day :: "string \<Rightarrow> string" where
  "day p = take 4 p @ ''-'' @ slice 4 2 p @ ''-'' @ slice 6 2 p"

definition hot_count :: "archive_env \<Rightarrow> string \<Rightarrow> string \<Rightarrow> int act" where
  "hot_count E t p = ask E (\<lambda>n s. av_count E n t p) (\<lambda>n. [Counted t p n])"

definition newlines :: "bytes \<Rightarrow> int" where
  "newlines bs = int (length (filter (\<lambda>b. b = 10) bs))"

definition object_key :: "string \<Rightarrow> string \<Rightarrow> string \<Rightarrow> string" where
  "object_key t p digest = t @ ''/ingest_day='' @ day p @ ''/'' @ t @ ''-'' @ day p @ ''-'' @ take 16 digest @ ''.jsonl.gz''"

definition manifest_key :: "string \<Rightarrow> string" where
  "manifest_key key = take (length key - 9) key @ ''.manifest.json''"

definition export :: "archive_env \<Rightarrow> string \<Rightarrow> string \<Rightarrow> unit act" where
  "export E t p =
     seq (ask E (\<lambda>n s. av_stream E n t p) (\<lambda>_. [])) (\<lambda>chunks. seq (clock E) (\<lambda>now.
       let data = av_gzip E (concat chunks); digest = hex_of (sha256 data); key = object_key t p digest;
           m = \<lparr>mf_table = t, mf_pid = p, mf_key = key, mf_rows = (\<Sum>c\<leftarrow>chunks. newlines c), mf_sha = digest, mf_status = ''exported'',
                mf_exported = now, mf_verified = None\<rparr>
       in seq (perform E (Stored key data)) (\<lambda>_. seq (perform E (Stored (manifest_key key) (av_body E m))) (\<lambda>_. perform E (Inserted m)))))"

text \<open>The digest and the number of lines of an object, and the lines.\<close>

definition lines_of :: "archive_env \<Rightarrow> bytes option \<Rightarrow> (string \<times> int \<times> bytes) option" where
  "lines_of E d = Option.bind d (\<lambda>data. map_option (\<lambda>raw. (hex_of (sha256 data), newlines raw, raw)) (av_gunzip E data))"

definition read_back :: "archive_env \<Rightarrow> string \<Rightarrow> (string \<times> int \<times> bytes) act" where
  "read_back E key = seq (ask E (\<lambda>n s. av_get E n (ar_objects s) key)
         (\<lambda>d. case lines_of E d of None \<Rightarrow> [] | Some (digest, rows, raw) \<Rightarrow> [ReadBack key digest rows]))
     (\<lambda>d. pure (lines_of E d))"

definition verify :: "archive_env \<Rightarrow> string \<Rightarrow> string \<Rightarrow> archive_row \<Rightarrow> bool act" where
  "verify E t p m =
     seq (read_back E (mf_key m)) (\<lambda>(digest, rows, _).
     seq (hot_count E t p) (\<lambda>hot.
       if digest \<noteq> mf_sha m \<or> rows \<noteq> mf_rows m then pure (Some False)
       else if hot \<noteq> rows then seq (perform E (Inserted (m\<lparr>mf_status := ''stale'', mf_verified := None\<rparr>))) (\<lambda>_. pure (Some False))
       else seq (clock E) (\<lambda>now.
         seq (perform E (Inserted (m\<lparr>mf_status := ''verified'', mf_verified := Some now\<rparr>))) (\<lambda>_. pure (Some True)))))"

section \<open>A cycle\<close>

text \<open>One closed partition; \<open>raise\<close>: the manifest is missing.\<close>

definition raise :: "'a act" where
  "raise = pure None"

definition visit_partition :: "archive_env \<Rightarrow> string \<Rightarrow> string \<Rightarrow> unit act" where
  "visit_partition E t p =
     seq (manifest E t p) (\<lambda>m0.
     seq (if m0 = None \<or> mf_status (the m0) = ''stale''
          then seq (export E t p) (\<lambda>_. seq (note_sum (\<lambda>u. u\<lparr>su_exported := su_exported u + 1\<rparr>)) (\<lambda>_. manifest E t p))
          else pure (Some m0)) (\<lambda>m1. case m1 of None \<Rightarrow> raise | Some a \<Rightarrow>
     seq (if mf_status a = ''exported''
          then seq (verify E t p a) (\<lambda>okay. seq (if okay then note_sum (\<lambda>u. u\<lparr>su_verified := su_verified u + 1\<rparr>) else pure (Some ()))
            (\<lambda>_. manifest E t p))
          else pure (Some (Some a))) (\<lambda>m2. case m2 of None \<Rightarrow> raise | Some b \<Rightarrow>
     if mf_status b \<noteq> ''verified'' then note_sum (\<lambda>u. u\<lparr>su_unverified := su_unverified u + 1\<rparr>)
     else if p < day_id (av_today E - av_hot_days E)
     then seq (perform E (Dropped t p)) (\<lambda>_. seq (perform E (Inserted (b\<lparr>mf_status := ''deleted_hot''\<rparr>)))
            (\<lambda>_. note_sum (\<lambda>u. u\<lparr>su_dropped := su_dropped u + 1\<rparr>)))
     else pure (Some ()))))"

definition visit_safely :: "archive_env \<Rightarrow> string \<Rightarrow> string \<Rightarrow> archive \<Rightarrow> archive" where
  "visit_safely E t p s = (case visit_partition E t p s of (Some _, s1) \<Rightarrow> s1
     | (None, s1) \<Rightarrow> s1\<lparr>ar_sum := (ar_sum s1)\<lparr>su_unverified := su_unverified (ar_sum s1) + 1\<rparr>\<rparr>)"

fun cycle_tables :: "archive_env \<Rightarrow> string list \<Rightarrow> unit act" where
  "cycle_tables E [] s = (Some (), s)"
| "cycle_tables E (t # ts) s = (case closed_partitions E t s of (None, s1) \<Rightarrow> (None, s1)
     | (Some ps, s1) \<Rightarrow> cycle_tables E ts (fold (visit_safely E t) ps s1))"

definition cycle :: "archive_env \<Rightarrow> unit act" where
  "cycle E s = cycle_tables E TABLES (s\<lparr>ar_sum := \<lparr>su_exported = 0, su_verified = 0, su_dropped = 0, su_unverified = 0\<rparr>\<rparr>)"

definition archive_new :: archive where
  "archive_new = \<lparr>ar_calls = 0, ar_sum = \<lparr>su_exported = 0, su_verified = 0, su_dropped = 0, su_unverified = 0\<rparr>, ar_rows = [], ar_objects = [], ar_log = []\<rparr>"

text \<open>The cycles of the loop, each with the environment it meets; an error of a cycle is logged and the next one runs.\<close>

definition run_cycles :: "archive_env list \<Rightarrow> archive \<Rightarrow> archive" where
  "run_cycles Es s = fold (\<lambda>E s. snd (cycle E s)) Es s"

text \<open>\<^verbatim>\<open>restore\<close>: the number of rows, or the message it exits with.\<close>

definition restore_day :: "archive_env \<Rightarrow> string \<Rightarrow> string \<Rightarrow> (string + int) act" where
  "restore_day E t dy =
     (let p = filter (\<lambda>c. c \<noteq> CHR ''-'') dy in
      seq (manifest E t p) (\<lambda>m. case m of None \<Rightarrow> pure (Some (Inl (''no archive manifest for '' @ t @ '' '' @ dy)))
      | Some r \<Rightarrow>
          seq (read_back E (mf_key r)) (\<lambda>(digest, rows, raw).
            if digest \<noteq> mf_sha r \<or> rows \<noteq> mf_rows r then pure (Some (Inl ''archive object failed verification; refusing to restore''))
            else seq (perform E (Restored t raw)) (\<lambda>_. pure (Some (Inr rows))))))"

section \<open>Nothing is dropped unverified\<close>

text \<open>What must have happened before a call.\<close>

definition justified :: "archive_event list \<Rightarrow> archive_event \<Rightarrow> bool" where
  "justified xs ev = (case ev of
     Inserted r \<Rightarrow> mf_status r = ''verified'' \<longrightarrow>
       (\<exists>ys zs. xs = ys @ [ReadBack (mf_key r) (mf_sha r) (mf_rows r), Counted (mf_table r) (mf_pid r) (mf_rows r)] @ zs)
   | Dropped t p \<Rightarrow> (\<exists>r. Inserted r \<in> set xs \<and> mf_status r = ''verified'' \<and> mf_table r = t \<and> mf_pid r = p)
   | _ \<Rightarrow> True)"

definition sound :: "archive \<Rightarrow> bool" where
  "sound s \<longleftrightarrow> (\<forall>r \<in> set (ar_rows s). Inserted r \<in> set (ar_log s)) \<and> (\<forall>xs ev ys. ar_log s = xs @ ev # ys \<longrightarrow> justified xs ev)"

text \<open>Pre- and postconditions; \<open>sound\<close> also holds when an exception ends the block.\<close>

definition valid :: "(archive \<Rightarrow> bool) \<Rightarrow> 'a act \<Rightarrow> ('a \<Rightarrow> archive \<Rightarrow> bool) \<Rightarrow> bool" where
  "valid P m Q \<longleftrightarrow> (\<forall>s. sound s \<and> P s \<longrightarrow> sound (snd (m s)) \<and> (\<forall>x. fst (m s) = Some x \<longrightarrow> Q x (snd (m s))))"

lemma valid_seq: "valid P m R \<Longrightarrow> (\<And>x. valid (R x) (f x) Q) \<Longrightarrow> valid P (seq m f) Q"
  unfolding valid_def seq_def by (fastforce split: prod.split option.split)

lemma valid_pure [intro]: "(\<And>s y. P s \<Longrightarrow> x = Some y \<Longrightarrow> Q y s) \<Longrightarrow> valid P (pure x) Q"
  by (simp add: valid_def pure_def)

lemma valid_weaken: "valid P' m Q' \<Longrightarrow> (\<And>s. P s \<Longrightarrow> P' s) \<Longrightarrow> (\<And>x s. Q' x s \<Longrightarrow> Q x s) \<Longrightarrow> valid P m Q"
  unfolding valid_def by blast

lemma snoc_split: "xs @ [x] = ys @ y # zs \<longleftrightarrow> (zs = [] \<and> xs = ys \<and> x = y) \<or> (\<exists>zs'. zs = zs' @ [x] \<and> xs = ys @ y # zs')"
  by (cases zs rule: rev_cases) auto

lemma sound_log:
  assumes "sound s" and "justified (ar_log s) ev"
  shows "sound (s\<lparr>ar_calls := n, ar_log := ar_log s @ [ev], ar_rows := ar_rows s @ (case ev of Inserted m \<Rightarrow> [m] | _ \<Rightarrow> []), ar_objects := os\<rparr>)"
  using assms unfolding sound_def by (auto simp: snoc_split split: archive_event.split)

lemma sound_calls [simp]: "sound (s\<lparr>ar_calls := n\<rparr>) = sound s" "sound (s\<lparr>ar_sum := u\<rparr>) = sound s"
  by (simp_all add: sound_def)

lemma valid_perform:
  assumes "\<And>s. P s \<Longrightarrow> justified (ar_log s) ev"
  shows "valid P (perform E ev) (\<lambda>_ _. True)"
  unfolding valid_def
proof (intro allI impI conjI)
  fix s
  assume s: "sound s \<and> P s"
  have "sound (s\<lparr>ar_calls := ar_calls s + 1, ar_log := ar_log s @ [ev], ar_rows := ar_rows s @ (case ev of Inserted m \<Rightarrow> [m] | _ \<Rightarrow> []),
      ar_objects := (case ev of Stored key data \<Rightarrow> [(key, data)] | _ \<Rightarrow> []) @ ar_objects s\<rparr>)"
    using sound_log s assms by blast
  then show "sound (snd (perform E ev s))" using s by (simp add: perform_def Let_def)
qed simp

lemma valid_ask:
  assumes "\<And>s n. P s \<Longrightarrow> ev (f n s) = [] \<and> Q (f n s) s" and "\<And>x s n u. Q x (s\<lparr>ar_calls := n\<rparr>) = Q x s"
  shows "valid P (ask E f ev) Q"
  using assms unfolding valid_def ask_def by (auto simp: Let_def)

definition plain :: "archive_event \<Rightarrow> bool" where
  "plain e = (case e of Inserted _ \<Rightarrow> False | Dropped _ _ \<Rightarrow> False | _ \<Rightarrow> True)"

lemma sound_plain: "sound s \<Longrightarrow> plain e \<Longrightarrow> sound (s\<lparr>ar_calls := n, ar_log := ar_log s @ [e]\<rparr>)"
proof -
  assume s: "sound s" and "plain e"
  then have "justified (ar_log s) e" "\<And>r. e \<noteq> Inserted r" by (auto simp: plain_def justified_def split: archive_event.splits)
  then show ?thesis using s unfolding sound_def by (auto simp: snoc_split)
qed

lemma valid_ask_event:
  assumes "\<And>s n. P s \<Longrightarrow> (ev (f n s) = [] \<and> Q (f n s) (s\<lparr>ar_calls := n + 1\<rparr>))
    \<or> (\<exists>e. ev (f n s) = [e] \<and> plain e \<and> Q (f n s) (s\<lparr>ar_calls := n + 1, ar_log := ar_log s @ [e]\<rparr>))"
  shows "valid P (ask E f ev) Q"
  unfolding valid_def
proof (intro allI impI)
  fix s
  assume s: "sound s \<and> P s"
  show "sound (snd (ask E f ev s)) \<and> (\<forall>x. fst (ask E f ev s) = Some x \<longrightarrow> Q x (snd (ask E f ev s)))"
    using assms [of s "ar_calls s"] s sound_plain by (auto simp: ask_def Let_def)
qed

lemma valid_manifest:
  assumes "\<And>rs r. av_final E rs t p = Some r \<Longrightarrow> r \<in> set rs \<and> mf_table r = t \<and> mf_pid r = p"
  shows "valid (\<lambda>_. True) (manifest E t p) (\<lambda>m s. \<forall>r. m = Some r \<longrightarrow> r \<in> set (ar_rows s) \<and> mf_table r = t \<and> mf_pid r = p)"
  unfolding manifest_def by (rule valid_ask_event) (use assms in auto)

lemma valid_read_back:
  "valid (\<lambda>_. True) (read_back E key) (\<lambda>(d, n, raw) s. \<exists>ys. ar_log s = ys @ [ReadBack key d n])"
proof -
  have "valid (\<lambda>_. True) (ask E (\<lambda>n s. av_get E n (ar_objects s) key)
         (\<lambda>d. case lines_of E d of None \<Rightarrow> [] | Some (digest, rows, raw) \<Rightarrow> [ReadBack key digest rows]))
     (\<lambda>d s. \<forall>digest rows raw. lines_of E d = Some (digest, rows, raw) \<longrightarrow> (\<exists>ys. ar_log s = ys @ [ReadBack key digest rows]))"
    by (rule valid_ask_event) (auto simp: plain_def split: option.splits)
  then show ?thesis unfolding read_back_def by (rule valid_seq) (auto intro!: valid_pure)
qed

lemma valid_hot_count:
  "valid (\<lambda>s. \<exists>ys. ar_log s = ys @ [e]) (hot_count E t p) (\<lambda>n s. \<exists>ys. ar_log s = ys @ [e, Counted t p n])"
  unfolding hot_count_def by (rule valid_ask_event) (auto simp: plain_def)

lemma valid_clock: "(\<And>s. P s \<Longrightarrow> Q s) \<Longrightarrow> valid P (clock E) (\<lambda>_. Q)"
  by (simp add: valid_def clock_def)

lemma valid_note: "valid P (note_sum f) (\<lambda>_ _. True)"
  by (simp add: valid_def note_sum_def)

lemma valid_if: "(c \<Longrightarrow> valid P a Q) \<Longrightarrow> (\<not> c \<Longrightarrow> valid P b Q) \<Longrightarrow> valid P (if c then a else b) Q"
  by simp

lemma valid_true: "valid P m Q \<Longrightarrow> valid P m (\<lambda>_ _. True)"
  unfolding valid_def by blast

lemma valid_perform_plain: "plain ev \<Longrightarrow> valid P (perform E ev) (\<lambda>_ _. True)"
  by (rule valid_perform) (auto simp: plain_def justified_def split: archive_event.splits)

lemma valid_insert: "mf_status r \<noteq> ''verified'' \<Longrightarrow> valid P (perform E (Inserted r)) (\<lambda>_ _. True)"
  by (rule valid_perform) (simp add: justified_def)

lemma valid_export: "valid P (export E t p) (\<lambda>_ _. True)"
  unfolding export_def Let_def
  by (rule valid_seq [where R = "\<lambda>_ _. True"], rule valid_ask_event, simp)
    (rule valid_seq [where R = "\<lambda>_ _. True"], rule valid_clock, simp,
     intro valid_seq [where R = "\<lambda>_ _. True"] valid_perform_plain valid_insert, simp_all add: plain_def)

lemma valid_skip: "valid P (pure x) (\<lambda>_ _. True)"
  by (rule valid_pure) simp

lemma valid_verify:
  assumes "mf_table m = t" "mf_pid m = p"
  shows "valid (\<lambda>_. True) (verify E t p m) (\<lambda>_ _. True)"
proof -
  let ?rest = "\<lambda>d n hot. if d \<noteq> mf_sha m \<or> n \<noteq> mf_rows m then pure (Some False)
     else if hot \<noteq> n then seq (perform E (Inserted (m\<lparr>mf_status := ''stale'', mf_verified := None\<rparr>))) (\<lambda>_. pure (Some False))
     else seq (clock E) (\<lambda>now.
       seq (perform E (Inserted (m\<lparr>mf_status := ''verified'', mf_verified := Some now\<rparr>))) (\<lambda>_. pure (Some True)))"
  have e: "valid (\<lambda>s. \<exists>ys. ar_log s = ys @ [ReadBack (mf_key m) d n, Counted t p hot]) (?rest d n hot) (\<lambda>_ _. True)" for d n hot
  proof (intro valid_if)
    assume eq: "\<not> (d \<noteq> mf_sha m \<or> n \<noteq> mf_rows m)" "\<not> hot \<noteq> n"
    let ?R = "\<lambda>s. \<exists>ys. ar_log s = ys @ [ReadBack (mf_key m) d n, Counted t p hot]"
    have p: "valid ?R (perform E (Inserted (m\<lparr>mf_status := ''verified'', mf_verified := Some now\<rparr>))) (\<lambda>_ _. True)" for now
      by (rule valid_perform) (use eq assms in \<open>fastforce simp: justified_def\<close>)
    show "valid ?R (seq (clock E) (\<lambda>now.
       seq (perform E (Inserted (m\<lparr>mf_status := ''verified'', mf_verified := Some now\<rparr>))) (\<lambda>_. pure (Some True)))) (\<lambda>_ _. True)"
      by (rule valid_seq [OF valid_clock [where Q = ?R]], assumption, rule valid_seq [OF p], rule valid_skip)
  next
    show "valid (\<lambda>s. \<exists>ys. ar_log s = ys @ [ReadBack (mf_key m) d n, Counted t p hot])
      (seq (perform E (Inserted (m\<lparr>mf_status := ''stale'', mf_verified := None\<rparr>))) (\<lambda>_. pure (Some False))) (\<lambda>_ _. True)"
      by (rule valid_seq [OF valid_insert]) (simp, rule valid_skip)
  qed (rule valid_skip)
  show ?thesis unfolding verify_def
  proof (rule valid_seq [OF valid_read_back], clarify)
    fix d n raw
    show "valid (\<lambda>s. \<exists>ys. ar_log s = ys @ [ReadBack (mf_key m) d n]) (seq (hot_count E t p) (\<lambda>hot. ?rest d n hot)) (\<lambda>_ _. True)"
      by (rule valid_seq [OF valid_hot_count]) (rule e)
  qed
qed

lemma valid_pre: "(\<And>s. P s \<Longrightarrow> c) \<Longrightarrow> (c \<Longrightarrow> valid P m Q) \<Longrightarrow> valid P m Q"
  unfolding valid_def by blast

lemma valid_raise: "valid P raise Q"
  by (simp add: raise_def valid_def pure_def)

definition answers_inserted :: "archive_env \<Rightarrow> bool" where
  "answers_inserted E \<longleftrightarrow> (\<forall>rs t p r. av_final E rs t p = Some r \<longrightarrow> r \<in> set rs \<and> mf_table r = t \<and> mf_pid r = p)"

definition listed :: "string \<Rightarrow> string \<Rightarrow> archive_row option \<Rightarrow> archive \<Rightarrow> bool" where
  "listed t p m s \<longleftrightarrow> (\<forall>r. m = Some r \<longrightarrow> r \<in> set (ar_rows s) \<and> mf_table r = t \<and> mf_pid r = p)"

lemma valid_listed: "answers_inserted E \<Longrightarrow> valid (\<lambda>_. True) (manifest E t p) (listed t p)"
  using valid_manifest [of E t p] unfolding answers_inserted_def listed_def by blast

lemma valid_drop:
  assumes "mf_status b = ''verified''"
  shows "valid (listed t p (Some b)) (seq (perform E (Dropped t p)) (\<lambda>_. seq (perform E (Inserted (b\<lparr>mf_status := ''deleted_hot''\<rparr>))) (\<lambda>_. note_sum f))) (\<lambda>_ _. True)"
proof (rule valid_seq)
  have "valid (\<lambda>s. listed t p (Some b) s \<and> sound s) (perform E (Dropped t p)) (\<lambda>_ _. True)"
    by (rule valid_perform) (use assms in \<open>auto simp: justified_def listed_def sound_def\<close>)
  then show "valid (listed t p (Some b)) (perform E (Dropped t p)) (\<lambda>_ _. True)" unfolding valid_def by blast
next
  show "valid (\<lambda>_. True) (seq (perform E (Inserted (b\<lparr>mf_status := ''deleted_hot''\<rparr>))) (\<lambda>_. note_sum f)) (\<lambda>_ _. True)"
    by (rule valid_seq [OF valid_insert]) (simp, rule valid_note)
qed

lemma valid_visit:
  assumes "answers_inserted E"
  shows "valid (\<lambda>_. True) (visit_partition E t p) (\<lambda>_ _. True)"
  unfolding visit_partition_def
proof (rule valid_seq [OF valid_listed [OF assms]], rule valid_seq)
  fix m0
  show "valid (listed t p m0) (if m0 = None \<or> mf_status (the m0) = ''stale''
      then seq (export E t p) (\<lambda>_. seq (note_sum (\<lambda>u. u\<lparr>su_exported := su_exported u + 1\<rparr>)) (\<lambda>_. manifest E t p)) else pure (Some m0)) (listed t p)"
  proof (rule valid_if)
    show "valid (listed t p m0) (seq (export E t p) (\<lambda>_. seq (note_sum (\<lambda>u. u\<lparr>su_exported := su_exported u + 1\<rparr>)) (\<lambda>_. manifest E t p))) (listed t p)"
      by (rule valid_seq [OF valid_export], rule valid_seq [OF valid_note], rule valid_listed [OF assms])
  qed (rule valid_pure, simp)
next
  fix m1
  show "valid (listed t p m1) (case m1 of None \<Rightarrow> raise | Some a \<Rightarrow>
     seq (if mf_status a = ''exported''
          then seq (verify E t p a) (\<lambda>okay. seq (if okay then note_sum (\<lambda>u. u\<lparr>su_verified := su_verified u + 1\<rparr>) else pure (Some ()))
            (\<lambda>_. manifest E t p))
          else pure (Some (Some a))) (\<lambda>m2. case m2 of None \<Rightarrow> raise | Some b \<Rightarrow>
     if mf_status b \<noteq> ''verified'' then note_sum (\<lambda>u. u\<lparr>su_unverified := su_unverified u + 1\<rparr>)
     else if p < day_id (av_today E - av_hot_days E)
     then seq (perform E (Dropped t p)) (\<lambda>_. seq (perform E (Inserted (b\<lparr>mf_status := ''deleted_hot''\<rparr>)))
            (\<lambda>_. note_sum (\<lambda>u. u\<lparr>su_dropped := su_dropped u + 1\<rparr>)))
     else pure (Some ()))) (\<lambda>_ _. True)" (is "valid _ (case m1 of None \<Rightarrow> raise | Some a \<Rightarrow> seq (?first a) ?second) _")
  proof (cases m1)
    case None
    then show ?thesis by (simp add: valid_raise)
  next
    case (Some a)
    have "valid (listed t p (Some a)) (?first a) (listed t p)"
    proof (rule valid_if)
      show "valid (listed t p (Some a)) (seq (verify E t p a) (\<lambda>okay. seq (if okay then note_sum (\<lambda>u. u\<lparr>su_verified := su_verified u + 1\<rparr>) else pure (Some ()))
            (\<lambda>_. manifest E t p))) (listed t p)"
      proof (rule valid_pre [where c = "mf_table a = t \<and> mf_pid a = p"])
        assume "mf_table a = t \<and> mf_pid a = p"
        then have v: "valid (listed t p (Some a)) (verify E t p a) (\<lambda>_ _. True)" by (intro valid_weaken [OF valid_verify]) simp_all
        have i: "valid (\<lambda>_. True) (if okay then note_sum (\<lambda>u. u\<lparr>su_verified := su_verified u + 1\<rparr>) else pure (Some ())) (\<lambda>_ _. True)" for okay
          by (rule valid_if) (rule valid_note, rule valid_skip)
        show "valid (listed t p (Some a)) (seq (verify E t p a) (\<lambda>okay. seq (if okay then note_sum (\<lambda>u. u\<lparr>su_verified := su_verified u + 1\<rparr>) else pure (Some ()))
            (\<lambda>_. manifest E t p))) (listed t p)"
          by (rule valid_seq [OF v], rule valid_seq [OF i], rule valid_listed [OF assms])
      qed (simp add: listed_def)
    qed (rule valid_pure, simp)
    moreover have "valid (listed t p m2) (?second m2) (\<lambda>_ _. True)" for m2
    proof (cases m2)
      case None
      then show ?thesis by (simp add: valid_raise)
    next
      case (Some b)
      then show ?thesis unfolding Some option.case by (intro valid_if valid_note valid_skip valid_drop) simp
    qed
    ultimately have "valid (listed t p (Some a)) (seq (?first a) ?second) (\<lambda>_ _. True)" by (rule valid_seq)
    then show ?thesis using Some by simp
  qed
qed

lemma sound_visits: "answers_inserted E \<Longrightarrow> sound s \<Longrightarrow> sound (fold (visit_safely E t) ps s)"
proof (induction ps arbitrary: s)
  case (Cons p ps)
  have "sound (snd (visit_partition E t p s))" using valid_visit [OF Cons.prems(1), of t p] Cons.prems(2) by (simp add: valid_def)
  then have "sound (visit_safely E t p s)" by (auto simp: visit_safely_def split: prod.split option.split)
  then show ?case using Cons by simp
qed simp

lemma sound_cycle: "answers_inserted E \<Longrightarrow> sound s \<Longrightarrow> sound (snd (cycle E s))"
proof -
  have "answers_inserted E \<Longrightarrow> sound s \<Longrightarrow> sound (snd (cycle_tables E ts s))" for ts s
  proof (induction ts arbitrary: s)
    case (Cons t ts)
    have "valid (\<lambda>_. True) (closed_partitions E t) (\<lambda>_ _. True)" unfolding closed_partitions_def
      by (rule valid_seq [where R = "\<lambda>_ _. True"], rule valid_ask_event, simp, rule valid_skip)
    then have "sound (snd (closed_partitions E t s))" using Cons.prems(2) by (simp add: valid_def)
    then show ?case using Cons.IH [OF Cons.prems(1)] sound_visits [OF Cons.prems(1)] by (auto split: prod.split option.split)
  qed simp
  then show "answers_inserted E \<Longrightarrow> sound s \<Longrightarrow> sound (snd (cycle E s))" by (simp add: cycle_def)
qed

lemma sound_cycles: "\<forall>E \<in> set Es. answers_inserted E \<Longrightarrow> sound s \<Longrightarrow> sound (run_cycles Es s)"
  unfolding run_cycles_def by (induction Es arbitrary: s) (simp_all add: sound_cycle)

text \<open>
  C6: Over any number of cycles, whichever calls fail, with or without effect: before a hot partition is dropped its
  archive object was read back, its digest and number of rows were those of the manifest, the hot partition had just
  as many rows at that time, and a manifest that says so was recorded.
\<close>

theorem dropped_only_verified:
  assumes "\<forall>E \<in> set Es. answers_inserted E" and "ar_log (run_cycles Es archive_new) = xs @ Dropped t p # ys"
  shows "\<exists>r as bs. Inserted r \<in> set xs \<and> mf_status r = ''verified'' \<and> mf_table r = t \<and> mf_pid r = p
    \<and> xs = as @ [ReadBack (mf_key r) (mf_sha r) (mf_rows r), Counted t p (mf_rows r)] @ bs"
proof -
  have s: "sound (run_cycles Es archive_new)" by (rule sound_cycles [OF assms(1)]) (simp add: sound_def archive_new_def)
  then have "justified xs (Dropped t p)" using assms(2) unfolding sound_def by blast
  then obtain r where r: "Inserted r \<in> set xs" "mf_status r = ''verified''" "mf_table r = t" "mf_pid r = p" by (auto simp: justified_def)
  then obtain us vs where u: "xs = us @ Inserted r # vs" by (meson split_list)
  then have "justified us (Inserted r)" using s assms(2) unfolding sound_def by simp
  then obtain as bs where "us = as @ [ReadBack (mf_key r) (mf_sha r) (mf_rows r), Counted (mf_table r) (mf_pid r) (mf_rows r)] @ bs"
    using r(2) by (auto simp: justified_def)
  then show ?thesis using r u by auto
qed

text \<open>
  C39: But the comparison is made once: a partition whose manifest says verified is dropped, when it is old enough, without
  looking at it again. Rows that were inserted into it after the verification are in no archive, and are lost. (The
  day of a raw event is that of its receipt, so a consumer that catches up inserts into past days.)
\<close>

theorem late_rows_are_dropped:
  assumes "av_final E (ar_rows s) t p = Some m" and "mf_status m = ''verified''" and "p < day_id (av_today E - av_hot_days E)"
    and "\<forall>n. \<not> av_fails E n" and "\<forall>n. av_count E n t p \<noteq> mf_rows m"
  shows "\<exists>s'. visit_partition E t p s = (Some (), s') \<and> ar_log s' = ar_log s @ [Dropped t p, Inserted (m\<lparr>mf_status := ''deleted_hot''\<rparr>)]"
  using assms(1-4) by (simp add: visit_partition_def seq_def manifest_def ask_def pure_def perform_def note_sum_def Let_def)

definition demo_archive_env :: archive_env where
  "demo_archive_env = \<lparr>av_fails = \<lambda>_. False, av_applied = \<lambda>_. False, av_parts = \<lambda>_ t. if t = ''features'' then [''20240101''] else [],
     av_final = \<lambda>rs t p. find (\<lambda>r. mf_table r = t \<and> mf_pid r = p) (rev rs), av_stream = \<lambda>_ _ _. [[1, 10], [2, 10]], av_count = \<lambda>_ _ _. 2,
     av_get = \<lambda>_ objs key. map_of objs key, av_gzip = id, av_gunzip = Some, av_body = \<lambda>_. [], av_now = \<lambda>_. ''now'', av_today = 739210, av_hot_days = 0\<rparr>"

definition demo_row :: archive_row where
  "demo_row = \<lparr>mf_table = ''features'', mf_pid = ''20240101'', mf_key = ''k'', mf_rows = 2, mf_sha = ''d'', mf_status = ''verified'', mf_exported = ''now'',
     mf_verified = Some ''now''\<rparr>"

lemma demo_answers: "answers_inserted demo_archive_env"
  by (auto simp: answers_inserted_def demo_archive_env_def find_Some_iff rev_nth)

lemma demo_cutoff: "''20240101'' < day_id (av_today demo_archive_env - av_hot_days demo_archive_env)"
proof -
  have y: "days_before_year (Suc n) < k \<Longrightarrow> year_from k n = year_from k (Suc n)" "\<not> days_before_year (Suc n) < k \<Longrightarrow> year_from k n = n" for k n
    by (subst year_from.simps, simp)+
  have "year_from 739210 2019 = 2024" by (simp add: y days_before_year_def)
  moreover have "month_from 2024 11 325 = (11, 20)" by code_simp
  ultimately have "ordinal_ymd 739210 = (2024, 11, 20)" by (simp add: ordinal_ymd_def days_before_year_def)
  moreover have "''20240101'' < ''20241120''" by code_simp
  moreover have "str_of_nat 2024 @ pad_nat 2 11 @ pad_nat 2 20 = ''20241120''" by code_simp
  ultimately have "''20240101'' < day_id 739210" by (simp add: day_id_def)
  then show ?thesis by (simp add: demo_archive_env_def)
qed

theorem late_rows_are_dropped_witness:
  "\<exists>s'. visit_partition (demo_archive_env\<lparr>av_count := \<lambda>_ _ _. 5\<rparr>) ''features'' ''20240101'' (archive_new\<lparr>ar_rows := [demo_row]\<rparr>) = (Some (), s')
     \<and> Dropped ''features'' ''20240101'' \<in> set (ar_log s')"
proof -
  let ?E = "demo_archive_env\<lparr>av_count := \<lambda>_ _ _. 5\<rparr>" and ?s = "archive_new\<lparr>ar_rows := [demo_row]\<rparr>"
  have "av_final ?E (ar_rows ?s) ''features'' ''20240101'' = Some demo_row" by (simp add: demo_archive_env_def demo_row_def)
  moreover have "''20240101'' < day_id (av_today ?E - av_hot_days ?E)" using demo_cutoff by simp
  moreover have "\<forall>n. \<not> av_fails ?E n" "\<forall>n. av_count ?E n ''features'' ''20240101'' \<noteq> mf_rows demo_row" "mf_status demo_row = ''verified''"
    by (simp_all add: demo_archive_env_def demo_row_def)
  ultimately obtain s' where s': "visit_partition ?E ''features'' ''20240101'' ?s = (Some (), s')"
      "ar_log s' = ar_log ?s @ [Dropped ''features'' ''20240101'', Inserted (demo_row\<lparr>mf_status := ''deleted_hot''\<rparr>)]"
    using late_rows_are_dropped [of ?E ?s "''features''" "''20240101''" demo_row] by blast
  then have "Dropped ''features'' ''20240101'' \<in> set (ar_log s')" by simp
  then show ?thesis using s'(1) by blast
qed

lemma newlines_concat: "(\<Sum>c\<leftarrow>chunks. newlines c) = newlines (concat chunks)"
  by (induction chunks) (simp_all add: newlines_def)

lemma manifest_key_differs [simp]: "manifest_key key \<noteq> object_key t p digest" "object_key t p digest \<noteq> manifest_key key"
proof -
  have "last (manifest_key key) \<noteq> last (object_key t p digest)" by (simp add: manifest_key_def object_key_def)
  then show "manifest_key key \<noteq> object_key t p digest" "object_key t p digest \<noteq> manifest_key key" by auto
qed

lemma demo_visit:
  "\<exists>s'. visit_partition demo_archive_env ''features'' ''20240101'' s = (Some (), s') \<and> Dropped ''features'' ''20240101'' \<in> set (ar_log s')"
  if "find (\<lambda>r. mf_table r = ''features'' \<and> mf_pid r = ''20240101'') (rev (ar_rows s)) = None"
proof -
  have c: "''20240101'' < day_id 739210" using demo_cutoff by (simp add: demo_archive_env_def)
  show ?thesis using that
    by (simp add: visit_partition_def seq_def manifest_def ask_def pure_def perform_def note_sum_def clock_def export_def verify_def read_back_def hot_count_def
        newlines_def demo_archive_env_def c lines_of_def manifest_key_differs Let_def)
qed

lemma demo_cycle: "Dropped ''features'' ''20240101'' \<in> set (ar_log (run_cycles [demo_archive_env] archive_new))"
proof -
  have c: "''20240101'' < day_id 739210" using demo_cutoff by (simp add: demo_archive_env_def)
  let ?s = "archive_new\<lparr>ar_calls := Suc (Suc 0)\<rparr>"
  have p: "closed_partitions demo_archive_env t s = (Some (if t = ''features'' then [''20240101''] else []), s\<lparr>ar_calls := ar_calls s + 1\<rparr>)" for t s
    by (simp add: closed_partitions_def seq_def ask_def pure_def demo_archive_env_def c Let_def)
  obtain s' where "visit_partition demo_archive_env ''features'' ''20240101'' ?s = (Some (), s')" "Dropped ''features'' ''20240101'' \<in> set (ar_log s')"
    using demo_visit [of ?s] by (auto simp: archive_new_def)
  then show ?thesis by (simp add: run_cycles_def cycle_def TABLES_def p visit_safely_def archive_new_def)
qed

theorem dropped_only_verified_witness:
  "\<exists>xs ys (r :: archive_row) as bs. ar_log (run_cycles [demo_archive_env] archive_new) = xs @ Dropped ''features'' ''20240101'' # ys
     \<and> xs = as @ [ReadBack (mf_key r) (mf_sha r) (mf_rows r), Counted ''features'' ''20240101'' (mf_rows r)] @ bs"
proof -
  obtain xs ys where l: "ar_log (run_cycles [demo_archive_env] archive_new) = xs @ Dropped ''features'' ''20240101'' # ys"
    using demo_cycle by (meson split_list)
  have "\<forall>E \<in> set [demo_archive_env]. answers_inserted E" using demo_answers by simp
  from dropped_only_verified [OF this l] obtain r :: archive_row and as bs where
    "xs = as @ [ReadBack (mf_key r) (mf_sha r) (mf_rows r), Counted ''features'' ''20240101'' (mf_rows r)] @ bs" by blast
  then show ?thesis by (intro exI [of _ xs] exI [of _ ys] exI [of _ r] exI [of _ as] exI [of _ bs] conjI l)
qed

section \<open>Restoring\<close>

text \<open>
  C22: What was exported is what restore inserts again: with a store whose download gives the last upload under the
  key, a decompressor that undoes the compressor and a manifest query that answers the latest row, restoring a day right
  after its export finds the uploaded object, inserts exactly the exported lines and returns their number.
\<close>

theorem export_then_restore:
  assumes "\<forall>n. \<not> av_fails E n" and "\<forall>x. av_gunzip E (av_gzip E x) = Some x" and "\<forall>n. av_stream E n t p = chunks"
    and "\<forall>n objs key data. map_of objs key = Some data \<longrightarrow> av_get E n objs key = Some data"
    and "\<forall>rs r. mf_table r = t \<and> mf_pid r = p \<longrightarrow> av_final E (rs @ [r]) t p = Some r" and "filter (\<lambda>c. c \<noteq> CHR ''-'') dy = p"
  shows "\<exists>s1 s2. export E t p s = (Some (), s1) \<and> restore_day E t dy s1 = (Some (Inr (newlines (concat chunks))), s2)
    \<and> ar_log s2 = ar_log s1 @ [ReadBack (object_key t p (hex_of (sha256 (av_gzip E (concat chunks))))) (hex_of (sha256 (av_gzip E (concat chunks))))
        (newlines (concat chunks)), Restored t (concat chunks)]"
  using assms by (simp add: export_def restore_day_def seq_def manifest_def ask_def pure_def perform_def clock_def read_back_def lines_of_def newlines_concat Let_def)

theorem export_then_restore_witness:
  "\<exists>s1 s2. export demo_archive_env ''features'' ''20240101'' archive_new = (Some (), s1)
     \<and> restore_day demo_archive_env ''features'' ''2024-01-01'' s1 = (Some (Inr 2), s2) \<and> Restored ''features'' [1, 10, 2, 10] \<in> set (ar_log s2)"
proof -
  obtain s1 s2 where "export demo_archive_env ''features'' ''20240101'' archive_new = (Some (), s1)"
     "restore_day demo_archive_env ''features'' ''2024-01-01'' s1 = (Some (Inr (newlines (concat [[1, 10], [2, 10]]))), s2)"
     "Restored ''features'' (concat [[1, 10], [2, 10]]) \<in> set (ar_log s2)"
    using export_then_restore [of demo_archive_env "''features''" "''20240101''" "[[1, 10], [2, 10]]" "''2024-01-01''" archive_new]
    by (fastforce simp: demo_archive_env_def)
  then show ?thesis by (auto simp: newlines_def)
qed

end
