(* ===== verification/Config.thy ===== *)
theory Config
  imports Iputil
begin

text \<open>
  Detection settings (\<^verbatim>\<open>flink/sih_detect/config.py\<close>) with the defaults of the source, and the
  packaged asset inventory (\<^verbatim>\<open>flink/sih_detect/reference.py\<close>). The blocks of the dataclass are a
  chain of record extensions, so \<open>detect_config\<close> has every field. The environment overrides of
  \<^verbatim>\<open>from_env\<close> give other values of the same record; every theorem holds for any of them.
\<close>

section \<open>Settings\<close>

record base_config = 
  kafka_bootstrap :: string
  raw_topic :: string
  alerts_topic :: string
  features_topic :: string
  invalid_topic :: string
  group_id :: string
  model_root :: string
  inventory_path :: string
  out_of_orderness_ms :: int
  idleness_ms :: int
  feature_min_interval_ms :: int

record flow_config = base_config +
  flow_idle_ms :: int
  flow_tombstone_ms :: int

record scan_config = flow_config +
  scan_horizon_ms :: int
  scan_host_threshold :: int
  scan_port_threshold :: int
  scan_pair_cap :: int

record ddos_config = scan_config +
  ddos_min_flows_per_s :: int
  ddos_min_bytes_per_s :: int
  ddos_syn_min_per_s :: int
  ddos_spoof_min_sources_5s :: int
  ddos_amp_min_bytes_per_s :: int
  ddos_amp_min_reflectors_5s :: int
  ddos_baseline_k :: real
  ddos_warmup_buckets :: int
  ddos_episode_gap_ms :: int
  ddos_idle_ms :: int

record beacon_config = ddos_config +
  beacon_min_events :: int
  beacon_max_events :: int
  beacon_min_interval_ms :: int
  beacon_max_cv :: real

record dns_config = beacon_config +
  dns_window_ms :: int
  dns_label_cap :: int
  tunnel_min_unique_labels :: int
  tunnel_min_mean_label_len :: real
  tunnel_min_mean_entropy :: real
  dga_burst_min_nx_domains :: int
  dga_burst_min_dga_like :: int
  dga_burst_domain_cap :: int
  dga_model_disable_after_errors :: int

record tls_config = dns_config +
  tls_horizon_ms :: int
  tls_min_score :: real
  tls_min_positive :: int
  tls_min_available :: int
  tls_min_sessions :: int

record exfil_config = tls_config +
  exfil_window_ms :: int
  exfil_min_bytes :: int
  exfil_min_span_ms :: int
  exfil_min_records :: int
  exfil_baseline_k :: real
  exfil_dst_cap :: int

record detect_config = exfil_config +
  incident_cooldown_ms :: int
  incident_idle_ms :: int
  incident_idle_beacon_ms :: int

definition default_config :: detect_config where
  "default_config = \<lparr>kafka_bootstrap = ''redpanda:9092'', raw_topic = ''raw-events.v1'', alerts_topic = ''alerts.v1'',
     features_topic = ''features.v1'', invalid_topic = ''invalid-events.v1'',
     group_id = ''flink-detection-v1'', model_root = ''/opt/sih/models'',
     inventory_path = ''/opt/sih/reference/asset-inventory.json'', out_of_orderness_ms = 2000,
     idleness_ms = 5000, feature_min_interval_ms = 5000, flow_idle_ms = 600000, flow_tombstone_ms = 60000,
     scan_horizon_ms = 30000, scan_host_threshold = 20, scan_port_threshold = 25, scan_pair_cap = 4096,
     ddos_min_flows_per_s = 200, ddos_min_bytes_per_s = 20000000, ddos_syn_min_per_s = 100,
     ddos_spoof_min_sources_5s = 500, ddos_amp_min_bytes_per_s = 500000, ddos_amp_min_reflectors_5s = 10,
     ddos_baseline_k = 6, ddos_warmup_buckets = 30, ddos_episode_gap_ms = 30000, ddos_idle_ms = 120000,
     beacon_min_events = 8, beacon_max_events = 64, beacon_min_interval_ms = 5000, beacon_max_cv = 3 / 20,
     dns_window_ms = 60000, dns_label_cap = 1024, tunnel_min_unique_labels = 30,
     tunnel_min_mean_label_len = 20, tunnel_min_mean_entropy = 33 / 10, dga_burst_min_nx_domains = 10,
     dga_burst_min_dga_like = 5, dga_burst_domain_cap = 512, dga_model_disable_after_errors = 20,
     tls_horizon_ms = 1800000, tls_min_score = 3 / 5, tls_min_positive = 2, tls_min_available = 3,
     tls_min_sessions = 3, exfil_window_ms = 30000, exfil_min_bytes = 10000000, exfil_min_span_ms = 15000,
     exfil_min_records = 3, exfil_baseline_k = 10, exfil_dst_cap = 256, incident_cooldown_ms = 60000,
     incident_idle_ms = 300000, incident_idle_beacon_ms = 1800000\<rparr>"

lemma default_config_simps [simp]:
  "out_of_orderness_ms default_config = 2000"
  "idleness_ms default_config = 5000"
  "feature_min_interval_ms default_config = 5000"
  "flow_idle_ms default_config = 600000"
  "flow_tombstone_ms default_config = 60000"
  "scan_horizon_ms default_config = 30000"
  "scan_host_threshold default_config = 20"
  "scan_port_threshold default_config = 25"
  "scan_pair_cap default_config = 4096"
  "ddos_min_flows_per_s default_config = 200"
  "ddos_min_bytes_per_s default_config = 20000000"
  "ddos_syn_min_per_s default_config = 100"
  "ddos_spoof_min_sources_5s default_config = 500"
  "ddos_amp_min_bytes_per_s default_config = 500000"
  "ddos_amp_min_reflectors_5s default_config = 10"
  "ddos_baseline_k default_config = 6"
  "ddos_warmup_buckets default_config = 30"
  "ddos_episode_gap_ms default_config = 30000"
  "ddos_idle_ms default_config = 120000"
  "beacon_min_events default_config = 8"
  "beacon_max_events default_config = 64"
  "beacon_min_interval_ms default_config = 5000"
  "beacon_max_cv default_config = 3 / 20"
  "dns_window_ms default_config = 60000"
  "dns_label_cap default_config = 1024"
  "tunnel_min_unique_labels default_config = 30"
  "tunnel_min_mean_label_len default_config = 20"
  "tunnel_min_mean_entropy default_config = 33 / 10"
  "dga_burst_min_nx_domains default_config = 10"
  "dga_burst_min_dga_like default_config = 5"
  "dga_burst_domain_cap default_config = 512"
  "dga_model_disable_after_errors default_config = 20"
  "tls_horizon_ms default_config = 1800000"
  "tls_min_score default_config = 3 / 5"
  "tls_min_positive default_config = 2"
  "tls_min_available default_config = 3"
  "tls_min_sessions default_config = 3"
  "exfil_window_ms default_config = 30000"
  "exfil_min_bytes default_config = 10000000"
  "exfil_min_span_ms default_config = 15000"
  "exfil_min_records default_config = 3"
  "exfil_baseline_k default_config = 10"
  "exfil_dst_cap default_config = 256"
  "incident_cooldown_ms default_config = 60000"
  "incident_idle_ms default_config = 300000"
  "incident_idle_beacon_ms default_config = 1800000"
  by (simp_all add: default_config_def)

section \<open>Asset inventory\<close>

record inventory =
  version :: string
  local_nets :: networks
  assets :: "(string \<times> dict) list"
  periodic :: "(string \<times> string \<times> int \<times> string) list"
  bulk :: "(string \<times> string) list"
  scanners :: "string list"
  allow_domains :: "string list"

definition jarr :: "dict \<Rightarrow> string \<Rightarrow> json list" where
  "jarr d k = (case dget d k of JArr xs \<Rightarrow> xs | _ \<Rightarrow> [])"

definition jobjs :: "dict \<Rightarrow> string \<Rightarrow> dict list option" where
  "jobjs d k = those (map as_obj (jarr d k))"

definition jstrs :: "dict \<Rightarrow> string \<Rightarrow> string list option" where
  "jstrs d k = those (map as_str (jarr d k))"

definition entries :: "(dict \<Rightarrow> 'a option) \<Rightarrow> dict \<Rightarrow> string \<Rightarrow> 'a list option" where
  "entries f d k = Option.bind (jobjs d k) (\<lambda>os. those (map f os))"

definition periodic_entry :: "dict \<Rightarrow> (string \<times> string \<times> int \<times> string) option" where
  "periodic_entry p = (case (jstr p ''src'', jstr p ''dst'', jint p ''dst_port'') of
     (Some s, Some d, Some q) \<Rightarrow> Some (s, d, q, case jstr p ''proto'' of None \<Rightarrow> ''tcp'' | Some x \<Rightarrow> x)
   | _ \<Rightarrow> None)"

definition bulk_entry :: "dict \<Rightarrow> (string \<times> string) option" where
  "bulk_entry b = (case (jstr b ''src'', jstr b ''dst'') of (Some s, Some d) \<Rightarrow> Some (s, d) | _ \<Rightarrow> None)"

definition asset_entry :: "dict \<Rightarrow> (string \<times> dict) option" where
  "asset_entry a = map_option (\<lambda>ip. (ip, a)) (jstr a ''ip'')"

text \<open>\<open>None\<close> is an exception: a missing key, an entry of another type, or a network that does
  not parse. Later assets replace earlier ones.\<close>

definition asset_inventory :: "dict \<Rightarrow> inventory option" where
  "asset_inventory doc =
     (case (Option.bind (jstrs doc ''local_nets'') net_set, entries asset_entry doc ''assets'',
            entries periodic_entry doc ''known_periodic'', entries bulk_entry doc ''known_bulk_transfer'',
            jstrs doc ''authorized_scanners'', jstrs doc ''allow_domains'') of
        (Some nets, Some as, Some ps, Some bs, Some sc, Some doms) \<Rightarrow>
          Some \<lparr>version = (case jstr doc ''inventory_version'' of None \<Rightarrow> ''unknown'' | Some v \<Rightarrow> v),
            local_nets = nets, assets = foldl (\<lambda>acc (k, v). od_set k v acc) [] as, periodic = ps, bulk = bs,
            scanners = sc, allow_domains = map (\<lambda>d. strip (\<lambda>c. c = CHR ''.'') (lower d)) doms\<rparr>
      | _ \<Rightarrow> None)"

definition load_inventory :: "dict option \<Rightarrow> inventory option" where
  "load_inventory file = (case file of None \<Rightarrow> asset_inventory [] | Some doc \<Rightarrow> asset_inventory doc)"

definition is_local :: "inventory \<Rightarrow> string option \<Rightarrow> bool" where
  "is_local inven ip = net_contains (local_nets inven) ip"

definition role :: "inventory \<Rightarrow> string option \<Rightarrow> string option" where
  "role inven ip = (case map_of (assets inven) (case ip of None \<Rightarrow> [] | Some s \<Rightarrow> s) of None \<Rightarrow> None | Some a \<Rightarrow> jstr a ''role'')"

definition known_periodic :: "inventory \<Rightarrow> string \<Rightarrow> string \<Rightarrow> int option \<Rightarrow> string \<Rightarrow> bool" where
  "known_periodic inven s d p proto = ((s, d, case p of None \<Rightarrow> -1 | Some q \<Rightarrow> q, proto) \<in> set (periodic inven))"

definition known_bulk :: "inventory \<Rightarrow> string \<Rightarrow> string \<Rightarrow> bool" where
  "known_bulk inven s d = ((s, d) \<in> set (bulk inven))"

definition authorized_scanner :: "inventory \<Rightarrow> string \<Rightarrow> bool" where
  "authorized_scanner inven ip = (ip \<in> set (scanners inven))"

definition ends_with :: "'a list \<Rightarrow> 'a list \<Rightarrow> bool" where
  "ends_with s t = (length t \<le> length s \<and> drop (length s - length t) s = t)"

definition domain_allowlisted :: "inventory \<Rightarrow> string option \<Rightarrow> bool" where
  "domain_allowlisted inven name = (case name of None \<Rightarrow> False
     | Some s \<Rightarrow> (if s = [] then False
         else let n = rstrip (\<lambda>c. c = CHR ''.'') (lower s)
              in list_ex (\<lambda>d. n = d \<or> ends_with n (CHR ''.'' # d)) (allow_domains inven)))"

definition no_inventory :: inventory where
  "no_inventory = \<lparr>version = [], local_nets = [], assets = [], periodic = [], bulk = [], scanners = [], allow_domains = []\<rparr>"

lemma no_inventory_simps [simp]: "\<not> is_local no_inventory v" "\<not> known_periodic no_inventory s d q r"
  "\<not> authorized_scanner no_inventory s" "\<not> known_bulk no_inventory s d" "\<not> domain_allowlisted no_inventory v"
  by (simp_all add: is_local_def net_contains_def no_inventory_def known_periodic_def authorized_scanner_def known_bulk_def
      domain_allowlisted_def Let_def split: option.splits)

end
