(* ===== verification/DetectCommon.thy ===== *)
theory DetectCommon
  imports Config
begin

text \<open>
  The helpers every detector shares (\<^verbatim>\<open>flink/sih_detect/common.py\<close>): evidence descriptions,
  timer buckets, bounded evidence lists, robust dispersion, the exponentially weighted baseline and
  the cardinality sketch. The lemmas show that a sketch depends only on the set of its members, so
  that merging sketches is counting the union.
\<close>

section \<open>Evidence\<close>

record ev_min =
  obs_ms :: int
  event_time_us :: int
  offset_us :: int
  received_us :: int
  sensor_id :: string
  run :: "string option"

definition ev_min :: "'a ev_min_scheme \<Rightarrow> ev_min" where
  "ev_min d = ev_min.truncate d"

definition bucket_up :: "int \<Rightarrow> int \<Rightarrow> int" where
  "bucket_up ts step = (ts div step + 1) * step"

definition append_ids :: "string list \<Rightarrow> string \<Rightarrow> string list" where
  "append_ids ids event_id = (let xs = (if event_id \<notin> set ids then ids @ [event_id] else ids) in last_n 32 xs)"

lemma ev_min_fields [simp]: "obs_ms (ev_min d) = obs_ms d" "sensor_id (ev_min d) = sensor_id d"
  by (simp_all add: ev_min_def ev_min.truncate_def)

lemma bucket_up_bounds: "0 < step \<Longrightarrow> ts < bucket_up ts step \<and> bucket_up ts step \<le> ts + step"
proof -
  assume s: "0 < step"
  have e: "bucket_up ts step = ts - ts mod step + step"
    by (simp add: bucket_up_def algebra_simps minus_mod_eq_mult_div)
  show ?thesis unfolding e using pos_mod_sign [OF s, of ts] pos_mod_bound [OF s, of ts] by linarith
qed

lemma length_append_ids [simp]: "length (append_ids ids e) \<le> 32"
  by (simp add: append_ids_def Let_def)

lemma append_ids_nonempty [simp]: "append_ids ids e \<noteq> []"
proof -
  have "(if e \<notin> set ids then ids @ [e] else ids) \<noteq> []" by auto
  then have "length (append_ids ids e) \<noteq> 0" by (simp add: append_ids_def Let_def)
  then show ?thesis by auto
qed

lemma distinct_append_ids [simp]: "distinct ids \<Longrightarrow> distinct (append_ids ids e)"
  by (auto simp: append_ids_def Let_def intro: distinct_last_n)

section \<open>Robust dispersion and baselines\<close>

definition median :: "real list \<Rightarrow> real" where
  "median values = (let s = sort values; n = length s in
     if odd n then s ! (n div 2) else (s ! (n div 2 - 1) + s ! (n div 2)) / 2)"

definition robust_cv :: "real list \<Rightarrow> real option" where
  "robust_cv values = (if length values < 2 then None
     else let m = median values in
       if m \<le> 0 then None else Some (14826 / 10000 * median (map (\<lambda>v. \<bar>v - m\<bar>) values) / m))"

record ewma =
  ew_n :: nat
  ew_mean :: real
  ew_var :: real

definition ewma_new :: ewma where
  "ewma_new = \<lparr>ew_n = 0, ew_mean = 0, ew_var = 0\<rparr>"

definition ewma_update :: "real \<Rightarrow> real \<Rightarrow> ewma \<Rightarrow> ewma" where
  "ewma_update alpha x s =
     (let s' = (if ew_n s = 0 then s\<lparr>ew_mean := x, ew_var := 0\<rparr>
                else let diff = x - ew_mean s in
                  s\<lparr>ew_mean := ew_mean s + alpha * diff, ew_var := (1 - alpha) * (ew_var s + alpha * diff * diff)\<rparr>)
      in s'\<lparr>ew_n := ew_n s + 1\<rparr>)"

definition ewma_std :: "ewma \<Rightarrow> real" where
  "ewma_std s = sqrt (max 0 (ew_var s))"

lemma median_nonneg:
  assumes "vs \<noteq> []" "\<forall>v \<in> set vs. 0 \<le> v" shows "0 \<le> median vs"
proof -
  have l: "length vs > 0" using assms(1) by simp
  have nn: "i < length vs \<Longrightarrow> 0 \<le> sort vs ! i" for i
    using assms(2) nth_mem [of i "sort vs"] by simp
  have "length vs div 2 < length vs" "length vs div 2 - 1 < length vs" using l by linarith+
  then have "0 \<le> sort vs ! (length vs div 2)" "0 \<le> sort vs ! (length vs div 2 - 1)" by (simp_all only: nn)
  then show ?thesis by (simp add: median_def Let_def)
qed

lemma robust_cv_nonneg:
  assumes "robust_cv vs = Some c" shows "0 \<le> c"
proof -
  have m: "0 < median vs" "vs \<noteq> []" and c: "c = 14826 / 10000 * median (map (\<lambda>v. \<bar>v - median vs\<bar>) vs) / median vs"
    using assms by (auto simp: robust_cv_def Let_def split: if_splits)
  have "0 \<le> median (map (\<lambda>v. \<bar>v - median vs\<bar>) vs)" by (rule median_nonneg) (use m in auto)
  then show ?thesis unfolding c using m(1) by simp
qed

text \<open>The mean stays inside any interval that holds the samples, the variance non-negative.\<close>

lemma ewma_update_range:
  assumes "0 \<le> alpha" "alpha \<le> 1" "lo \<le> x" "x \<le> hi" "ew_n s = 0 \<or> (lo \<le> ew_mean s \<and> ew_mean s \<le> hi)"
  shows "lo \<le> ew_mean (ewma_update alpha x s) \<and> ew_mean (ewma_update alpha x s) \<le> hi"
proof (cases "ew_n s = 0")
  case False
  then have m: "lo \<le> ew_mean s" "ew_mean s \<le> hi" using assms(5) by auto
  have e: "ew_mean (ewma_update alpha x s) = (1 - alpha) * ew_mean s + alpha * x"
    using False by (simp add: ewma_update_def Let_def algebra_simps)
  have "(1 - alpha) * lo + alpha * lo \<le> (1 - alpha) * ew_mean s + alpha * x"
    "(1 - alpha) * ew_mean s + alpha * x \<le> (1 - alpha) * hi + alpha * hi"
    using assms m by (auto intro!: add_mono mult_left_mono)
  then show ?thesis unfolding e by (simp add: algebra_simps)
qed (use assms in \<open>simp add: ewma_update_def Let_def\<close>)

lemma ewma_update_var: "0 \<le> alpha \<Longrightarrow> alpha \<le> 1 \<Longrightarrow> 0 \<le> ew_var s \<Longrightarrow> 0 \<le> ew_var (ewma_update alpha x s)"
  by (auto simp: ewma_update_def Let_def mult.assoc intro!: mult_nonneg_nonneg add_nonneg_nonneg)

section \<open>Cardinality sketches\<close>

definition EXACT_CAP :: nat where "EXACT_CAP = 64"
definition HLL_M :: nat where "HLL_M = 256"

record card_sketch =
  members :: "string list"
  registers :: "nat list option"

definition card_new :: card_sketch where
  "card_new = \<lparr>members = [], registers = None\<rparr>"

text \<open>\<open>hash64\<close> (BLAKE2b of the text, 8 bytes) is an argument; every result holds for any hash.\<close>

type_synonym hash64 = "string \<Rightarrow> 64 word"

definition hll_index :: "64 word \<Rightarrow> nat" where
  "hll_index h = unat (drop_bit 56 h)"

fun hll_loop :: "nat \<Rightarrow> nat \<Rightarrow> 64 word \<Rightarrow> nat" where
  "hll_loop 0 rho w = rho"
| "hll_loop (Suc n) rho w = (if bit w 63 then rho else hll_loop n (rho + 1) (push_bit 1 w))"

definition hll_rho :: "64 word \<Rightarrow> nat" where
  "hll_rho h = hll_loop 56 1 (push_bit 8 h)"

definition hll_add :: "hash64 \<Rightarrow> string \<Rightarrow> nat list \<Rightarrow> nat list" where
  "hll_add hash64 item regs =
     (let h = hash64 item; idx = hll_index h; rho = hll_rho h
      in if rho > regs ! idx then regs[idx := rho] else regs)"

definition hll_regs :: "hash64 \<Rightarrow> string list \<Rightarrow> nat list" where
  "hll_regs hash64 items = foldl (\<lambda>regs it. hll_add hash64 it regs) (replicate HLL_M 0) items"

definition card_add :: "hash64 \<Rightarrow> card_sketch \<Rightarrow> string \<Rightarrow> card_sketch" where
  "card_add hash64 s item =
     (case registers s of
        None \<Rightarrow> if item \<in> set (members s) then s
                else let xs = members s @ [item] in
                  if length xs > EXACT_CAP then \<lparr>members = [], registers = Some (hll_regs hash64 xs)\<rparr>
                  else s\<lparr>members := xs\<rparr>
      | Some regs \<Rightarrow> s\<lparr>registers := Some (hll_add hash64 item regs)\<rparr>)"

definition merge_step :: "hash64 \<Rightarrow> card_sketch \<Rightarrow> card_sketch \<Rightarrow> card_sketch" where
  "merge_step hash64 out s =
     (case registers s of
        None \<Rightarrow> foldl (card_add hash64) out (members s)
      | Some b \<Rightarrow>
          let a = (case registers out of None \<Rightarrow> hll_regs hash64 (members out) | Some a \<Rightarrow> a)
          in \<lparr>members = (case registers out of None \<Rightarrow> [] | Some _ \<Rightarrow> members out),
              registers = Some (map (\<lambda>(x, y). max x y) (zip a b))\<rparr>)"

definition card_merge :: "hash64 \<Rightarrow> card_sketch list \<Rightarrow> card_sketch" where
  "card_merge hash64 sketches = foldl (merge_step hash64) card_new sketches"

definition card_count :: "card_sketch \<Rightarrow> int" where
  "card_count s =
     (case registers s of
        None \<Rightarrow> int (length (members s))
      | Some regs \<Rightarrow>
          let m = real HLL_M;
              est = 7213 / 10000 / (1 + 1079 / 1000 / m) * m * m / sum_list (map (\<lambda>r. 1 / 2 ^ r) regs);
              zeros = length (filter (\<lambda>r. r = 0) regs)
          in round_he (if est \<le> 5 / 2 * m \<and> zeros \<noteq> 0 then m * ln (m / real zeros) else est))"

definition is_estimate :: "card_sketch \<Rightarrow> bool" where
  "is_estimate s = (registers s \<noteq> None)"

subsection \<open>A sketch depends only on the set of members\<close>

definition sketch_of :: "hash64 \<Rightarrow> string list \<Rightarrow> card_sketch" where
  "sketch_of hash64 items = foldl (card_add hash64) card_new items"

text \<open>The members in order of first occurrence.\<close>

definition firsts :: "'a list \<Rightarrow> 'a list" where
  "firsts xs = foldl (\<lambda>acc x. if x \<in> set acc then acc else acc @ [x]) [] xs"

lemma firsts_Nil [simp]: "firsts [] = []"
  by (simp add: firsts_def)

lemma firsts_snoc: "firsts (xs @ [x]) = (if x \<in> set (firsts xs) then firsts xs else firsts xs @ [x])"
  by (simp add: firsts_def)

lemma set_firsts [simp]: "set (firsts xs) = set xs"
  by (induction xs rule: rev_induct) (auto simp: firsts_snoc)

lemma distinct_firsts [simp]: "distinct (firsts xs)"
  by (induction xs rule: rev_induct) (auto simp: firsts_snoc)

lemma firsts_append: "firsts (xs @ ys) = foldl (\<lambda>acc x. if x \<in> set acc then acc else acc @ [x]) (firsts xs) ys"
  by (simp add: firsts_def)

lemma firsts_firsts [simp]: "firsts (xs @ firsts ys) = firsts (xs @ ys)"
proof (induction ys rule: rev_induct)
  case (snoc y ys)
  show ?case
  proof (cases "y \<in> set ys")
    case True
    then have "firsts (xs @ firsts (ys @ [y])) = firsts (xs @ ys)" using snoc by (simp add: firsts_snoc)
    moreover have "firsts (xs @ ys @ [y]) = firsts (xs @ ys)"
      using True firsts_snoc [of "xs @ ys" y] by simp
    ultimately show ?thesis by simp
  next
    case False
    then show ?thesis using snoc firsts_snoc [of "xs @ ys" y] firsts_snoc [of "xs @ firsts ys" y]
      by (simp add: firsts_snoc)
  qed
qed simp

text \<open>Registers hold, per index, the greatest rank among the members hashed there.\<close>

definition reg_at :: "hash64 \<Rightarrow> string set \<Rightarrow> nat \<Rightarrow> nat" where
  "reg_at hash64 S i = Max (insert 0 (hll_rho ` hash64 ` {x \<in> S. hll_index (hash64 x) = i}))"

lemma hll_index_less [simp]: "hll_index h < HLL_M"
proof -
  have "unat (drop_bit 56 h) = unat h div 2 ^ 56" by (simp only: unat_drop_bit_eq) (simp only: drop_bit_eq_div)
  moreover have "unat h < 2 ^ 64" using unsigned_less [of h, where ?'a = nat] by simp
  ultimately show ?thesis by (simp add: hll_index_def HLL_M_def less_mult_imp_div_less)
qed

lemma reg_at_insert:
  "finite S \<Longrightarrow> reg_at hash64 (insert x S) i
     = (if hll_index (hash64 x) = i then max (hll_rho (hash64 x)) (reg_at hash64 S i) else reg_at hash64 S i)"
proof -
  assume f: "finite S"
  let ?A = "hll_rho ` hash64 ` {y \<in> S. hll_index (hash64 y) = i}"
  have c: "{y \<in> insert x S. hll_index (hash64 y) = i} =
    (if hll_index (hash64 x) = i then insert x {y \<in> S. hll_index (hash64 y) = i} else {y \<in> S. hll_index (hash64 y) = i})"
    by auto
  have fin: "finite ?A" using f by simp
  have "Max (insert 0 (insert (hll_rho (hash64 x)) ?A)) = max (hll_rho (hash64 x)) (Max (insert 0 ?A))"
    using fin by (subst insert_commute, subst Max_insert) auto
  then show ?thesis unfolding reg_at_def c by simp
qed

lemma hll_regs_eq: "hll_regs hash64 xs = map (reg_at hash64 (set xs)) [0..<HLL_M]"
proof (induction xs rule: rev_induct)
  case Nil
  show ?case by (simp add: hll_regs_def reg_at_def map_replicate_const)
next
  case (snoc x xs)
  let ?i = "hll_index (hash64 x)"
  let ?r = "map (reg_at hash64 (set xs)) [0..<HLL_M]"
  have "hll_regs hash64 (xs @ [x]) = hll_add hash64 x ?r"
    using snoc by (simp add: hll_regs_def)
  also have "\<dots> = map (reg_at hash64 (insert x (set xs))) [0..<HLL_M]"
    by (rule nth_equalityI) (auto simp: hll_add_def Let_def reg_at_insert nth_list_update split: if_splits)
  finally show ?case by simp
qed

lemma reg_at_Un:
  assumes "finite S" "finite T" shows "reg_at hash64 (S \<union> T) i = max (reg_at hash64 S i) (reg_at hash64 T i)"
  using assms(1) by (induction rule: finite_induct) (auto simp: reg_at_insert assms(2), simp add: reg_at_def)

lemma hll_regs_add: "hll_add hash64 x (hll_regs hash64 xs) = hll_regs hash64 (xs @ [x])"
  by (simp add: hll_regs_def)

lemma hll_regs_cong: "set xs = set ys \<Longrightarrow> hll_regs hash64 xs = hll_regs hash64 ys"
  by (simp add: hll_regs_eq)

text \<open>The closed form of a sketch: exact up to the cap, registers of the set beyond it.\<close>

lemma sketch_of_eq:
  "sketch_of hash64 xs = (if length (firsts xs) \<le> EXACT_CAP then \<lparr>members = firsts xs, registers = None\<rparr>
     else \<lparr>members = [], registers = Some (hll_regs hash64 xs)\<rparr>)"
proof (induction xs rule: rev_induct)
  case Nil
  show ?case by (simp add: sketch_of_def card_new_def)
next
  case (snoc x xs)
  have s: "sketch_of hash64 (xs @ [x]) = card_add hash64 (sketch_of hash64 xs) x"
    by (simp add: sketch_of_def)
  show ?case
  proof (cases "length (firsts xs) \<le> EXACT_CAP")
    case True
    have "hll_regs hash64 (firsts xs @ [x]) = hll_regs hash64 (xs @ [x])"
      by (rule hll_regs_cong) simp
    then show ?thesis using True snoc unfolding s by (auto simp: card_add_def Let_def firsts_snoc)
  next
    case False
    then have "\<not> length (firsts (xs @ [x])) \<le> EXACT_CAP" by (simp add: firsts_snoc)
    then show ?thesis using False snoc unfolding s by (simp add: card_add_def hll_regs_add)
  qed
qed

lemma foldl_sketch_of: "foldl (card_add hash64) (sketch_of hash64 xs) ys = sketch_of hash64 (xs @ ys)"
  by (simp add: sketch_of_def)

lemma sketch_of_firsts: "sketch_of hash64 (xs @ firsts ys) = sketch_of hash64 (xs @ ys)"
  unfolding sketch_of_eq firsts_firsts by (auto intro: hll_regs_cong)

lemma length_firsts_mono: "length (firsts ys) \<le> length (firsts (xs @ ys))"
proof -
  have c: "length (firsts zs) = card (set zs)" for zs :: "'a list"
    using distinct_card [OF distinct_firsts [of zs]] by simp
  show ?thesis unfolding c by (rule card_mono) auto
qed

lemma merge_step_sketch:
  "merge_step hash64 (sketch_of hash64 xs) (sketch_of hash64 ys) = sketch_of hash64 (xs @ ys)"
proof (cases "length (firsts ys) \<le> EXACT_CAP")
  case True
  then have "merge_step hash64 (sketch_of hash64 xs) (sketch_of hash64 ys) = sketch_of hash64 (xs @ firsts ys)"
    by (simp add: merge_step_def sketch_of_eq [of hash64 ys] foldl_sketch_of)
  then show ?thesis by (simp add: sketch_of_firsts)
next
  case False
  then have big: "\<not> length (firsts (xs @ ys)) \<le> EXACT_CAP" using length_firsts_mono [of ys xs] by simp
  have m: "map (\<lambda>(x, y). max x y) (zip (hll_regs hash64 as) (hll_regs hash64 ys)) = hll_regs hash64 (xs @ ys)"
    if "set as = set xs" for as
    by (rule nth_equalityI) (auto simp: hll_regs_eq reg_at_Un that)
  show ?thesis using False big m [of xs] m [of "firsts xs"]
    by (auto simp: merge_step_def sketch_of_eq Let_def)
qed

lemma merge_is_union_aux:
  "card_merge hash64 (map (sketch_of hash64) xss) = sketch_of hash64 (concat xss)
   \<and> (is_estimate (card_merge hash64 (map (sketch_of hash64) xss)) \<longleftrightarrow> EXACT_CAP < card (set (concat xss)))
   \<and> (card (set (concat xss)) \<le> EXACT_CAP
        \<longrightarrow> card_count (card_merge hash64 (map (sketch_of hash64) xss)) = int (card (set (concat xss))))"
proof -
  have "foldl (merge_step hash64) (sketch_of hash64 zs) (map (sketch_of hash64) xss) = sketch_of hash64 (zs @ concat xss)" for zs
    by (induction xss arbitrary: zs) (simp_all add: merge_step_sketch)
  from this [of "[]"] have m: "card_merge hash64 (map (sketch_of hash64) xss) = sketch_of hash64 (concat xss)"
    by (simp add: card_merge_def sketch_of_def)
  have c: "length (firsts (concat xss)) = card (set (concat xss))"
    using distinct_card [OF distinct_firsts [of "concat xss"]] by simp
  show ?thesis unfolding m by (simp add: sketch_of_eq c is_estimate_def card_count_def del: set_concat)
qed

text \<open>
  Merging the sketches of several buckets gives exactly the sketch of all their items in order,
  so the estimate over a window is that of the union of its buckets, and it is the exact number of
  distinct items as long as there are at most 64 of them.
\<close>

theorem merge_is_union:
  "card_merge hash64 (map (sketch_of hash64) xss) = sketch_of hash64 (concat xss)
   \<and> (is_estimate (card_merge hash64 (map (sketch_of hash64) xss)) \<longleftrightarrow> EXACT_CAP < card (set (concat xss)))
   \<and> (card (set (concat xss)) \<le> EXACT_CAP
        \<longrightarrow> card_count (card_merge hash64 (map (sketch_of hash64) xss)) = int (card (set (concat xss))))"
  by (rule merge_is_union_aux)

theorem merge_is_union_witness:
  "card_count (card_merge (\<lambda>_. 0) (map (sketch_of (\<lambda>_. 0)) [[''a'', ''b''], [''b''], [''c'', ''a'']])) = 3"
proof -
  have c: "card (set (concat [[''a'', ''b''], [''b''], [''c'', ''a'']])) = 3"
    by (simp add: card_insert_if)
  have "card_count (card_merge (\<lambda>_. 0) (map (sketch_of (\<lambda>_. 0)) [[''a'', ''b''], [''b''], [''c'', ''a'']]))
    = int (card (set (concat [[''a'', ''b''], [''b''], [''c'', ''a'']])))"
    by (rule merge_is_union [THEN conjunct2, THEN conjunct2, THEN mp]) (simp only: c, simp add: EXACT_CAP_def)
  then show ?thesis by (simp only: c of_nat_numeral)
qed

end
