(* ===== verification/Alerts.thy ===== *)
theory Alerts
  imports DetectCommon Contracts Ids "HOL-Library.List_Lexorder"
begin

text \<open>
  Findings, alert updates and feature records (\<^verbatim>\<open>flink/sih_detect/alerts.py\<close>). A detector
  fills a \<open>finding_args\<close> (the keyword arguments, \<open>no_args\<close> holding the defaults); \<open>finding\<close> clips and
  rounds it; \<open>alert_record\<close> and \<open>feature_record\<close> build the documents. Their result is \<open>None\<close>
  when a time is outside the years \<^verbatim>\<open>datetime\<close> can write. The theorems show that what is
  built passes the cross-field rules the consumers check.
\<close>

section \<open>Findings\<close>

definition SEVERITY_RANK :: "string \<Rightarrow> int" where
  "SEVERITY_RANK s = (if s = ''info'' then 0 else if s = ''low'' then 1 else if s = ''medium'' then 2
     else if s = ''high'' then 3 else 4)"

text \<open>\<^verbatim>\<open>num\<close>: a float is rounded to six decimals, anything else is kept.\<close>

fun num :: "json \<Rightarrow> json" where
  "num (JReal r) = JReal (round_to 6 r)"
| "num v = v"

type_synonym top_feature = "string \<times> json \<times> json \<times> json"

record finding_args =
  a_detector :: string
  a_threat_class :: string
  a_subtype :: string
  a_entity_type :: string
  a_entity_key :: string
  a_severity :: string
  a_score :: "real option"
  a_method :: string
  a_detector_version :: string
  a_feature_schema_version :: string

record finding_window = finding_args +
  a_first :: ev_min
  a_last :: ev_min
  a_window_start_ms :: int
  a_window_end_ms :: int
  a_observed :: dict
  a_thresholds :: dict
  a_baseline :: dict
  a_unavailable :: "string list"
  a_capped :: "string list"
  a_coverage :: string

record finding_full = finding_window +
  a_src_ip :: "string option"
  a_dst_ip :: "string option"
  a_dst_port :: "int option"
  a_protocol :: "string option"
  a_flow_id :: "string option"
  a_model_version :: "string option"
  a_calibration_status :: "string option"
  a_confidence_kind :: "string option"
  a_model_eligible :: bool
  a_model_reason :: "string option"
  a_raw_event_ids :: "string list"
  a_evidence_count :: int
  a_top_features :: "top_feature list"
  a_explanation :: string

text \<open>The keyword defaults; the required arguments are set by every caller. No caller passes \<^verbatim>\<open>src_port\<close>.\<close>

definition no_ev :: ev_min where
  "no_ev = \<lparr>obs_ms = 0, event_time_us = 0, offset_us = 0, received_us = 0, sensor_id = [], run = None\<rparr>"

definition no_args :: finding_full where
  "no_args = \<lparr>a_detector = [], a_threat_class = [], a_subtype = [], a_entity_type = [], a_entity_key = [],
     a_severity = [], a_score = None, a_method = [], a_detector_version = [], a_feature_schema_version = [],
     a_first = no_ev, a_last = no_ev, a_window_start_ms = 0, a_window_end_ms = 0, a_observed = [], a_thresholds = [],
     a_baseline = [], a_unavailable = [], a_capped = [], a_coverage = ''unknown'', a_src_ip = None, a_dst_ip = None,
     a_dst_port = None, a_protocol = None, a_flow_id = None, a_model_version = None, a_calibration_status = None,
     a_confidence_kind = None, a_model_eligible = False, a_model_reason = None, a_raw_event_ids = [],
     a_evidence_count = 0, a_top_features = [], a_explanation = []\<rparr>"

record finding_id =
  detector :: string
  threat_class :: string
  subtype :: string
  entity_type :: string
  entity_key :: string
  severity :: string
  score :: "real option"
  confidence_kind :: string
  calibration_status :: string
  model_version :: "string option"
  detector_version :: string
  feature_schema_version :: string

record finding_time = finding_id +
  f_method :: string
  f_obs_ms :: int
  f_event_time_us :: int
  f_offset_us :: int
  f_received_us :: int
  f_sensor_id :: string
  f_run :: "string option"
  first_seen_ms :: int
  last_seen_ms :: int
  window_start_ms :: int
  window_end_ms :: int

record finding = finding_time +
  f_flow_id :: "string option"
  src_ip :: "string option"
  src_port :: "int option"
  dst_ip :: "string option"
  dst_port :: "int option"
  protocol :: "string option"
  observed :: dict
  thresholds :: dict
  baseline :: dict
  f_coverage :: string
  unavailable :: "string list"
  capped :: "string list"
  model_eligible :: bool
  model_reason :: "string option"
  raw_event_ids :: "string list"
  evidence_count :: int
  top_features :: "top_feature list"
  explanation :: string

definition clip_text :: "json \<Rightarrow> json" where
  "clip_text v = (case v of JStr s \<Rightarrow> JStr (py_take 255 s) | _ \<Rightarrow> num v)"

definition nums :: "dict \<Rightarrow> dict" where
  "nums d = map (\<lambda>(k, v). (k, num v)) d"

definition sorted_set :: "string list \<Rightarrow> string list" where
  "sorted_set xs = take 64 (sort (remdups xs))"

definition finding :: "finding_full \<Rightarrow> finding" where
  "finding a =
     (let ck = (case a_confidence_kind a of Some c \<Rightarrow> c
                | None \<Rightarrow> if a_score a \<noteq> None then ''heuristic_score'' else ''unavailable'');
          cs = (case a_calibration_status a of Some c \<Rightarrow> c
                | None \<Rightarrow> if ck = ''heuristic_score'' then ''uncalibrated'' else ''not_applicable'');
          f = a_first a; l = a_last a
      in \<lparr>detector = a_detector a, threat_class = a_threat_class a, subtype = a_subtype a,
          entity_type = a_entity_type a, entity_key = py_take 320 (a_entity_key a), severity = a_severity a,
          score = (if ck = ''unavailable'' then None
                   else map_option (\<lambda>s. round_to 6 (max 0 (min 1 s))) (a_score a)),
          confidence_kind = ck, calibration_status = cs, model_version = a_model_version a,
          detector_version = a_detector_version a, feature_schema_version = a_feature_schema_version a,
          f_method = a_method a, f_obs_ms = obs_ms l, f_event_time_us = event_time_us l,
          f_offset_us = offset_us l, f_received_us = received_us l, f_sensor_id = sensor_id l, f_run = run l,
          first_seen_ms = min (obs_ms f) (obs_ms l), last_seen_ms = obs_ms l,
          window_start_ms = min (a_window_start_ms a) (a_window_end_ms a), window_end_ms = a_window_end_ms a,
          f_flow_id = (case a_flow_id a of None \<Rightarrow> None | Some s \<Rightarrow> if s = [] then None else Some (py_take 200 s)),
          src_ip = a_src_ip a, src_port = None, dst_ip = a_dst_ip a, dst_port = a_dst_port a, protocol = a_protocol a,
          observed = map (\<lambda>(k, v). (k, clip_text v)) (take 32 (a_observed a)),
          thresholds = nums (take 16 (a_thresholds a)), baseline = nums (take 16 (a_baseline a)),
          f_coverage = a_coverage a, unavailable = sorted_set (a_unavailable a), capped = sorted_set (a_capped a),
          model_eligible = a_model_eligible a, model_reason = a_model_reason a,
          raw_event_ids = last_n 32 (a_raw_event_ids a), evidence_count = a_evidence_count a,
          top_features = map (\<lambda>(n, v, c, u). (n, num v, num c, u)) (take 10 (a_top_features a)),
          explanation = py_take 1024 (a_explanation a)\<rparr>)"

section \<open>Alert records\<close>

definition jstrings :: "string list \<Rightarrow> json" where
  "jstrings xs = JArr (map JStr xs)"

definition top_json :: "top_feature \<Rightarrow> json" where
  "top_json = (\<lambda>(n, v, c, u). JObj [(''name'', JStr n), (''value'', v), (''contribution'', c), (''unit'', u)])"

definition evidence_json :: "finding \<Rightarrow> json" where
  "evidence_json f = JObj
     [(''observed'', JObj (observed f)), (''thresholds'', JObj (thresholds f)), (''baseline'', JObj (baseline f)),
      (''visibility'', JObj [(''observation_coverage'', JStr (f_coverage f)), (''unavailable_features'', jstrings (unavailable f)),
                             (''capped_features'', jstrings (capped f))]),
      (''model_eligibility'', JObj [(''eligible'', JBool (model_eligible f)), (''reason'', of_opt_str (model_reason f))]),
      (''raw_event_ids'', jstrings (raw_event_ids f)),
      (''raw_event_ids_truncated'', JBool (int (length (raw_event_ids f)) < evidence_count f)),
      (''evidence_count'', JInt (evidence_count f))]"

definition alert_dict :: "finding \<Rightarrow> string \<Rightarrow> int \<Rightarrow> string \<Rightarrow> (string \<Rightarrow> json) \<Rightarrow> dict" where
  "alert_dict f incident update_seq status t =
     [(''alert_schema_version'', JStr ''1.0.0''),
      (''alert_id'', JStr (alert_id (detector f) (entity_type f) (entity_key f) (window_end_ms f) (subtype f))),
      (''incident_id'', JStr incident), (''update_id'', JStr (update_id incident update_seq)),
      (''update_seq'', JInt update_seq), (''status'', JStr status), (''timestamp'', t ''timestamp''),
      (''event_time'', t ''event_time''), (''observation_time'', t ''observation_time''),
      (''replay_time_offset_us'', JInt (f_offset_us f)), (''evidence_received_at'', t ''evidence_received_at''),
      (''sensor_id'', JStr (f_sensor_id f)), (''replay_run_id'', of_opt_str (f_run f)),
      (''flow_id'', of_opt_str (f_flow_id f)), (''src_ip'', of_opt_str (src_ip f)), (''src_port'', of_opt_int (src_port f)),
      (''dst_ip'', of_opt_str (dst_ip f)), (''dst_port'', of_opt_int (dst_port f)), (''protocol'', of_opt_str (protocol f)),
      (''entity'', JObj [(''type'', JStr (entity_type f)), (''key'', JStr (entity_key f))]),
      (''threat_class'', JStr (threat_class f)), (''subtype'', JStr (subtype f)), (''severity'', JStr (severity f)),
      (''confidence'', of_opt_real (score f)), (''confidence_kind'', JStr (confidence_kind f)),
      (''calibration_status'', JStr (calibration_status f)), (''model_version'', of_opt_str (model_version f)),
      (''detector_version'', JStr (detector_version f)), (''feature_schema_version'', JStr (feature_schema_version f)),
      (''detection_method'', JStr (f_method f)), (''evidence'', evidence_json f),
      (''top_features'', JArr (map top_json (top_features f))), (''explanation'', JStr (explanation f)),
      (''window_start'', t ''window_start''), (''window_end'', t ''window_end''),
      (''first_seen'', t ''first_seen''), (''last_seen'', t ''last_seen''),
      (''dedup_key'', JStr (py_take 400 (threat_class f @ ''|'' @ entity_type f @ ''|'' @ entity_key f)))]"

definition alert_times :: "finding \<Rightarrow> int \<Rightarrow> (string \<times> string option) list" where
  "alert_times f now_us =
     [(''timestamp'', format_us now_us), (''event_time'', format_us (f_event_time_us f)),
      (''observation_time'', format_ms (f_obs_ms f)), (''evidence_received_at'', format_us (f_received_us f)),
      (''window_start'', format_ms (window_start_ms f)), (''window_end'', format_ms (window_end_ms f)),
      (''first_seen'', format_ms (first_seen_ms f)), (''last_seen'', format_ms (last_seen_ms f))]"

definition alert_record :: "finding \<Rightarrow> string \<Rightarrow> int \<Rightarrow> string \<Rightarrow> int \<Rightarrow> dict option" where
  "alert_record f incident update_seq status now_us =
     (let ts = alert_times f now_us
      in if \<exists>p \<in> set ts. snd p = None then None
         else Some (alert_dict f incident update_seq status
                (\<lambda>k. case map_of ts k of Some (Some s) \<Rightarrow> JStr s | _ \<Rightarrow> JNull)))"

section \<open>Feature records\<close>

definition feature_record ::
  "int \<Rightarrow> string \<Rightarrow> string \<Rightarrow> string \<Rightarrow> string \<Rightarrow> string \<Rightarrow> int \<Rightarrow> int \<Rightarrow> dict \<Rightarrow> (string \<times> string) list \<Rightarrow> string list
     \<Rightarrow> dict option" where
  "feature_record now_us det fsv etype ekey sensor wstart wend values unavail caps =
     (let vals = nums values;
          avail = map (\<lambda>(k, v). (k, JStr (case map_of unavail k of None \<Rightarrow> ''UNKNOWN'' | Some s \<Rightarrow> s)))
                    (filter (\<lambda>(k, v). v = JNull) vals)
      in case (format_ms (min wstart wend), format_ms wend, format_us now_us) of
           (Some ws, Some we, Some computed) \<Rightarrow> Some
             [(''feature_record_schema_version'', JStr ''1.0.0''),
              (''feature_record_id'', JStr (feature_record_id det etype ekey wend)),
              (''feature_schema_version'', JStr fsv), (''detector'', JStr det),
              (''entity'', JObj [(''type'', JStr etype), (''key'', JStr (py_take 320 ekey))]),
              (''sensor_id'', JStr sensor), (''window_start'', JStr ws), (''window_end'', JStr we),
              (''computed_at'', JStr computed), (''values'', JObj vals), (''availability'', JObj avail),
              (''capped'', jstrings (filter (\<lambda>c. dget vals c \<noteq> JNull) caps))]
         | _ \<Rightarrow> None)"

text \<open>\<^verbatim>\<open>rate_limited\<close>: whether a feature record may be emitted, and the new last time.\<close>

definition rate_limited :: "int option \<Rightarrow> int \<Rightarrow> int \<Rightarrow> bool \<times> int option" where
  "rate_limited prev now min_interval =
     (case prev of Some l \<Rightarrow> if now - l < min_interval then (False, prev) else (True, Some now)
      | None \<Rightarrow> (True, Some now))"

section \<open>The shape of a handler\<close>

text \<open>What one call of a handler does: what it emits in order, the keyed state it leaves, the
  timers it registers and the metrics it counts. A handler returns \<open>None\<close> when it raises.\<close>

datatype 'o emission = Out 'o | FeatureRec dict

record ('s, 'o) step =
  new_state :: 's
  emitted :: "'o emission list"
  timers :: "int list"
  metrics :: "string list"

definition outs :: "'o emission list \<Rightarrow> 'o list" where
  "outs es = List.map_filter (\<lambda>e. case e of Out x \<Rightarrow> Some x | _ \<Rightarrow> None) es"

text \<open>A feature record that is due: emitted, or raising.\<close>

definition emit_feature :: "bool \<Rightarrow> dict option \<Rightarrow> 'o emission list option" where
  "emit_feature due rec = (if due then map_option (\<lambda>d. [FeatureRec d]) rec else Some [])"

lemma outs_append [simp]: "outs (xs @ ys) = outs xs @ outs ys"
  by (simp add: outs_def map_filter_def)

lemma outs_simps [simp]: "outs [] = []" "outs (Out x # es) = x # outs es" "outs (FeatureRec d # es) = outs es"
  by (simp_all add: outs_def map_filter_def)

lemma outs_map_Out [simp]: "outs (map Out xs) = xs"
  by (induction xs) simp_all

lemma outs_emit_feature: "emit_feature due rec = Some es \<Longrightarrow> outs es = []"
  by (auto simp: emit_feature_def split: if_splits)

section \<open>What is built passes the consumers' rules\<close>

text \<open>A finding whose fields agree with each other the way \<open>finding\<close> and its callers make them.\<close>

definition finding_ok :: "finding \<Rightarrow> bool" where
  "finding_ok f \<longleftrightarrow> window_start_ms f \<le> window_end_ms f \<and> first_seen_ms f \<le> last_seen_ms f
     \<and> (score f = None \<longleftrightarrow> confidence_kind f = ''unavailable'')
     \<and> (confidence_kind f = ''calibrated_probability'' \<longrightarrow> calibration_status f = ''calibrated'')
     \<and> (model_version f \<noteq> None \<longleftrightarrow> f_method f \<in> {''model'', ''hybrid''})
     \<and> (\<forall>s. score f = Some s \<longrightarrow> 0 \<le> s \<and> s \<le> 1) \<and> length (raw_event_ids f) \<le> 32"

text \<open>Arguments that a caller must get right: a score for any confidence but ''unavailable'', and a
  model version exactly for model and hybrid methods.\<close>

definition args_ok :: "finding_full \<Rightarrow> bool" where
  "args_ok a \<longleftrightarrow> (\<forall>c. a_confidence_kind a = Some c \<longrightarrow> (c \<noteq> ''unavailable'' \<longrightarrow> a_score a \<noteq> None)
        \<and> (c = ''calibrated_probability'' \<longrightarrow> a_calibration_status a = Some ''calibrated''))
     \<and> (a_model_version a \<noteq> None \<longleftrightarrow> a_method a \<in> {''model'', ''hybrid''})"

lemma finding_fields [simp]:
  "detector (finding a) = a_detector a" "threat_class (finding a) = a_threat_class a" "subtype (finding a) = a_subtype a"
  "entity_type (finding a) = a_entity_type a" "entity_key (finding a) = py_take 320 (a_entity_key a)"
  "severity (finding a) = a_severity a" "f_method (finding a) = a_method a" "model_version (finding a) = a_model_version a"
  "evidence_count (finding a) = a_evidence_count a" "raw_event_ids (finding a) = last_n 32 (a_raw_event_ids a)"
  "window_start_ms (finding a) = min (a_window_start_ms a) (a_window_end_ms a)" "window_end_ms (finding a) = a_window_end_ms a"
  "observed (finding a) = map (\<lambda>(k, v). (k, clip_text v)) (take 32 (a_observed a))"
  "src_ip (finding a) = a_src_ip a" "dst_ip (finding a) = a_dst_ip a" "f_obs_ms (finding a) = obs_ms (a_last a)"
  by (simp_all add: finding_def Let_def)

lemma finding_score:
  "a_confidence_kind a = None \<Longrightarrow> score (finding a) = map_option (\<lambda>s. round_to 6 (max 0 (min 1 s))) (a_score a)"
  by (simp add: finding_def Let_def)

lemma clip_text_simps [simp]: "clip_text (JInt i) = JInt i" "clip_text (JBool b) = JBool b" "clip_text JNull = JNull"
  "clip_text (JReal r) = JReal (round_to 6 r)" "clip_text (JStr s) = JStr (py_take 255 s)"
  by (simp_all add: clip_text_def)

lemma finding_ok_finding: "args_ok a \<Longrightarrow> finding_ok (finding a)"
  by (auto simp: finding_ok_def finding_def args_ok_def Let_def round_to_range split: option.splits)

lemmas dget_simps = dget_def map_of.simps fst_conv snd_conv fun_upd_apply option.case

lemma alert_record_Some:
  assumes "alert_record f incident update_seq status now_us = Some al"
  shows "\<exists>t. al = alert_dict f incident update_seq status t
    \<and> (\<forall>k x. (k, x) \<in> set (alert_times f now_us) \<longrightarrow> (\<exists>s. x = Some s \<and> t k = JStr s))"
proof -
  let ?ts = "alert_times f now_us"
  let ?t = "\<lambda>k. case map_of ?ts k of Some (Some s) \<Rightarrow> JStr s | _ \<Rightarrow> JNull"
  have n: "\<forall>p \<in> set ?ts. snd p \<noteq> None" and al: "al = alert_dict f incident update_seq status ?t"
    using assms by (auto simp: alert_record_def Let_def split: if_splits)
  have d: "distinct (map fst ?ts)" by (simp add: alert_times_def)
  have "\<exists>s. x = Some s \<and> ?t k = JStr s" if m: "(k, x) \<in> set ?ts" for k x
  proof -
    obtain s where "x = Some s" using n m by fastforce
    moreover have "map_of ?ts k = Some x" using d m by simp
    ultimately show ?thesis by simp
  qed
  then show ?thesis using al by blast
qed

lemma alert_fields:
  "dget (alert_dict f i u st t) ''confidence_kind'' = JStr (confidence_kind f)"
  "dget (alert_dict f i u st t) ''confidence'' = of_opt_real (score f)"
  "dget (alert_dict f i u st t) ''calibration_status'' = JStr (calibration_status f)"
  "dget (alert_dict f i u st t) ''model_version'' = of_opt_str (model_version f)"
  "dget (alert_dict f i u st t) ''detection_method'' = JStr (f_method f)"
  "dget (alert_dict f i u st t) ''window_start'' = t ''window_start''"
  "dget (alert_dict f i u st t) ''window_end'' = t ''window_end''"
  "dget (alert_dict f i u st t) ''first_seen'' = t ''first_seen''"
  "dget (alert_dict f i u st t) ''last_seen'' = t ''last_seen''"
  "dget (alert_dict f i u st t) ''incident_id'' = JStr i"
  "dget (alert_dict f i u st t) ''update_id'' = JStr (update_id i u)"
  "dget (alert_dict f i u st t) ''update_seq'' = JInt u"
  "dget (alert_dict f i u st t) ''status'' = JStr st"
  "dget (alert_dict f i u st t) ''severity'' = JStr (severity f)"
  by (simp_all add: alert_dict_def)

lemma parse_format_Some:
  assumes "format_us t = Some s" "0 \<le> t" shows "parse_us s = Some t"
proof -
  have "t div 86400000000 + int EPOCH_ORDINAL \<le> int MAX_ORDINAL"
    using assms(1) by (auto simp: format_us_def Let_def split: if_splits prod.splits)
  moreover have "0 \<le> t div 86400000000" using assms(2) by (simp add: pos_imp_zdiv_nonneg_iff)
  ultimately show ?thesis using parse_format_us [of t] assms(1) by (simp add: EPOCH_ORDINAL_def)
qed

lemma time_order_ok:
  assumes "dget al a = JStr sa" "dget al b = JStr sb" "format_ms x = Some sa" "format_ms y = Some sb" "0 \<le> x" "x \<le> y"
  shows "time_order al a b = Some []"
proof -
  have "parse_us sa = Some (x * 1000)" "parse_us sb = Some (y * 1000)"
    using assms by (auto simp: format_ms_def intro!: parse_format_Some)
  then show ?thesis using assms by (simp add: time_order_def jstr_def)
qed

text \<open>
  An alert built from a finding that is consistent with itself and dated after 1970 satisfies the
  cross-field rules of the alert contract: confidence null exactly when unavailable, calibrated
  probabilities calibrated, a model version exactly for model and hybrid methods, both intervals in order.
\<close>

lemma record_satisfies_rules:
  assumes ok: "finding_ok f" and "alert_record f incident update_seq status now_us = Some al"
    and nn: "0 \<le> window_start_ms f" "0 \<le> first_seen_ms f"
  shows "alert_rules al = Some []"
proof -
  obtain t where al: "al = alert_dict f incident update_seq status t"
    and t: "\<And>k x. (k, x) \<in> set (alert_times f now_us) \<Longrightarrow> \<exists>s. x = Some s \<and> t k = JStr s"
    using alert_record_Some [OF assms(2)] by blast
  have "\<exists>s. format_ms (window_start_ms f) = Some s \<and> t ''window_start'' = JStr s"
    "\<exists>s. format_ms (window_end_ms f) = Some s \<and> t ''window_end'' = JStr s"
    "\<exists>s. format_ms (first_seen_ms f) = Some s \<and> t ''first_seen'' = JStr s"
    "\<exists>s. format_ms (last_seen_ms f) = Some s \<and> t ''last_seen'' = JStr s"
    by (rule t; simp add: alert_times_def)+
  then have "time_order al ''window_start'' ''window_end'' = Some []" "time_order al ''first_seen'' ''last_seen'' = Some []"
    using ok nn unfolding al finding_ok_def by (auto intro!: time_order_ok simp: alert_fields)
  then show ?thesis
    using ok unfolding finding_ok_def by (simp add: alert_rules_def al alert_fields of_opt_real_def of_opt_str_def split: option.splits) auto
qed

text \<open>
  Every feature record satisfies the availability rules of its contract: a value is null exactly
  when it has an availability state, and nothing that is null is listed as capped.
\<close>

theorem feature_satisfies_rules:
  assumes "feature_record now_us det fsv etype ekey sensor wstart wend values unavail caps = Some d"
    and "distinct (map fst values)"
  shows "feature_rules d = []"
proof -
  define vals where "vals = nums values"
  define avail where "avail = map (\<lambda>(k, v). (k, JStr (case map_of unavail k of None \<Rightarrow> ''UNKNOWN'' | Some s \<Rightarrow> s)))
      (filter (\<lambda>(k, v). v = JNull) vals)"
  have k: "map fst (nums xs) = map fst xs" for xs by (auto simp: nums_def)
  have dv: "distinct (map fst vals)" using assms(2) by (simp add: vals_def k)
  have dg: "(k, v) \<in> set vals \<Longrightarrow> dget vals k = v" for k v using dv by (simp add: dget_def)
  have a: "has_key avail k \<longleftrightarrow> has_key vals k \<and> dget vals k = JNull" for k
  proof -
    have "has_key avail k \<longleftrightarrow> (k, JNull) \<in> set vals" by (auto simp: avail_def has_key_def image_iff)
    moreover have "(k, v) \<in> set vals \<longleftrightarrow> has_key vals k \<and> dget vals k = v" for v
      using dg has_keyI [of k _ vals] by (auto simp: has_key_def)
    ultimately show ?thesis by simp
  qed
  have e: "availability_errors vals avail [] = []"
    unfolding availability_exact_iff [OF dv] a by (simp add: has_key_def)
  have d: "dget d ''values'' = JObj vals" "dget d ''availability'' = JObj avail"
    "dget d ''capped'' = jstrings (filter (\<lambda>c. dget vals c \<noteq> JNull) caps)"
    using assms(1) by (auto simp: feature_record_def vals_def avail_def Let_def split: option.splits)
  show ?thesis using e by (simp add: feature_rules_def d Let_def jstrings_def text_of_def filter_empty_conv)
qed

definition demo_args :: finding_full where
  "demo_args = no_args\<lparr>a_detector := ''scan'', a_threat_class := ''scan'', a_subtype := ''vertical_scan'',
     a_entity_type := ''src_host'', a_entity_key := ''10.0.0.1'', a_severity := ''medium'', a_score := Some (2 / 3),
     a_method := ''rule'', a_window_start_ms := 1000, a_window_end_ms := 31000,
     a_first := no_ev\<lparr>obs_ms := 5000\<rparr>, a_last := no_ev\<lparr>obs_ms := 31000\<rparr>\<rparr>"

lemma demo_alert: "\<exists>al. alert_record (finding demo_args) ''inc'' 1 ''new'' 1000000 = Some al"
  by (simp add: alert_record_def Let_def alert_times_def format_us_Some format_ms_def demo_args_def no_args_def no_ev_def finding_def)

theorem feature_satisfies_rules_witness:
  "\<exists>d. feature_record 1000000 ''scan'' ''scan_features-1.0.0'' ''src_host'' ''10.0.0.1'' ''s1'' 1000 31000
     [(''distinct_pairs'', JInt 30), (''failed_ratio'', JNull)] [] [''failed_ratio''] = Some d \<and> feature_rules d = []"
proof -
  have "\<exists>d. feature_record 1000000 ''scan'' ''scan_features-1.0.0'' ''src_host'' ''10.0.0.1'' ''s1'' 1000 31000
     [(''distinct_pairs'', JInt 30), (''failed_ratio'', JNull)] [] [''failed_ratio''] = Some d"
    using format_us_Some [of 1000000] format_us_Some [of 31000000] by (auto simp: feature_record_def Let_def format_ms_def)
  then obtain d where d: "feature_record 1000000 ''scan'' ''scan_features-1.0.0'' ''src_host'' ''10.0.0.1'' ''s1'' 1000 31000
     [(''distinct_pairs'', JInt 30), (''failed_ratio'', JNull)] [] [''failed_ratio''] = Some d" by blast
  have "feature_rules d = []" by (rule feature_satisfies_rules [OF d]) simp
  then show ?thesis using d by blast
qed

end
