(* ===== verification/Harness.thy ===== *)
theory Harness
  imports Alerts "HOL-Library.Multiset" "HOL-Library.Product_Lexorder"
begin

text \<open>
  The keyed-state harness (\<^verbatim>\<open>flink/sih_detect/harness.py\<close>) that runs a detector: one state per key,
  an event-time timer heap without duplicates, a watermark that follows the latest timestamp, and the
  loop that fires due timers. A detector is a pair of handlers; the locale \<open>keyed_logic\<close> states what the
  harness needs of them, and shows that the timer loop ends, that timers fire in time order, and that
  the state and the outputs of a key are those of a run of that key alone.
  The handlers take the wall clock \<open>now_us\<close> as their first argument; \<open>py_repr\<close> is Python's \<^verbatim>\<open>repr\<close> of a
  key, which only orders timers of the same time.
\<close>

section \<open>State and operations\<close>

record 's harness =
  hs_states :: "string \<Rightarrow> 's"
  hs_timers :: "(int \<times> string) list"
  hs_metrics :: "string list"
  hs_wm :: int
  hs_max :: int

text \<open>A call of a handler as the harness sees it: its key and what it yielded.\<close>

type_synonym 'o call = "string \<times> 'o emission list"
type_synonym ('s, 'e, 'o) event_handler = "int \<Rightarrow> string \<Rightarrow> 's \<Rightarrow> 'e \<Rightarrow> ('s, 'o) step option"
type_synonym ('s, 'o) timer_handler = "int \<Rightarrow> string \<Rightarrow> 's \<Rightarrow> int \<Rightarrow> ('s, 'o) step option"

definition outputs :: "'o call list \<Rightarrow> 'o emission list" where
  "outputs calls = concat (map snd calls)"

definition harness_init :: "'s \<Rightarrow> 's harness" where
  "harness_init blank = \<lparr>hs_states = (\<lambda>_. blank), hs_timers = [], hs_metrics = [], hs_wm = - (2 ^ 62), hs_max = - (2 ^ 62)\<rparr>"

definition timer_entry :: "(string \<Rightarrow> string) \<Rightarrow> int \<times> string \<Rightarrow> int \<times> string" where
  "timer_entry py_repr x = (fst x, py_repr (snd x))"

text \<open>\<^verbatim>\<open>timer\<close>: an entry that is already in the heap is not pushed again.\<close>

definition push_timer :: "(string \<Rightarrow> string) \<Rightarrow> string \<Rightarrow> (int \<times> string) list \<Rightarrow> int \<Rightarrow> (int \<times> string) list" where
  "push_timer py_repr key q ts =
     (if timer_entry py_repr (ts, key) \<in> timer_entry py_repr ` set q then q
      else insort_key (timer_entry py_repr) (ts, key) q)"

definition commit :: "(string \<Rightarrow> string) \<Rightarrow> string \<Rightarrow> ('s, 'o) step \<Rightarrow> 's harness \<Rightarrow> 's harness" where
  "commit py_repr key r h =
     h\<lparr>hs_states := (hs_states h)(key := new_state r), hs_timers := foldl (push_timer py_repr key) (hs_timers h) (timers r),
       hs_metrics := hs_metrics h @ metrics r\<rparr>"

text \<open>The loop of \<^verbatim>\<open>advance\<close>. The outer \<open>None\<close> is a loop that never ends, the inner one an exception.\<close>

partial_function (option) drain ::
  "(string \<Rightarrow> string) \<Rightarrow> ('s, 'o) timer_handler \<Rightarrow> int \<Rightarrow> int \<Rightarrow> 's harness \<Rightarrow> ('s harness \<times> (int \<times> 'o call) list) option option"
where
  "drain py_repr on_timer now_us w h =
     (case hs_timers h of
        [] \<Rightarrow> Some (Some (h, []))
      | (ts, key) # q \<Rightarrow>
          if w < ts then Some (Some (h, []))
          else (case on_timer now_us key (hs_states h key) ts of
                  None \<Rightarrow> Some None
                | Some r \<Rightarrow> Option.bind (drain py_repr on_timer now_us w (commit py_repr key r (h\<lparr>hs_timers := q\<rparr>)))
                    (\<lambda>x. Some (map_option (\<lambda>(h', fired). (h', (ts, key, emitted r) # fired)) x))))"

definition advance ::
  "(string \<Rightarrow> string) \<Rightarrow> ('s, 'o) timer_handler \<Rightarrow> int \<Rightarrow> int \<Rightarrow> 's harness \<Rightarrow> ('s harness \<times> 'o call list) option option"
where
  "advance py_repr on_timer now_us w h =
     (if w \<le> hs_wm h then Some (Some (h, []))
      else map_option (map_option (\<lambda>(h', fired). (h', map snd fired))) (drain py_repr on_timer now_us w (h\<lparr>hs_wm := w\<rparr>)))"

definition feed ::
  "(string \<Rightarrow> string) \<Rightarrow> ('s, 'e, 'o) event_handler \<Rightarrow> ('s, 'o) timer_handler \<Rightarrow> int \<Rightarrow> int \<Rightarrow> string \<Rightarrow> 'e \<Rightarrow> int \<Rightarrow> 's harness
    \<Rightarrow> ('s harness \<times> 'o call list) option option"
where
  "feed py_repr on_event on_timer ooo now_us key e ts h =
     (case on_event now_us key (hs_states h key) e of
        None \<Rightarrow> Some None
      | Some r \<Rightarrow>
          let h1 = commit py_repr key r h; h2 = h1\<lparr>hs_max := max (hs_max h1) ts\<rparr>
          in map_option (map_option (\<lambda>(h', calls). (h', (key, emitted r) # calls)))
               (advance py_repr on_timer now_us (hs_max h2 - ooo) h2))"

definition finish ::
  "(string \<Rightarrow> string) \<Rightarrow> ('s, 'o) timer_handler \<Rightarrow> int \<Rightarrow> 's harness \<Rightarrow> ('s harness \<times> 'o call list) option option" where
  "finish py_repr on_timer now_us h = advance py_repr on_timer now_us (2 ^ 62) h"

text \<open>A whole run: elements with their clock reading, key and timestamp.\<close>

fun feed_all ::
  "(string \<Rightarrow> string) \<Rightarrow> ('s, 'e, 'o) event_handler \<Rightarrow> ('s, 'o) timer_handler \<Rightarrow> int \<Rightarrow> (int \<times> string \<times> 'e \<times> int) list \<Rightarrow> 's harness
    \<Rightarrow> ('s harness \<times> 'o call list) option option"
where
  "feed_all py_repr on_event on_timer ooo [] h = Some (Some (h, []))"
| "feed_all py_repr on_event on_timer ooo ((now_us, key, e, ts) # es) h =
     (case feed py_repr on_event on_timer ooo now_us key e ts h of
        None \<Rightarrow> None
      | Some None \<Rightarrow> Some None
      | Some (Some (h1, calls)) \<Rightarrow>
          map_option (map_option (\<lambda>(h2, calls2). (h2, calls @ calls2))) (feed_all py_repr on_event on_timer ooo es h1))"

text \<open>Induction over the loop that fires due timers.\<close>

lemma drain_induct [consumes 1, case_names stop fire]:
  assumes "drain py_repr on_timer now_us w h = Some (Some (h', fired))"
    and stop: "\<And>h. (\<And>ts key q. hs_timers h = (ts, key) # q \<Longrightarrow> w < ts) \<Longrightarrow> P h h []"
    and fire: "\<And>h ts key q r h' fired. hs_timers h = (ts, key) # q \<Longrightarrow> ts \<le> w \<Longrightarrow> on_timer now_us key (hs_states h key) ts = Some r
      \<Longrightarrow> P (commit py_repr key r (h\<lparr>hs_timers := q\<rparr>)) h' fired \<Longrightarrow> P h h' ((ts, key, emitted r) # fired)"
  shows "P h h' fired"
proof -
  have "drain p f n v h = Some x \<Longrightarrow> \<forall>h' fired. x = Some (h', fired) \<longrightarrow> p = py_repr \<longrightarrow> f = on_timer \<longrightarrow> n = now_us \<longrightarrow> v = w
      \<longrightarrow> P h h' fired" for p f n v h x
  proof (erule drain.raw_induct [rotated], intro allI impI)
    fix rec :: "(string \<Rightarrow> string) \<Rightarrow> ('a, 'b) timer_handler \<Rightarrow> int \<Rightarrow> int \<Rightarrow> 'a harness \<Rightarrow> ('a harness \<times> (int \<times> 'b call) list) option option"
      and p f n v h x h' fired
    assume IH: "\<And>p f n v h x. rec p f n v h = Some x \<Longrightarrow> \<forall>h' fired. x = Some (h', fired) \<longrightarrow> p = py_repr \<longrightarrow> f = on_timer \<longrightarrow> n = now_us
        \<longrightarrow> v = w \<longrightarrow> P h h' fired"
      and body: "(case hs_timers h of [] \<Rightarrow> Some (Some (h, []))
        | (ts, key) # q \<Rightarrow> if v < ts then Some (Some (h, []))
          else (case f n key (hs_states h key) ts of None \<Rightarrow> Some None
            | Some r \<Rightarrow> Option.bind (rec p f n v (commit p key r (h\<lparr>hs_timers := q\<rparr>)))
                (\<lambda>x. Some (map_option (\<lambda>(h', fired). (h', (ts, key, emitted r) # fired)) x)))) = Some x"
      and eqs: "x = Some (h', fired)" "p = py_repr" "f = on_timer" "n = now_us" "v = w"
    show "P h h' fired"
    proof (cases "hs_timers h")
      case Nil
      then show ?thesis using body eqs stop [of h] by auto
    next
      case (Cons e q)
      obtain ts key where e: "e = (ts, key)" by fastforce
      show ?thesis
      proof (cases "w < ts")
        case True
        then show ?thesis using body eqs stop [of h] Cons e by auto
      next
        case False
        obtain r where r: "on_timer now_us key (hs_states h key) ts = Some r"
          using body eqs Cons e False by (auto split: option.splits)
        obtain fired1 where f: "rec py_repr on_timer now_us w (commit py_repr key r (h\<lparr>hs_timers := q\<rparr>)) = Some (Some (h', fired1))"
          "fired = (ts, key, emitted r) # fired1"
          using body eqs Cons e False r by (auto simp: bind_eq_Some_conv)
        have "P (commit py_repr key r (h\<lparr>hs_timers := q\<rparr>)) h' fired1" using IH [OF f(1)] by blast
        then show ?thesis using fire [OF _ _ r] Cons e False f(2) by auto
      qed
    qed
  qed
  then show ?thesis using assms(1) by blast
qed

section \<open>The run of one key\<close>

datatype 'e keyed_input = Elem 'e | Fire int

fun keyed_step ::
  "('s, 'e, 'o) event_handler \<Rightarrow> ('s, 'o) timer_handler \<Rightarrow> int \<Rightarrow> string \<Rightarrow> 's \<Rightarrow> 'e keyed_input \<Rightarrow> ('s, 'o) step option" where
  "keyed_step on_event on_timer now_us key s (Elem e) = on_event now_us key s e"
| "keyed_step on_event on_timer now_us key s (Fire ts) = on_timer now_us key s ts"

fun keyed_run ::
  "('s, 'e, 'o) event_handler \<Rightarrow> ('s, 'o) timer_handler \<Rightarrow> string \<Rightarrow> 's \<Rightarrow> (int \<times> 'e keyed_input) list \<Rightarrow> ('s \<times> 'o emission list) option"
where
  "keyed_run on_event on_timer key s [] = Some (s, [])"
| "keyed_run on_event on_timer key s ((now_us, i) # is) =
     (case keyed_step on_event on_timer now_us key s i of None \<Rightarrow> None
      | Some r \<Rightarrow> map_option (\<lambda>(s', es). (s', emitted r @ es)) (keyed_run on_event on_timer key (new_state r) is))"

fun elems :: "(int \<times> 'e keyed_input) list \<Rightarrow> 'e list" where
  "elems [] = []"
| "elems ((_, Elem e) # is) = e # elems is"
| "elems ((_, Fire _) # is) = elems is"

definition of_key :: "string \<Rightarrow> 'o call list \<Rightarrow> 'o emission list" where
  "of_key key calls = concat (map snd (filter (\<lambda>c. fst c = key) calls))"

lemma of_key_simps [simp]:
  "of_key key [] = []" "of_key key (c # calls) = (if fst c = key then snd c else []) @ of_key key calls"
  "of_key key (calls @ calls') = of_key key calls @ of_key key calls'"
  by (simp_all add: of_key_def)

lemma elems_append [simp]: "elems (xs @ ys) = elems xs @ elems ys"
  by (induction xs rule: elems.induct) simp_all

lemma keyed_run_append:
  "keyed_run on_event on_timer key s (xs @ ys) =
     (case keyed_run on_event on_timer key s xs of None \<Rightarrow> None
      | Some (s1, es) \<Rightarrow> map_option (\<lambda>(s2, es2). (s2, es @ es2)) (keyed_run on_event on_timer key s1 ys))"
proof (induction xs arbitrary: s)
  case Nil
  then show ?case by (cases "keyed_run on_event on_timer key s ys") auto
next
  case (Cons x xs)
  obtain now_us i where x: "x = (now_us, i)" by fastforce
  show ?case by (auto simp: x Cons.IH option.map_comp comp_def case_prod_beta split: option.splits)
qed

section \<open>The contract of a detector\<close>

text \<open>
  \<open>good\<close> is what the handler expects of an element and \<open>ok\<close> what its state keeps. A timer handler
  registers only later timers, and none once its time has passed \<open>deadline\<close> of the state.
\<close>

locale keyed_logic =
  fixes on_event :: "('s, 'e, 'o) event_handler"
    and on_timer :: "('s, 'o) timer_handler"
    and blank :: 's
    and ok :: "'s \<Rightarrow> bool"
    and good :: "'e \<Rightarrow> bool"
    and deadline :: "'s \<Rightarrow> int"
  assumes ok_blank: "ok blank"
    and ok_event: "on_event now_us key s e = Some r \<Longrightarrow> ok s \<Longrightarrow> good e \<Longrightarrow> ok (new_state r)"
    and ok_timer: "on_timer now_us key s ts = Some r \<Longrightarrow> ok s \<Longrightarrow> ok (new_state r)"
    and timer_later: "on_timer now_us key s ts = Some r \<Longrightarrow> ok s \<Longrightarrow> t \<in> set (timers r) \<Longrightarrow> ts < t \<and> ts \<le> deadline s"
    and deadline_kept: "on_timer now_us key s ts = Some r \<Longrightarrow> ok s \<Longrightarrow> deadline (new_state r) \<le> deadline s"

lemma mset_push_timer:
  "mset (push_timer py_repr key q ts) = mset q \<or> mset (push_timer py_repr key q ts) = add_mset (ts, key) (mset q)"
  by (simp add: push_timer_def)

lemma mset_push_timers:
  "\<exists>new. mset (foldl (push_timer py_repr key) q ts) = mset q + new \<and> set_mset new \<subseteq> (\<lambda>t. (t, key)) ` set ts"
proof (induction ts rule: rev_induct)
  case (snoc t ts)
  then obtain new where new: "mset (foldl (push_timer py_repr key) q ts) = mset q + new" "set_mset new \<subseteq> (\<lambda>t. (t, key)) ` set ts"
    by blast
  let ?q = "foldl (push_timer py_repr key) q ts"
  consider (old) "mset (push_timer py_repr key ?q t) = mset ?q" | (add) "mset (push_timer py_repr key ?q t) = add_mset (t, key) (mset ?q)"
    using mset_push_timer by blast
  then show ?case
  proof cases
    case old
    then show ?thesis using new by (intro exI [of _ new]) auto
  next
    case add
    then show ?thesis using new by (intro exI [of _ "add_mset (t, key) new"]) auto
  qed
qed (simp add: exI [of _ "{#}"])

lemma set_push_timers:
  "set (foldl (push_timer py_repr key) q ts) \<subseteq> set q \<union> (\<lambda>t. (t, key)) ` set ts"
  using mset_push_timers [of py_repr key q ts] by (metis Un_mono order_refl set_mset_mset set_mset_union)

definition timers_sorted :: "(string \<Rightarrow> string) \<Rightarrow> 's harness \<Rightarrow> bool" where
  "timers_sorted py_repr h \<longleftrightarrow> sorted (map (timer_entry py_repr) (hs_timers h))"

lemma sorted_push_timers:
  "sorted (map (timer_entry py_repr) q) \<Longrightarrow> sorted (map (timer_entry py_repr) (foldl (push_timer py_repr key) q ts))"
  by (induction ts arbitrary: q) (simp_all add: push_timer_def sorted_insort_key)

lemma timers_sorted_commit: "timers_sorted py_repr h \<Longrightarrow> timers_sorted py_repr (commit py_repr key r h)"
  by (simp add: timers_sorted_def commit_def sorted_push_timers)

lemma timers_sorted_tl: "timers_sorted py_repr h \<Longrightarrow> hs_timers h = x # q \<Longrightarrow> timers_sorted py_repr (h\<lparr>hs_timers := q\<rparr>)"
  by (simp add: timers_sorted_def)

lemma timers_after_head:
  assumes "timers_sorted py_repr h" "hs_timers h = (ts, key) # q" "(t, k) \<in> set q"
  shows "ts \<le> t"
  using assms by (force simp: timers_sorted_def timer_entry_def)

context keyed_logic begin

definition states_ok :: "'s harness \<Rightarrow> bool" where
  "states_ok h \<longleftrightarrow> (\<forall>key. ok (hs_states h key))"

definition weight_of :: "int \<Rightarrow> 's harness \<Rightarrow> nat multiset" where
  "weight_of D h = image_mset (\<lambda>(t, k). nat (D + 1 - t)) (mset (hs_timers h))"

definition bounded_by :: "int \<Rightarrow> 's harness \<Rightarrow> bool" where
  "bounded_by D h \<longleftrightarrow> (\<forall>(t, k) \<in> set (hs_timers h). deadline (hs_states h k) \<le> D)"

lemma states_ok_init: "states_ok (harness_init blank)"
  by (simp add: states_ok_def harness_init_def ok_blank)

lemma states_ok_commit: "states_ok h \<Longrightarrow> ok (new_state r) \<Longrightarrow> states_ok (commit py_repr key r h)"
  by (simp add: states_ok_def commit_def)

lemma fire_step:
  fixes py_repr :: "string \<Rightarrow> string"
  assumes h: "states_ok h" "bounded_by D h" "hs_timers h = (ts, key) # q" and r: "on_timer now_us key (hs_states h key) ts = Some r"
  defines "h' \<equiv> commit py_repr key r (h\<lparr>hs_timers := q\<rparr>)"
  shows "states_ok h' \<and> bounded_by D h' \<and> (weight_of D h', weight_of D h) \<in> mult less_than"
proof -
  have ok: "ok (hs_states h key)" using h(1) by (simp add: states_ok_def)
  have le: "deadline (hs_states h key) \<le> D" using h(2,3) by (auto simp: bounded_by_def)
  have s: "states_ok h'" unfolding h'_def
    using states_ok_commit [of "h\<lparr>hs_timers := q\<rparr>" r py_repr key] h(1) ok_timer [OF r ok] by (simp add: states_ok_def)
  obtain new where new: "mset (hs_timers h') = mset q + new" "set_mset new \<subseteq> (\<lambda>t. (t, key)) ` set (timers r)"
    using mset_push_timers [of py_repr key q "timers r"] by (auto simp: h'_def commit_def)
  have "deadline (hs_states h' k) \<le> D" if m: "(t, k) \<in> set (hs_timers h')" for t k
  proof (cases "k = key")
    case True
    then show ?thesis using deadline_kept [OF r ok] le by (simp add: h'_def commit_def)
  next
    case False
    then have "(t, k) \<in> set q" using m new by (auto simp: set_mset_mset [symmetric] simp del: set_mset_mset)
    then show ?thesis using h(2,3) False by (auto simp: bounded_by_def h'_def commit_def)
  qed
  then have b: "bounded_by D h'" by (auto simp: bounded_by_def)
  let ?w = "\<lambda>(t :: int, k :: string). nat (D + 1 - t)"
  have less: "(w, nat (D + 1 - ts)) \<in> less_than" if "w \<in># image_mset ?w new" for w
  proof -
    obtain t where t: "t \<in> set (timers r)" "w = nat (D + 1 - t)" using \<open>w \<in># image_mset ?w new\<close> new(2) by auto
    then show ?thesis using timer_later [OF r ok t(1)] le by simp
  qed
  have "(image_mset ?w (mset q) + image_mset ?w new, image_mset ?w (mset q) + {#nat (D + 1 - ts)#}) \<in> mult less_than"
    by (rule one_step_implies_mult) (use less in auto)
  then have "(weight_of D h', weight_of D h) \<in> mult less_than"
    using h(3) by (simp add: weight_of_def new(1) union_commute)
  then show ?thesis using s b by blast
qed

lemma drain_ends_below:
  "states_ok h \<Longrightarrow> bounded_by D h \<Longrightarrow> \<exists>x. drain py_repr on_timer now_us w h = Some x"
proof (induction h rule: wf_induct_rule [OF wf_inv_image [OF wf_mult [OF wf_less_than], of "weight_of D"]])
  case (1 h)
  show ?case
  proof (cases "hs_timers h")
    case Nil
    then show ?thesis by (simp add: drain.simps)
  next
    case (Cons x q)
    obtain ts key where x: "x = (ts, key)" by fastforce
    show ?thesis
    proof (cases "on_timer now_us key (hs_states h key) ts")
      case None
      then show ?thesis using Cons x by (simp add: drain.simps)
    next
      case (Some r)
      have "\<exists>y. drain py_repr on_timer now_us w (commit py_repr key r (h\<lparr>hs_timers := q\<rparr>)) = Some y"
        using fire_step [OF 1(2,3) Cons [unfolded x] Some] 1(1) by (simp add: in_inv_image)
      then show ?thesis using Cons x Some by (auto simp: drain.simps [of py_repr on_timer now_us w h])
    qed
  qed
qed

lemma drain_ends: "states_ok h \<Longrightarrow> \<exists>x. drain py_repr on_timer now_us w h = Some x"
proof -
  assume s: "states_ok h"
  let ?D = "Max ((\<lambda>(t, k). deadline (hs_states h k)) ` set (hs_timers h))"
  have "bounded_by ?D h" unfolding bounded_by_def by (auto intro!: Max_ge)
  then show ?thesis by (rule drain_ends_below [OF s])
qed

end

context keyed_logic begin

text \<open>What a finished loop has done, key by key.\<close>

definition keys_run :: "int \<Rightarrow> 's harness \<Rightarrow> 's harness \<Rightarrow> 'o call list \<Rightarrow> bool" where
  "keys_run now_us h h' calls \<longleftrightarrow> (\<forall>key. \<exists>is. keyed_run on_event on_timer key (hs_states h key) is = Some (hs_states h' key, of_key key calls)
     \<and> elems is = [])"

lemma keys_run_refl: "keys_run now_us h (h\<lparr>hs_wm := w\<rparr>) []" "keys_run now_us h h []"
  by (auto simp: keys_run_def intro!: exI [of _ "[]"])

lemma keys_run_fire:
  assumes r: "on_timer now_us key (hs_states h key) ts = Some r" and k: "keys_run now_us (commit py_repr key r (h\<lparr>hs_timers := q\<rparr>)) h' calls"
  shows "keys_run now_us h h' ((key, emitted r) # calls)"
  unfolding keys_run_def
proof
  fix k
  let ?h = "commit py_repr key r (h\<lparr>hs_timers := q\<rparr>)"
  obtain "is" where i: "keyed_run on_event on_timer k (hs_states ?h k) is = Some (hs_states h' k, of_key k calls)" "elems is = []"
    using assms(2) by (auto simp: keys_run_def)
  show "\<exists>is. keyed_run on_event on_timer k (hs_states h k) is = Some (hs_states h' k, of_key k ((key, emitted r) # calls)) \<and> elems is = []"
  proof (cases "k = key")
    case True
    then show ?thesis using i r by (intro exI [of _ "(now_us, Fire ts) # is"]) (simp add: commit_def)
  next
    case False
    then show ?thesis using i by (intro exI [of _ "is"]) (simp add: commit_def)
  qed
qed

lemma drain_result:
  assumes "drain py_repr on_timer now_us w h = Some (Some (h', fired))" and "states_ok h" and "timers_sorted py_repr h"
  shows "states_ok h' \<and> timers_sorted py_repr h' \<and> keys_run now_us h h' (map snd fired)
    \<and> (\<forall>(t, k) \<in> set (hs_timers h'). w < t) \<and> (\<forall>c \<in> set fired. fst c \<le> w) \<and> hs_wm h' = hs_wm h \<and> hs_max h' = hs_max h"
  using assms
proof (induction rule: drain_induct)
  case (stop h)
  have "w < t" if "(t, k) \<in> set (hs_timers h)" for t k
  proof (cases "hs_timers h")
    case (Cons x q)
    obtain ts key where x: "x = (ts, key)" by fastforce
    then show ?thesis using stop(1) [OF Cons [unfolded x]] that Cons timers_after_head [OF stop(3) Cons [unfolded x]] by fastforce
  qed (use that in simp)
  then show ?case using stop keys_run_refl(2) by auto
next
  case (fire h ts key q r h' fired)
  let ?h = "commit py_repr key r (h\<lparr>hs_timers := q\<rparr>)"
  have "ok (new_state r)" using fire(3,5) ok_timer by (auto simp: states_ok_def)
  then have "states_ok ?h" using states_ok_commit [of "h\<lparr>hs_timers := q\<rparr>"] fire(5) by (simp add: states_ok_def)
  moreover have "timers_sorted py_repr ?h" using timers_sorted_commit timers_sorted_tl fire(1,6) by metis
  ultimately have rest: "states_ok h' \<and> timers_sorted py_repr h' \<and> keys_run now_us ?h h' (map snd fired)
    \<and> (\<forall>(t, k) \<in> set (hs_timers h'). w < t) \<and> (\<forall>c \<in> set fired. fst c \<le> w) \<and> hs_wm h' = hs_wm ?h \<and> hs_max h' = hs_max ?h"
    using fire(4) by blast
  have "keys_run now_us h h' ((key, emitted r) # map snd fired)" using keys_run_fire fire(3) rest by blast
  then show ?case using rest fire(2) by (simp add: commit_def)
qed

text \<open>Timers fire in time order.\<close>

lemma drain_sorted:
  assumes "drain py_repr on_timer now_us w h = Some (Some (h', fired))" and "states_ok h" and "timers_sorted py_repr h"
  shows "sorted (map fst fired) \<and> (\<forall>L. (\<forall>(t, k) \<in> set (hs_timers h). L \<le> t) \<longrightarrow> (\<forall>c \<in> set fired. L \<le> fst c))"
  using assms
proof (induction rule: drain_induct)
  case (fire h ts key q r h' fired)
  let ?h = "commit py_repr key r (h\<lparr>hs_timers := q\<rparr>)"
  have ok: "ok (hs_states h key)" using fire(5) by (simp add: states_ok_def)
  have "states_ok ?h" using states_ok_commit [of "h\<lparr>hs_timers := q\<rparr>"] fire(5) ok_timer [OF fire(3) ok] by (simp add: states_ok_def)
  moreover have "timers_sorted py_repr ?h" using timers_sorted_commit timers_sorted_tl fire(1,6) by metis
  ultimately have IH: "sorted (map fst fired)" "(\<forall>(t, k) \<in> set (hs_timers ?h). L \<le> t) \<Longrightarrow> c \<in> set fired \<Longrightarrow> L \<le> fst c" for L c
    using fire(4) by blast+
  have late: "L \<le> t" if "(t, k) \<in> set (hs_timers ?h)" "\<forall>(t, k) \<in> set q. L \<le> t" "L \<le> ts" for L t k
  proof -
    have "(t, k) \<in> set q \<or> t \<in> set (timers r)" using that(1) set_push_timers [of py_repr key q "timers r"] by (auto simp: commit_def)
    then show ?thesis using that(2,3) timer_later [OF fire(3) ok] by fastforce
  qed
  have "\<forall>(t, k) \<in> set q. ts \<le> t" using timers_after_head [OF fire(6,1)] by auto
  then have "\<forall>(t, k) \<in> set (hs_timers ?h). ts \<le> t" using late by blast
  then have "\<forall>c \<in> set fired. ts \<le> fst c" using IH(2) by blast
  then show ?case using IH late fire(1) by auto
qed simp

lemma advance_ends: "states_ok h \<Longrightarrow> \<exists>x. advance py_repr on_timer now_us w h = Some x"
proof -
  assume "states_ok h"
  then have "states_ok (h\<lparr>hs_wm := w\<rparr>)" by (simp add: states_ok_def)
  from drain_ends [OF this, of py_repr now_us w] show ?thesis by (auto simp: advance_def)
qed

lemma feed_ends:
  assumes "states_ok h" "good e"
  shows "\<exists>x. feed py_repr on_event on_timer ooo now_us key e ts h = Some x"
proof (cases "on_event now_us key (hs_states h key) e")
  case (Some r)
  have "ok (new_state r)" using ok_event [OF Some] assms by (simp add: states_ok_def)
  then have s: "states_ok (commit py_repr key r h)" by (rule states_ok_commit [OF assms(1)])
  let ?h2 = "(commit py_repr key r h)\<lparr>hs_max := max (hs_max (commit py_repr key r h)) ts\<rparr>"
  have "states_ok ?h2" using s by (simp add: states_ok_def)
  from advance_ends [OF this, of py_repr now_us "hs_max ?h2 - ooo"] show ?thesis using Some by (auto simp: feed_def Let_def)
qed (simp add: feed_def)

lemma feed_result:
  assumes f: "feed py_repr on_event on_timer ooo now_us key e ts h = Some (Some (h', calls))"
    and h: "states_ok h" "timers_sorted py_repr h" and g: "good e"
  shows "states_ok h' \<and> timers_sorted py_repr h' \<and> hs_max h' = max (hs_max h) ts \<and> hs_wm h' = max (hs_wm h) (hs_max h' - ooo)
    \<and> (\<forall>k. \<exists>is. keyed_run on_event on_timer k (hs_states h k) is = Some (hs_states h' k, of_key k calls)
         \<and> elems is = (if k = key then [e] else []))"
proof -
  obtain r where r: "on_event now_us key (hs_states h key) e = Some r" using f by (auto simp: feed_def split: option.splits)
  let ?h1 = "commit py_repr key r h"
  let ?h2 = "?h1\<lparr>hs_max := max (hs_max ?h1) ts\<rparr>"
  let ?w = "hs_max ?h2 - ooo"
  obtain calls1 where a: "advance py_repr on_timer now_us ?w ?h2 = Some (Some (h', calls1))" "calls = (key, emitted r) # calls1"
    using f r by (auto simp: feed_def Let_def)
  have "ok (new_state r)" using ok_event [OF r] h(1) g by (simp add: states_ok_def)
  then have s: "states_ok ?h2" "states_ok (?h2\<lparr>hs_wm := ?w\<rparr>)" using states_ok_commit [OF h(1)] by (simp_all add: states_ok_def)
  have t: "timers_sorted py_repr ?h2" "timers_sorted py_repr (?h2\<lparr>hs_wm := ?w\<rparr>)"
    using timers_sorted_commit [OF h(2)] by (simp_all add: timers_sorted_def)
  have rest: "states_ok h' \<and> timers_sorted py_repr h' \<and> keys_run now_us ?h2 h' calls1 \<and> hs_wm h' = max (hs_wm h) ?w \<and> hs_max h' = hs_max ?h2"
  proof (cases "?w \<le> hs_wm ?h2")
    case True
    then have h': "h' = ?h2" "calls1 = []" using a(1) by (simp_all add: advance_def)
    then show ?thesis using True s t keys_run_refl(2) [of now_us ?h2] by (simp add: commit_def max_def)
  next
    case False
    obtain fired where d: "drain py_repr on_timer now_us ?w (?h2\<lparr>hs_wm := ?w\<rparr>) = Some (Some (h', fired))" "calls1 = map snd fired"
      using a(1) False by (auto simp: advance_def)
    show ?thesis using drain_result [OF d(1) s(2) t(2)] False d(2) by (auto simp: keys_run_def commit_def max_def)
  qed
  have "\<exists>is. keyed_run on_event on_timer k (hs_states h k) is = Some (hs_states h' k, of_key k calls)
         \<and> elems is = (if k = key then [e] else [])" for k
  proof -
    obtain "is" where i: "keyed_run on_event on_timer k (hs_states ?h2 k) is = Some (hs_states h' k, of_key k calls1)" "elems is = []"
      using rest unfolding keys_run_def by blast
    show ?thesis
    proof (cases "k = key")
      case True
      then show ?thesis using i r a(2) by (intro exI [of _ "(now_us, Elem e) # is"]) (simp add: commit_def)
    next
      case False
      then show ?thesis using i a(2) by (intro exI [of _ "is"]) (simp add: commit_def)
    qed
  qed
  then show ?thesis using rest by (simp add: commit_def)
qed

text \<open>Feeding always ends, and what it did is, key by key, a run of the handlers on the elements of that key.\<close>

lemma feed_all_ends:
  assumes "states_ok h" "timers_sorted py_repr h" "\<forall>(n, k, e, t) \<in> set es. good e"
  shows "\<exists>x. feed_all py_repr on_event on_timer ooo es h = Some x"
  using assms
proof (induction es arbitrary: h)
  case (Cons i es)
  obtain n k e t where i: "i = (n, k, e, t)" by (metis prod_cases4)
  obtain x where x: "feed py_repr on_event on_timer ooo n k e t h = Some x" using feed_ends Cons(2,4) i by fastforce
  show ?case
  proof (cases x)
    case None
    then show ?thesis by (simp add: i x)
  next
    case (Some y)
    obtain h1 calls where y: "y = (h1, calls)" by fastforce
    have "states_ok h1 \<and> timers_sorted py_repr h1" using feed_result [OF x [unfolded Some y] Cons(2,3)] Cons(4) i by simp
    then show ?thesis using Cons i x Some y by fastforce
  qed
qed simp

lemma feed_all_result:
  assumes "feed_all py_repr on_event on_timer ooo es h = Some (Some (h', calls))" "states_ok h" "timers_sorted py_repr h"
    "\<forall>(n, k, e, t) \<in> set es. good e"
  shows "states_ok h' \<and> timers_sorted py_repr h'
    \<and> (\<forall>k. \<exists>is. keyed_run on_event on_timer k (hs_states h k) is = Some (hs_states h' k, of_key k calls)
         \<and> elems is = map (\<lambda>(n, k, e, t). e) (filter (\<lambda>(n, k', e, t). k' = k) es))"
  using assms
proof (induction es arbitrary: h calls)
  case Nil
  then show ?case by (auto intro!: exI [of _ "[]"])
next
  case (Cons i es)
  obtain n key e t where i: "i = (n, key, e, t)" by (metis prod_cases4)
  obtain h1 c1 c2 where f: "feed py_repr on_event on_timer ooo n key e t h = Some (Some (h1, c1))"
    "feed_all py_repr on_event on_timer ooo es h1 = Some (Some (h', c2))" "calls = c1 @ c2"
    using Cons(2) i by (auto split: option.splits)
  have g: "good e" using Cons(5) i by simp
  note one = feed_result [OF f(1) Cons(3,4) g]
  have rest: "states_ok h' \<and> timers_sorted py_repr h' \<and> (\<forall>k. \<exists>is. keyed_run on_event on_timer k (hs_states h1 k) is = Some (hs_states h' k, of_key k c2)
         \<and> elems is = map (\<lambda>(n, k, e, t). e) (filter (\<lambda>(n, k', e, t). k' = k) es))"
    by (rule Cons(1) [OF f(2)]) (use one Cons(5) in simp_all)
  have "\<exists>is. keyed_run on_event on_timer k (hs_states h k) is = Some (hs_states h' k, of_key k calls)
         \<and> elems is = map (\<lambda>(n, k, e, t). e) (filter (\<lambda>(n, k', e, t). k' = k) (i # es))" for k
  proof -
    obtain i1 where i1: "keyed_run on_event on_timer k (hs_states h k) i1 = Some (hs_states h1 k, of_key k c1)"
      "elems i1 = (if k = key then [e] else [])" using one by blast
    obtain i2 where i2: "keyed_run on_event on_timer k (hs_states h1 k) i2 = Some (hs_states h' k, of_key k c2)"
      "elems i2 = map (\<lambda>(n, k, e, t). e) (filter (\<lambda>(n, k', e, t). k' = k) es)" using rest by blast
    show ?thesis using i1 i2 f(3) i by (intro exI [of _ "i1 @ i2"]) (auto simp: keyed_run_append)
  qed
  then show ?case using rest by blast
qed

lemma harness_keys:
  assumes f: "feed_all py_repr on_event on_timer ooo es (harness_init blank) = Some (Some (h, calls))"
    and g: "\<forall>(n, k, e, t) \<in> set es. good e"
  shows "\<exists>is. keyed_run on_event on_timer k blank is = Some (hs_states h k, of_key k calls)
    \<and> elems is = map (\<lambda>(n, k, e, t). e) (filter (\<lambda>(n, k', e, t). k' = k) es)"
proof -
  have s: "timers_sorted py_repr (harness_init blank)" "hs_states (harness_init blank) k = blank"
    by (simp_all add: timers_sorted_def harness_init_def)
  show ?thesis using feed_all_result [OF f states_ok_init s(1) g, THEN conjunct2, THEN conjunct2, THEN spec, of k] by (simp only: s(2))
qed

lemma harness_run:
  assumes "\<forall>(n, k, e, t) \<in> set es. good e"
  shows "\<exists>x. feed_all py_repr on_event on_timer ooo es (harness_init blank) = Some x
    \<and> (\<forall>h calls. x = Some (h, calls) \<longrightarrow> states_ok h \<and> (\<forall>n w. \<exists>y. advance py_repr on_timer n w h = Some y)
         \<and> (\<forall>k. \<exists>is. keyed_run on_event on_timer k blank is = Some (hs_states h k, of_key k calls)
              \<and> elems is = map (\<lambda>(n, k, e, t). e) (filter (\<lambda>(n, k', e, t). k' = k) es)))"
proof -
  have s: "states_ok (harness_init blank)" "timers_sorted py_repr (harness_init blank)" "hs_states (harness_init blank) k = blank" for k
    using states_ok_init by (simp_all add: timers_sorted_def harness_init_def)
  obtain x where x: "feed_all py_repr on_event on_timer ooo es (harness_init blank) = Some x"
    using feed_all_ends [OF s(1,2) assms] by blast
  have "states_ok h \<and> (\<forall>n w. \<exists>y. advance py_repr on_timer n w h = Some y)
     \<and> (\<forall>k. \<exists>is. keyed_run on_event on_timer k blank is = Some (hs_states h k, of_key k calls)
          \<and> elems is = map (\<lambda>(n, k, e, t). e) (filter (\<lambda>(n, k', e, t). k' = k) es))" if "x = Some (h, calls)" for h calls
    using feed_all_result [OF x [unfolded that] s(1,2) assms] advance_ends [of h] unfolding s(3) by blast
  then show ?thesis using x by blast
qed

end

text \<open>Most detectors register no timer from a timer handler.\<close>

locale passive_logic =
  fixes on_event :: "('s, 'e, 'o) event_handler"
    and on_timer :: "('s, 'o) timer_handler"
    and blank :: 's
    and ok :: "'s \<Rightarrow> bool"
    and good :: "'e \<Rightarrow> bool"
  assumes blank_ok: "ok blank"
    and event_ok: "on_event now_us key s e = Some r \<Longrightarrow> ok s \<Longrightarrow> good e \<Longrightarrow> ok (new_state r)"
    and timer_ok: "on_timer now_us key s ts = Some r \<Longrightarrow> ok s \<Longrightarrow> ok (new_state r)"
    and no_timers: "on_timer now_us key s ts = Some r \<Longrightarrow> timers r = []"

sublocale passive_logic \<subseteq> keyed_logic on_event on_timer blank ok good "\<lambda>_. 0"
  by unfold_locales (auto intro: blank_ok event_ok timer_ok dest: no_timers)

end
