(* ===== verification/Incidents.thy ===== *)
theory Incidents
  imports Harness
begin

text \<open>
  Incident correlation (\<^verbatim>\<open>flink/sih_detect/incidents.py\<close>), keyed by threat class, entity type and
  entity key. The wall clock that stamps an alert is the argument \<open>now_us\<close>. The main theorem runs an
  acceptor for the life of an incident over everything a key emits: one new, then updates and
  escalations, then one resolved, with consecutive update numbers and a severity that never falls.
\<close>

section \<open>State and operations\<close>

record incident =
  inc_id :: string
  inc_seq :: int
  inc_rank :: int
  inc_last_emit :: int
  inc_last_obs :: int
  inc_count :: int
  inc_emitted_count :: int
  inc_first :: int
  inc_window_start :: int
  inc_ids :: "string list"
  inc_last :: finding
  inc_subtypes :: "string list"

definition severity_names :: "string list" where
  "severity_names = [''info'', ''low'', ''medium'', ''high'', ''critical'']"

definition severity_of :: "int \<Rightarrow> string" where
  "severity_of rank = (case filter (\<lambda>n. SEVERITY_RANK n = rank) severity_names of [] \<Rightarrow> ''info'' | n # _ \<Rightarrow> n)"

definition merged :: "incident \<Rightarrow> finding \<Rightarrow> finding" where
  "merged st f = f\<lparr>raw_event_ids := inc_ids st, evidence_count := max (inc_count st) (int (length (inc_ids st))),
     first_seen_ms := min (inc_first st) (first_seen_ms f), window_start_ms := min (inc_window_start st) (window_start_ms f),
     severity := severity_of (inc_rank st)\<rparr>"

definition idle_for :: "detect_config \<Rightarrow> string \<Rightarrow> int" where
  "idle_for cfg tc = (if tc = ''beaconing'' then incident_idle_beacon_ms cfg else incident_idle_ms cfg)"

definition incident_alert :: "int \<Rightarrow> incident \<Rightarrow> finding \<Rightarrow> string \<Rightarrow> dict option" where
  "incident_alert now_us st f status = alert_record (merged st f) (inc_id st) (inc_seq st) status now_us"

definition resolve :: "int \<Rightarrow> incident \<Rightarrow> dict option" where
  "resolve now_us st = (let st' = st\<lparr>inc_seq := inc_seq st + 1\<rparr> in incident_alert now_us st' (inc_last st') ''resolved'')"

definition open_incident :: "finding \<Rightarrow> incident" where
  "open_incident f =
     (let epoch = window_start_ms f div 1000 * 1000
      in \<lparr>inc_id = incident_id (threat_class f) (entity_type f) (entity_key f) epoch, inc_seq = 1,
          inc_rank = SEVERITY_RANK (severity f), inc_last_emit = f_obs_ms f, inc_last_obs = f_obs_ms f,
          inc_count = evidence_count f, inc_emitted_count = evidence_count f, inc_first = first_seen_ms f,
          inc_window_start = window_start_ms f, inc_ids = raw_event_ids f, inc_last = f, inc_subtypes = [subtype f]\<rparr>)"

text \<open>What every further finding contributes before the decision to report.\<close>

definition absorb :: "incident \<Rightarrow> finding \<Rightarrow> incident" where
  "absorb st f = st\<lparr>inc_last_obs := max (inc_last_obs st) (f_obs_ms f), inc_count := max (inc_count st) (evidence_count f),
     inc_ids := last_n 32 (inc_ids st @ filter (\<lambda>i. i \<notin> set (inc_ids st)) (raw_event_ids f)), inc_last := f,
     inc_subtypes := (if subtype f \<notin> set (inc_subtypes st) then last_n 8 (inc_subtypes st @ [subtype f]) else inc_subtypes st)\<rparr>"

definition report :: "incident \<Rightarrow> finding \<Rightarrow> incident" where
  "report st f = st\<lparr>inc_seq := inc_seq st + 1, inc_last_emit := f_obs_ms f, inc_emitted_count := inc_count st\<rparr>"

text \<open>The decision: an escalation, an update for a new subtype or after the cooldown with more
  evidence, or nothing (\<^verbatim>\<open>findings_suppressed\<close>).\<close>

definition decide :: "detect_config \<Rightarrow> incident \<Rightarrow> finding \<Rightarrow> incident \<times> string option" where
  "decide cfg old f =
     (let st = absorb old f; rank = SEVERITY_RANK (severity f); new_subtype = (subtype f \<notin> set (inc_subtypes old))
      in if rank > inc_rank st then (report (st\<lparr>inc_rank := rank\<rparr>) f, Some ''escalated'')
         else if new_subtype then (report st f, Some ''updated'')
         else if f_obs_ms f - inc_last_emit st \<ge> incident_cooldown_ms cfg \<and> inc_count st > inc_emitted_count st
         then (report st f, Some ''updated'')
         else (st, None))"

type_synonym incident_step = "(incident option, dict) step"

definition incident_result :: "detect_config \<Rightarrow> int \<Rightarrow> incident \<Rightarrow> dict option list \<Rightarrow> string list \<Rightarrow> incident_step option" where
  "incident_result cfg idle st alerts ms =
     map_option (\<lambda>as. \<lparr>new_state = Some st, emitted = map Out as,
        timers = [bucket_up (inc_last_obs st + idle) 10000], metrics = ms\<rparr>) (those alerts)"

text \<open>\<open>None\<close> is an unknown severity (KeyError) or a time that cannot be written.\<close>

definition incident_on_event ::
  "detect_config \<Rightarrow> int \<Rightarrow> string \<Rightarrow> incident option \<Rightarrow> finding \<Rightarrow> incident_step option" where
  "incident_on_event cfg now_us key st0 f =
     (let idle = idle_for cfg (threat_class f);
          lapsed = (case st0 of None \<Rightarrow> False | Some st \<Rightarrow> f_obs_ms f > inc_last_obs st + idle);
          closing = (case st0 of Some st \<Rightarrow> if lapsed then [resolve now_us st] else [] | None \<Rightarrow> []);
          live = (if lapsed then None else st0)
      in if severity f \<notin> set severity_names then None
         else (case live of
             None \<Rightarrow> (let st = open_incident f
                in incident_result cfg idle st (closing @ [incident_alert now_us st f ''new'']) [''incidents_opened''])
           | Some old \<Rightarrow> (case decide cfg old f of
                 (st, None) \<Rightarrow> incident_result cfg idle st closing [''findings_suppressed'']
               | (st, Some status) \<Rightarrow> incident_result cfg idle st (closing @ [incident_alert now_us st f status])
                     (if status = ''escalated'' then [''incidents_escalated''] else []))))"

definition incident_on_timer ::
  "detect_config \<Rightarrow> int \<Rightarrow> string \<Rightarrow> incident option \<Rightarrow> int \<Rightarrow> incident_step option" where
  "incident_on_timer cfg now_us key st0 ts =
     (case st0 of
        None \<Rightarrow> Some \<lparr>new_state = None, emitted = [], timers = [], metrics = []\<rparr>
      | Some st \<Rightarrow>
          if inc_last_obs st + idle_for cfg (threat_class (inc_last st)) \<le> ts
          then map_option (\<lambda>al. \<lparr>new_state = None, emitted = [Out al], timers = [], metrics = [''incidents_resolved'']\<rparr>)
                 (resolve now_us st)
          else Some \<lparr>new_state = st0, emitted = [], timers = [], metrics = []\<rparr>)"

section \<open>The life of an incident\<close>

datatype input = Finding finding | Timer int

definition incident_step ::
  "detect_config \<Rightarrow> int \<Rightarrow> string \<Rightarrow> incident option \<Rightarrow> input \<Rightarrow> incident_step option" where
  "incident_step cfg now_us key st i = (case i of Finding f \<Rightarrow> incident_on_event cfg now_us key st f
     | Timer ts \<Rightarrow> incident_on_timer cfg now_us key st ts)"

text \<open>Inputs of one key, each with the wall clock at which it is handled.\<close>

fun incident_run ::
  "detect_config \<Rightarrow> string \<Rightarrow> incident option \<Rightarrow> (int \<times> input) list \<Rightarrow> (incident option \<times> dict list) option" where
  "incident_run cfg key st [] = Some (st, [])"
| "incident_run cfg key st ((now_us, i) # is) =
     (case incident_step cfg now_us key st i of None \<Rightarrow> None
      | Some r \<Rightarrow> (case incident_run cfg key (new_state r) is of None \<Rightarrow> None
                  | Some (st', as) \<Rightarrow> Some (st', outs (emitted r) @ as)))"

text \<open>What the acceptor remembers of an open incident: its id, last update number and rank.\<close>

type_synonym phase = "(string \<times> int \<times> int) option"

definition accept_alert :: "phase \<Rightarrow> dict \<Rightarrow> phase option" where
  "accept_alert ph al =
     (case (jstr al ''incident_id'', jint al ''update_seq'', jstr al ''status'', jstr al ''severity'') of
        (Some i, Some q, Some s, Some sev) \<Rightarrow>
          if jstr al ''update_id'' \<noteq> Some (update_id i q) then None
          else (case ph of
             None \<Rightarrow> if s = ''new'' \<and> q = 1 then Some (Some (i, 1, SEVERITY_RANK sev)) else None
           | Some (i0, q0, r0) \<Rightarrow>
               if i \<noteq> i0 \<or> q \<noteq> q0 + 1 then None
               else if s = ''resolved'' \<and> SEVERITY_RANK sev = r0 then Some None
               else if s = ''updated'' \<and> SEVERITY_RANK sev = r0 then Some (Some (i, q, r0))
               else if s = ''escalated'' \<and> r0 < SEVERITY_RANK sev then Some (Some (i, q, SEVERITY_RANK sev))
               else None)
      | _ \<Rightarrow> None)"

fun accepts :: "phase \<Rightarrow> dict list \<Rightarrow> phase option" where
  "accepts ph [] = Some ph"
| "accepts ph (al # as) = (case accept_alert ph al of None \<Rightarrow> None | Some ph' \<Rightarrow> accepts ph' as)"

definition phase_of :: "incident option \<Rightarrow> phase" where
  "phase_of st = map_option (\<lambda>s. (inc_id s, inc_seq s, inc_rank s)) st"

definition rank_ok :: "incident option \<Rightarrow> bool" where
  "rank_ok st \<longleftrightarrow> (\<forall>s. st = Some s \<longrightarrow> inc_rank s \<in> {0..4})"

lemma severity_rank_cases: "SEVERITY_RANK s \<in> {0..4}"
  by (auto simp: SEVERITY_RANK_def)

lemma rank_of_severity_of: "r \<in> {0..4} \<Longrightarrow> SEVERITY_RANK (severity_of r) = r"
proof -
  assume "r \<in> {0..4}"
  then have "r = 0 \<or> r = 1 \<or> r = 2 \<or> r = 3 \<or> r = 4" by auto
  then show ?thesis by (auto simp: SEVERITY_RANK_def severity_of_def severity_names_def)
qed

lemma accepts_append: "accepts ph (xs @ ys) = Option.bind (accepts ph xs) (\<lambda>ph'. accepts ph' ys)"
  by (induction xs arbitrary: ph) (auto split: option.splits)

lemma alert_view:
  assumes "incident_alert now_us st f status = Some al" "inc_rank st \<in> {0..4}"
  shows "jstr al ''incident_id'' = Some (inc_id st)" "jint al ''update_seq'' = Some (inc_seq st)"
    "jstr al ''status'' = Some status" "\<exists>sev. jstr al ''severity'' = Some sev \<and> SEVERITY_RANK sev = inc_rank st"
    "jstr al ''update_id'' = Some (update_id (inc_id st) (inc_seq st))"
proof -
  obtain t where "al = alert_dict (merged st f) (inc_id st) (inc_seq st) status t"
    using alert_record_Some assms(1) unfolding incident_alert_def by blast
  then show "jstr al ''incident_id'' = Some (inc_id st)" "jint al ''update_seq'' = Some (inc_seq st)"
    "jstr al ''status'' = Some status" "\<exists>sev. jstr al ''severity'' = Some sev \<and> SEVERITY_RANK sev = inc_rank st"
    "jstr al ''update_id'' = Some (update_id (inc_id st) (inc_seq st))"
    by (simp_all add: jstr_def jint_def alert_fields merged_def rank_of_severity_of [OF assms(2)])
qed

lemma accept_new:
  "incident_alert now_us st f ''new'' = Some al \<Longrightarrow> inc_seq st = 1 \<Longrightarrow> inc_rank st \<in> {0..4} \<Longrightarrow>
     accept_alert None al = Some (phase_of (Some st))"
  using alert_view [of now_us st f "''new''" al] by (auto simp: accept_alert_def phase_of_def)

lemma accept_more:
  assumes "incident_alert now_us st f status = Some al" "inc_rank st \<in> {0..4}" "inc_id st = inc_id old"
    "inc_seq st = inc_seq old + 1"
    "(status = ''updated'' \<and> inc_rank st = inc_rank old) \<or> (status = ''escalated'' \<and> inc_rank old < inc_rank st)"
  shows "accept_alert (phase_of (Some old)) al = Some (phase_of (Some st))"
  using alert_view [OF assms(1,2)] assms(3-5) by (auto simp: accept_alert_def phase_of_def)

lemma accept_resolved:
  assumes "resolve now_us st = Some al" "inc_rank st \<in> {0..4}"
  shows "accept_alert (phase_of (Some st)) al = Some None"
  using alert_view [of now_us "st\<lparr>inc_seq := inc_seq st + 1\<rparr>" "inc_last st" "''resolved''" al] assms
  by (auto simp: accept_alert_def phase_of_def resolve_def)

lemma decide_cases:
  assumes "decide cfg old f = (st, status)" "inc_rank old \<in> {0..4}"
  shows "inc_id st = inc_id old" "inc_rank st \<in> {0..4}"
    "status = None \<Longrightarrow> phase_of (Some st) = phase_of (Some old)"
    "status = Some s \<Longrightarrow> inc_seq st = inc_seq old + 1
       \<and> ((s = ''updated'' \<and> inc_rank st = inc_rank old) \<or> (s = ''escalated'' \<and> inc_rank old < inc_rank st))"
  using assms severity_rank_cases [of "severity f"]
  by (auto simp: decide_def Let_def absorb_def report_def phase_of_def split: if_splits)

lemma incident_result_Some:
  "incident_result cfg idle st alerts ms = Some r \<longleftrightarrow>
     (\<exists>as. those alerts = Some as \<and> new_state r = Some st \<and> emitted r = map Out as
        \<and> timers r = [bucket_up (inc_last_obs st + idle) 10000] \<and> metrics r = ms)"
  by (auto simp: incident_result_def)

lemma those_append: "those (xs @ ys) = (case those xs of None \<Rightarrow> None | Some as \<Rightarrow> map_option ((@) as) (those ys))"
  by (cases "those ys"; induction xs) (auto split: option.splits)

lemma decide_accepted:
  assumes d: "decide cfg old f = (st, status)" and r: "inc_rank old \<in> {0..4}"
    and res: "those (case status of None \<Rightarrow> [] | Some s \<Rightarrow> [incident_alert now_us st f s]) = Some as"
  shows "accepts (phase_of (Some old)) as = Some (phase_of (Some st))"
proof (cases status)
  case None
  then show ?thesis using decide_cases(3) [OF d r] res by simp
next
  case (Some s)
  then obtain al where al: "incident_alert now_us st f s = Some al" "as = [al]"
    using res by (auto split: option.splits)
  show ?thesis
    using accept_more [OF al(1) decide_cases(2) [OF d r] decide_cases(1) [OF d r]] decide_cases(4) [OF d r Some] al(2) by auto
qed

lemma incident_step_accepted:
  assumes "incident_step cfg now_us key st i = Some r" "rank_ok st"
  shows "accepts (phase_of st) (outs (emitted r)) = Some (phase_of (new_state r)) \<and> rank_ok (new_state r)"
proof (cases i)
  case (Timer ts)
  show ?thesis
  proof (cases st)
    case None
    then show ?thesis using assms Timer by (auto simp: incident_step_def incident_on_timer_def rank_ok_def)
  next
    case (Some s)
    have "inc_rank s \<in> {0..4}" using assms(2) Some by (simp add: rank_ok_def)
    then show ?thesis
      using assms Timer Some accept_resolved [of now_us s]
      by (auto simp: incident_step_def incident_on_timer_def rank_ok_def phase_of_def split: if_splits)
  qed
next
  case (Finding f)
  define lapsed where "lapsed = (case st of None \<Rightarrow> False | Some s \<Rightarrow> f_obs_ms f > inc_last_obs s + idle_for cfg (threat_class f))"
  define closing where "closing = (case st of Some s \<Rightarrow> if lapsed then [resolve now_us s] else [] | None \<Rightarrow> [])"
  define live where "live = (if lapsed then None else st)"
  have ev: "incident_on_event cfg now_us key st f = Some r" using assms(1) Finding by (simp add: incident_step_def)
  have sev: "severity f \<in> set severity_names"
    using ev by (auto simp: incident_on_event_def Let_def split: if_splits)
  have close: "accepts (phase_of st) cs = Some (phase_of live)" if c: "those closing = Some cs" for cs
  proof (cases "\<exists>s. st = Some s \<and> lapsed")
    case True
    then obtain s where s: "st = Some s" "lapsed" by blast
    then obtain al where "resolve now_us s = Some al" "cs = [al]"
      using c by (auto simp: closing_def split: option.splits)
    moreover have "inc_rank s \<in> {0..4}" using assms(2) s by (simp add: rank_ok_def)
    ultimately show ?thesis using accept_resolved [of now_us s al] s by (simp add: live_def phase_of_def)
  next
    case False
    then show ?thesis using c by (auto simp: closing_def live_def lapsed_def split: option.splits if_splits)
  qed
  have live_ok: "rank_ok live" using assms(2) by (simp add: live_def rank_ok_def)
  have split_out: "\<exists>cs bs. those closing = Some cs \<and> those tail = Some bs \<and> as = cs @ bs"
    if "those (closing @ tail) = Some as" for tail as
    using that by (auto simp: those_append split: option.splits)
  show ?thesis
  proof (cases live)
    case None
    let ?s = "open_incident f"
    have rk: "inc_rank ?s \<in> {0..4}" "inc_seq ?s = 1" using severity_rank_cases by (auto simp: open_incident_def Let_def)
    obtain as where r: "those (closing @ [incident_alert now_us ?s f ''new'']) = Some as" "new_state r = Some ?s" "emitted r = map Out as"
      using ev sev None unfolding incident_on_event_def Let_def lapsed_def [symmetric] closing_def [symmetric] live_def [symmetric]
      by (auto simp: incident_result_Some)
    obtain cs al where al: "those closing = Some cs" "incident_alert now_us ?s f ''new'' = Some al" "as = cs @ [al]"
      using split_out [OF r(1)] by (auto split: option.splits)
    show ?thesis
      using accept_new [OF al(2) rk(2,1)] close [OF al(1)] None r al(3) rk by (simp add: accepts_append phase_of_def rank_ok_def)
  next
    case (Some old)
    obtain s status where d: "decide cfg old f = (s, status)" by fastforce
    have rk: "inc_rank old \<in> {0..4}" using live_ok Some by (simp add: rank_ok_def)
    obtain as where r: "those (closing @ (case status of None \<Rightarrow> [] | Some x \<Rightarrow> [incident_alert now_us s f x])) = Some as"
      "new_state r = Some s" "emitted r = map Out as"
      using ev sev Some d unfolding incident_on_event_def Let_def lapsed_def [symmetric] closing_def [symmetric] live_def [symmetric]
      by (auto simp: incident_result_Some split: option.splits)
    obtain cs bs where b: "those closing = Some cs" "as = cs @ bs"
      "those (case status of None \<Rightarrow> [] | Some x \<Rightarrow> [incident_alert now_us s f x]) = Some bs"
      using split_out [OF r(1)] by blast
    show ?thesis
      using decide_accepted [OF d rk b(3)] close [OF b(1)] Some r b(2) decide_cases(2) [OF d rk]
      by (simp add: accepts_append rank_ok_def)
  qed
qed

lemma incident_run_accepted:
  "incident_run cfg key st is = Some (st', as) \<Longrightarrow> rank_ok st \<Longrightarrow> accepts (phase_of st) as = Some (phase_of st')"
proof (induction cfg key st "is" arbitrary: as rule: incident_run.induct)
  case (2 cfg key st now_us i "is")
  obtain r as2 where r: "incident_step cfg now_us key st i = Some r" "incident_run cfg key (new_state r) is = Some (st', as2)"
    "as = outs (emitted r) @ as2"
    using 2(2) by (auto split: option.splits)
  show ?case using 2(1) [OF r(1,2)] incident_step_accepted [OF r(1) 2(3)] r(3) by (simp add: accepts_append)
qed simp

text \<open>
  Everything one key emits, over any sequence of findings and timers, is a sequence of incident
  lives: each starts with a new alert numbered 1 and is followed by updates numbered consecutively
  under the same incident id, every update id being derived from them; an update keeps the severity,
  an escalation raises it, a resolution ends the life, and the last, open life is the stored state.
\<close>

theorem incident_lives:
  assumes "incident_run cfg key None is = Some (st, as)"
  shows "accepts None as = Some (phase_of st)"
  using incident_run_accepted [OF assms] by (simp add: rank_ok_def phase_of_def)

definition demo_finding :: "string \<Rightarrow> int \<Rightarrow> int \<Rightarrow> finding" where
  "demo_finding sev t n = finding (demo_args\<lparr>a_severity := sev, a_last := no_ev\<lparr>obs_ms := t\<rparr>, a_window_end_ms := t, a_evidence_count := n\<rparr>)"

lemma demo_incident_run:
  "\<exists>st as. incident_run default_config ''k'' None [(0, Finding (demo_finding ''medium'' 31000 1)),
     (1, Finding (demo_finding ''high'' 32000 2)), (2, Timer 340000)] = Some (st, as) \<and> length as = 3 \<and> st = None"
  by (simp add: incident_step_def incident_on_event_def incident_on_timer_def incident_result_def resolve_def
      incident_alert_def merged_def open_incident_def decide_def absorb_def report_def alert_record_def alert_times_def Let_def
      demo_finding_def demo_args_def no_args_def no_ev_def finding_def format_ms_def format_us_Some severity_names_def
      SEVERITY_RANK_def idle_for_def)

theorem incident_lives_witness:
  "\<exists>st as. incident_run default_config ''k'' None [(0, Finding (demo_finding ''medium'' 31000 1)),
     (1, Finding (demo_finding ''high'' 32000 2)), (2, Timer 340000)] = Some (st, as)
   \<and> length as = 3 \<and> accepts None as = Some None"
  using demo_incident_run incident_lives [of default_config "''k''"] by (fastforce simp: phase_of_def)

lemma open_step:
  assumes "incident_on_event cfg now_us key st f = Some r"
    and "st = None \<or> (\<exists>s. st = Some s \<and> inc_last_obs s + idle_for cfg (threat_class f) < f_obs_ms f)"
  shows "new_state r = Some (open_incident f) \<and> (\<exists>al. emitted r \<noteq> [] \<and> last (emitted r) = Out al
     \<and> jstr al ''status'' = Some ''new'' \<and> jstr al ''incident_id'' = Some (inc_id (open_incident f))
     \<and> jstr al ''update_id'' = Some (update_id (inc_id (open_incident f)) 1))"
proof -
  have rk: "inc_rank (open_incident f) \<in> {0..4}" "inc_seq (open_incident f) = 1"
    using severity_rank_cases by (auto simp: open_incident_def Let_def)
  have sev: "severity f \<in> set severity_names"
    using assms(1) by (auto simp: incident_on_event_def Let_def split: if_splits)
  let ?closing = "case st of None \<Rightarrow> [] | Some s \<Rightarrow> [resolve now_us s]"
  obtain as where r: "those (?closing @ [incident_alert now_us (open_incident f) f ''new'']) = Some as"
    "new_state r = Some (open_incident f)" "emitted r = map Out as"
    using assms sev by (auto simp: incident_on_event_def Let_def incident_result_Some)
  then obtain cs al where al: "incident_alert now_us (open_incident f) f ''new'' = Some al" "as = cs @ [al]"
    by (auto simp: those_append split: option.splits)
  show ?thesis using alert_view [OF al(1) rk(1)] r al(2) rk(2) by (intro conjI exI [of _ al]) simp_all
qed

text \<open>
  C33: The identifier of an incident is a function of its key and of the second in which its window starts.
  So when, after anything that happened to the key in between, an incident reopens (the earlier one was
  resolved by the timer, or its idle time has passed) under a finding whose window starts in the same
  second, it has the incident id of the earlier one, and its opening alert, numbered 1 again, the same
  update id: a consumer that removes duplicates by update id drops the second incident's opening.
\<close>

theorem reopened_update_id_collides:
  assumes "incident_on_event cfg t1 key None f1 = Some r1" and "incident_run cfg key (new_state r1) is = Some (st, as)"
    and "incident_on_event cfg t2 key st f2 = Some r2"
    and "st = None \<or> (\<exists>s. st = Some s \<and> inc_last_obs s + idle_for cfg (threat_class f2) < f_obs_ms f2)"
    and "threat_class f2 = threat_class f1" "entity_type f2 = entity_type f1" "entity_key f2 = entity_key f1"
    and "window_start_ms f2 div 1000 = window_start_ms f1 div 1000"
  shows "\<exists>i a1 a2. emitted r1 = [Out a1] \<and> emitted r2 \<noteq> [] \<and> last (emitted r2) = Out a2
     \<and> jstr a1 ''status'' = Some ''new'' \<and> jstr a2 ''status'' = Some ''new''
     \<and> jstr a1 ''incident_id'' = Some i \<and> jstr a2 ''incident_id'' = Some i
     \<and> jstr a1 ''update_id'' = Some (update_id i 1) \<and> jstr a2 ''update_id'' = Some (update_id i 1)"
proof -
  have "length (emitted r1) = 1"
    using assms(1) by (auto simp: incident_on_event_def Let_def incident_result_def split: if_splits option.splits)
  then obtain e where e: "emitted r1 = [e]" by (auto simp: length_Suc_conv)
  have "inc_id (open_incident f2) = inc_id (open_incident f1)" using assms(5-8) by (simp add: open_incident_def Let_def)
  then show ?thesis using open_step [OF assms(1)] open_step [OF assms(3,4)] e by auto
qed

lemma demo_reopen:
  "\<exists>r1 as r2. incident_on_event default_config 0 ''k'' None (demo_finding ''medium'' 31000 1) = Some r1
   \<and> incident_run default_config ''k'' (new_state r1) [(1, Finding (demo_finding ''high'' 32000 2)), (2, Timer 340000)] = Some (None, as)
   \<and> incident_on_event default_config 3 ''k'' None (demo_finding ''medium'' 400000 5) = Some r2"
  by (simp add: incident_step_def incident_on_event_def incident_on_timer_def incident_result_def resolve_def
      incident_alert_def merged_def open_incident_def decide_def absorb_def report_def alert_record_def alert_times_def Let_def
      demo_finding_def demo_args_def no_args_def no_ev_def finding_def format_ms_def format_us_Some severity_names_def
      SEVERITY_RANK_def idle_for_def)

theorem reopened_update_id_collides_witness:
  "\<exists>r1 as r2 i a1 a2. incident_on_event default_config 0 ''k'' None (demo_finding ''medium'' 31000 1) = Some r1
   \<and> incident_run default_config ''k'' (new_state r1) [(1, Finding (demo_finding ''high'' 32000 2)), (2, Timer 340000)] = Some (None, as)
   \<and> incident_on_event default_config 3 ''k'' None (demo_finding ''medium'' 400000 5) = Some r2
   \<and> emitted r1 = [Out a1] \<and> last (emitted r2) = Out a2
   \<and> jstr a1 ''update_id'' = Some (update_id i 1) \<and> jstr a2 ''update_id'' = Some (update_id i 1)"
proof -
  obtain r1 as r2 where r: "incident_on_event default_config 0 ''k'' None (demo_finding ''medium'' 31000 1) = Some r1"
     "incident_run default_config ''k'' (new_state r1) [(1, Finding (demo_finding ''high'' 32000 2)), (2, Timer 340000)] = Some (None, as)"
     "incident_on_event default_config 3 ''k'' None (demo_finding ''medium'' 400000 5) = Some r2"
    using demo_reopen by blast
  from reopened_update_id_collides [OF r disjI1 [OF refl]] show ?thesis
    using r by (fastforce simp: demo_finding_def demo_args_def no_args_def no_ev_def finding_def Let_def)
qed

section \<open>In the harness\<close>

lemma incident_event_rank:
  "incident_on_event cfg now_us key st f = Some r \<Longrightarrow> rank_ok st \<Longrightarrow> rank_ok (new_state r)"
  using incident_step_accepted [of cfg now_us key st "Finding f" r] by (simp add: incident_step_def)

lemma incident_timer_rank:
  "incident_on_timer cfg now_us key st ts = Some r \<Longrightarrow> rank_ok st \<Longrightarrow> rank_ok (new_state r)"
  using incident_step_accepted [of cfg now_us key st "Timer ts" r] by (simp add: incident_step_def)

lemma incident_timer_quiet: "incident_on_timer cfg now_us key st ts = Some r \<Longrightarrow> timers r = []"
  by (auto simp: incident_on_timer_def split: option.splits if_splits)

interpretation incident_logic: passive_logic "incident_on_event cfg" "incident_on_timer cfg" None rank_ok "\<lambda>_. True" for cfg
  by unfold_locales (simp add: rank_ok_def, erule (1) incident_event_rank, erule (1) incident_timer_rank, erule incident_timer_quiet)

definition incident_input :: "finding keyed_input \<Rightarrow> input" where
  "incident_input i = (case i of Elem f \<Rightarrow> Finding f | Fire ts \<Rightarrow> Timer ts)"

lemma keyed_incident_run:
  "keyed_run (incident_on_event cfg) (incident_on_timer cfg) key st is = Some (st', es) \<Longrightarrow>
     incident_run cfg key st (map (map_prod id incident_input) is) = Some (st', outs es)"
proof (induction "is" arbitrary: st es)
  case (Cons x "is")
  obtain now_us i where x: "x = (now_us, i)" by fastforce
  have k: "keyed_step (incident_on_event cfg) (incident_on_timer cfg) now_us key st i = incident_step cfg now_us key st (incident_input i)"
    by (cases i) (simp_all add: incident_step_def incident_input_def)
  obtain r es2 where r: "incident_step cfg now_us key st (incident_input i) = Some r" "es = emitted r @ es2"
    "keyed_run (incident_on_event cfg) (incident_on_timer cfg) key (new_state r) is = Some (st', es2)"
    using Cons(2) by (auto simp: x k split: option.splits)
  show ?case using Cons(1) [OF r(3)] r by (simp add: x)
qed simp

text \<open>
  C8: In any run of the correlator over interleaved findings of many keys, with timers fired by the
  watermark, the updates of each key are consecutive incident lives: one new with sequence number 1, then
  updates and escalations numbered one by one with a severity that never falls, then one resolved.
\<close>

theorem incident_harness_lives:
  assumes "feed_all py_repr (incident_on_event cfg) (incident_on_timer cfg) ooo es (harness_init None) = Some (Some (h, calls))"
  shows "accepts None (outs (of_key key calls)) = Some (phase_of (hs_states h key))"
proof -
  obtain "is" where "keyed_run (incident_on_event cfg) (incident_on_timer cfg) key None is = Some (hs_states h key, of_key key calls)"
    using incident_logic.harness_keys [OF assms] by auto
  from keyed_incident_run [OF this] show ?thesis by (rule incident_lives)
qed

lemma demo_incident_feed:
  "\<exists>h calls. feed_all id (incident_on_event default_config) (incident_on_timer default_config) 2000
     [(0, ''k'', demo_finding ''medium'' 31000 1, 31000)] (harness_init None) = Some (Some (h, calls)) \<and> length (of_key ''k'' calls) = 1"
  by (simp add: feed_def harness_init_def incident_on_event_def incident_result_def Let_def idle_for_def advance_def commit_def
      push_timer_def timer_entry_def drain.simps incident_alert_def merged_def open_incident_def alert_record_def alert_times_def
      demo_finding_def demo_args_def no_args_def no_ev_def finding_def format_ms_def format_us_Some severity_names_def
      SEVERITY_RANK_def bucket_up_def)

theorem incident_harness_lives_witness:
  "\<exists>h calls. feed_all id (incident_on_event default_config) (incident_on_timer default_config) 2000
     [(0, ''k'', demo_finding ''medium'' 31000 1, 31000)] (harness_init None) = Some (Some (h, calls))
   \<and> accepts None (outs (of_key ''k'' calls)) = Some (phase_of (hs_states h ''k''))"
  using demo_incident_feed incident_harness_lives by blast

end
