(* ===== verification/Events.thy ===== *)
theory Events
  imports Contracts DetectCommon Ids
begin

text \<open>
  The detection job's reading of a raw event (\<^verbatim>\<open>flink/sih_detect/events.py\<close>). A result is
  \<open>Inl\<close> of the reason and detail of an \<^verbatim>\<open>Invalid\<close>, or \<open>Inr\<close> of what was parsed;
  \<open>None\<close> is an exception \<^verbatim>\<open>parse\<close> lets escape: the \<^verbatim>\<open>TypeError\<close> of a version or log type that a set
  cannot be asked for, the \<^verbatim>\<open>OverflowError\<close> of an infinite offset or duration. The text of a document is
  read by \<open>loads\<close> (\<^verbatim>\<open>json.loads\<close>, \<open>None\<close> for a text that is not JSON) into a \<open>jdoc\<close>, whose numbers
  may be infinite or NaN; \<open>py_repr\<close> and \<open>exc_text\<close> give the texts Python puts into a detail.
  \<^verbatim>\<open>parse\<close> takes the identifiers as they are; \<open>typed\<close> is the event the detectors are modelled on, where
  they are texts and the payload holds finite numbers, as the receiver's schema has it. The theorem
  ties the event's time to the record timestamp the receiver computes.
\<close>

section \<open>parse\<close>

definition SUPPORTED :: "string list" where "SUPPORTED = [''1.0.0'']"
definition LOG_TYPES :: "string list" where "LOG_TYPES = [''conn'', ''flow_update'', ''dns'', ''ssl'', ''weird'']"

datatype invalid = Invalid string string

record event = ev_min +
  ev_id :: string
  boot :: string
  log_type :: string
  coverage :: string
  payload :: dict
  avail :: dict

text \<open>What \<^verbatim>\<open>parse\<close> returns.\<close>

record parsed =
  p_event_id :: jdoc
  p_sensor_id :: jdoc
  p_boot :: jdoc
  p_run :: jdoc
  p_offset_us :: int
  p_log_type :: string
  p_event_time_us :: int
  p_obs_ms :: int
  p_received_us :: int
  p_coverage :: jdoc
  p_payload :: ddict
  p_avail :: ddict

text \<open>\<^verbatim>\<open>d.get("availability") or {}\<close>, then the test that it is an object.\<close>

definition avail_of :: "ddict \<Rightarrow> ddict option" where
  "avail_of d = (let a = doc_get d ''availability'' in if doc_truthy a then doc_obj a else Some [])"

definition duration_us :: "string \<Rightarrow> ddict \<Rightarrow> conversion_error + int" where
  "duration_us lt pl =
     (if lt = ''conn'' \<and> doc_get pl ''duration_s'' \<noteq> DNull then micros (doc_get pl ''duration_s'') else Inr 0)"

definition time_of :: "ddict \<Rightarrow> string \<Rightarrow> conversion_error + int" where
  "time_of d k = need BadValue (Option.bind (doc_str (doc_get d k)) parse_us)"

text \<open>The fields, read in the order of the source: \<open>BadValue\<close> is any of the exceptions that are caught.\<close>

definition fields_of :: "string \<Rightarrow> ddict \<Rightarrow> conversion_error + parsed" where
  "fields_of lt d =
     andthen (time_of d ''event_time'') (\<lambda>et.
     andthen (time_of d ''receiver_received_at'') (\<lambda>recv.
     andthen (doc_int (doc_get d ''replay_time_offset_us'')) (\<lambda>off.
     andthen (need BadValue (doc_obj (doc_get d ''payload''))) (\<lambda>pl.
     andthen (need BadValue (avail_of d)) (\<lambda>av.
     andthen (duration_us lt pl) (\<lambda>dur.
     andthen (need BadValue (map_of d ''event_id'')) (\<lambda>eid.
     andthen (need BadValue (map_of d ''sensor_id'')) (\<lambda>sid.
     andthen (need BadValue (map_of d ''sensor_boot_id'')) (\<lambda>bid.
     Inr \<lparr>p_event_id = eid, p_sensor_id = sid, p_boot = bid, p_run = doc_get d ''replay_run_id'', p_offset_us = off,
       p_log_type = lt, p_event_time_us = et, p_obs_ms = (et + off + dur) div 1000, p_received_us = recv,
       p_coverage = (case map_of d ''observation_coverage'' of None \<Rightarrow> DStr ''unknown'' | Some c \<Rightarrow> c),
       p_payload = pl, p_avail = av\<rparr>)))))))))"

definition parse ::
  "(string \<Rightarrow> jdoc option) \<Rightarrow> (jdoc \<Rightarrow> string) \<Rightarrow> (ddict \<Rightarrow> string) \<Rightarrow> string \<Rightarrow> (invalid + parsed) option" where
  "parse loads py_repr exc_text raw =
     (case loads raw of
        None \<Rightarrow> Some (Inl (Invalid ''json_parse_error'' ''record is not valid JSON''))
      | Some doc \<Rightarrow> (case doc_obj doc of
          None \<Rightarrow> Some (Inl (Invalid ''json_parse_error'' ''record is not a JSON object''))
        | Some d \<Rightarrow>
            (let v = doc_get d ''event_schema_version''; lt = doc_get d ''log_type''
             in if \<not> doc_hashable v then None
                else if v \<notin> set (map DStr SUPPORTED)
                then Some (Inl (Invalid ''unsupported_schema_version'' (''event_schema_version='' @ py_repr v)))
                else if \<not> doc_hashable lt then None
                else if lt \<notin> set (map DStr LOG_TYPES)
                then Some (Inl (Invalid ''unknown_log_type'' (''log_type='' @ py_repr lt)))
                else (case fields_of (the (doc_str lt)) d of
                        Inl TooLarge \<Rightarrow> None
                      | Inl BadValue \<Rightarrow> Some (Inl (Invalid ''field_bound_violation''
                                 (''missing or invalid field: '' @ py_take 200 (exc_text d))))
                      | Inr p \<Rightarrow> Some (Inr p)))))"

text \<open>A field that is a text, or a text or null.\<close>

fun run_of :: "jdoc \<Rightarrow> string option option" where
  "run_of DNull = Some None"
| "run_of (DStr s) = Some (Some s)"
| "run_of _ = None"

definition typed :: "parsed \<Rightarrow> event option" where
  "typed p =
     (case (doc_str (p_event_id p), doc_str (p_sensor_id p), doc_str (p_boot p), run_of (p_run p), doc_str (p_coverage p),
            Option.bind (json_of (DObj (p_payload p))) as_obj, Option.bind (json_of (DObj (p_avail p))) as_obj) of
        (Some eid, Some sid, Some bid, Some r, Some c, Some pl, Some av) \<Rightarrow>
          Some \<lparr>obs_ms = p_obs_ms p, event_time_us = p_event_time_us p, offset_us = p_offset_us p, received_us = p_received_us p,
            sensor_id = sid, run = r, ev_id = eid, boot = bid, log_type = p_log_type p, coverage = c, payload = pl, avail = av\<rparr>
      | _ \<Rightarrow> None)"

definition invalid_record :: "int \<Rightarrow> bytes \<Rightarrow> string \<Rightarrow> string \<Rightarrow> string \<Rightarrow> dict option" where
  "invalid_record now_us data raw reason detail =
     (let sha = hex_of (sha256 data)
      in map_option (\<lambda>ts.
           [(''invalid_schema_version'', JStr ''1.0.0''),
            (''invalid_id'', JStr (invalid_id ''flink'' reason (Some sha) None None None)),
            (''detected_at'', JStr ts), (''stage'', JStr ''flink''), (''reason_code'', JStr reason),
            (''detail'', JStr (py_take 512 detail)), (''sensor_id'', JNull), (''sensor_boot_id'', JNull), (''sequence'', JNull),
            (''raw_sha256'', JStr sha), (''raw_size_bytes'', JInt (int (length data))),
            (''raw_excerpt'', JStr (py_take 2048 raw))])
         (format_us now_us))"

text \<open>The key of a flow; \<^verbatim>\<open>str\<close> of an absent uid is \<^verbatim>\<open>None\<close>.\<close>

definition flow_key :: "event \<Rightarrow> string" where
  "flow_key ev = sensor_id ev @ ''|'' @ boot ev @ ''|'' @ (case run ev of None \<Rightarrow> [] | Some r \<Rightarrow> r) @ ''|''
     @ (case jstr (payload ev) ''uid'' of None \<Rightarrow> ''None'' | Some u \<Rightarrow> u)"

section \<open>Properties\<close>

lemma flow_key_join:
  "flow_key ev = join_with CHR ''|'' [sensor_id ev, boot ev, case run ev of None \<Rightarrow> [] | Some r \<Rightarrow> r,
     case jstr (payload ev) ''uid'' of None \<Rightarrow> ''None'' | Some u \<Rightarrow> u]"
  by (simp add: flow_key_def)

lemma doc_get_of: "doc_get (map (\<lambda>(k, v). (k, doc_of v)) d) k = doc_of (dget d k)"
  by (induction d) (auto simp: doc_get_def dget_def)

lemma doc_of_Null [simp]: "doc_of v = DNull \<longleftrightarrow> v = JNull"
  by (cases v) simp_all

lemma doc_str_of [simp]: "doc_str (doc_of v) = as_str v"
  by (cases v) simp_all

lemma doc_obj_of: "doc_obj (doc_of v) = map_option (map (\<lambda>(k, v). (k, doc_of v))) (as_obj v)"
  by (cases v) simp_all

lemma doc_of_Str: "doc_of v = DStr s \<longleftrightarrow> v = JStr s"
  by (cases v) simp_all

lemma fields_observation:
  assumes "fields_of lt (map (\<lambda>(k, v). (k, doc_of v)) d) = Inr p" "dget d ''log_type'' = JStr lt"
  shows "observation_ms d = Some (p_obs_ms p)"
proof -
  obtain et off pl dur where
    e: "Option.bind (jstr d ''event_time'') parse_us = Some et" "doc_int (doc_of (dget d ''replay_time_offset_us'')) = Inr off"
      "as_obj (dget d ''payload'') = Some pl" "duration_us lt (map (\<lambda>(k, v). (k, doc_of v)) pl) = Inr dur" "p_obs_ms p = (et + off + dur) div 1000"
    using assms(1) by (auto simp: fields_of_def andthen_Inr time_of_def doc_get_of doc_obj_of jstr_def)
  have "obj_or_empty (dget d ''payload'') = pl" using e(3) by (cases "dget d ''payload''") auto
  then show ?thesis using e assms(2)
    by (auto simp: observation_ms_def observation_result_def Let_def duration_us_def doc_get_of split: if_splits)
qed

text \<open>
  C32: Whatever parse accepts carries the record timestamp of the pipeline: for a document of finite
  numbers, the detection time of the event is the observation time contracts.observation_ms gives the same
  document, its event time is the document's, and the event has a supported version and log type.
\<close>

theorem parse_observation_time:
  assumes "parse loads py_repr exc_text raw = Some (Inr p)" and "loads raw = Some (doc_of (JObj d))"
  shows "observation_ms d = Some (p_obs_ms p) \<and> Option.bind (jstr d ''event_time'') parse_us = Some (p_event_time_us p)
     \<and> dget d ''log_type'' = JStr (p_log_type p) \<and> p_log_type p \<in> set LOG_TYPES \<and> dget d ''event_schema_version'' = JStr ''1.0.0''"
proof -
  let ?d = "map (\<lambda>(k, v). (k, doc_of v)) d"
  have v: "dget d ''event_schema_version'' = JStr ''1.0.0''" and "\<exists>lt. dget d ''log_type'' = JStr lt \<and> lt \<in> set LOG_TYPES"
    using assms by (auto simp: parse_def Let_def SUPPORTED_def doc_get_of doc_of_Str split: if_splits)
  then obtain lt where lt: "dget d ''log_type'' = JStr lt" "lt \<in> set LOG_TYPES" by blast
  then have f: "fields_of lt ?d = Inr p"
    using assms v by (auto simp: parse_def Let_def SUPPORTED_def doc_get_of split: if_splits sum.splits conversion_error.splits)
  then have "p_log_type p = lt" "Option.bind (jstr d ''event_time'') parse_us = Some (p_event_time_us p)"
    by (auto simp: fields_of_def andthen_Inr time_of_def doc_get_of jstr_def)
  then show ?thesis using v lt fields_observation [OF f lt(1)] by auto
qed

definition demo_event :: "string \<Rightarrow> dict" where
  "demo_event time = [(''event_schema_version'', JStr ''1.0.0''), (''log_type'', JStr ''conn''),
     (''event_time'', JStr time), (''receiver_received_at'', JStr time), (''replay_time_offset_us'', JInt 500000),
     (''payload'', JObj [(''duration_s'', JReal (3 / 2)), (''uid'', JStr ''C1'')]),
     (''event_id'', JStr ''e''), (''sensor_id'', JStr ''s''), (''sensor_boot_id'', JStr ''b'')]"

theorem parse_observation_time_witness:
  "\<exists>time p. parse (\<lambda>_. Some (doc_of (JObj (demo_event time)))) (\<lambda>_. []) (\<lambda>_. []) [] = Some (Inr p) \<and> p_obs_ms p = 1753000002123
     \<and> observation_ms (demo_event time) = Some 1753000002123"
proof -
  obtain time where t: "parse_us time = Some 1753000000123456"
    using parse_format_us [of 1753000000123456] by (auto simp: EPOCH_ORDINAL_def MAX_ORDINAL_def)
  have r: "round_he 1500000 = 1500000" using round_he_of_int [of 1500000] by simp
  have l: "flt 1500000 = Fin 1500000" by (simp add: FLOAT_LIMIT_def)
  let ?p = "\<lparr>p_event_id = DStr ''e'', p_sensor_id = DStr ''s'', p_boot = DStr ''b'', p_run = DNull, p_offset_us = 500000, p_log_type = ''conn'',
     p_event_time_us = 1753000000123456, p_obs_ms = 1753000002123, p_received_us = 1753000000123456, p_coverage = DStr ''unknown'',
     p_payload = [(''duration_s'', DFloat (Fin (3 / 2))), (''uid'', DStr ''C1'')], p_avail = []\<rparr>"
  have p: "parse (\<lambda>_. Some (doc_of (JObj (demo_event time)))) (\<lambda>_. []) (\<lambda>_. []) [] = Some (Inr ?p)"
    using t r l by (simp add: parse_def fields_of_def demo_event_def time_of_def doc_get_def avail_of_def duration_us_def micros_def
        SUPPORTED_def LOG_TYPES_def Let_def)
  from parse_observation_time [OF p] have "observation_ms (demo_event time) = Some (p_obs_ms ?p)" by simp
  then show ?thesis using p by force
qed

text \<open>An infinite offset raises an exception parse does not catch.\<close>

lemma infinite_offset_escapes:
  assumes "loads raw = Some (DObj d)" "doc_get d ''event_schema_version'' = DStr ''1.0.0''" "doc_get d ''log_type'' = DStr lt" "lt \<in> set LOG_TYPES"
    and "time_of d ''event_time'' = Inr et" "time_of d ''receiver_received_at'' = Inr recv"
    and "doc_get d ''replay_time_offset_us'' = DFloat x" "x = PInf \<or> x = NInf"
  shows "parse loads py_repr exc_text raw = None"
  using assms by (auto simp: parse_def fields_of_def SUPPORTED_def Let_def)

end
