(* ===== verification/FlowDelta.thy ===== *)
theory FlowDelta
  imports Events Harness
begin

text \<open>
  Cumulative flow snapshots and terminal summaries into per-record deltas
  (\<^verbatim>\<open>flink/sih_detect/flowdelta.py\<close>), keyed by flow. The handler returns \<open>None\<close> when a field the
  schema requires is absent (KeyError). The theorems show that the deltas of a flow add up to its
  high-water mark, that repeated snapshots and records after the terminal one change nothing, and
  that state is dropped only after its idle or tombstone time.
\<close>

section \<open>State and operations\<close>

datatype counter = OrigBytes | RespBytes | OrigPkts | RespPkts

definition counter_name :: "counter \<Rightarrow> string" where
  "counter_name c = (case c of OrigBytes \<Rightarrow> ''orig_bytes'' | RespBytes \<Rightarrow> ''resp_bytes''
     | OrigPkts \<Rightarrow> ''orig_pkts'' | RespPkts \<Rightarrow> ''resp_pkts'')"

type_synonym counter_map = "counter \<Rightarrow> int option"

datatype flow_state = Live counter_map int int | Terminated int

record flow_delta = ev_min +
  fl_flow_id :: string
  fl_event_id :: string
  fl_start_ms :: int
  fl_coverage :: string
  fl_src :: string
  fl_dst :: string
  fl_sport :: "int option"
  fl_dport :: "int option"
  fl_proto :: string
  fl_service :: "string option"
  fl_new_flow :: bool
  fl_terminal :: bool
  fl_conn_state :: "string option"
  fl_history :: "string option"
  fl_d :: counter_map
  fl_total_orig_bytes :: "int option"
  fl_total_resp_bytes :: "int option"
  fl_duration_s :: "real option"

definition is_terminal :: "event \<Rightarrow> bool" where
  "is_terminal ev = (log_type ev = ''conn'')"

definition reported :: "event \<Rightarrow> counter_map" where
  "reported ev c = jint (payload ev) (counter_name c)"

definition or_zero :: "int option \<Rightarrow> int" where
  "or_zero v = (case v of None \<Rightarrow> 0 | Some i \<Rightarrow> i)"

text \<open>The previous counters: none for a flow without state (\<^verbatim>\<open>st["c"] if st else {}\<close>).\<close>

definition prev_counters :: "flow_state option \<Rightarrow> counter_map" where
  "prev_counters st = (case st of Some (Live cs _ _) \<Rightarrow> cs | _ \<Rightarrow> (\<lambda>_. None))"

definition counter_deltas :: "counter_map \<Rightarrow> event \<Rightarrow> counter_map" where
  "counter_deltas prev ev c =
     (case reported ev c of None \<Rightarrow> None
      | Some cur \<Rightarrow> let before = or_zero (prev c) in if cur < before then Some 0 else Some (cur - before))"

definition merged_counters :: "counter_map \<Rightarrow> event \<Rightarrow> counter_map" where
  "merged_counters prev ev c = (case reported ev c of None \<Rightarrow> prev c | Some v \<Rightarrow> Some (max (or_zero (prev c)) v))"

definition regressions :: "counter_map \<Rightarrow> event \<Rightarrow> string list" where
  "regressions prev ev = map (\<lambda>_. ''flow_counter_regression'')
     (filter (\<lambda>c. case reported ev c of None \<Rightarrow> False | Some cur \<Rightarrow> cur < or_zero (prev c)) [OrigBytes, RespBytes, OrigPkts, RespPkts])"

definition start_of :: "event \<Rightarrow> int" where
  "start_of ev =
     (let s = (event_time_us ev + offset_us ev) div 1000
      in case jreal (payload ev) ''duration_s'' of
           Some dur \<Rightarrow> if \<not> is_terminal ev then s - trunc (dur * 1000) else s
         | None \<Rightarrow> s)"

definition delta_of :: "string \<Rightarrow> bool \<Rightarrow> counter_map \<Rightarrow> event \<Rightarrow> string \<Rightarrow> string \<Rightarrow> string \<Rightarrow> flow_delta" where
  "delta_of key is_new deltas ev src dst proto =
     \<lparr>obs_ms = obs_ms ev, event_time_us = event_time_us ev, offset_us = offset_us ev, received_us = received_us ev,
      sensor_id = sensor_id ev, run = run ev, fl_flow_id = key, fl_event_id = ev_id ev, fl_start_ms = start_of ev,
      fl_coverage = coverage ev, fl_src = src, fl_dst = dst, fl_sport = jint (payload ev) ''src_port'',
      fl_dport = jint (payload ev) ''dst_port'', fl_proto = proto, fl_service = jstr (payload ev) ''service'',
      fl_new_flow = is_new, fl_terminal = is_terminal ev,
      fl_conn_state = (if is_terminal ev then jstr (payload ev) ''conn_state'' else None),
      fl_history = jstr (payload ev) ''history'', fl_d = deltas,
      fl_total_orig_bytes = jint (payload ev) ''orig_bytes'', fl_total_resp_bytes = jint (payload ev) ''resp_bytes'',
      fl_duration_s = jreal (payload ev) ''duration_s''\<rparr>"

definition make_delta :: "string \<Rightarrow> flow_state option \<Rightarrow> event \<Rightarrow> flow_delta option" where
  "make_delta key st ev =
     (case (jstr (payload ev) ''src_ip'', jstr (payload ev) ''dst_ip'', jstr (payload ev) ''proto'') of
        (Some s, Some d, Some q) \<Rightarrow> Some (delta_of key (st = None) (counter_deltas (prev_counters st) ev) ev s d q)
      | _ \<Rightarrow> None)"

type_synonym flow_step = "(flow_state option, flow_delta) step"

definition flow_ignored :: "flow_state option \<Rightarrow> string \<Rightarrow> flow_step" where
  "flow_ignored st m = \<lparr>new_state = st, emitted = [], timers = [], metrics = [m]\<rparr>"

definition flow_on_event ::
  "('c flow_config_scheme) \<Rightarrow> string \<Rightarrow> flow_state option \<Rightarrow> event \<Rightarrow> flow_step option" where
  "flow_on_event cfg key st ev =
     (case st of
        Some (Terminated _) \<Rightarrow> Some (flow_ignored st ''flow_late_after_terminal'')
      | _ \<Rightarrow>
        if is_terminal ev
        then (case make_delta key st ev of None \<Rightarrow> None
              | Some d \<Rightarrow> Some \<lparr>new_state = (if st = None then None else Some (Terminated (obs_ms ev))), emitted = [Out d],
                  timers = (if st = None then [] else [bucket_up (obs_ms ev + flow_tombstone_ms cfg) 10000]),
                  metrics = regressions (prev_counters st) ev\<rparr>)
        else (case jint (payload ev) ''snapshot_seq'' of None \<Rightarrow> None
              | Some q \<Rightarrow>
                if (case st of Some (Live _ last_seq _) \<Rightarrow> q \<le> last_seq | _ \<Rightarrow> False)
                then Some (flow_ignored st ''flow_duplicate_snapshot'')
                else (case make_delta key st ev of None \<Rightarrow> None
                      | Some d \<Rightarrow> Some \<lparr>new_state = Some (Live (merged_counters (prev_counters st) ev) q (obs_ms ev)),
                          emitted = [Out d], timers = [bucket_up (obs_ms ev + flow_idle_ms cfg) 10000],
                          metrics = regressions (prev_counters st) ev\<rparr>)))"

fun last_obs_of :: "flow_state \<Rightarrow> int" where
  "last_obs_of (Live _ _ t) = t"
| "last_obs_of (Terminated t) = t"

fun flow_limit :: "('c flow_config_scheme) \<Rightarrow> flow_state \<Rightarrow> int" where
  "flow_limit cfg (Live _ _ _) = flow_idle_ms cfg"
| "flow_limit cfg (Terminated _) = flow_tombstone_ms cfg"

definition flow_on_timer :: "('c flow_config_scheme) \<Rightarrow> string \<Rightarrow> flow_state option \<Rightarrow> int \<Rightarrow> flow_step option" where
  "flow_on_timer cfg key st ts =
     (case st of None \<Rightarrow> Some \<lparr>new_state = None, emitted = [], timers = [], metrics = []\<rparr>
      | Some s \<Rightarrow>
        if last_obs_of s + flow_limit cfg s \<le> ts
        then Some \<lparr>new_state = None, emitted = [], timers = [], metrics = [''flow_state_expired'']\<rparr>
        else Some \<lparr>new_state = st, emitted = [], timers = [], metrics = []\<rparr>)"

section \<open>A flow's records in order\<close>

text \<open>\<open>flow_run\<close> feeds events to one key; it collects the events that produced a delta with the delta.\<close>

fun flow_run ::
  "('c flow_config_scheme) \<Rightarrow> string \<Rightarrow> flow_state option \<Rightarrow> event list \<Rightarrow> (flow_state option \<times> (event \<times> flow_delta) list) option"
where
  "flow_run cfg key st [] = Some (st, [])"
| "flow_run cfg key st (ev # evs) =
     (case flow_on_event cfg key st ev of None \<Rightarrow> None
      | Some r \<Rightarrow> (case flow_run cfg key (new_state r) evs of None \<Rightarrow> None
                  | Some (st', ds) \<Rightarrow> Some (st', map (Pair ev) (outs (emitted r)) @ ds)))"

definition counted :: "counter \<Rightarrow> (event \<times> flow_delta) list \<Rightarrow> int" where
  "counted c ds = sum_list (map (\<lambda>(ev, d). or_zero (fl_d d c)) ds)"

definition high_water :: "counter \<Rightarrow> int \<Rightarrow> (event \<times> flow_delta) list \<Rightarrow> int" where
  "high_water c start ds = foldl (\<lambda>m (ev, d). max m (or_zero (reported ev c))) start ds"

definition nonneg_event :: "event \<Rightarrow> bool" where
  "nonneg_event ev \<longleftrightarrow> (\<forall>c v. reported ev c = Some v \<longrightarrow> 0 \<le> v)"

definition nonneg_state :: "flow_state option \<Rightarrow> bool" where
  "nonneg_state st \<longleftrightarrow> (\<forall>c. 0 \<le> or_zero (prev_counters st c))"

lemma or_zero_simps [simp]: "or_zero None = 0" "or_zero (Some v) = v"
  by (simp_all add: or_zero_def)

lemma counted_Cons: "counted c ((ev, d) # ds) = or_zero (fl_d d c) + counted c ds"
  by (simp add: counted_def)

lemma counted_Nil [simp]: "counted c [] = 0"
  by (simp add: counted_def)

lemma high_water_simps [simp]:
  "high_water c m [] = m"
  "high_water c m ((ev, d) # ds) = high_water c (max m (or_zero (reported ev c))) ds"
  by (simp_all add: high_water_def)

lemma fl_d_make_delta: "make_delta key st ev = Some d \<Longrightarrow> fl_d d = counter_deltas (prev_counters st) ev"
  by (auto simp: make_delta_def delta_of_def split: option.splits)

lemma counter_deltas_eq:
  assumes "nonneg_event ev" "0 \<le> or_zero (prev c)"
  shows "or_zero (counter_deltas prev ev c) = max (or_zero (prev c)) (or_zero (reported ev c)) - or_zero (prev c)"
  using assms by (auto simp: counter_deltas_def Let_def nonneg_event_def split: option.splits)

lemma merged_counters_eq:
  assumes "nonneg_event ev" "0 \<le> or_zero (prev c)"
  shows "or_zero (merged_counters prev ev c) = max (or_zero (prev c)) (or_zero (reported ev c))"
  using assms by (auto simp: merged_counters_def split: option.splits)

text \<open>What one event does: nothing, or one delta and the new counters.\<close>

lemma flow_on_event_cases:
  assumes "flow_on_event cfg key st ev = Some r"
  obtains (ignored) m where "r = flow_ignored st m" "st \<noteq> None"
    | (final) d where "make_delta key st ev = Some d" "emitted r = [Out d]" "is_terminal ev"
        "new_state r = (if st = None then None else Some (Terminated (obs_ms ev)))" "\<forall>t. st \<noteq> Some (Terminated t)"
    | (snap) d q where "make_delta key st ev = Some d" "emitted r = [Out d]" "\<not> is_terminal ev"
        "new_state r = Some (Live (merged_counters (prev_counters st) ev) q (obs_ms ev))" "\<forall>t. st \<noteq> Some (Terminated t)"
        "\<forall>cs s t. st = Some (Live cs s t) \<longrightarrow> s < q"
proof (cases "\<exists>t. st = Some (Terminated t)")
  case True
  then show ?thesis using assms ignored by (auto simp: flow_on_event_def)
next
  case False
  then have step: "flow_on_event cfg key st ev = (if is_terminal ev
        then (case make_delta key st ev of None \<Rightarrow> None
              | Some d \<Rightarrow> Some \<lparr>new_state = (if st = None then None else Some (Terminated (obs_ms ev))), emitted = [Out d],
                  timers = (if st = None then [] else [bucket_up (obs_ms ev + flow_tombstone_ms cfg) 10000]),
                  metrics = regressions (prev_counters st) ev\<rparr>)
        else (case jint (payload ev) ''snapshot_seq'' of None \<Rightarrow> None
              | Some q \<Rightarrow>
                if (case st of Some (Live _ last_seq _) \<Rightarrow> q \<le> last_seq | _ \<Rightarrow> False)
                then Some (flow_ignored st ''flow_duplicate_snapshot'')
                else (case make_delta key st ev of None \<Rightarrow> None
                      | Some d \<Rightarrow> Some \<lparr>new_state = Some (Live (merged_counters (prev_counters st) ev) q (obs_ms ev)),
                          emitted = [Out d], timers = [bucket_up (obs_ms ev + flow_idle_ms cfg) 10000],
                          metrics = regressions (prev_counters st) ev\<rparr>)))"
    by (auto simp: flow_on_event_def split: option.splits flow_state.splits)
  show ?thesis
  proof (cases "is_terminal ev")
    case True
    then obtain d where d: "make_delta key st ev = Some d" "emitted r = [Out d]"
      "new_state r = (if st = None then None else Some (Terminated (obs_ms ev)))"
      using assms unfolding step by (auto split: option.splits)
    show ?thesis by (rule final [OF d(1,2) True d(3)]) (use False in simp)
  next
    case nt: False
    then obtain q where q: "jint (payload ev) ''snapshot_seq'' = Some q"
      using assms unfolding step by (auto split: option.splits)
    show ?thesis
    proof (cases "case st of Some (Live _ last_seq _) \<Rightarrow> q \<le> last_seq | _ \<Rightarrow> False")
      case True
      then show ?thesis using assms nt q unfolding step by (intro ignored) (auto split: option.splits)
    next
      case nd: False
      then obtain d where d: "make_delta key st ev = Some d"
        "r = \<lparr>new_state = Some (Live (merged_counters (prev_counters st) ev) q (obs_ms ev)), emitted = [Out d],
           timers = [bucket_up (obs_ms ev + flow_idle_ms cfg) 10000], metrics = regressions (prev_counters st) ev\<rparr>"
        using assms nt q unfolding step by (auto split: option.splits)
      show ?thesis by (rule snap [OF d(1)]) (use d(2) nt nd False in auto)
    qed
  qed
qed

lemma delta_nonneg:
  "nonneg_event ev \<Longrightarrow> nonneg_state st \<Longrightarrow> make_delta key st ev = Some d \<Longrightarrow> fl_d d c = Some v \<Longrightarrow> 0 \<le> v"
  by (auto simp: fl_d_make_delta counter_deltas_def Let_def split: option.splits if_splits)

lemma flow_run_terminated:
  "flow_run cfg key (Some (Terminated t)) evs = Some (st', ds) \<Longrightarrow> ds = [] \<and> st' = Some (Terminated t)"
  by (induction evs arbitrary: ds)
    (fastforce simp: flow_on_event_def flow_ignored_def split: option.splits)+

text \<open>The condition under which a flow is counted once: a terminal record without state comes alone.\<close>

definition counted_once :: "flow_state option \<Rightarrow> event list \<Rightarrow> bool" where
  "counted_once st evs \<longleftrightarrow> st \<noteq> None \<or> length evs \<le> 1 \<or> \<not> is_terminal (hd evs)"

lemma flow_run_counted:
  assumes "flow_run cfg key st evs = Some (st', ds)" and "\<forall>ev \<in> set evs. nonneg_event ev" and "nonneg_state st"
    and "counted_once st evs"
  shows "counted c ds = high_water c (or_zero (prev_counters st c)) ds - or_zero (prev_counters st c)
    \<and> (\<forall>(ev, d) \<in> set ds. \<forall>v. fl_d d c = Some v \<longrightarrow> 0 \<le> v)"
  using assms
proof (induction evs arbitrary: st ds st')
  case Nil
  then show ?case by simp
next
  case (Cons ev evs)
  obtain r st2 ds2 where r: "flow_on_event cfg key st ev = Some r" and run2: "flow_run cfg key (new_state r) evs = Some (st2, ds2)"
    and ds: "ds = map (Pair ev) (outs (emitted r)) @ ds2"
    using Cons.prems(1) by (auto split: option.splits)
  have ne: "nonneg_event ev" and ns: "\<forall>e \<in> set evs. nonneg_event e" using Cons.prems(2) by auto
  have p0: "0 \<le> or_zero (prev_counters st c)" for c using Cons.prems(3) by (simp add: nonneg_state_def)
  have hd: "or_zero (fl_d d c) = max (or_zero (prev_counters st c)) (or_zero (reported ev c)) - or_zero (prev_counters st c)"
    if "make_delta key st ev = Some d" for d
    using counter_deltas_eq [OF ne p0] fl_d_make_delta [OF that] by simp
  show ?case
  proof (cases rule: flow_on_event_cases [OF r])
    case (1 m)
    then have "flow_run cfg key st evs = Some (st2, ds2)" "ds = ds2" using run2 ds by (simp_all add: flow_ignored_def)
    then show ?thesis using Cons.IH [OF _ ns Cons.prems(3), of st2 ds2] 1(2) by (simp add: counted_once_def)
  next
    case (2 d)
    have "ds2 = []"
    proof (cases "st = None")
      case True
      then have "evs = []" using Cons.prems(4) 2(3) by (simp add: counted_once_def)
      then show ?thesis using run2 by simp
    next
      case False
      then obtain s where "st = Some s" by blast
      then have "flow_run cfg key (Some (Terminated (obs_ms ev))) evs = Some (st2, ds2)" using run2 2(4) by simp
      then show ?thesis using flow_run_terminated by blast
    qed
    then show ?thesis using ds 2(2) hd [OF 2(1)] delta_nonneg [OF ne Cons.prems(3) 2(1)] by (auto simp: counted_Cons)
  next
    case (3 d q)
    let ?st = "new_state r"
    have m: "or_zero (prev_counters ?st c) = max (or_zero (prev_counters st c)) (or_zero (reported ev c))" for c
      using merged_counters_eq [OF ne p0] 3(4) by (simp add: prev_counters_def [of "Some _"])
    then have "nonneg_state ?st" using p0 by (simp add: nonneg_state_def le_max_iff_disj)
    then have ih: "counted c ds2 = high_water c (or_zero (prev_counters ?st c)) ds2 - or_zero (prev_counters ?st c)
      \<and> (\<forall>(ev, d) \<in> set ds2. \<forall>v. fl_d d c = Some v \<longrightarrow> 0 \<le> v)"
      using 3(4) by (intro Cons.IH [OF run2 ns]) (simp_all add: counted_once_def)
    have "ds = (ev, d) # ds2" using ds 3(2) by simp
    then show ?thesis using ih hd [OF 3(1)] delta_nonneg [OF ne Cons.prems(3) 3(1)] unfolding m
      by (auto simp: counted_Cons)
  qed
qed

lemma high_water_Max: "high_water c m xs = Max (insert m ((\<lambda>(ev, d). or_zero (reported ev c)) ` set xs))"
proof (induction xs arbitrary: m)
  case (Cons x xs)
  let ?A = "(\<lambda>(ev, d). or_zero (reported ev c)) ` set xs"
  have "Max (insert (max m r) ?A) = Max (insert m (insert r ?A))" for r :: int
    by (cases "?A = {}") (simp_all add: max.assoc)
  then show ?case using Cons by (cases x) simp
qed simp

text \<open>
  C29: Over any sequence of records of one flow, as long as a terminal record that finds no state is the
  only one, no delta is negative and the deltas of each counter add up to the greatest value reported
  by the records that were counted, so no byte or packet is counted twice.
\<close>

theorem deltas_telescope:
  assumes "flow_run cfg key None evs = Some (st', ds)" and "\<forall>ev \<in> set evs. nonneg_event ev"
    and "length evs \<le> 1 \<or> \<not> is_terminal (hd evs)"
  shows "counted c ds = Max (insert 0 ((\<lambda>(ev, d). or_zero (reported ev c)) ` set ds))
    \<and> (\<forall>(ev, d) \<in> set ds. \<forall>v. fl_d d c = Some v \<longrightarrow> 0 \<le> v)"
  using flow_run_counted [OF assms(1,2), of c] assms(3)
  by (simp add: high_water_Max counted_once_def nonneg_state_def prev_counters_def)

definition demo_record :: "string \<Rightarrow> int \<Rightarrow> int \<Rightarrow> event" where
  "demo_record lt snap_no bytes = \<lparr>obs_ms = 0, event_time_us = 0, offset_us = 0, received_us = 0, sensor_id = ''s'', run = None,
     ev_id = ''e'', boot = ''b'', log_type = lt, coverage = ''both_directions'',
     payload = [(''src_ip'', JStr ''10.0.0.1''), (''dst_ip'', JStr ''10.0.0.2''), (''proto'', JStr ''tcp''),
       (''snapshot_seq'', JInt snap_no), (''orig_bytes'', JInt bytes)], avail = []\<rparr>"

lemmas demo_simps = demo_record_def flow_on_event_def is_terminal_def make_delta_def delta_of_def jint_def jstr_def
  counter_deltas_def reported_def counter_name_def prev_counters_def merged_counters_def flow_ignored_def counted_def

lemma demo_nonneg: "0 \<le> bytes \<Longrightarrow> nonneg_event (demo_record lt q bytes)"
  by (auto simp: nonneg_event_def reported_def demo_record_def jint_def counter_name_def split: counter.splits if_splits)

lemma demo_flow_run:
  "\<exists>st' ds. flow_run default_config ''k'' None [demo_record ''flow_update'' 1 500, demo_record ''flow_update'' 2 900,
      demo_record ''flow_update'' 2 900, demo_record ''conn'' 0 1200, demo_record ''flow_update'' 3 1100] = Some (st', ds)
    \<and> counted OrigBytes ds = 1200"
  by (simp add: demo_simps)

theorem deltas_telescope_witness:
  "\<exists>st' ds. flow_run default_config ''k'' None [demo_record ''flow_update'' 1 500, demo_record ''flow_update'' 2 900,
      demo_record ''flow_update'' 2 900, demo_record ''conn'' 0 1200, demo_record ''flow_update'' 3 1100] = Some (st', ds)
    \<and> counted OrigBytes ds = Max (insert 0 ((\<lambda>(ev, d). or_zero (reported ev OrigBytes)) ` set ds))"
proof -
  let ?evs = "[demo_record ''flow_update'' 1 500, demo_record ''flow_update'' 2 900,
      demo_record ''flow_update'' 2 900, demo_record ''conn'' 0 1200, demo_record ''flow_update'' 3 1100]"
  obtain st' ds where r: "flow_run default_config ''k'' None ?evs = Some (st', ds)" using demo_flow_run by blast
  have t: "\<not> is_terminal (hd ?evs)" by (simp add: is_terminal_def demo_record_def)
  have n: "\<forall>ev \<in> set ?evs. nonneg_event ev" by (simp add: demo_nonneg)
  show ?thesis using r deltas_telescope [OF r n disjI2 [OF t], of OrigBytes] by blast
qed

text \<open>
  C34: A terminal record that finds no state leaves none, so the snapshots that arrive after it are counted
  from zero again: whatever records follow, unless the next is itself a terminal record, each counter of
  the flow adds up to the terminal record's own total plus the greatest value reported after it, and the
  first of the late records is announced as a new flow although the terminal record already was.
\<close>

theorem late_snapshots_recounted:
  assumes "flow_run cfg key None (ev # evs) = Some (st', ds)" and "is_terminal ev" and "\<forall>e \<in> set (ev # evs). nonneg_event e"
    and "evs \<noteq> []" and "\<not> is_terminal (hd evs)"
  shows "\<exists>d d2 ds2. ds = (ev, d) # (hd evs, d2) # ds2 \<and> fl_new_flow d \<and> fl_new_flow d2
    \<and> counted c ds = or_zero (reported ev c) + Max (insert 0 ((\<lambda>(e, d). or_zero (reported e c)) ` set (tl ds)))"
proof -
  obtain r ds1 where r: "flow_on_event cfg key None ev = Some r" "flow_run cfg key (new_state r) evs = Some (st', ds1)"
      "ds = map (Pair ev) (outs (emitted r)) @ ds1"
    using assms(1) by (auto split: option.splits)
  obtain d where d: "make_delta key None ev = Some d" "emitted r = [Out d]" "new_state r = None"
    using r(1) assms(2) by (auto elim: flow_on_event_cases)
  obtain e es where e: "evs = e # es" "\<not> is_terminal e" using assms(4,5) by (cases evs) auto
  then obtain r2 ds2 where r2: "flow_on_event cfg key None e = Some r2" "ds1 = map (Pair e) (outs (emitted r2)) @ ds2"
    using r(2) d(3) by (auto split: option.splits)
  obtain d2 where d2: "make_delta key None e = Some d2" "emitted r2 = [Out d2]" using r2(1) e(2) by (auto elim: flow_on_event_cases)
  have new: "make_delta key None x = Some y \<Longrightarrow> fl_new_flow y" for x y by (auto simp: make_delta_def delta_of_def split: option.splits)
  have first: "or_zero (fl_d d c) = or_zero (reported ev c)"
    using counter_deltas_eq [of ev "prev_counters None" c] fl_d_make_delta [OF d(1)] assms(3)
    by (auto simp: prev_counters_def nonneg_event_def or_zero_def split: option.splits)
  have ds: "ds = (ev, d) # ds1" using r(3) d(2) by simp
  have "flow_run cfg key None evs = Some (st', ds1)" using r(2) d(3) by simp
  then have "counted c ds1 = Max (insert 0 ((\<lambda>(e, d). or_zero (reported e c)) ` set ds1))"
    using flow_run_counted [of cfg key None evs st' ds1 c] assms(3,5)
    by (simp add: high_water_Max counted_once_def nonneg_state_def prev_counters_def)
  then have c: "counted c ds = or_zero (reported ev c) + Max (insert 0 ((\<lambda>(e, d). or_zero (reported e c)) ` set (tl ds)))"
    by (simp add: ds counted_Cons first)
  show ?thesis
    by (rule exI [of _ d], rule exI [of _ d2], rule exI [of _ ds2]) (use c ds r2(2) d2 e(1) new d(1) in simp)
qed

lemma demo_late_run:
  "\<exists>st' ds. flow_run default_config ''k'' None [demo_record ''conn'' 0 1000, demo_record ''flow_update'' 1 1000] = Some (st', ds)
    \<and> counted OrigBytes ds = 2000"
  by (simp add: demo_simps)

theorem late_snapshots_recounted_witness:
  "\<exists>st' d d2 ds2. flow_run default_config ''k'' None [demo_record ''conn'' 0 1000, demo_record ''flow_update'' 1 1000] = Some (st', d # d2 # ds2)
    \<and> counted OrigBytes (d # d2 # ds2) = 2000 \<and> fl_new_flow (snd d) \<and> fl_new_flow (snd d2)"
proof -
  let ?evs = "[demo_record ''flow_update'' 1 1000]"
  obtain st' ds where r: "flow_run default_config ''k'' None (demo_record ''conn'' 0 1000 # ?evs) = Some (st', ds)" "counted OrigBytes ds = 2000"
    using demo_late_run by auto
  have "is_terminal (demo_record ''conn'' 0 1000)" "\<not> is_terminal (hd ?evs)" "\<forall>e \<in> set (demo_record ''conn'' 0 1000 # ?evs). nonneg_event e"
    by (simp_all add: is_terminal_def demo_nonneg) (simp_all add: demo_record_def)
  from late_snapshots_recounted [OF r(1) this(1,3) _ this(2), of OrigBytes] show ?thesis using r by fastforce
qed

text \<open>
  The timer forgets a flow exactly when its idle time, or its tombstone time after the terminal
  record, has passed since the last record; a repeated or older snapshot and any record after the
  terminal one leave the state as it is and produce nothing.
\<close>

theorem flow_state_lifetime:
  "(\<exists>r. flow_on_timer cfg key (Some s) ts = Some r \<and> emitted r = []
      \<and> (new_state r = None \<longleftrightarrow> last_obs_of s + flow_limit cfg s \<le> ts) \<and> (new_state r = None \<or> new_state r = Some s))
   \<and> (\<forall>t. flow_on_event cfg key (Some (Terminated t)) ev = Some (flow_ignored (Some (Terminated t)) ''flow_late_after_terminal''))
   \<and> (\<forall>cs q t q'. log_type ev \<noteq> ''conn'' \<longrightarrow> jint (payload ev) ''snapshot_seq'' = Some q' \<longrightarrow> q' \<le> q \<longrightarrow>
        flow_on_event cfg key (Some (Live cs q t)) ev = Some (flow_ignored (Some (Live cs q t)) ''flow_duplicate_snapshot''))"
  by (auto simp: flow_on_timer_def flow_on_event_def is_terminal_def)

theorem flow_state_lifetime_witness:
  "\<exists>r. flow_on_timer default_config ''k'' (Some (Terminated 0)) 60000 = Some r \<and> emitted r = [] \<and> new_state r = None"
  using flow_state_lifetime [of default_config "''k''" "Terminated 0" 60000, THEN conjunct1] by auto

definition demo_flow :: "string \<Rightarrow> int \<Rightarrow> int \<Rightarrow> flow_delta" where
  "demo_flow dst q t = \<lparr>obs_ms = t, event_time_us = t * 1000, offset_us = 0, received_us = t * 1000, sensor_id = ''s'', run = None,
     fl_flow_id = ''f'', fl_event_id = ''e'', fl_start_ms = t, fl_coverage = ''both_directions'', fl_src = ''10.0.0.1'',
     fl_dst = dst, fl_sport = Some 40000, fl_dport = Some q, fl_proto = ''tcp'', fl_service = None, fl_new_flow = True,
     fl_terminal = True, fl_conn_state = Some ''S0'', fl_history = None, fl_d = (\<lambda>_. Some 100),
     fl_total_orig_bytes = Some 100, fl_total_resp_bytes = Some 0, fl_duration_s = None\<rparr>"

section \<open>In the harness\<close>

interpretation flow_logic: passive_logic "\<lambda>_. flow_on_event cfg" "\<lambda>_. flow_on_timer cfg" None "\<lambda>_. True" "\<lambda>_. True" for cfg
  by unfold_locales (auto simp: flow_on_timer_def split: option.splits if_splits)

end
