(* ===== verification/Scan.thy ===== *)
theory Scan
  imports FlowDelta
begin

text \<open>
  The scan detector (\<^verbatim>\<open>flink/sih_detect/scan.py\<close>), keyed by source host. \<open>tally\<close> is a counting map
  with its number of keys, as the handler keeps it for hosts per port and ports per host. The invariant
  ties both tallies and the running counters to the set of pairs; the theorems show that the evidence of
  every finding is exact and that the state of a silent source is removed.
\<close>

section \<open>Counting maps\<close>

type_synonym tally = "(string \<times> int) list \<times> int"

definition tally_incr :: "string \<Rightarrow> tally \<Rightarrow> tally" where
  "tally_incr k t = (case t of (mp, n) \<Rightarrow>
     (let c = map_of mp k in (od_set k (or_zero c + 1) mp, if c = None then n + 1 else n)))"

definition tally_decr :: "string \<Rightarrow> tally \<Rightarrow> tally" where
  "tally_decr k t = (case t of (mp, n) \<Rightarrow>
     (let c = (case map_of mp k of None \<Rightarrow> 1 | Some v \<Rightarrow> if v = 0 then 1 else v) - 1
      in if c \<le> 0 then (od_del k mp, n - 1) else (od_set k c mp, n)))"

definition tally_ok :: "string list \<Rightarrow> tally \<Rightarrow> bool" where
  "tally_ok ks t \<longleftrightarrow> distinct (map fst (fst t)) \<and> snd t = int (length (fst t))
     \<and> (\<forall>k. map_of (fst t) k = (if count_list ks k = 0 then None else Some (int (count_list ks k))))"

lemma tally_ok_Nil [simp]: "tally_ok [] ([], 0)"
  by (simp add: tally_ok_def)

lemma tally_get: "tally_ok ks t \<Longrightarrow> or_zero (map_of (fst t) k) = int (count_list ks k)"
  by (simp add: tally_ok_def)

lemma tally_ok_cong: "(\<And>k. count_list ks k = count_list ks' k) \<Longrightarrow> tally_ok ks t = tally_ok ks' t"
  by (simp add: tally_ok_def)

lemma tally_ok_incr: "tally_ok ks t \<Longrightarrow> tally_ok (k # ks) (tally_incr k t)"
proof -
  assume t: "tally_ok ks t"
  obtain mp n where mp: "t = (mp, n)" by fastforce
  have m: "map_of mp k' = (if count_list ks k' = 0 then None else Some (int (count_list ks k')))" for k'
    using t mp by (simp add: tally_ok_def)
  have "k \<in> fst ` set mp \<longleftrightarrow> map_of mp k \<noteq> None" by (simp add: map_of_eq_None_iff image_iff)
  then show ?thesis using t m unfolding mp
    by (auto simp: tally_ok_def tally_incr_def Let_def length_od_set)
qed

lemma tally_ok_decr:
  assumes t: "tally_ok ks t" and k: "k \<in> set ks" and c: "\<And>x. count_list ks' x = (if x = k then count_list ks x - 1 else count_list ks x)"
  shows "tally_ok ks' (tally_decr k t)"
proof -
  obtain mp n where mp: "t = (mp, n)" by fastforce
  have m: "map_of mp k' = (if count_list ks k' = 0 then None else Some (int (count_list ks k')))" for k'
    using t mp by (simp add: tally_ok_def)
  have pos: "0 < count_list ks k" using k count_list_0_iff [of ks k] by auto
  have d: "distinct (map fst mp)" "n = int (length mp)" using t mp by (simp_all add: tally_ok_def)
  have mem: "k \<in> fst ` set mp" using m [of k] pos by (metis map_of_eq_None_iff neq0_conv option.distinct(1))
  have e: "tally_decr k t = (if count_list ks k = 1 then (od_del k mp, n - 1) else (od_set k (int (count_list ks k) - 1) mp, n))"
    using pos m [of k] by (auto simp: mp tally_decr_def Let_def)
  show ?thesis
  proof (cases "count_list ks k = 1")
    case True
    have "int (length (od_del k mp)) = n - 1" using length_od_del [OF d(1) mem] d(2) by simp
    then show ?thesis using True d(1) m by (auto simp: e tally_ok_def c)
  next
    case False
    then have "int (count_list ks k) - 1 = int (count_list ks k - 1)" "count_list ks k - 1 \<noteq> 0" using pos by auto
    then show ?thesis using False d mem m by (auto simp: e tally_ok_def c length_od_set)
  qed
qed

section \<open>State\<close>

definition FAILED_STATES :: "string list" where "FAILED_STATES = [''S0'', ''REJ'', ''RSTOS0'', ''SH'']"
definition EXPIRY_STEP_MS :: int where "EXPIRY_STEP_MS = 5000"
definition SCAN_VERSION :: string where "SCAN_VERSION = ''scan-1.0.0''"
definition SCAN_FSV :: string where "SCAN_FSV = ''scan_features-1.0.0''"

record scan_meta =
  sc_n :: int
  sc_hosts :: int
  sc_ports :: int
  sc_capped :: bool
  sc_failed :: int
  sc_known :: int
  sc_first :: ev_min
  sc_last :: ev_min
  sc_levels :: "(string \<times> int) list"
  sc_emitted :: "(string \<times> int) list"
  sc_ids :: "string list"
  sc_last_feature :: "int option"

record scan_state =
  sc_meta :: "scan_meta option"
  sc_pairs :: "(string \<times> int) list"
  sc_port_hosts :: "(string \<times> int) list"
  sc_host_ports :: "(string \<times> int) list"

definition scan_empty :: scan_state where
  "scan_empty = \<lparr>sc_meta = None, sc_pairs = [], sc_port_hosts = [], sc_host_ports = []\<rparr>"

definition scan_meta_new :: "flow_delta \<Rightarrow> scan_meta" where
  "scan_meta_new d = \<lparr>sc_n = 0, sc_hosts = 0, sc_ports = 0, sc_capped = False, sc_failed = 0, sc_known = 0,
     sc_first = ev_min d, sc_last = ev_min d, sc_levels = [], sc_emitted = [], sc_ids = [], sc_last_feature = None\<rparr>"

definition port_text :: "int option \<Rightarrow> string" where
  "port_text v = (case v of None \<Rightarrow> ''None'' | Some i \<Rightarrow> str_of_int i)"

definition port_key :: "flow_delta \<Rightarrow> string" where
  "port_key d = port_text (fl_dport d) @ ''/'' @ fl_proto d"

definition pair_key :: "string \<Rightarrow> string \<Rightarrow> string" where
  "pair_key dst pk = dst @ CHR ''|'' # pk"

text \<open>\<^verbatim>\<open>pair.split("|", 1)\<close>\<close>

definition split_pair :: "string \<Rightarrow> string \<times> string" where
  "split_pair s = (takeWhile (\<lambda>c. c \<noteq> CHR ''|'') s, tl (dropWhile (\<lambda>c. c \<noteq> CHR ''|'') s))"

lemma split_pair_key [simp]: "CHR ''|'' \<notin> set dst \<Longrightarrow> split_pair (pair_key dst pk) = (dst, pk)"
  by (induction dst) (auto simp: split_pair_def pair_key_def)

section \<open>Entering a flow\<close>

text \<open>Recording the pair: known pairs are refreshed, new ones counted up to the cap.\<close>

definition enter_pair :: "detect_config \<Rightarrow> scan_state \<Rightarrow> scan_meta \<Rightarrow> flow_delta \<Rightarrow> scan_state \<times> scan_meta \<times> string list" where
  "enter_pair cfg s m d =
     (let pk = port_key d; pair = pair_key (fl_dst d) pk
      in case map_of (sc_pairs s) pair of
           Some prev \<Rightarrow> (s\<lparr>sc_pairs := od_set pair (max prev (obs_ms d)) (sc_pairs s)\<rparr>, m, [])
         | None \<Rightarrow>
             if sc_n m \<ge> scan_pair_cap cfg then (s, m\<lparr>sc_capped := True\<rparr>, [''scan_pair_cap_reached''])
             else let (ph, ports) = tally_incr pk (sc_port_hosts s, sc_ports m);
                      (hp, hosts) = tally_incr (fl_dst d) (sc_host_ports s, sc_hosts m)
                  in (s\<lparr>sc_pairs := od_set pair (obs_ms d) (sc_pairs s), sc_port_hosts := ph, sc_host_ports := hp\<rparr>,
                      m\<lparr>sc_n := sc_n m + 1, sc_ports := ports, sc_hosts := hosts\<rparr>, []))"

definition note_outcome :: "scan_meta \<Rightarrow> flow_delta \<Rightarrow> scan_meta" where
  "note_outcome m d =
     (let m1 = (if fl_terminal d \<and> fl_coverage d = ''both_directions'' \<and> fl_conn_state d \<noteq> None \<and> fl_conn_state d \<noteq> Some []
                then m\<lparr>sc_known := sc_known m + 1,
                       sc_failed := (if fl_conn_state d \<in> Some ` set FAILED_STATES then sc_failed m + 1 else sc_failed m)\<rparr>
                else m)
      in m1\<lparr>sc_ids := append_ids (sc_ids m1) (fl_event_id d), sc_last := ev_min d\<rparr>)"

definition failed_ratio :: "scan_meta \<Rightarrow> flow_delta \<Rightarrow> real option" where
  "failed_ratio m d = (if sc_known m \<noteq> 0 \<and> fl_coverage d = ''both_directions''
     then Some (of_int (sc_failed m) / of_int (sc_known m)) else None)"

section \<open>Reporting\<close>

record scan_check =
  ck_subtype :: string
  ck_short :: string
  ck_count :: int
  ck_thr :: int
  ck_dst_ip :: "string option"
  ck_dst_port :: "int option"
  ck_what :: string

definition scan_checks :: "detect_config \<Rightarrow> flow_delta \<Rightarrow> int \<Rightarrow> int \<Rightarrow> scan_check list" where
  "scan_checks cfg d hosts_on_port ports_on_host =
     [\<lparr>ck_subtype = ''horizontal_scan'', ck_short = ''horizontal'', ck_count = hosts_on_port, ck_thr = scan_host_threshold cfg,
       ck_dst_ip = None, ck_dst_port = fl_dport d,
       ck_what = str_of_int hosts_on_port @ '' distinct hosts on port '' @ port_key d\<rparr>,
      \<lparr>ck_subtype = ''vertical_scan'', ck_short = ''vertical'', ck_count = ports_on_host, ck_thr = scan_port_threshold cfg,
       ck_dst_ip = Some (fl_dst d), ck_dst_port = None,
       ck_what = str_of_int ports_on_host @ '' distinct ports on host '' @ fl_dst d\<rparr>]"

definition scan_severity :: "inventory \<Rightarrow> string \<Rightarrow> scan_check \<Rightarrow> real option \<Rightarrow> string" where
  "scan_severity inven src c ratio =
     (if authorized_scanner inven src then ''info''
      else if ck_count c \<ge> 5 * ck_thr c
         \<or> (case ratio of None \<Rightarrow> False | Some r \<Rightarrow> r \<ge> 4 / 5 \<and> ck_count c \<ge> 2 * ck_thr c) then ''high'' else ''medium'')"

definition scan_explanation ::
  "detect_config \<Rightarrow> inventory \<Rightarrow> string \<Rightarrow> scan_meta \<Rightarrow> scan_check \<Rightarrow> real option \<Rightarrow> string" where
  "scan_explanation cfg inven src m c ratio =
     ''Source '' @ src @ '' contacted '' @ ck_what c @ '' within '' @ str_of_int (scan_horizon_ms cfg div 1000) @ ''s (threshold ''
     @ str_of_int (ck_thr c) @ ''); '' @ str_of_int (sc_n m) @ '' distinct host/port pairs in total.''
     @ (case ratio of None \<Rightarrow> [] | Some r \<Rightarrow> '' '' @ fmt_percent r @ '' of observed attempts received no reply or a reset.'')
     @ (if authorized_scanner inven src then '' Source is listed as an authorized scanner in the asset inventory.'' else [])"

definition scan_finding ::
  "detect_config \<Rightarrow> inventory \<Rightarrow> string \<Rightarrow> flow_delta \<Rightarrow> scan_meta \<Rightarrow> scan_check \<Rightarrow> real option \<Rightarrow> finding" where
  "scan_finding cfg inven src d m c ratio = finding (no_args\<lparr>
     a_detector := ''scan'', a_threat_class := ''scan'', a_subtype := ck_subtype c, a_entity_type := ''src_host'',
     a_entity_key := src, a_severity := scan_severity inven src c ratio,
     a_score := Some (min 1 (1 / 2 + 1 / 2 * of_int (ck_count c) / of_int (4 * ck_thr c))), a_method := ''rule'',
     a_detector_version := SCAN_VERSION, a_feature_schema_version := SCAN_FSV, a_first := sc_first m, a_last := sc_last m,
     a_window_start_ms := max (obs_ms (sc_first m)) (obs_ms d - scan_horizon_ms cfg), a_window_end_ms := obs_ms d,
     a_observed := [(''distinct_count'', JInt (ck_count c)), (''distinct_pairs'', JInt (sc_n m)),
        (''distinct_hosts'', JInt (sc_hosts m)), (''distinct_ports'', JInt (sc_ports m)),
        (''failed_ratio'', of_opt_real ratio), (''authorized_scanner'', JBool (authorized_scanner inven src))],
     a_thresholds := [(''distinct_threshold'', JInt (ck_thr c)), (''horizon_s'', JReal (of_int (scan_horizon_ms cfg) / 1000))],
     a_unavailable := (if ratio \<noteq> None then [] else [''failed_ratio'']),
     a_capped := (if sc_capped m then [''distinct_pairs''] else []), a_coverage := fl_coverage d,
     a_src_ip := Some src, a_dst_ip := ck_dst_ip c, a_dst_port := ck_dst_port c, a_protocol := Some (fl_proto d),
     a_raw_event_ids := sc_ids m, a_evidence_count := sc_n m,
     a_top_features := [(ck_short c @ ''_distinct'', JInt (ck_count c), JNull, JStr ''count''),
        (''failed_ratio'', of_opt_real ratio, JNull, JStr ''ratio'')],
     a_explanation := scan_explanation cfg inven src m c ratio\<rparr>)"

text \<open>One threshold: silent below it, and unless the rank rises or the count doubles since the last report.\<close>

definition alookup :: "(string \<times> int) list \<Rightarrow> string \<Rightarrow> int \<Rightarrow> int" where
  "alookup xs k dflt = (case map_of xs k of None \<Rightarrow> dflt | Some v \<Rightarrow> v)"

definition run_check ::
  "detect_config \<Rightarrow> inventory \<Rightarrow> string \<Rightarrow> flow_delta \<Rightarrow> real option \<Rightarrow> scan_meta \<Rightarrow> scan_check \<Rightarrow> scan_meta \<times> finding list" where
  "run_check cfg inven src d ratio m c =
     (let rank = SEVERITY_RANK (scan_severity inven src c ratio); st = ck_subtype c
      in if ck_count c < ck_thr c then (m, [])
         else if rank \<le> alookup (sc_levels m) st (- 1) \<and> ck_count c < 2 * alookup (sc_emitted m) st 0 then (m, [])
         else let m' = m\<lparr>sc_levels := od_set st rank (sc_levels m), sc_emitted := od_set st (ck_count c) (sc_emitted m)\<rparr>
              in (m', [scan_finding cfg inven src d m' c ratio]))"

definition run_checks ::
  "detect_config \<Rightarrow> inventory \<Rightarrow> string \<Rightarrow> flow_delta \<Rightarrow> real option \<Rightarrow> scan_meta \<Rightarrow> scan_check list \<Rightarrow> scan_meta \<times> finding list" where
  "run_checks cfg inven src d ratio m0 cs =
     foldl (\<lambda>(m, fs) c. (case run_check cfg inven src d ratio m c of (m', gs) \<Rightarrow> (m', fs @ gs))) (m0, []) cs"

definition scan_feature :: "detect_config \<Rightarrow> int \<Rightarrow> string \<Rightarrow> flow_delta \<Rightarrow> scan_meta \<Rightarrow> int \<Rightarrow> int \<Rightarrow> real option \<Rightarrow> dict option" where
  "scan_feature cfg now_us src d m hosts_on_port ports_on_host ratio =
     feature_record now_us ''scan'' SCAN_FSV ''src_host'' src (sensor_id d) (obs_ms d - scan_horizon_ms cfg) (obs_ms d)
       [(''distinct_pairs'', JInt (sc_n m)), (''distinct_hosts'', JInt (sc_hosts m)), (''distinct_ports'', JInt (sc_ports m)),
        (''hosts_on_port'', JInt hosts_on_port), (''ports_on_host'', JInt ports_on_host), (''failed_ratio'', of_opt_real ratio)]
       [(''failed_ratio'', ''UNKNOWN'')] (if sc_capped m then [''distinct_pairs''] else [])"

section \<open>The handlers\<close>

type_synonym scan_step = "(scan_state, finding) step"

text \<open>A zero threshold is ZeroDivisionError in the feature condition.\<close>

definition scan_on_event ::
  "detect_config \<Rightarrow> inventory \<Rightarrow> int \<Rightarrow> string \<Rightarrow> scan_state \<Rightarrow> flow_delta \<Rightarrow> scan_step option" where
  "scan_on_event cfg inven now_us src s d =
     (if \<not> fl_new_flow d then Some \<lparr>new_state = s, emitted = [], timers = [], metrics = []\<rparr>
      else if scan_host_threshold cfg = 0 \<or> scan_port_threshold cfg = 0 then None
      else
        let m0 = (case sc_meta s of None \<Rightarrow> scan_meta_new d | Some m \<Rightarrow> m);
            (s1, m1, ms) = enter_pair cfg s m0 d;
            m2 = note_outcome m1 d;
            hosts_on_port = or_zero (map_of (sc_port_hosts s1) (port_key d));
            ports_on_host = or_zero (map_of (sc_host_ports s1) (fl_dst d));
            ratio = failed_ratio m2 d;
            (m3, fs) = run_checks cfg inven src d ratio m2 (scan_checks cfg d hosts_on_port ports_on_host);
            top = max (of_int hosts_on_port / of_int (scan_host_threshold cfg) :: real)
                      (of_int ports_on_host / of_int (scan_port_threshold cfg));
            (due, lf) = (if top \<ge> 1 / 2 then rate_limited (sc_last_feature m3) (obs_ms d) (feature_min_interval_ms cfg)
                         else (False, sc_last_feature m3));
            m4 = m3\<lparr>sc_last_feature := lf\<rparr>
        in map_option (\<lambda>es. \<lparr>new_state = s1\<lparr>sc_meta := Some m4\<rparr>, emitted = map Out fs @ es,
               timers = [bucket_up (obs_ms d) EXPIRY_STEP_MS], metrics = ms\<rparr>)
             (emit_feature due (scan_feature cfg now_us src d m4 hosts_on_port ports_on_host ratio)))"

definition expire_pair :: "scan_state \<times> scan_meta \<Rightarrow> string \<Rightarrow> scan_state \<times> scan_meta" where
  "expire_pair sm pair = (case sm of (s, m) \<Rightarrow>
     (let (dst, pk) = split_pair pair;
          (ph, ports) = tally_decr pk (sc_port_hosts s, sc_ports m);
          (hp, hosts) = tally_decr dst (sc_host_ports s, sc_hosts m)
      in (s\<lparr>sc_pairs := od_del pair (sc_pairs s), sc_port_hosts := ph, sc_host_ports := hp\<rparr>,
          m\<lparr>sc_n := sc_n m - 1, sc_ports := ports, sc_hosts := hosts\<rparr>)))"

definition expired_pairs :: "int \<Rightarrow> scan_state \<Rightarrow> string list" where
  "expired_pairs cutoff s = map fst (filter (\<lambda>(k, seen). seen < cutoff) (sc_pairs s))"

definition scan_on_timer :: "detect_config \<Rightarrow> string \<Rightarrow> scan_state \<Rightarrow> int \<Rightarrow> scan_step option" where
  "scan_on_timer cfg src s ts =
     (case sc_meta s of
        None \<Rightarrow> Some \<lparr>new_state = s, emitted = [], timers = [], metrics = []\<rparr>
      | Some m \<Rightarrow>
          (case foldl expire_pair (s, m) (expired_pairs (ts - scan_horizon_ms cfg) s) of (s1, m1) \<Rightarrow>
             if sc_n m1 \<le> 0
             then Some \<lparr>new_state = scan_empty, emitted = [], timers = [], metrics = [''scan_state_expired'']\<rparr>
             else Some \<lparr>new_state = s1\<lparr>sc_meta := Some (m1\<lparr>sc_capped := sc_capped m1 \<and> sc_n m1 \<ge> scan_pair_cap cfg\<rparr>)\<rparr>,
                    emitted = [], timers = [ts + EXPIRY_STEP_MS], metrics = []\<rparr>))"

section \<open>The counters are exact\<close>

definition on_port :: "(string \<times> int) list \<Rightarrow> string list" where
  "on_port ps = map (\<lambda>k. snd (split_pair k)) (map fst ps)"

definition on_host :: "(string \<times> int) list \<Rightarrow> string list" where
  "on_host ps = map (\<lambda>k. fst (split_pair k)) (map fst ps)"

lemma on_od_set:
  "k \<in> fst ` set ps \<Longrightarrow> on_port (od_set k v ps) = on_port ps"
  "k \<in> fst ` set ps \<Longrightarrow> on_host (od_set k v ps) = on_host ps"
  "k \<in> fst ` set ps \<Longrightarrow> length (od_set k v ps) = length ps"
  by (simp_all only: on_port_def on_host_def keys_od_set length_od_set if_True)

lemma on_snoc [simp]:
  "on_port (ps @ [(k, v)]) = on_port ps @ [snd (split_pair k)]"
  "on_host (ps @ [(k, v)]) = on_host ps @ [fst (split_pair k)]"
  by (simp_all add: on_port_def on_host_def)

definition scan_core :: "detect_config \<Rightarrow> scan_state \<Rightarrow> scan_meta \<Rightarrow> bool" where
  "scan_core cfg s m \<longleftrightarrow> distinct (map fst (sc_pairs s)) \<and> sc_n m = int (length (sc_pairs s)) \<and> sc_n m \<le> max 0 (scan_pair_cap cfg)
     \<and> tally_ok (on_port (sc_pairs s)) (sc_port_hosts s, sc_ports m) \<and> tally_ok (on_host (sc_pairs s)) (sc_host_ports s, sc_hosts m)"

definition scan_ok :: "detect_config \<Rightarrow> scan_state \<Rightarrow> bool" where
  "scan_ok cfg s \<longleftrightarrow> (case sc_meta s of None \<Rightarrow> s = scan_empty | Some m \<Rightarrow> scan_core cfg s m)"

lemma scan_core_new: "scan_core cfg scan_empty (scan_meta_new d)"
  by (simp add: scan_core_def scan_empty_def scan_meta_new_def on_port_def on_host_def)

lemma scan_core_meta_cong:
  "sc_n m' = sc_n m \<Longrightarrow> sc_ports m' = sc_ports m \<Longrightarrow> sc_hosts m' = sc_hosts m \<Longrightarrow> scan_core cfg s m' = scan_core cfg s m"
  by (simp add: scan_core_def)

lemma scan_core_set_meta [simp]: "scan_core cfg (s\<lparr>sc_meta := x\<rparr>) m = scan_core cfg s m"
  by (simp add: scan_core_def)

lemma scan_core_pairs_cong:
  "scan_core cfg s m \<Longrightarrow> distinct (map fst q) \<Longrightarrow> length q = length (sc_pairs s) \<Longrightarrow> on_port q = on_port (sc_pairs s)
     \<Longrightarrow> on_host q = on_host (sc_pairs s) \<Longrightarrow> scan_core cfg (s\<lparr>sc_pairs := q\<rparr>) m"
  by (simp add: scan_core_def)

lemma tally_ok_snoc: "tally_ok ks t \<Longrightarrow> tally_ok (ks @ [k]) (tally_incr k t)"
  using tally_ok_incr [of ks t k] tally_ok_cong [of "ks @ [k]" "k # ks"] by simp

lemma enter_pair_core:
  assumes core: "scan_core cfg s m" and bar: "CHR ''|'' \<notin> set (fl_dst d)" and e: "enter_pair cfg s m d = (s', m', ms)"
  shows "scan_core cfg s' m'"
proof -
  let ?pair = "pair_key (fl_dst d) (port_key d)"
  have dist: "distinct (map fst (sc_pairs s))" using core by (simp add: scan_core_def)
  show ?thesis
  proof (cases "map_of (sc_pairs s) ?pair")
    case (Some prev)
    then have mem: "?pair \<in> fst ` set (sc_pairs s)" by (metis map_of_eq_None_iff option.distinct(1))
    have s': "s' = s\<lparr>sc_pairs := od_set ?pair (max prev (obs_ms d)) (sc_pairs s)\<rparr>" "m' = m"
      using e Some by (simp_all add: enter_pair_def Let_def)
    let ?q = "od_set ?pair (max prev (obs_ms d)) (sc_pairs s)"
    have q: "distinct (map fst ?q)" "length ?q = length (sc_pairs s)" "on_port ?q = on_port (sc_pairs s)" "on_host ?q = on_host (sc_pairs s)"
      using distinct_od_set [OF dist] on_od_set [OF mem] by blast+
    show ?thesis unfolding s' by (rule scan_core_pairs_cong [OF core q])
  next
    case None
    show ?thesis
    proof (cases "sc_n m \<ge> scan_pair_cap cfg")
      case True
      then show ?thesis using e None core by (auto simp: enter_pair_def Let_def scan_core_def)
    next
      case False
      have new: "od_set ?pair v (sc_pairs s) = sc_pairs s @ [(?pair, v)]" for v
        by (rule od_set_new) (use None in \<open>simp add: map_of_eq_None_iff\<close>)
      have fresh: "?pair \<notin> fst ` set (sc_pairs s)" using None by (simp add: map_of_eq_None_iff)
      have tp: "tally_ok (on_port (sc_pairs s) @ [port_key d]) (tally_incr (port_key d) (sc_port_hosts s, sc_ports m))"
        and th: "tally_ok (on_host (sc_pairs s) @ [fl_dst d]) (tally_incr (fl_dst d) (sc_host_ports s, sc_hosts m))"
        using core by (simp_all add: scan_core_def tally_ok_snoc)
      show ?thesis using e None False core fresh dist tp th
        by (auto simp: enter_pair_def Let_def scan_core_def new bar split: prod.splits)
    qed
  qed
qed

lemma count_list_filter_one:
  "distinct ks \<Longrightarrow> k \<in> set ks \<Longrightarrow> count_list (map g (filter (\<lambda>y. y \<noteq> k) ks)) x
     = (if x = g k then count_list (map g ks) x - 1 else count_list (map g ks) x)"
proof (induction ks)
  case (Cons a ks)
  show ?case
  proof (cases "a = k")
    case True
    then have "filter (\<lambda>y. y \<noteq> k) ks = ks" using Cons.prems(1) by (auto intro: filter_True)
    then show ?thesis using True by auto
  next
    case False
    then have mem: "k \<in> set ks" using Cons.prems(2) by auto
    then have "0 < count_list (map g ks) (g k)" using count_list_0_iff [of "map g ks" "g k"] by (auto simp: image_iff)
    then show ?thesis using False mem Cons by auto
  qed
qed simp

lemma expire_pair_core:
  assumes core: "scan_core cfg s m" and k: "k \<in> fst ` set (sc_pairs s)" and e: "expire_pair (s, m) k = (s', m')"
  shows "scan_core cfg s' m' \<and> sc_pairs s' = od_del k (sc_pairs s)"
proof -
  let ?ks = "map fst (sc_pairs s)"
  have d: "distinct ?ks" and mem: "k \<in> set ?ks" using core k by (simp_all add: scan_core_def)
  have len: "int (length (od_del k (sc_pairs s))) = sc_n m - 1"
    using length_od_del [OF d k] core by (simp add: scan_core_def)
  obtain dst pk where sp: "split_pair k = (dst, pk)" by fastforce
  have cp: "count_list (on_port (od_del k (sc_pairs s))) x
      = (if x = pk then count_list (on_port (sc_pairs s)) x - 1 else count_list (on_port (sc_pairs s)) x)" for x
    using count_list_filter_one [OF d mem, of "\<lambda>k. snd (split_pair k)" x] by (simp only: on_port_def keys_od_del sp snd_conv)
  have ch: "count_list (on_host (od_del k (sc_pairs s))) x
      = (if x = dst then count_list (on_host (sc_pairs s)) x - 1 else count_list (on_host (sc_pairs s)) x)" for x
    using count_list_filter_one [OF d mem, of "\<lambda>k. fst (split_pair k)" x] by (simp only: on_host_def keys_od_del sp fst_conv)
  have "pk \<in> set (on_port (sc_pairs s))" "dst \<in> set (on_host (sc_pairs s))"
    using imageI [OF mem, of "\<lambda>k. snd (split_pair k)"] imageI [OF mem, of "\<lambda>k. fst (split_pair k)"]
    by (simp_all only: on_port_def on_host_def set_map sp fst_conv snd_conv)
  then have tp: "tally_ok (on_port (od_del k (sc_pairs s))) (tally_decr pk (sc_port_hosts s, sc_ports m))"
    and th: "tally_ok (on_host (od_del k (sc_pairs s))) (tally_decr dst (sc_host_ports s, sc_hosts m))"
    using core tally_ok_decr [OF _ _ cp] tally_ok_decr [OF _ _ ch] unfolding scan_core_def by blast+
  show ?thesis using e core len tp th distinct_od_del [OF d]
    by (auto simp: expire_pair_def Let_def scan_core_def sp split: prod.splits)
qed

lemma note_outcome_fields [simp]:
  "sc_n (note_outcome m d) = sc_n m" "sc_ports (note_outcome m d) = sc_ports m" "sc_hosts (note_outcome m d) = sc_hosts m"
  by (simp_all add: note_outcome_def Let_def)

lemma scan_finding_fields [simp]:
  "subtype (scan_finding cfg inven src d m c ratio) = ck_subtype c"
  "evidence_count (scan_finding cfg inven src d m c ratio) = sc_n m"
  "dget (observed (scan_finding cfg inven src d m c ratio)) ''distinct_count'' = JInt (ck_count c)"
  by (simp_all add: scan_finding_def no_args_def)

lemma run_check_fields:
  "run_check cfg inven src d ratio m c = (m', fs) \<Longrightarrow> sc_n m' = sc_n m \<and> sc_ports m' = sc_ports m \<and> sc_hosts m' = sc_hosts m
     \<and> (\<forall>f \<in> set fs. ck_thr c \<le> ck_count c \<and> subtype f = ck_subtype c \<and> evidence_count f = sc_n m
          \<and> dget (observed f) ''distinct_count'' = JInt (ck_count c))"
  by (auto simp: run_check_def Let_def split: if_splits)

lemma run_checks_fields:
  "run_checks cfg inven src d ratio m cs = (m', fs) \<Longrightarrow> sc_n m' = sc_n m \<and> sc_ports m' = sc_ports m \<and> sc_hosts m' = sc_hosts m
     \<and> (\<forall>f \<in> set fs. \<exists>c \<in> set cs. ck_thr c \<le> ck_count c \<and> subtype f = ck_subtype c \<and> evidence_count f = sc_n m
          \<and> dget (observed f) ''distinct_count'' = JInt (ck_count c))"
proof (induction cs arbitrary: m' fs rule: rev_induct)
  case Nil
  then show ?case by (simp add: run_checks_def)
next
  case (snoc c cs)
  obtain m1 fs1 where 1: "run_checks cfg inven src d ratio m cs = (m1, fs1)" by fastforce
  obtain m2 fs2 where 2: "run_check cfg inven src d ratio m1 c = (m2, fs2)" by fastforce
  have eq: "m' = m2" "fs = fs1 @ fs2" using snoc.prems 1 2 by (auto simp: run_checks_def)
  show ?case using snoc.IH [OF 1] run_check_fields [OF 2] unfolding eq by fastforce
qed

text \<open>What a new flow does to the counters and what it reports.\<close>

lemma scan_event_result:
  assumes r: "scan_on_event cfg inven now_us src s d = Some r" and new: "fl_new_flow d" and ok: "scan_ok cfg s"
    and bar: "CHR ''|'' \<notin> set (fl_dst d)"
  shows "\<exists>m. sc_meta (new_state r) = Some m \<and> scan_core cfg (new_state r) m
    \<and> (\<forall>f \<in> set (outs (emitted r)). evidence_count f = sc_n m
        \<and> (\<exists>c \<in> set (scan_checks cfg d (or_zero (map_of (sc_port_hosts (new_state r)) (port_key d)))
                          (or_zero (map_of (sc_host_ports (new_state r)) (fl_dst d)))).
             ck_thr c \<le> ck_count c \<and> subtype f = ck_subtype c \<and> dget (observed f) ''distinct_count'' = JInt (ck_count c)))"
proof -
  let ?m0 = "case sc_meta s of None \<Rightarrow> scan_meta_new d | Some m \<Rightarrow> m"
  obtain s1 m1 ms where e: "enter_pair cfg s ?m0 d = (s1, m1, ms)" by (metis prod_cases3)
  let ?m2 = "note_outcome m1 d"
  let ?cs = "scan_checks cfg d (or_zero (map_of (sc_port_hosts s1) (port_key d))) (or_zero (map_of (sc_host_ports s1) (fl_dst d)))"
  obtain m3 fs where c: "run_checks cfg inven src d (failed_ratio ?m2 d) ?m2 ?cs = (m3, fs)" by fastforce
  have core0: "scan_core cfg s ?m0" using ok scan_core_new by (auto simp: scan_ok_def split: option.splits)
  have core1: "scan_core cfg s1 m1" by (rule enter_pair_core [OF core0 bar e])
  obtain lf due feat where "map_option (\<lambda>es. \<lparr>new_state = s1\<lparr>sc_meta := Some (m3\<lparr>sc_last_feature := lf\<rparr>)\<rparr>, emitted = map Out fs @ es,
       timers = [bucket_up (obs_ms d) EXPIRY_STEP_MS], metrics = ms\<rparr>) (emit_feature due feat) = Some r"
    using r new e c by (simp add: scan_on_event_def Let_def split: prod.splits if_split_asm)
  then obtain es where r': "new_state r = s1\<lparr>sc_meta := Some (m3\<lparr>sc_last_feature := lf\<rparr>)\<rparr>" "emitted r = map Out fs @ es" "outs es = []"
    by (auto simp: outs_emit_feature)
  have f: "sc_n m3 = sc_n m1" "sc_ports m3 = sc_ports m1" "sc_hosts m3 = sc_hosts m1" using run_checks_fields [OF c] by simp_all
  have core3: "scan_core cfg s1 (m3\<lparr>sc_last_feature := lf\<rparr>)" using core1 by (simp add: scan_core_def f)
  show ?thesis using core3 run_checks_fields [OF c] r' f by (intro exI [of _ "m3\<lparr>sc_last_feature := lf\<rparr>"]) auto
qed

lemma scan_event_ok:
  assumes "scan_on_event cfg inven now_us src s d = Some r" and "scan_ok cfg s" and "CHR ''|'' \<notin> set (fl_dst d)"
  shows "scan_ok cfg (new_state r)"
proof (cases "fl_new_flow d")
  case True
  then show ?thesis using scan_event_result [OF assms(1) True assms(2,3)] by (auto simp: scan_ok_def)
next
  case False
  then show ?thesis using assms by (auto simp: scan_on_event_def)
qed

lemma expire_pairs_core:
  assumes "scan_core cfg s m" and "set ks \<subseteq> fst ` set (sc_pairs s)" and "distinct ks" and "foldl expire_pair (s, m) ks = (s', m')"
  shows "scan_core cfg s' m' \<and> sc_pairs s' = filter (\<lambda>p. fst p \<notin> set ks) (sc_pairs s)"
  using assms
proof (induction ks arbitrary: s m)
  case Nil
  then show ?case by simp
next
  case (Cons k ks)
  obtain s1 m1 where e: "expire_pair (s, m) k = (s1, m1)" by fastforce
  have 1: "scan_core cfg s1 m1" "sc_pairs s1 = od_del k (sc_pairs s)"
    using expire_pair_core [OF Cons.prems(1) _ e] Cons.prems(2) by auto
  have sub: "set ks \<subseteq> fst ` set (sc_pairs s1)" using Cons.prems(2,3) by (force simp: 1(2) set_od_del)
  show ?case using Cons.IH [OF 1(1) sub] Cons.prems(3,4) e by (simp add: 1(2) od_del_def conj_commute cong: filter_cong)
qed

text \<open>The timer keeps exactly the pairs seen since the horizon, or clears everything.\<close>

lemma scan_timer_result:
  assumes r: "scan_on_timer cfg src s ts = Some r" and ok: "scan_ok cfg s"
  defines "live \<equiv> filter (\<lambda>(k, seen). ts - scan_horizon_ms cfg \<le> seen) (sc_pairs s)"
  shows "scan_ok cfg (new_state r) \<and> emitted r = [] \<and> sc_pairs (new_state r) = live
    \<and> (live = [] \<longrightarrow> new_state r = scan_empty \<and> timers r = []) \<and> (live \<noteq> [] \<longrightarrow> timers r = [ts + EXPIRY_STEP_MS])"
proof (cases "sc_meta s")
  case None
  then have "s = scan_empty" using ok by (simp add: scan_ok_def)
  then show ?thesis using r ok None by (auto simp: scan_on_timer_def live_def scan_empty_def)
next
  case (Some m)
  let ?ks = "expired_pairs (ts - scan_horizon_ms cfg) s"
  have core: "scan_core cfg s m" using ok Some by (simp add: scan_ok_def)
  have d: "distinct (map fst (sc_pairs s))" using core by (simp add: scan_core_def)
  obtain s1 m1 where f: "foldl expire_pair (s, m) ?ks = (s1, m1)" by fastforce
  have ks: "set ?ks \<subseteq> fst ` set (sc_pairs s)" "distinct ?ks" using d by (auto simp: expired_pairs_def distinct_map_filter)
  have "filter (\<lambda>p. fst p \<notin> set ?ks) (sc_pairs s) = live"
    unfolding live_def by (rule filter_cong) (use d in \<open>auto simp: expired_pairs_def dest: eq_key_imp_eq_value\<close>)
  then have c1: "scan_core cfg s1 m1" "sc_pairs s1 = live"
    using expire_pairs_core [OF core ks f] by simp_all
  then have n: "sc_n m1 = int (length live)" by (simp add: scan_core_def)
  show ?thesis
  proof (cases "live = []")
    case True
    then show ?thesis using r Some f n by (auto simp: scan_on_timer_def scan_ok_def scan_empty_def)
  next
    case False
    then have "\<not> sc_n m1 \<le> 0" by (simp add: n)
    then show ?thesis using r Some f c1 False by (auto simp: scan_on_timer_def scan_ok_def scan_core_def)
  qed
qed

section \<open>Properties\<close>

datatype scan_input = Delta flow_delta | Tick int

fun scan_run :: "detect_config \<Rightarrow> inventory \<Rightarrow> int \<Rightarrow> string \<Rightarrow> scan_state \<Rightarrow> scan_input list \<Rightarrow> scan_state option" where
  "scan_run cfg inven now_us src s [] = Some s"
| "scan_run cfg inven now_us src s (Delta d # is) =
     (case scan_on_event cfg inven now_us src s d of None \<Rightarrow> None | Some r \<Rightarrow> scan_run cfg inven now_us src (new_state r) is)"
| "scan_run cfg inven now_us src s (Tick ts # is) =
     (case scan_on_timer cfg src s ts of None \<Rightarrow> None | Some r \<Rightarrow> scan_run cfg inven now_us src (new_state r) is)"

definition plain_dst :: "scan_input \<Rightarrow> bool" where
  "plain_dst i = (case i of Delta d \<Rightarrow> CHR ''|'' \<notin> set (fl_dst d) | Tick _ \<Rightarrow> True)"

lemma scan_run_ok:
  "scan_run cfg inven now_us src s is = Some s' \<Longrightarrow> scan_ok cfg s \<Longrightarrow> list_all plain_dst is \<Longrightarrow> scan_ok cfg s'"
proof (induction "is" arbitrary: s)
  case (Cons i "is")
  then show ?case
    by (cases i) (auto simp: plain_dst_def dest!: scan_event_ok scan_timer_result split: option.splits)
qed simp

lemma scan_ok_empty: "scan_ok cfg scan_empty"
  by (simp add: scan_ok_def scan_empty_def)

lemma tally_ok_keys:
  assumes t: "tally_ok ks (mp, n)"
  shows "n = int (card (set ks))"
proof -
  have "fst ` set mp = set ks"
  proof (intro set_eqI)
    fix k
    have "k \<in> fst ` set mp \<longleftrightarrow> map_of mp k \<noteq> None" by (simp add: map_of_eq_None_iff)
    also have "\<dots> \<longleftrightarrow> k \<in> set ks" using t count_list_0_iff [of ks k] by (auto simp: tally_ok_def)
    finally show "k \<in> fst ` set mp \<longleftrightarrow> k \<in> set ks" .
  qed
  then show ?thesis using t distinct_card [of "map fst mp"] by (simp add: tally_ok_def)
qed

lemma scan_core_exact:
  assumes "scan_core cfg s m"
  shows "sc_n m = int (length (sc_pairs s)) \<and> sc_n m \<le> max 0 (scan_pair_cap cfg)
    \<and> (\<forall>k. or_zero (map_of (sc_port_hosts s) k) = int (count_list (on_port (sc_pairs s)) k))
    \<and> (\<forall>k. or_zero (map_of (sc_host_ports s) k) = int (count_list (on_host (sc_pairs s)) k))
    \<and> sc_ports m = int (card (set (on_port (sc_pairs s)))) \<and> sc_hosts m = int (card (set (on_host (sc_pairs s))))"
  using assms tally_ok_keys [of "on_port (sc_pairs s)" "sc_port_hosts s" "sc_ports m"]
    tally_ok_keys [of "on_host (sc_pairs s)" "sc_host_ports s" "sc_hosts m"] tally_get [of _ "(sc_port_hosts s, sc_ports m)"] tally_get [of _ "(sc_host_ports s, sc_hosts m)"]
  unfolding scan_core_def by simp

text \<open>
  C28: After any sequence of flows and timers of a source the running counters are exact and bounded:
  the pair count is the number of stored pairs and within the cap, each port's host count and each host's
  port count is the number of pairs with it, and the distinct ports and hosts are the tallied ones.
\<close>

theorem scan_counters_exact:
  assumes "scan_run cfg inven now_us src scan_empty is = Some s" and "list_all plain_dst is" and "sc_meta s = Some m"
  shows "sc_n m = int (length (sc_pairs s)) \<and> sc_n m \<le> max 0 (scan_pair_cap cfg)
    \<and> (\<forall>k. or_zero (map_of (sc_port_hosts s) k) = int (count_list (on_port (sc_pairs s)) k))
    \<and> (\<forall>k. or_zero (map_of (sc_host_ports s) k) = int (count_list (on_host (sc_pairs s)) k))
    \<and> sc_ports m = int (card (set (on_port (sc_pairs s)))) \<and> sc_hosts m = int (card (set (on_host (sc_pairs s))))"
  by (rule scan_core_exact) (use scan_run_ok [OF assms(1) scan_ok_empty assms(2)] assms(3) in \<open>simp add: scan_ok_def\<close>)

text \<open>
  Every scan finding states the true number: the distinct count it reports is at least its threshold
  and equals the number of stored pairs on that port (horizontal) or on that host (vertical), and its
  evidence count is the number of pairs of the source.
\<close>

theorem scan_findings_exact:
  assumes "scan_on_event cfg inven now_us src s d = Some r" and "fl_new_flow d" and "scan_ok cfg s"
    and "CHR ''|'' \<notin> set (fl_dst d)" and "f \<in> set (outs (emitted r))"
  shows "evidence_count f = int (length (sc_pairs (new_state r)))
    \<and> ((subtype f = ''horizontal_scan'' \<and> scan_host_threshold cfg \<le> int (count_list (on_port (sc_pairs (new_state r))) (port_key d))
         \<and> dget (observed f) ''distinct_count'' = JInt (int (count_list (on_port (sc_pairs (new_state r))) (port_key d))))
     \<or> (subtype f = ''vertical_scan'' \<and> scan_port_threshold cfg \<le> int (count_list (on_host (sc_pairs (new_state r))) (fl_dst d))
         \<and> dget (observed f) ''distinct_count'' = JInt (int (count_list (on_host (sc_pairs (new_state r))) (fl_dst d)))))"
proof -
  obtain m where m: "scan_core cfg (new_state r) m"
    "\<forall>f \<in> set (outs (emitted r)). evidence_count f = sc_n m
        \<and> (\<exists>c \<in> set (scan_checks cfg d (or_zero (map_of (sc_port_hosts (new_state r)) (port_key d)))
                          (or_zero (map_of (sc_host_ports (new_state r)) (fl_dst d)))).
             ck_thr c \<le> ck_count c \<and> subtype f = ck_subtype c \<and> dget (observed f) ''distinct_count'' = JInt (ck_count c))"
    using scan_event_result [OF assms(1-4)] by blast
  have g: "or_zero (map_of (sc_port_hosts (new_state r)) k) = int (count_list (on_port (sc_pairs (new_state r))) k)"
    "or_zero (map_of (sc_host_ports (new_state r)) k) = int (count_list (on_host (sc_pairs (new_state r))) k)" for k
    using m(1) tally_get [of _ "(sc_port_hosts (new_state r), sc_ports m)"] tally_get [of _ "(sc_host_ports (new_state r), sc_hosts m)"]
    unfolding scan_core_def by simp_all
  have n: "sc_n m = int (length (sc_pairs (new_state r)))" using m(1) by (simp add: scan_core_def)
  show ?thesis using m(2) assms(5) unfolding g n scan_checks_def by fastforce
qed

lemma demo_scan_run:
  "\<exists>s m. scan_run default_config no_inventory 0 ''10.0.0.1'' scan_empty
     [Delta (demo_flow ''10.0.0.2'' 80 1000), Delta (demo_flow ''10.0.0.3'' 80 2000)] = Some s \<and> sc_meta s = Some m"
  by (simp add: scan_on_event_def Let_def scan_empty_def enter_pair_def tally_incr_def run_checks_def scan_checks_def run_check_def
      demo_flow_def emit_feature_def pair_key_def port_key_def port_text_def or_zero_def note_outcome_def scan_meta_new_def)

theorem scan_counters_exact_witness:
  "\<exists>s m. scan_run default_config no_inventory 0 ''10.0.0.1'' scan_empty
     [Delta (demo_flow ''10.0.0.2'' 80 1000), Delta (demo_flow ''10.0.0.3'' 80 2000)] = Some s
   \<and> sc_meta s = Some m \<and> sc_n m = int (length (sc_pairs s))"
proof -
  obtain s m where r: "scan_run default_config no_inventory 0 ''10.0.0.1'' scan_empty
     [Delta (demo_flow ''10.0.0.2'' 80 1000), Delta (demo_flow ''10.0.0.3'' 80 2000)] = Some s" "sc_meta s = Some m"
    using demo_scan_run by blast
  have "sc_n m = int (length (sc_pairs s))"
    by (rule scan_counters_exact [OF r(1) _ r(2), THEN conjunct1]) (simp add: plain_dst_def demo_flow_def)
  then show ?thesis using r by blast
qed

lemma demo_scan_event:
  "\<exists>r f. scan_on_event (default_config\<lparr>scan_host_threshold := 1\<rparr>) no_inventory 0 ''10.0.0.1'' scan_empty (demo_flow ''10.0.0.2'' 80 40000)
     = Some r \<and> f \<in> set (outs (emitted r))"
  using format_us_Some [of 10000000] format_us_Some [of 40000000] format_us_Some [of 0]
  by (auto simp: scan_on_event_def Let_def scan_empty_def enter_pair_def tally_incr_def run_checks_def scan_checks_def run_check_def
      demo_flow_def emit_feature_def pair_key_def port_key_def port_text_def note_outcome_def scan_meta_new_def scan_feature_def
      rate_limited_def alookup_def feature_record_def format_ms_def)

theorem scan_findings_exact_witness:
  "\<exists>r f. scan_on_event (default_config\<lparr>scan_host_threshold := 1\<rparr>) no_inventory 0 ''10.0.0.1'' scan_empty (demo_flow ''10.0.0.2'' 80 40000)
     = Some r \<and> f \<in> set (outs (emitted r)) \<and> evidence_count f = int (length (sc_pairs (new_state r)))"
proof -
  obtain r f where r: "scan_on_event (default_config\<lparr>scan_host_threshold := 1\<rparr>) no_inventory 0 ''10.0.0.1'' scan_empty
      (demo_flow ''10.0.0.2'' 80 40000) = Some r" "f \<in> set (outs (emitted r))"
    using demo_scan_event by blast
  have "evidence_count f = int (length (sc_pairs (new_state r)))"
    by (rule scan_findings_exact [OF r(1) _ scan_ok_empty _ r(2), THEN conjunct1]) (simp_all add: demo_flow_def)
  then show ?thesis using r by blast
qed

text \<open>The timers one source keeps registering while it stays silent.\<close>

fun timer_chain :: "detect_config \<Rightarrow> string \<Rightarrow> nat \<Rightarrow> int \<Rightarrow> scan_state \<Rightarrow> scan_state option" where
  "timer_chain cfg src 0 ts s = Some s"
| "timer_chain cfg src (Suc n) ts s =
     (case scan_on_timer cfg src s ts of None \<Rightarrow> None
      | Some r \<Rightarrow> (case timers r of [] \<Rightarrow> Some (new_state r) | t # _ \<Rightarrow> timer_chain cfg src n t (new_state r)))"

lemma scan_on_timer_total: "\<exists>r. scan_on_timer cfg src s ts = Some r"
  by (auto simp: scan_on_timer_def split: option.splits prod.splits)

text \<open>
  The state of a source that falls silent is removed: once its timer is due it fires again every five
  seconds, and by the first firing later than the last pair plus the horizon nothing of it is left.
\<close>

theorem scan_state_expires:
  assumes "scan_ok cfg s" and "\<forall>(k, seen) \<in> set (sc_pairs s). seen \<le> latest"
    and "latest + scan_horizon_ms cfg < ts + EXPIRY_STEP_MS * int n"
  shows "timer_chain cfg src (Suc n) ts s = Some scan_empty"
  using assms
proof (induction n arbitrary: ts s)
  case (0 ts s)
  obtain r where r: "scan_on_timer cfg src s ts = Some r" using scan_on_timer_total by blast
  have "filter (\<lambda>(k, seen). ts - scan_horizon_ms cfg \<le> seen) (sc_pairs s) = []"
    using 0 by (fastforce simp: filter_empty_conv)
  then show ?case using scan_timer_result [OF r 0(1)] r by simp
next
  case (Suc n ts s)
  obtain r where r: "scan_on_timer cfg src s ts = Some r" using scan_on_timer_total by blast
  let ?live = "filter (\<lambda>(k, seen). ts - scan_horizon_ms cfg \<le> seen) (sc_pairs s)"
  note res = scan_timer_result [OF r Suc.prems(1)]
  show ?case
  proof (cases "?live = []")
    case True
    then show ?thesis using res r by simp
  next
    case False
    have "timer_chain cfg src (Suc n) (ts + EXPIRY_STEP_MS) (new_state r) = Some scan_empty"
      by (rule Suc.IH) (use res Suc.prems in \<open>auto simp: algebra_simps\<close>)
    then show ?thesis using res r False by simp
  qed
qed

theorem scan_state_expires_witness:
  "\<exists>s. scan_run default_config no_inventory 0 ''10.0.0.1'' scan_empty [Delta (demo_flow ''10.0.0.2'' 80 1000)] = Some s
     \<and> s \<noteq> scan_empty \<and> timer_chain default_config ''10.0.0.1'' (Suc 6) 5000 s = Some scan_empty"
proof -
  have "\<exists>s. scan_run default_config no_inventory 0 ''10.0.0.1'' scan_empty [Delta (demo_flow ''10.0.0.2'' 80 1000)] = Some s
     \<and> s \<noteq> scan_empty \<and> (\<forall>(k, seen) \<in> set (sc_pairs s). seen \<le> 1000)"
    by (simp add: scan_on_event_def Let_def scan_empty_def enter_pair_def tally_incr_def run_checks_def scan_checks_def run_check_def
      demo_flow_def emit_feature_def pair_key_def port_key_def port_text_def or_zero_def note_outcome_def scan_meta_new_def)
  then obtain s where s: "scan_run default_config no_inventory 0 ''10.0.0.1'' scan_empty [Delta (demo_flow ''10.0.0.2'' 80 1000)] = Some s"
    "s \<noteq> scan_empty" "\<forall>(k, seen) \<in> set (sc_pairs s). seen \<le> 1000" by blast
  have ok: "scan_ok default_config s"
    by (rule scan_run_ok [OF s(1) scan_ok_empty]) (simp add: plain_dst_def demo_flow_def)
  have "timer_chain default_config ''10.0.0.1'' (Suc 6) 5000 s = Some scan_empty"
    by (rule scan_state_expires [OF ok s(3)]) (simp add: EXPIRY_STEP_MS_def)
  then show ?thesis using s by blast
qed

section \<open>In the harness\<close>

definition scan_deadline :: "detect_config \<Rightarrow> scan_state \<Rightarrow> int" where
  "scan_deadline cfg s = Max (insert 0 (snd ` set (sc_pairs s))) + scan_horizon_ms cfg"

lemma scan_timer_later:
  assumes "scan_on_timer cfg src s ts = Some r" and "scan_ok cfg s" and "t \<in> set (timers r)"
  shows "ts < t \<and> ts \<le> scan_deadline cfg s"
proof -
  note res = scan_timer_result [OF assms(1,2)]
  let ?live = "filter (\<lambda>(k, seen). ts - scan_horizon_ms cfg \<le> seen) (sc_pairs s)"
  have live: "?live \<noteq> []" "t = ts + EXPIRY_STEP_MS" using res assms(3) by (auto split: if_splits)
  then obtain k seen where "(k, seen) \<in> set (sc_pairs s)" "ts - scan_horizon_ms cfg \<le> seen" by (auto simp: filter_empty_conv)
  moreover from this have "seen \<le> Max (insert 0 (snd ` set (sc_pairs s)))" by (force intro: Max_ge)
  ultimately show ?thesis using live(2) by (simp add: scan_deadline_def EXPIRY_STEP_MS_def)
qed

lemma scan_deadline_kept:
  assumes "scan_on_timer cfg src s ts = Some r" and "scan_ok cfg s"
  shows "scan_deadline cfg (new_state r) \<le> scan_deadline cfg s"
proof -
  have "set (sc_pairs (new_state r)) \<subseteq> set (sc_pairs s)" using scan_timer_result [OF assms] by auto
  then show ?thesis unfolding scan_deadline_def by (intro add_right_mono Max_mono) auto
qed

definition plain_delta :: "flow_delta \<Rightarrow> bool" where
  "plain_delta d \<longleftrightarrow> CHR ''|'' \<notin> set (fl_dst d)"

interpretation scan_logic: keyed_logic "scan_on_event cfg inven" "\<lambda>_. scan_on_timer cfg" scan_empty "scan_ok cfg" plain_delta "scan_deadline cfg"
  for cfg inven
  by unfold_locales
    (auto simp: scan_ok_empty plain_delta_def intro: scan_event_ok scan_deadline_kept dest: scan_timer_result scan_timer_later)

text \<open>
  C20: The harness over the scan detector always ends: whatever flows of whatever sources are fed, and however
  far the watermark is advanced then, the loop of timers that re-arm themselves stops. The counters of
  every source are then exact: its pairs, and the distinct ports and hosts among them.
\<close>

theorem scan_harness_ends:
  assumes "\<forall>(now_us, src, d, ts) \<in> set es. plain_delta d"
  shows "\<exists>x. feed_all py_repr (scan_on_event cfg inven) (\<lambda>_. scan_on_timer cfg) ooo es (harness_init scan_empty) = Some x
    \<and> (\<forall>h calls. x = Some (h, calls) \<longrightarrow> (\<forall>now_us w. \<exists>y. advance py_repr (\<lambda>_. scan_on_timer cfg) now_us w h = Some y)
        \<and> (\<forall>src m. sc_meta (hs_states h src) = Some m \<longrightarrow> sc_n m = int (length (sc_pairs (hs_states h src)))
             \<and> sc_ports m = int (card (set (on_port (sc_pairs (hs_states h src)))))
             \<and> sc_hosts m = int (card (set (on_host (sc_pairs (hs_states h src)))))))"
proof -
  obtain x where x: "feed_all py_repr (scan_on_event cfg inven) (\<lambda>_. scan_on_timer cfg) ooo es (harness_init scan_empty) = Some x"
    "\<And>h calls. x = Some (h, calls) \<Longrightarrow> scan_logic.states_ok cfg h \<and> (\<forall>n w. \<exists>y. advance py_repr (\<lambda>_. scan_on_timer cfg) n w h = Some y)"
    using scan_logic.harness_run [OF assms, of py_repr cfg inven ooo] by blast
  have core: "scan_core cfg (hs_states h src) m" if "x = Some (h, calls)" "sc_meta (hs_states h src) = Some m" for h calls src m
    using x(2) [OF that(1)] that(2) by (auto simp: scan_logic.states_ok_def scan_ok_def split: option.splits)
  have exact: "sc_n m = int (length (sc_pairs (hs_states h src))) \<and> sc_ports m = int (card (set (on_port (sc_pairs (hs_states h src)))))
      \<and> sc_hosts m = int (card (set (on_host (sc_pairs (hs_states h src)))))"
    if "x = Some (h, calls)" "sc_meta (hs_states h src) = Some m" for h calls src m
    using scan_core_exact [OF core [OF that]] by blast
  have "(\<forall>now_us w. \<exists>y. advance py_repr (\<lambda>_. scan_on_timer cfg) now_us w h = Some y)
        \<and> (\<forall>src m. sc_meta (hs_states h src) = Some m \<longrightarrow> sc_n m = int (length (sc_pairs (hs_states h src)))
             \<and> sc_ports m = int (card (set (on_port (sc_pairs (hs_states h src)))))
             \<and> sc_hosts m = int (card (set (on_host (sc_pairs (hs_states h src))))))" if "x = Some (h, calls)" for h calls
    using x(2) [OF that, THEN conjunct2] exact [OF that] by simp
  then show ?thesis using x(1) by blast
qed

theorem scan_harness_ends_witness:
  "\<exists>x. feed_all id (scan_on_event default_config no_inventory) (\<lambda>_. scan_on_timer default_config) 2000
     [(0, ''10.0.0.1'', demo_flow ''10.0.0.2'' 80 1000, 1000)] (harness_init scan_empty) = Some x"
  using scan_harness_ends [of "[(0, ''10.0.0.1'', demo_flow ''10.0.0.2'' 80 1000, 1000)]" id default_config no_inventory 2000]
  by (auto simp: plain_delta_def demo_flow_def)

end
