(* ===== verification/Exfil.thy ===== *)
theory Exfil
  imports FlowDelta
begin

text \<open>
  The exfiltration detector (\<^verbatim>\<open>flink/sih_detect/exfil.py\<close>), keyed by local source host: a sliding
  window of outbound records, a baseline of whole windows, and the destinations seen. The theorems bound
  the state and show that a finding's volume, span and record count are those of the stored window.
\<close>

section \<open>State\<close>

definition EXFIL_VERSION :: string where "EXFIL_VERSION = ''exfil-1.0.0''"
definition EXFIL_FSV :: string where "EXFIL_FSV = ''exfil_features-1.0.0''"
definition MAX_RECORDS :: nat where "MAX_RECORDS = 2048"

record exfil_rec =
  r_time :: int
  r_out :: int
  r_in :: "int option"
  r_dst :: string

record exfil_x =
  x_recs :: "exfil_rec list"
  x_base :: ewma
  x_win :: "int option"
  x_win_bytes :: int
  x_win_anomalous :: bool
  x_first :: ev_min
  x_last :: ev_min
  x_ids :: "string list"
  x_rank :: int
  x_emitted_bytes :: int
  x_ndst :: int
  x_last_feature :: "int option"

record exfil_state =
  ex_x :: "exfil_x option"
  ex_dsts :: "(string \<times> int) list"

definition exfil_empty :: exfil_state where
  "exfil_empty = \<lparr>ex_x = None, ex_dsts = []\<rparr>"

definition exfil_new :: "flow_delta \<Rightarrow> exfil_x" where
  "exfil_new d = \<lparr>x_recs = [], x_base = ewma_new, x_win = None, x_win_bytes = 0, x_win_anomalous = False, x_first = ev_min d,
     x_last = ev_min d, x_ids = [], x_rank = - 1, x_emitted_bytes = 0, x_ndst = 0, x_last_feature = None\<rparr>"

definition eligible :: "inventory \<Rightarrow> flow_delta \<Rightarrow> bool" where
  "eligible inven d \<longleftrightarrow> is_local inven (Some (fl_src d)) \<and> \<not> is_local inven (Some (fl_dst d))
     \<and> \<not> known_bulk inven (fl_src d) (fl_dst d) \<and> or_zero (fl_d d OrigBytes) > 0"

section \<open>The window\<close>

text \<open>Closing a window: an ordinary one feeds the baseline, an anomalous one does not.\<close>

definition roll_window :: "int \<Rightarrow> exfil_x \<Rightarrow> exfil_x" where
  "roll_window win x =
     (let x1 = (case x_win x of
           Some w \<Rightarrow> if win \<noteq> w
             then x\<lparr>x_base := (if x_win_anomalous x then x_base x else ewma_update (1 / 10) (of_int (x_win_bytes x)) (x_base x)),
                    x_win_bytes := 0, x_win_anomalous := False\<rparr>
             else x
         | None \<Rightarrow> x)
      in x1\<lparr>x_win := Some win\<rparr>)"

definition add_record :: "detect_config \<Rightarrow> flow_delta \<Rightarrow> int \<Rightarrow> exfil_x \<Rightarrow> exfil_x" where
  "add_record cfg d out_b x =
     (let now = obs_ms d;
          in_b = (if fl_coverage d = ''both_directions'' then fl_d d RespBytes else None);
          recs = x_recs x @ [\<lparr>r_time = now, r_out = out_b, r_in = in_b, r_dst = fl_dst d\<rparr>];
          cutoff = now - exfil_window_ms cfg
      in x\<lparr>x_recs := last_n MAX_RECORDS (filter (\<lambda>r. r_time r \<ge> cutoff) recs), x_win_bytes := x_win_bytes x + out_b\<rparr>)"

definition is_new_dst :: "exfil_state \<Rightarrow> flow_delta \<Rightarrow> bool" where
  "is_new_dst s d \<longleftrightarrow> map_of (ex_dsts s) (fl_dst d) = None"

definition enter_record :: "detect_config \<Rightarrow> exfil_state \<Rightarrow> flow_delta \<Rightarrow> int \<Rightarrow> exfil_x \<times> (string \<times> int) list" where
  "enter_record cfg s d out_b =
     (let x0 = (case ex_x s of None \<Rightarrow> exfil_new d | Some x \<Rightarrow> x);
          x1 = add_record cfg d out_b (roll_window (obs_ms d div exfil_window_ms cfg) x0);
          fresh = is_new_dst s d \<and> x_ndst x1 < exfil_dst_cap cfg
      in (x1\<lparr>x_ndst := (if fresh then x_ndst x1 + 1 else x_ndst x1), x_ids := append_ids (x_ids x1) (fl_event_id d),
            x_last := ev_min d\<rparr>,
          if fresh then od_set (fl_dst d) (obs_ms d) (ex_dsts s) else ex_dsts s))"

definition out_sum :: "exfil_rec list \<Rightarrow> int" where
  "out_sum rs = sum_list (map r_out rs)"

definition in_sum :: "exfil_rec list \<Rightarrow> int option" where
  "in_sum rs = map_option sum_list (those (map r_in rs))"

definition span_ms :: "exfil_rec list \<Rightarrow> int" where
  "span_ms rs = r_time (last rs) - r_time (hd rs)"

definition warm :: "exfil_x \<Rightarrow> bool" where
  "warm x = (ew_n (x_base x) \<ge> 6)"

text \<open>\<^verbatim>\<open>max(min_bytes, k * mean)\<close> keeps the integer unless the baseline is larger.\<close>

definition threshold :: "detect_config \<Rightarrow> exfil_x \<Rightarrow> real" where
  "threshold cfg x = (if warm x then max (of_int (exfil_min_bytes cfg)) (exfil_baseline_k cfg * ew_mean (x_base x))
     else of_int (exfil_min_bytes cfg))"

definition threshold_json :: "detect_config \<Rightarrow> exfil_x \<Rightarrow> json" where
  "threshold_json cfg x = (if threshold cfg x = of_int (exfil_min_bytes cfg) then JInt (exfil_min_bytes cfg) else JReal (threshold cfg x))"

definition out_in_ratio :: "exfil_rec list \<Rightarrow> real option" where
  "out_in_ratio rs = (case in_sum rs of None \<Rightarrow> None | Some i \<Rightarrow> if i = 0 then None else Some (of_int (out_sum rs) / of_int i))"

section \<open>Reporting\<close>

definition sustained :: "detect_config \<Rightarrow> exfil_x \<Rightarrow> bool" where
  "sustained cfg x \<longleftrightarrow> of_int (out_sum (x_recs x)) \<ge> threshold cfg x \<and> span_ms (x_recs x) \<ge> exfil_min_span_ms cfg
     \<and> int (length (x_recs x)) \<ge> exfil_min_records cfg"

definition exfil_severity :: "detect_config \<Rightarrow> exfil_x \<Rightarrow> bool \<Rightarrow> string" where
  "exfil_severity cfg x new_dst = (let o' = of_int (out_sum (x_recs x)); thr = threshold cfg x in
     if o' \<ge> 5 * thr \<or> (new_dst \<and> o' \<ge> 2 * thr) then ''high'' else ''medium'')"

definition exfil_explanation :: "detect_config \<Rightarrow> string \<Rightarrow> exfil_x \<Rightarrow> bool \<Rightarrow> string \<Rightarrow> string" where
  "exfil_explanation cfg src x new_dst dst =
     ''Local host '' @ src @ '' sent '' @ fmt_fixed 1 (of_int (out_sum (x_recs x)) / 1000000) @ '' MB to external destinations over ''
     @ fmt_fixed 0 (of_int (span_ms (x_recs x)) / 1000) @ ''s (threshold '' @ fmt_fixed 1 (threshold cfg x / 1000000) @ '' MB per ''
     @ str_of_int (exfil_window_ms cfg div 1000) @ ''s window''
     @ (if warm x then '', learned baseline'' else '', baseline still warming up'') @ ''). ''
     @ (if new_dst then ''First transfer to '' @ dst @ '' seen from this host.'' else [])"

definition exfil_finding :: "detect_config \<Rightarrow> string \<Rightarrow> flow_delta \<Rightarrow> exfil_x \<Rightarrow> bool \<Rightarrow> finding" where
  "exfil_finding cfg src d x new_dst =
     (let rs = x_recs x; o' = out_sum rs; span = of_int (span_ms rs) / 1000 :: real; rate = of_int o' / max 1 span;
          i = in_sum rs; ratio = out_in_ratio rs
      in finding (no_args\<lparr>
        a_detector := ''exfil'', a_threat_class := ''exfiltration'', a_subtype := ''sustained_upload'', a_entity_type := ''src_host'',
        a_entity_key := src, a_severity := exfil_severity cfg x new_dst,
        a_score := Some (min 1 (1 / 2 + 1 / 10 * of_int o' / threshold cfg x)),
        a_method := (if warm x then ''statistical'' else ''rule''), a_detector_version := EXFIL_VERSION,
        a_feature_schema_version := EXFIL_FSV, a_first := x_first x, a_last := x_last x,
        a_window_start_ms := r_time (hd rs), a_window_end_ms := obs_ms d,
        a_observed := [(''outbound_bytes_window'', JInt o'), (''outbound_rate_bps'', JReal (rate * 8)), (''span_s'', JReal span),
           (''records'', JInt (int (length rs))), (''inbound_bytes_window'', of_opt_int i), (''out_in_ratio'', of_opt_real ratio),
           (''new_destination'', JBool new_dst), (''destination'', JStr (fl_dst d))],
        a_thresholds := [(''min_bytes_window'', threshold_json cfg x), (''min_span_s'', JReal (of_int (exfil_min_span_ms cfg) / 1000)),
           (''window_s'', JReal (of_int (exfil_window_ms cfg) / 1000))],
        a_baseline := [(''window_bytes_mean'', if warm x then JReal (ew_mean (x_base x)) else JNull),
           (''window_bytes_std'', if warm x then JReal (ewma_std (x_base x)) else JNull)],
        a_unavailable := (if i = None then [''inbound_bytes_window''] else []) @ (if ratio = None then [''out_in_ratio''] else []),
        a_coverage := fl_coverage d, a_src_ip := Some src, a_dst_ip := Some (fl_dst d), a_dst_port := fl_dport d,
        a_protocol := Some (fl_proto d), a_flow_id := Some (fl_flow_id d), a_raw_event_ids := x_ids x,
        a_evidence_count := int (length rs),
        a_top_features := [(''outbound_bytes_window'', JInt o', JNull, JStr ''B''), (''span_s'', JReal span, JNull, JStr ''s''),
           (''out_in_ratio'', of_opt_real ratio, JNull, JStr ''ratio'')],
        a_explanation := exfil_explanation cfg src x new_dst (fl_dst d)\<rparr>))"

text \<open>Marking the window and reporting when the rank rises or the volume doubles.\<close>

definition exfil_report :: "detect_config \<Rightarrow> string \<Rightarrow> flow_delta \<Rightarrow> exfil_x \<Rightarrow> bool \<Rightarrow> exfil_x \<times> finding list" where
  "exfil_report cfg src d x new_dst =
     (if sustained cfg x
      then (let x1 = x\<lparr>x_win_anomalous := True\<rparr>; rank = SEVERITY_RANK (exfil_severity cfg x new_dst); o' = out_sum (x_recs x)
            in if rank > x_rank x \<or> o' \<ge> 2 * max 1 (x_emitted_bytes x)
               then (let x2 = x1\<lparr>x_rank := max rank (x_rank x), x_emitted_bytes := o'\<rparr> in (x2, [exfil_finding cfg src d x2 new_dst]))
               else (x1, []))
      else (x, []))"

definition exfil_feature :: "int \<Rightarrow> string \<Rightarrow> flow_delta \<Rightarrow> exfil_x \<Rightarrow> dict option" where
  "exfil_feature now_us src d x =
     (let rs = x_recs x in
      feature_record now_us ''exfil'' EXFIL_FSV ''src_host'' src (sensor_id d) (r_time (hd rs)) (obs_ms d)
        [(''outbound_bytes_window'', JInt (out_sum rs)), (''inbound_bytes_window'', of_opt_int (in_sum rs)),
         (''out_in_ratio'', of_opt_real (out_in_ratio rs)), (''span_s'', JReal (of_int (span_ms rs) / 1000)),
         (''records'', JInt (int (length rs))), (''baseline_window_bytes_mean'', if warm x then JReal (ew_mean (x_base x)) else JNull)]
        [(''inbound_bytes_window'', ''UNKNOWN''), (''out_in_ratio'', ''UNKNOWN''), (''baseline_window_bytes_mean'', ''MISSING'')] [])"

section \<open>The handlers\<close>

type_synonym exfil_step = "(exfil_state, finding) step"

text \<open>\<open>None\<close>: an unknown volume (TypeError), a zero window, or a zero threshold when reporting.\<close>

definition exfil_on_event ::
  "detect_config \<Rightarrow> int \<Rightarrow> string \<Rightarrow> exfil_state \<Rightarrow> flow_delta \<Rightarrow> exfil_step option" where
  "exfil_on_event cfg now_us src s d =
     (case fl_d d OrigBytes of None \<Rightarrow> None
      | Some out_b \<Rightarrow>
        if exfil_window_ms cfg = 0 then None
        else
          let new_dst = is_new_dst s d;
              (x1, dsts) = enter_record cfg s d out_b;
              (x2, fs) = exfil_report cfg src d x1 new_dst;
              (due, lf) = (if of_int (out_sum (x_recs x2)) \<ge> threshold cfg x2 / 4
                           then rate_limited (x_last_feature x2) (obs_ms d) (feature_min_interval_ms cfg) else (False, x_last_feature x2));
              x3 = x2\<lparr>x_last_feature := lf\<rparr>
          in if fs \<noteq> [] \<and> threshold cfg x1 = 0 then None
             else map_option (\<lambda>es. \<lparr>new_state = \<lparr>ex_x = Some x3, ex_dsts = dsts\<rparr>, emitted = map Out fs @ es,
                    timers = [bucket_up (obs_ms d + 600000) 60000], metrics = []\<rparr>)
                  (emit_feature due (exfil_feature now_us src d x3)))"

definition exfil_on_timer :: "string \<Rightarrow> exfil_state \<Rightarrow> int \<Rightarrow> exfil_step option" where
  "exfil_on_timer src s ts =
     (case ex_x s of
        Some x \<Rightarrow> if obs_ms (x_last x) + 600000 \<le> ts
          then Some \<lparr>new_state = exfil_empty, emitted = [], timers = [], metrics = []\<rparr>
          else Some \<lparr>new_state = s, emitted = [], timers = [], metrics = []\<rparr>
      | None \<Rightarrow> Some \<lparr>new_state = s, emitted = [], timers = [], metrics = []\<rparr>)"

section \<open>Invariant\<close>

definition exfil_ok :: "detect_config \<Rightarrow> exfil_state \<Rightarrow> bool" where
  "exfil_ok cfg s \<longleftrightarrow> distinct (map fst (ex_dsts s)) \<and> (case ex_x s of None \<Rightarrow> ex_dsts s = []
     | Some x \<Rightarrow> x_recs x \<noteq> [] \<and> length (x_recs x) \<le> MAX_RECORDS \<and> length (x_ids x) \<le> 32
         \<and> (\<forall>r \<in> set (x_recs x). obs_ms (x_last x) - exfil_window_ms cfg \<le> r_time r)
         \<and> x_ndst x = int (length (ex_dsts s)) \<and> x_ndst x \<le> max 0 (exfil_dst_cap cfg)
         \<and> (ew_n (x_base x) = 0 \<or> 0 \<le> ew_mean (x_base x)) \<and> (0 \<le> x_win_bytes x))"

lemma exfil_ok_empty: "exfil_ok cfg exfil_empty"
  by (simp add: exfil_ok_def exfil_empty_def)

lemma roll_window_fields [simp]:
  "x_recs (roll_window w x) = x_recs x" "x_ndst (roll_window w x) = x_ndst x" "x_ids (roll_window w x) = x_ids x"
  "x_last (roll_window w x) = x_last x"
  by (simp_all add: roll_window_def Let_def split: option.splits)

lemma roll_window_base:
  assumes "0 \<le> x_win_bytes x" "ew_n (x_base x) = 0 \<or> 0 \<le> ew_mean (x_base x)"
  shows "0 \<le> x_win_bytes (roll_window w x)" "ew_n (x_base (roll_window w x)) = 0 \<or> 0 \<le> ew_mean (x_base (roll_window w x))"
proof -
  have "0 \<le> ew_mean (ewma_update (1 / 10) (of_int (x_win_bytes x)) (x_base x))"
    using ewma_update_range [of "1 / 10" 0 "of_int (x_win_bytes x)" "max (of_int (x_win_bytes x)) (ew_mean (x_base x))" "x_base x"] assms by auto
  then show "0 \<le> x_win_bytes (roll_window w x)" "ew_n (x_base (roll_window w x)) = 0 \<or> 0 \<le> ew_mean (x_base (roll_window w x))"
    using assms by (auto simp: roll_window_def Let_def split: option.splits)
qed

lemma enter_record_ok:
  assumes "enter_record cfg s d out_b = (x, dsts)" "exfil_ok cfg s" "0 \<le> out_b" "0 \<le> exfil_window_ms cfg"
  shows "exfil_ok cfg \<lparr>ex_x = Some x, ex_dsts = dsts\<rparr> \<and> x_last x = ev_min d"
proof -
  define x0 where "x0 = (case ex_x s of None \<Rightarrow> exfil_new d | Some x \<Rightarrow> x)"
  define x1 where "x1 = add_record cfg d out_b (roll_window (obs_ms d div exfil_window_ms cfg) x0)"
  have x0: "x_ndst x0 = int (length (ex_dsts s))" "x_ndst x0 \<le> max 0 (exfil_dst_cap cfg)" "0 \<le> x_win_bytes x0"
    "ew_n (x_base x0) = 0 \<or> 0 \<le> ew_mean (x_base x0)"
    using assms(2) by (auto simp: x0_def exfil_ok_def exfil_new_def ewma_new_def split: option.splits)
  have dd: "distinct (map fst (ex_dsts s))" using assms(2) by (simp add: exfil_ok_def)
  have recs: "x_recs x1 = last_n MAX_RECORDS (filter (\<lambda>r. r_time r \<ge> obs_ms d - exfil_window_ms cfg) (x_recs x0)
      @ [\<lparr>r_time = obs_ms d, r_out = out_b, r_in = (if fl_coverage d = ''both_directions'' then fl_d d RespBytes else None), r_dst = fl_dst d\<rparr>])"
    using assms(4) by (simp add: x1_def add_record_def Let_def)
  have r1: "x_recs x1 \<noteq> []" "length (x_recs x1) \<le> MAX_RECORDS" "\<forall>r \<in> set (x_recs x1). obs_ms d - exfil_window_ms cfg \<le> r_time r"
    using assms(4) set_last_n [of MAX_RECORDS] unfolding recs by (auto simp: MAX_RECORDS_def last_n_def dest: in_set_dropD)
  have b1: "0 \<le> x_win_bytes x1" "ew_n (x_base x1) = 0 \<or> 0 \<le> ew_mean (x_base x1)" "x_ndst x1 = x_ndst x0"
    using roll_window_base [OF x0(3,4)] assms(3) by (auto simp: x1_def add_record_def Let_def)
  have o: "obs_ms (ev_min d) = obs_ms d" by (simp add: ev_min_def ev_min.truncate_def)
  have fresh: "is_new_dst s d \<Longrightarrow> fl_dst d \<notin> fst ` set (ex_dsts s)" by (simp add: is_new_dst_def map_of_eq_None_iff)
  show ?thesis
    using assms(1) r1 b1 x0 dd fresh unfolding enter_record_def x0_def [symmetric] Let_def x1_def [symmetric]
    by (auto simp: exfil_ok_def o od_set_new)
qed

lemma exfil_report_fields:
  "exfil_report cfg src d x nd = (x', fs) \<Longrightarrow> x_recs x' = x_recs x \<and> x_ndst x' = x_ndst x \<and> x_ids x' = x_ids x
     \<and> x_last x' = x_last x \<and> x_base x' = x_base x \<and> x_win_bytes x' = x_win_bytes x
     \<and> (fs \<noteq> [] \<longrightarrow> sustained cfg x \<and> x_win_anomalous x')"
  by (auto simp: exfil_report_def Let_def split: if_splits)

lemma exfil_finding_fields [simp]:
  "evidence_count (exfil_finding cfg src d x nd) = int (length (x_recs x))"
  "window_end_ms (exfil_finding cfg src d x nd) = obs_ms d"
  "dget (observed (exfil_finding cfg src d x nd)) ''outbound_bytes_window'' = JInt (out_sum (x_recs x))"
  by (simp_all add: exfil_finding_def Let_def no_args_def)

lemma exfil_report_findings:
  "exfil_report cfg src d x nd = (x', fs) \<Longrightarrow> f \<in> set fs \<Longrightarrow> evidence_count f = int (length (x_recs x))
     \<and> window_end_ms f = obs_ms d \<and> dget (observed f) ''outbound_bytes_window'' = JInt (out_sum (x_recs x))"
  by (auto simp: exfil_report_def Let_def split: if_splits)

lemma exfil_ok_cong:
  assumes "exfil_ok cfg \<lparr>ex_x = Some x, ex_dsts = ds\<rparr>" "x_recs x' = x_recs x" "x_ndst x' = x_ndst x" "x_ids x' = x_ids x"
    "x_last x' = x_last x" "x_base x' = x_base x" "x_win_bytes x' = x_win_bytes x"
  shows "exfil_ok cfg \<lparr>ex_x = Some x', ex_dsts = ds\<rparr>"
  using assms by (simp add: exfil_ok_def)

lemma exfil_event_result:
  assumes r: "exfil_on_event cfg now_us src s d = Some r" and ok: "exfil_ok cfg s" and nn: "\<forall>v. fl_d d OrigBytes = Some v \<longrightarrow> 0 \<le> v"
    and w: "0 \<le> exfil_window_ms cfg"
  shows "\<exists>x. ex_x (new_state r) = Some x \<and> exfil_ok cfg (new_state r) \<and> x_last x = ev_min d
    \<and> (outs (emitted r) \<noteq> [] \<longrightarrow> sustained cfg x \<and> x_win_anomalous x)
    \<and> (\<forall>f \<in> set (outs (emitted r)). evidence_count f = int (length (x_recs x)) \<and> window_end_ms f = obs_ms d
        \<and> dget (observed f) ''outbound_bytes_window'' = JInt (out_sum (x_recs x)))"
proof -
  obtain out_b where o: "fl_d d OrigBytes = Some out_b" using r by (auto simp: exfil_on_event_def split: option.splits)
  obtain x1 dsts where e: "enter_record cfg s d out_b = (x1, dsts)" by fastforce
  obtain x2 fs where f: "exfil_report cfg src d x1 (is_new_dst s d) = (x2, fs)" by fastforce
  have "\<exists>x3 es. new_state r = \<lparr>ex_x = Some x3, ex_dsts = dsts\<rparr> \<and> emitted r = map Out fs @ es \<and> outs es = []
      \<and> x3 = x2\<lparr>x_last_feature := x_last_feature x3\<rparr>"
    using r o e f by (auto simp: exfil_on_event_def Let_def outs_emit_feature split: prod.splits if_split_asm)
  then obtain lf es where r': "new_state r = \<lparr>ex_x = Some (x2\<lparr>x_last_feature := lf\<rparr>), ex_dsts = dsts\<rparr>"
    "emitted r = map Out fs @ es" "outs es = []"
    by metis
  have ok1: "exfil_ok cfg \<lparr>ex_x = Some x1, ex_dsts = dsts\<rparr>" "x_last x1 = ev_min d"
    using enter_record_ok [OF e ok _ w] nn o by simp_all
  note fld = exfil_report_fields [OF f]
  have ok2: "exfil_ok cfg \<lparr>ex_x = Some (x2\<lparr>x_last_feature := lf\<rparr>), ex_dsts = dsts\<rparr>"
    by (rule exfil_ok_cong [OF ok1(1)]) (simp_all add: fld)
  have s: "sustained cfg (x2\<lparr>x_last_feature := lf\<rparr>) = sustained cfg x1"
    using fld by (simp add: sustained_def threshold_def warm_def)
  show ?thesis using ok2 ok1(2) fld exfil_report_findings [OF f] r' s by (intro exI [of _ "x2\<lparr>x_last_feature := lf\<rparr>"]) auto
qed

section \<open>Properties\<close>

fun exfil_run :: "detect_config \<Rightarrow> int \<Rightarrow> string \<Rightarrow> exfil_state \<Rightarrow> (flow_delta + int) list \<Rightarrow> exfil_state option" where
  "exfil_run cfg now_us src s [] = Some s"
| "exfil_run cfg now_us src s (Inl d # is) =
     (case exfil_on_event cfg now_us src s d of None \<Rightarrow> None | Some r \<Rightarrow> exfil_run cfg now_us src (new_state r) is)"
| "exfil_run cfg now_us src s (Inr ts # is) =
     (case exfil_on_timer src s ts of None \<Rightarrow> None | Some r \<Rightarrow> exfil_run cfg now_us src (new_state r) is)"

lemma exfil_timer_ok: "exfil_on_timer src s ts = Some r \<Longrightarrow> exfil_ok cfg s \<Longrightarrow> exfil_ok cfg (new_state r) \<and> emitted r = []"
  by (auto simp: exfil_on_timer_def exfil_ok_empty split: option.splits if_splits)

text \<open>
  The state of a source stays bounded and well-formed over any sequence of records and timers:
  at most 2048 records, all inside the window that ends at the last one, at most the capped number of
  destinations, each counted once, and a non-negative baseline.
\<close>

theorem exfil_state_bounded:
  assumes "exfil_run cfg now_us src exfil_empty is = Some s" and "0 \<le> exfil_window_ms cfg"
    and "\<forall>d v. Inl d \<in> set is \<longrightarrow> fl_d d OrigBytes = Some v \<longrightarrow> 0 \<le> v"
  shows "exfil_ok cfg s"
proof -
  have "exfil_ok cfg s" if "exfil_run cfg now_us src s0 is = Some s" "exfil_ok cfg s0"
    "\<forall>d v. Inl d \<in> set is \<longrightarrow> fl_d d OrigBytes = Some v \<longrightarrow> 0 \<le> v" for s0 "is"
    using that
  proof (induction "is" arbitrary: s0)
    case (Cons i "is")
    show ?case
    proof (cases i)
      case (Inl d)
      then obtain r where r: "exfil_on_event cfg now_us src s0 d = Some r" "exfil_run cfg now_us src (new_state r) is = Some s"
        using Cons.prems(1) by (auto split: option.splits)
      have "exfil_ok cfg (new_state r)" using exfil_event_result [OF r(1) Cons.prems(2) _ assms(2)] Cons.prems(3) Inl by auto
      then show ?thesis using Cons.IH r(2) Cons.prems(3) by auto
    next
      case (Inr ts)
      then obtain r where r: "exfil_on_timer src s0 ts = Some r" "exfil_run cfg now_us src (new_state r) is = Some s"
        using Cons.prems(1) by (auto split: option.splits)
      then show ?thesis using Cons.IH r(2) Cons.prems exfil_timer_ok [OF r(1) Cons.prems(2)] by auto
    qed
  qed simp
  from this [OF assms(1) exfil_ok_empty assms(3)] show ?thesis .
qed

text \<open>
  A finding reports exactly the stored window: its volume is the sum of the outbound bytes of the
  window's records, at least the byte threshold, over at least the minimum span and number of records,
  all inside the window; and the window that raised it is marked, so that the baseline never learns from it.
\<close>

theorem exfil_findings_sound:
  assumes "exfil_on_event cfg now_us src s d = Some r" and "exfil_ok cfg s" and "\<forall>v. fl_d d OrigBytes = Some v \<longrightarrow> 0 \<le> v"
    and "0 \<le> exfil_window_ms cfg" and "f \<in> set (outs (emitted r))"
  shows "\<exists>x. ex_x (new_state r) = Some x \<and> dget (observed f) ''outbound_bytes_window'' = JInt (out_sum (x_recs x))
    \<and> exfil_min_bytes cfg \<le> out_sum (x_recs x) \<and> exfil_min_span_ms cfg \<le> span_ms (x_recs x)
    \<and> exfil_min_records cfg \<le> evidence_count f \<and> evidence_count f = int (length (x_recs x))
    \<and> (\<forall>q \<in> set (x_recs x). obs_ms d - exfil_window_ms cfg \<le> r_time q)
    \<and> (\<forall>w. x_base (roll_window w x) = x_base x)"
proof -
  obtain x where x: "ex_x (new_state r) = Some x" "exfil_ok cfg (new_state r)" "x_last x = ev_min d" "sustained cfg x" "x_win_anomalous x"
    "evidence_count f = int (length (x_recs x))" "dget (observed f) ''outbound_bytes_window'' = JInt (out_sum (x_recs x))"
    using exfil_event_result [OF assms(1-4)] assms(5) by fastforce
  have t: "of_int (exfil_min_bytes cfg) \<le> threshold cfg x" by (simp add: threshold_def)
  have b: "exfil_min_bytes cfg \<le> out_sum (x_recs x)"
  proof -
    have "real_of_int (exfil_min_bytes cfg) \<le> of_int (out_sum (x_recs x))" using t x(4) by (simp add: sustained_def)
    then show ?thesis by (simp only: of_int_le_iff)
  qed
  have o: "obs_ms (ev_min d) = obs_ms d" by (simp add: ev_min_def ev_min.truncate_def)
  have "\<forall>q \<in> set (x_recs x). obs_ms d - exfil_window_ms cfg \<le> r_time q" using x(1-3) o by (simp add: exfil_ok_def)
  moreover have "x_base (roll_window w x) = x_base x" for w
    using x(5) by (simp add: roll_window_def Let_def split: option.splits)
  ultimately show ?thesis using x b unfolding sustained_def by auto
qed

lemmas exfil_demo_simps = exfil_on_event_def Let_def exfil_empty_def enter_record_def is_new_dst_def exfil_new_def add_record_def
  roll_window_def demo_flow_def last_n_def MAX_RECORDS_def exfil_report_def sustained_def threshold_def warm_def ewma_new_def
  out_sum_def span_ms_def rate_limited_def emit_feature_def exfil_feature_def feature_record_def format_ms_def exfil_severity_def

lemma demo_exfil_event:
  "\<exists>r f. exfil_on_event (default_config\<lparr>exfil_min_bytes := 50, exfil_min_span_ms := 0, exfil_min_records := 1\<rparr>) 0 ''10.0.0.1''
     exfil_empty (demo_flow ''192.0.2.1'' 443 40000) = Some r \<and> f \<in> set (outs (emitted r))"
  using format_us_Some [of 40000000] format_us_Some [of 0] by (auto simp: exfil_demo_simps)

theorem exfil_findings_sound_witness:
  "\<exists>r f x. exfil_on_event (default_config\<lparr>exfil_min_bytes := 50, exfil_min_span_ms := 0, exfil_min_records := 1\<rparr>) 0 ''10.0.0.1''
     exfil_empty (demo_flow ''192.0.2.1'' 443 40000) = Some r \<and> f \<in> set (outs (emitted r)) \<and> ex_x (new_state r) = Some x
     \<and> 50 \<le> out_sum (x_recs x)"
proof -
  let ?cfg = "default_config\<lparr>exfil_min_bytes := 50, exfil_min_span_ms := 0, exfil_min_records := 1\<rparr>"
  obtain r f where r: "exfil_on_event ?cfg 0 ''10.0.0.1'' exfil_empty (demo_flow ''192.0.2.1'' 443 40000) = Some r"
    "f \<in> set (outs (emitted r))" using demo_exfil_event by blast
  have "\<exists>x. ex_x (new_state r) = Some x \<and> exfil_min_bytes ?cfg \<le> out_sum (x_recs x)"
    using exfil_findings_sound [OF r(1) exfil_ok_empty _ _ r(2)] by (force simp: demo_flow_def)
  then show ?thesis using r by auto
qed

theorem exfil_state_bounded_witness:
  "\<exists>s. exfil_run default_config 0 ''10.0.0.1'' exfil_empty [Inl (demo_flow ''192.0.2.1'' 443 40000)] = Some s \<and> exfil_ok default_config s"
proof -
  have "\<exists>s. exfil_run default_config 0 ''10.0.0.1'' exfil_empty [Inl (demo_flow ''192.0.2.1'' 443 40000)] = Some s"
    by (simp add: exfil_demo_simps)
  then obtain s where s: "exfil_run default_config 0 ''10.0.0.1'' exfil_empty [Inl (demo_flow ''192.0.2.1'' 443 40000)] = Some s" by blast
  have "exfil_ok default_config s" by (rule exfil_state_bounded [OF s]) (auto simp: demo_flow_def)
  then show ?thesis using s by blast
qed

section \<open>In the harness\<close>

definition nonneg_out :: "flow_delta \<Rightarrow> bool" where
  "nonneg_out d \<longleftrightarrow> (\<forall>v. fl_d d OrigBytes = Some v \<longrightarrow> 0 \<le> v)"

interpretation exfil_logic: passive_logic "exfil_on_event cfg" "\<lambda>_. exfil_on_timer" exfil_empty
  "\<lambda>s. 0 \<le> exfil_window_ms cfg \<longrightarrow> exfil_ok cfg s" nonneg_out for cfg
  by unfold_locales
    (auto simp: exfil_ok_empty nonneg_out_def exfil_on_timer_def dest: exfil_event_result split: option.splits if_splits)

end
