(* ===== verification/Beacon.thy ===== *)
theory Beacon
  imports FlowDelta
begin

text \<open>
  The beaconing detector (\<^verbatim>\<open>flink/sih_detect/beacon.py\<close>), keyed by source, destination, port and
  protocol: the last connection starts in order with their sizes. The theorems show that the stored
  starts do not depend on the order of arrival and that a finding rests on enough regular intervals.
\<close>

section \<open>State\<close>

definition BEACON_VERSION :: string where "BEACON_VERSION = ''beacon-1.0.0''"
definition BEACON_FSV :: string where "BEACON_FSV = ''beacon_features-1.0.0''"

record beacon =
  b_t :: "int list"
  b_s :: "int option list"
  b_ids :: "string list"
  b_first :: ev_min
  b_last :: ev_min
  b_rank :: int
  b_emitted_n :: int
  b_last_feature :: "int option"

definition beacon_new :: "flow_delta \<Rightarrow> beacon" where
  "beacon_new d = \<lparr>b_t = [], b_s = [], b_ids = [], b_first = ev_min d, b_last = ev_min d, b_rank = - 1, b_emitted_n = 0,
     b_last_feature = None\<rparr>"

text \<open>\<^verbatim>\<open>bisect.bisect\<close> on a sorted list, and insertion at an index.\<close>

definition bisect :: "int list \<Rightarrow> int \<Rightarrow> nat" where
  "bisect ts t = length (takeWhile (\<lambda>x. x \<le> t) ts)"

definition insert_at :: "nat \<Rightarrow> 'a \<Rightarrow> 'a list \<Rightarrow> 'a list" where
  "insert_at i x xs = take i xs @ x # drop i xs"

definition enter_start :: "detect_config \<Rightarrow> flow_delta \<Rightarrow> beacon \<Rightarrow> beacon" where
  "enter_start cfg d b =
     (let t = fl_start_ms d; i = bisect (b_t b) t;
          ts = insert_at i t (b_t b); ss = insert_at i (if fl_terminal d then fl_total_orig_bytes d else None) (b_s b);
          over = (int (length ts) > beacon_max_events cfg)
      in b\<lparr>b_t := (if over then tl ts else ts), b_s := (if over then tl ss else ss), b_ids := append_ids (b_ids b) (fl_event_id d),
           b_last := ev_min d\<rparr>)"

definition intervals :: "int list \<Rightarrow> real list" where
  "intervals ts = map (\<lambda>(x, y). of_int (y - x)) (zip ts (tl ts))"

section \<open>Regularity\<close>

record regularity =
  rg_iat :: real
  rg_cv :: "real option"
  rg_span :: int
  rg_size_cv :: "real option"

definition regularity_of :: "detect_config \<Rightarrow> beacon \<Rightarrow> regularity" where
  "regularity_of cfg b =
     (let iats = intervals (b_t b); m = median iats; sizes = map of_int (List.map_filter id (b_s b))
      in \<lparr>rg_iat = m, rg_cv = (if m \<ge> of_int (beacon_min_interval_ms cfg) then robust_cv iats else None),
          rg_span = last (b_t b) - hd (b_t b), rg_size_cv = (if length sizes \<ge> 4 then robust_cv sizes else None)\<rparr>)"

definition is_regular :: "detect_config \<Rightarrow> regularity \<Rightarrow> bool" where
  "is_regular cfg g \<longleftrightarrow> (case rg_cv g of None \<Rightarrow> False
     | Some cv \<Rightarrow> cv \<le> beacon_max_cv cfg \<and> of_int (rg_span g) \<ge> 3 * rg_iat g)"

definition cv_of :: "regularity \<Rightarrow> real" where
  "cv_of g = (case rg_cv g of None \<Rightarrow> 0 | Some cv \<Rightarrow> cv)"

definition beacon_values :: "regularity \<Rightarrow> nat \<Rightarrow> bool \<Rightarrow> bool \<Rightarrow> dict" where
  "beacon_values g n external known =
     [(''connections'', JInt (int n)), (''median_iat_s'', JReal (rg_iat g / 1000)), (''iat_robust_cv'', JReal (cv_of g)),
      (''span_s'', JReal (of_int (rg_span g) / 1000)), (''size_robust_cv'', of_opt_real (rg_size_cv g)),
      (''dst_external'', JInt (if external then 1 else 0)), (''known_periodic'', JInt (if known then 1 else 0))]"

definition beacon_severity :: "regularity \<Rightarrow> nat \<Rightarrow> bool \<Rightarrow> string" where
  "beacon_severity g n external =
     (if external \<and> cv_of g \<le> 1 / 20 \<and> n \<ge> 16 then ''high'' else if external then ''medium'' else ''low'')"

definition beacon_explanation :: "detect_config \<Rightarrow> flow_delta \<Rightarrow> regularity \<Rightarrow> nat \<Rightarrow> bool \<Rightarrow> string" where
  "beacon_explanation cfg d g n external =
     fl_src d @ '' opened '' @ str_of_nat n @ '' connections to '' @ fl_dst d @ '':''
     @ (case fl_dport d of None \<Rightarrow> ''None'' | Some q \<Rightarrow> str_of_int q) @ ''/'' @ fl_proto d @ '' about every ''
     @ fmt_fixed 1 (rg_iat g / 1000) @ ''s over '' @ fmt_fixed 0 (of_int (rg_span g) / 1000) @ ''s (robust dispersion ''
     @ fmt_fixed 3 (cv_of g) @ '', threshold '' @ fmt_float (beacon_max_cv cfg) @ ''). Destination is ''
     @ (if external then ''outside'' else ''inside'') @ '' the local networks ''
     @ ''and not a known periodic pair in the asset inventory.''"

definition beacon_finding :: "detect_config \<Rightarrow> string \<Rightarrow> flow_delta \<Rightarrow> beacon \<Rightarrow> regularity \<Rightarrow> bool \<Rightarrow> finding" where
  "beacon_finding cfg key d b g external =
     (let n = length (b_t b) in finding (no_args\<lparr>
        a_detector := ''beacon'', a_threat_class := ''beaconing'', a_subtype := ''periodic_beacon'', a_entity_type := ''service_pair'',
        a_entity_key := key, a_severity := beacon_severity g n external,
        a_score := Some (6 / 10 * max 0 (1 - cv_of g / beacon_max_cv cfg) + 4 / 10 * min 1 (of_nat n / 32)),
        a_method := ''statistical'', a_detector_version := BEACON_VERSION, a_feature_schema_version := BEACON_FSV,
        a_first := b_first b, a_last := b_last b, a_window_start_ms := hd (b_t b), a_window_end_ms := obs_ms d,
        a_observed := beacon_values g n external False,
        a_thresholds := [(''max_robust_cv'', JReal (beacon_max_cv cfg)), (''min_connections'', JInt (beacon_min_events cfg)),
           (''min_interval_s'', JReal (of_int (beacon_min_interval_ms cfg) / 1000))],
        a_unavailable := (if rg_size_cv g \<noteq> None then [] else [''size_robust_cv'']), a_coverage := fl_coverage d,
        a_src_ip := Some (fl_src d), a_dst_ip := Some (fl_dst d), a_dst_port := fl_dport d, a_protocol := Some (fl_proto d),
        a_flow_id := Some (fl_flow_id d), a_raw_event_ids := b_ids b, a_evidence_count := int n,
        a_top_features := [(''iat_robust_cv'', JReal (cv_of g), JNull, JStr ''ratio''),
           (''median_iat_s'', JReal (rg_iat g / 1000), JNull, JStr ''s''), (''connections'', JInt (int n), JNull, JStr ''count''),
           (''size_robust_cv'', of_opt_real (rg_size_cv g), JNull, JStr ''ratio'')],
        a_explanation := beacon_explanation cfg d g n external\<rparr>))"

section \<open>The handlers\<close>

type_synonym beacon_step = "(beacon option, finding) step"

text \<open>\<open>max(4 * (m_iat or 0), 600_000)\<close>: four times a median of integers is an integer.\<close>

definition beacon_horizon :: "real \<Rightarrow> int" where
  "beacon_horizon m = max (trunc (4 * m)) 600000"

definition beacon_report :: "detect_config \<Rightarrow> string \<Rightarrow> flow_delta \<Rightarrow> beacon \<Rightarrow> regularity \<Rightarrow> bool \<Rightarrow> beacon \<times> finding list" where
  "beacon_report cfg key d b g external =
     (let n = int (length (b_t b)); rank = SEVERITY_RANK (beacon_severity g (length (b_t b)) external)
      in if rank > b_rank b \<or> n \<ge> 2 * b_emitted_n b
         then (let b' = b\<lparr>b_rank := max rank (b_rank b), b_emitted_n := n\<rparr> in (b', [beacon_finding cfg key d b' g external]))
         else (b, []))"

text \<open>Without a regular pattern nothing is reported; a known periodic pair is only counted.\<close>

definition beacon_evaluate ::
  "detect_config \<Rightarrow> inventory \<Rightarrow> int \<Rightarrow> string \<Rightarrow> flow_delta \<Rightarrow> beacon \<Rightarrow> (beacon \<times> finding emission list \<times> string list) option" where
  "beacon_evaluate cfg inven now_us key d b =
     (let g = regularity_of cfg b; n = length (b_t b)
      in if int n < beacon_min_events cfg \<or> \<not> is_regular cfg g then Some (b, [], [])
         else let external = (\<not> is_local inven (Some (fl_dst d)));
                  known = known_periodic inven (fl_src d) (fl_dst d) (fl_dport d) (fl_proto d);
                  (b1, fs) = (if known then (b, []) else beacon_report cfg key d b g external);
                  ms = (if known then [''beacon_suppressed_known_periodic''] else []);
                  (due, lf) = rate_limited (b_last_feature b1) (obs_ms d) (feature_min_interval_ms cfg);
                  b2 = b1\<lparr>b_last_feature := lf\<rparr>
              in if fs \<noteq> [] \<and> beacon_max_cv cfg = 0 then None
                 else map_option (\<lambda>es. (b2, map Out fs @ es, ms))
                   (emit_feature due (feature_record now_us ''beacon'' BEACON_FSV ''service_pair'' key (sensor_id d) (hd (b_t b)) (obs_ms d)
                      (beacon_values g n external known) [(''size_robust_cv'', ''UNKNOWN'')] [])))"

definition beacon_on_event ::
  "detect_config \<Rightarrow> inventory \<Rightarrow> int \<Rightarrow> string \<Rightarrow> beacon option \<Rightarrow> flow_delta \<Rightarrow> beacon_step option" where
  "beacon_on_event cfg inven now_us key st d =
     (if \<not> fl_new_flow d then Some \<lparr>new_state = st, emitted = [], timers = [], metrics = []\<rparr>
      else let b0 = (case st of None \<Rightarrow> beacon_new d | Some b \<Rightarrow> b)
           in if fl_start_ms d \<in> set (b_t b0) then Some \<lparr>new_state = st, emitted = [], timers = [], metrics = []\<rparr>
              else let b1 = enter_start cfg d b0
                   in if b_t b1 = [] then None
                      else map_option (\<lambda>(b2, es, ms).
                          \<lparr>new_state = Some b2, emitted = es,
                           timers = [bucket_up (last (b_t b2) + beacon_horizon
                             (if int (length (b_t b2)) \<ge> beacon_min_events cfg then median (intervals (b_t b2)) else 0)) 60000],
                           metrics = ms\<rparr>)
                        (beacon_evaluate cfg inven now_us key d b1))"

definition beacon_on_timer :: "string \<Rightarrow> beacon option \<Rightarrow> int \<Rightarrow> beacon_step option" where
  "beacon_on_timer key st ts =
     (case st of None \<Rightarrow> Some \<lparr>new_state = st, emitted = [], timers = [], metrics = []\<rparr>
      | Some b \<Rightarrow>
          (let iats = intervals (b_t b); horizon = beacon_horizon (if iats = [] then 0 else median iats)
           in if last (b_t b) + horizon \<le> ts
              then Some \<lparr>new_state = None, emitted = [], timers = [], metrics = [''beacon_state_expired'']\<rparr>
              else Some \<lparr>new_state = st, emitted = [], timers = [], metrics = []\<rparr>))"

section \<open>The stored starts are the latest ones\<close>

definition insert_sorted :: "int \<Rightarrow> int list \<Rightarrow> int list" where
  "insert_sorted t xs = insert_at (bisect xs t) t xs"

lemma insert_sorted_eq: "insert_sorted t xs = takeWhile (\<lambda>x. x \<le> t) xs @ t # dropWhile (\<lambda>x. x \<le> t) xs"
  by (simp add: insert_sorted_def insert_at_def bisect_def takeWhile_eq_take [symmetric] dropWhile_eq_drop [symmetric])

lemma set_insert_sorted [simp]: "set (insert_sorted t xs) = insert t (set xs)"
proof -
  have "set xs = set (takeWhile (\<lambda>x. x \<le> t) xs) \<union> set (dropWhile (\<lambda>x. x \<le> t) xs)"
    by (metis set_append takeWhile_dropWhile_id)
  then show ?thesis by (simp add: insert_sorted_eq)
qed

lemma length_insert_sorted [simp]: "length (insert_sorted t xs) = Suc (length xs)"
  by (simp add: insert_sorted_def insert_at_def bisect_def length_takeWhile_le)

lemma insert_sorted_sorted:
  assumes "sorted xs" "distinct xs" "t \<notin> set xs"
  shows "sorted (insert_sorted t xs) \<and> distinct (insert_sorted t xs)"
  using assms
proof (induction xs)
  case (Cons a xs)
  then show ?case by (cases "a \<le> t") (auto simp: insert_sorted_eq dest: set_takeWhileD set_dropWhileD)
qed (simp add: insert_sorted_eq)

lemma insert_sorted_append:
  "\<forall>x \<in> set as. x \<le> t \<Longrightarrow> insert_sorted t (as @ ys) = as @ insert_sorted t ys"
  by (simp add: insert_sorted_eq takeWhile_append dropWhile_append)

lemma insert_sorted_first: "ys \<noteq> [] \<Longrightarrow> t < hd ys \<Longrightarrow> insert_sorted t (as @ ys) = insert_sorted t as @ ys"
proof (induction as)
  case Nil
  then show ?case by (cases ys) (auto simp: insert_sorted_eq)
next
  case (Cons a as)
  then show ?case by (cases "a \<le> t") (auto simp: insert_sorted_eq)
qed

text \<open>One step on the bounded list follows one step on the unbounded one.\<close>

definition keep_start :: "nat \<Rightarrow> int list \<Rightarrow> int \<Rightarrow> int list" where
  "keep_start k ys t = (if t \<in> set ys then ys
     else let zs = insert_sorted t ys in if k < length zs then tl zs else zs)"

definition all_start :: "int list \<Rightarrow> int \<Rightarrow> int list" where
  "all_start xs t = (if t \<in> set xs then xs else insert_sorted t xs)"

lemma last_n_append: "length ys = k \<Longrightarrow> last_n k (xs @ ys) = ys"
  by (simp add: last_n_def)

lemma keep_start_last_n:
  assumes "sorted xs" "distinct xs" "0 < k"
  shows "keep_start k (last_n k xs) t = last_n k (all_start xs t)"
proof (cases "length xs < k")
  case True
  then have e: "last_n k xs = xs" by (simp add: last_n_all)
  show ?thesis using True by (auto simp: keep_start_def all_start_def e Let_def last_n_all)
next
  case False
  define as where "as = take (length xs - k) xs"
  define ys where "ys = last_n k xs"
  have xs: "xs = as @ ys" by (simp add: as_def ys_def last_n_def)
  have ly: "length ys = k" using False by (simp add: ys_def)
  have ne: "ys \<noteq> []" using ly assms(3) by auto
  have lt: "a < y" if "a \<in> set as" "y \<in> set ys" for a y
    using assms(1,2) that unfolding xs by (metis disjoint_iff distinct_append le_neq_trans sorted_append)
  have hd: "hd ys \<le> y" if "y \<in> set ys" for y
    using assms(1) ne that unfolding xs by (cases ys) (auto simp: sorted_append)
  show ?thesis
  proof (cases "t \<in> set ys")
    case True
    then have "t \<in> set xs" by (simp add: xs)
    then show ?thesis using True by (simp add: keep_start_def all_start_def ys_def)
  next
    case nin: False
    show ?thesis
    proof (cases "t < hd ys")
      case True
      have z: "insert_sorted t ys = t # ys" using insert_sorted_first [OF ne True, of "[]"] by (simp add: insert_sorted_eq)
      have "last_n k (all_start xs t) = ys"
      proof (cases "t \<in> set as")
        case True
        then show ?thesis by (simp add: all_start_def xs last_n_append ly)
      next
        case False
        then show ?thesis using nin insert_sorted_first [OF ne True, of as] by (simp add: all_start_def xs last_n_append ly)
      qed
      then show ?thesis using nin z ly by (simp add: keep_start_def ys_def [symmetric])
    next
      case False
      have as: "\<forall>x \<in> set as. x \<le> t" using lt [OF _ hd_in_set [OF ne]] False by fastforce
      have "t \<notin> set as" using lt [OF _ hd_in_set [OF ne], of t] False by auto
      then have a: "all_start xs t = as @ insert_sorted t ys"
        using nin insert_sorted_append [OF as] by (simp add: all_start_def xs)
      have "last_n k (as @ insert_sorted t ys) = tl (insert_sorted t ys)"
        using ly by (simp add: last_n_def drop_Suc)
      then show ?thesis using nin ly a by (simp add: keep_start_def ys_def [symmetric])
    qed
  qed
qed

lemma enter_start_t:
  "fl_start_ms d \<notin> set (b_t b) \<Longrightarrow> b_t (enter_start cfg d b) = keep_start (nat (beacon_max_events cfg)) (b_t b) (fl_start_ms d)"
  by (auto simp: enter_start_def Let_def keep_start_def insert_sorted_def [symmetric] nat_less_iff zless_nat_eq_int_zless)

lemma enter_start_len:
  "length (b_t b) = length (b_s b) \<Longrightarrow> length (b_t (enter_start cfg d b)) = length (b_s (enter_start cfg d b))"
  by (auto simp: enter_start_def Let_def insert_at_def)

lemma beacon_report_fields:
  "beacon_report cfg key d b g ext = (b', fs) \<Longrightarrow> b_t b' = b_t b \<and> b_s b' = b_s b
     \<and> (\<forall>f \<in> set fs. evidence_count f = int (length (b_t b)) \<and> window_start_ms f = min (hd (b_t b)) (obs_ms d))"
  by (auto simp: beacon_report_def Let_def beacon_finding_def no_args_def split: if_splits)

lemma beacon_evaluate_fields:
  assumes "beacon_evaluate cfg inven now_us key d b = Some (b', es, ms)"
  shows "b_t b' = b_t b \<and> b_s b' = b_s b \<and> (\<forall>f \<in> set (outs es). beacon_min_events cfg \<le> int (length (b_t b))
     \<and> is_regular cfg (regularity_of cfg b) \<and> \<not> known_periodic inven (fl_src d) (fl_dst d) (fl_dport d) (fl_proto d)
     \<and> evidence_count f = int (length (b_t b)) \<and> window_start_ms f = min (hd (b_t b)) (obs_ms d))"
proof (cases "int (length (b_t b)) < beacon_min_events cfg \<or> \<not> is_regular cfg (regularity_of cfg b)")
  case True
  then show ?thesis using assms by (auto simp: beacon_evaluate_def Let_def)
next
  case False
  show ?thesis
  proof (cases "known_periodic inven (fl_src d) (fl_dst d) (fl_dport d) (fl_proto d)")
    case True
    then show ?thesis using assms False
      by (auto simp: beacon_evaluate_def Let_def outs_emit_feature split: prod.splits if_splits)
  next
    case nk: False
    obtain b1 fs where r: "beacon_report cfg key d b (regularity_of cfg b) (\<not> is_local inven (Some (fl_dst d))) = (b1, fs)" by fastforce
    show ?thesis using assms False nk r beacon_report_fields [OF r]
      by (auto simp: beacon_evaluate_def Let_def outs_emit_feature split: prod.splits if_splits)
  qed
qed

lemma beacon_event_cases:
  assumes "beacon_on_event cfg inven now_us key st d = Some r"
  obtains (skip) "new_state r = st" "emitted r = []" "\<not> fl_new_flow d \<or> (\<exists>b. st = Some b \<and> fl_start_ms d \<in> set (b_t b))"
  | (enter) b0 b es ms where "b0 = (case st of None \<Rightarrow> beacon_new d | Some b \<Rightarrow> b)" "fl_new_flow d" "fl_start_ms d \<notin> set (b_t b0)"
      "beacon_evaluate cfg inven now_us key d (enter_start cfg d b0) = Some (b, es, ms)" "new_state r = Some b" "emitted r = es"
proof (cases "fl_new_flow d")
  case False
  then show ?thesis using assms skip by (auto simp: beacon_on_event_def)
next
  case new: True
  let ?b0 = "case st of None \<Rightarrow> beacon_new d | Some b \<Rightarrow> b"
  show ?thesis
  proof (cases "fl_start_ms d \<in> set (b_t ?b0)")
    case True
    then have "\<exists>b. st = Some b \<and> fl_start_ms d \<in> set (b_t b)" by (cases st) (auto simp: beacon_new_def)
    then show ?thesis using assms new skip by (auto simp: beacon_on_event_def Let_def)
  next
    case False
    then obtain b es ms where "beacon_evaluate cfg inven now_us key d (enter_start cfg d ?b0) = Some (b, es, ms)"
      "new_state r = Some b" "emitted r = es"
      using assms new by (auto simp: beacon_on_event_def Let_def split: if_splits)
    then show ?thesis using enter new False by blast
  qed
qed

section \<open>Properties\<close>

fun beacon_run ::
  "detect_config \<Rightarrow> inventory \<Rightarrow> int \<Rightarrow> string \<Rightarrow> beacon option \<Rightarrow> flow_delta list \<Rightarrow> beacon option option" where
  "beacon_run cfg inven now_us key st [] = Some st"
| "beacon_run cfg inven now_us key st (d # ds) =
     (case beacon_on_event cfg inven now_us key st d of None \<Rightarrow> None
      | Some r \<Rightarrow> beacon_run cfg inven now_us key (new_state r) ds)"

definition starts_of :: "beacon option \<Rightarrow> int list" where
  "starts_of st = (case st of None \<Rightarrow> [] | Some b \<Rightarrow> b_t b)"

definition new_starts :: "flow_delta list \<Rightarrow> int list" where
  "new_starts ds = map fl_start_ms (filter fl_new_flow ds)"

lemma beacon_event_starts:
  assumes "beacon_on_event cfg inven now_us key st d = Some r"
  shows "starts_of (new_state r) = (if fl_new_flow d then keep_start (nat (beacon_max_events cfg)) (starts_of st) (fl_start_ms d) else starts_of st)"
  using assms
proof (cases rule: beacon_event_cases)
  case skip
  then show ?thesis by (auto simp: starts_of_def keep_start_def)
next
  case (enter b0 b es ms)
  have s: "b_t b0 = starts_of st" using enter(1) by (auto simp: starts_of_def beacon_new_def split: option.splits)
  show ?thesis using beacon_evaluate_fields [OF enter(4)] enter_start_t [OF enter(3)] enter(2,5) s by (simp add: starts_of_def)
qed

lemma all_start_sorted: "sorted xs \<Longrightarrow> distinct xs \<Longrightarrow> sorted (all_start xs t) \<and> distinct (all_start xs t) \<and> set (all_start xs t) = insert t (set xs)"
  using insert_sorted_sorted [of xs t] by (auto simp: all_start_def)

lemma beacon_run_starts:
  assumes "beacon_run cfg inven now_us key st ds = Some st'" "sorted xs" "distinct xs" "0 < beacon_max_events cfg"
    "starts_of st = last_n (nat (beacon_max_events cfg)) xs"
  shows "starts_of st' = last_n (nat (beacon_max_events cfg)) (sorted_list_of_set (set xs \<union> set (new_starts ds)))"
  using assms
proof (induction ds arbitrary: st xs)
  case Nil
  then show ?case by (simp add: new_starts_def sorted_list_of_set.idem_if_sorted_distinct)
next
  case (Cons d ds)
  obtain r where r: "beacon_on_event cfg inven now_us key st d = Some r" "beacon_run cfg inven now_us key (new_state r) ds = Some st'"
    using Cons.prems(1) by (auto split: option.splits)
  note ev = beacon_event_starts [OF r(1)]
  show ?case
  proof (cases "fl_new_flow d")
    case True
    have "starts_of (new_state r) = last_n (nat (beacon_max_events cfg)) (all_start xs (fl_start_ms d))"
      using ev True keep_start_last_n [OF Cons.prems(2,3), of "nat (beacon_max_events cfg)"] Cons.prems(4,5) by simp
    moreover have "set (all_start xs (fl_start_ms d)) \<union> set (new_starts ds) = set xs \<union> set (new_starts (d # ds))"
      using all_start_sorted [OF Cons.prems(2,3), of "fl_start_ms d"] True by (auto simp: new_starts_def)
    ultimately show ?thesis
      using Cons.IH [OF r(2) _ _ Cons.prems(4), of "all_start xs (fl_start_ms d)"]
        all_start_sorted [OF Cons.prems(2,3), of "fl_start_ms d"] by metis
  next
    case False
    then show ?thesis using Cons.IH [OF r(2) Cons.prems(2-4)] ev Cons.prems(5) by (simp add: new_starts_def)
  qed
qed

text \<open>
  The connection starts a pair keeps are the latest distinct ones up to the configured maximum, in
  order, whatever the order in which the flows arrive and however often a start repeats; so the
  intervals that are judged do not depend on the order of delivery.
\<close>

theorem beacon_keeps_latest_starts:
  assumes "beacon_run cfg inven now_us key None ds = Some st" and "0 < beacon_max_events cfg"
  shows "starts_of st = last_n (nat (beacon_max_events cfg)) (sorted_list_of_set (set (new_starts ds)))"
  using beacon_run_starts [OF assms(1), of "[]"] assms(2) by (simp add: starts_of_def)

lemma demo_beacon_run:
  "\<exists>st. beacon_run default_config no_inventory 0 ''k'' None
     [demo_flow ''192.0.2.1'' 443 3000, demo_flow ''192.0.2.1'' 443 1000, demo_flow ''192.0.2.1'' 443 3000] = Some st"
  by (simp add: beacon_on_event_def Let_def beacon_new_def enter_start_def bisect_def insert_at_def beacon_evaluate_def
      demo_flow_def)

theorem beacon_keeps_latest_starts_witness:
  "\<exists>st. beacon_run default_config no_inventory 0 ''k'' None
     [demo_flow ''192.0.2.1'' 443 3000, demo_flow ''192.0.2.1'' 443 1000, demo_flow ''192.0.2.1'' 443 3000] = Some st
   \<and> starts_of st = [1000, 3000]"
proof -
  obtain st where r: "beacon_run default_config no_inventory 0 ''k'' None
     [demo_flow ''192.0.2.1'' 443 3000, demo_flow ''192.0.2.1'' 443 1000, demo_flow ''192.0.2.1'' 443 3000] = Some st"
    using demo_beacon_run by blast
  have s: "set (new_starts [demo_flow ''192.0.2.1'' 443 3000, demo_flow ''192.0.2.1'' 443 1000, demo_flow ''192.0.2.1'' 443 3000])
    = set [1000, 3000]" by (auto simp: new_starts_def demo_flow_def)
  have "sorted_list_of_set (set [1000, 3000 :: int]) = [1000, 3000]"
    by (rule sorted_list_of_set.idem_if_sorted_distinct) simp_all
  then show ?thesis using beacon_keeps_latest_starts [OF r] r unfolding s by (simp add: last_n_def)
qed

text \<open>
  A beacon finding rests on at least the configured number of connections whose intervals are
  regular: their median is at least the minimum interval, their robust dispersion is at most the
  configured one, they span three medians, and the pair is not a known periodic one.
\<close>

theorem beacon_findings_regular:
  assumes "beacon_on_event cfg inven now_us key st d = Some r" and "f \<in> set (outs (emitted r))"
  shows "\<exists>b cv. new_state r = Some b \<and> evidence_count f = int (length (b_t b)) \<and> beacon_min_events cfg \<le> evidence_count f
    \<and> robust_cv (intervals (b_t b)) = Some cv \<and> 0 \<le> cv \<and> cv \<le> beacon_max_cv cfg
    \<and> of_int (beacon_min_interval_ms cfg) \<le> median (intervals (b_t b))
    \<and> 3 * median (intervals (b_t b)) \<le> of_int (last (b_t b) - hd (b_t b))
    \<and> \<not> known_periodic inven (fl_src d) (fl_dst d) (fl_dport d) (fl_proto d)"
  using assms(1)
proof (cases rule: beacon_event_cases)
  case skip
  then show ?thesis using assms(2) by simp
next
  case (enter b0 b es ms)
  let ?e = "enter_start cfg d b0"
  have f: "b_t b = b_t ?e" "beacon_min_events cfg \<le> int (length (b_t ?e))" "is_regular cfg (regularity_of cfg ?e)"
    "\<not> known_periodic inven (fl_src d) (fl_dst d) (fl_dport d) (fl_proto d)" "evidence_count f = int (length (b_t ?e))"
    using beacon_evaluate_fields [OF enter(4)] assms(2) enter(6) by auto
  then show ?thesis using enter(5) robust_cv_nonneg
    by (auto simp: is_regular_def regularity_of_def Let_def split: option.splits if_splits)
qed

definition demo_beacon :: beacon where
  "demo_beacon = (beacon_new (demo_flow ''192.0.2.1'' 443 0))\<lparr>b_t := [0, 10000, 20000], b_s := [None, None, None]\<rparr>"

lemma demo_beacon_event:
  "\<exists>r f. beacon_on_event (default_config\<lparr>beacon_min_events := 4\<rparr>) no_inventory 0 ''k'' (Some demo_beacon)
     (demo_flow ''192.0.2.1'' 443 30000) = Some r \<and> f \<in> set (outs (emitted r))"
proof -
  have m: "median [10000, 10000, 10000] = 10000" by (simp add: median_def)
  have z: "median [0, 0, 0] = 0" by (simp add: median_def)
  obtain t0 t1 where t: "format_us 0 = Some t0" "format_us 30000000 = Some t1"
    using format_us_Some [of 30000000] format_us_Some [of 0] by auto
  show ?thesis
    by (simp add: t beacon_on_event_def Let_def beacon_new_def enter_start_def bisect_def insert_at_def beacon_evaluate_def demo_beacon_def
        regularity_of_def intervals_def is_regular_def robust_cv_def m z cv_of_def beacon_report_def rate_limited_def emit_feature_def
        feature_record_def format_ms_def demo_flow_def beacon_severity_def SEVERITY_RANK_def)
qed

theorem beacon_findings_regular_witness:
  "\<exists>r f b cv. beacon_on_event (default_config\<lparr>beacon_min_events := 4\<rparr>) no_inventory 0 ''k'' (Some demo_beacon)
     (demo_flow ''192.0.2.1'' 443 30000) = Some r \<and> f \<in> set (outs (emitted r)) \<and> new_state r = Some b
   \<and> robust_cv (intervals (b_t b)) = Some cv \<and> cv \<le> 3 / 20"
proof -
  obtain r f where r: "beacon_on_event (default_config\<lparr>beacon_min_events := 4\<rparr>) no_inventory 0 ''k'' (Some demo_beacon)
     (demo_flow ''192.0.2.1'' 443 30000) = Some r" "f \<in> set (outs (emitted r))" using demo_beacon_event by blast
  show ?thesis using beacon_findings_regular [OF r] r by auto
qed

section \<open>In the harness\<close>

interpretation beacon_logic: passive_logic "beacon_on_event cfg inven" "\<lambda>_. beacon_on_timer" None "\<lambda>_. True" "\<lambda>_. True" for cfg inven
  by unfold_locales (auto simp: beacon_on_timer_def Let_def split: option.splits if_splits)

end
