(* ===== verification/Encrypted.thy ===== *)
theory Encrypted
  imports Events Harness
begin

text \<open>
  The encrypted-session detector (\<^verbatim>\<open>flink/sih_detect/encrypted.py\<close>), keyed by source, destination
  and port: weighted metadata indicators, each scored only when observable. The theorems bound the score
  and show on what a finding rests.
\<close>

section \<open>Indicators\<close>

definition ENC_VERSION :: string where "ENC_VERSION = ''encrypted-1.0.0''"
definition ENC_FSV :: string where "ENC_FSV = ''tls_features-1.0.0''"
definition OLD_VERSIONS :: "string list" where "OLD_VERSIONS = [''SSLv2'', ''SSLv3'', ''TLSv10'', ''TLSv11'']"
definition STANDARD_TLS_PORTS :: "int list" where
  "STANDARD_TLS_PORTS = [443, 465, 563, 636, 853, 989, 990, 993, 995, 4843, 5061, 8443, 8883]"

definition WEIGHTS :: "(string \<times> real) list" where
  "WEIGHTS = [(''old_tls_version'', 3 / 10), (''sni_absent'', 1 / 4), (''sni_ip_literal'', 1 / 5), (''nonstandard_port'', 1 / 10),
     (''certificate_not_validated'', 1 / 4), (''dst_external'', 1 / 10)]"

definition weight :: "string \<Rightarrow> real" where
  "weight k = (case map_of WEIGHTS k of None \<Rightarrow> 0 | Some w \<Rightarrow> w)"

type_synonym indicator_map = "(string \<times> bool option) list"

text \<open>In the order of the weights; \<open>None\<close> is unobservable.\<close>

definition indicators :: "dict \<Rightarrow> dict \<Rightarrow> bool \<Rightarrow> indicator_map" where
  "indicators pl av dst_external =
     (let ver = jstr pl ''version''; sni = jstr pl ''server_name'';
          missing = (ver \<noteq> None \<and> jstr av ''server_name'' = Some ''MISSING'')
      in [(''old_tls_version'', map_option (\<lambda>v. v \<in> set OLD_VERSIONS) ver),
          (''sni_absent'', if sni \<noteq> None then Some False else if missing then Some True else None),
          (''sni_ip_literal'', case sni of Some x \<Rightarrow> Some (is_ip x) | None \<Rightarrow> if missing then Some False else None),
          (''nonstandard_port'', map_option (\<lambda>q. q \<notin> set STANDARD_TLS_PORTS) (jint pl ''dst_port'')),
          (''certificate_not_validated'', map_option (\<lambda>v. lower (strip is_space v) \<noteq> ''ok'') (jstr pl ''validation_status'')),
          (''dst_external'', Some dst_external)])"

definition available :: "indicator_map \<Rightarrow> string list" where
  "available ind = map fst (filter (\<lambda>(k, v). v \<noteq> None) ind)"

definition unobservable :: "indicator_map \<Rightarrow> string list" where
  "unobservable ind = sort (map fst (filter (\<lambda>(k, v). v = None) ind))"

definition positives_of :: "indicator_map \<Rightarrow> string list" where
  "positives_of ind = map fst (filter (\<lambda>(k, v). v = Some True) ind)"

definition metadata_score :: "indicator_map \<Rightarrow> real" where
  "metadata_score ind = sum_list (map weight (positives_of ind)) / sum_list (map weight (available ind))"

section \<open>State\<close>

record session =
  s_sessions :: int
  s_scored :: int
  s_max_score :: real
  s_max_pos :: int
  s_positives :: "string list"
  s_first :: ev_min
  s_last :: ev_min
  s_ids :: "string list"
  s_rank :: int
  s_last_feature :: "int option"

definition session_new :: "event \<Rightarrow> session" where
  "session_new ev = \<lparr>s_sessions = 0, s_scored = 0, s_max_score = 0, s_max_pos = 0, s_positives = [], s_first = ev_min ev,
     s_last = ev_min ev, s_ids = [], s_rank = - 1, s_last_feature = None\<rparr>"

definition current_session :: "detect_config \<Rightarrow> session option \<Rightarrow> event \<Rightarrow> session" where
  "current_session cfg st ev = (case st of None \<Rightarrow> session_new ev
     | Some s \<Rightarrow> if obs_ms ev > obs_ms (s_last s) + tls_horizon_ms cfg then session_new ev else s)"

definition enter_session :: "event \<Rightarrow> session \<Rightarrow> session" where
  "enter_session ev s = s\<lparr>s_sessions := s_sessions s + 1, s_last := ev_min ev, s_ids := append_ids (s_ids s) (ev_id ev)\<rparr>"

definition abstains :: "detect_config \<Rightarrow> indicator_map \<Rightarrow> bool" where
  "abstains cfg ind \<longleftrightarrow> int (length (available ind)) < tls_min_available cfg"

text \<open>Scoring one session; the best score is kept with its positive indicators.\<close>

definition score_session :: "detect_config \<Rightarrow> indicator_map \<Rightarrow> session \<Rightarrow> session \<times> real option" where
  "score_session cfg ind s =
     (if abstains cfg ind then (s, None)
      else let sc = metadata_score ind; pos = positives_of ind; s1 = s\<lparr>s_scored := s_scored s + 1\<rparr>
           in (if sc \<ge> s_max_score s then s1\<lparr>s_max_score := sc, s_max_pos := int (length pos), s_positives := pos\<rparr> else s1, Some sc))"

section \<open>Reporting\<close>

fun join_text :: "string \<Rightarrow> string list \<Rightarrow> string" where
  "join_text sep [] = []"
| "join_text sep [x] = x"
| "join_text sep (x # xs) = x @ sep @ join_text sep xs"

definition or_none :: "string list \<Rightarrow> string" where
  "or_none xs = (if join_text '', '' xs = [] then ''none'' else join_text '', '' xs)"

definition suspicious :: "detect_config \<Rightarrow> session \<Rightarrow> bool" where
  "suspicious cfg s \<longleftrightarrow> s_scored s \<ge> tls_min_sessions cfg \<and> s_max_score s \<ge> tls_min_score cfg \<and> s_max_pos s \<ge> tls_min_positive cfg"

definition enc_severity :: "session \<Rightarrow> bool \<Rightarrow> string" where
  "enc_severity s external = (if s_sessions s \<ge> 10 \<and> external then ''medium'' else ''low'')"

definition opt_bool :: "bool option \<Rightarrow> json" where
  "opt_bool v = (case v of None \<Rightarrow> JNull | Some b \<Rightarrow> JBool b)"

definition enc_finding ::
  "detect_config \<Rightarrow> string \<Rightarrow> event \<Rightarrow> indicator_map \<Rightarrow> bool \<Rightarrow> session \<Rightarrow> string \<Rightarrow> string \<Rightarrow> finding" where
  "enc_finding cfg key ev ind external s src dst =
     (let pl = payload ev; pos = s_positives s;
          port = (case jint pl ''dst_port'' of None \<Rightarrow> ''None'' | Some q \<Rightarrow> str_of_int q)
      in finding (no_args\<lparr>
        a_detector := ''encrypted'', a_threat_class := ''encrypted_malware_like'', a_subtype := ''suspicious_tls_metadata'',
        a_entity_type := ''service_pair'', a_entity_key := key, a_severity := enc_severity s external,
        a_score := Some (s_max_score s), a_method := ''rule'', a_detector_version := ENC_VERSION,
        a_feature_schema_version := ENC_FSV, a_first := s_first s, a_last := s_last s,
        a_window_start_ms := obs_ms (s_first s), a_window_end_ms := obs_ms ev,
        a_observed := [(''sessions'', JInt (s_sessions s)), (''scored_sessions'', JInt (s_scored s)), (''max_score'', JReal (s_max_score s)),
           (''tls_version'', of_opt_str (jstr pl ''version'')), (''server_name'', of_opt_str (jstr pl ''server_name'')),
           (''validation_status'', of_opt_str (jstr pl ''validation_status''))] @ map (\<lambda>(k, v). (''ind_'' @ k, opt_bool v)) ind,
        a_thresholds := [(''min_score'', JReal (tls_min_score cfg)), (''min_positive'', JInt (tls_min_positive cfg)),
           (''min_sessions'', JInt (tls_min_sessions cfg)), (''min_available'', JInt (tls_min_available cfg))],
        a_unavailable := unobservable ind, a_coverage := coverage ev, a_src_ip := Some src, a_dst_ip := Some dst,
        a_dst_port := jint pl ''dst_port'', a_protocol := Some ''tcp'', a_raw_event_ids := s_ids s, a_evidence_count := s_sessions s,
        a_top_features := map (\<lambda>k. (k, JInt 1, JReal (weight k), JStr ''indicator'')) (take 10 pos),
        a_explanation := str_of_int (s_sessions s) @ '' TLS sessions from '' @ src @ '' to '' @ dst @ '':'' @ port
          @ '' show metadata indicators: '' @ or_none pos @ ''. Unobservable indicators: '' @ or_none (unobservable ind)
          @ ''. Handshake metadata only; no payload was decrypted '' @ ''and this is not a malware verdict.''\<rparr>))"

definition enc_feature :: "int \<Rightarrow> string \<Rightarrow> event \<Rightarrow> indicator_map \<Rightarrow> session \<Rightarrow> real \<Rightarrow> dict option" where
  "enc_feature now_us key ev ind s sc =
     feature_record now_us ''encrypted'' ENC_FSV ''service_pair'' key (sensor_id ev) (obs_ms (s_first s)) (obs_ms ev)
       ([(''sessions'', JInt (s_sessions s)), (''score'', JReal sc)]
          @ map (\<lambda>(k, v). (k, case v of None \<Rightarrow> JNull | Some b \<Rightarrow> JInt (if b then 1 else 0))) ind)
       (map (\<lambda>k. (k, ''UNKNOWN'')) (unobservable ind)) []"

definition enc_report ::
  "detect_config \<Rightarrow> string \<Rightarrow> event \<Rightarrow> indicator_map \<Rightarrow> bool \<Rightarrow> string \<Rightarrow> string \<Rightarrow> session \<Rightarrow> session \<times> finding list" where
  "enc_report cfg key ev ind external src dst s =
     (let rank = SEVERITY_RANK (enc_severity s external)
      in if suspicious cfg s \<and> rank > s_rank s
         then (let s' = s\<lparr>s_rank := rank\<rparr> in (s', [enc_finding cfg key ev ind external s' src dst]))
         else (s, []))"

section \<open>The handlers\<close>

type_synonym enc_step = "(session option, finding) step"

text \<open>\<open>None\<close> when an address is absent (KeyError; the job's key function reads both).\<close>

definition enc_on_event ::
  "detect_config \<Rightarrow> inventory \<Rightarrow> int \<Rightarrow> string \<Rightarrow> session option \<Rightarrow> event \<Rightarrow> enc_step option" where
  "enc_on_event cfg inven now_us key st ev =
     (case (jstr (payload ev) ''src_ip'', jstr (payload ev) ''dst_ip'') of
        (Some src, Some dst) \<Rightarrow>
          (let external = (\<not> is_local inven (Some dst));
               ind = indicators (payload ev) (avail ev) external;
               s1 = enter_session ev (current_session cfg st ev);
               (s2, sc) = score_session cfg ind s1;
               (s3, fs) = enc_report cfg key ev ind external src dst s2;
               (due, lf) = (case sc of
                   Some x \<Rightarrow> if x \<ge> tls_min_score cfg / 2 then rate_limited (s_last_feature s3) (obs_ms ev) (feature_min_interval_ms cfg)
                             else (False, s_last_feature s3)
                 | None \<Rightarrow> (False, s_last_feature s3));
               s4 = s3\<lparr>s_last_feature := lf\<rparr>
           in map_option (\<lambda>es. \<lparr>new_state = Some s4, emitted = map Out fs @ es,
                 timers = [bucket_up (obs_ms ev + tls_horizon_ms cfg) 60000],
                 metrics = (if sc = None then [''tls_abstained''] else [])\<rparr>)
               (emit_feature due (enc_feature now_us key ev ind s4 (case sc of None \<Rightarrow> 0 | Some x \<Rightarrow> x))))
      | _ \<Rightarrow> None)"

definition enc_on_timer :: "detect_config \<Rightarrow> string \<Rightarrow> session option \<Rightarrow> int \<Rightarrow> enc_step option" where
  "enc_on_timer cfg key st ts =
     (case st of
        Some s \<Rightarrow> if obs_ms (s_last s) + tls_horizon_ms cfg \<le> ts
          then Some \<lparr>new_state = None, emitted = [], timers = [], metrics = []\<rparr>
          else Some \<lparr>new_state = st, emitted = [], timers = [], metrics = []\<rparr>
      | None \<Rightarrow> Some \<lparr>new_state = st, emitted = [], timers = [], metrics = []\<rparr>)"

section \<open>Properties\<close>

text \<open>Indicators the code can produce: exactly the weighted names, the last one always observable.\<close>

definition ind_ok :: "indicator_map \<Rightarrow> bool" where
  "ind_ok ind \<longleftrightarrow> map fst ind = map fst WEIGHTS \<and> (\<exists>b. (''dst_external'', Some b) \<in> set ind)"

lemma indicators_ok: "ind_ok (indicators pl av ext)"
  by (simp add: ind_ok_def indicators_def WEIGHTS_def Let_def)

lemma weight_nonneg: "0 \<le> weight k"
  by (simp add: weight_def WEIGHTS_def)

lemma positives_sum_le: "sum_list (map weight (positives_of ind)) \<le> sum_list (map weight (available ind))"
  by (induction ind) (auto simp: positives_of_def available_def weight_nonneg add_increasing)

lemma metadata_score_range_aux:
  "0 \<le> metadata_score (indicators pl av ext) \<and> metadata_score (indicators pl av ext) \<le> 1
   \<and> (metadata_score (indicators pl av ext) = 0 \<longleftrightarrow> positives_of (indicators pl av ext) = [])
   \<and> (metadata_score (indicators pl av ext) = 1 \<longleftrightarrow> positives_of (indicators pl av ext) = available (indicators pl av ext))"
proof -
  let ?ind = "indicators pl av ext"
  let ?P = "sum_list (map weight (positives_of ?ind))" and ?A = "sum_list (map weight (available ?ind))"
  have ok: "ind_ok ?ind" by (rule indicators_ok)
  have pos: "0 < weight k" if "k \<in> fst ` set ?ind" for k
  proof -
    have "k \<in> set (map fst WEIGHTS)" using that ok by (metis ind_ok_def set_map)
    then show ?thesis by (auto simp: weight_def WEIGHTS_def)
  qed
  have gen: "(\<forall>k \<in> fst ` set xs. 0 < weight k) \<Longrightarrow>
      (sum_list (map weight (positives_of xs)) = 0 \<longleftrightarrow> positives_of xs = [])
      \<and> (sum_list (map weight (positives_of xs)) = sum_list (map weight (available xs)) \<longleftrightarrow> positives_of xs = available xs)" for xs
  proof (induction xs)
    case (Cons x xs)
    obtain k v where x: "x = (k, v)" by fastforce
    have w: "0 < weight k" using Cons.prems x by simp
    have le: "sum_list (map weight (positives_of xs)) \<le> sum_list (map weight (available xs))" by (rule positives_sum_le)
    have nn: "0 \<le> sum_list (map weight (positives_of xs))" by (induction xs) (auto simp: positives_of_def weight_nonneg)
    have ln: "length (positives_of xs) \<le> length (available xs)" by (induction xs) (auto simp: positives_of_def available_def)
    have ih: "(sum_list (map weight (positives_of xs)) = 0 \<longleftrightarrow> positives_of xs = [])"
      "(sum_list (map weight (positives_of xs)) = sum_list (map weight (available xs)) \<longleftrightarrow> positives_of xs = available xs)"
      using Cons by auto
    have c: "positives_of (x # xs) = (if v = Some True then k # positives_of xs else positives_of xs)"
      "available (x # xs) = (if v \<noteq> None then k # available xs else available xs)"
      by (simp_all add: x positives_of_def available_def)
    have ne: "positives_of xs \<noteq> k # available xs" using ln by auto
    show ?case using w le nn ih ne by (cases v) (auto simp: c)
  qed (simp add: positives_of_def available_def)
  have A: "0 < ?A"
  proof -
    have m: "''dst_external'' \<in> set (available ?ind)" by (simp add: available_def indicators_def Let_def)
    have "weight ''dst_external'' \<le> ?A" by (rule member_le_sum_list) (use m weight_nonneg in auto)
    then show ?thesis by (simp add: weight_def WEIGHTS_def)
  qed
  have P: "0 \<le> ?P" by (rule sum_list_nonneg) (auto simp: weight_nonneg)
  show ?thesis using A P positives_sum_le [of ?ind] gen [of ?ind] pos by (auto simp: metadata_score_def divide_eq_eq divide_le_eq)
qed

text \<open>
  The score of a session is the weight of its positive indicators over the weight of the observable
  ones: it lies between 0 and 1, is 0 exactly when no observable indicator is positive, is 1 exactly when
  every observable one is, and an unobservable indicator changes neither sum.
\<close>

theorem metadata_score_range:
  "0 \<le> metadata_score (indicators pl av ext) \<and> metadata_score (indicators pl av ext) \<le> 1
   \<and> (metadata_score (indicators pl av ext) = 0 \<longleftrightarrow> positives_of (indicators pl av ext) = [])
   \<and> (metadata_score (indicators pl av ext) = 1 \<longleftrightarrow> positives_of (indicators pl av ext) = available (indicators pl av ext))"
  by (rule metadata_score_range_aux)

definition session_ok :: "session option \<Rightarrow> bool" where
  "session_ok st \<longleftrightarrow> (\<forall>s. st = Some s \<longrightarrow> 0 \<le> s_scored s \<and> s_scored s \<le> s_sessions s \<and> 0 \<le> s_max_score s \<and> s_max_score s \<le> 1
     \<and> s_max_pos s = int (length (s_positives s)) \<and> length (s_ids s) \<le> 32 \<and> - 1 \<le> s_rank s \<and> s_rank s \<le> 2)"

lemma session_ok_new [simp]: "session_ok (Some (session_new ev))"
  by (simp add: session_ok_def session_new_def)

lemma session_ok_enter:
  assumes "session_ok (Some s)" "score_session cfg (indicators pl av ext) (enter_session ev s) = (s2, sc)"
  shows "session_ok (Some s2) \<and> s_rank s2 = s_rank s \<and> s_first s2 = s_first s \<and> s_last s2 = ev_min ev"
  using assms metadata_score_range_aux [of pl av ext]
  by (auto simp: session_ok_def score_session_def enter_session_def Let_def split: if_splits)

lemma enc_finding_fields [simp]:
  "severity (enc_finding cfg key ev ind ext s src dst) = enc_severity s ext"
  "evidence_count (enc_finding cfg key ev ind ext s src dst) = s_sessions s"
  "window_start_ms (enc_finding cfg key ev ind ext s src dst) = min (obs_ms (s_first s)) (obs_ms ev)"
  "0 \<le> s_max_score s \<Longrightarrow> s_max_score s \<le> 1 \<Longrightarrow> score (enc_finding cfg key ev ind ext s src dst) = Some (round_to 6 (s_max_score s))"
  by (simp_all add: enc_finding_def Let_def no_args_def finding_score)

lemma enc_severity_rank: "SEVERITY_RANK (enc_severity s ext) \<in> {1, 2}"
  by (simp add: enc_severity_def SEVERITY_RANK_def)

lemma enc_report_fields:
  assumes "enc_report cfg key ev ind ext src dst s = (s', fs)" "session_ok (Some s)"
  shows "session_ok (Some s') \<and> s_first s' = s_first s \<and> s_last s' = s_last s \<and> s_scored s' = s_scored s \<and> s_positives s' = s_positives s
    \<and> (\<forall>f \<in> set fs. suspicious cfg s \<and> evidence_count f = s_sessions s \<and> s_rank s < SEVERITY_RANK (severity f)
         \<and> s_rank s' = SEVERITY_RANK (severity f) \<and> window_start_ms f = min (obs_ms (s_first s)) (obs_ms ev)
         \<and> score f = Some (round_to 6 (s_max_score s)))"
proof (cases "suspicious cfg s \<and> SEVERITY_RANK (enc_severity s ext) > s_rank s")
  case True
  have sev: "enc_severity (s\<lparr>s_rank := x\<rparr>) ext = enc_severity s ext" for x by (simp add: enc_severity_def)
  show ?thesis using assms True enc_severity_rank [of s ext] by (auto simp: enc_report_def Let_def session_ok_def sev)
next
  case False
  then have "s' = s" "fs = []" using assms(1) by (auto simp: enc_report_def Let_def split: if_splits)
  then show ?thesis using assms(2) by simp
qed

text \<open>
  A finding of an encrypted session rests on at least the configured number of scored sessions and
  positive indicators, its score is the best session score, between the threshold and 1, it raises the
  severity over every earlier finding of the same session state, so that there are at most two, and its
  window starts at the first session, however long ago.
\<close>

theorem encrypted_findings_sound:
  assumes "enc_on_event cfg inven now_us key st ev = Some r" and "session_ok st"
  shows "\<exists>s. new_state r = Some s \<and> session_ok (new_state r) \<and> s_last s = ev_min ev
    \<and> (\<forall>f \<in> set (outs (emitted r)). tls_min_sessions cfg \<le> s_scored s \<and> s_scored s \<le> evidence_count f
        \<and> tls_min_positive cfg \<le> int (length (s_positives s))
        \<and> (\<exists>sc. score f = Some (round_to 6 sc) \<and> tls_min_score cfg \<le> sc \<and> sc \<le> 1)
        \<and> s_rank (current_session cfg st ev) < SEVERITY_RANK (severity f) \<and> s_rank s = SEVERITY_RANK (severity f)
        \<and> window_start_ms f = min (obs_ms (s_first s)) (obs_ms ev))"
proof -
  obtain src dst where sd: "jstr (payload ev) ''src_ip'' = Some src" "jstr (payload ev) ''dst_ip'' = Some dst"
    using assms(1) by (auto simp: enc_on_event_def split: option.splits)
  let ?ext = "\<not> is_local inven (Some dst)"
  let ?ind = "indicators (payload ev) (avail ev) ?ext"
  let ?s0 = "current_session cfg st ev"
  have ok0: "session_ok (Some ?s0)" using assms(2) by (auto simp: current_session_def split: option.splits)
  obtain s2 sc where 2: "score_session cfg ?ind (enter_session ev ?s0) = (s2, sc)" by fastforce
  obtain s3 fs where 3: "enc_report cfg key ev ?ind ?ext src dst s2 = (s3, fs)" by fastforce
  have "\<exists>s4 es. new_state r = Some s4 \<and> emitted r = map Out fs @ es \<and> outs es = [] \<and> s4 = s3\<lparr>s_last_feature := s_last_feature s4\<rparr>"
    using assms(1) sd 2 3 by (auto simp: enc_on_event_def Let_def outs_emit_feature split: prod.splits if_split_asm option.splits)
  then obtain lf es where r: "new_state r = Some (s3\<lparr>s_last_feature := lf\<rparr>)" "emitted r = map Out fs @ es" "outs es = []" by metis
  note s2 = session_ok_enter [OF ok0 2]
  note s3 = enc_report_fields [OF 3 conjunct1 [OF s2]]
  have ok: "session_ok (Some (s3\<lparr>s_last_feature := lf\<rparr>))" using s3 by (simp add: session_ok_def)
  have b: "s_scored s2 \<le> s_sessions s2" "s_max_score s2 \<le> 1" "s_max_pos s2 = int (length (s_positives s2))"
    using s2 by (simp_all add: session_ok_def)
  show ?thesis using ok r s3 s2 b unfolding suspicious_def by (intro exI [of _ "s3\<lparr>s_last_feature := lf\<rparr>"]) auto
qed

definition demo_ssl :: "int \<Rightarrow> event" where
  "demo_ssl t = \<lparr>obs_ms = t, event_time_us = t * 1000, offset_us = 0, received_us = t * 1000, sensor_id = ''s'', run = None,
     ev_id = ''e'', boot = ''b'', log_type = ''ssl'', coverage = ''both_directions'',
     payload = [(''src_ip'', JStr ''10.0.0.1''), (''dst_ip'', JStr ''192.0.2.1''), (''version'', JStr ''TLSv10''),
       (''dst_port'', JInt 4444), (''validation_status'', JStr ''self signed'')], avail = [(''server_name'', JStr ''MISSING'')]\<rparr>"

lemma demo_enc_event:
  "\<exists>r f. enc_on_event (default_config\<lparr>tls_min_sessions := 1\<rparr>) no_inventory 0 ''k'' None (demo_ssl 1000) = Some r
     \<and> f \<in> set (outs (emitted r))"
proof -
  obtain t0 t1 where t: "format_us 0 = Some t0" "format_us 1000000 = Some t1"
    using format_us_Some [of 1000000] format_us_Some [of 0] by auto
  have low: "lower (strip is_space ''self signed'') \<noteq> ''ok''" by code_simp
  have i: "indicators (payload (demo_ssl 1000)) (avail (demo_ssl 1000)) True = [(''old_tls_version'', Some True), (''sni_absent'', Some True),
      (''sni_ip_literal'', Some False), (''nonstandard_port'', Some True), (''certificate_not_validated'', Some True), (''dst_external'', Some True)]"
    using low by (simp add: indicators_def demo_ssl_def Let_def jstr_def jint_def OLD_VERSIONS_def STANDARD_TLS_PORTS_def)
  have sc: "metadata_score [(''old_tls_version'', Some True), (''sni_absent'', Some True), (''sni_ip_literal'', Some False),
      (''nonstandard_port'', Some True), (''certificate_not_validated'', Some True), (''dst_external'', Some True)] = 5 / 6"
    by (simp add: metadata_score_def positives_of_def available_def weight_def WEIGHTS_def del: not_None_eq)
  let ?ind = "[(''old_tls_version'', Some True), (''sni_absent'', Some True), (''sni_ip_literal'', Some False),
      (''nonstandard_port'', Some True), (''certificate_not_validated'', Some True), (''dst_external'', Some True)]"
  have av: "length (available ?ind) = 6" "length (positives_of ?ind) = 5"
    by (simp_all add: available_def positives_of_def del: not_None_eq)
  have p: "jstr (payload (demo_ssl 1000)) ''src_ip'' = Some ''10.0.0.1''" "jstr (payload (demo_ssl 1000)) ''dst_ip'' = Some ''192.0.2.1''"
    "obs_ms (demo_ssl 1000) = 1000"
    by (simp_all add: demo_ssl_def jstr_def)
  show ?thesis
    by (simp add: i sc t p av enc_on_event_def Let_def current_session_def enter_session_def session_new_def score_session_def
        abstains_def enc_report_def suspicious_def enc_severity_def SEVERITY_RANK_def rate_limited_def
        emit_feature_def enc_feature_def feature_record_def format_ms_def)
qed

theorem encrypted_findings_sound_witness:
  "\<exists>r f s. enc_on_event (default_config\<lparr>tls_min_sessions := 1\<rparr>) no_inventory 0 ''k'' None (demo_ssl 1000) = Some r
     \<and> f \<in> set (outs (emitted r)) \<and> new_state r = Some s \<and> 2 \<le> length (s_positives s)"
proof -
  obtain r f where r: "enc_on_event (default_config\<lparr>tls_min_sessions := 1\<rparr>) no_inventory 0 ''k'' None (demo_ssl 1000) = Some r"
    "f \<in> set (outs (emitted r))" using demo_enc_event by blast
  have "session_ok None" by (simp add: session_ok_def)
  from encrypted_findings_sound [OF r(1) this] show ?thesis using r by fastforce
qed

section \<open>In the harness\<close>

interpretation encrypted_logic: passive_logic "enc_on_event cfg inven" "\<lambda>_. enc_on_timer cfg" None "\<lambda>_. True" "\<lambda>_. True" for cfg inven
  by unfold_locales (auto simp: enc_on_timer_def split: option.splits if_splits)

end
