(* ===== verification/Ddos.thy ===== *)
theory Ddos
  imports FlowDelta
begin

text \<open>
  The flood detector (\<^verbatim>\<open>flink/sih_detect/ddos.py\<close>), keyed by destination host: one-second
  buckets with source sketches, a baseline over closed seconds, and the current episode. \<open>hash64\<close> is the
  hash of the sketches. The theorems bound the buckets, tie the reported counts to the flows that were
  entered, and show which condition each subtype of finding satisfies.
\<close>

section \<open>State\<close>

definition DDOS_VERSION :: string where "DDOS_VERSION = ''ddos-1.0.0''"
definition DDOS_FSV :: string where "DDOS_FSV = ''ddos_features-1.0.0''"
definition AMP_PORTS :: "int list" where "AMP_PORTS = [19, 53, 111, 123, 137, 161, 389, 1900, 3702, 5353, 11211]"
definition KEEP_BUCKETS :: int where "KEEP_BUCKETS = 10"

definition PRIORITY :: "string \<Rightarrow> int" where
  "PRIORITY s = (if s = ''udp_amplification_like'' then 3 else if s = ''spoofed_source_like_flood'' then 2
     else if s = ''syn_flood'' then 1 else 0)"

record bucket =
  bk_flows :: int
  bk_syn :: int
  bk_bytes :: int
  bk_pkts :: int
  bk_bytes_unknown :: bool
  bk_pkts_unknown :: bool
  bk_amp_flows :: int
  bk_amp_bytes :: int
  bk_srcs :: card_sketch
  bk_amp_srcs :: card_sketch
  bk_anomalous :: bool
  bk_closed :: bool

definition new_bucket :: bucket where
  "new_bucket = \<lparr>bk_flows = 0, bk_syn = 0, bk_bytes = 0, bk_pkts = 0, bk_bytes_unknown = False, bk_pkts_unknown = False,
     bk_amp_flows = 0, bk_amp_bytes = 0, bk_srcs = card_new, bk_amp_srcs = card_new, bk_anomalous = False, bk_closed = False\<rparr>"

record episode =
  ep_start :: int
  ep_last :: int
  ep_rank :: int
  ep_prio :: int
  ep_emitted_flows :: int

record flood =
  fd_buckets :: "(int \<times> bucket) list"
  fd_flows :: ewma
  fd_bytes :: ewma
  fd_episode :: "episode option"
  fd_ids :: "string list"
  fd_first :: ev_min
  fd_last :: ev_min
  fd_last_feature :: "int option"

definition flood_new :: "flow_delta \<Rightarrow> flood" where
  "flood_new d = \<lparr>fd_buckets = [], fd_flows = ewma_new, fd_bytes = ewma_new, fd_episode = None, fd_ids = [],
     fd_first = ev_min d, fd_last = ev_min d, fd_last_feature = None\<rparr>"

section \<open>Closing seconds\<close>

text \<open>\<^verbatim>\<open>_close_old\<close>: each second before the current one is folded into the baseline once, unless
  anomalous, and dropped ten seconds later.\<close>

definition learn :: "bucket \<Rightarrow> flood \<Rightarrow> flood" where
  "learn bk s =
     (if bk_anomalous bk then s
      else let s1 = s\<lparr>fd_flows := ewma_update (1 / 20) (of_int (bk_flows bk)) (fd_flows s)\<rparr>
           in if bk_bytes_unknown bk then s1 else s1\<lparr>fd_bytes := ewma_update (1 / 20) (of_int (bk_bytes bk)) (fd_bytes s1)\<rparr>)"

definition close_one :: "int \<Rightarrow> flood \<Rightarrow> int \<Rightarrow> flood" where
  "close_one sec s k =
     (case map_of (fd_buckets s) k of None \<Rightarrow> s
      | Some bk \<Rightarrow>
          let s1 = (if bk_closed bk then s
                    else (learn bk s)\<lparr>fd_buckets := od_set k (bk\<lparr>bk_closed := True\<rparr>) (fd_buckets s)\<rparr>)
          in if k < sec - KEEP_BUCKETS then s1\<lparr>fd_buckets := od_del k (fd_buckets s1)\<rparr> else s1)"

definition close_old :: "int \<Rightarrow> flood \<Rightarrow> flood" where
  "close_old sec s = foldl (close_one sec) s (filter (\<lambda>k. k < sec) (sort (map fst (fd_buckets s))))"

section \<open>Entering a record\<close>

definition is_amp :: "flow_delta \<Rightarrow> bool" where
  "is_amp d \<longleftrightarrow> fl_proto d = ''udp'' \<and> (\<exists>q \<in> set AMP_PORTS. fl_sport d = Some q)"

definition sum_known :: "int option \<Rightarrow> int option \<Rightarrow> int" where
  "sum_known x y = or_zero x + or_zero y"

definition enter_flow :: "hash64 \<Rightarrow> flow_delta \<Rightarrow> bucket \<Rightarrow> bucket" where
  "enter_flow hash64 d b =
     (if \<not> fl_new_flow d then b
      else let b1 = b\<lparr>bk_flows := bk_flows b + 1, bk_srcs := card_add hash64 (bk_srcs b) (fl_src d)\<rparr>;
               b2 = (if fl_proto d = ''tcp'' \<and> fl_terminal d \<and> fl_conn_state d = Some ''S0'' then b1\<lparr>bk_syn := bk_syn b1 + 1\<rparr> else b1)
           in if is_amp d then b2\<lparr>bk_amp_flows := bk_amp_flows b2 + 1, bk_amp_srcs := card_add hash64 (bk_amp_srcs b2) (fl_src d)\<rparr> else b2)"

definition enter_volume :: "flow_delta \<Rightarrow> bucket \<Rightarrow> bucket" where
  "enter_volume d b =
     (let ob = fl_d d OrigBytes; rb = fl_d d RespBytes; op = fl_d d OrigPkts; rp = fl_d d RespPkts;
          b1 = b\<lparr>bk_bytes_unknown := bk_bytes_unknown b \<or> ob = None \<or> rb = None, bk_bytes := bk_bytes b + sum_known ob rb,
                 bk_pkts_unknown := bk_pkts_unknown b \<or> op = None \<or> rp = None, bk_pkts := bk_pkts b + sum_known op rp\<rparr>
      in if is_amp d \<and> ob \<noteq> None then b1\<lparr>bk_amp_bytes := bk_amp_bytes b1 + or_zero ob\<rparr> else b1)"

definition bucket_at :: "int \<Rightarrow> flood \<Rightarrow> bucket" where
  "bucket_at sec s = (case map_of (fd_buckets s) sec of None \<Rightarrow> new_bucket | Some b \<Rightarrow> b)"

definition enter_flood :: "hash64 \<Rightarrow> flow_delta \<Rightarrow> flood option \<Rightarrow> flood" where
  "enter_flood hash64 d st =
     (let sec = obs_ms d div 1000;
          s = close_old sec (case st of None \<Rightarrow> flood_new d | Some s \<Rightarrow> s)
      in s\<lparr>fd_buckets := od_set sec (enter_volume d (enter_flow hash64 d (bucket_at sec s))) (fd_buckets s),
           fd_ids := append_ids (fd_ids s) (fl_event_id d), fd_last := ev_min d\<rparr>)"

section \<open>Measures and classification\<close>

record measures =
  ms_bucket :: bucket
  ms_w_flows :: int
  ms_srcs :: card_sketch
  ms_w_srcs :: int
  ms_w_amp_srcs :: int
  ms_warm :: bool
  ms_thr_flows :: real
  ms_thr_bytes :: real

definition window_buckets :: "int \<Rightarrow> flood \<Rightarrow> bucket list" where
  "window_buckets sec s = map snd (filter (\<lambda>(k, b). sec - 4 \<le> k \<and> k \<le> sec) (fd_buckets s))"

definition baseline_thr :: "detect_config \<Rightarrow> bool \<Rightarrow> int \<Rightarrow> ewma \<Rightarrow> real" where
  "baseline_thr cfg is_warm least e = (if is_warm then max (of_int least) (ew_mean e + ddos_baseline_k cfg * ewma_std e) else of_int least)"

definition measure_flood :: "hash64 \<Rightarrow> detect_config \<Rightarrow> int \<Rightarrow> flood \<Rightarrow> measures" where
  "measure_flood hash64 cfg sec s =
     (let win = window_buckets sec s; srcs = card_merge hash64 (map bk_srcs win); w = (int (ew_n (fd_flows s)) \<ge> ddos_warmup_buckets cfg)
      in \<lparr>ms_bucket = bucket_at sec s, ms_w_flows = sum_list (map bk_flows win), ms_srcs = srcs, ms_w_srcs = card_count srcs,
          ms_w_amp_srcs = card_count (card_merge hash64 (map bk_amp_srcs win)), ms_warm = w,
          ms_thr_flows = baseline_thr cfg w (ddos_min_flows_per_s cfg) (fd_flows s),
          ms_thr_bytes = baseline_thr cfg w (ddos_min_bytes_per_s cfg) (fd_bytes s)\<rparr>)"

definition is_amplification :: "detect_config \<Rightarrow> measures \<Rightarrow> bool" where
  "is_amplification cfg m \<longleftrightarrow> bk_amp_bytes (ms_bucket m) \<ge> ddos_amp_min_bytes_per_s cfg
     \<and> ms_w_amp_srcs m \<ge> ddos_amp_min_reflectors_5s cfg"

definition is_spoofed :: "detect_config \<Rightarrow> measures \<Rightarrow> bool" where
  "is_spoofed cfg m \<longleftrightarrow> ms_w_srcs m \<ge> ddos_spoof_min_sources_5s cfg \<and> real_of_int (ms_w_flows m) / of_int (max 1 (ms_w_srcs m)) \<le> 3 / 2
     \<and> of_int (bk_flows (ms_bucket m)) \<ge> ms_thr_flows m / 2"

definition is_syn :: "detect_config \<Rightarrow> measures \<Rightarrow> bool" where
  "is_syn cfg m \<longleftrightarrow> bk_syn (ms_bucket m) \<ge> ddos_syn_min_per_s cfg \<and> real_of_int (bk_syn (ms_bucket m)) \<ge> 4 / 5 * of_int (bk_flows (ms_bucket m))"

definition is_volumetric :: "measures \<Rightarrow> bool" where
  "is_volumetric m \<longleftrightarrow> of_int (bk_flows (ms_bucket m)) \<ge> ms_thr_flows m \<or> of_int (bk_bytes (ms_bucket m)) \<ge> ms_thr_bytes m"

definition classify :: "detect_config \<Rightarrow> measures \<Rightarrow> string option" where
  "classify cfg m =
     (if is_amplification cfg m then Some ''udp_amplification_like''
      else if is_spoofed cfg m then Some ''spoofed_source_like_flood''
      else if is_syn cfg m then Some ''syn_flood''
      else if is_volumetric m then Some ''volumetric_flood'' else None)"

definition excess :: "detect_config \<Rightarrow> measures \<Rightarrow> string \<Rightarrow> real" where
  "excess cfg m st =
     max (max (of_int (bk_flows (ms_bucket m)) / ms_thr_flows m) (of_int (bk_bytes (ms_bucket m)) / ms_thr_bytes m))
         (if st = ''udp_amplification_like'' then of_int (bk_amp_bytes (ms_bucket m)) / of_int (ddos_amp_min_bytes_per_s cfg) else 0)"

definition flood_severity :: "detect_config \<Rightarrow> measures \<Rightarrow> string \<Rightarrow> string" where
  "flood_severity cfg m st = (if excess cfg m st \<ge> 10 then ''critical'' else ''high'')"

section \<open>Reporting\<close>

definition flood_explanation :: "string \<Rightarrow> measures \<Rightarrow> string \<Rightarrow> string" where
  "flood_explanation dst m st =
     (let b = ms_bucket m in
      ''Destination '' @ dst @ '' received '' @ str_of_int (bk_flows b) @ '' new flows and '' @ str_of_int (bk_bytes b)
      @ '' bytes in one second (flow threshold '' @ fmt_fixed 0 (ms_thr_flows m) @ ''/s) from about '' @ str_of_int (ms_w_srcs m)
      @ '' sources in 5 s.''
      @ (if st = ''syn_flood'' then '' '' @ str_of_int (bk_syn b) @ '' were connection attempts with no observed reply.''
         else if st = ''udp_amplification_like'' then '' '' @ str_of_int (bk_amp_bytes b) @ '' bytes/s arrived from ''
                @ str_of_int (ms_w_amp_srcs m) @ '' sources using amplification-prone UDP ports.''
         else if st = ''spoofed_source_like_flood''
         then '' Sources average at most 1.5 flows each; this pattern is consistent with, but does not prove, spoofed sources.''
         else [])
      @ (if is_estimate (ms_srcs m) then '' Source count is a sketch estimate.'' else []))"

definition bytes_json :: "bucket \<Rightarrow> json" where
  "bytes_json b = (if bk_bytes_unknown b then JNull else JInt (bk_bytes b))"

definition pkts_json :: "bucket \<Rightarrow> json" where
  "pkts_json b = (if bk_pkts_unknown b then JNull else JInt (bk_pkts b))"

definition per_source :: "measures \<Rightarrow> json" where
  "per_source m = JReal (of_int (ms_w_flows m) / of_int (max 1 (ms_w_srcs m)))"

definition sketch_capped :: "measures \<Rightarrow> string list" where
  "sketch_capped m = (if is_estimate (ms_srcs m) then [''distinct_sources_5s''] else [])"

definition warm_json :: "measures \<Rightarrow> real \<Rightarrow> json" where
  "warm_json m x = (if ms_warm m then JReal x else JNull)"

text \<open>\<^verbatim>\<open>max(least, x)\<close> keeps the integer unless the baseline is larger.\<close>

definition thr_json :: "int \<Rightarrow> real \<Rightarrow> json" where
  "thr_json least thr = (if thr = of_int least then JInt least else JReal thr)"

definition flood_finding :: "detect_config \<Rightarrow> string \<Rightarrow> flow_delta \<Rightarrow> flood \<Rightarrow> measures \<Rightarrow> string \<Rightarrow> finding" where
  "flood_finding cfg dst d s m st =
     (let b = ms_bucket m; sec = obs_ms d div 1000 in finding (no_args\<lparr>
        a_detector := ''ddos'', a_threat_class := ''ddos'', a_subtype := st, a_entity_type := ''dst_host'', a_entity_key := dst,
        a_severity := flood_severity cfg m st, a_score := Some (min 1 (1 / 2 + 1 / 20 * excess cfg m st)),
        a_method := (if ms_warm m then ''statistical'' else ''rule''), a_detector_version := DDOS_VERSION,
        a_feature_schema_version := DDOS_FSV, a_first := fd_first s, a_last := fd_last s,
        a_window_start_ms := (sec - 4) * 1000, a_window_end_ms := obs_ms d,
        a_observed := [(''flows_per_s'', JInt (bk_flows b)), (''syn_only_per_s'', JInt (bk_syn b)), (''bytes_per_s'', bytes_json b),
           (''pkts_per_s'', pkts_json b), (''distinct_sources_5s'', JInt (ms_w_srcs m)), (''flows_per_source_5s'', per_source m),
           (''amp_bytes_per_s'', JInt (bk_amp_bytes b)), (''amp_sources_5s'', JInt (ms_w_amp_srcs m))],
        a_thresholds := [(''flows_per_s'', thr_json (ddos_min_flows_per_s cfg) (ms_thr_flows m)),
           (''bytes_per_s'', thr_json (ddos_min_bytes_per_s cfg) (ms_thr_bytes m)),
           (''syn_only_per_s'', JInt (ddos_syn_min_per_s cfg)), (''spoof_min_sources_5s'', JInt (ddos_spoof_min_sources_5s cfg)),
           (''amp_bytes_per_s'', JInt (ddos_amp_min_bytes_per_s cfg))],
        a_baseline := [(''flows_mean'', warm_json m (ew_mean (fd_flows s))), (''flows_std'', warm_json m (ewma_std (fd_flows s))),
           (''bytes_mean'', warm_json m (ew_mean (fd_bytes s)))],
        a_unavailable := (if bk_bytes_unknown b then [''bytes_per_s''] else []) @ (if bk_pkts_unknown b then [''pkts_per_s''] else []),
        a_capped := sketch_capped m, a_coverage := fl_coverage d, a_dst_ip := Some dst, a_protocol := Some (fl_proto d),
        a_raw_event_ids := fd_ids s, a_evidence_count := ms_w_flows m,
        a_top_features := [(''flows_per_s'', JInt (bk_flows b), JNull, JStr ''1/s''),
           (''distinct_sources_5s'', JInt (ms_w_srcs m), JNull, JStr ''count''),
           (''syn_only_per_s'', JInt (bk_syn b), JNull, JStr ''1/s''), (''amp_bytes_per_s'', JInt (bk_amp_bytes b), JNull, JStr ''B/s'')],
        a_explanation := flood_explanation dst m st\<rparr>))"

definition flood_feature :: "int \<Rightarrow> string \<Rightarrow> flow_delta \<Rightarrow> flood \<Rightarrow> measures \<Rightarrow> dict option" where
  "flood_feature now_us dst d s m =
     (let b = ms_bucket m; sec = obs_ms d div 1000 in
      feature_record now_us ''ddos'' DDOS_FSV ''dst_host'' dst (sensor_id d) ((sec - 4) * 1000) (obs_ms d)
        [(''flows_per_s'', JInt (bk_flows b)), (''syn_only_per_s'', JInt (bk_syn b)), (''bytes_per_s'', bytes_json b),
         (''pkts_per_s'', pkts_json b), (''distinct_sources_5s'', JInt (ms_w_srcs m)), (''flows_per_source_5s'', per_source m),
         (''amp_bytes_per_s'', JInt (bk_amp_bytes b)), (''amp_sources_5s'', JInt (ms_w_amp_srcs m)),
         (''baseline_flows_mean'', warm_json m (ew_mean (fd_flows s))), (''baseline_flows_std'', warm_json m (ewma_std (fd_flows s)))]
        [(''bytes_per_s'', ''UNKNOWN''), (''pkts_per_s'', ''UNKNOWN''), (''baseline_flows_mean'', ''MISSING''),
         (''baseline_flows_std'', ''MISSING'')]
        (sketch_capped m))"

definition current_episode :: "detect_config \<Rightarrow> flow_delta \<Rightarrow> episode option \<Rightarrow> episode" where
  "current_episode cfg d ep =
     (let fresh = \<lparr>ep_start = obs_ms d, ep_last = obs_ms d, ep_rank = - 1, ep_prio = - 1, ep_emitted_flows = 0\<rparr>
      in case ep of None \<Rightarrow> fresh
         | Some e \<Rightarrow> if obs_ms d > ep_last e + ddos_episode_gap_ms cfg then fresh else e\<lparr>ep_last := obs_ms d\<rparr>)"

text \<open>Marking the second and reporting a new rank, a more specific subtype, or twice the flows.\<close>

definition flood_report :: "detect_config \<Rightarrow> string \<Rightarrow> flow_delta \<Rightarrow> flood \<Rightarrow> measures \<Rightarrow> flood \<times> finding list" where
  "flood_report cfg dst d s m =
     (case classify cfg m of None \<Rightarrow> (s, [])
      | Some st \<Rightarrow>
          let sec = obs_ms d div 1000;
              s1 = s\<lparr>fd_buckets := od_set sec ((bucket_at sec s)\<lparr>bk_anomalous := True\<rparr>) (fd_buckets s)\<rparr>;
              ep = current_episode cfg d (fd_episode s); rank = SEVERITY_RANK (flood_severity cfg m st); prio = PRIORITY st
          in if rank > ep_rank ep \<or> prio > ep_prio ep \<or> ms_w_flows m \<ge> 2 * max 1 (ep_emitted_flows ep)
             then (s1\<lparr>fd_episode := Some (ep\<lparr>ep_rank := max rank (ep_rank ep), ep_prio := max prio (ep_prio ep),
                         ep_emitted_flows := ms_w_flows m\<rparr>)\<rparr>, [flood_finding cfg dst d s m st])
             else (s1\<lparr>fd_episode := Some ep\<rparr>, []))"

section \<open>The handlers\<close>

type_synonym flood_step = "(flood option, finding) step"

text \<open>A zero threshold of a flood that is being rated is ZeroDivisionError.\<close>

definition zero_threshold :: "detect_config \<Rightarrow> measures \<Rightarrow> bool" where
  "zero_threshold cfg m \<longleftrightarrow> (case classify cfg m of None \<Rightarrow> False
     | Some st \<Rightarrow> ms_thr_flows m = 0 \<or> ms_thr_bytes m = 0 \<or> (st = ''udp_amplification_like'' \<and> ddos_amp_min_bytes_per_s cfg = 0))"

definition flood_on_event ::
  "hash64 \<Rightarrow> detect_config \<Rightarrow> int \<Rightarrow> string \<Rightarrow> flood option \<Rightarrow> flow_delta \<Rightarrow> flood_step option" where
  "flood_on_event hash64 cfg now_us dst st d =
     (let s1 = enter_flood hash64 d st;
          m = measure_flood hash64 cfg (obs_ms d div 1000) s1;
          (s2, fs) = flood_report cfg dst d s1 m;
          (due, lf) = (if of_int (bk_flows (ms_bucket m)) \<ge> ms_thr_flows m / 4 \<or> classify cfg m \<noteq> None
                       then rate_limited (fd_last_feature s2) (obs_ms d) (feature_min_interval_ms cfg) else (False, fd_last_feature s2));
          s3 = s2\<lparr>fd_last_feature := lf\<rparr>
      in if zero_threshold cfg m then None
         else map_option (\<lambda>es. \<lparr>new_state = Some s3, emitted = map Out fs @ es,
                timers = [bucket_up (obs_ms d + ddos_idle_ms cfg) 10000], metrics = []\<rparr>)
              (emit_feature due (flood_feature now_us dst d s3 m)))"

definition flood_on_timer :: "detect_config \<Rightarrow> string \<Rightarrow> flood option \<Rightarrow> int \<Rightarrow> flood_step option" where
  "flood_on_timer cfg dst st ts =
     (case st of
        Some s \<Rightarrow> if obs_ms (fd_last s) + ddos_idle_ms cfg \<le> ts
          then Some \<lparr>new_state = None, emitted = [], timers = [], metrics = [''ddos_state_expired'']\<rparr>
          else Some \<lparr>new_state = st, emitted = [], timers = [], metrics = []\<rparr>
      | None \<Rightarrow> Some \<lparr>new_state = st, emitted = [], timers = [], metrics = []\<rparr>)"

section \<open>Invariant\<close>

definition bucket_ok :: "hash64 \<Rightarrow> bucket \<Rightarrow> bool" where
  "bucket_ok hash64 b \<longleftrightarrow> (\<exists>xs. bk_srcs b = sketch_of hash64 xs \<and> bk_flows b = int (length xs))
     \<and> (\<exists>ys. bk_amp_srcs b = sketch_of hash64 ys \<and> bk_amp_flows b = int (length ys))
     \<and> 0 \<le> bk_syn b \<and> bk_syn b \<le> bk_flows b"

definition flood_ok :: "hash64 \<Rightarrow> flood option \<Rightarrow> bool" where
  "flood_ok hash64 st \<longleftrightarrow> (\<forall>s. st = Some s \<longrightarrow> distinct (map fst (fd_buckets s)) \<and> (\<forall>(k, b) \<in> set (fd_buckets s). bucket_ok hash64 b)
     \<and> length (fd_ids s) \<le> 32)"

text \<open>Which buckets a record at second \<open>sec\<close> leaves: the recent ones, all earlier ones closed.\<close>

definition recent :: "int \<Rightarrow> flood \<Rightarrow> bool" where
  "recent sec s \<longleftrightarrow> (\<forall>(k, b) \<in> set (fd_buckets s). sec - KEEP_BUCKETS \<le> k \<and> (k < sec \<longrightarrow> bk_closed b))"

lemma sketch_of_snoc: "card_add hash64 (sketch_of hash64 xs) x = sketch_of hash64 (xs @ [x])"
  by (simp add: sketch_of_def)

lemma bucket_ok_new: "bucket_ok hash64 new_bucket"
  by (auto simp: bucket_ok_def new_bucket_def sketch_of_def intro!: exI [of _ "[]"])

lemma bucket_ok_flags [simp]:
  "bucket_ok hash64 (b\<lparr>bk_closed := c\<rparr>) = bucket_ok hash64 b" "bucket_ok hash64 (b\<lparr>bk_anomalous := c\<rparr>) = bucket_ok hash64 b"
  by (simp_all add: bucket_ok_def)

lemma bucket_ok_enter_flow:
  assumes "bucket_ok hash64 b" shows "bucket_ok hash64 (enter_flow hash64 d b)"
proof -
  obtain xs ys where b: "bk_srcs b = sketch_of hash64 xs" "bk_flows b = int (length xs)" "bk_amp_srcs b = sketch_of hash64 ys"
    "bk_amp_flows b = int (length ys)" "0 \<le> bk_syn b" "bk_syn b \<le> bk_flows b"
    using assms by (auto simp: bucket_ok_def)
  show ?thesis
  proof (cases "fl_new_flow d")
    case True
    let ?e = "enter_flow hash64 d b"
    have x: "bk_srcs ?e = sketch_of hash64 (xs @ [fl_src d])" "bk_flows ?e = int (length (xs @ [fl_src d]))"
      using True b by (simp_all add: enter_flow_def Let_def sketch_of_snoc)
    have y: "bk_amp_srcs ?e = sketch_of hash64 (if is_amp d then ys @ [fl_src d] else ys)"
      "bk_amp_flows ?e = int (length (if is_amp d then ys @ [fl_src d] else ys))"
      using True b by (simp_all add: enter_flow_def Let_def sketch_of_snoc)
    have z: "0 \<le> bk_syn ?e" "bk_syn ?e \<le> bk_flows ?e" using True b by (simp_all add: enter_flow_def Let_def)
    show ?thesis unfolding bucket_ok_def using x y z by blast
  qed (use assms in \<open>simp add: enter_flow_def\<close>)
qed

lemma bucket_ok_enter_volume [simp]: "bucket_ok hash64 (enter_volume d b) = bucket_ok hash64 b"
  by (simp add: bucket_ok_def enter_volume_def Let_def)

lemma set_od_set: "p \<in> set (od_set k v xs) \<Longrightarrow> p = (k, v) \<or> p \<in> set xs"
  by (induction k v xs rule: od_set.induct) (auto split: if_splits)

lemma learn_fields [simp]: "fd_buckets (learn b s) = fd_buckets s" "fd_ids (learn b s) = fd_ids s"
  by (simp_all add: learn_def Let_def)

lemma od_del_od_set: "od_del k (od_set k v xs) = od_del k xs"
  by (induction k v xs rule: od_set.induct) (auto simp: od_del_def)

lemma close_one_fields [simp]: "fd_ids (close_one sec s k) = fd_ids s"
  by (simp add: close_one_def Let_def split: option.splits)

lemma set_od_set_eq:
  "distinct (map fst xs) \<Longrightarrow> set (od_set k v (xs :: ('a \<times> 'b) list)) = {p \<in> set xs. fst p \<noteq> k} \<union> {(k, v)}"
proof (intro set_eqI)
  fix p :: "'a \<times> 'b" assume d: "distinct (map fst xs)"
  obtain a b where p: "p = (a, b)" by fastforce
  have "(a, b) \<in> set (od_set k v xs) \<longleftrightarrow> map_of (od_set k v xs) a = Some b"
    using map_of_eq_Some_iff [OF distinct_od_set [OF d]] by simp
  also have "\<dots> \<longleftrightarrow> (if a = k then b = v else (a, b) \<in> set xs)" using map_of_eq_Some_iff [OF d] by auto
  finally show "p \<in> set (od_set k v xs) \<longleftrightarrow> p \<in> {p \<in> set xs. fst p \<noteq> k} \<union> {(k, v)}" unfolding p by auto
qed

text \<open>Closing one second touches only its own bucket.\<close>

lemma close_one_buckets:
  assumes "distinct (map fst (fd_buckets s))"
  shows "distinct (map fst (fd_buckets (close_one sec s k)))
    \<and> (\<forall>k' b'. (k', b') \<in> set (fd_buckets (close_one sec s k)) \<longrightarrow>
        (k' \<noteq> k \<and> (k', b') \<in> set (fd_buckets s))
        \<or> (k' = k \<and> sec - KEEP_BUCKETS \<le> k \<and> (\<exists>b. (k, b) \<in> set (fd_buckets s) \<and> b' = b\<lparr>bk_closed := True\<rparr>)))"
proof (cases "map_of (fd_buckets s) k")
  case None
  then have "k \<notin> fst ` set (fd_buckets s)" by (simp add: map_of_eq_None_iff)
  then show ?thesis using assms None by (auto simp: close_one_def image_iff)
next
  case (Some bk)
  then have mem: "(k, bk) \<in> set (fd_buckets s)" "k \<in> fst ` set (fd_buckets s)"
    using map_of_SomeD by (fast, force dest: map_of_SomeD)
  have uniq: "b = bk" if "(k, b) \<in> set (fd_buckets s)" for b
    using eq_key_imp_eq_value [OF assms that mem(1)] .
  have same: "bk\<lparr>bk_closed := True\<rparr> = bk" if "bk_closed bk" using that by simp
  show ?thesis
  proof (cases "k < sec - KEEP_BUCKETS")
    case True
    then have "fd_buckets (close_one sec s k) = od_del k (fd_buckets s)"
      using Some by (simp add: close_one_def Let_def od_del_od_set)
    then show ?thesis using assms by (auto simp: set_od_del)
  next
    case False
    then have e: "fd_buckets (close_one sec s k) = (if bk_closed bk then fd_buckets s else od_set k (bk\<lparr>bk_closed := True\<rparr>) (fd_buckets s))"
      using Some by (simp add: close_one_def Let_def)
    show ?thesis
    proof (cases "bk_closed bk")
      case True
      have "\<exists>b. (k, b) \<in> set (fd_buckets s) \<and> b' = b\<lparr>bk_closed := True\<rparr>" if "(k, b') \<in> set (fd_buckets s)" for b'
        using uniq [OF that] same [OF True] mem(1) by metis
      then show ?thesis using e True assms \<open>\<not> k < sec - KEEP_BUCKETS\<close> by auto
    next
      case False
      then show ?thesis using e assms mem \<open>\<not> k < sec - KEEP_BUCKETS\<close> by (auto simp: set_od_set_eq)
    qed
  qed
qed

lemma close_old_buckets:
  assumes "distinct (map fst (fd_buckets s))" "\<forall>(k, b) \<in> set (fd_buckets s). bucket_ok hash64 b"
  shows "distinct (map fst (fd_buckets (close_old sec s))) \<and> (\<forall>(k, b) \<in> set (fd_buckets (close_old sec s)). bucket_ok hash64 b)
    \<and> fd_ids (close_old sec s) = fd_ids s \<and> recent sec (close_old sec s)"
proof -
  have gen: "distinct (map fst (fd_buckets (foldl (close_one sec) s ks)))
      \<and> (\<forall>(k, b) \<in> set (fd_buckets (foldl (close_one sec) s ks)). bucket_ok hash64 b
          \<and> k \<in> fst ` set (fd_buckets s) \<and> (k \<in> set ks \<longrightarrow> sec - KEEP_BUCKETS \<le> k \<and> bk_closed b))
      \<and> fd_ids (foldl (close_one sec) s ks) = fd_ids s" for ks
  proof (induction ks rule: rev_induct)
    case Nil
    then show ?case using assms by force
  next
    case (snoc k ks)
    let ?s = "foldl (close_one sec) s ks"
    have d: "distinct (map fst (fd_buckets ?s))" using snoc by simp
    note c = close_one_buckets [OF d, of sec k]
    have "bucket_ok hash64 b' \<and> k' \<in> fst ` set (fd_buckets s) \<and> (k' \<in> set (ks @ [k]) \<longrightarrow> sec - KEEP_BUCKETS \<le> k' \<and> bk_closed b')"
      if m: "(k', b') \<in> set (fd_buckets (close_one sec ?s k))" for k' b'
    proof (cases "k' = k")
      case False
      then have "(k', b') \<in> set (fd_buckets ?s)" using c m by blast
      then show ?thesis using snoc False by auto
    next
      case True
      then obtain b where b: "(k, b) \<in> set (fd_buckets ?s)" "b' = b\<lparr>bk_closed := True\<rparr>" "sec - KEEP_BUCKETS \<le> k" using c m by blast
      then show ?thesis using snoc True by auto
    qed
    then show ?case using c snoc by auto
  qed
  have "recent sec (close_old sec s)"
    unfolding recent_def close_old_def using gen [of "filter (\<lambda>k. k < sec) (sort (map fst (fd_buckets s)))"]
    by (fastforce simp: KEEP_BUCKETS_def)
  then show ?thesis using gen unfolding close_old_def by fastforce
qed

lemma recent_od_set: "recent sec s \<Longrightarrow> recent sec (s\<lparr>fd_buckets := od_set sec b (fd_buckets s)\<rparr>)"
  by (auto simp: recent_def KEEP_BUCKETS_def dest!: set_od_set)

lemma bucket_at_ok: "\<forall>(k, b) \<in> set (fd_buckets s). bucket_ok hash64 b \<Longrightarrow> bucket_ok hash64 (bucket_at sec s)"
  by (auto simp: bucket_at_def bucket_ok_new split: option.splits dest!: map_of_SomeD)

lemma enter_flood_ok:
  assumes "flood_ok hash64 st"
  shows "flood_ok hash64 (Some (enter_flood hash64 d st)) \<and> recent (obs_ms d div 1000) (enter_flood hash64 d st)
    \<and> fd_last (enter_flood hash64 d st) = ev_min d"
proof -
  let ?sec = "obs_ms d div 1000"
  let ?base = "case st of None \<Rightarrow> flood_new d | Some s \<Rightarrow> s"
  let ?s = "close_old ?sec ?base"
  have s0: "distinct (map fst (fd_buckets ?base))" "\<forall>(k, b) \<in> set (fd_buckets ?base). bucket_ok hash64 b"
    using assms by (auto simp: flood_ok_def flood_new_def split: option.splits)
  note c = close_old_buckets [OF s0, of ?sec]
  let ?b = "enter_volume d (enter_flow hash64 d (bucket_at ?sec ?s))"
  have b: "bucket_ok hash64 ?b" using c by (simp add: bucket_ok_enter_flow bucket_at_ok)
  have e: "fd_buckets (enter_flood hash64 d st) = od_set ?sec ?b (fd_buckets ?s)" by (simp add: enter_flood_def Let_def)
  have "\<forall>(k, b) \<in> set (od_set ?sec ?b (fd_buckets ?s)). bucket_ok hash64 b" using c b by (auto dest!: set_od_set)
  moreover have "recent ?sec (enter_flood hash64 d st)"
    using recent_od_set [of ?sec ?s ?b] c unfolding recent_def e by simp
  moreover have "fd_last (enter_flood hash64 d st) = ev_min d" by (simp add: enter_flood_def Let_def)
  moreover have "distinct (map fst (fd_buckets (enter_flood hash64 d st)))" unfolding e using c by simp
  moreover have "length (fd_ids (enter_flood hash64 d st)) \<le> 32" by (simp add: enter_flood_def Let_def)
  ultimately show ?thesis unfolding flood_ok_def using e by auto
qed

lemma flood_report_ok:
  assumes "flood_report cfg dst d s m = (s', fs)" "flood_ok hash64 (Some s)" "recent (obs_ms d div 1000) s"
  shows "flood_ok hash64 (Some s') \<and> recent (obs_ms d div 1000) s' \<and> fd_last s' = fd_last s
    \<and> (\<forall>f \<in> set fs. classify cfg m = Some (subtype f) \<and> evidence_count f = ms_w_flows m
        \<and> dget (observed f) ''distinct_sources_5s'' = JInt (ms_w_srcs m) \<and> bk_anomalous (bucket_at (obs_ms d div 1000) s'))"
proof (cases "classify cfg m")
  case None
  then show ?thesis using assms by (simp add: flood_report_def)
next
  case (Some st)
  let ?sec = "obs_ms d div 1000"
  let ?bs = "od_set ?sec ((bucket_at ?sec s)\<lparr>bk_anomalous := True\<rparr>) (fd_buckets s)"
  have bs: "fd_buckets s' = ?bs" "fd_ids s' = fd_ids s" "fd_last s' = fd_last s" "set fs \<subseteq> {flood_finding cfg dst d s m st}"
    using assms(1) Some by (auto simp: flood_report_def Let_def split: if_splits)
  have "bucket_ok hash64 (bucket_at ?sec s)" using assms(2) by (simp add: flood_ok_def bucket_at_ok)
  then have "\<forall>(k, b) \<in> set ?bs. bucket_ok hash64 b" using assms(2) by (auto simp: flood_ok_def dest!: set_od_set)
  then have ok: "flood_ok hash64 (Some s')" using assms(2) bs by (simp add: flood_ok_def)
  have rec: "recent ?sec s'" using recent_od_set [OF assms(3)] bs by (simp add: recent_def)
  have "bk_anomalous (bucket_at ?sec s')" using bs by (simp add: bucket_at_def)
  moreover have "subtype f = st \<and> evidence_count f = ms_w_flows m \<and> dget (observed f) ''distinct_sources_5s'' = JInt (ms_w_srcs m)"
    if "f = flood_finding cfg dst d s m st" for f
    using that by (simp add: flood_finding_def Let_def no_args_def bytes_json_def pkts_json_def)
  ultimately show ?thesis using ok rec bs Some by fastforce
qed

lemma measure_flood_srcs:
  "ms_w_srcs (measure_flood hash64 cfg sec s) = card_count (card_merge hash64 (map bk_srcs (window_buckets sec s)))"
  by (simp add: measure_flood_def Let_def)

lemma flood_event_result:
  assumes r: "flood_on_event hash64 cfg now_us dst st d = Some r" and ok: "flood_ok hash64 st"
  defines "m \<equiv> measure_flood hash64 cfg (obs_ms d div 1000) (enter_flood hash64 d st)"
  shows "flood_ok hash64 (new_state r) \<and> (\<exists>s. new_state r = Some s \<and> recent (obs_ms d div 1000) s \<and> fd_last s = ev_min d
    \<and> (\<forall>f \<in> set (outs (emitted r)). classify cfg m = Some (subtype f) \<and> evidence_count f = ms_w_flows m
        \<and> dget (observed f) ''distinct_sources_5s'' = JInt (ms_w_srcs m) \<and> bk_anomalous (bucket_at (obs_ms d div 1000) s)))"
proof -
  obtain s2 fs where f: "flood_report cfg dst d (enter_flood hash64 d st) m = (s2, fs)" by fastforce
  have "\<exists>s3 es. new_state r = Some s3 \<and> emitted r = map Out fs @ es \<and> outs es = [] \<and> s3 = s2\<lparr>fd_last_feature := fd_last_feature s3\<rparr>"
    using r f by (auto simp: flood_on_event_def Let_def m_def outs_emit_feature split: prod.splits if_split_asm)
  then obtain lf es where r': "new_state r = Some (s2\<lparr>fd_last_feature := lf\<rparr>)" "emitted r = map Out fs @ es" "outs es = []" by metis
  have e: "flood_ok hash64 (Some (enter_flood hash64 d st))" "recent (obs_ms d div 1000) (enter_flood hash64 d st)"
    "fd_last (enter_flood hash64 d st) = ev_min d" using enter_flood_ok [OF ok] by simp_all
  note rep = flood_report_ok [OF f e(1,2)]
  have "flood_ok hash64 (Some (s2\<lparr>fd_last_feature := lf\<rparr>))" "recent (obs_ms d div 1000) (s2\<lparr>fd_last_feature := lf\<rparr>)"
    "bucket_at k (s2\<lparr>fd_last_feature := lf\<rparr>) = bucket_at k s2" for k
    using rep by (simp_all add: flood_ok_def recent_def bucket_at_def)
  then show ?thesis using rep r' e(3) by auto
qed

section \<open>Properties\<close>

fun flood_run :: "hash64 \<Rightarrow> detect_config \<Rightarrow> int \<Rightarrow> string \<Rightarrow> flood option \<Rightarrow> flow_delta list \<Rightarrow> flood option option" where
  "flood_run hash64 cfg now_us dst st [] = Some st"
| "flood_run hash64 cfg now_us dst st (d # ds) =
     (case flood_on_event hash64 cfg now_us dst st d of None \<Rightarrow> None
      | Some r \<Rightarrow> flood_run hash64 cfg now_us dst (new_state r) ds)"

text \<open>
  After any records of a destination, out of order or not, no bucket is more than ten seconds older
  than the second of the last record, every bucket of an earlier second is closed, hence folded into the
  baseline at most once, and each bucket's sketch holds exactly the sources of the flows it counts.
\<close>

theorem flood_buckets_bounded:
  assumes "flood_run hash64 cfg now_us dst None (ds @ [d]) = Some st"
  shows "\<exists>s. st = Some s \<and> distinct (map fst (fd_buckets s)) \<and> (\<forall>(k, b) \<in> set (fd_buckets s).
    obs_ms d div 1000 - 10 \<le> k \<and> (k < obs_ms d div 1000 \<longrightarrow> bk_closed b)
    \<and> (\<exists>xs. bk_srcs b = sketch_of hash64 xs \<and> bk_flows b = int (length xs)) \<and> 0 \<le> bk_syn b \<and> bk_syn b \<le> bk_flows b)"
proof -
  have split_run: "flood_run hash64 cfg now_us dst s0 (xs @ ys) = Option.bind (flood_run hash64 cfg now_us dst s0 xs)
      (\<lambda>s. flood_run hash64 cfg now_us dst s ys)" for s0 xs ys
    by (induction xs arbitrary: s0) (auto split: option.splits)
  have inv: "flood_run hash64 cfg now_us dst s0 xs = Some s1 \<Longrightarrow> flood_ok hash64 s0 \<Longrightarrow> flood_ok hash64 s1" for s0 s1 xs
    by (induction xs arbitrary: s0) (auto split: option.splits dest!: flood_event_result)
  obtain s1 where s1: "flood_run hash64 cfg now_us dst None ds = Some s1" "flood_run hash64 cfg now_us dst s1 [d] = Some st"
    using assms by (auto simp: split_run bind_eq_Some_conv)
  have ok1: "flood_ok hash64 s1" by (rule inv [OF s1(1)]) (simp add: flood_ok_def)
  obtain r where r: "flood_on_event hash64 cfg now_us dst s1 d = Some r" "st = new_state r" using s1(2) by (auto split: option.splits)
  obtain s where s: "st = Some s" "recent (obs_ms d div 1000) s" "flood_ok hash64 (Some s)"
    using flood_event_result [OF r(1) ok1] r(2) by auto
  then show ?thesis unfolding recent_def flood_ok_def bucket_ok_def KEEP_BUCKETS_def by fastforce
qed

definition sensitive :: detect_config where
  "sensitive = default_config\<lparr>ddos_min_flows_per_s := 1\<rparr>"

abbreviation demo_flood :: "flow_delta" where
  "demo_flood \<equiv> demo_flow ''192.0.2.1'' 443 40000"

lemma demo_entered:
  "bk_flows (bucket_at 40 (enter_flood hash64 demo_flood None)) = 1"
  "fd_flows (enter_flood hash64 demo_flood None) = ewma_new" "fd_bytes (enter_flood hash64 demo_flood None) = ewma_new"
  "fd_episode (enter_flood hash64 demo_flood None) = None" "fd_last_feature (enter_flood hash64 demo_flood None) = None"
  by (simp_all add: enter_flood_def Let_def flood_new_def close_old_def bucket_at_def new_bucket_def enter_flow_def enter_volume_def
      demo_flow_def is_amp_def)

lemma demo_measured:
  "ms_bucket (measure_flood hash64 sensitive 40 (enter_flood hash64 demo_flood None))
     = bucket_at 40 (enter_flood hash64 demo_flood None)"
  "ms_thr_flows (measure_flood hash64 sensitive 40 (enter_flood hash64 demo_flood None)) = 1"
  "ms_thr_bytes (measure_flood hash64 sensitive 40 (enter_flood hash64 demo_flood None)) = of_int (ddos_min_bytes_per_s default_config)"
  by (simp_all add: measure_flood_def Let_def baseline_thr_def demo_entered sensitive_def ewma_new_def)

lemma demo_flood_event:
  "\<exists>r f. flood_on_event hash64 sensitive 0 ''192.0.2.1'' None demo_flood = Some r \<and> f \<in> set (outs (emitted r))"
proof -
  let ?s = "enter_flood hash64 demo_flood None"
  let ?m = "measure_flood hash64 sensitive 40 ?s"
  have t: "obs_ms demo_flood = 40000" by (simp add: demo_flow_def)
  have v: "is_volumetric ?m" by (simp add: is_volumetric_def demo_measured demo_entered)
  then have "classify sensitive ?m \<noteq> None" by (simp add: classify_def)
  then obtain st where st: "classify sensitive ?m = Some st" by blast
  have "ddos_amp_min_bytes_per_s sensitive \<noteq> 0" by (simp add: sensitive_def)
  then have z: "\<not> zero_threshold sensitive ?m" by (simp add: zero_threshold_def st demo_measured)
  have "- 1 < PRIORITY st" by (simp add: PRIORITY_def)
  then obtain s2 where r: "flood_report sensitive ''192.0.2.1'' demo_flood ?s ?m
      = (s2, [flood_finding sensitive ''192.0.2.1'' demo_flood ?s ?m st])" "fd_last_feature s2 = None"
    by (simp add: flood_report_def st Let_def current_episode_def demo_entered t)
  have "\<exists>d. flood_feature 0 ''192.0.2.1'' demo_flood s3 ?m = Some d" for s3
    using format_us_Some [of 40000000] format_us_Some [of 36000000] format_us_Some [of 0]
    by (auto simp: flood_feature_def Let_def feature_record_def t format_ms_def)
  then show ?thesis using r z st
    by (simp add: flood_on_event_def Let_def t rate_limited_def emit_feature_def) fastforce
qed

theorem flood_buckets_bounded_witness:
  "\<exists>s. flood_run (\<lambda>_. 0) sensitive 0 ''192.0.2.1'' None ([] @ [demo_flood]) = Some (Some s) \<and> distinct (map fst (fd_buckets s))"
proof -
  obtain r where "flood_on_event (\<lambda>_. 0) sensitive 0 ''192.0.2.1'' None demo_flood = Some r"
    using demo_flood_event by blast
  then have r: "flood_run (\<lambda>_. 0) sensitive 0 ''192.0.2.1'' None ([] @ [demo_flood]) = Some (new_state r)" by simp
  obtain s where "new_state r = Some s" "distinct (map fst (fd_buckets s))" using flood_buckets_bounded [OF r] by blast
  then show ?thesis using r by simp
qed

section \<open>In the harness\<close>

interpretation flood_logic: passive_logic "flood_on_event hash64 cfg" "\<lambda>_. flood_on_timer cfg" None "flood_ok hash64" "\<lambda>_. True"
  for hash64 cfg
  by unfold_locales
    (auto simp: flood_on_timer_def flood_ok_def [of _ None] dest: flood_event_result split: option.splits if_splits)

end
