(* ===== verification/DgaFeatures.thy ===== *)
theory DgaFeatures
  imports Json Hashes
begin

text \<open>
  The lexical features of the DGA model (\<^verbatim>\<open>lib/sih_common/dga_features.py\<close>), shared by training and by
  the DNS detector: normalising a query name, splitting it at its public suffix, the bigram table fitted on
  benign names, the feature vector, and the rule used without a model. A name that cannot be scored is
  \<open>Inl\<close> of its reason, \<^verbatim>\<open>NotEligible\<close>; an \<^verbatim>\<open>IndexError\<close> of a table of the wrong size is \<open>None\<close>.
  The theorems bound every entry of the vector the way the feature contract states them.
\<close>

section \<open>Constants\<close>

definition FEATURE_SCHEMA_VERSION :: string where "FEATURE_SCHEMA_VERSION = ''dga_lexical-1.0.0''"
definition HASH_BUCKETS :: nat where "HASH_BUCKETS = 32"

definition MULTI_PART_SUFFIXES :: "string list" where
  "MULTI_PART_SUFFIXES = [''co.uk'', ''org.uk'', ''ac.uk'', ''gov.uk'', ''ltd.uk'', ''plc.uk'', ''com.au'', ''net.au'', ''org.au'',
     ''edu.au'', ''gov.au'', ''co.in'', ''net.in'', ''org.in'', ''gov.in'', ''ac.in'', ''edu.in'', ''res.in'', ''nic.in'', ''co.jp'',
     ''ne.jp'', ''or.jp'', ''com.br'', ''com.cn'', ''net.cn'', ''org.cn'', ''com.sg'', ''com.my'', ''co.nz'', ''co.za'', ''com.mx'',
     ''com.tr'', ''co.kr'', ''com.hk'', ''com.tw'', ''co.id'', ''com.ar'', ''com.sa'', ''com.eg'', ''co.th'']"

definition NON_REGISTRABLE :: "string list" where
  "NON_REGISTRABLE = [''local'', ''localdomain'', ''lan'', ''internal'', ''home'', ''arpa'', ''corp'', ''intranet'', ''test'', ''invalid'']"

definition SYMBOLS :: string where "SYMBOLS = ''abcdefghijklmnopqrstuvwxyz0123456789-^$?''"
definition N_SYMBOLS :: nat where "N_SYMBOLS = 40"
definition VOWELS :: string where "VOWELS = ''aeiou''"
definition CONSONANTS :: string where "CONSONANTS = ''bcdfghjklmnpqrstvwxyz''"
definition HEX :: string where "HEX = ''0123456789abcdef''"
definition DIGITS :: string where "DIGITS = ''0123456789''"
definition MIN_SLD_LEN :: nat where "MIN_SLD_LEN = 6"

definition FEATURE_NAMES :: "string list" where
  "FEATURE_NAMES = [''sld_len'', ''sld_entropy'', ''sld_digit_ratio'', ''sld_vowel_ratio'', ''sld_consonant_ratio'',
     ''sld_max_consonant_run'', ''sld_max_digit_run'', ''sld_hyphen_count'', ''sld_unique_char_ratio'', ''sld_hex_ratio'',
     ''query_len'', ''subdomain_depth'', ''suffix_label_count'', ''sld_bigram_logprob_mean'']
     @ map (\<lambda>i. ''sld_bigram_hash_'' @ pad_nat 2 i) [0..<HASH_BUCKETS]"

definition DIMENSION :: nat where "DIMENSION = length FEATURE_NAMES"

section \<open>Names\<close>

definition in_set :: "string \<Rightarrow> string \<Rightarrow> bool" where
  "in_set chars p = (case p of [c] \<Rightarrow> c \<in> set chars | _ \<Rightarrow> False)"

definition normalize_name :: "json \<Rightarrow> string + string" where
  "normalize_name query =
     (case query of
        JStr q \<Rightarrow>
          if q = [] then Inl ''query_unavailable''
          else let name = rstrip (\<lambda>c. c = CHR ''.'') (lower (strip is_space q))
            in if name = [] \<or> py_len name > 253 then Inl ''query_out_of_range'' else Inr name
      | _ \<Rightarrow> Inl ''query_unavailable'')"

text \<open>The registrable domain, its label, the public suffix and the labels before.\<close>

record split_name =
  registrable :: string
  sld :: string
  suffix :: string
  sub_labels :: "string list"

definition split_registrable :: "string \<Rightarrow> string + split_name" where
  "split_registrable name =
     (let labels = split_on (CHR ''.'') name
      in if length labels < 2 \<or> [] \<in> set labels then Inl ''not_registrable''
         else if last labels \<in> set NON_REGISTRABLE \<or> (\<forall>l \<in> set labels. \<forall>c \<in> set l. c \<in> set DIGITS) then Inl ''not_registrable''
         else if CHR '':'' \<in> set name then Inl ''not_registrable''
         else let suffix_len = (if length labels \<ge> 3 \<and> join_with (CHR ''.'') (last_n 2 labels) \<in> set MULTI_PART_SUFFIXES then 2 else 1)
           in if length labels < suffix_len + 1 then Inl ''not_registrable''
              else let sx = join_with (CHR ''.'') (last_n suffix_len labels); s = labels ! (length labels - suffix_len - 1)
                in Inr \<lparr>registrable = s @ ''.'' @ sx, sld = s, suffix = sx, sub_labels = take (length labels - suffix_len - 1) labels\<rparr>)"

definition registrable_or_none :: "json \<Rightarrow> string option" where
  "registrable_or_none query =
     (case normalize_name query of Inl _ \<Rightarrow> None
      | Inr name \<Rightarrow> (case split_registrable name of Inl _ \<Rightarrow> None | Inr sp \<Rightarrow> Some (registrable sp)))"

section \<open>Features of a label\<close>

definition fnv_step :: "32 word \<Rightarrow> char \<Rightarrow> 32 word" where
  "fnv_step h c = (h XOR word_of_nat (of_char c)) * 0x01000193"

definition fnv1a32 :: "string \<Rightarrow> 32 word" where
  "fnv1a32 text = foldl fnv_step 0x811C9DC5 text"

definition entropy :: "string \<Rightarrow> real" where
  "entropy s = (let cs = py_chars s; n = length cs in if n = 0 then 0
     else - (\<Sum>p\<leftarrow>remdups cs. (real (count_list cs p) / real n) * log 2 (real (count_list cs p) / real n)))"

definition max_run :: "string \<Rightarrow> string \<Rightarrow> nat" where
  "max_run s chars = snd (foldl (\<lambda>(run, best) p. let r = (if in_set chars p then run + 1 else 0) in (r, max best r)) (0, 0) (py_chars s))"

definition symbol_index :: "char \<Rightarrow> nat" where
  "symbol_index c = the (index_in c SYMBOLS)"

definition symbol_of :: "string \<Rightarrow> nat" where
  "symbol_of p = (case p of [c] \<Rightarrow> (case index_in c SYMBOLS of Some i \<Rightarrow> i | None \<Rightarrow> symbol_index (CHR 0x3F)) | _ \<Rightarrow> symbol_index (CHR 0x3F))"

definition bigrams :: "string \<Rightarrow> (nat \<times> nat) list" where
  "bigrams s = (let seq = [symbol_index (CHR ''^'')] @ map symbol_of (py_chars s) @ [symbol_index (CHR ''$'')] in zip seq (tl seq))"

definition count_bigram :: "nat list list \<Rightarrow> nat \<times> nat \<Rightarrow> nat list list" where
  "count_bigram counts ab = (case ab of (a, b) \<Rightarrow> counts[a := (counts ! a)[b := counts ! a ! b + 1]])"

definition fit_bigram_table :: "string list \<Rightarrow> real list list" where
  "fit_bigram_table benign =
     (let counts = foldl count_bigram (replicate N_SYMBOLS (replicate N_SYMBOLS 1)) (concat (map bigrams benign))
      in map (\<lambda>row. map (\<lambda>c. ln (real c / real (sum_list row))) row) counts)"

definition logprob_at :: "real list list \<Rightarrow> nat \<times> nat \<Rightarrow> real option" where
  "logprob_at table ab = (case ab of (a, b) \<Rightarrow> if a < length table \<and> b < length (table ! a) then Some (table ! a ! b) else None)"

definition bucket_of :: "nat \<times> nat \<Rightarrow> nat" where
  "bucket_of ab = (case ab of (a, b) \<Rightarrow> unat (fnv1a32 [SYMBOLS ! a, SYMBOLS ! b]) mod HASH_BUCKETS)"

definition ratio :: "(string \<Rightarrow> bool) \<Rightarrow> string \<Rightarrow> real" where
  "ratio P s = real (length (filter P (py_chars s))) / real (length (py_chars s))"

definition label_features :: "string \<Rightarrow> split_name \<Rightarrow> real \<Rightarrow> real list" where
  "label_features name sp lp =
     (let s = sld sp in
      [real (min (length (py_chars s)) 63), entropy s, ratio (in_set DIGITS) s, ratio (in_set VOWELS) s, ratio (in_set CONSONANTS) s,
       real (min (max_run s CONSONANTS) 63), real (min (max_run s DIGITS) 63), real (min (count_list (py_chars s) ''-'') 10),
       real (length (remdups (py_chars s))) / real (length (py_chars s)), ratio (in_set HEX) s, real (min (py_len name) 253),
       real (min (length (sub_labels sp)) 10), real (length (filter (\<lambda>c. c = CHR ''.'') (suffix sp)) + 1), lp])"

definition hashed_features :: "(nat \<times> nat) list \<Rightarrow> real list" where
  "hashed_features grams = map (\<lambda>i. real (length (filter (\<lambda>g. bucket_of g = i) grams)) / real (length grams)) [0..<HASH_BUCKETS]"

text \<open>\<open>None\<close> is an exception of the table lookup; the table is given by its lookup.\<close>

definition extract_at :: "(nat \<times> nat \<Rightarrow> real option) \<Rightarrow> json \<Rightarrow> (string + real list \<times> split_name) option" where
  "extract_at lookup query =
     (case normalize_name query of Inl e \<Rightarrow> Some (Inl e)
      | Inr name \<Rightarrow>
        (case split_registrable name of Inl e \<Rightarrow> Some (Inl e)
         | Inr sp \<Rightarrow>
             if length (py_chars (sld sp)) < MIN_SLD_LEN then Some (Inl ''label_too_short'')
             else let grams = bigrams (sld sp)
               in map_option (\<lambda>ps. Inr (label_features name sp (sum_list ps / real (length grams)) @ hashed_features grams, sp))
                    (those (map lookup grams))))"

definition extract_features :: "json \<Rightarrow> real list list \<Rightarrow> (string + real list \<times> split_name) option" where
  "extract_features query table = extract_at (logprob_at table) query"

definition lexical_rule :: "real list \<Rightarrow> bool" where
  "lexical_rule v = (v ! 0 \<ge> 10 \<and> v ! 1 \<ge> 33 / 10 \<and> (v ! 2 \<ge> 2 / 10 \<or> v ! 5 \<ge> 4))"

section \<open>Lemmas\<close>

lemma symbol_facts [simp]: "length SYMBOLS = N_SYMBOLS" "symbol_index (CHR ''^'') = 37" "symbol_index (CHR ''$'') = 38"
  "symbol_index (CHR 0x3F) = 39"
  by (simp_all add: SYMBOLS_def N_SYMBOLS_def symbol_index_def)

lemma dimension [simp]: "DIMENSION = 46"
  by (simp add: DIMENSION_def FEATURE_NAMES_def HASH_BUCKETS_def)

lemma index_in_less: "index_in x xs = Some i \<Longrightarrow> i < length xs"
  by (induction xs arbitrary: i) (auto split: if_splits)

lemma symbol_of_less: "symbol_of p < N_SYMBOLS"
  using index_in_less [of _ SYMBOLS] by (auto simp: symbol_of_def N_SYMBOLS_def split: list.splits option.splits) 

lemma length_bigrams [simp]: "length (bigrams s) = length (py_chars s) + 1"
  by (simp add: bigrams_def Let_def)

lemma bigrams_less: "(a, b) \<in> set (bigrams s) \<Longrightarrow> a < N_SYMBOLS \<and> b < N_SYMBOLS"
proof -
  let ?seq = "[symbol_index (CHR ''^'')] @ map symbol_of (py_chars s) @ [symbol_index (CHR ''$'')]"
  assume "(a, b) \<in> set (bigrams s)"
  then have "a \<in> set ?seq" "b \<in> set ?seq" unfolding bigrams_def Let_def by (auto dest: set_zip_leftD set_zip_rightD)
  moreover have "x < N_SYMBOLS" if "x \<in> set ?seq" for x using that symbol_of_less by (auto simp: N_SYMBOLS_def)
  ultimately show ?thesis by blast
qed

lemma py_len_chars: "s \<noteq> [] \<longrightarrow> lead_byte (hd s) \<Longrightarrow> length (py_chars s) = py_len s"
proof (induction s rule: py_chars.induct)
  case (2 c cs)
  let ?P = "\<lambda>x. \<not> lead_byte x"
  have "dropWhile ?P cs \<noteq> [] \<longrightarrow> lead_byte (hd (dropWhile ?P cs))" using hd_dropWhile [of ?P cs] by blast
  then have "length (py_chars (dropWhile ?P cs)) = py_len (dropWhile ?P cs)" by (rule "2.IH")
  moreover have "py_len cs = py_len (dropWhile ?P cs)"
    unfolding py_len_def by (induction cs) auto
  ultimately show ?case using 2 by (simp add: py_len_def)
qed simp

lemma split_on_no_dot: "x \<in> set (split_on c xs) \<Longrightarrow> c \<notin> set x"
proof (induction xs arbitrary: x)
  case (Cons z xs)
  then show ?case by (cases "split_on c xs") (auto split: if_splits)
qed simp

lemma join_split [simp]: "join_with c (split_on c xs) = xs"
proof (induction xs)
  case (Cons x xs)
  obtain y ys where y: "split_on c xs = y # ys" by (cases "split_on c xs") simp_all
  then have "join_with c (y # ys) = xs" using Cons by simp
  then show ?case using y by (cases ys) auto
qed simp

lemma join_with_append: "xs \<noteq> [] \<Longrightarrow> ys \<noteq> [] \<Longrightarrow> join_with c (xs @ ys) = join_with c xs @ c # join_with c ys"
proof (induction xs)
  case (Cons x xs)
  then show ?case by (cases xs; cases ys) auto
qed simp

lemma dots_join: "\<forall>x \<in> set xs. c \<notin> set x \<Longrightarrow> length (filter (\<lambda>z. z = c) (join_with c xs)) = length xs - 1"
  by (induction c xs rule: join_with.induct) (auto simp: filter_empty_conv)

lemma split_registrable_InrD:
  assumes "split_registrable name = Inr sp"
  obtains n where "n = 1 \<or> n = 2" "n < length (split_on (CHR ''.'') name)" "[] \<notin> set (split_on (CHR ''.'') name)"
    "suffix sp = join_with (CHR ''.'') (last_n n (split_on (CHR ''.'') name))" "registrable sp = sld sp @ ''.'' @ suffix sp"
    "sld sp = split_on (CHR ''.'') name ! (length (split_on (CHR ''.'') name) - n - 1)"
    "sub_labels sp = take (length (split_on (CHR ''.'') name) - n - 1) (split_on (CHR ''.'') name)"
    "n = 2 \<longleftrightarrow> length (split_on (CHR ''.'') name) \<ge> 3 \<and> join_with (CHR ''.'') (last_n 2 (split_on (CHR ''.'') name)) \<in> set MULTI_PART_SUFFIXES"
    "last (split_on (CHR ''.'') name) \<notin> set NON_REGISTRABLE"
  using assms by (auto simp: split_registrable_def Let_def split: if_splits)

text \<open>
  a registrable name is the labels in front, the second-level label and the public suffix, joined by
  dots; the suffix is two labels long exactly when these are a known one and leave a label before it,
  otherwise the last label alone.
\<close>

theorem split_registrable_parts:
  assumes "split_registrable name = Inr sp"
  shows "name = join_with (CHR ''.'') (sub_labels sp @ [registrable sp]) \<and> registrable sp = sld sp @ ''.'' @ suffix sp
    \<and> sld sp \<noteq> [] \<and> CHR ''.'' \<notin> set (sld sp) \<and> (CHR ''.'' \<in> set (suffix sp) \<longleftrightarrow> suffix sp \<in> set MULTI_PART_SUFFIXES)
    \<and> suffix sp \<notin> set NON_REGISTRABLE
    \<and> (CHR ''.'' \<in> set (suffix sp) \<longleftrightarrow> length (split_on (CHR ''.'') name) \<ge> 3
         \<and> join_with (CHR ''.'') (last_n 2 (split_on (CHR ''.'') name)) \<in> set MULTI_PART_SUFFIXES)"
proof -
  let ?d = "CHR ''.''" and ?L = "split_on (CHR ''.'') name"
  obtain n where n: "n = 1 \<or> n = 2" "n < length ?L" "[] \<notin> set ?L" "suffix sp = join_with ?d (last_n n ?L)"
    "registrable sp = sld sp @ ''.'' @ suffix sp" "sld sp = ?L ! (length ?L - n - 1)" "sub_labels sp = take (length ?L - n - 1) ?L"
    "n = 2 \<longleftrightarrow> length ?L \<ge> 3 \<and> join_with ?d (last_n 2 ?L) \<in> set MULTI_PART_SUFFIXES" "last ?L \<notin> set NON_REGISTRABLE"
    using assms by (rule split_registrable_InrD)
  have ln: "last_n n ?L = drop (length ?L - n) ?L" "last_n n ?L \<noteq> []" using n(1,2) by (auto simp: last_n_def)
  have "?L = sub_labels sp @ sld sp # last_n n ?L"
  proof -
    have i: "length ?L - n - 1 < length ?L" "Suc (length ?L - n - 1) = length ?L - n" using n(2) by auto
    show ?thesis unfolding n(6,7) ln(1) using id_take_nth_drop [OF i(1)] unfolding i(2) .
  qed
  then have L: "?L = (sub_labels sp @ [sld sp]) @ last_n n ?L" by simp
  have reg: "join_with ?d ([sld sp] @ last_n n ?L) = registrable sp" using join_with_append [of "[sld sp]" "last_n n ?L" ?d] ln(2) n(4,5) by simp
  have "name = join_with ?d (sub_labels sp @ ([sld sp] @ last_n n ?L))" using L by (metis append.assoc join_split)
  also have "\<dots> = join_with ?d (sub_labels sp @ [registrable sp])"
  proof (cases "sub_labels sp = []")
    case True
    then show ?thesis using reg by simp
  next
    case False
    then show ?thesis using join_with_append [of "sub_labels sp" "[sld sp] @ last_n n ?L" ?d] join_with_append [of "sub_labels sp" "[registrable sp]" ?d] reg by simp
  qed
  finally have name: "name = join_with ?d (sub_labels sp @ [registrable sp])" .
  have sld: "sld sp \<in> set ?L" using n(2) by (simp add: n(6))
  have dots: "length (filter (\<lambda>z. z = ?d) (suffix sp)) = n - 1"
  proof -
    have "\<forall>x \<in> set (last_n n ?L). ?d \<notin> set x" by (metis ln(1) in_set_dropD split_on_no_dot)
    then have "length (filter (\<lambda>z. z = ?d) (suffix sp)) = length (last_n n ?L) - 1" unfolding n(4) by (rule dots_join)
    then show ?thesis using ln(1) n(2) by simp
  qed
  have "?d \<in> set (suffix sp) \<longleftrightarrow> filter (\<lambda>z. z = ?d) (suffix sp) \<noteq> []" by (auto simp: filter_empty_conv)
  also have "\<dots> \<longleftrightarrow> 0 < n - 1" by (simp only: dots length_greater_0_conv [symmetric])
  finally have two: "?d \<in> set (suffix sp) \<longleftrightarrow> n = 2" using n(1) by auto
  have one: "suffix sp = last ?L" if "n = 1"
  proof -
    have "last_n 1 ?L = [last ?L]" unfolding last_n_def by (metis append_butlast_last_id append_eq_conv_conj length_butlast split_on_nonempty)
    then show ?thesis using n(4) that by simp
  qed
  have m: "x \<in> set MULTI_PART_SUFFIXES \<Longrightarrow> ?d \<in> set x" for x by (auto simp: MULTI_PART_SUFFIXES_def)
  have nr: "x \<in> set NON_REGISTRABLE \<Longrightarrow> ?d \<notin> set x" for x by (auto simp: NON_REGISTRABLE_def)
  have "?d \<in> set (suffix sp) \<longleftrightarrow> suffix sp \<in> set MULTI_PART_SUFFIXES"
  proof
    assume "?d \<in> set (suffix sp)"
    then show "suffix sp \<in> set MULTI_PART_SUFFIXES" using two n(4,8) by simp
  qed (rule m)
  moreover have "suffix sp \<notin> set NON_REGISTRABLE"
    using n(1) one n(9) two nr [of "suffix sp"] by (cases "n = 2") auto
  moreover have "sld sp \<noteq> []" "?d \<notin> set (sld sp)" using sld n(3) split_on_no_dot [OF sld] by auto
  ultimately show ?thesis using name n(5) two n(8) by simp
qed

theorem split_registrable_parts_witness:
  "''mail.a.co.uk'' = join_with (CHR ''.'') ([''mail''] @ [''a.co.uk''])"
proof -
  have "split_registrable ''mail.a.co.uk'' = Inr \<lparr>registrable = ''a.co.uk'', sld = ''a'', suffix = ''co.uk'', sub_labels = [''mail'']\<rparr>"
    by (simp add: split_registrable_def last_n_def NON_REGISTRABLE_def MULTI_PART_SUFFIXES_def DIGITS_def Let_def)
  from split_registrable_parts [OF this] show ?thesis by simp
qed

subsection \<open>Ranges of the features\<close>

lemma sum_counts:
  fixes cs :: "'a list"
  shows "(\<Sum>p\<leftarrow>remdups cs. real (count_list cs p)) = real (length cs)"
proof -
  have "(\<Sum>p\<leftarrow>remdups cs. real (count_list cs p)) = (\<Sum>p \<in> set cs. real (count_list cs p))"
    by (simp add: sum_list_distinct_conv_sum_set)
  also have "\<dots> = real (length cs)" by (simp add: sum_count_set flip: of_nat_sum)
  finally show ?thesis .
qed

lemma sum_list_le: "(\<And>x. x \<in> set xs \<Longrightarrow> f x \<le> (g x :: real)) \<Longrightarrow> (\<Sum>x\<leftarrow>xs. f x) \<le> (\<Sum>x\<leftarrow>xs. g x)"
  by (induction xs) (auto intro: add_mono)

text \<open>The entropy lies between 0 and the logarithm of the number of characters.\<close>

lemma entropy_range:
  assumes "py_chars s \<noteq> []"
  shows "0 \<le> entropy s" "entropy s \<le> log 2 (real (length (py_chars s)))"
proof -
  let ?cs = "py_chars s" and ?n = "real (length (py_chars s))"
  let ?q = "\<lambda>p. real (count_list ?cs p) / ?n"
  have n: "0 < ?n" using assms by simp
  have c: "1 \<le> count_list ?cs p \<and> count_list ?cs p \<le> length ?cs" if "p \<in> set (remdups ?cs)" for p
    using that count_list_0_iff [of ?cs p] count_le_length [of ?cs p] by (auto simp: Suc_le_eq)
  have q: "0 < ?q p" "?q p \<le> 1" if "p \<in> set (remdups ?cs)" for p
    using c [OF that] n by (auto simp: field_simps)
  have e: "entropy s = - (\<Sum>p\<leftarrow>remdups ?cs. ?q p * log 2 (?q p))" using assms by (simp add: entropy_def Let_def)
  have "(\<Sum>p\<leftarrow>remdups ?cs. ?q p * log 2 (?q p)) \<le> (\<Sum>p\<leftarrow>remdups ?cs. 0)"
  proof (rule sum_list_le)
    fix p assume p: "p \<in> set (remdups ?cs)"
    have "log 2 (?q p) \<le> 0" using q [OF p] by (simp only: log_le_zero_cancel_iff)
    then show "?q p * log 2 (?q p) \<le> 0" using q(1) [OF p] by (intro mult_nonneg_nonpos) auto
  qed
  then show "0 \<le> entropy s" by (simp add: e)
  have "(\<Sum>p\<leftarrow>remdups ?cs. ?q p * (- log 2 ?n)) \<le> (\<Sum>p\<leftarrow>remdups ?cs. ?q p * log 2 (?q p))"
  proof (rule sum_list_le)
    fix p assume p: "p \<in> set (remdups ?cs)"
    have "log 2 (1 / ?n) \<le> log 2 (?q p)" using c [OF p] n by (intro log_mono) (auto simp: divide_right_mono)
    then show "?q p * (- log 2 ?n) \<le> ?q p * log 2 (?q p)" using q(1) [OF p] n by (intro mult_left_mono) (auto simp: log_divide)
  qed
  moreover have "(\<Sum>p\<leftarrow>remdups ?cs. ?q p * (- log 2 ?n)) = - log 2 ?n"
  proof -
    have "(\<Sum>p\<leftarrow>remdups ?cs. ?q p * (- log 2 ?n)) = (\<Sum>p\<leftarrow>remdups ?cs. real (count_list ?cs p)) * (- log 2 ?n / ?n)"
    proof -
      have "(\<Sum>p\<leftarrow>xs. f p / c * d) = (\<Sum>p\<leftarrow>xs. f p) * (d / c)" for xs :: "string list" and f :: "string \<Rightarrow> real" and c d
        by (induction xs) (simp_all add: distrib_right divide_inverse)
      then show ?thesis .
    qed
    then show ?thesis using n by (simp add: sum_counts)
  qed
  ultimately show "entropy s \<le> log 2 ?n" by (simp add: e)
qed

lemma ratio_range: "0 \<le> ratio P s" "ratio P s \<le> 1"
proof -
  have "length (filter P (py_chars s)) \<le> length (py_chars s)" by simp
  then show "0 \<le> ratio P s" "ratio P s \<le> 1" by (auto simp: ratio_def divide_le_eq_1)
qed

lemma hashed_range:
  assumes "grams \<noteq> []"
  shows "\<forall>x \<in> set (hashed_features grams). 0 \<le> x \<and> x \<le> 1" "sum_list (hashed_features grams) = 1" "length (hashed_features grams) = HASH_BUCKETS"
proof -
  have "length (filter P grams) \<le> length grams" for P :: "nat \<times> nat \<Rightarrow> bool" by simp
  then show "\<forall>x \<in> set (hashed_features grams). 0 \<le> x \<and> x \<le> 1"
    using assms by (auto simp: hashed_features_def divide_le_eq_1)
  show "length (hashed_features grams) = HASH_BUCKETS" by (simp add: hashed_features_def)
  have "bucket_of g < HASH_BUCKETS" for g by (auto simp: bucket_of_def HASH_BUCKETS_def split: prod.splits)
  then have "(\<Sum>i\<leftarrow>[0..<HASH_BUCKETS]. length (filter (\<lambda>g. bucket_of g = i) grams)) = length grams"
    using assms
  proof (induction grams)
    case (Cons g gs)
    have g: "(\<Sum>i\<leftarrow>[0..<HASH_BUCKETS]. if bucket_of g = i then 1 else 0 :: nat) = 1"
      using Cons.prems(1) [of g] by (simp add: sum_list_distinct_conv_sum_set)
    have "(\<Sum>i\<leftarrow>[0..<HASH_BUCKETS]. length (filter (\<lambda>g. bucket_of g = i) (g # gs)))
        = (\<Sum>i\<leftarrow>[0..<HASH_BUCKETS]. (if bucket_of g = i then 1 else 0) + length (filter (\<lambda>g. bucket_of g = i) gs))"
      by (intro arg_cong [where f = sum_list] map_cong) auto
    also have "\<dots> = 1 + (\<Sum>i\<leftarrow>[0..<HASH_BUCKETS]. length (filter (\<lambda>g. bucket_of g = i) gs))" using g by (simp add: sum_list_addf)
    finally show ?case using Cons by (cases "gs = []") auto
  qed simp
  then have e: "real (\<Sum>i\<leftarrow>[0..<HASH_BUCKETS]. length (filter (\<lambda>g. bucket_of g = i) grams)) = real (length grams)" by simp
  have "(\<Sum>i\<leftarrow>[0..<HASH_BUCKETS]. real (length (filter (\<lambda>g. bucket_of g = i) grams))) = real (length grams)"
  proof -
    have "real (sum_list (map h xs)) = (\<Sum>i\<leftarrow>xs. real (h i))" for h :: "nat \<Rightarrow> nat" and xs by (induction xs) simp_all
    then show ?thesis using e by metis
  qed
  then show "sum_list (hashed_features grams) = 1"
    using assms by (simp add: hashed_features_def divide_inverse sum_list_mult_const)
qed

definition table_ok :: "real list list \<Rightarrow> bool" where
  "table_ok t \<longleftrightarrow> length t = N_SYMBOLS \<and> (\<forall>row \<in> set t. length row = N_SYMBOLS \<and> (\<forall>x \<in> set row. x \<le> 0))"

lemma table_ok_lookup:
  assumes "table_ok t"
  shows "\<exists>ps. those (map (logprob_at t) (bigrams s)) = Some ps \<and> (\<forall>x \<in> set ps. x \<le> 0)"
proof -
  have "\<exists>v. logprob_at t g = Some v \<and> v \<le> 0" if "g \<in> set (bigrams s)" for g
  proof -
    obtain a b where g: "g = (a, b)" by fastforce
    have "a < length t" "b < N_SYMBOLS" using bigrams_less [of a b s] that g assms by (simp_all add: table_ok_def)
    moreover have "length (t ! a) = N_SYMBOLS" "\<forall>x \<in> set (t ! a). x \<le> 0" using assms nth_mem [OF \<open>a < length t\<close>] by (auto simp: table_ok_def)
    ultimately show ?thesis by (simp add: g logprob_at_def)
  qed
  then have "\<exists>ps. those (map (logprob_at t) gs) = Some ps \<and> (\<forall>x \<in> set ps. x \<le> 0)" if "set gs \<subseteq> set (bigrams s)" for gs
    using that
  proof (induction gs)
    case (Cons g gs)
    obtain ps where ps: "those (map (logprob_at t) gs) = Some ps" "\<forall>x \<in> set ps. x \<le> 0" using Cons by auto
    have "g \<in> set (bigrams s)" using Cons.prems by simp
    then obtain v where "logprob_at t g = Some v" "v \<le> 0"
      using \<open>\<And>g. g \<in> set (bigrams s) \<Longrightarrow> \<exists>v. logprob_at t g = Some v \<and> v \<le> 0\<close> by blast
    then show ?case using ps by (intro exI [of _ "v # ps"]) simp
  qed simp
  then show ?thesis by blast
qed

lemma sum_list_nonpos: "\<forall>x \<in> set xs. x \<le> (0 :: real) \<Longrightarrow> sum_list xs \<le> 0"
  by (induction xs) (auto intro: add_nonpos_nonpos)


lemma max_run_le: "max_run s chars \<le> length (py_chars s)"
proof -
  have "fst r \<le> n \<Longrightarrow> snd r \<le> n \<Longrightarrow> snd (foldl (\<lambda>(run, best) p. let r = (if in_set chars p then run + 1 else 0) in (r, max best r)) r ps) \<le> n + length ps"
    for r n and ps :: "string list"
  proof (induction ps arbitrary: r n)
    case (Cons p ps)
    show ?case using Cons.IH [of _ "Suc n"] Cons.prems by (auto simp: Let_def case_prod_beta max_def)
  qed auto
  from this [of "(0, 0)" 0] show ?thesis by (simp add: max_run_def)
qed

text \<open>
  C19: the vector is what the feature contract says. With a table of the right size whose entries are
  log-probabilities, every query gets a vector or a reason; a vector has one entry per feature name,
  in the stated ranges: a label length between 6 and 63, an entropy of at most the logarithm of the
  length, ratios in the unit interval, runs, hyphens, name length and depth at their caps, a suffix of one or
  two labels, a mean log-probability that is not positive, and bigram buckets that sum to one.
\<close>

theorem extract_in_contract:
  assumes "table_ok table"
  shows "\<exists>r. extract_features query table = Some r \<and> (\<forall>v sp. r = Inr (v, sp) \<longrightarrow> length v = DIMENSION
    \<and> 6 \<le> v ! 0 \<and> v ! 0 \<le> 63 \<and> 0 \<le> v ! 1 \<and> v ! 1 \<le> log 2 (real (length (py_chars (sld sp))))
    \<and> (\<forall>i \<in> {2, 3, 4, 8, 9}. 0 \<le> v ! i \<and> v ! i \<le> 1) \<and> (\<forall>i \<in> {5, 6}. 0 \<le> v ! i \<and> v ! i \<le> 63) \<and> 0 \<le> v ! 7 \<and> v ! 7 \<le> 10
    \<and> v ! 10 \<le> 253 \<and> v ! 11 \<le> 10 \<and> v ! 12 \<in> {1, 2} \<and> v ! 13 \<le> 0
    \<and> (\<forall>x \<in> set (drop 14 v). 0 \<le> x \<and> x \<le> 1) \<and> sum_list (drop 14 v) = 1)"
proof (cases "\<exists>name sp. normalize_name query = Inr name \<and> split_registrable name = Inr sp \<and> \<not> length (py_chars (sld sp)) < MIN_SLD_LEN")
  case False
  then show ?thesis by (auto simp: extract_features_def extract_at_def split: sum.splits)
next
  case True
  then obtain name sp where n: "normalize_name query = Inr name" "split_registrable name = Inr sp" "6 \<le> length (py_chars (sld sp))"
    by (auto simp: MIN_SLD_LEN_def)
  obtain ps where ps: "those (map (logprob_at table) (bigrams (sld sp))) = Some ps" "\<forall>x \<in> set ps. x \<le> 0"
    using table_ok_lookup [OF assms] by blast
  let ?lp = "sum_list ps / real (length (bigrams (sld sp)))"
  define H where "H = hashed_features (bigrams (sld sp))"
  define F where "F = label_features name sp ?lp"
  have e: "extract_features query table = Some (Inr (F @ H, sp))" using n ps(1) by (simp add: extract_features_def extract_at_def MIN_SLD_LEN_def F_def H_def)
  have "bigrams (sld sp) \<noteq> []" using length_bigrams [of "sld sp"] by (metis Suc_eq_plus1 list.size(3) nat.distinct(1))
  note h = hashed_range [OF this, folded H_def]
  have F: "length F = 14" by (simp add: F_def label_features_def Let_def)
  have c: "py_chars (sld sp) \<noteq> []" using n(3) by auto
  have lp: "?lp \<le> 0" using sum_list_nonpos [OF ps(2)] by (simp add: divide_nonpos_nonneg)
  have u: "length (remdups (py_chars (sld sp))) \<le> length (py_chars (sld sp))" by (rule length_remdups_leq)
  have d: "length (filter (\<lambda>c. c = CHR ''.'') (suffix sp)) = 0 \<or> length (filter (\<lambda>c. c = CHR ''.'') (suffix sp)) = 1"
  proof -
    obtain k where k: "k = 1 \<or> k = 2" "suffix sp = join_with (CHR ''.'') (last_n k (split_on (CHR ''.'') name))" "k < length (split_on (CHR ''.'') name)"
      using n(2) by (rule split_registrable_InrD)
    have "\<forall>x \<in> set (last_n k (split_on (CHR ''.'') name)). CHR ''.'' \<notin> set x" by (metis last_n_def in_set_dropD split_on_no_dot)
    then have "length (filter (\<lambda>c. c = CHR ''.'') (suffix sp)) = length (last_n k (split_on (CHR ''.'') name)) - 1"
      unfolding k(2) by (rule dots_join)
    then show ?thesis using k(1,3) by (auto simp: last_n_def)
  qed
  have nth: "(F @ H) ! i = F ! i" if "i < 14" for i using that F by (simp add: nth_append)
  have "6 \<le> F ! 0" "F ! 0 \<le> 63" "0 \<le> F ! 1" "F ! 1 \<le> log 2 (real (length (py_chars (sld sp))))"
    using n(3) entropy_range [OF c] by (simp_all add: F_def label_features_def Let_def)
  moreover have "\<forall>i \<in> {2, 3, 4, 8, 9}. 0 \<le> F ! i \<and> F ! i \<le> 1"
    using ratio_range u c by (simp add: F_def label_features_def Let_def divide_le_eq_1)
  moreover have "\<forall>i \<in> {5, 6}. 0 \<le> F ! i \<and> F ! i \<le> 63" "0 \<le> F ! 7" "F ! 7 \<le> 10" "F ! 10 \<le> 253" "F ! 11 \<le> 10" "F ! 13 \<le> 0"
    using lp by (simp_all add: F_def label_features_def Let_def)
  moreover have "F ! 12 \<in> {1, 2}" using d by (auto simp: F_def label_features_def Let_def)
  ultimately show ?thesis
    using e h F by (simp add: nth HASH_BUCKETS_def)
qed

subsection \<open>The fitted table\<close>

definition counts_ok :: "nat list list \<Rightarrow> bool" where
  "counts_ok cs \<longleftrightarrow> length cs = N_SYMBOLS \<and> (\<forall>row \<in> set cs. length row = N_SYMBOLS \<and> (\<forall>c \<in> set row. 1 \<le> c))"

lemma count_bigram_ok:
  assumes ok: "counts_ok cs" and a: "a < N_SYMBOLS" and b: "b < N_SYMBOLS"
  shows "counts_ok (count_bigram cs (a, b))"
proof -
  have al: "a < length cs" using ok a by (simp add: counts_ok_def)
  then have r: "length (cs ! a) = N_SYMBOLS" "\<forall>c \<in> set (cs ! a). 1 \<le> c" using ok nth_mem [OF al] by (auto simp: counts_ok_def)
  have n: "\<forall>c \<in> set ((cs ! a)[b := cs ! a ! b + 1]). 1 \<le> c"
  proof
    fix c assume "c \<in> set ((cs ! a)[b := cs ! a ! b + 1])"
    then have "c \<in> insert (cs ! a ! b + 1) (set (cs ! a))" using set_update_subset_insert [of "cs ! a" b "cs ! a ! b + 1"] by blast
    then show "1 \<le> c" using r(2) by auto
  qed
  have "set (count_bigram cs (a, b)) \<subseteq> insert ((cs ! a)[b := cs ! a ! b + 1]) (set cs)"
    by (simp add: count_bigram_def set_update_subset_insert)
  then show ?thesis using ok r(1) n unfolding counts_ok_def by (auto simp: count_bigram_def)
qed

lemma fitted_counts_ok:
  "counts_ok (foldl count_bigram (replicate N_SYMBOLS (replicate N_SYMBOLS 1)) (concat (map bigrams benign)))"
proof -
  have "counts_ok (foldl count_bigram cs gs)" if "counts_ok cs" "\<forall>(a, b) \<in> set gs. a < N_SYMBOLS \<and> b < N_SYMBOLS" for cs gs
    using that by (induction gs arbitrary: cs) (auto intro: count_bigram_ok)
  moreover have "counts_ok (replicate N_SYMBOLS (replicate N_SYMBOLS 1))" by (simp add: counts_ok_def)
  moreover have "\<forall>(a, b) \<in> set (concat (map bigrams benign)). a < N_SYMBOLS \<and> b < N_SYMBOLS" using bigrams_less by auto
  ultimately show ?thesis by blast
qed

lemma row_distribution:
  assumes "row \<noteq> []" "\<forall>c \<in> set row. 1 \<le> c"
  shows "\<forall>x \<in> set (map (\<lambda>c. ln (real c / real (sum_list row))) row). x \<le> 0"
    "(\<Sum>x\<leftarrow>map (\<lambda>c. ln (real c / real (sum_list row))) row. exp x) = 1"
proof -
  have pos: "0 < sum_list row" using assms by (cases row) auto
  have le: "c \<le> sum_list row" if "c \<in> set row" for c using that by (intro member_le_sum_list) auto
  have "ln (real c / real (sum_list row)) \<le> 0" if "c \<in> set row" for c
  proof -
    have "0 < c" using assms(2) that by (simp add: Suc_le_eq)
    then have "0 < real c / real (sum_list row)" "real c / real (sum_list row) \<le> 1" using le [OF that] pos by simp_all
    then show ?thesis by (metis ln_le_zero_iff)
  qed
  then show "\<forall>x \<in> set (map (\<lambda>c. ln (real c / real (sum_list row))) row). x \<le> 0" by auto
  have "(\<Sum>x\<leftarrow>map (\<lambda>c. ln (real c / real (sum_list row))) row. exp x) = (\<Sum>c\<leftarrow>row. real c / real (sum_list row))"
    unfolding map_map comp_def
  proof (intro arg_cong [where f = sum_list] map_cong refl)
    fix c assume "c \<in> set row"
    then have "0 < real c / real (sum_list row)" using assms(2) pos by (intro divide_pos_pos) (auto simp: Suc_le_eq)
    then show "exp (ln (real c / real (sum_list row))) = real c / real (sum_list row)" by simp
  qed
  also have "(\<Sum>c\<leftarrow>xs. real c / r) = real (sum_list xs) / r" for xs and r :: real
    by (induction xs) (simp_all add: add_divide_distrib)
  also have "real (sum_list row) / real (sum_list row) = 1" using pos by (metis divide_self of_nat_0_less_iff order_less_irrefl)
  finally show "(\<Sum>x\<leftarrow>map (\<lambda>c. ln (real c / real (sum_list row))) row. exp x) = 1" .
qed

lemma fitted_table_ok: "table_ok (fit_bigram_table benign)" "row \<in> set (fit_bigram_table benign) \<Longrightarrow> (\<Sum>x\<leftarrow>row. exp x) = 1"
proof -
  define cs where "cs = foldl count_bigram (replicate N_SYMBOLS (replicate N_SYMBOLS 1)) (concat (map bigrams benign))"
  have ok: "counts_ok cs" using fitted_counts_ok [of benign] by (simp only: cs_def)
  have t: "fit_bigram_table benign = map (\<lambda>row. map (\<lambda>c. ln (real c / real (sum_list row))) row) cs"
    by (simp add: fit_bigram_table_def cs_def)
  have r: "r \<noteq> []" "\<forall>c \<in> set r. 1 \<le> c" "length r = N_SYMBOLS" if "r \<in> set cs" for r
    using ok that by (auto simp: counts_ok_def N_SYMBOLS_def)
  show "table_ok (fit_bigram_table benign)" using ok r row_distribution(1) by (auto simp: table_ok_def t counts_ok_def)
  show "(\<Sum>x\<leftarrow>row. exp x) = 1" if row: "row \<in> set (fit_bigram_table benign)"
  proof -
    obtain q where "q \<in> set cs" "row = map (\<lambda>c. ln (real c / real (sum_list q))) q" using row by (auto simp: t)
    then show ?thesis using row_distribution(2) [OF r(1,2)] by blast
  qed
qed

theorem extract_in_contract_witness:
  "\<exists>v sp. extract_features (JStr ''www.abcdefgh.co.uk'') (fit_bigram_table []) = Some (Inr (v, sp)) \<and> length v = 46 \<and> sum_list (drop 14 v) = 1"
proof -
  have "normalize_name (JStr ''www.abcdefgh.co.uk'') = Inr ''www.abcdefgh.co.uk''"
    by (simp add: normalize_name_def strip_def rstrip_def is_space_def lower_def lower_char_def Let_def py_len_def lead_byte_def)
  moreover have "split_registrable ''www.abcdefgh.co.uk''
      = Inr \<lparr>registrable = ''abcdefgh.co.uk'', sld = ''abcdefgh'', suffix = ''co.uk'', sub_labels = [''www'']\<rparr>"
    by (simp add: split_registrable_def last_n_def NON_REGISTRABLE_def MULTI_PART_SUFFIXES_def DIGITS_def Let_def)
  moreover have "length (py_chars ''abcdefgh'') = 8" by (simp add: lead_byte_def)
  ultimately have "\<exists>v sp. extract_features (JStr ''www.abcdefgh.co.uk'') (fit_bigram_table []) = Some (Inr (v, sp))"
    using table_ok_lookup [OF fitted_table_ok(1), of "[]" "''abcdefgh''"] by (auto simp: extract_features_def extract_at_def MIN_SLD_LEN_def)
  then show ?thesis using extract_in_contract [OF fitted_table_ok(1), of "JStr ''www.abcdefgh.co.uk''" "[]"] by auto
qed

end
