(* ===== verification/DgaModel.thy ===== *)
theory DgaModel
  imports DgaFeatures Floats "HOL-Library.Sublist"
begin

text \<open>
  The local DGA model (\<^verbatim>\<open>flink/sih_detect/dga_model.py\<close>): the ordered checks of a bundle before it is
  activated, scoring with its error breaker, and the contributions of a score. Files, JSON decoding, the
  ONNX runtime and the texts of library exceptions are the environment \<open>model_env\<close>: a path is the list of
  its components below the model root, a document is a \<open>jdoc\<close>, whose numbers may be infinite or NaN as
  \<^verbatim>\<open>json.loads\<close> reads them, and a session answers a vector with any float or raises. While the model runs,
  the answer of each single call is an argument of \<open>score\<close>, and answers, table and explanation are read as
  finite numbers. Inference times are not modelled.
\<close>

section \<open>Environment and state\<close>

type_synonym onnx_session = "jdoc \<Rightarrow> jdoc \<Rightarrow> pyfloat list \<Rightarrow> pyfloat option"

record model_env =
  me_read :: "string list \<Rightarrow> bytes option"
  me_loads :: "bytes \<Rightarrow> jdoc option"
  me_session :: "bytes \<Rightarrow> jdoc \<Rightarrow> jdoc \<Rightarrow> onnx_session option"
  me_exc :: "string \<Rightarrow> string"
  me_repr :: "jdoc \<Rightarrow> string"
  me_str :: "jdoc \<Rightarrow> string"

text \<open>Why a bundle is refused; \<open>Raised\<close> is any exception of a library or a missing key, by place.\<close>

datatype load_error =
    NotEnabled
  | MetadataChecksum
  | ModelChecksum
  | FeatureContract jdoc jdoc
  | SchemaChecksum
  | FeatureOrder
  | PreprocessingChecksum
  | GoldenFeatures jdoc
  | GoldenScore jdoc pyfloat jdoc
  | NotScorable string
  | Raised string

definition error_text :: "model_env \<Rightarrow> load_error \<Rightarrow> string" where
  "error_text env e = (case e of
     NotEnabled \<Rightarrow> ''dga model not enabled in deployment manifest''
   | MetadataChecksum \<Rightarrow> ''metadata.json checksum does not match deployment manifest''
   | ModelChecksum \<Rightarrow> ''model.onnx checksum does not match manifests''
   | FeatureContract v d \<Rightarrow> ''feature contract '' @ me_str env v @ ''/'' @ me_str env d @ '' is not the runtime''
       @ [CHR 0x27] @ ''s '' @ FEATURE_SCHEMA_VERSION @ ''/'' @ str_of_nat DIMENSION
   | SchemaChecksum \<Rightarrow> ''feature_schema.json checksum mismatch''
   | FeatureOrder \<Rightarrow> ''feature order differs from the runtime contract''
   | PreprocessingChecksum \<Rightarrow> ''preprocessing checksum mismatch''
   | GoldenFeatures q \<Rightarrow> ''runtime features differ from training features for '' @ me_repr env q
   | GoldenScore q p gp \<Rightarrow> ''golden score mismatch for '' @ me_repr env q @ '': '' @ me_str env (DFloat p) @ '' vs '' @ me_str env gp
   | NotScorable reason \<Rightarrow> reason
   | Raised place \<Rightarrow> me_exc env place)"

record dga_model =
  dm_disable_after :: int
  dm_active :: bool
  dm_reason :: string
  dm_version :: jdoc
  dm_threshold :: pyfloat
  dm_calibration :: jdoc
  dm_confidence :: jdoc
  dm_table :: jdoc
  dm_meta :: "ddict option"
  dm_session :: "onnx_session option"
  dm_in :: jdoc
  dm_out :: jdoc
  dm_consecutive_errors :: int
  dm_errors_total :: int
  dm_inferences_total :: int

definition dga_new :: "int \<Rightarrow> dga_model" where
  "dga_new disable_after = \<lparr>dm_disable_after = disable_after, dm_active = False, dm_reason = ''not_loaded'', dm_version = DNull,
     dm_threshold = Fin (9 / 10), dm_calibration = DStr ''uncalibrated'', dm_confidence = DStr ''heuristic_score'', dm_table = DNull,
     dm_meta = None, dm_session = None, dm_in = DNull, dm_out = DNull, dm_consecutive_errors = 0, dm_errors_total = 0,
     dm_inferences_total = 0\<rparr>"

section \<open>Reading\<close>

definition sha256_file :: "model_env \<Rightarrow> string list \<Rightarrow> string option" where
  "sha256_file env path = map_option (\<lambda>b. hex_of (sha256 b)) (me_read env path)"

definition read_json :: "model_env \<Rightarrow> string list \<Rightarrow> jdoc option" where
  "read_json env path = Option.bind (me_read env path) (me_loads env)"

text \<open>\<^verbatim>\<open>v[k]\<close> of a document value, \<^verbatim>\<open>v[0]\<close> and iteration over it; \<open>None\<close> is the exception.\<close>

definition item :: "jdoc \<Rightarrow> string \<Rightarrow> jdoc option" where
  "item v k = Option.bind (doc_obj v) (\<lambda>d. map_of d k)"

fun first_item :: "jdoc \<Rightarrow> jdoc option" where
  "first_item (DArr (x # xs)) = Some x"
| "first_item _ = None"

fun iter_items :: "jdoc \<Rightarrow> jdoc list option" where
  "iter_items (DArr xs) = Some xs"
| "iter_items (DObj d) = Some (map (\<lambda>(k, v). DStr k) d)"
| "iter_items (DStr s) = Some (map DStr (py_chars s))"
| "iter_items _ = None"

text \<open>\<^verbatim>\<open>bigram_table[a][b]\<close> on the loaded document, as a float and, where it is finite, as a number.\<close>

definition doc_lookup :: "jdoc \<Rightarrow> nat \<times> nat \<Rightarrow> pyfloat option" where
  "doc_lookup table ab = (case ab of (a, b) \<Rightarrow> (case table of
     DArr rows \<Rightarrow> if a < length rows
       then (case rows ! a of DArr row \<Rightarrow> if b < length row then doc_num (row ! b) else None | _ \<Rightarrow> None) else None
   | _ \<Rightarrow> None))"

definition finite_part :: "pyfloat option \<Rightarrow> real option" where
  "finite_part v = (case v of Some (Fin x) \<Rightarrow> Some x | _ \<Rightarrow> None)"

definition json_lookup :: "jdoc \<Rightarrow> nat \<times> nat \<Rightarrow> real option" where
  "json_lookup table ab = finite_part (doc_lookup table ab)"

text \<open>\<^verbatim>\<open>sha256_file(p) != doc[key]\<close>.\<close>

definition check_sum :: "model_env \<Rightarrow> string list \<Rightarrow> jdoc \<Rightarrow> string \<Rightarrow> load_error \<Rightarrow> load_error + unit" where
  "check_sum env path doc key err =
     andthen (need (Raised key) (sha256_file env path)) (\<lambda>h.
     andthen (need (Raised key) (item doc key)) (\<lambda>x. ensure (x = DStr h) err))"

fun num_is :: "jdoc \<Rightarrow> nat \<Rightarrow> bool" where
  "num_is (DInt i) n = (i = int n)"
| "num_is (DFloat x) n = (x = Fin (real n))"
| "num_is (DBool b) n = ((if b then 1 else 0) = n)"
| "num_is _ n = False"

section \<open>The checks of a bundle\<close>

text \<open>The selected model of the deployment manifest with its version directory.\<close>

definition selected :: "model_env \<Rightarrow> load_error + string \<times> jdoc" where
  "selected env =
     andthen (need (Raised ''deployment'') (Option.bind (read_json env [''deployment.json'']) doc_obj)) (\<lambda>dep.
     andthen (need (Raised ''models'') (doc_obj (case map_of dep ''models'' of None \<Rightarrow> DObj [] | Some v \<Rightarrow> v))) (\<lambda>models.
     (let sel = doc_get models ''dga'' in
      if \<not> doc_truthy sel then Inl NotEnabled
      else andthen (need (Raised ''dga'') (doc_obj sel)) (\<lambda>s.
        if \<not> doc_truthy (doc_get s ''enabled'') then Inl NotEnabled
        else andthen (need (Raised ''version'') (Option.bind (map_of s ''version'') doc_str)) (\<lambda>v. Inr (v, sel))))))"

definition in_bundle :: "string \<Rightarrow> string \<Rightarrow> string list" where
  "in_bundle v file = [''dga'', v, file]"

text \<open>The metadata, once its checksum and the model's agree with the manifests.\<close>

definition checked_meta :: "model_env \<Rightarrow> string \<Rightarrow> jdoc \<Rightarrow> load_error + jdoc" where
  "checked_meta env v sel =
     andthen (check_sum env (in_bundle v ''metadata.json'') sel ''metadata_sha256'' MetadataChecksum) (\<lambda>_.
     andthen (need (Raised ''metadata'') (read_json env (in_bundle v ''metadata.json''))) (\<lambda>meta.
     andthen (check_sum env (in_bundle v ''model.onnx'') sel ''model_sha256'' ModelChecksum) (\<lambda>_.
     andthen (check_sum env (in_bundle v ''model.onnx'') meta ''model_sha256'' ModelChecksum) (\<lambda>_. Inr meta))))"

definition check_contract :: "model_env \<Rightarrow> string \<Rightarrow> jdoc \<Rightarrow> load_error + unit" where
  "check_contract env v meta =
     andthen (need (Raised ''feature_schema'') (item meta ''feature_schema'')) (\<lambda>fs.
     andthen (need (Raised ''version'') (item fs ''version'')) (\<lambda>ver.
     andthen (need (Raised ''dimension'') (item fs ''dimension'')) (\<lambda>dim.
     andthen (ensure (ver = DStr FEATURE_SCHEMA_VERSION \<and> num_is dim DIMENSION) (FeatureContract ver dim)) (\<lambda>_.
     andthen (need (Raised ''file'') (Option.bind (item fs ''file'') doc_str)) (\<lambda>file.
     andthen (check_sum env (in_bundle v file) fs ''sha256'' SchemaChecksum) (\<lambda>_.
     andthen (need (Raised ''features'') (Option.bind (Option.bind (read_json env (in_bundle v file)) (\<lambda>doc. item doc ''features'')) iter_items)) (\<lambda>fl.
     andthen (need (Raised ''name'') (those (map (\<lambda>f. item f ''name'') fl))) (\<lambda>names.
     ensure (names = map DStr FEATURE_NAMES) FeatureOrder))))))))"

definition checked_table :: "model_env \<Rightarrow> string \<Rightarrow> jdoc \<Rightarrow> load_error + jdoc" where
  "checked_table env v meta =
     andthen (need (Raised ''preprocessing'') (item meta ''preprocessing'')) (\<lambda>pre.
     andthen (need (Raised ''file'') (Option.bind (item pre ''file'') doc_str)) (\<lambda>file.
     andthen (check_sum env (in_bundle v file) pre ''sha256'' PreprocessingChecksum) (\<lambda>_.
     need (Raised ''bigram_logprob'') (Option.bind (read_json env (in_bundle v file)) (\<lambda>doc. item doc ''bigram_logprob'')))))"

definition opened_session :: "model_env \<Rightarrow> string \<Rightarrow> jdoc \<Rightarrow> load_error + onnx_session" where
  "opened_session env v meta =
     andthen (need (Raised ''runtime'') (item meta ''runtime'')) (\<lambda>rt.
     andthen (need (Raised ''intra_op_threads'') (item rt ''intra_op_threads'')) (\<lambda>intra.
     andthen (need (Raised ''inter_op_threads'') (item rt ''inter_op_threads'')) (\<lambda>inter.
     andthen (need (Raised ''model'') (me_read env (in_bundle v ''model.onnx''))) (\<lambda>model.
     need (Raised ''session'') (me_session env model intra inter)))))"

definition end_name :: "jdoc \<Rightarrow> string \<Rightarrow> load_error + jdoc" where
  "end_name meta key =
     need (Raised key) (Option.bind (Option.bind (item meta key) first_item) (\<lambda>x. item x ''name''))"

text \<open>The vector of a golden query, \<^verbatim>\<open>dga_features.extract(g["query"], table)\<close>; only the mean of the
  table's entries can be other than finite.\<close>

definition text_arg :: "jdoc \<Rightarrow> json" where
  "text_arg v = (case v of DStr s \<Rightarrow> JStr s | _ \<Rightarrow> JNull)"

definition extract_floats :: "(nat \<times> nat \<Rightarrow> pyfloat option) \<Rightarrow> jdoc \<Rightarrow> (string + pyfloat list \<times> split_name) option" where
  "extract_floats lookup query =
     (case normalize_name (text_arg query) of Inl e \<Rightarrow> Some (Inl e)
      | Inr name \<Rightarrow>
        (case split_registrable name of Inl e \<Rightarrow> Some (Inl e)
         | Inr sp \<Rightarrow>
             if length (py_chars (sld sp)) < MIN_SLD_LEN then Some (Inl ''label_too_short'')
             else let grams = bigrams (sld sp)
               in map_option (\<lambda>ps. Inr (map Fin (butlast (label_features name sp 0))
                      @ [fscale (1 / real (length grams)) (foldl fadd (Fin 0) ps)] @ map Fin (hashed_features grams), sp))
                    (those (map lookup grams))))"

text \<open>One golden vector: the features and the score of the runtime against the training's. A difference is
  refused when it is greater than the tolerance, which NaN never is.\<close>

definition differences :: "pyfloat list \<Rightarrow> jdoc list \<Rightarrow> pyfloat list option" where
  "differences vec feats = those (map (\<lambda>(a, b). map_option (fsub a) (doc_num b)) (zip vec feats))"

definition feature_gap :: "pyfloat list \<Rightarrow> jdoc list \<Rightarrow> pyfloat option" where
  "feature_gap vec feats = Option.bind (differences vec feats) (\<lambda>ds. py_max (map fabs ds))"

definition check_vector :: "(nat \<times> nat \<Rightarrow> pyfloat option) \<Rightarrow> (pyfloat list \<Rightarrow> pyfloat option) \<Rightarrow> jdoc \<Rightarrow> load_error + unit" where
  "check_vector lookup run g =
     andthen (need (Raised ''query'') (item g ''query'')) (\<lambda>q.
     andthen (need (Raised ''extract'') (extract_floats lookup q)) (\<lambda>r.
     (case r of Inl reason \<Rightarrow> Inl (NotScorable reason)
      | Inr (vec, info) \<Rightarrow>
        andthen (need (Raised ''features'') (Option.bind (Option.bind (item g ''features'') iter_items) (feature_gap vec))) (\<lambda>gap.
        andthen (ensure (\<not> fgreater gap (Fin (1 / 10 ^ 9))) (GoldenFeatures q)) (\<lambda>_.
        andthen (need (Raised ''run'') (run vec)) (\<lambda>p.
        andthen (need (Raised ''p'') (item g ''p'')) (\<lambda>gp.
        andthen (need (Raised ''p'') (doc_num gp)) (\<lambda>x.
        ensure (\<not> fgreater (fabs (fsub p x)) (Fin (1 / 10 ^ 5))) (GoldenScore q p gp)))))))))"

fun check_golden :: "(nat \<times> nat \<Rightarrow> pyfloat option) \<Rightarrow> (pyfloat list \<Rightarrow> pyfloat option) \<Rightarrow> jdoc list \<Rightarrow> load_error + unit" where
  "check_golden lookup run [] = Inr ()"
| "check_golden lookup run (g # gs) = andthen (check_vector lookup run g) (\<lambda>_. check_golden lookup run gs)"

text \<open>What is kept of the metadata at the end, field by field.\<close>

definition adopt :: "jdoc \<Rightarrow> dga_model \<Rightarrow> dga_model \<times> load_error option" where
  "adopt meta m =
     (let m0 = m\<lparr>dm_meta := doc_obj meta\<rparr> in
      case item meta ''model_version'' of None \<Rightarrow> (m0, Some (Raised ''model_version''))
      | Some v \<Rightarrow> (let m1 = m0\<lparr>dm_version := v\<rparr> in
        case andthen (need BadValue (item meta ''decision_threshold'')) doc_float of Inl _ \<Rightarrow> (m1, Some (Raised ''decision_threshold''))
        | Inr t \<Rightarrow> (let m2 = m1\<lparr>dm_threshold := t\<rparr> in
          case Option.bind (item meta ''calibration'') (\<lambda>c. item c ''status'') of None \<Rightarrow> (m2, Some (Raised ''status''))
          | Some s \<Rightarrow> (let m3 = m2\<lparr>dm_calibration := s\<rparr> in
            case Option.bind (item meta ''calibration'') (\<lambda>c. item c ''confidence_kind'') of None \<Rightarrow> (m3, Some (Raised ''confidence_kind''))
            | Some k \<Rightarrow> (m3\<lparr>dm_confidence := k\<rparr>, None)))))"

text \<open>From the session on: the input and output names, the golden vectors, the metadata.\<close>

definition warm_up :: "model_env \<Rightarrow> string \<Rightarrow> jdoc \<Rightarrow> onnx_session \<Rightarrow> dga_model \<Rightarrow> dga_model \<times> load_error option" where
  "warm_up env v meta sess m =
     (case end_name meta ''inputs'' of Inl e \<Rightarrow> (m, Some e)
      | Inr i \<Rightarrow> (let m1 = m\<lparr>dm_in := i\<rparr> in
        case end_name meta ''outputs'' of Inl e \<Rightarrow> (m1, Some e)
        | Inr n \<Rightarrow> (let m2 = m1\<lparr>dm_out := n\<rparr> in
          case andthen (need (Raised ''vectors'') (Option.bind (Option.bind (read_json env (in_bundle v ''golden.json''))
                 (\<lambda>doc. item doc ''vectors'')) iter_items)) (check_golden (doc_lookup (dm_table m)) (sess n i)) of
            Inl e \<Rightarrow> (m2, Some e)
          | Inr _ \<Rightarrow> adopt meta m2)))"

definition load_body :: "model_env \<Rightarrow> dga_model \<Rightarrow> dga_model \<times> load_error option" where
  "load_body env m =
     (case andthen (selected env) (\<lambda>(v, sel). andthen (checked_meta env v sel) (\<lambda>meta.
             andthen (check_contract env v meta) (\<lambda>_. andthen (checked_table env v meta) (\<lambda>table. Inr (v, meta, table))))) of
        Inl e \<Rightarrow> (m, Some e)
      | Inr (v, meta, table) \<Rightarrow> (let m1 = m\<lparr>dm_table := table\<rparr> in
          case opened_session env v meta of Inl e \<Rightarrow> (m1, Some e)
          | Inr sess \<Rightarrow> warm_up env v meta sess (m1\<lparr>dm_session := Some sess\<rparr>)))"

definition load :: "model_env \<Rightarrow> dga_model \<Rightarrow> dga_model" where
  "load env m = (case load_body env m of
     (m1, None) \<Rightarrow> m1\<lparr>dm_active := True, dm_reason := ''active''\<rparr>
   | (m1, Some e) \<Rightarrow> m1\<lparr>dm_active := False, dm_reason := py_take 200 (error_text env e)\<rparr>)"

section \<open>Scoring\<close>

definition score_call :: "dga_model \<Rightarrow> string + real \<Rightarrow> real option \<times> dga_model" where
  "score_call m answer =
     (if \<not> dm_active m then (None, m)
      else (case answer of
        Inr p \<Rightarrow> (Some p, m\<lparr>dm_consecutive_errors := 0, dm_inferences_total := dm_inferences_total m + 1\<rparr>)
      | Inl e \<Rightarrow>
          (let k = dm_consecutive_errors m + 1; m1 = m\<lparr>dm_errors_total := dm_errors_total m + 1, dm_consecutive_errors := k\<rparr>
           in (None, if k \<ge> dm_disable_after m
                then m1\<lparr>dm_active := False, dm_reason := py_take 200 (''disabled after '' @ str_of_int k @ '' consecutive errors: '' @ e)\<rparr>
                else m1))))"

text \<open>Signed contributions, largest first; \<open>None\<close> where the metadata has no such lists of
  finite numbers, or a scale of zero.\<close>

definition contributions :: "dga_model \<Rightarrow> real list \<Rightarrow> (string \<times> real \<times> real) list option" where
  "contributions m vec =
     (let ex = Option.bind (dm_meta m) (\<lambda>d. map_of d ''explanation'');
          col = (\<lambda>k. Option.bind (Option.bind (Option.bind ex (\<lambda>e. item e k)) iter_items) (\<lambda>xs. Some (map (\<lambda>x. finite_part (doc_num x)) xs)))
      in case (col ''coefficients'', col ''means'', col ''scales'') of
           (Some ws, Some mus, Some sds) \<Rightarrow>
             map_option (\<lambda>items. take 5 (sort_key (\<lambda>(n, x, c). - \<bar>c\<bar>) items))
               (those (map (\<lambda>(n, x, w, mu, sd). (case (w, mu, sd) of
                  (Some w', Some mu', Some sd') \<Rightarrow> if sd' = 0 then None else Some (n, x, w' * (x - mu') / sd')
                | _ \<Rightarrow> None)) (zip FEATURE_NAMES (zip vec (zip ws (zip mus sds))))))
         | _ \<Rightarrow> None)"

fun score_calls :: "dga_model \<Rightarrow> (string + real) list \<Rightarrow> dga_model" where
  "score_calls m [] = m"
| "score_calls m (a # as) = score_calls (snd (score_call m a)) as"

section \<open>What an active model has passed\<close>

lemma item_Some: "item v k = Some x \<longleftrightarrow> (\<exists>d. v = DObj d \<and> map_of d k = Some x)"
  by (cases v) (simp_all add: item_def)

lemma doc_obj_Some: "doc_obj v = Some d \<longleftrightarrow> v = DObj d"
  by (cases v) simp_all

lemma doc_str_Some: "doc_str v = Some s \<longleftrightarrow> v = DStr s"
  by (cases v) simp_all

lemma check_sum_Inr: "check_sum env path doc key err = Inr u \<longleftrightarrow> (\<exists>h. sha256_file env path = Some h \<and> item doc key = Some (DStr h))"
  by (auto simp: check_sum_def andthen_Inr)

lemma selected_Inr:
  assumes "selected env = Inr (v, sel)"
  shows "\<exists>dep models. read_json env [''deployment.json''] = Some (DObj dep) \<and> map_of dep ''models'' = Some (DObj models)
    \<and> map_of models ''dga'' = Some sel \<and> (\<exists>e. item sel ''enabled'' = Some e \<and> doc_truthy e) \<and> item sel ''version'' = Some (DStr v)"
  using assms by (auto simp: selected_def andthen_Inr Let_def bind_eq_Some_conv doc_obj_Some doc_str_Some item_Some doc_get_def
      split: if_splits option.splits)

lemma checked_meta_Inr:
  "checked_meta env v sel = Inr meta \<Longrightarrow> read_json env (in_bundle v ''metadata.json'') = Some meta
    \<and> (\<exists>h. sha256_file env (in_bundle v ''metadata.json'') = Some h \<and> item sel ''metadata_sha256'' = Some (DStr h))
    \<and> (\<exists>h. sha256_file env (in_bundle v ''model.onnx'') = Some h \<and> item sel ''model_sha256'' = Some (DStr h)
        \<and> item meta ''model_sha256'' = Some (DStr h))"
  by (auto simp: checked_meta_def andthen_Inr check_sum_Inr)

lemma num_is_iff: "num_is v DIMENSION \<longleftrightarrow> doc_num v = Some (Fin (real DIMENSION))"
  by (cases v) (auto simp: FLOAT_LIMIT_def)

lemma those_eq_Some: "those xs = Some ys \<Longrightarrow> xs = map Some ys"
proof (induction xs arbitrary: ys)
  case (Cons x xs)
  then show ?case by (auto split: option.splits)
qed simp

text \<open>A difference that passes a comparison: within the tolerance, or not a number.\<close>

definition tolerated :: "real \<Rightarrow> pyfloat \<Rightarrow> bool" where
  "tolerated tol d \<longleftrightarrow> d = NaN \<or> (\<exists>r. d = Fin r \<and> \<bar>r\<bar> \<le> tol)"

lemma tolerated_iff: "\<not> fgreater (fabs d) (Fin tol) \<longleftrightarrow> tolerated tol d"
  by (cases d) (auto simp: tolerated_def)

lemma fabs_NaN [simp]: "fabs d = NaN \<longleftrightarrow> d = NaN"
  by (cases d) simp_all

lemma feature_gap_within:
  assumes "feature_gap vec feats = Some gap"
  shows "\<exists>ds. differences vec feats = Some ds \<and> ds \<noteq> []
    \<and> (\<not> fgreater gap (Fin tol) \<longleftrightarrow> hd ds = NaN \<or> (\<forall>d \<in> set ds. tolerated tol d))"
proof -
  obtain ds where ds: "differences vec feats = Some ds" "py_max (map fabs ds) = Some gap"
    using assms by (auto simp: feature_gap_def bind_eq_Some_conv)
  then have ne: "ds \<noteq> []" by auto
  then have h: "hd (map fabs ds) = NaN \<longleftrightarrow> hd ds = NaN" by (cases ds) simp_all
  show ?thesis using py_max_within [OF ds(2), of "Fin tol"] ne ds(1) unfolding h by (simp add: tolerated_iff)
qed

lemma check_vector_Inr:
  "check_vector lookup run g = Inr u \<longleftrightarrow> (\<exists>q vec sp feats ds p x. item g ''query'' = Some q
    \<and> extract_floats lookup q = Some (Inr (vec, sp)) \<and> Option.bind (item g ''features'') iter_items = Some feats
    \<and> differences vec feats = Some ds \<and> ds \<noteq> [] \<and> (hd ds = NaN \<or> (\<forall>d \<in> set ds. tolerated (1 / 10 ^ 9) d))
    \<and> run vec = Some p \<and> Option.bind (item g ''p'') doc_num = Some x \<and> tolerated (1 / 10 ^ 5) (fsub p x))"
  (is "?l \<longleftrightarrow> ?r")
proof
  assume c: ?l
  then obtain q r where q: "item g ''query'' = Some q" "extract_floats lookup q = Some r"
    by (auto simp: check_vector_def andthen_Inr)
  then obtain vec sp where r: "r = Inr (vec, sp)" using c by (cases r) (auto simp: check_vector_def)
  obtain fj feats gap p gp x where f: "item g ''features'' = Some fj" "iter_items fj = Some feats" "feature_gap vec feats = Some gap"
      "\<not> fgreater gap (Fin (1 / 10 ^ 9))" "run vec = Some p" "item g ''p'' = Some gp" "doc_num gp = Some x"
      "\<not> fgreater (fabs (fsub p x)) (Fin (1 / 10 ^ 5))"
    using c q r by (auto simp: check_vector_def andthen_Inr bind_eq_Some_conv)
  then show ?r using q r feature_gap_within [OF f(3), of "1 / 10 ^ 9"] by (auto simp: tolerated_iff)
next
  assume ?r
  then obtain q vec sp feats ds p x where r: "item g ''query'' = Some q" "extract_floats lookup q = Some (Inr (vec, sp))"
      "Option.bind (item g ''features'') iter_items = Some feats" "differences vec feats = Some ds" "ds \<noteq> []"
      "hd ds = NaN \<or> (\<forall>d \<in> set ds. tolerated (1 / 10 ^ 9) d)" "run vec = Some p" "Option.bind (item g ''p'') doc_num = Some x"
      "tolerated (1 / 10 ^ 5) (fsub p x)"
    by blast
  obtain gap where gap: "feature_gap vec feats = Some gap"
    using r(4,5) by (cases "py_max (map fabs ds)") (auto simp: feature_gap_def)
  then have "\<not> fgreater gap (Fin (1 / 10 ^ 9))" using feature_gap_within [OF gap, of "1 / 10 ^ 9"] r(4,6) by auto
  then show ?l using r gap by (auto simp: check_vector_def bind_eq_Some_conv tolerated_iff)
qed

lemma check_golden_Inr: "check_golden lookup run gs = Inr u \<longleftrightarrow> (\<forall>g \<in> set gs. check_vector lookup run g = Inr ())"
  by (induction gs) (auto simp: andthen_Inr)

lemma adopt_fields: "adopt meta m = (m', r) \<Longrightarrow> dm_table m' = dm_table m \<and> dm_session m' = dm_session m \<and> dm_in m' = dm_in m
    \<and> dm_out m' = dm_out m \<and> dm_disable_after m' = dm_disable_after m \<and> dm_consecutive_errors m' = dm_consecutive_errors m
    \<and> (r = None \<longrightarrow> item meta ''model_version'' = Some (dm_version m')
      \<and> (\<exists>t. item meta ''decision_threshold'' = Some t \<and> doc_float t = Inr (dm_threshold m')))"
  by (auto simp: adopt_def Let_def andthen_Inr split: option.splits sum.splits)

text \<open>What \<open>load\<close> has compared when it activates a model.\<close>

definition verified :: "model_env \<Rightarrow> dga_model \<Rightarrow> string \<Rightarrow> jdoc \<Rightarrow> jdoc \<Rightarrow> bool" where
  "verified env m v sel meta \<longleftrightarrow>
     (\<exists>h. sha256_file env (in_bundle v ''metadata.json'') = Some h \<and> item sel ''metadata_sha256'' = Some (DStr h))
   \<and> (\<exists>h. sha256_file env (in_bundle v ''model.onnx'') = Some h \<and> item sel ''model_sha256'' = Some (DStr h)
        \<and> item meta ''model_sha256'' = Some (DStr h))
   \<and> (\<exists>fs fn h doc fl. item meta ''feature_schema'' = Some fs \<and> item fs ''version'' = Some (DStr FEATURE_SCHEMA_VERSION)
        \<and> Option.bind (item fs ''dimension'') doc_num = Some (Fin (real DIMENSION)) \<and> item fs ''file'' = Some (DStr fn)
        \<and> sha256_file env (in_bundle v fn) = Some h \<and> item fs ''sha256'' = Some (DStr h)
        \<and> read_json env (in_bundle v fn) = Some doc \<and> Option.bind (item doc ''features'') iter_items = Some fl
        \<and> map (\<lambda>f. item f ''name'') fl = map (\<lambda>n. Some (DStr n)) FEATURE_NAMES)
   \<and> (\<exists>pre fn h doc. item meta ''preprocessing'' = Some pre \<and> item pre ''file'' = Some (DStr fn)
        \<and> sha256_file env (in_bundle v fn) = Some h \<and> item pre ''sha256'' = Some (DStr h)
        \<and> read_json env (in_bundle v fn) = Some doc \<and> item doc ''bigram_logprob'' = Some (dm_table m))"

text \<open>A golden vector passes with what the model computes now.\<close>

definition golden_passes :: "dga_model \<Rightarrow> jdoc \<Rightarrow> bool" where
  "golden_passes m g \<longleftrightarrow> (\<exists>q vec sp feats ds sess p x. item g ''query'' = Some q
     \<and> extract_floats (doc_lookup (dm_table m)) q = Some (Inr (vec, sp)) \<and> Option.bind (item g ''features'') iter_items = Some feats
     \<and> differences vec feats = Some ds \<and> ds \<noteq> [] \<and> (hd ds = NaN \<or> (\<forall>d \<in> set ds. tolerated (1 / 10 ^ 9) d))
     \<and> dm_session m = Some sess \<and> sess (dm_out m) (dm_in m) vec = Some p
     \<and> Option.bind (item g ''p'') doc_num = Some x \<and> tolerated (1 / 10 ^ 5) (fsub p x))"

lemma contract_Inr:
  assumes "check_contract env v meta = Inr u"
  shows "\<exists>fs fn h doc fl. item meta ''feature_schema'' = Some fs \<and> item fs ''version'' = Some (DStr FEATURE_SCHEMA_VERSION)
        \<and> Option.bind (item fs ''dimension'') doc_num = Some (Fin (real DIMENSION)) \<and> item fs ''file'' = Some (DStr fn)
        \<and> sha256_file env (in_bundle v fn) = Some h \<and> item fs ''sha256'' = Some (DStr h)
        \<and> read_json env (in_bundle v fn) = Some doc \<and> Option.bind (item doc ''features'') iter_items = Some fl
        \<and> map (\<lambda>f. item f ''name'') fl = map (\<lambda>n. Some (DStr n)) FEATURE_NAMES"
proof -
  obtain fs dim fn h where a: "item meta ''feature_schema'' = Some fs" "item fs ''version'' = Some (DStr FEATURE_SCHEMA_VERSION)"
      "item fs ''dimension'' = Some dim" "num_is dim DIMENSION" "item fs ''file'' = Some (DStr fn)"
      "sha256_file env (in_bundle v fn) = Some h" "item fs ''sha256'' = Some (DStr h)"
    and rest: "andthen (need (Raised ''features'') (Option.bind (Option.bind (read_json env (in_bundle v fn)) (\<lambda>doc. item doc ''features'')) iter_items)) (\<lambda>fl.
     andthen (need (Raised ''name'') (those (map (\<lambda>f. item f ''name'') fl))) (\<lambda>names. ensure (names = map DStr FEATURE_NAMES) FeatureOrder)) = Inr u"
    using assms by (auto simp: check_contract_def andthen_Inr check_sum_Inr bind_eq_Some_conv doc_str_Some simp del: num_is.simps)
  obtain doc fj fl where b: "read_json env (in_bundle v fn) = Some doc" "item doc ''features'' = Some fj" "iter_items fj = Some fl"
      "those (map (\<lambda>f. item f ''name'') fl) = Some (map DStr FEATURE_NAMES)"
    using rest by (auto simp: andthen_Inr bind_eq_Some_conv)
  have "map (\<lambda>f. item f ''name'') fl = map (\<lambda>n. Some (DStr n)) FEATURE_NAMES" using those_eq_Some [OF b(4)] by simp
  then show ?thesis using a b num_is_iff [of dim] by auto
qed

lemma table_Inr:
  "checked_table env v meta = Inr table \<Longrightarrow> \<exists>pre fn h doc. item meta ''preprocessing'' = Some pre \<and> item pre ''file'' = Some (DStr fn)
        \<and> sha256_file env (in_bundle v fn) = Some h \<and> item pre ''sha256'' = Some (DStr h)
        \<and> read_json env (in_bundle v fn) = Some doc \<and> item doc ''bigram_logprob'' = Some table"
  by (auto simp: checked_table_def andthen_Inr check_sum_Inr bind_eq_Some_conv doc_str_Some)

lemma load_activates: "dm_active (load env m) \<longleftrightarrow> snd (load_body env m) = None"
  by (auto simp: load_def split: prod.splits option.splits)

text \<open>A body that ends without an error has passed every step.\<close>

lemma load_body_None:
  assumes "load_body env m = (m', None)"
  obtains v sel meta table sess i n gs where "selected env = Inr (v, sel)" "checked_meta env v sel = Inr meta"
    "check_contract env v meta = Inr ()" "checked_table env v meta = Inr table" "opened_session env v meta = Inr sess"
    "end_name meta ''inputs'' = Inr i" "end_name meta ''outputs'' = Inr n"
    "Option.bind (Option.bind (read_json env (in_bundle v ''golden.json'')) (\<lambda>doc. item doc ''vectors'')) iter_items = Some gs"
    "check_golden (doc_lookup table) (sess n i) gs = Inr ()"
    "adopt meta (m\<lparr>dm_table := table, dm_session := Some sess, dm_in := i, dm_out := n\<rparr>) = (m', None)"
proof -
  obtain v meta table where a: "andthen (selected env) (\<lambda>(v, sel). andthen (checked_meta env v sel) (\<lambda>meta.
             andthen (check_contract env v meta) (\<lambda>_. andthen (checked_table env v meta) (\<lambda>table. Inr (v, meta, table))))) = Inr (v, meta, table)"
    using assms by (auto simp: load_body_def split: sum.splits)
  then obtain sel where s: "selected env = Inr (v, sel)" "checked_meta env v sel = Inr meta" "check_contract env v meta = Inr ()"
      "checked_table env v meta = Inr table"
    by (auto simp: andthen_Inr)
  obtain sess where o: "opened_session env v meta = Inr sess" "warm_up env v meta sess (m\<lparr>dm_table := table, dm_session := Some sess\<rparr>) = (m', None)"
    using assms a by (auto simp: load_body_def Let_def split: sum.splits)
  obtain i n gs where w: "end_name meta ''inputs'' = Inr i" "end_name meta ''outputs'' = Inr n"
      "Option.bind (Option.bind (read_json env (in_bundle v ''golden.json'')) (\<lambda>doc. item doc ''vectors'')) iter_items = Some gs"
      "check_golden (doc_lookup table) (sess n i) gs = Inr ()"
      "adopt meta (m\<lparr>dm_table := table, dm_session := Some sess, dm_in := i, dm_out := n\<rparr>) = (m', None)"
    using o(2) by (auto simp: warm_up_def Let_def andthen_Inr split: sum.splits)
  show ?thesis by (rule that [OF s o(1) w])
qed

text \<open>
  C14: A model is active only when the whole bundle agreed: the deployment manifest enables it, the
  checksums of metadata, model, feature schema and preprocessing match what the manifests say, the feature
  contract and order are the runtime's, and every golden vector passed its two comparisons: the score's
  difference from training is within its tolerance or NaN, and so is each feature's, unless the first
  feature's difference is NaN, in which case no feature was compared.
\<close>

theorem active_model_verified:
  assumes "dm_active (load env (dga_new k))"
  shows "\<exists>v sel meta gdoc golden dep models. read_json env [''deployment.json''] = Some (DObj dep) \<and> map_of dep ''models'' = Some (DObj models)
    \<and> map_of models ''dga'' = Some sel \<and> (\<exists>e. item sel ''enabled'' = Some e \<and> doc_truthy e) \<and> item sel ''version'' = Some (DStr v)
    \<and> read_json env (in_bundle v ''metadata.json'') = Some meta \<and> verified env (load env (dga_new k)) v sel meta
    \<and> read_json env (in_bundle v ''golden.json'') = Some gdoc \<and> Option.bind (item gdoc ''vectors'') iter_items = Some golden
    \<and> (\<forall>g \<in> set golden. golden_passes (load env (dga_new k)) g)
    \<and> item meta ''model_version'' = Some (dm_version (load env (dga_new k)))
    \<and> (\<exists>t. item meta ''decision_threshold'' = Some t \<and> doc_float t = Inr (dm_threshold (load env (dga_new k))))"
proof -
  define m where "m = dga_new k"
  obtain m' where b: "load_body env m = (m', None)" and ld: "load env m = m'\<lparr>dm_active := True, dm_reason := ''active''\<rparr>"
    using assms by (auto simp: load_def m_def split: prod.splits option.splits)
  obtain v sel meta table sess i n gs where s: "selected env = Inr (v, sel)" "checked_meta env v sel = Inr meta"
      "check_contract env v meta = Inr ()" "checked_table env v meta = Inr table" "opened_session env v meta = Inr sess"
    and w: "end_name meta ''inputs'' = Inr i" "end_name meta ''outputs'' = Inr n"
      "Option.bind (Option.bind (read_json env (in_bundle v ''golden.json'')) (\<lambda>doc. item doc ''vectors'')) iter_items = Some gs"
      "check_golden (doc_lookup table) (sess n i) gs = Inr ()"
      "adopt meta (m\<lparr>dm_table := table, dm_session := Some sess, dm_in := i, dm_out := n\<rparr>) = (m', None)"
    using b by (rule load_body_None)
  note f = adopt_fields [OF w(5), simplified]
  have g: "golden_passes (load env m) g" if "g \<in> set gs" for g
    using w(4) that f by (simp add: golden_passes_def ld check_golden_Inr check_vector_Inr)
  have "verified env (load env m) v sel meta"
    using checked_meta_Inr [OF s(2)] contract_Inr [OF s(3)] table_Inr [OF s(4)] f unfolding verified_def ld by simp
  moreover obtain gdoc where "read_json env (in_bundle v ''golden.json'') = Some gdoc" "Option.bind (item gdoc ''vectors'') iter_items = Some gs"
    using w(3) by (auto simp: bind_eq_Some_conv)
  moreover have "item meta ''model_version'' = Some (dm_version (load env m))"
    "\<exists>t. item meta ''decision_threshold'' = Some t \<and> doc_float t = Inr (dm_threshold (load env m))"
    using f unfolding ld by simp_all
  ultimately show ?thesis
    using selected_Inr [OF s(1)] checked_meta_Inr [OF s(2)] g unfolding m_def [symmetric] by blast
qed
text \<open>A bundle that loads: the golden features are what the runtime extracts.\<close>

definition demo_table :: jdoc where
  "demo_table = DArr (replicate 40 (DArr (replicate 40 (DInt (- 1)))))"

definition demo_golden :: jdoc where
  "demo_golden = DObj [(''query'', DStr ''kq3v9z.com''),
     (''features'', DArr (case extract_floats (doc_lookup demo_table) (DStr ''kq3v9z.com'') of Some (Inr (vec, sp)) \<Rightarrow> map DFloat vec | _ \<Rightarrow> [])),
     (''p'', DFloat (Fin (1 / 2)))]"

definition demo_sum :: "8 word \<Rightarrow> jdoc" where
  "demo_sum b = DStr (hex_of (sha256 [b]))"

definition demo_meta :: jdoc where
  "demo_meta = DObj [(''model_version'', DStr ''dga-1''), (''decision_threshold'', DFloat (Fin (9 / 10))), (''model_sha256'', demo_sum 2),
     (''feature_schema'', DObj [(''version'', DStr FEATURE_SCHEMA_VERSION), (''dimension'', DInt 46), (''file'', DStr ''f.json''), (''sha256'', demo_sum 3)]),
     (''preprocessing'', DObj [(''file'', DStr ''p.json''), (''sha256'', demo_sum 4)]),
     (''runtime'', DObj [(''intra_op_threads'', DInt 1), (''inter_op_threads'', DInt 1)]),
     (''inputs'', DArr [DObj [(''name'', DStr ''x'')]]), (''outputs'', DArr [DObj [(''name'', DStr ''y'')]]),
     (''calibration'', DObj [(''status'', DStr ''calibrated''), (''confidence_kind'', DStr ''calibrated_probability'')])]"

definition demo_env :: model_env where
  "demo_env = \<lparr>me_read = map_of [([''deployment.json''], [0]), ([''dga'', ''v1'', ''metadata.json''], [1]), ([''dga'', ''v1'', ''model.onnx''], [2]),
       ([''dga'', ''v1'', ''f.json''], [3]), ([''dga'', ''v1'', ''p.json''], [4]), ([''dga'', ''v1'', ''golden.json''], [5])],
     me_loads = map_of [([0], DObj [(''models'', DObj [(''dga'', DObj [(''enabled'', DBool True), (''version'', DStr ''v1''),
          (''metadata_sha256'', demo_sum 1), (''model_sha256'', demo_sum 2)])])]),
       ([1], demo_meta), ([3], DObj [(''features'', DArr (map (\<lambda>n. DObj [(''name'', DStr n)]) FEATURE_NAMES))]),
       ([4], DObj [(''bigram_logprob'', demo_table)]), ([5], DObj [(''vectors'', DArr [demo_golden])])],
     me_session = (\<lambda>m i j. Some (\<lambda>n i v. Some (Fin (1 / 2)))), me_exc = (\<lambda>s. s), me_repr = (\<lambda>j. []), me_str = (\<lambda>j. [])\<rparr>"

lemma fsub_self: "x \<in> range Fin \<Longrightarrow> fsub x x = Fin 0"
  by auto

lemma check_vector_same:
  assumes "item g ''query'' = Some q" "extract_floats lookup q = Some (Inr (vec, sp))" "item g ''features'' = Some (DArr (map DFloat vec))"
    "vec \<noteq> []" "set vec \<subseteq> range Fin" "run vec = Some (Fin p)" "item g ''p'' = Some (DFloat (Fin p))"
  shows "check_vector lookup run g = Inr ()"
proof -
  have "map (\<lambda>(a, b). map_option (fsub a) (doc_num b)) (zip vec (map DFloat vec)) = map (\<lambda>a. Some (Fin 0)) vec"
    using assms(5) by (induction vec) (auto simp: fsub_self)
  moreover have "those (map (\<lambda>a. Some (Fin 0)) vec) = Some (map (\<lambda>a. Fin 0) vec)" by (rule those_map_Some) simp
  ultimately have d: "differences vec (map DFloat vec) = Some (map (\<lambda>a. Fin 0) vec)" by (simp add: differences_def)
  show ?thesis unfolding check_vector_Inr
    by (rule exI [of _ q], rule exI [of _ vec], rule exI [of _ sp], rule exI [of _ "map DFloat vec"], rule exI [of _ "map (\<lambda>a. Fin 0) vec"])
      (use assms d in \<open>auto simp: tolerated_def\<close>)
qed

lemma those_finite: "\<forall>x \<in> set xs. f x = None \<or> (\<exists>r. f x = Some (Fin r)) \<Longrightarrow>
    those (map f xs) = map_option (map Fin) (those (map (\<lambda>x. finite_part (f x)) xs))"
  by (induction xs) (auto simp: finite_part_def option.map_comp comp_def)

lemma foldl_fadd: "foldl fadd (Fin x) (map Fin ps) = Fin (x + sum_list ps)"
  by (induction ps arbitrary: x) simp_all

text \<open>With a table of finite numbers the golden vector is the vector of the detector.\<close>

lemma extract_floats_finite:
  assumes "\<And>ab x. lookup ab = Some x \<Longrightarrow> x \<in> range Fin"
  shows "extract_floats lookup q = map_option (map_sum id (apfst (map Fin))) (extract_at (\<lambda>ab. finite_part (lookup ab)) (text_arg q))"
proof -
  have t: "those (map lookup gs) = map_option (map Fin) (those (map (\<lambda>x. finite_part (lookup x)) gs))" for gs
    by (rule those_finite) (use assms in \<open>metis (no_types, lifting) not_None_eq rangeE\<close>)
  have l: "map Fin (label_features name sp x) = map Fin (butlast (label_features name sp 0)) @ [Fin x]" for name sp x
    by (simp add: label_features_def Let_def)
  show ?thesis
    by (auto simp: extract_floats_def extract_at_def t l foldl_fadd Let_def option.map_comp comp_def split: sum.splits)
qed

lemma demo_extract: "\<exists>vec sp. extract_floats (doc_lookup demo_table) (DStr ''kq3v9z.com'') = Some (Inr (vec, sp)) \<and> vec \<noteq> []
    \<and> set vec \<subseteq> range Fin"
proof -
  have "FLOAT_LIMIT > 1" by (simp add: FLOAT_LIMIT_def)
  then have f: "x \<in> range Fin" if "doc_lookup demo_table ab = Some x" for ab x
    using that by (auto simp: doc_lookup_def demo_table_def split: if_splits prod.splits)
  have "\<exists>vec sp. extract_at (\<lambda>ab. finite_part (doc_lookup demo_table ab)) (JStr ''kq3v9z.com'') = Some (Inr (vec, sp)) \<and> vec \<noteq> []"
    by (simp add: extract_at_def normalize_name_def rstrip_def strip_def is_space_def lower_def lower_char_def split_registrable_def
     NON_REGISTRABLE_def MULTI_PART_SUFFIXES_def DIGITS_def last_n_def Let_def MIN_SLD_LEN_def bigrams_def symbol_of_def doc_lookup_def
     demo_table_def SYMBOLS_def lead_byte_def py_len_def label_features_def nth_Cons' finite_part_def FLOAT_LIMIT_def)
  then show ?thesis using extract_floats_finite [of "doc_lookup demo_table", OF f] by (fastforce simp: text_arg_def)
qed

lemma demo_reads: "me_read demo_env [''deployment.json''] = Some [0]" "me_read demo_env [''dga'', ''v1'', ''metadata.json''] = Some [1]"
  "me_read demo_env [''dga'', ''v1'', ''model.onnx''] = Some [2]" "me_read demo_env [''dga'', ''v1'', ''f.json''] = Some [3]"
  "me_read demo_env [''dga'', ''v1'', ''p.json''] = Some [4]" "me_read demo_env [''dga'', ''v1'', ''golden.json''] = Some [5]"
  "me_loads demo_env [0] = Some (DObj [(''models'', DObj [(''dga'', DObj [(''enabled'', DBool True), (''version'', DStr ''v1''),
          (''metadata_sha256'', demo_sum 1), (''model_sha256'', demo_sum 2)])])])"
  "me_loads demo_env [1] = Some demo_meta" "me_loads demo_env [4] = Some (DObj [(''bigram_logprob'', demo_table)])"
  "me_loads demo_env [3] = Some (DObj [(''features'', DArr (map (\<lambda>n. DObj [(''name'', DStr n)]) FEATURE_NAMES))])"
  "me_loads demo_env [5] = Some (DObj [(''vectors'', DArr [demo_golden])])"
  "me_session demo_env m i j = Some (\<lambda>n i v. Some (Fin (1 / 2)))"
  by (simp_all add: demo_env_def)

lemma demo_loads: "dm_active (load demo_env (dga_new 20))"
proof -
  obtain vec sp where v: "extract_floats (doc_lookup demo_table) (DStr ''kq3v9z.com'') = Some (Inr (vec, sp))" "vec \<noteq> []" "set vec \<subseteq> range Fin"
    using demo_extract by blast
  have g: "check_vector (doc_lookup demo_table) (\<lambda>v. Some (Fin (1 / 2))) demo_golden = Inr ()"
    by (rule check_vector_same [where p = "1 / 2", OF _ v(1) _ v(2,3)]) (simp_all add: demo_golden_def item_def v(1))
  have s: "check_sum demo_env [''dga'', ''v1'', f] doc key err = Inr ()" if "me_read demo_env [''dga'', ''v1'', f] = Some [b]" "item doc key = Some (demo_sum b)" for f doc key err b
    using that by (simp add: check_sum_def sha256_file_def demo_sum_def)
  have names: "those (map (\<lambda>f. item f ''name'') (map (\<lambda>n. DObj [(''name'', DStr n)]) xs)) = Some (map DStr xs)" for xs
    by (induction xs) (simp_all add: item_def)
  have i: "item (DObj d) k = map_of d k" for d k by (simp add: item_def)
  have mi: "item demo_meta ''model_sha256'' = Some (demo_sum 2)"
     "item demo_meta ''feature_schema'' = Some (DObj [(''version'', DStr FEATURE_SCHEMA_VERSION), (''dimension'', DInt 46), (''file'', DStr ''f.json''), (''sha256'', demo_sum 3)])"
     "item demo_meta ''preprocessing'' = Some (DObj [(''file'', DStr ''p.json''), (''sha256'', demo_sum 4)])"
    by (simp_all add: demo_meta_def item_def)
  have m: "checked_meta demo_env ''v1'' (DObj [(''enabled'', DBool True), (''version'', DStr ''v1''),
          (''metadata_sha256'', demo_sum 1), (''model_sha256'', demo_sum 2)]) = Inr demo_meta"
    by (simp add: checked_meta_def in_bundle_def s [where b = 1] s [where b = 2] read_json_def demo_reads i mi)
  have c: "check_contract demo_env ''v1'' demo_meta = Inr ()"
    by (simp add: check_contract_def in_bundle_def s [where b = 3] read_json_def demo_reads i mi names [unfolded map_map])
  have t: "checked_table demo_env ''v1'' demo_meta = Inr demo_table"
    by (simp add: checked_table_def in_bundle_def s [where b = 4] read_json_def demo_reads i mi)
  have se: "selected demo_env = Inr (''v1'', DObj [(''enabled'', DBool True), (''version'', DStr ''v1''),
          (''metadata_sha256'', demo_sum 1), (''model_sha256'', demo_sum 2)])"
    by (simp add: selected_def read_json_def demo_env_def doc_get_def Let_def)
  have o: "opened_session demo_env ''v1'' demo_meta = Inr (\<lambda>n i v. Some (Fin (1 / 2)))"
    by (simp add: opened_session_def in_bundle_def demo_env_def item_def demo_meta_def)
  have e: "end_name demo_meta ''inputs'' = Inr (DStr ''x'')" "end_name demo_meta ''outputs'' = Inr (DStr ''y'')"
    by (simp_all add: end_name_def item_def demo_meta_def)
  have gd: "read_json demo_env (in_bundle ''v1'' ''golden.json'') = Some (DObj [(''vectors'', DArr [demo_golden])])"
    by (simp add: read_json_def demo_env_def in_bundle_def)
  have a: "\<exists>m'. adopt demo_meta m = (m', None)" for m by (simp add: adopt_def demo_meta_def item_def Let_def)
  have "\<exists>m'. load_body demo_env (dga_new 20) = (m', None)"
    using a by (simp add: load_body_def se m c t o warm_up_def e gd item_def g)
  then show ?thesis by (auto simp: load_def)
qed

theorem active_model_verified_witness:
  "dm_active (load demo_env (dga_new 20)) \<and> golden_passes (load demo_env (dga_new 20)) demo_golden"
proof -
  define m where "m = load demo_env (dga_new 20)"
  obtain v sel gdoc golden dep models where g: "read_json demo_env [''deployment.json''] = Some (DObj dep)" "map_of dep ''models'' = Some (DObj models)"
      "map_of models ''dga'' = Some sel" "item sel ''version'' = Some (DStr v)" "read_json demo_env (in_bundle v ''golden.json'') = Some gdoc"
      "Option.bind (item gdoc ''vectors'') iter_items = Some golden" "\<forall>g \<in> set golden. golden_passes m g"
    unfolding m_def using active_model_verified [OF demo_loads] by blast
  have "v = ''v1''" using g(1-4) by (auto simp: read_json_def demo_reads item_def)
  then have "demo_golden \<in> set golden" using g(5,6) by (auto simp: read_json_def demo_reads item_def in_bundle_def)
  then show ?thesis using g(7) demo_loads unfolding m_def by blast
qed


section \<open>A session that answers NaN\<close>

text \<open>The environment whose sessions answer NaN to every vector.\<close>

definition nan_sessions :: "model_env \<Rightarrow> model_env" where
  "nan_sessions env = env\<lparr>me_session := (\<lambda>model intra inter. map_option (\<lambda>s outn inn vec. Some NaN) (me_session env model intra inter))\<rparr>"

lemma nan_reads: "me_read (nan_sessions env) = me_read env" "me_loads (nan_sessions env) = me_loads env"
  by (simp_all add: nan_sessions_def)

lemma nan_same: "read_json (nan_sessions env) = read_json env" "check_sum (nan_sessions env) = check_sum env"
  "selected (nan_sessions env) = selected env" "checked_meta (nan_sessions env) = checked_meta env"
  "check_contract (nan_sessions env) = check_contract env" "checked_table (nan_sessions env) = checked_table env"
proof -
  show r: "read_json (nan_sessions env) = read_json env" by (intro ext) (simp add: read_json_def nan_reads)
  show c: "check_sum (nan_sessions env) = check_sum env" by (intro ext) (simp add: check_sum_def sha256_file_def nan_reads)
  show "selected (nan_sessions env) = selected env" by (simp add: selected_def r)
  show "checked_meta (nan_sessions env) = checked_meta env" by (intro ext) (simp add: checked_meta_def r c)
  show "check_contract (nan_sessions env) = check_contract env" by (intro ext) (simp add: check_contract_def r c)
  show "checked_table (nan_sessions env) = checked_table env" by (intro ext) (simp add: checked_table_def r c)
qed

lemma nan_session: "opened_session env v meta = Inr sess \<Longrightarrow> opened_session (nan_sessions env) v meta = Inr (\<lambda>outn inn vec. Some NaN)"
  by (auto simp: opened_session_def andthen_Inr nan_reads) (auto simp: nan_sessions_def)

lemma check_golden_nan: "check_golden lookup run gs = Inr () \<Longrightarrow> check_golden lookup (\<lambda>vec. Some NaN) gs = Inr ()"
  by (fastforce simp: check_golden_Inr check_vector_Inr tolerated_def)

lemma adopt_error: "snd (adopt meta m) = snd (adopt meta m')"
  by (simp add: adopt_def Let_def split: option.splits sum.splits)

text \<open>
  the comparison with the golden scores does not see NaN: a bundle that is activated would also be
  activated with a session that answers NaN to every vector.
\<close>

theorem nan_scores_activate:
  assumes "dm_active (load env (dga_new k))"
  shows "dm_active (load (nan_sessions env) (dga_new k))"
proof -
  define m where "m = dga_new k"
  obtain m' where "load_body env m = (m', None)"
    using assms by (auto simp: load_def m_def split: prod.splits option.splits)
  then obtain v sel meta table sess i n gs where s: "selected env = Inr (v, sel)" "checked_meta env v sel = Inr meta"
      "check_contract env v meta = Inr ()" "checked_table env v meta = Inr table" "opened_session env v meta = Inr sess"
      "end_name meta ''inputs'' = Inr i" "end_name meta ''outputs'' = Inr n"
      "Option.bind (Option.bind (read_json env (in_bundle v ''golden.json'')) (\<lambda>doc. item doc ''vectors'')) iter_items = Some gs"
      "check_golden (doc_lookup table) (sess n i) gs = Inr ()"
      "adopt meta (m\<lparr>dm_table := table, dm_session := Some sess, dm_in := i, dm_out := n\<rparr>) = (m', None)"
    by (rule load_body_None)
  have "snd (adopt meta x) = None" for x using arg_cong [OF s(10), of snd] adopt_error [of meta x] by (metis snd_conv)
  then have "snd (load_body (nan_sessions env) m) = None"
    using s(1-4,6-8) nan_session [OF s(5)] check_golden_nan [OF s(9)] by (simp add: load_body_def warm_up_def Let_def nan_same)
  then show ?thesis by (simp add: load_activates m_def)
qed

theorem nan_scores_activate_witness:
  "dm_active (load (nan_sessions demo_env) (dga_new 20)) \<and> me_session (nan_sessions demo_env) [2] (DInt 1) (DInt 1) = Some (\<lambda>outn inn vec. Some NaN)"
  using nan_scores_activate [OF demo_loads] by (simp add: nan_sessions_def demo_env_def)

section \<open>The error breaker\<close>

definition failed :: "string + real \<Rightarrow> bool" where
  "failed a = (case a of Inl _ \<Rightarrow> True | Inr _ \<Rightarrow> False)"

lemma score_calls_inactive: "\<not> dm_active m \<Longrightarrow> score_calls m as = m"
  by (induction as arbitrary: m) (simp_all add: score_call_def)

lemma score_calls_append: "score_calls m (xs @ ys) = score_calls (score_calls m xs) ys"
  by (induction xs arbitrary: m) simp_all

lemma warm_up_fields: "warm_up env v meta sess m = (m', r) \<Longrightarrow> dm_disable_after m' = dm_disable_after m
    \<and> dm_consecutive_errors m' = dm_consecutive_errors m"
  by (auto simp: warm_up_def Let_def split: sum.splits dest: adopt_fields)

lemma load_fields: "dm_disable_after (load env m) = dm_disable_after m" "dm_consecutive_errors (load env m) = dm_consecutive_errors m"
proof -
  obtain m' r where b: "load_body env m = (m', r)" by fastforce
  then have "dm_disable_after m' = dm_disable_after m \<and> dm_consecutive_errors m' = dm_consecutive_errors m"
    by (auto simp: load_body_def Let_def split: sum.splits dest!: warm_up_fields)
  then show "dm_disable_after (load env m) = dm_disable_after m" "dm_consecutive_errors (load env m) = dm_consecutive_errors m"
    by (auto simp: load_def b split: option.splits)
qed

lemma sublist_replicate_Cons:
  assumes "c < n"
  shows "sublist (replicate n True) (replicate c True @ False # xs) \<longleftrightarrow> sublist (replicate n True) xs"
proof
  assume "sublist (replicate n True) (replicate c True @ False # xs)"
  then show "sublist (replicate n True) xs" using assms
  proof (induction c)
    case 0
    then show ?case by (cases n) (auto simp: sublist_Cons_right prefix_def)
  next
    case (Suc c)
    have "\<not> prefix (replicate n True) (replicate (Suc c) True @ False # xs)"
    proof
      assume "prefix (replicate n True) (replicate (Suc c) True @ False # xs)"
      then have "(replicate (Suc c) True @ False # xs) ! Suc c = replicate n True ! Suc c"
        using Suc.prems(2) by (metis (no_types, lifting) prefix_def nth_append length_replicate)
      then show False using Suc.prems(2) by (simp add: nth_append del: replicate_Suc)
    qed
    then show ?case using Suc by (auto simp: sublist_Cons_right)
  qed
next
  assume "sublist (replicate n True) xs"
  then obtain ps ss where "xs = ps @ replicate n True @ ss" unfolding sublist_def by blast
  then have "replicate c True @ False # xs = (replicate c True @ False # ps) @ replicate n True @ ss" by simp
  then show "sublist (replicate n True) (replicate c True @ False # xs)" unfolding sublist_def by blast
qed

lemma score_calls_breaker:
  assumes "dm_active m" "dm_disable_after m = int n" "dm_consecutive_errors m = int c" "c < n"
  shows "dm_active (score_calls m as) \<longleftrightarrow> \<not> sublist (replicate n True) (replicate c True @ map failed as)"
  using assms
proof (induction as arbitrary: m c)
  case Nil
  then have "\<not> sublist (replicate n True) (replicate c True)" by (metis length_replicate sublist_length_le not_less)
  then show ?case using Nil by simp
next
  case (Cons a as)
  show ?case
  proof (cases a)
    case (Inr p)
    have "dm_active (score_calls (snd (score_call m a)) as) \<longleftrightarrow> \<not> sublist (replicate n True) (replicate 0 True @ map failed as)"
      by (rule Cons.IH) (use Cons.prems Inr in \<open>auto simp: score_call_def\<close>)
    moreover have "failed a = False" using Inr by (simp add: failed_def)
    ultimately show ?thesis using sublist_replicate_Cons [OF Cons.prems(4)] by simp
  next
    case (Inl e)
    have r: "replicate c True @ map failed (a # as) = replicate (Suc c) True @ map failed as"
      using Inl by (simp add: failed_def replicate_app_Cons_same)
    show ?thesis
    proof (cases "Suc c = n")
      case True
      then have "\<not> dm_active (snd (score_call m a))" using Cons.prems Inl by (simp add: score_call_def Let_def)
      then have "\<not> dm_active (score_calls m (a # as))" by (simp add: score_calls_inactive)
      then show ?thesis unfolding r using True by simp
    next
      case False
      have "dm_active (score_calls (snd (score_call m a)) as) \<longleftrightarrow> \<not> sublist (replicate n True) (replicate (Suc c) True @ map failed as)"
        by (rule Cons.IH) (use Cons.prems Inl False in \<open>auto simp: score_call_def Let_def\<close>)
      then show ?thesis unfolding r by simp
    qed
  qed
qed

text \<open>
  C15: The error breaker is exact: a freshly loaded model is still active after any sequence of inferences
  unless the configured number of failures occurred in a row, successes starting the count anew; and once
  off it never scores again.
\<close>

theorem breaker_exact:
  assumes "dm_active (load env (dga_new (int n)))" and "0 < n"
  shows "(dm_active (score_calls (load env (dga_new (int n))) as) \<longleftrightarrow> \<not> sublist (replicate n True) (map failed as))
    \<and> (\<forall>k a. \<not> dm_active (score_calls (load env (dga_new (int n))) (take k as)) \<longrightarrow>
         fst (score_call (score_calls (load env (dga_new (int n))) as) a) = None)"
proof -
  define m where "m = load env (dga_new (int n))"
  have m: "dm_disable_after m = int n" "dm_consecutive_errors m = 0"
    using load_fields [of env "dga_new (int n)"] by (simp_all add: m_def dga_new_def)
  have "dm_active (score_calls m as) \<longleftrightarrow> \<not> sublist (replicate n True) (replicate 0 True @ map failed as)"
    by (rule score_calls_breaker) (use assms m in \<open>simp_all add: m_def\<close>)
  moreover have "fst (score_call (score_calls m as) a) = None" if "\<not> dm_active (score_calls m (take k as))" for k a
  proof -
    have "score_calls m as = score_calls (score_calls m (take k as)) (drop k as)"
      by (simp add: score_calls_append [symmetric])
    then show ?thesis using that by (simp add: score_calls_inactive score_call_def)
  qed
  ultimately show ?thesis unfolding m_def [symmetric] by simp
qed

theorem breaker_exact_witness:
  "dm_active (score_calls (load demo_env (dga_new (int 20))) [Inl [], Inr 0, Inl []])"
proof -
  have "dm_active (load demo_env (dga_new (int 20)))" using demo_loads by simp
  from breaker_exact [OF this, of "[Inl [], Inr 0, Inl []]"] show ?thesis
    by (auto dest!: sublist_length_le)
qed

end
