(* ===== verification/Dns.thy ===== *)
theory Dns
  imports DgaModel Alerts Config Harness Events
begin

text \<open>
  DNS detection (\<^verbatim>\<open>flink/sih_detect/dns.py\<close>): the scoring of one query, the window of a source and
  registrable domain with its distinct labels, and the NXDOMAIN burst of a source. The runtime's answer to
  the inference of one query is an argument of \<open>observe\<close>; a result \<open>None\<close> is an exception. The theorems show
  that the counters of a window are those of the names stored, that findings rest on them, and how a window
  is lost.
\<close>

section \<open>One query\<close>

record dns_obs = ev_min +
  o_src :: string
  o_query :: "string option"
  o_registrable :: "string option"
  o_sub :: "string option"
  o_vec :: "real list option"
  o_p :: "real option"
  o_lex :: "bool option"
  o_eligible :: bool
  o_reason :: "string option"
  o_nx :: bool
  o_qtype :: "string option"
  o_event_id :: string
  o_coverage :: string
  o_model_version :: "string option"
  o_contrib :: "(string \<times> real \<times> real) list option"

definition blank_obs :: "event \<Rightarrow> string \<Rightarrow> dns_obs" where
  "blank_obs ev src = \<lparr>obs_ms = obs_ms ev, event_time_us = event_time_us ev, offset_us = offset_us ev, received_us = received_us ev,
     sensor_id = sensor_id ev, run = run ev, o_src = src, o_query = jstr (payload ev) ''query'', o_registrable = None, o_sub = None,
     o_vec = None, o_p = None, o_lex = None, o_eligible = False, o_reason = None,
     o_nx = (dget (payload ev) ''rcode_name'' = JStr ''NXDOMAIN''), o_qtype = jstr (payload ev) ''qtype_name'',
     o_event_id = ev_id ev, o_coverage = coverage ev, o_model_version = None, o_contrib = None\<rparr>"

text \<open>The registrable domain and the labels in front of it, or why there is none.\<close>

definition named :: "dns_obs \<Rightarrow> split_name \<Rightarrow> dns_obs" where
  "named obs sp = obs\<lparr>o_registrable := Some (registrable sp),
     o_sub := (if sub_labels sp = [] then None else Some (join_with (CHR ''.'') (sub_labels sp)))\<rparr>"

text \<open>The score of a vector: with an active model its answer, otherwise the reason.\<close>

definition scored :: "dga_model \<Rightarrow> string + real \<Rightarrow> real list \<Rightarrow> dns_obs \<Rightarrow> (dns_obs \<times> dga_model) option" where
  "scored m answer vec obs =
     (if \<not> dm_active m then Some (obs\<lparr>o_reason := Some ''model_unavailable''\<rparr>, m)
      else (case score_call m answer of
        (None, m1) \<Rightarrow> Some (obs\<lparr>o_reason := Some ''model_error''\<rparr>, m1)
      | (Some p, m1) \<Rightarrow>
          (let obs1 = obs\<lparr>o_p := Some p, o_eligible := True, o_model_version := doc_str (dm_version m1)\<rparr> in
           if fgeq (Fin p) (dm_threshold m1) then map_option (\<lambda>c. (obs1\<lparr>o_contrib := Some c\<rparr>, m1)) (contributions m1 vec)
           else Some (obs1, m1))))"

definition fallback_table :: "real list list" where
  "fallback_table = fit_bigram_table []"

definition table_lookup :: "dga_model \<Rightarrow> nat \<times> nat \<Rightarrow> real option" where
  "table_lookup m = (if dm_active m then json_lookup (dm_table m) else logprob_at fallback_table)"

definition observe_name :: "inventory \<Rightarrow> dga_model \<Rightarrow> string + real \<Rightarrow> string \<Rightarrow> dns_obs \<Rightarrow> (dns_obs \<times> dga_model) option" where
  "observe_name inven m answer q obs =
     (let ip = is_ip (rstrip (\<lambda>c. c = CHR ''.'') q) in
      if domain_allowlisted inven (Some q) \<or> ip
      then Some (obs\<lparr>o_reason := Some (if \<not> ip then ''allowlisted'' else ''not_registrable'')\<rparr>, m)
      else (case normalize_name (JStr q) of Inl e \<Rightarrow> Some (obs\<lparr>o_reason := Some e\<rparr>, m)
      | Inr name \<Rightarrow> (case split_registrable name of Inl e \<Rightarrow> Some (obs\<lparr>o_reason := Some e\<rparr>, m)
      | Inr sp \<Rightarrow> (case extract_at (table_lookup m) (JStr q) of None \<Rightarrow> None
          | Some (Inl e) \<Rightarrow> Some ((named obs sp)\<lparr>o_reason := Some e\<rparr>, m)
          | Some (Inr (vec, info)) \<Rightarrow> scored m answer vec ((named obs sp)\<lparr>o_vec := Some vec, o_lex := Some (lexical_rule vec)\<rparr>)))))"

definition observe :: "inventory \<Rightarrow> dga_model \<Rightarrow> string + real \<Rightarrow> event \<Rightarrow> (dns_obs \<times> dga_model) option" where
  "observe inven m answer ev =
     (case jstr (payload ev) ''src_ip'' of None \<Rightarrow> None
      | Some src \<Rightarrow> (case dget (payload ev) ''query'' of
          JNull \<Rightarrow> Some ((blank_obs ev src)\<lparr>o_reason := Some ''query_unavailable''\<rparr>, m)
        | JStr q \<Rightarrow> observe_name inven m answer q (blank_obs ev src)
        | _ \<Rightarrow> None))"

section \<open>Windows of a source and domain\<close>

definition VERSION_DGA :: string where "VERSION_DGA = ''dga-1.0.0''"
definition VERSION_TUNNEL :: string where "VERSION_TUNNEL = ''dns_tunnel-1.0.0''"
definition VERSION_BURST :: string where "VERSION_BURST = ''dga_burst-1.0.0''"
definition FSV_DNS :: string where "FSV_DNS = ''dns_features-1.0.0''"
definition TUNNEL_QTYPES :: "string list" where "TUNNEL_QTYPES = [''TXT'', ''NULL'', ''CNAME'', ''MX'', ''AAAA'']"

text \<open>What the job knows of the selected model; all absent when it could not be read.\<close>

record model_info =
  mi_threshold :: "real option"
  mi_calibration :: "string option"
  mi_confidence :: "string option"

record dns_m =
  d_win :: int
  d_n :: int
  d_uniq :: int
  d_capped :: bool
  d_len_sum :: int
  d_ent_sum :: real
  d_name_bytes :: int
  d_tunnel_qtypes :: int
  d_nx :: int
  d_first :: ev_min
  d_last :: ev_min
  d_ids :: "string list"
  d_rank_t :: int
  d_rank_d :: int
  d_last_feature :: "int option"

record dns_state =
  dn_m :: "dns_m option"
  dn_labels :: "string list"

definition dns_empty :: dns_state where
  "dns_empty = \<lparr>dn_m = None, dn_labels = []\<rparr>"

definition dns_new :: "int \<Rightarrow> dns_obs \<Rightarrow> dns_m" where
  "dns_new win o' = \<lparr>d_win = win, d_n = 0, d_uniq = 0, d_capped = False, d_len_sum = 0, d_ent_sum = 0, d_name_bytes = 0,
     d_tunnel_qtypes = 0, d_nx = 0, d_first = ev_min o', d_last = ev_min o', d_ids = [], d_rank_t = - 1, d_rank_d = - 1,
     d_last_feature = None\<rparr>"

text \<open>The window the record belongs to: the stored one, or a fresh one without labels.\<close>

definition dns_current :: "int \<Rightarrow> dns_obs \<Rightarrow> dns_state \<Rightarrow> dns_m \<times> string list" where
  "dns_current win o' s = (case dn_m s of None \<Rightarrow> (dns_new win o', [])
     | Some m \<Rightarrow> if d_win m \<noteq> win then (dns_new win o', []) else (m, dn_labels s))"

definition label_entropy :: "string \<Rightarrow> real" where
  "label_entropy sub = entropy (filter (\<lambda>c. c \<noteq> CHR ''.'') sub)"

definition enter_label :: "detect_config \<Rightarrow> string option \<Rightarrow> dns_m \<times> string list \<Rightarrow> dns_m \<times> string list" where
  "enter_label cfg sub ml = (case (sub, ml) of
     (None, _) \<Rightarrow> ml
   | (Some l, (m, labels)) \<Rightarrow>
       if l = [] then (m, labels)
       else if l \<in> set labels then (m, labels)
       else if d_uniq m \<ge> dns_label_cap cfg then (m\<lparr>d_capped := True\<rparr>, labels)
       else (m\<lparr>d_uniq := d_uniq m + 1, d_len_sum := d_len_sum m + int (py_len l), d_ent_sum := d_ent_sum m + label_entropy l\<rparr>,
             labels @ [l]))"

definition enter_query :: "detect_config \<Rightarrow> int \<Rightarrow> dns_obs \<Rightarrow> dns_state \<Rightarrow> dns_m \<times> string list" where
  "enter_query cfg win o' s =
     (let (m0, l0) = dns_current win o' s;
          m1 = m0\<lparr>d_n := d_n m0 + 1, d_name_bytes := d_name_bytes m0 + int (py_len (case o_query o' of None \<Rightarrow> [] | Some q \<Rightarrow> q)),
                 d_nx := d_nx m0 + (if o_nx o' then 1 else 0),
                 d_tunnel_qtypes := d_tunnel_qtypes m0 + (if (\<exists>t \<in> set TUNNEL_QTYPES. o_qtype o' = Some t) then 1 else 0)\<rparr>;
          (m2, l2) = enter_label cfg (o_sub o') (m1, l0)
      in (m2\<lparr>d_ids := append_ids (d_ids m2) (o_event_id o'), d_last := ev_min o'\<rparr>, l2))"

definition mean_len :: "dns_m \<Rightarrow> real option" where
  "mean_len m = (if d_uniq m = 0 then None else Some (of_int (d_len_sum m) / of_int (d_uniq m)))"

definition mean_ent :: "dns_m \<Rightarrow> real option" where
  "mean_ent m = (if d_uniq m = 0 then None else Some (d_ent_sum m / of_int (d_uniq m)))"

definition text_opt :: "string option \<Rightarrow> string" where
  "text_opt v = (case v of None \<Rightarrow> ''None'' | Some s \<Rightarrow> s)"

section \<open>Tunnelling\<close>

text \<open>The condition; \<open>None\<close> compares an absent mean (a threshold of no labels).\<close>

definition tunnel_like :: "detect_config \<Rightarrow> dns_m \<Rightarrow> bool option" where
  "tunnel_like cfg m =
     (if d_uniq m < tunnel_min_unique_labels cfg then Some False
      else (case (mean_len m, mean_ent m) of
        (Some l, Some e) \<Rightarrow> Some (l \<ge> tunnel_min_mean_label_len cfg \<and> e \<ge> tunnel_min_mean_entropy cfg)
      | _ \<Rightarrow> None))"

definition tunnel_severity :: "detect_config \<Rightarrow> dns_m \<Rightarrow> string" where
  "tunnel_severity cfg m = (if d_uniq m \<ge> 5 * tunnel_min_unique_labels cfg \<or> d_name_bytes m \<ge> 20000 then ''high'' else ''medium'')"

definition dns_caps :: "dns_m \<Rightarrow> string list" where
  "dns_caps m = (if d_capped m then [''unique_subdomains''] else [])"

definition tunnel_finding :: "detect_config \<Rightarrow> string \<Rightarrow> dns_obs \<Rightarrow> dns_m \<Rightarrow> finding" where
  "tunnel_finding cfg key o' m =
     (let ml = the (mean_len m); me = the (mean_ent m); src = o_src o'
      in finding (no_args\<lparr>
        a_detector := ''dns'', a_threat_class := ''dns_tunnel'', a_subtype := ''dns_tunnel_like'', a_entity_type := ''src_domain'',
        a_entity_key := key, a_severity := tunnel_severity cfg m,
        a_score := Some (min 1 (4 / 10 + 3 / 10 * min 1 (of_int (d_uniq m) / of_int (4 * tunnel_min_unique_labels cfg)) + 3 / 10 * min 1 (me / (45 / 10)))),
        a_method := ''rule'', a_detector_version := VERSION_TUNNEL, a_feature_schema_version := FSV_DNS, a_first := d_first m,
        a_last := d_last m, a_window_start_ms := d_win m * dns_window_ms cfg, a_window_end_ms := obs_ms o',
        a_observed := [(''queries'', JInt (d_n m)), (''unique_subdomains'', JInt (d_uniq m)), (''mean_subdomain_len'', JReal ml),
           (''mean_subdomain_entropy'', JReal me), (''query_name_bytes'', JInt (d_name_bytes m)),
           (''tunnel_qtype_queries'', JInt (d_tunnel_qtypes m)), (''registrable_domain'', of_opt_str (o_registrable o'))],
        a_thresholds := [(''min_unique_subdomains'', JInt (tunnel_min_unique_labels cfg)), (''min_mean_len'', JReal (tunnel_min_mean_label_len cfg)),
           (''min_mean_entropy'', JReal (tunnel_min_mean_entropy cfg)), (''window_s'', JReal (of_int (dns_window_ms cfg) / 1000))],
        a_capped := dns_caps m, a_coverage := o_coverage o', a_src_ip := Some src, a_protocol := Some ''udp'', a_raw_event_ids := d_ids m,
        a_evidence_count := d_n m,
        a_top_features := [(''unique_subdomains'', JInt (d_uniq m), JNull, JStr ''count''), (''mean_subdomain_len'', JReal ml, JNull, JStr ''chars''),
           (''mean_subdomain_entropy'', JReal me, JNull, JStr ''bits/char'')],
        a_explanation := src @ '' sent '' @ str_of_int (d_n m) @ '' queries under '' @ text_opt (o_registrable o') @ '' with ''
          @ str_of_int (d_uniq m) @ '' distinct subdomain strings (mean length '' @ fmt_fixed 1 ml @ '', mean entropy '' @ fmt_fixed 2 me
          @ '' bits/char) within the current '' @ str_of_int (dns_window_ms cfg div 1000)
          @ ''s window. High-entropy unique labels are consistent with data encoded in DNS names.''\<rparr>))"

text \<open>\<open>None\<close>: an absent mean is compared, or the score divides by a threshold of zero.\<close>

definition tunnel_report :: "detect_config \<Rightarrow> string \<Rightarrow> dns_obs \<Rightarrow> dns_m \<Rightarrow> (dns_m \<times> finding list) option" where
  "tunnel_report cfg key o' m =
     (case tunnel_like cfg m of None \<Rightarrow> None
      | Some False \<Rightarrow> Some (m, [])
      | Some True \<Rightarrow>
          (let rank = SEVERITY_RANK (tunnel_severity cfg m) in
           if rank \<le> d_rank_t m then Some (m, [])
           else if tunnel_min_unique_labels cfg = 0 then None
           else Some (m\<lparr>d_rank_t := rank\<rparr>, [tunnel_finding cfg key o' m])))"

section \<open>A name scored as generated\<close>

definition mi_limit :: "model_info \<Rightarrow> real" where
  "mi_limit info = (case mi_threshold info of None \<Rightarrow> 11 / 10 | Some t \<Rightarrow> t)"

definition mi_status :: "model_info \<Rightarrow> string" where
  "mi_status info = (case mi_calibration info of None \<Rightarrow> ''uncalibrated'' | Some s \<Rightarrow> s)"

definition dga_severity :: "dns_obs \<Rightarrow> string" where
  "dga_severity o' = (if o_nx o' then ''medium'' else ''low'')"

definition dga_finding :: "detect_config \<Rightarrow> model_info \<Rightarrow> string \<Rightarrow> dns_obs \<Rightarrow> dns_m \<Rightarrow> real \<Rightarrow> finding" where
  "dga_finding cfg info key o' m p =
     finding (no_args\<lparr>
       a_detector := ''dns'', a_threat_class := ''dga'', a_subtype := ''dga_domain'', a_entity_type := ''src_domain'', a_entity_key := key,
       a_severity := dga_severity o', a_score := Some p, a_method := ''model'', a_model_version := o_model_version o',
       a_calibration_status := Some (mi_status info),
       a_confidence_kind := Some (case mi_confidence info of None \<Rightarrow> ''heuristic_score'' | Some s \<Rightarrow> s),
       a_model_eligible := True, a_detector_version := VERSION_DGA, a_feature_schema_version := FEATURE_SCHEMA_VERSION,
       a_first := d_first m, a_last := d_last m, a_window_start_ms := d_win m * dns_window_ms cfg, a_window_end_ms := obs_ms o',
       a_observed := [(''query'', JStr (py_take 255 (case o_query o' of None \<Rightarrow> [] | Some q \<Rightarrow> q))),
          (''registrable_domain'', of_opt_str (o_registrable o')), (''nxdomain'', JBool (o_nx o')), (''model_score'', JReal p)],
       a_thresholds := [(''decision_threshold'', of_opt_real (mi_threshold info))], a_coverage := o_coverage o',
       a_src_ip := Some (o_src o'), a_protocol := Some ''udp'', a_raw_event_ids := [o_event_id o'], a_evidence_count := 1,
       a_top_features := map (\<lambda>(n, x, c). (n, JReal x, JReal c, JNull)) (case o_contrib o' of None \<Rightarrow> [] | Some c \<Rightarrow> c),
       a_explanation := ''Model '' @ text_opt (o_model_version o') @ '' scored the name '' @ text_opt (o_registrable o') @ '' at '' @ fmt_fixed 3 p
         @ '' (threshold '' @ (case mi_threshold info of None \<Rightarrow> ''None'' | Some t \<Rightarrow> fmt_float t) @ ''); the score is '' @ mi_status info
         @ '', not a verified probability.'' @ (if o_nx o' then '' The resolver answered NXDOMAIN.'' else [])\<rparr>)"

definition dga_report :: "detect_config \<Rightarrow> model_info \<Rightarrow> string \<Rightarrow> dns_obs \<Rightarrow> dns_m \<Rightarrow> dns_m \<times> finding list" where
  "dga_report cfg info key o' m =
     (case o_p o' of None \<Rightarrow> (m, [])
      | Some p \<Rightarrow>
        if p \<ge> mi_limit info
        then (let rank = SEVERITY_RANK (dga_severity o') in
              if rank > d_rank_d m then (m\<lparr>d_rank_d := rank\<rparr>, [dga_finding cfg info key o' m p]) else (m, []))
        else (m, []))"

definition dns_feature :: "detect_config \<Rightarrow> int \<Rightarrow> string \<Rightarrow> dns_obs \<Rightarrow> dns_m \<Rightarrow> dict option" where
  "dns_feature cfg now_us key o' m =
     feature_record now_us ''dns'' FSV_DNS ''src_domain'' key (sensor_id o') (d_win m * dns_window_ms cfg) (obs_ms o')
       [(''queries'', JInt (d_n m)), (''unique_subdomains'', JInt (d_uniq m)), (''mean_subdomain_len'', of_opt_real (mean_len m)),
        (''mean_subdomain_entropy'', of_opt_real (mean_ent m)), (''query_name_bytes'', JInt (d_name_bytes m)),
        (''nxdomain_queries'', JInt (d_nx m)), (''dga_score'', of_opt_real (o_p o'))]
       [(''mean_subdomain_len'', ''NOT_APPLICABLE''), (''mean_subdomain_entropy'', ''NOT_APPLICABLE''),
        (''dga_score'', if o_reason o' \<in> {None, Some ''model_error'', Some ''model_unavailable''} then ''UNKNOWN'' else ''NOT_APPLICABLE'')]
       (dns_caps m)"

section \<open>The handlers of a source and domain\<close>

definition feature_due :: "detect_config \<Rightarrow> dns_obs \<Rightarrow> dns_m \<Rightarrow> bool" where
  "feature_due cfg o' m \<longleftrightarrow> d_uniq m \<ge> tunnel_min_unique_labels cfg div 2 \<or> (case o_p o' of None \<Rightarrow> 0 | Some p \<Rightarrow> p) \<ge> 1 / 2"

definition dns_on_event ::
  "detect_config \<Rightarrow> model_info \<Rightarrow> int \<Rightarrow> string \<Rightarrow> dns_state \<Rightarrow> dns_obs \<Rightarrow> (dns_state, finding) step option" where
  "dns_on_event cfg info now_us key s o' =
     (if dns_window_ms cfg = 0 then None
      else
        let win = obs_ms o' div dns_window_ms cfg; (m, labels) = enter_query cfg win o' s
        in (case tunnel_report cfg key o' m of None \<Rightarrow> None
            | Some (m1, fs1) \<Rightarrow>
                (let (m2, fs2) = dga_report cfg info key o' m1;
                     (due, lf) = (if feature_due cfg o' m2 then rate_limited (d_last_feature m2) (obs_ms o') (feature_min_interval_ms cfg)
                                  else (False, d_last_feature m2));
                     m3 = m2\<lparr>d_last_feature := lf\<rparr>
                 in map_option (\<lambda>es. \<lparr>new_state = \<lparr>dn_m = Some m3, dn_labels = labels\<rparr>, emitted = map Out (fs1 @ fs2) @ es,
                        timers = [bucket_up ((win + 1) * dns_window_ms cfg) (dns_window_ms cfg)], metrics = []\<rparr>)
                      (emit_feature due (dns_feature cfg now_us key o' m3)))))"

definition dns_on_timer :: "detect_config \<Rightarrow> string \<Rightarrow> dns_state \<Rightarrow> int \<Rightarrow> (dns_state, finding) step option" where
  "dns_on_timer cfg key s ts =
     (case dn_m s of
        Some m \<Rightarrow> if (d_win m + 1) * dns_window_ms cfg < ts
          then Some \<lparr>new_state = dns_empty, emitted = [], timers = [], metrics = []\<rparr>
          else Some \<lparr>new_state = s, emitted = [], timers = [], metrics = []\<rparr>
      | None \<Rightarrow> Some \<lparr>new_state = s, emitted = [], timers = [], metrics = []\<rparr>)"

section \<open>NXDOMAIN bursts of a source\<close>

record burst_m =
  b_win :: int
  b_nx :: int
  b_dga_like :: int
  b_capped :: bool
  b_first :: ev_min
  b_last :: ev_min
  b_ids :: "string list"
  b_rank :: int
  b_model_version :: "string option"
  b_scored :: int
  b_rule_only :: int

record burst_state =
  bu_m :: "burst_m option"
  bu_domains :: "(string \<times> int) list"

definition burst_empty :: burst_state where
  "burst_empty = \<lparr>bu_m = None, bu_domains = []\<rparr>"

definition burst_new :: "int \<Rightarrow> dns_obs \<Rightarrow> burst_m" where
  "burst_new win o' = \<lparr>b_win = win, b_nx = 0, b_dga_like = 0, b_capped = False, b_first = ev_min o', b_last = ev_min o', b_ids = [],
     b_rank = - 1, b_model_version = None, b_scored = 0, b_rule_only = 0\<rparr>"

definition burst_current :: "int \<Rightarrow> dns_obs \<Rightarrow> burst_state \<Rightarrow> burst_m \<times> (string \<times> int) list" where
  "burst_current win o' s = (case bu_m s of None \<Rightarrow> (burst_new win o', [])
     | Some m \<Rightarrow> if b_win m \<noteq> win then (burst_new win o', []) else (m, bu_domains s))"

text \<open>A new domain is judged by the model's score, or by the lexical rule when there is none.\<close>

definition judge :: "dns_obs \<Rightarrow> burst_m \<Rightarrow> bool \<times> burst_m" where
  "judge o' m = (case o_p o' of
     Some p \<Rightarrow> (p \<ge> 1 / 2, m\<lparr>b_scored := b_scored m + 1, b_model_version := o_model_version o'\<rparr>)
   | None \<Rightarrow> (o_lex o' = Some True, m\<lparr>b_rule_only := b_rule_only m + 1\<rparr>))"

definition enter_domain :: "detect_config \<Rightarrow> string \<Rightarrow> dns_obs \<Rightarrow> burst_m \<times> (string \<times> int) list \<Rightarrow> burst_m \<times> (string \<times> int) list" where
  "enter_domain cfg dmn o' mb = (case mb of (m, doms) \<Rightarrow>
     if dmn \<in> fst ` set doms then (m, doms)
     else if b_nx m \<ge> dga_burst_domain_cap cfg then (m\<lparr>b_capped := True\<rparr>, doms)
     else (let (like, m1) = judge o' m; k = (if like then 1 else 0)
           in (m1\<lparr>b_nx := b_nx m1 + 1, b_dga_like := b_dga_like m1 + k, b_ids := append_ids (b_ids m1) (o_event_id o')\<rparr>,
               od_set dmn k doms)))"

definition burst_finding :: "detect_config \<Rightarrow> string \<Rightarrow> dns_obs \<Rightarrow> burst_m \<Rightarrow> finding" where
  "burst_finding cfg src o' m =
     (let hybrid = (b_model_version m \<noteq> None)
      in finding (no_args\<lparr>
        a_detector := ''dns'', a_threat_class := ''dga'', a_subtype := ''dga_nxdomain_burst'', a_entity_type := ''src_host'', a_entity_key := src,
        a_severity := ''high'', a_score := Some (of_int (b_dga_like m) / of_int (max 1 (b_nx m))),
        a_method := (if hybrid then ''hybrid'' else ''rule''), a_model_version := (if hybrid then b_model_version m else None),
        a_model_eligible := hybrid, a_model_reason := (if hybrid then None else Some ''model_unavailable''),
        a_detector_version := VERSION_BURST, a_feature_schema_version := FSV_DNS, a_first := b_first m, a_last := b_last m,
        a_window_start_ms := b_win m * dns_window_ms cfg, a_window_end_ms := obs_ms o',
        a_observed := [(''nxdomain_domains'', JInt (b_nx m)), (''dga_like_domains'', JInt (b_dga_like m)), (''model_scored'', JInt (b_scored m)),
           (''rule_scored'', JInt (b_rule_only m))],
        a_thresholds := [(''min_nxdomain_domains'', JInt (dga_burst_min_nx_domains cfg)), (''min_dga_like'', JInt (dga_burst_min_dga_like cfg)),
           (''window_s'', JReal (of_int (dns_window_ms cfg) / 1000))],
        a_capped := (if b_capped m then [''nxdomain_domains''] else []), a_coverage := o_coverage o', a_src_ip := Some src,
        a_protocol := Some ''udp'', a_raw_event_ids := b_ids m, a_evidence_count := b_nx m,
        a_top_features := [(''nxdomain_domains'', JInt (b_nx m), JNull, JStr ''count''), (''dga_like_domains'', JInt (b_dga_like m), JNull, JStr ''count'')],
        a_explanation := src @ '' received NXDOMAIN for '' @ str_of_int (b_nx m) @ '' distinct registrable domains in ''
          @ str_of_int (dns_window_ms cfg div 1000) @ ''s; '' @ str_of_int (b_dga_like m) @ '' look algorithmically generated (''
          @ (if hybrid then ''model'' else ''lexical rule, model unavailable'') @ '').''\<rparr>))"

definition burst_report :: "detect_config \<Rightarrow> string \<Rightarrow> dns_obs \<Rightarrow> burst_m \<Rightarrow> burst_m \<times> finding list" where
  "burst_report cfg src o' m =
     (if b_nx m \<ge> dga_burst_min_nx_domains cfg \<and> b_dga_like m \<ge> dga_burst_min_dga_like cfg \<and> SEVERITY_RANK ''high'' > b_rank m
      then (m\<lparr>b_rank := SEVERITY_RANK ''high''\<rparr>, [burst_finding cfg src o' m]) else (m, []))"

definition burst_on_event ::
  "detect_config \<Rightarrow> int \<Rightarrow> string \<Rightarrow> burst_state \<Rightarrow> dns_obs \<Rightarrow> (burst_state, finding) step option" where
  "burst_on_event cfg now_us src s o' =
     (case o_registrable o' of
        Some dmn \<Rightarrow>
          if \<not> o_nx o' \<or> dmn = [] then Some \<lparr>new_state = s, emitted = [], timers = [], metrics = []\<rparr>
          else if dns_window_ms cfg = 0 then None
          else (let win = obs_ms o' div dns_window_ms cfg;
                    (m1, doms) = enter_domain cfg dmn o' (burst_current win o' s);
                    (m2, fs) = burst_report cfg src o' (m1\<lparr>b_last := ev_min o'\<rparr>)
                in Some \<lparr>new_state = \<lparr>bu_m = Some m2, bu_domains = doms\<rparr>, emitted = map Out fs,
                     timers = [bucket_up ((win + 1) * dns_window_ms cfg) (dns_window_ms cfg)], metrics = []\<rparr>)
      | None \<Rightarrow> Some \<lparr>new_state = s, emitted = [], timers = [], metrics = []\<rparr>)"

definition burst_on_timer :: "detect_config \<Rightarrow> string \<Rightarrow> burst_state \<Rightarrow> int \<Rightarrow> (burst_state, finding) step option" where
  "burst_on_timer cfg src s ts =
     (case bu_m s of
        Some m \<Rightarrow> if (b_win m + 1) * dns_window_ms cfg < ts
          then Some \<lparr>new_state = burst_empty, emitted = [], timers = [], metrics = []\<rparr>
          else Some \<lparr>new_state = s, emitted = [], timers = [], metrics = []\<rparr>
      | None \<Rightarrow> Some \<lparr>new_state = s, emitted = [], timers = [], metrics = []\<rparr>)"

section \<open>The counters are those of the stored names\<close>

definition len_total :: "string list \<Rightarrow> int" where
  "len_total ls = (\<Sum>l\<leftarrow>ls. int (py_len l))"

definition ent_total :: "string list \<Rightarrow> real" where
  "ent_total ls = (\<Sum>l\<leftarrow>ls. label_entropy l)"

lemma totals_simps [simp]: "len_total [] = 0" "ent_total [] = 0" "len_total (ls @ [l]) = len_total ls + int (py_len l)"
  "ent_total (ls @ [l]) = ent_total ls + label_entropy l"
  by (simp_all add: len_total_def ent_total_def)

definition labels_ok :: "detect_config \<Rightarrow> dns_m \<Rightarrow> string list \<Rightarrow> bool" where
  "labels_ok cfg m ls \<longleftrightarrow> distinct ls \<and> [] \<notin> set ls \<and> d_uniq m = int (length ls) \<and> d_uniq m \<le> max 0 (dns_label_cap cfg)
     \<and> d_len_sum m = len_total ls \<and> d_ent_sum m = ent_total ls \<and> (d_capped m \<longrightarrow> dns_label_cap cfg \<le> d_uniq m)
     \<and> 0 \<le> d_nx m \<and> d_nx m \<le> d_n m \<and> length (d_ids m) \<le> 32"

definition dns_ok :: "detect_config \<Rightarrow> dns_state \<Rightarrow> bool" where
  "dns_ok cfg s \<longleftrightarrow> (case dn_m s of None \<Rightarrow> dn_labels s = [] | Some m \<Rightarrow> labels_ok cfg m (dn_labels s))"

lemma dns_ok_empty [simp]: "dns_ok cfg dns_empty"
  by (simp add: dns_ok_def dns_empty_def)

lemma dns_current_ok: "dns_ok cfg s \<Longrightarrow> labels_ok cfg (fst (dns_current win o' s)) (snd (dns_current win o' s)) \<and> d_win (fst (dns_current win o' s)) = win"
  by (auto simp: dns_ok_def dns_current_def dns_new_def labels_ok_def split: option.splits)

lemma enter_label_ok:
  assumes "labels_ok cfg m ls" shows "labels_ok cfg (fst (enter_label cfg sub (m, ls))) (snd (enter_label cfg sub (m, ls)))"
    "d_win (fst (enter_label cfg sub (m, ls))) = d_win m"
  using assms by (auto simp: enter_label_def labels_ok_def split: option.splits)

lemma enter_query_ok:
  assumes "enter_query cfg win o' s = (m, ls)" "dns_ok cfg s"
  shows "labels_ok cfg m ls" "d_win m = win" "d_last m = ev_min o'"
proof -
  obtain m0 l0 where c: "dns_current win o' s = (m0, l0)" by fastforce
  define m1 where "m1 = m0\<lparr>d_n := d_n m0 + 1, d_name_bytes := d_name_bytes m0 + int (py_len (case o_query o' of None \<Rightarrow> [] | Some q \<Rightarrow> q)),
                 d_nx := d_nx m0 + (if o_nx o' then 1 else 0),
                 d_tunnel_qtypes := d_tunnel_qtypes m0 + (if (\<exists>t \<in> set TUNNEL_QTYPES. o_qtype o' = Some t) then 1 else 0)\<rparr>"
  obtain m2 l2 where e: "enter_label cfg (o_sub o') (m1, l0) = (m2, l2)" by fastforce
  have "labels_ok cfg m1 l0" "d_win m1 = win" using dns_current_ok [OF assms(2), of win o'] by (auto simp: m1_def c labels_ok_def)
  then have "labels_ok cfg m2 l2" "d_win m2 = win" using enter_label_ok [of cfg m1 l0 "o_sub o'"] by (simp_all add: e)
  moreover have "m = m2\<lparr>d_ids := append_ids (d_ids m2) (o_event_id o'), d_last := ev_min o'\<rparr>" "ls = l2"
    using assms(1) by (simp_all add: enter_query_def c e Let_def flip: m1_def)
  ultimately show "labels_ok cfg m ls" "d_win m = win" "d_last m = ev_min o'" by (auto simp: labels_ok_def)
qed

text \<open>Reporting changes only the ranks.\<close>

lemma tunnel_report_cases:
  assumes "tunnel_report cfg key o' m = Some (m1, fs)"
  shows "(m1 = m \<and> fs = []) \<or> (tunnel_like cfg m = Some True \<and> fs = [tunnel_finding cfg key o' m]
     \<and> SEVERITY_RANK (tunnel_severity cfg m) > d_rank_t m \<and> m1 = m\<lparr>d_rank_t := SEVERITY_RANK (tunnel_severity cfg m)\<rparr>)"
  using assms by (auto simp: tunnel_report_def Let_def split: option.splits bool.splits if_splits)

lemma dga_report_cases:
  assumes "dga_report cfg info key o' m = (m1, fs)"
  shows "(m1 = m \<and> fs = []) \<or> (\<exists>p. o_p o' = Some p \<and> p \<ge> mi_limit info \<and> fs = [dga_finding cfg info key o' m p]
     \<and> SEVERITY_RANK (dga_severity o') > d_rank_d m \<and> m1 = m\<lparr>d_rank_d := SEVERITY_RANK (dga_severity o')\<rparr>)"
  using assms by (auto simp: dga_report_def Let_def split: option.splits if_splits)

lemma tunnel_finding_fields [simp]:
  "subtype (tunnel_finding cfg key o' m) = ''dns_tunnel_like''" "severity (tunnel_finding cfg key o' m) = tunnel_severity cfg m"
  "evidence_count (tunnel_finding cfg key o' m) = d_n m" "window_end_ms (tunnel_finding cfg key o' m) = obs_ms o'"
  "dget (observed (tunnel_finding cfg key o' m)) ''unique_subdomains'' = JInt (d_uniq m)"
  by (simp_all add: tunnel_finding_def Let_def no_args_def)

lemma dga_finding_fields [simp]:
  "subtype (dga_finding cfg info key o' m p) = ''dga_domain''" "severity (dga_finding cfg info key o' m p) = dga_severity o'"
  "raw_event_ids (dga_finding cfg info key o' m p) = [o_event_id o']" "model_version (dga_finding cfg info key o' m p) = o_model_version o'"
  "dget (observed (dga_finding cfg info key o' m p)) ''model_score'' = JReal (round_to 6 p)"
  by (simp_all add: dga_finding_def no_args_def last_n_def)

lemma labels_ok_cong: "labels_ok cfg m ls \<Longrightarrow> labels_ok cfg (m\<lparr>d_rank_t := a\<rparr>) ls" "labels_ok cfg m ls \<Longrightarrow> labels_ok cfg (m\<lparr>d_rank_d := a\<rparr>) ls"
  "labels_ok cfg m ls \<Longrightarrow> labels_ok cfg (m\<lparr>d_last_feature := lf\<rparr>) ls"
  by (auto simp: labels_ok_def)

lemma dns_event_result:
  assumes r: "dns_on_event cfg info now_us key s o' = Some r" and ok: "dns_ok cfg s"
  shows "\<exists>m0 m1 m3 fs1 fs2. enter_query cfg (obs_ms o' div dns_window_ms cfg) o' s = (m0, dn_labels (new_state r))
    \<and> tunnel_report cfg key o' m0 = Some (m1, fs1) \<and> dga_report cfg info key o' m1 = (m3\<lparr>d_last_feature := d_last_feature m1\<rparr>, fs2)
    \<and> dn_m (new_state r) = Some m3 \<and> outs (emitted r) = fs1 @ fs2 \<and> labels_ok cfg m0 (dn_labels (new_state r))
    \<and> labels_ok cfg m3 (dn_labels (new_state r)) \<and> d_win m3 = obs_ms o' div dns_window_ms cfg \<and> timers r =
       [bucket_up ((obs_ms o' div dns_window_ms cfg + 1) * dns_window_ms cfg) (dns_window_ms cfg)]"
proof -
  define win where "win = obs_ms o' div dns_window_ms cfg"
  obtain m0 ls where e: "enter_query cfg win o' s = (m0, ls)" by fastforce
  note q = enter_query_ok [OF e ok]
  obtain m1 fs1 where t: "tunnel_report cfg key o' m0 = Some (m1, fs1)"
    using r e by (auto simp: dns_on_event_def Let_def win_def split: if_splits option.splits)
  obtain m2 fs2 where d: "dga_report cfg info key o' m1 = (m2, fs2)" by fastforce
  have m1: "labels_ok cfg m1 ls" "d_win m1 = win" using tunnel_report_cases [OF t] q labels_ok_cong by auto
  then have m2: "labels_ok cfg m2 ls" "d_win m2 = win" "d_last_feature m2 = d_last_feature m1"
    using dga_report_cases [OF d] labels_ok_cong by auto
  obtain lf es where n: "new_state r = \<lparr>dn_m = Some (m2\<lparr>d_last_feature := lf\<rparr>), dn_labels = ls\<rparr>" "emitted r = map Out (fs1 @ fs2) @ es"
      "outs es = []" "timers r = [bucket_up ((win + 1) * dns_window_ms cfg) (dns_window_ms cfg)]"
  proof -
    obtain due lf where dl: "(if feature_due cfg o' m2 then rate_limited (d_last_feature m2) (obs_ms o') (feature_min_interval_ms cfg)
        else (False, d_last_feature m2)) = (due, lf)" by fastforce
    have "dns_window_ms cfg \<noteq> 0" using r by (auto simp: dns_on_event_def)
    then have "map_option (\<lambda>es. \<lparr>new_state = \<lparr>dn_m = Some (m2\<lparr>d_last_feature := lf\<rparr>), dn_labels = ls\<rparr>, emitted = map Out (fs1 @ fs2) @ es,
        timers = [bucket_up ((win + 1) * dns_window_ms cfg) (dns_window_ms cfg)], metrics = []\<rparr>)
        (emit_feature due (dns_feature cfg now_us key o' (m2\<lparr>d_last_feature := lf\<rparr>))) = Some r"
      using r by (simp add: dns_on_event_def Let_def e t d dl flip: win_def)
    then obtain es where "emit_feature due (dns_feature cfg now_us key o' (m2\<lparr>d_last_feature := lf\<rparr>)) = Some es"
      "r = \<lparr>new_state = \<lparr>dn_m = Some (m2\<lparr>d_last_feature := lf\<rparr>), dn_labels = ls\<rparr>, emitted = map Out (fs1 @ fs2) @ es,
        timers = [bucket_up ((win + 1) * dns_window_ms cfg) (dns_window_ms cfg)], metrics = []\<rparr>" by blast
    then show ?thesis using that [of lf es] by (simp add: outs_emit_feature)
  qed
  have "m2 = m2\<lparr>d_last_feature := lf\<rparr>\<lparr>d_last_feature := d_last_feature m1\<rparr>" using m2(3) by (cases m2) simp
  then show ?thesis unfolding win_def [symmetric]
    using n e t d q(1) m2 labels_ok_cong(3) [OF m2(1), of lf] by (intro exI [of _ m0] exI [of _ m1] exI [of _ "m2\<lparr>d_last_feature := lf\<rparr>"]) auto
qed

lemma dns_timer_ok: "dns_on_timer cfg key s ts = Some r \<Longrightarrow> dns_ok cfg s \<Longrightarrow> dns_ok cfg (new_state r) \<and> emitted r = []"
  by (auto simp: dns_on_timer_def split: option.splits if_splits)

lemma dns_timer_quiet: "dns_on_timer cfg key s ts = Some r \<Longrightarrow> timers r = []"
  by (auto simp: dns_on_timer_def split: option.splits if_splits)

lemma dns_event_ok: "dns_on_event cfg info now_us key s o' = Some r \<Longrightarrow> dns_ok cfg s \<Longrightarrow> dns_ok cfg (new_state r)"
  using dns_event_result by (fastforce simp: dns_ok_def)

interpretation dns_logic: passive_logic "dns_on_event cfg info" "\<lambda>_. dns_on_timer cfg" dns_empty "dns_ok cfg" "\<lambda>_. True" for cfg info
  by unfold_locales (auto dest: dns_event_ok dns_timer_ok dns_timer_quiet)
text \<open>
  C18: A DNS finding rests on what the window holds. A tunnelling finding reports exactly the number of distinct
  labels stored, at least the configured minimum, whose total length and total entropy reach the configured
  means, at a severity above every earlier one of the window; a finding about a generated name carries the
  model's score of this very query, at least the threshold, and medium severity exactly for NXDOMAIN.
\<close>

theorem dns_findings_sound:
  assumes "dns_on_event cfg info now_us key s o' = Some r" and "dns_ok cfg s" and "f \<in> set (outs (emitted r))"
  shows "\<exists>m ls. dn_m (new_state r) = Some m \<and> dn_labels (new_state r) = ls \<and> distinct ls \<and> d_win m = obs_ms o' div dns_window_ms cfg
    \<and> int (length ls) \<le> max 0 (dns_label_cap cfg)
    \<and> (if subtype f = ''dns_tunnel_like''
       then tunnel_min_unique_labels cfg \<le> int (length ls) \<and> dget (observed f) ''unique_subdomains'' = JInt (int (length ls))
         \<and> tunnel_min_mean_label_len cfg * real (length ls) \<le> real_of_int (\<Sum>l\<leftarrow>ls. int (py_len l))
         \<and> tunnel_min_mean_entropy cfg * real (length ls) \<le> (\<Sum>l\<leftarrow>ls. label_entropy l)
         \<and> d_rank_t m = SEVERITY_RANK (severity f)
         \<and> (\<forall>m0. dn_m s = Some m0 \<and> d_win m0 = d_win m \<longrightarrow> d_rank_t m0 < SEVERITY_RANK (severity f))
       else subtype f = ''dga_domain'' \<and> raw_event_ids f = [o_event_id o'] \<and> model_version f = o_model_version o'
         \<and> (\<exists>p. o_p o' = Some p \<and> mi_limit info \<le> p \<and> dget (observed f) ''model_score'' = JReal (round_to 6 p))
         \<and> severity f = (if o_nx o' then ''medium'' else ''low''))"
proof -
  define win where "win = obs_ms o' div dns_window_ms cfg"
  obtain m0 m1 m3 fs1 fs2 where e: "enter_query cfg win o' s = (m0, dn_labels (new_state r))"
      "tunnel_report cfg key o' m0 = Some (m1, fs1)" "dga_report cfg info key o' m1 = (m3\<lparr>d_last_feature := d_last_feature m1\<rparr>, fs2)"
      "dn_m (new_state r) = Some m3" "outs (emitted r) = fs1 @ fs2" "labels_ok cfg m0 (dn_labels (new_state r))"
      "labels_ok cfg m3 (dn_labels (new_state r))" "d_win m3 = win"
    using dns_event_result [OF assms(1,2)] unfolding win_def by blast
  define ls where "ls = dn_labels (new_state r)"
  have st: "distinct ls" "int (length ls) \<le> max 0 (dns_label_cap cfg)" using e(7) by (auto simp: labels_ok_def ls_def)
  have d: "(fs2 = []) \<or> (\<exists>p. o_p o' = Some p \<and> p \<ge> mi_limit info \<and> fs2 = [dga_finding cfg info key o' m1 p])"
    "d_rank_t m3 = d_rank_t m1"
    using dga_report_cases [OF e(3)] by (auto dest: arg_cong [where f = d_rank_t])
  consider (T) "f \<in> set fs1" | (D) "f \<in> set fs2" using assms(3) e(5) by auto
  then show ?thesis
  proof cases
    case T
    note t = tunnel_report_cases [OF e(2)]
    have f: "f = tunnel_finding cfg key o' m0" "tunnel_like cfg m0 = Some True" "SEVERITY_RANK (tunnel_severity cfg m0) > d_rank_t m0"
        "m1 = m0\<lparr>d_rank_t := SEVERITY_RANK (tunnel_severity cfg m0)\<rparr>"
      using t T by auto
    have u: "d_uniq m0 = int (length ls)" "d_len_sum m0 = len_total ls" "d_ent_sum m0 = ent_total ls" using e(6) by (auto simp: labels_ok_def ls_def)
    have l: "length ls \<noteq> 0" "tunnel_min_unique_labels cfg \<le> int (length ls)"
      "tunnel_min_mean_label_len cfg \<le> of_int (len_total ls) / of_int (int (length ls))"
      "tunnel_min_mean_entropy cfg \<le> ent_total ls / of_int (int (length ls))"
      using f(2) u by (auto simp: tunnel_like_def mean_len_def mean_ent_def split: if_splits)
    then have "tunnel_min_mean_label_len cfg * real (length ls) \<le> real_of_int (len_total ls)"
      "tunnel_min_mean_entropy cfg * real (length ls) \<le> ent_total ls" by (simp_all add: pos_le_divide_eq)
    moreover have "d_rank_t q < SEVERITY_RANK (severity f)" if "dn_m s = Some q" "d_win q = win" for q
    proof -
      have "d_rank_t m0 = d_rank_t q" using e(1) that
        by (auto simp: enter_query_def dns_current_def Let_def enter_label_def split: option.splits if_splits)
      then show ?thesis using f by simp
    qed
    ultimately show ?thesis
      using f u l st e(4,8) d(2) unfolding win_def [symmetric] by (intro exI [of _ m3] exI [of _ ls]) (auto simp: ls_def len_total_def ent_total_def)
  next
    case D
    then obtain p where p: "o_p o' = Some p" "p \<ge> mi_limit info" "f = dga_finding cfg info key o' m1 p" using d by auto
    then show ?thesis
      using st e(4,8) unfolding win_def [symmetric] by (intro exI [of _ m3] exI [of _ ls]) (auto simp: ls_def dga_severity_def)
  qed
qed

definition demo_obs :: "string \<Rightarrow> int \<Rightarrow> dns_obs" where
  "demo_obs name t = \<lparr>obs_ms = t, event_time_us = t * 1000, offset_us = 0, received_us = t * 1000, sensor_id = ''s'', run = None,
     o_src = ''10.0.0.1'', o_query = Some (''abcd.'' @ name), o_registrable = Some name, o_sub = Some ''abcd'', o_vec = None,
     o_p = None, o_lex = Some True, o_eligible = False, o_reason = Some ''model_unavailable'', o_nx = True, o_qtype = Some ''TXT'',
     o_event_id = ''e'', o_coverage = ''both_directions'', o_model_version = None, o_contrib = None\<rparr>"

lemma demo_entropy: "label_entropy ''abcd'' = 2"
proof -
  have "log 2 (1 / 4 :: real) = - 2" using log_powr_cancel [of 2 "- 2"] by (simp add: powr_minus_divide)
  then show ?thesis by (simp add: label_entropy_def entropy_def Let_def lead_byte_def)
qed

definition demo_dns_config :: detect_config where
  "demo_dns_config = default_config\<lparr>tunnel_min_unique_labels := 1, tunnel_min_mean_label_len := 4, tunnel_min_mean_entropy := 2,
     dga_burst_min_nx_domains := 2, dga_burst_min_dga_like := 1\<rparr>"

lemma demo_tunnel:
  "\<exists>r f. dns_on_event demo_dns_config \<lparr>mi_threshold = None, mi_calibration = None, mi_confidence = None\<rparr> 0 ''10.0.0.1|a.com'' dns_empty
     (demo_obs ''a.com'' 40000) = Some r \<and> f \<in> set (outs (emitted r)) \<and> subtype f = ''dns_tunnel_like''"
  using format_us_Some [of 40000000] format_us_Some [of 0] demo_entropy
  by (auto simp: dns_on_event_def Let_def dns_empty_def enter_query_def dns_current_def dns_new_def enter_label_def demo_obs_def demo_dns_config_def
      py_len_def lead_byte_def tunnel_report_def tunnel_like_def mean_len_def mean_ent_def tunnel_severity_def SEVERITY_RANK_def dga_report_def
      feature_due_def rate_limited_def emit_feature_def dns_feature_def feature_record_def format_ms_def default_config_def)

theorem dns_findings_sound_witness:
  "\<exists>r f ls. dns_on_event demo_dns_config \<lparr>mi_threshold = None, mi_calibration = None, mi_confidence = None\<rparr> 0 ''10.0.0.1|a.com'' dns_empty
     (demo_obs ''a.com'' 40000) = Some r \<and> f \<in> set (outs (emitted r)) \<and> dn_labels (new_state r) = ls \<and> 1 \<le> length ls"
proof -
  let ?i = "\<lparr>mi_threshold = None, mi_calibration = None, mi_confidence = None\<rparr>"
  obtain r f where r: "dns_on_event demo_dns_config ?i 0 ''10.0.0.1|a.com'' dns_empty (demo_obs ''a.com'' 40000) = Some r"
      "f \<in> set (outs (emitted r))" "subtype f = ''dns_tunnel_like''" using demo_tunnel by blast
  have "tunnel_min_unique_labels demo_dns_config \<le> int (length (dn_labels (new_state r)))"
    using dns_findings_sound [OF r(1) dns_ok_empty r(2)] r(3) by auto
  then have "1 \<le> length (dn_labels (new_state r))" by (simp add: demo_dns_config_def)
  then show ?thesis using r by blast
qed
section \<open>Bursts\<close>

definition dga_like_count :: "(string \<times> int) list \<Rightarrow> int" where
  "dga_like_count ds = (\<Sum>d\<leftarrow>ds. snd d)"

lemma dga_like_count_simps [simp]: "dga_like_count [] = 0" "dga_like_count (ds @ [d]) = dga_like_count ds + snd d"
  by (simp_all add: dga_like_count_def)

definition domains_ok :: "detect_config \<Rightarrow> burst_m \<Rightarrow> (string \<times> int) list \<Rightarrow> bool" where
  "domains_ok cfg m ds \<longleftrightarrow> distinct (map fst ds) \<and> b_nx m = int (length ds) \<and> b_nx m \<le> max 0 (dga_burst_domain_cap cfg)
     \<and> b_dga_like m = dga_like_count ds \<and> (\<forall>d \<in> set ds. snd d = 0 \<or> snd d = 1) \<and> b_scored m + b_rule_only m = b_nx m \<and> length (b_ids m) \<le> 32"

definition burst_ok :: "detect_config \<Rightarrow> burst_state \<Rightarrow> bool" where
  "burst_ok cfg s \<longleftrightarrow> (case bu_m s of None \<Rightarrow> bu_domains s = [] | Some m \<Rightarrow> domains_ok cfg m (bu_domains s))"

lemma burst_ok_empty [simp]: "burst_ok cfg burst_empty"
  by (simp add: burst_ok_def burst_empty_def)

lemma burst_current_ok:
  "burst_ok cfg s \<Longrightarrow> domains_ok cfg (fst (burst_current win o' s)) (snd (burst_current win o' s)) \<and> b_win (fst (burst_current win o' s)) = win"
  by (auto simp: burst_ok_def burst_current_def burst_new_def domains_ok_def split: option.splits)

lemma judge_fields: "judge o' m = (like, m1) \<Longrightarrow> b_win m1 = b_win m \<and> b_nx m1 = b_nx m \<and> b_dga_like m1 = b_dga_like m \<and> b_ids m1 = b_ids m
    \<and> b_rank m1 = b_rank m \<and> b_scored m1 + b_rule_only m1 = b_scored m + b_rule_only m + 1"
  by (auto simp: judge_def split: option.splits)

lemma enter_domain_ok:
  assumes "enter_domain cfg dmn o' (m, ds) = (m', ds')" "domains_ok cfg m ds"
  shows "domains_ok cfg m' ds'" "b_win m' = b_win m" "b_rank m' = b_rank m" "b_nx m \<le> b_nx m'" "b_dga_like m \<le> b_dga_like m'"
    "fst ` set ds' = fst ` set ds \<or> (fst ` set ds' = insert dmn (fst ` set ds) \<and> b_nx m < dga_burst_domain_cap cfg)"
    "b_nx m < dga_burst_domain_cap cfg \<longrightarrow> dmn \<in> fst ` set ds'"
proof -
  obtain like m1 where j: "judge o' m = (like, m1)" by fastforce
  note f = judge_fields [OF j]
  have "domains_ok cfg m' ds' \<and> b_win m' = b_win m \<and> b_rank m' = b_rank m \<and> b_nx m \<le> b_nx m' \<and> b_dga_like m \<le> b_dga_like m'
    \<and> (fst ` set ds' = fst ` set ds \<or> (fst ` set ds' = insert dmn (fst ` set ds) \<and> b_nx m < dga_burst_domain_cap cfg))
    \<and> (b_nx m < dga_burst_domain_cap cfg \<longrightarrow> dmn \<in> fst ` set ds')"
    using assms f unfolding enter_domain_def
    by (auto simp: j domains_ok_def od_set_new Let_def split: if_splits)
  then show "domains_ok cfg m' ds'" "b_win m' = b_win m" "b_rank m' = b_rank m" "b_nx m \<le> b_nx m'" "b_dga_like m \<le> b_dga_like m'"
    "fst ` set ds' = fst ` set ds \<or> (fst ` set ds' = insert dmn (fst ` set ds) \<and> b_nx m < dga_burst_domain_cap cfg)"
    "b_nx m < dga_burst_domain_cap cfg \<longrightarrow> dmn \<in> fst ` set ds'" by blast+
qed

definition nx_record :: "dns_obs \<Rightarrow> string option" where
  "nx_record o' = (case o_registrable o' of Some dmn \<Rightarrow> if o_nx o' \<and> dmn \<noteq> [] then Some dmn else None | None \<Rightarrow> None)"

lemma burst_event_result:
  assumes r: "burst_on_event cfg now_us src s o' = Some r"
  shows "(nx_record o' = None \<and> new_state r = s \<and> emitted r = [] \<and> timers r = [])
    \<or> (\<exists>dmn m1 ds m2 fs. nx_record o' = Some dmn \<and> dns_window_ms cfg \<noteq> 0
       \<and> enter_domain cfg dmn o' (burst_current (obs_ms o' div dns_window_ms cfg) o' s) = (m1, ds)
       \<and> burst_report cfg src o' (m1\<lparr>b_last := ev_min o'\<rparr>) = (m2, fs) \<and> new_state r = \<lparr>bu_m = Some m2, bu_domains = ds\<rparr>
       \<and> outs (emitted r) = fs)"
  using r by (auto simp: burst_on_event_def nx_record_def Let_def split: option.splits if_splits prod.splits)

definition burst_met :: "detect_config \<Rightarrow> burst_m \<Rightarrow> bool" where
  "burst_met cfg m \<longleftrightarrow> b_nx m \<ge> dga_burst_min_nx_domains cfg \<and> b_dga_like m \<ge> dga_burst_min_dga_like cfg"

lemma burst_report_cases:
  assumes "burst_report cfg src o' m = (m2, fs)"
  shows "(m2 = m \<and> fs = [] \<and> (burst_met cfg m \<longrightarrow> b_rank m \<ge> 3)) \<or> (burst_met cfg m \<and> b_rank m < 3 \<and> m2 = m\<lparr>b_rank := 3\<rparr> \<and> fs = [burst_finding cfg src o' m])"
  using assms by (auto simp: burst_report_def burst_met_def SEVERITY_RANK_def split: if_splits)

definition burst_reports :: "finding \<Rightarrow> burst_m \<Rightarrow> bool" where
  "burst_reports f m \<longleftrightarrow> subtype f = ''dga_nxdomain_burst'' \<and> severity f = ''high'' \<and> evidence_count f = b_nx m
     \<and> dget (observed f) ''nxdomain_domains'' = JInt (b_nx m) \<and> dget (observed f) ''dga_like_domains'' = JInt (b_dga_like m)"

lemma burst_finding_reports [simp]: "b_nx m = b_nx m' \<Longrightarrow> b_dga_like m = b_dga_like m' \<Longrightarrow> burst_reports (burst_finding cfg src o' m) m'"
  by (simp add: burst_reports_def burst_finding_def Let_def no_args_def)

lemma burst_step:
  assumes "burst_on_event cfg now_us src s o' = Some r" "burst_ok cfg s" "nx_record o' = Some dmn"
  shows "\<exists>m0 m2. fst (burst_current (obs_ms o' div dns_window_ms cfg) o' s) = m0 \<and> bu_m (new_state r) = Some m2 \<and> domains_ok cfg m2 (bu_domains (new_state r))
    \<and> b_win m2 = obs_ms o' div dns_window_ms cfg
    \<and> (fst ` set (bu_domains (new_state r)) = fst ` set (snd (burst_current (obs_ms o' div dns_window_ms cfg) o' s))
       \<or> fst ` set (bu_domains (new_state r)) = insert dmn (fst ` set (snd (burst_current (obs_ms o' div dns_window_ms cfg) o' s))) \<and> b_nx m0 < dga_burst_domain_cap cfg)
    \<and> (b_nx m0 < dga_burst_domain_cap cfg \<longrightarrow> dmn \<in> fst ` set (bu_domains (new_state r))) \<and> b_nx m0 \<le> b_nx m2 \<and> b_dga_like m0 \<le> b_dga_like m2
    \<and> ((outs (emitted r) = [] \<and> b_rank m2 = b_rank m0 \<and> (burst_met cfg m2 \<longrightarrow> b_rank m0 \<ge> 3))
       \<or> (burst_met cfg m2 \<and> b_rank m0 < 3 \<and> b_rank m2 = 3 \<and> (\<exists>f. outs (emitted r) = [f] \<and> burst_reports f m2)))"
proof -
  let ?w = "obs_ms o' div dns_window_ms cfg"
  obtain m0 d0 where c: "burst_current ?w o' s = (m0, d0)" by fastforce
  obtain m1 ds m2 fs where e: "enter_domain cfg dmn o' (m0, d0) = (m1, ds)" "burst_report cfg src o' (m1\<lparr>b_last := ev_min o'\<rparr>) = (m2, fs)"
      "new_state r = \<lparr>bu_m = Some m2, bu_domains = ds\<rparr>" "outs (emitted r) = fs"
    using burst_event_result [OF assms(1)] assms(3) c by auto
  have "domains_ok cfg m0 d0" "b_win m0 = ?w" using burst_current_ok [OF assms(2), of ?w o'] by (simp_all add: c)
  note k = enter_domain_ok [OF e(1) this(1)] this(2)
  have m: "domains_ok cfg m2 ds" "b_win m2 = ?w" "b_nx m2 = b_nx m1" "b_dga_like m2 = b_dga_like m1"
    using burst_report_cases [OF e(2)] k(1,2,8) by (auto simp: domains_ok_def)
  show ?thesis using burst_report_cases [OF e(2)] k m e(3,4) c by (auto simp: burst_met_def)
qed

lemma burst_event_ok: "burst_on_event cfg now_us src s o' = Some r \<Longrightarrow> burst_ok cfg s \<Longrightarrow> burst_ok cfg (new_state r)"
  using burst_event_result burst_step by (cases "nx_record o'") (fastforce simp: burst_ok_def)+

lemma burst_timer_ok: "burst_on_timer cfg src s ts = Some r \<Longrightarrow> burst_ok cfg s \<Longrightarrow> burst_ok cfg (new_state r)"
  by (auto simp: burst_on_timer_def split: option.splits if_splits)

lemma burst_timer_quiet: "burst_on_timer cfg src s ts = Some r \<Longrightarrow> timers r = []"
  by (auto simp: burst_on_timer_def split: option.splits if_splits)

interpretation burst_logic: passive_logic "burst_on_event cfg" "\<lambda>_. burst_on_timer cfg" burst_empty "burst_ok cfg" "\<lambda>_. True" for cfg
  by unfold_locales (auto dest: burst_event_ok burst_timer_ok burst_timer_quiet)
text \<open>The records of one source in order: the final state and every finding.\<close>

fun burst_run :: "detect_config \<Rightarrow> int \<Rightarrow> string \<Rightarrow> burst_state \<Rightarrow> dns_obs list \<Rightarrow> (burst_state \<times> finding list) option" where
  "burst_run cfg now_us src s [] = Some (s, [])"
| "burst_run cfg now_us src s (o' # os) =
     (case burst_on_event cfg now_us src s o' of None \<Rightarrow> None
      | Some r \<Rightarrow> map_option (\<lambda>(s', fs). (s', outs (emitted r) @ fs)) (burst_run cfg now_us src (new_state r) os))"

lemma burst_run_total: "dns_window_ms cfg \<noteq> 0 \<Longrightarrow> \<exists>s' fs. burst_run cfg now_us src s os = Some (s', fs)"
proof (induction os arbitrary: s)
  case (Cons o' os)
  have "\<exists>r. burst_on_event cfg now_us src s o' = Some r" using Cons.prems by (simp add: burst_on_event_def Let_def split: option.splits prod.splits)
  then show ?case using Cons by fastforce
qed simp

text \<open>A window into which the domains \<open>D\<close> have come, with \<open>k\<close> findings.\<close>

definition burst_window :: "detect_config \<Rightarrow> int \<Rightarrow> string set \<Rightarrow> nat \<Rightarrow> burst_state \<Rightarrow> bool" where
  "burst_window cfg w D k s \<longleftrightarrow> burst_ok cfg s \<and> finite D \<and> (case bu_m s of None \<Rightarrow> D = {} \<and> k = 0
     | Some m \<Rightarrow> b_win m = w \<and> fst ` set (bu_domains s) \<subseteq> D \<and> (b_nx m < dga_burst_domain_cap cfg \<longrightarrow> fst ` set (bu_domains s) = D)
        \<and> b_rank m = (if k = 0 then - 1 else 3) \<and> k = (if burst_met cfg m then 1 else 0))"

lemma card_domains: "domains_ok cfg m ds \<Longrightarrow> b_nx m = int (card (fst ` set ds))"
  by (metis domains_ok_def distinct_card length_map set_map)

lemma burst_window_step:
  assumes w: "burst_window cfg w D k s" and r: "burst_on_event cfg now_us src s o' = Some r" and d: "nx_record o' = Some dmn"
    and t: "obs_ms o' div dns_window_ms cfg = w"
  shows "burst_window cfg w (insert dmn D) (k + length (outs (emitted r))) (new_state r)
    \<and> (\<forall>f \<in> set (outs (emitted r)). \<exists>m. bu_m (new_state r) = Some m \<and> burst_reports f m \<and> burst_met cfg m)"
proof -
  have ok: "burst_ok cfg s" "finite D" using w by (simp_all add: burst_window_def)
  obtain m0 d0 where c: "burst_current w o' s = (m0, d0)" by fastforce
  have b: "fst ` set d0 \<subseteq> D" "b_nx m0 < dga_burst_domain_cap cfg \<longrightarrow> fst ` set d0 = D" "b_rank m0 = (if k = 0 then - 1 else 3)"
      "k = 0 \<or> (k = 1 \<and> burst_met cfg m0)"
    using w c by (auto simp: burst_window_def burst_current_def burst_new_def split: option.splits if_splits)
  obtain m2 where m: "bu_m (new_state r) = Some m2" "domains_ok cfg m2 (bu_domains (new_state r))" "b_win m2 = w"
      "fst ` set (bu_domains (new_state r)) = fst ` set d0 \<or>
         fst ` set (bu_domains (new_state r)) = insert dmn (fst ` set d0) \<and> b_nx m0 < dga_burst_domain_cap cfg"
      "b_nx m0 < dga_burst_domain_cap cfg \<longrightarrow> dmn \<in> fst ` set (bu_domains (new_state r))" "b_nx m0 \<le> b_nx m2" "b_dga_like m0 \<le> b_dga_like m2"
      "(outs (emitted r) = [] \<and> b_rank m2 = b_rank m0 \<and> (burst_met cfg m2 \<longrightarrow> b_rank m0 \<ge> 3))
       \<or> (burst_met cfg m2 \<and> b_rank m0 < 3 \<and> b_rank m2 = 3 \<and> (\<exists>f. outs (emitted r) = [f] \<and> burst_reports f m2))"
    using burst_step [OF r ok(1) d] unfolding t c by auto
  have mono: "burst_met cfg m0 \<Longrightarrow> burst_met cfg m2" using m(6,7) by (simp add: burst_met_def)
  have ok2: "burst_ok cfg (new_state r)" using m(1,2) by (simp add: burst_ok_def)
  have nm: "b_nx m2 < dga_burst_domain_cap cfg \<longrightarrow> fst ` set (bu_domains (new_state r)) = insert dmn D" using b(2) m(4,5,6) by auto
  have sub: "fst ` set (bu_domains (new_state r)) \<subseteq> insert dmn D" using b(1) m(4) by blast
  show ?thesis
  proof (cases "outs (emitted r) = []")
    case True
    then have "b_rank m2 = b_rank m0" "burst_met cfg m2 \<longrightarrow> k \<noteq> 0" using m(8) b(3) by (auto split: if_splits)
    then show ?thesis using True b(3,4) mono m(1,3) nm sub ok ok2 by (auto simp: burst_window_def)
  next
    case False
    then obtain f where f: "outs (emitted r) = [f]" "burst_reports f m2" "burst_met cfg m2" "b_rank m0 < 3" "b_rank m2 = 3" using m(8) by auto
    then have "k = 0" using b(3) by (auto split: if_splits)
    then show ?thesis using f m(1,3) nm sub ok ok2 by (auto simp: burst_window_def)
  qed
qed

lemma burst_window_run:
  assumes "burst_run cfg now_us src s os = Some (s', fs)" "burst_window cfg w D k s"
    "\<forall>o' \<in> set os. nx_record o' \<noteq> None \<and> obs_ms o' div dns_window_ms cfg = w"
  shows "burst_window cfg w (D \<union> {d. \<exists>o' \<in> set os. nx_record o' = Some d}) (k + length fs) s'"
  using assms
proof (induction os arbitrary: s D k fs)
  case (Cons o' os)
  obtain dmn where d: "nx_record o' = Some dmn" using Cons.prems(3) by auto
  obtain r fs' where r: "burst_on_event cfg now_us src s o' = Some r" "burst_run cfg now_us src (new_state r) os = Some (s', fs')"
      "fs = outs (emitted r) @ fs'"
    using Cons.prems(1) by (auto split: option.splits)
  have "burst_window cfg w (insert dmn D) (k + length (outs (emitted r))) (new_state r)"
    using burst_window_step [OF Cons.prems(2) r(1) d] Cons.prems(3) by simp
  from Cons.IH [OF r(2) this] have "burst_window cfg w (insert dmn D \<union> {d. \<exists>o' \<in> set os. nx_record o' = Some d})
      (k + length (outs (emitted r)) + length fs') s'" using Cons.prems(3) by simp
  moreover have "insert dmn D \<union> {d. \<exists>o' \<in> set os. nx_record o' = Some d} = D \<union> {d. \<exists>q \<in> set (o' # os). nx_record q = Some d}"
    using d by auto
  ultimately show ?case using r(3) by (simp add: add.assoc)
qed simp

text \<open>
  C16: The NXDOMAIN burst counter of a window is exact: over the NXDOMAIN records of a source that fall into one
  window, in any order and with repetitions, the state counts exactly the distinct registrable domains up to
  the cap, and a burst is reported exactly once when both thresholds are reached, and never otherwise.
\<close>

theorem burst_window_exact:
  assumes "burst_run cfg now_us src burst_empty os = Some (s, fs)" and "os \<noteq> []"
    and "\<forall>o' \<in> set os. nx_record o' \<noteq> None \<and> obs_ms o' div dns_window_ms cfg = w"
  shows "\<exists>m. bu_m s = Some m \<and> b_nx m = min (max 0 (dga_burst_domain_cap cfg)) (int (card (nx_record ` set os)))
    \<and> b_dga_like m = int (length (filter (\<lambda>d. snd d = 1) (bu_domains s))) \<and> b_nx m = int (length (bu_domains s))
    \<and> length fs = (if dga_burst_min_nx_domains cfg \<le> b_nx m \<and> dga_burst_min_dga_like cfg \<le> b_dga_like m then 1 else 0)"
proof -
  define D where "D = {d. \<exists>o' \<in> set os. nx_record o' = Some d}"
  have "burst_window cfg w {} 0 burst_empty" by (simp add: burst_window_def burst_empty_def burst_ok_def)
  from burst_window_run [OF assms(1) this assms(3)] have b: "burst_window cfg w D (length fs) s" by (simp add: D_def)
  have im: "nx_record ` set os = Some ` D" using assms(3) by (force simp: D_def image_iff)
  then have cd: "card (nx_record ` set os) = card D" by (simp add: card_image)
  have "D \<noteq> {}" using im assms(2) by auto
  then obtain m where m: "bu_m s = Some m" "domains_ok cfg m (bu_domains s)" "fst ` set (bu_domains s) \<subseteq> D" "finite D"
      "b_nx m < dga_burst_domain_cap cfg \<longrightarrow> fst ` set (bu_domains s) = D" "length fs = (if burst_met cfg m then 1 else 0)"
    using b by (auto simp: burst_window_def burst_ok_def split: option.splits)
  have n: "b_nx m = int (card (fst ` set (bu_domains s)))" by (rule card_domains [OF m(2)])
  have le: "b_nx m \<le> max 0 (dga_burst_domain_cap cfg)" "b_nx m = int (length (bu_domains s))" using m(2) by (simp_all add: domains_ok_def)
  have cap: "b_nx m \<le> int (card D)" unfolding n using card_mono [OF m(4,3)] by simp
  have "b_nx m = min (max 0 (dga_burst_domain_cap cfg)) (int (card D))"
  proof (cases "b_nx m < dga_burst_domain_cap cfg")
    case True
    then have "fst ` set (bu_domains s) = D" using m(5) by blast
    then have "b_nx m = int (card D)" using n by (simp only:)
    then show ?thesis using le(1) by simp
  next
    case False
    then have "b_nx m = max 0 (dga_burst_domain_cap cfg)" using le by linarith
    then show ?thesis using cap by simp
  qed
  moreover have "dga_like_count ds = int (length (filter (\<lambda>d. snd d = 1) ds))" if "\<forall>d \<in> set ds. snd d = 0 \<or> snd d = 1" for ds
    using that by (induction ds) (auto simp: dga_like_count_def)
  ultimately show ?thesis using m(1,2,6) le cd by (auto simp: burst_met_def domains_ok_def)
qed

lemma demo_window [simp]: "dns_window_ms demo_dns_config = 60000" "dga_burst_domain_cap demo_dns_config = 512"
  by (simp_all add: demo_dns_config_def default_config_def)

lemma demo_nx [simp]: "nx_record (demo_obs name t) = (if name = [] then None else Some name)" "obs_ms (demo_obs name t) = t"
  by (simp_all add: nx_record_def demo_obs_def)

theorem burst_window_exact_witness:
  "\<exists>s m fs. burst_run demo_dns_config 0 ''10.0.0.1'' burst_empty [demo_obs ''a.com'' 1000, demo_obs ''b.com'' 2000, demo_obs ''a.com'' 3000] = Some (s, fs)
     \<and> bu_m s = Some m \<and> b_nx m = 2"
proof -
  obtain s fs where r: "burst_run demo_dns_config 0 ''10.0.0.1'' burst_empty [demo_obs ''a.com'' 1000, demo_obs ''b.com'' 2000, demo_obs ''a.com'' 3000] = Some (s, fs)"
    using burst_run_total [of demo_dns_config] by fastforce
  have "\<exists>m. bu_m s = Some m \<and> b_nx m = min (max 0 (dga_burst_domain_cap demo_dns_config)) (int (card (nx_record ` set
      [demo_obs ''a.com'' 1000, demo_obs ''b.com'' 2000, demo_obs ''a.com'' 3000])))"
    using burst_window_exact [OF r, of 0] by auto
  moreover have "nx_record ` set [demo_obs ''a.com'' 1000, demo_obs ''b.com'' 2000, demo_obs ''a.com'' 3000] = {Some ''a.com'', Some ''b.com''}"
    by auto
  ultimately have "\<exists>m. bu_m s = Some m \<and> b_nx m = 2" by (simp only: demo_window) simp
  then show ?thesis using r by blast
qed

text \<open>
  C35: A record that is late by as little as crossing the window boundary takes the state with it: the window in
  progress is discarded with all its domains, and the counting starts over in the older window.
\<close>

theorem late_record_discards_window:
  assumes "bu_m s = Some m" and "burst_ok cfg s" and "nx_record o' = Some dmn" and "0 < dga_burst_domain_cap cfg"
    and "obs_ms o' div dns_window_ms cfg < b_win m" and "burst_on_event cfg now_us src s o' = Some r"
  shows "\<exists>m'. bu_m (new_state r) = Some m' \<and> b_win m' < b_win m \<and> fst ` set (bu_domains (new_state r)) = {dmn} \<and> b_nx m' = 1"
proof -
  let ?w = "obs_ms o' div dns_window_ms cfg"
  have c: "burst_current ?w o' s = (burst_new ?w o', [])" using assms(1,5) by (simp add: burst_current_def)
  obtain m2 where m: "bu_m (new_state r) = Some m2" "domains_ok cfg m2 (bu_domains (new_state r))" "b_win m2 = ?w"
      "dmn \<in> fst ` set (bu_domains (new_state r))" "fst ` set (bu_domains (new_state r)) \<subseteq> {dmn}"
    using burst_step [OF assms(6,2,3)] unfolding c using assms(4) by (auto simp: burst_new_def)
  then have e: "fst ` set (bu_domains (new_state r)) = {dmn}" by auto
  then show ?thesis using m card_domains [OF m(2)] assms(5) by simp
qed

theorem late_record_discards_window_witness:
  "\<exists>s fs r m'. burst_run demo_dns_config 0 ''10.0.0.1'' burst_empty [demo_obs ''a.com'' 60000, demo_obs ''b.com'' 60001] = Some (s, fs)
     \<and> burst_on_event demo_dns_config 0 ''10.0.0.1'' s (demo_obs ''c.com'' 59999) = Some r \<and> bu_m (new_state r) = Some m' \<and> b_nx m' = 1"
proof -
  have "\<exists>s fs m. burst_run demo_dns_config 0 ''10.0.0.1'' burst_empty [demo_obs ''a.com'' 60000, demo_obs ''b.com'' 60001] = Some (s, fs)
      \<and> bu_m s = Some m \<and> b_win m = 1 \<and> burst_ok demo_dns_config s"
  proof -
    obtain s fs where s: "burst_run demo_dns_config 0 ''10.0.0.1'' burst_empty [demo_obs ''a.com'' 60000, demo_obs ''b.com'' 60001] = Some (s, fs)"
      using burst_run_total [of demo_dns_config] by fastforce
    have "burst_window demo_dns_config 1 {} 0 burst_empty" by (simp add: burst_window_def burst_empty_def burst_ok_def)
    from burst_window_run [OF s this] have w: "burst_window demo_dns_config 1 {''a.com'', ''b.com''} (length fs) s"
      by (simp add: insert_commute Collect_disj_eq)
    then show ?thesis using s by (auto simp: burst_window_def split: option.splits)
  qed
  then obtain s fs m where s: "burst_run demo_dns_config 0 ''10.0.0.1'' burst_empty [demo_obs ''a.com'' 60000, demo_obs ''b.com'' 60001] = Some (s, fs)"
      "bu_m s = Some m" "b_win m = 1" "burst_ok demo_dns_config s" by blast
  obtain r where r: "burst_on_event demo_dns_config 0 ''10.0.0.1'' s (demo_obs ''c.com'' 59999) = Some r"
    using burst_run_total [of demo_dns_config 0 "''10.0.0.1''" s "[demo_obs ''c.com'' 59999]"] by (auto split: option.splits)
  have "\<exists>m'. bu_m (new_state r) = Some m' \<and> b_nx m' = 1"
    using late_record_discards_window [OF s(2,4) _ _ _ r, of "''c.com''"] s(3) by auto
  then show ?thesis using s(1) r by blast
qed

end
