(* ===== verification/AlertRules.thy ===== *)
theory AlertRules
  imports Incidents Scan Exfil Beacon Encrypted Ddos Dns
begin

text \<open>
  From the detectors' findings to the alert updates of the correlator: whatever a handler reports is
  consistent with itself, merging it into an incident keeps it so, and hence every alert update
  satisfies the cross-field rules the consumers check (\<^verbatim>\<open>contracts._alert_rules\<close>).
\<close>

section \<open>What the detectors report\<close>

text \<open>A condition on the model's metadata: a score is called a calibrated probability only with the
  status calibrated.\<close>

definition info_ok :: "model_info \<Rightarrow> bool" where
  "info_ok info \<longleftrightarrow> (mi_confidence info = Some ''calibrated_probability'' \<longrightarrow> mi_calibration info = Some ''calibrated'')"

text \<open>A finding emitted by a handler, in any state and for any record; a query comes from \<open>observe\<close> with a
  model whose version is a text.\<close>

inductive reported :: "detect_config \<Rightarrow> finding \<Rightarrow> bool" for cfg where
  scan: "scan_on_event cfg inven now src s d = Some r \<Longrightarrow> f \<in> set (outs (emitted r)) \<Longrightarrow> reported cfg f"
| exfil: "exfil_on_event cfg now src s d = Some r \<Longrightarrow> f \<in> set (outs (emitted r)) \<Longrightarrow> reported cfg f"
| beacon: "beacon_on_event cfg inven now key b d = Some r \<Longrightarrow> f \<in> set (outs (emitted r)) \<Longrightarrow> reported cfg f"
| encrypted: "enc_on_event cfg inven now key st ev = Some r \<Longrightarrow> f \<in> set (outs (emitted r)) \<Longrightarrow> reported cfg f"
| flood: "flood_on_event hash64 cfg now dst fl d = Some r \<Longrightarrow> f \<in> set (outs (emitted r)) \<Longrightarrow> reported cfg f"
| dns: "observe inven m answer ev = Some (q, m') \<Longrightarrow> dm_active m \<longrightarrow> doc_str (dm_version m) \<noteq> None \<Longrightarrow> info_ok info
    \<Longrightarrow> dns_on_event cfg info now key ds q = Some r \<Longrightarrow> f \<in> set (outs (emitted r)) \<Longrightarrow> reported cfg f"
| burst: "burst_on_event cfg now src bs q = Some r \<Longrightarrow> f \<in> set (outs (emitted r)) \<Longrightarrow> reported cfg f"

named_theorems findings_ok \<open>the findings of the detectors are consistent with themselves\<close>

lemma scan_finding_ok [findings_ok]: "finding_ok (scan_finding cfg inven src d m c rt)"
  unfolding scan_finding_def by (rule finding_ok_finding) (simp add: args_ok_def no_args_def)

lemma exfil_finding_ok [findings_ok]: "finding_ok (exfil_finding cfg src d x new_dst)"
  unfolding exfil_finding_def Let_def by (rule finding_ok_finding) (simp add: args_ok_def no_args_def)

lemma beacon_finding_ok [findings_ok]: "finding_ok (beacon_finding cfg key d b g external)"
  unfolding beacon_finding_def Let_def by (rule finding_ok_finding) (simp add: args_ok_def no_args_def)

lemma enc_finding_ok [findings_ok]: "finding_ok (enc_finding cfg key ev ind external s src dst)"
  unfolding enc_finding_def Let_def by (rule finding_ok_finding) (simp add: args_ok_def no_args_def)

lemma flood_finding_ok [findings_ok]: "finding_ok (flood_finding cfg dst d s m st)"
  unfolding flood_finding_def Let_def by (rule finding_ok_finding) (simp add: args_ok_def no_args_def)

lemma tunnel_finding_ok [findings_ok]: "finding_ok (tunnel_finding cfg key o' m)"
  unfolding tunnel_finding_def Let_def by (rule finding_ok_finding) (simp add: args_ok_def no_args_def)

lemma burst_finding_ok [findings_ok]: "finding_ok (burst_finding cfg src o' m)"
  unfolding burst_finding_def Let_def by (rule finding_ok_finding) (simp add: args_ok_def no_args_def)

lemma dga_finding_ok:
  assumes "info_ok info" "o_model_version o' \<noteq> None"
  shows "finding_ok (dga_finding cfg info key o' m p)"
  unfolding dga_finding_def
  by (rule finding_ok_finding) (use assms in \<open>auto simp: args_ok_def no_args_def info_ok_def mi_status_def split: option.splits\<close>)

text \<open>A scored query carries the model's version.\<close>

lemma score_call_version: "dm_version (snd (score_call m answer)) = dm_version m"
  by (cases answer) (simp_all add: score_call_def Let_def)

lemma scored_version:
  assumes "scored m answer vec obs = Some (q, m')" "dm_active m \<longrightarrow> doc_str (dm_version m) \<noteq> None" "o_p obs = None" "o_p q \<noteq> None"
  shows "o_model_version q \<noteq> None"
proof -
  obtain p m1 where c: "score_call m answer = (p, m1)" by fastforce
  have "dm_version m1 = dm_version m" using score_call_version [of m answer] c by simp
  then show ?thesis using assms c by (auto simp: scored_def Let_def split: if_splits option.splits)
qed

lemma observe_cases:
  assumes "observe inven m answer ev = Some (q, m')"
  shows "o_p q = None \<or> (\<exists>vec obs. o_p obs = None \<and> scored m answer vec obs = Some (q, m'))"
proof -
  have n: "o_p (named obs sp) = o_p obs" for obs sp by (simp add: named_def)
  have "o_p q = None \<or> (\<exists>vec obs. o_p obs = None \<and> scored m answer vec obs = Some (q, m'))"
    if "observe_name inven m answer s b = Some (q, m')" "o_p b = None" for s b
  proof (cases "\<exists>vec obs. o_p obs = None \<and> scored m answer vec obs = Some (q, m')")
    case False
    then have "scored m answer vec obs \<noteq> Some (q, m')" if "o_p obs = None" for vec obs using that by blast
    then show ?thesis using \<open>observe_name inven m answer s b = Some (q, m')\<close> \<open>o_p b = None\<close>
      by (auto simp: observe_name_def n Let_def split: if_splits option.splits sum.splits)
  qed simp
  then show ?thesis using assms by (auto simp: observe_def blank_obs_def split: option.splits json.splits)
qed

lemma observe_versioned:
  assumes "observe inven m answer ev = Some (q, m')" "dm_active m \<longrightarrow> doc_str (dm_version m) \<noteq> None" "o_p q \<noteq> None"
  shows "o_model_version q \<noteq> None"
  using observe_cases [OF assms(1)] scored_version [OF _ assms(2) _ assms(3)] assms(3) by blast

lemma scan_check_findings: "run_check cfg inven src d rt m c = (m', gs) \<Longrightarrow> f \<in> set gs \<Longrightarrow> finding_ok f"
  by (auto simp: run_check_def Let_def findings_ok split: if_splits)

lemma scan_checks_findings: "run_checks cfg inven src d rt m cs = (m', fs) \<Longrightarrow> f \<in> set fs \<Longrightarrow> finding_ok f"
proof (induction cs arbitrary: m' fs rule: rev_induct)
  case Nil
  then show ?case by (simp add: run_checks_def)
next
  case (snoc c cs)
  obtain m1 fs1 where 1: "run_checks cfg inven src d rt m cs = (m1, fs1)" by fastforce
  obtain m2 fs2 where 2: "run_check cfg inven src d rt m1 c = (m2, fs2)" by fastforce
  have "fs = fs1 @ fs2" using snoc.prems 1 2 by (auto simp: run_checks_def)
  then show ?case using snoc.IH [OF 1] scan_check_findings [OF 2] snoc.prems(2) by auto
qed

lemma reported_ok: "reported cfg f \<Longrightarrow> finding_ok f"
proof (induction rule: reported.induct)
  case (scan inven now src s d r f)
  then show ?case by (auto simp: scan_on_event_def Let_def outs_emit_feature dest: scan_checks_findings split: if_splits prod.splits)
next
  case (exfil now src s d r f)
  then show ?case by (auto simp: exfil_on_event_def exfil_report_def Let_def outs_emit_feature findings_ok split: if_splits prod.splits option.splits)
next
  case (beacon inven now key b d r f)
  then show ?case
    by (auto simp: beacon_on_event_def beacon_evaluate_def beacon_report_def Let_def outs_emit_feature findings_ok split: if_splits prod.splits option.splits)
next
  case (encrypted inven now key st ev r f)
  then show ?case by (auto simp: enc_on_event_def enc_report_def Let_def outs_emit_feature findings_ok split: if_splits prod.splits option.splits)
next
  case (flood hash64 now dst fl d r f)
  then show ?case by (auto simp: flood_on_event_def flood_report_def Let_def outs_emit_feature findings_ok split: if_splits prod.splits option.splits)
next
  case (dns inven m answer ev q m' info now key ds r f)
  then show ?case using observe_versioned [OF dns(1,2)]
    by (auto simp: dns_on_event_def tunnel_report_def dga_report_def Let_def outs_emit_feature findings_ok dga_finding_ok split: if_splits prod.splits option.splits bool.splits)
next
  case (burst now src bs q r f)
  then show ?case by (auto simp: burst_on_event_def burst_report_def Let_def findings_ok split: if_splits prod.splits option.splits)
qed

section \<open>What the correlator writes\<close>

definition dated :: "finding \<Rightarrow> bool" where
  "dated f \<longleftrightarrow> 0 \<le> window_start_ms f \<and> 0 \<le> first_seen_ms f"

definition incident_fit :: "incident option \<Rightarrow> bool" where
  "incident_fit st \<longleftrightarrow> (\<forall>s. st = Some s \<longrightarrow> finding_ok (inc_last s) \<and> dated (inc_last s) \<and> 0 \<le> inc_first s
     \<and> 0 \<le> inc_window_start s \<and> length (inc_ids s) \<le> 32)"

lemma merged_ok:
  assumes "finding_ok f" "dated f" "0 \<le> inc_first s" "0 \<le> inc_window_start s" "length (inc_ids s) \<le> 32"
  shows "finding_ok (merged s f) \<and> dated (merged s f)"
  using assms by (auto simp: finding_ok_def merged_def dated_def)

lemma fit_alert:
  assumes "incident_alert now_us s f status = Some al" "finding_ok f" "dated f" "0 \<le> inc_first s" "0 \<le> inc_window_start s"
    "length (inc_ids s) \<le> 32"
  shows "alert_rules al = Some []"
  using record_satisfies_rules [of "merged s f"] merged_ok [OF assms(2-6)] assms(1) by (auto simp: incident_alert_def dated_def)

lemma fit_resolve: "resolve now_us s = Some al \<Longrightarrow> incident_fit (Some s) \<Longrightarrow> alert_rules al = Some []"
  using fit_alert [of now_us "s\<lparr>inc_seq := inc_seq s + 1\<rparr>" "inc_last s" "''resolved''" al]
  by (auto simp: resolve_def incident_fit_def)

lemma fit_open: "finding_ok f \<Longrightarrow> dated f \<Longrightarrow> incident_fit (Some (open_incident f))"
  by (auto simp: incident_fit_def open_incident_def Let_def dated_def finding_ok_def)

lemma fit_decide: "decide cfg old f = (s, status) \<Longrightarrow> incident_fit (Some old) \<Longrightarrow> finding_ok f \<Longrightarrow> dated f \<Longrightarrow> incident_fit (Some s)
    \<and> inc_last s = f"
  by (auto simp: decide_def absorb_def report_def incident_fit_def last_n_def Let_def split: if_splits)

lemma fit_step:
  assumes "incident_step cfg now_us key st i = Some r" "incident_fit st" "\<forall>f. i = Finding f \<longrightarrow> finding_ok f \<and> dated f"
  shows "incident_fit (new_state r) \<and> (\<forall>al \<in> set (outs (emitted r)). alert_rules al = Some [])"
proof (cases i)
  case (Timer ts)
  then show ?thesis using assms(1,2)
    by (auto simp: incident_step_def incident_on_timer_def incident_fit_def [of None] dest: fit_resolve split: option.splits if_splits)
next
  case (Finding f)
  define lapsed where "lapsed = (case st of None \<Rightarrow> False | Some s \<Rightarrow> f_obs_ms f > inc_last_obs s + idle_for cfg (threat_class f))"
  define closing where "closing = (case st of Some s \<Rightarrow> if lapsed then [resolve now_us s] else [] | None \<Rightarrow> [])"
  define live where "live = (if lapsed then None else st)"
  have f: "finding_ok f" "dated f" using assms(3) Finding by simp_all
  have ev: "incident_on_event cfg now_us key st f = Some r" using assms(1) Finding by (simp add: incident_step_def)
  have close: "\<forall>al \<in> set cs. alert_rules al = Some []" if "those closing = Some cs" for cs
    using that assms(2) by (auto simp: closing_def dest: fit_resolve split: option.splits if_splits)
  have sev: "severity f \<in> set severity_names" using ev by (auto simp: incident_on_event_def Let_def split: if_splits)
  have res: "incident_fit (Some s) \<Longrightarrow> finding_ok (inc_last s) \<Longrightarrow> inc_last s = f \<Longrightarrow> incident_alert now_us s f x = Some al
      \<Longrightarrow> alert_rules al = Some []" for s x al
    using fit_alert [of now_us s f x al] f by (auto simp: incident_fit_def)
  show ?thesis
  proof (cases live)
    case None
    let ?s = "open_incident f"
    have l: "inc_last ?s = f" by (simp add: open_incident_def Let_def)
    obtain as where r: "those (closing @ [incident_alert now_us ?s f ''new'']) = Some as" "new_state r = Some ?s" "emitted r = map Out as"
      using ev sev None unfolding incident_on_event_def Let_def lapsed_def [symmetric] closing_def [symmetric] live_def [symmetric]
      by (auto simp: incident_result_Some)
    then show ?thesis using close fit_open [OF f] res [of ?s] f(1) l by (auto simp: those_append split: option.splits)
  next
    case (Some old)
    obtain s status where d: "decide cfg old f = (s, status)" by fastforce
    have "incident_fit (Some old)" using assms(2) Some by (auto simp: live_def incident_fit_def split: if_splits)
    note fd = fit_decide [OF d this f]
    obtain as where r: "those (closing @ (case status of None \<Rightarrow> [] | Some x \<Rightarrow> [incident_alert now_us s f x])) = Some as"
      "new_state r = Some s" "emitted r = map Out as"
      using ev sev Some d unfolding incident_on_event_def Let_def lapsed_def [symmetric] closing_def [symmetric] live_def [symmetric]
      by (auto simp: incident_result_Some split: option.splits)
    then show ?thesis using close fd res [of s] f(1) by (auto simp: those_append split: option.splits)
  qed
qed

lemma fit_run:
  "incident_run cfg key st is = Some (st', as) \<Longrightarrow> incident_fit st \<Longrightarrow> \<forall>(now_us, i) \<in> set is. \<forall>f. i = Finding f \<longrightarrow> finding_ok f \<and> dated f
     \<Longrightarrow> \<forall>al \<in> set as. alert_rules al = Some []"
proof (induction cfg key st "is" arbitrary: as rule: incident_run.induct)
  case (2 cfg key st now_us i "is")
  obtain r as2 where r: "incident_step cfg now_us key st i = Some r" "incident_run cfg key (new_state r) is = Some (st', as2)"
    "as = outs (emitted r) @ as2"
    using 2(2) by (auto split: option.splits)
  have s: "incident_fit (new_state r)" "\<forall>al \<in> set (outs (emitted r)). alert_rules al = Some []"
    using fit_step [OF r(1) 2(3)] 2(4) by auto
  have "\<forall>al \<in> set as2. alert_rules al = Some []" by (rule 2(1) [OF r(1,2) s(1)]) (use 2(4) in auto)
  then show ?case using s(2) r(3) by auto
qed simp

text \<open>
  C30: Every alert update the correlator writes for findings the detectors report, opening, merged into an
  open incident or resolving it, satisfies the cross-field rules of the alert contract: confidence null
  exactly when unavailable, a calibrated probability only with a calibrated status, a model version exactly
  for model and hybrid methods, both intervals in order. The findings are dated after 1970; the model's
  version is a text and its metadata calls a score calibrated only when it is.
\<close>

theorem alerts_satisfy_rules:
  assumes "incident_run cfg key None is = Some (st, as)"
    and "\<forall>(now_us, i) \<in> set is. \<forall>f. i = Finding f \<longrightarrow> reported cfg f \<and> dated f"
  shows "\<forall>al \<in> set as. alert_rules al = Some []"
proof (rule fit_run [OF assms(1)])
  show "\<forall>(now_us, i) \<in> set is. \<forall>f. i = Finding f \<longrightarrow> finding_ok f \<and> dated f" using assms(2) reported_ok by fastforce
qed (simp add: incident_fit_def)

lemma scan_finding_times:
  "severity (scan_finding cfg inven src d m c rt) = scan_severity inven src c rt"
  "f_obs_ms (scan_finding cfg inven src d m c rt) = obs_ms (sc_last m)"
  "f_event_time_us (scan_finding cfg inven src d m c rt) = event_time_us (sc_last m)"
  "f_received_us (scan_finding cfg inven src d m c rt) = received_us (sc_last m)"
  "first_seen_ms (scan_finding cfg inven src d m c rt) = min (obs_ms (sc_first m)) (obs_ms (sc_last m))"
  "last_seen_ms (scan_finding cfg inven src d m c rt) = obs_ms (sc_last m)"
  "window_start_ms (scan_finding cfg inven src d m c rt) = min (max (obs_ms (sc_first m)) (obs_ms d - scan_horizon_ms cfg)) (obs_ms d)"
  "window_end_ms (scan_finding cfg inven src d m c rt) = obs_ms d"
  "threat_class (scan_finding cfg inven src d m c rt) = ''scan''"
  by (simp_all add: scan_finding_def finding_def no_args_def Let_def)

lemma run_checks_times:
  "run_checks cfg inven src d rt m cs = (m', fs) \<Longrightarrow> sc_first m' = sc_first m \<and> sc_last m' = sc_last m
     \<and> (\<forall>f \<in> set fs. \<exists>m1 c. f = scan_finding cfg inven src d m1 c rt \<and> sc_first m1 = sc_first m \<and> sc_last m1 = sc_last m)"
proof (induction cs arbitrary: m' fs rule: rev_induct)
  case Nil
  then show ?case by (simp add: run_checks_def)
next
  case (snoc c cs)
  obtain m1 fs1 where 1: "run_checks cfg inven src d rt m cs = (m1, fs1)" by fastforce
  obtain m2 fs2 where 2: "run_check cfg inven src d rt m1 c = (m2, fs2)" by fastforce
  have eq: "m' = m2" "fs = fs1 @ fs2" using snoc.prems 1 2 by (auto simp: run_checks_def)
  have "sc_first m2 = sc_first m1 \<and> sc_last m2 = sc_last m1 \<and> (\<forall>f \<in> set fs2. f = scan_finding cfg inven src d m2 c rt)"
    using 2 by (auto simp: run_check_def Let_def split: if_splits)
  then show ?case using snoc.IH [OF 1] unfolding eq by auto
qed

lemma enter_pair_first: "enter_pair cfg s m d = (s', m', ms) \<Longrightarrow> sc_first m' = sc_first m"
  by (auto simp: enter_pair_def Let_def split: option.splits if_splits prod.splits)

lemma first_scan_report:
  assumes "scan_on_event cfg inven now src scan_empty d = Some r" "f \<in> set (outs (emitted r))"
  shows "\<exists>m c rt. f = scan_finding cfg inven src d m c rt \<and> sc_first m = ev_min d \<and> sc_last m = ev_min d"
proof -
  have n: "fl_new_flow d" using assms by (auto simp: scan_on_event_def split: if_splits)
  obtain s1 m1 ms where e: "enter_pair cfg scan_empty (scan_meta_new d) d = (s1, m1, ms)" by (cases "enter_pair cfg scan_empty (scan_meta_new d) d") auto
  have m2: "sc_first (note_outcome m1 d) = ev_min d" "sc_last (note_outcome m1 d) = ev_min d"
    using enter_pair_first [OF e] by (simp_all add: note_outcome_def scan_meta_new_def Let_def)
  obtain cs rt m3 fs where c: "run_checks cfg inven src d rt (note_outcome m1 d) cs = (m3, fs)" "f \<in> set fs"
    using assms n e by (fastforce simp: scan_on_event_def scan_empty_def Let_def outs_emit_feature split: if_splits prod.splits)
  show ?thesis using run_checks_times [OF c(1)] c(2) m2 by metis
qed

lemma demo_scan_report:
  "\<exists>r f. scan_on_event (default_config\<lparr>scan_host_threshold := 1\<rparr>) no_inventory 0 ''10.0.0.1'' scan_empty (demo_flow ''10.0.0.2'' 80 40000)
     = Some r \<and> f \<in> set (outs (emitted r)) \<and> severity f \<in> set severity_names \<and> f_obs_ms f = 40000 \<and> f_event_time_us f = 40000000
     \<and> f_received_us f = 40000000 \<and> first_seen_ms f = 40000 \<and> last_seen_ms f = 40000 \<and> window_start_ms f = 40000 \<and> window_end_ms f = 40000
     \<and> threat_class f = ''scan''"
proof -
  let ?d = "demo_flow ''10.0.0.2'' 80 40000"
  obtain r f where r: "scan_on_event (default_config\<lparr>scan_host_threshold := 1\<rparr>) no_inventory 0 ''10.0.0.1'' scan_empty ?d = Some r"
    "f \<in> set (outs (emitted r))" using demo_scan_event by blast
  obtain m c rt where f: "f = scan_finding (default_config\<lparr>scan_host_threshold := 1\<rparr>) no_inventory ''10.0.0.1'' ?d m c rt"
      "sc_first m = ev_min ?d" "sc_last m = ev_min ?d"
    using first_scan_report [OF r] by blast
  have "scan_severity no_inventory ''10.0.0.1'' c rt \<in> set severity_names" by (simp add: scan_severity_def severity_names_def)
  moreover have "obs_ms (ev_min ?d) = 40000" "event_time_us (ev_min ?d) = 40000000" "received_us (ev_min ?d) = 40000000" "obs_ms ?d = 40000"
    by (simp_all add: demo_flow_def ev_min_def ev_min.truncate_def)
  moreover have "0 \<le> scan_horizon_ms (default_config\<lparr>scan_host_threshold := 1\<rparr>)" by simp
  ultimately show ?thesis using r f by (intro exI [of _ r] exI [of _ f]) (simp add: scan_finding_times)
qed

lemma demo_scan_alert_run:
  assumes "severity f \<in> set severity_names" "f_obs_ms f = 40000" "f_event_time_us f = 40000000" "f_received_us f = 40000000"
    "first_seen_ms f = 40000" "last_seen_ms f = 40000" "window_start_ms f = 40000" "window_end_ms f = 40000" "threat_class f = ''scan''"
  shows "\<exists>st as. incident_run (default_config\<lparr>scan_host_threshold := 1\<rparr>) ''k'' None [(0, Finding f), (1, Timer 10000000)] = Some (st, as) \<and> length as = 2"
  using assms format_us_Some [of 40000000] format_us_Some [of 0] format_us_Some [of 1]
  by (auto simp: incident_step_def incident_on_event_def incident_on_timer_def incident_result_def resolve_def
      incident_alert_def merged_def open_incident_def alert_record_def alert_times_def Let_def format_ms_def idle_for_def)

theorem alerts_satisfy_rules_witness:
  "\<exists>f st as. reported (default_config\<lparr>scan_host_threshold := 1\<rparr>) f
     \<and> incident_run (default_config\<lparr>scan_host_threshold := 1\<rparr>) ''k'' None [(0, Finding f), (1, Timer 10000000)] = Some (st, as)
     \<and> length as = 2 \<and> (\<forall>al \<in> set as. alert_rules al = Some [])"
proof -
  obtain r f where f: "scan_on_event (default_config\<lparr>scan_host_threshold := 1\<rparr>) no_inventory 0 ''10.0.0.1'' scan_empty (demo_flow ''10.0.0.2'' 80 40000) = Some r"
     "f \<in> set (outs (emitted r))" "severity f \<in> set severity_names" "f_obs_ms f = 40000" "f_event_time_us f = 40000000"
     "f_received_us f = 40000000" "first_seen_ms f = 40000" "last_seen_ms f = 40000" "window_start_ms f = 40000" "window_end_ms f = 40000"
     "threat_class f = ''scan''"
    using demo_scan_report by blast
  obtain st as where r: "incident_run (default_config\<lparr>scan_host_threshold := 1\<rparr>) ''k'' None [(0, Finding f), (1, Timer 10000000)] = Some (st, as)"
      "length as = 2"
    using demo_scan_alert_run [OF f(3-11)] by blast
  have rep: "reported (default_config\<lparr>scan_host_threshold := 1\<rparr>) f" by (rule reported.scan [OF f(1,2)])
  have "\<forall>al \<in> set as. alert_rules al = Some []"
    by (rule alerts_satisfy_rules [OF r(1)]) (use rep f(7,9) in \<open>auto simp: dated_def\<close>)
  then show ?thesis using rep r by blast
qed

end
