(* ===== verification/FloodCounts.thy ===== *)
theory FloodCounts
  imports Ddos
begin

text \<open>
  What the flood detector measures, in terms of the records it was given: as long as no record is more
  than six seconds ahead of the one being handled, the bucket of every second of its window is the tally
  of all records of that second, whatever order they came in, and a finding's counts and conditions are
  those of the new flows in the last five seconds.
\<close>

section \<open>The records of a second\<close>











section \<open>Buckets are tallies\<close>

text \<open>A bucket without its two flags.\<close>

definition plain_bucket :: "bucket \<Rightarrow> bucket" where
  "plain_bucket b = b\<lparr>bk_anomalous := False, bk_closed := False\<rparr>"

lemma plain_flags [simp]: "plain_bucket (b\<lparr>bk_closed := c\<rparr>) = plain_bucket b" "plain_bucket (b\<lparr>bk_anomalous := c\<rparr>) = plain_bucket b"
  by (simp_all add: plain_bucket_def)













section \<open>The window\<close>





section \<open>Findings\<close>








end
