(* ===== verification/Spec2Isabelle.thy ===== *)
theory Spec2Isabelle
  imports Ids Timeutil Reassembly Dedup Spool ReceiverSafety Publisher Replay Sinks Archive AlertRules FloodCounts
begin

text \<open>
  A verification development of the one-way telemetry pipeline of this repository: the Python code under
  \<^verbatim>\<open>src/lib\<close>, \<^verbatim>\<open>src/ingest\<close>, \<^verbatim>\<open>src/flink\<close> and \<^verbatim>\<open>src/consumers\<close> that carries
  network observations from a sensor over a unidirectional link to the detectors, their alerts and the stores.

  \<^bold>\<open>The program.\<close>
  On the sensor side the sender follows Zeek's JSON logs (\<^verbatim>\<open>tail.py\<close>) or replays finished run
  directories (\<^verbatim>\<open>replay.py\<close>). Each line is normalized (\<^verbatim>\<open>normalizer.py\<close>), put in an
  envelope with a sequence number, cut into authenticated frames (\<^verbatim>\<open>linkframe.py\<close>) and written to a
  socket that is never read (\<^verbatim>\<open>link.py\<close>). On the other side the receiver checks and reassembles the
  frames (\<^verbatim>\<open>reassembly.py\<close>), drops what it has seen (\<^verbatim>\<open>dedup.py\<close>), validates the
  event (\<^verbatim>\<open>contracts.py\<close>), stores it in a spool on disk (\<^verbatim>\<open>spool.py\<close>) and
  marks its number (\<^verbatim>\<open>core.py\<close>); the publisher hands the spool to Kafka and releases what was
  acknowledged (\<^verbatim>\<open>publisher.py\<close>). The detection job parses the events
  (\<^verbatim>\<open>events.py\<close>), turns cumulative flow records into deltas (\<^verbatim>\<open>flowdelta.py\<close>) and
  runs keyed detectors (\<^verbatim>\<open>scan.py\<close>, \<^verbatim>\<open>exfil.py\<close>, \<^verbatim>\<open>beacon.py\<close>,
  \<^verbatim>\<open>encrypted.py\<close>, \<^verbatim>\<open>ddos.py\<close>, \<^verbatim>\<open>dns.py\<close> with the model of
  \<^verbatim>\<open>dga_model.py\<close>), whose findings are correlated into incidents (\<^verbatim>\<open>incidents.py\<close>)
  and written as alert records (\<^verbatim>\<open>alerts.py\<close>). Consumers store the topics
  (\<^verbatim>\<open>consumers/sih_consumers\<close>), and days that are over are exported to an object store, verified and
  dropped from the database (\<^verbatim>\<open>archive.py\<close>).

  \<^bold>\<open>Theories, from the bottom up.\<close>
  \<^item> \<open>Prelude\<close>: bytes, big-endian integers, Python's slices, ordered dictionaries, text; \<open>Hashes\<close>: SHA-1, SHA-256, HMAC, UUIDs;
    \<open>Json\<close>: values of \<^verbatim>\<open>json.loads\<close> with finite numbers, dictionary reads, the text form of integers; \<open>Floats\<close>: floats with
    the infinities and NaN, their comparisons and Python's \<^verbatim>\<open>max\<close>, documents that hold them (\<open>jdoc\<close>), and the exceptions of
    \<^verbatim>\<open>int()\<close>, \<^verbatim>\<open>float()\<close> and \<^verbatim>\<open>round()\<close>.
  \<^item> \<open>Ids\<close>, \<open>Timeutil\<close>, \<open>Iputil\<close>, \<open>LinkFrame\<close>, \<open>Contracts\<close>, \<open>DgaFeatures\<close>: the files of the same names in \<^verbatim>\<open>lib/sih_common\<close>.
  \<^item> \<open>Normalizer\<close>, \<open>Sender\<close> (\<^verbatim>\<open>context.py\<close>, \<^verbatim>\<open>state.py\<close>, \<^verbatim>\<open>link.py\<close>), \<open>Tail\<close>,
    \<open>Replay\<close> (with the health records of \<^verbatim>\<open>__main__.py\<close>): \<^verbatim>\<open>ingest/sender/sih_sender\<close>.
  \<^item> \<open>Reassembly\<close>, \<open>Dedup\<close>, \<open>Spool\<close> with its log view \<open>SpoolLog\<close>, \<open>Receiver\<close> (\<^verbatim>\<open>core.py\<close>) with
    \<open>ReceiverSafety\<close>, \<open>Publisher\<close>: \<^verbatim>\<open>ingest/receiver/sih_receiver\<close>.
  \<^item> \<open>Config\<close> (\<^verbatim>\<open>config.py\<close>, \<^verbatim>\<open>reference.py\<close>), \<open>DetectCommon\<close> (\<^verbatim>\<open>common.py\<close>), \<open>Alerts\<close>,
    \<open>Harness\<close>, \<open>Events\<close>, \<open>FlowDelta\<close>, \<open>Scan\<close>, \<open>Exfil\<close>, \<open>Beacon\<close>, \<open>Encrypted\<close>, \<open>Ddos\<close>, \<open>DgaModel\<close>, \<open>Dns\<close>,
    \<open>Incidents\<close>: \<^verbatim>\<open>flink/sih_detect\<close>; \<open>FloodCounts\<close>: what the flood detector's buckets hold in terms of the records it was
    given; \<open>AlertRules\<close>: the findings of all detectors and the alerts made of them.
  \<^item> \<open>Consumers\<close> (\<^verbatim>\<open>base.py\<close>), \<open>Sinks\<close> (\<^verbatim>\<open>clickhouse_sinks.py\<close>, \<^verbatim>\<open>opensearch_sink.py\<close>, \<^verbatim>\<open>notifier.py\<close>), \<open>Archive\<close>
    (\<^verbatim>\<open>archive.py\<close>): \<^verbatim>\<open>consumers/sih_consumers\<close>.

  \<^bold>\<open>State and operations.\<close>
  A class of the source is a record of its attributes, a method a function that returns its result and the new
  record; a dictionary whose order matters is an association list in that order, an integer of a frame or a digest a
  word, an exception a value of a sum or option type, of which \<open>None\<close> is the one no caller handles. A loop is
  recursion with a termination proof; no definition uses fuel. The loops whose length depends on the data are shown to
  end: the timer loop of the harness for every detector whose timers advance (locale \<open>keyed_logic\<close>), the replay of
  the receiver's spool at start, the reading of lines and chunks. Locales state the interfaces: \<open>keyed_logic\<close> and
  \<open>passive_logic\<close> what the harness needs of a detector, interpreted for each detector's own handlers, and
  \<open>record_fragments\<close> what reassembly needs of the frame codec.

  \<^bold>\<open>What is shown.\<close>
  \<^item> Link: datagrams decode to the fragments they were cut from, an accepted datagram is authentic, fragments complete a
    record in any order, the table stays bounded, every transmission attempt is counted.
  \<^item> Sender: accepted records satisfy the availability rules, counters are copied or null, exactly which exceptions
    escape; tailing reads each complete line once and in order however the reads fall, positions survive rotation,
    what the saved state lacks after a crash; an interrupted replay resends only exact duplicates and omits nothing.
  \<^item> Receiver: the window refines a set of accepted numbers with exact counts of gaps and losses; the spool is a log
    that survives a crash at any byte and is read back in order; over all datagrams, releases, crashes and restarts the
    events the spool holds at a time are distinct and refused when they arrive again (an event that was released may be
    stored again after a crash that lost the last windows), and an entry stays in the spool until the broker has it.
  \<^item> Detection: a parsed event carries the observation time of the contract, deltas telescope, counters of the scan, flood
    and burst windows are exact, findings rest on their thresholds, the model is used only when every check of its bundle
    passes, updates of an incident form consecutive lives, alerts satisfy the rules of their contract.
  \<^item> Consumers: offsets are committed only for what is stored or quarantined, an outage is outlasted, a partition is dropped
    only after its archive was read back and compared, an exported day restores to the same lines.
  \<^item> Findings: theorems that show where the code departs from what it or its documentation says, among them a line sent
    under two numbers after a restart, the remainder of an oversized line sent as a record, a late record that discards
    a DNS window, colliding identifiers of reopened incidents, snapshots counted again after a terminal record, records
    that stop the sender or the notifier, late rows dropped with an archived partition, and a model that answers NaN being
    activated.

  \<^bold>\<open>Parameters and idealisations.\<close>
  Code outside the repository is a parameter of the definitions that use it: \<^verbatim>\<open>json.loads\<close> and
  \<^verbatim>\<open>json.dumps\<close>, the errors of jsonschema (\<open>iter_errors\<close>), BLAKE2b (\<open>hash64\<close>), the text of Python values in
  messages, decoding of UTF-8 on input, the ONNX runtime and the files of a model bundle, the outcome of a datagram,
  the callbacks of the Kafka client, the answers of the stores. Clocks are arguments, one reading per operation. Finite
  floats are exact reals, so rounding errors are outside the model. Infinities and NaN are in it where a document or the
  runtime can bring them into a comparison or a conversion: the parser of events, the sinks and the checks of the DGA
  bundle; the records the detectors work on, and the scores, the table and the explanation of a running model, are finite.
  Text is a list of bytes of its UTF-8 form, its characters
  counted as code points, with the letters, digits and white space of ASCII. File contents are byte lists; a crash loses memory
  and any suffix of what was not synced. Threads are serialised by their locks: an operation under a lock is one step.

  \<^bold>\<open>Not modelled.\<close>
  Reading settings from the environment, logging and metrics exposition, the supervisor and job wiring of Flink (calls
  of its API), the pacing of the sender (token bucket and waits, which change when and not what is sent), the
  \<^verbatim>\<open>__main__\<close> modules (signals, threads), the requests of the sinks to ClickHouse, OpenSearch and the notification
  store, the dashboard API and web front end, the data generator, model training, schema examples,
  benchmarks and tests.
\<close>

end
